(* ===== verification/Aeor_Prelude.thy ===== *)
theory Aeor_Prelude
  imports Main "HOL-Library.Word" "HOL-Library.List_Lexorder" "HOL-Library.AList"
begin

text \<open>
  Shared vocabulary of the development: machine integers, byte strings, the engine's error type
  and its propagation (the question-mark operator), little-endian integer codecs
  (\<^verbatim>\<open>to_le_bytes\<close>, \<^verbatim>\<open>from_le_bytes\<close>), UTF-8 validity (\<^verbatim>\<open>String::from_utf8\<close>), a file as the
  list of its bytes with positioned reads and writes, \<^verbatim>\<open>slice::binary_search_by\<close> as the
  standard library implements it, and vectors kept sorted by a key.  The collections
  \<open>codec_simps\<close> and \<open>file_simps\<close> hold the rules the component theories pass to the simplifier.
\<close>

named_theorems codec_simps \<open>lengths and inverses of the byte codecs\<close>
named_theorems file_simps \<open>positioned reads after positioned writes\<close>

section \<open>Machine types\<close>

type_synonym u8 = "8 word"
type_synonym u16 = "16 word"
type_synonym u32 = "32 word"
type_synonym u64 = "64 word"

text \<open>\<open>i64\<close> is stored as its 64 bits; comparisons read it with \<open>sint\<close>.\<close>

type_synonym i64 = "64 word"
type_synonym bytes = "u8 list"

text \<open>A Rust \<^verbatim>\<open>String\<close> is its UTF-8 bytes; \<open>utf8_valid\<close> below is the type's invariant.\<close>

type_synonym str = bytes

definition lit :: "string \<Rightarrow> str" where
  "lit s = map of_char s"

section \<open>Errors\<close>

text \<open>
  The variants of \<^verbatim>\<open>EngineError\<close> (\<^verbatim>\<open>errors.rs\<close>).  A message keeps the fixed part of its
  text; the numbers that \<^verbatim>\<open>format!\<close> splices in are left out.
\<close>

datatype engine_error =
    IoError string
  | InvalidMagic
  | InvalidEntryVersion u8
  | InvalidEntryType u8
  | InvalidHashAlgorithm u16
  | CorruptEntry nat string
  | UnexpectedEof
  | NotFound string
  | AlreadyExists string
  | RangeQueryNotSupported string
  | JsonParseError string
  | ReservedUserId
  | UnsafeQueryField string
  | PatchDatabase string
  | InvalidInput string
  | SnapshotWritesDisabled
  | DurabilityFailure string
  | ShuttingDown
  | CyclicSymlink string
  | SymlinkDepthExceeded string

type_synonym 'a engine_result = "engine_error + 'a"

text \<open>Sequencing with early return on error.\<close>

definition res_bind :: "'e + 'a \<Rightarrow> ('a \<Rightarrow> 'e + 'b) \<Rightarrow> 'e + 'b" where
  "res_bind m f = (case m of Inl e \<Rightarrow> Inl e | Inr x \<Rightarrow> f x)"

lemma res_bind_simps [simp]:
  "res_bind (Inl e) f = Inl e"
  "res_bind (Inr x) f = f x"
  by (simp_all add: res_bind_def)

lemma res_bind_eq_Inr [simp]:
  "res_bind m f = Inr y \<longleftrightarrow> (\<exists>x. m = Inr x \<and> f x = Inr y)"
  by (cases m) auto

lemma res_bind_cong [fundef_cong]:
  "m = m' \<Longrightarrow> (\<And>x. m' = Inr x \<Longrightarrow> f x = f' x) \<Longrightarrow> res_bind m f = res_bind m' f'"
  by (cases m') auto

definition ok_or :: "'e \<Rightarrow> 'a option \<Rightarrow> 'e + 'a" where
  "ok_or e m = (case m of None \<Rightarrow> Inl e | Some x \<Rightarrow> Inr x)"

lemma ok_or_simps [simp]:
  "ok_or e None = Inl e"
  "ok_or e (Some x) = Inr x"
  by (simp_all add: ok_or_def)

lemma ok_or_eq_Inr [simp]: "ok_or e m = Inr x \<longleftrightarrow> m = Some x"
  by (cases m) auto

section \<open>Little-endian codecs\<close>

primrec le_enc :: "nat \<Rightarrow> nat \<Rightarrow> bytes" where
  "le_enc 0 x = []"
| "le_enc (Suc n) x = word_of_nat x # le_enc n (x div 256)"

primrec le_dec :: "bytes \<Rightarrow> nat" where
  "le_dec [] = 0"
| "le_dec (b # bs) = unat b + 256 * le_dec bs"

definition to_le_bytes :: "'a::len word \<Rightarrow> bytes" where
  "to_le_bytes w = le_enc (LENGTH('a) div 8) (unat w)"

definition from_le_bytes :: "bytes \<Rightarrow> 'a::len word" where
  "from_le_bytes bs = word_of_nat (le_dec bs)"

lemma unat_u8_less: "unat (b :: u8) < 256"
  using unsigned_less [of b, where ?'a = nat] by simp

lemma length_le_enc [simp]: "length (le_enc n x) = n"
  by (induction n arbitrary: x) simp_all

lemma le_dec_le_enc: "le_dec (le_enc n x) = x mod 256 ^ n"
proof (induction n arbitrary: x)
  case 0
  then show ?case by simp
next
  case (Suc n)
  have "le_dec (le_enc (Suc n) x) = x mod 256 + 256 * (x div 256 mod 256 ^ n)"
    by (simp add: Suc.IH unat_of_nat)
  also have "\<dots> = x mod 256 ^ Suc n"
    by (simp add: mod_mult2_eq)
  finally show ?case .
qed

lemma le_dec_bound: "le_dec bs < 256 ^ length bs"
proof (induction bs)
  case Nil
  then show ?case by simp
next
  case (Cons b bs)
  then have "256 + 256 * le_dec bs \<le> 256 * 256 ^ length bs" by simp
  with unat_u8_less [of b] show ?case by simp
qed

lemma le_enc_le_dec: "length bs = n \<Longrightarrow> le_enc n (le_dec bs) = bs"
proof (induction bs arbitrary: n)
  case Nil
  then show ?case by simp
next
  case (Cons b bs)
  then obtain m where n: "n = Suc m" and m: "length bs = m" by (cases n) auto
  have b: "unat b < 256" by (rule unat_u8_less)
  have "word_of_nat (unat b + 256 * le_dec bs) = b"
  proof -
    have "(256 :: u8) = 0" by simp
    then show ?thesis by (simp only: of_nat_add of_nat_mult of_nat_numeral) simp
  qed
  moreover have "(unat b + 256 * le_dec bs) div 256 = le_dec bs" using b by simp
  ultimately show ?case using Cons.IH [OF m] n by simp
qed

lemma length_to_le_bytes: "length (to_le_bytes (w :: 'a::len word)) = LENGTH('a) div 8"
  by (simp add: to_le_bytes_def)

lemma pow256_length:
  assumes "8 dvd LENGTH('a::len)"
  shows "(256::nat) ^ (LENGTH('a) div 8) = 2 ^ LENGTH('a)"
proof -
  obtain k where k: "LENGTH('a) = 8 * k" using assms by blast
  have "(256::nat) = 2 ^ 8" by simp
  then show ?thesis by (simp add: k power_mult)
qed

lemma from_le_to_le:
  assumes "8 dvd LENGTH('a::len)"
  shows "from_le_bytes (to_le_bytes (w :: 'a word)) = w"
  by (simp add: from_le_bytes_def to_le_bytes_def le_dec_le_enc pow256_length [OF assms])

lemma to_le_from_le:
  assumes "8 dvd LENGTH('a::len)" and "length bs = LENGTH('a) div 8"
  shows "to_le_bytes (from_le_bytes bs :: 'a word) = bs"
proof -
  have "(256::nat) ^ (LENGTH('a) div 8) = 2 ^ LENGTH('a)"
    using assms(1) by (rule pow256_length)
  then have "unat (word_of_nat (le_dec bs) :: 'a word) = le_dec bs"
    using le_dec_bound [of bs] assms(2) by (simp add: unat_of_nat)
  then show ?thesis
    using le_enc_le_dec [OF assms(2)] by (simp add: to_le_bytes_def from_le_bytes_def)
qed

lemma le_word_codec [simp, codec_simps]:
  "length (to_le_bytes (a :: u16)) = 2"
  "length (to_le_bytes (b :: u32)) = 4"
  "length (to_le_bytes (c :: u64)) = 8"
  "from_le_bytes (to_le_bytes a) = a"
  "from_le_bytes (to_le_bytes b) = b"
  "from_le_bytes (to_le_bytes c) = c"
  by (simp_all add: length_to_le_bytes from_le_to_le)

lemma le_word_codec_inv [simp, codec_simps]:
  "length bs = 2 \<Longrightarrow> to_le_bytes (from_le_bytes bs :: u16) = bs"
  "length bs = 4 \<Longrightarrow> to_le_bytes (from_le_bytes bs :: u32) = bs"
  "length bs = 8 \<Longrightarrow> to_le_bytes (from_le_bytes bs :: u64) = bs"
  by (simp_all add: to_le_from_le)

lemma unat_word_of_nat_u16: "n < 65536 \<Longrightarrow> unat (word_of_nat n :: u16) = n"
  by (simp add: unat_of_nat)

lemma unat_word_of_nat_u32: "n < 4294967296 \<Longrightarrow> unat (word_of_nat n :: u32) = n"
  by (simp add: unat_of_nat)

lemma unat_word_of_nat_u64: "n < 18446744073709551616 \<Longrightarrow> unat (word_of_nat n :: u64) = n"
  by (simp add: unat_of_nat)

lemmas unat_word_of_nat = unat_word_of_nat_u16 unat_word_of_nat_u32 unat_word_of_nat_u64

text \<open>Big-endian decoding of \<^verbatim>\<open>u64::from_be_bytes\<close>, as a natural number.\<close>

primrec be_dec :: "nat \<Rightarrow> bytes \<Rightarrow> nat" where
  "be_dec acc [] = acc"
| "be_dec acc (b # bs) = be_dec (256 * acc + unat b) bs"

section \<open>Slices\<close>

text \<open>\<^verbatim>\<open>data[offset..offset + len]\<close>, used only where the code has checked the range.\<close>

definition slice_at :: "'a list \<Rightarrow> nat \<Rightarrow> nat \<Rightarrow> 'a list" where
  "slice_at data offset len = take len (drop offset data)"

lemma length_slice_at [simp]:
  "offset + len \<le> length data \<Longrightarrow> length (slice_at data offset len) = len"
  by (simp add: slice_at_def)

lemma slice_at_append_left [simp]:
  "offset + len \<le> length xs \<Longrightarrow> slice_at (xs @ ys) offset len = slice_at xs offset len"
  by (simp add: slice_at_def)

lemma slice_at_append_right [simp]:
  "length xs \<le> offset \<Longrightarrow> slice_at (xs @ ys) offset len = slice_at ys (offset - length xs) len"
  by (simp add: slice_at_def)

lemma slice_at_Cons [simp]:
  "0 < offset \<Longrightarrow> slice_at (x # xs) offset len = slice_at xs (offset - 1) len"
  by (cases offset) (simp_all add: slice_at_def)

lemma slice_at_all [simp]: "length xs \<le> len \<Longrightarrow> slice_at xs 0 len = xs"
  by (simp add: slice_at_def)

lemma slice_at_prefix: "length xs = len \<Longrightarrow> slice_at (xs @ ys) 0 len = xs"
  by simp

lemma slice_at_split:
  "offset + len + m \<le> length data \<Longrightarrow>
    slice_at data offset (len + m) = slice_at data offset len @ slice_at data (offset + len) m"
  by (simp add: slice_at_def take_add drop_drop add.commute)

section \<open>UTF-8\<close>

text \<open>
  The byte sequences \<^verbatim>\<open>String::from_utf8\<close> accepts: the well-formed sequences of the Unicode
  standard (no overlong forms, no surrogates, nothing above U+10FFFF).
\<close>

definition in_range :: "nat \<Rightarrow> nat \<Rightarrow> u8 \<Rightarrow> bool" where
  "in_range lo hi b \<longleftrightarrow> lo \<le> unat b \<and> unat b \<le> hi"

definition utf8_second :: "u8 \<Rightarrow> u8 \<Rightarrow> bool" where
  "utf8_second b c =
    (if b = 0xE0 then in_range 0xA0 0xBF c
     else if b = 0xED then in_range 0x80 0x9F c
     else if b = 0xF0 then in_range 0x90 0xBF c
     else if b = 0xF4 then in_range 0x80 0x8F c
     else in_range 0x80 0xBF c)"

fun utf8_valid :: "bytes \<Rightarrow> bool" where
  "utf8_valid [] = True"
| "utf8_valid (b # bs) =
    (if in_range 0x00 0x7F b then utf8_valid bs
     else if in_range 0xC2 0xDF b then
       (case bs of c1 # r \<Rightarrow> utf8_second b c1 \<and> utf8_valid r | _ \<Rightarrow> False)
     else if in_range 0xE0 0xEF b then
       (case bs of c1 # c2 # r \<Rightarrow> utf8_second b c1 \<and> in_range 0x80 0xBF c2 \<and> utf8_valid r
         | _ \<Rightarrow> False)
     else if in_range 0xF0 0xF4 b then
       (case bs of c1 # c2 # c3 # r \<Rightarrow> utf8_second b c1 \<and> in_range 0x80 0xBF c2 \<and>
           in_range 0x80 0xBF c3 \<and> utf8_valid r
         | _ \<Rightarrow> False)
     else False)"

section \<open>Files\<close>

text \<open>
  A file is the list of its bytes.  \<open>read_exact\<close> is a seek followed by \<^verbatim>\<open>read_exact\<close>
  (\<open>None\<close> at end of file), \<open>write_at\<close> a seek followed by \<^verbatim>\<open>write_all\<close> (the gap a seek past the
  end leaves reads as zeros), \<open>set_len\<close> truncates or zero-extends.  Device errors are not
  modelled, so \<^verbatim>\<open>sync_data\<close> is the identity.
\<close>

definition read_exact :: "bytes \<Rightarrow> nat \<Rightarrow> nat \<Rightarrow> bytes option" where
  "read_exact f off n = (if off + n \<le> length f then Some (slice_at f off n) else None)"

definition write_at :: "bytes \<Rightarrow> nat \<Rightarrow> bytes \<Rightarrow> bytes" where
  "write_at f off bs = take off f @ replicate (off - length f) 0 @ bs @ drop (off + length bs) f"

definition set_len :: "bytes \<Rightarrow> nat \<Rightarrow> bytes" where
  "set_len f n = take n f @ replicate (n - length f) 0"

lemma length_write_at [simp, file_simps]:
  "length (write_at f off bs) = max (length f) (off + length bs)"
  by (simp add: write_at_def)

lemma length_set_len [simp, file_simps]: "length (set_len f n) = n"
  by (simp add: set_len_def)

lemma read_write_same [simp, file_simps]:
  "n = length bs \<Longrightarrow> read_exact (write_at f off bs) off n = Some bs"
  by (simp add: read_exact_def write_at_def slice_at_def)

lemma read_write_before [file_simps]:
  assumes "off2 + n \<le> off" and "off2 + n \<le> length f"
  shows "read_exact (write_at f off bs) off2 n = read_exact f off2 n"
proof -
  have "take n (drop off2 (write_at f off bs)) = take n (drop off2 (take off f))"
    using assms by (simp add: write_at_def)
  also have "\<dots> = take n (drop off2 f)"
    using assms by (simp add: drop_take)
  finally show ?thesis using assms by (simp add: read_exact_def slice_at_def)
qed

lemma read_write_after [file_simps]:
  assumes "off + length bs \<le> off2" and "off2 + n \<le> length f"
  shows "read_exact (write_at f off bs) off2 n = read_exact f off2 n"
proof (cases "n = 0")
  case True
  with assms show ?thesis by (simp add: read_exact_def slice_at_def)
next
  case False
  have "drop off2 (write_at f off bs) = drop (off2 - (off + length bs)) (drop (off + length bs) f)"
    using assms by (simp add: write_at_def)
  also have "\<dots> = drop off2 f" using assms by simp
  finally show ?thesis using assms by (simp add: read_exact_def slice_at_def)
qed

lemma read_write_other:
  assumes "off2 + n \<le> off \<or> off + length bs \<le> off2" and "off2 + n \<le> length f"
  shows "read_exact (write_at f off bs) off2 n = read_exact f off2 n"
  using assms read_write_before read_write_after by blast

lemma read_set_len [file_simps]:
  assumes "off + n \<le> m" and "off + n \<le> length f"
  shows "read_exact (set_len f m) off n = read_exact f off n"
proof -
  have "take n (drop off (set_len f m)) = take n (drop off (take m f))"
    using assms by (simp add: set_len_def)
  also have "\<dots> = take n (drop off f)" using assms by (simp add: drop_take)
  finally show ?thesis using assms by (simp add: read_exact_def slice_at_def)
qed

lemma read_exact_length: "read_exact f off n = Some bs \<Longrightarrow> length bs = n"
  by (auto simp: read_exact_def split: if_splits)

section \<open>Ordering and binary search\<close>

datatype ordering = Less | Equal | Greater

definition cmp :: "'a::linorder \<Rightarrow> 'a \<Rightarrow> ordering" where
  "cmp a b = (if a < b then Less else if a = b then Equal else Greater)"

lemma cmp_simps [simp]:
  "cmp a b = Less \<longleftrightarrow> a < b"
  "cmp a b = Equal \<longleftrightarrow> a = b"
  "cmp a b = Greater \<longleftrightarrow> b < a"
  by (auto simp: cmp_def)

text \<open>
  \<^verbatim>\<open>slice::binary_search_by\<close>: halve the window while it has more than one element, then compare
  once.  \<open>Inr i\<close> is \<^verbatim>\<open>Ok(i)\<close>, \<open>Inl i\<close> is \<^verbatim>\<open>Err(i)\<close>, the insertion point.
\<close>

function bsearch_base :: "('a \<Rightarrow> ordering) \<Rightarrow> 'a list \<Rightarrow> nat \<Rightarrow> nat \<Rightarrow> nat" where
  "bsearch_base f xs base sz =
    (if 1 < sz then
       (let half = sz div 2; mid = base + half in
        bsearch_base f xs (if f (xs ! mid) = Greater then base else mid) (sz - half))
     else base)"
  by pat_completeness auto
termination
  by (relation "measure (\<lambda>(f, xs, base, sz). sz)") auto

declare bsearch_base.simps [simp del]

definition binary_search_by :: "('a \<Rightarrow> ordering) \<Rightarrow> 'a list \<Rightarrow> nat + nat" where
  "binary_search_by f xs =
    (if xs = [] then Inl 0
     else let base = bsearch_base f xs 0 (length xs) in
       (case f (xs ! base) of
          Equal \<Rightarrow> Inr base
        | Less \<Rightarrow> Inl (base + 1)
        | Greater \<Rightarrow> Inl base))"

lemma bsearch_base_inv:
  assumes "0 < sz" and "base + sz \<le> length xs"
    and "\<And>i j. i \<le> j \<Longrightarrow> j < length xs \<Longrightarrow> f (xs ! i) = Greater \<Longrightarrow> f (xs ! j) = Greater"
    and "0 < base \<Longrightarrow> f (xs ! base) \<noteq> Greater"
    and "base + sz < length xs \<Longrightarrow> f (xs ! (base + sz)) = Greater"
  shows "let b = bsearch_base f xs base sz in
    b < length xs \<and> (0 < b \<longrightarrow> f (xs ! b) \<noteq> Greater) \<and>
    (Suc b < length xs \<longrightarrow> f (xs ! Suc b) = Greater)"
  using assms
proof (induction f xs base sz rule: bsearch_base.induct)
  case (1 f xs base sz)
  show ?case
  proof (cases "1 < sz")
    case False
    then have "sz = 1" and "bsearch_base f xs base sz = base"
      using "1.prems"(1) by (simp_all add: bsearch_base.simps [of f xs base sz])
    then show ?thesis
      using "1.prems" by (simp add: Let_def)
  next
    case True
    define half where "half = sz div 2"
    have half: "0 < half" "half < sz" using True by (auto simp: half_def)
    define nb where "nb = (if f (xs ! (base + half)) = Greater then base else base + half)"
    have step: "bsearch_base f xs base sz = bsearch_base f xs nb (sz - half)"
      using True by (simp add: bsearch_base.simps [of f xs base sz] Let_def half_def nb_def)
    have "let b = bsearch_base f xs nb (sz - half) in
        b < length xs \<and> (0 < b \<longrightarrow> f (xs ! b) \<noteq> Greater) \<and>
        (Suc b < length xs \<longrightarrow> f (xs ! Suc b) = Greater)"
      unfolding nb_def half_def
    proof (rule "1.IH" [OF True refl refl], goal_cases)
      case 1
      show ?case using True by simp
    next
      case 2
      show ?case using "1.prems"(2) half by (auto simp: half_def)
    next
      case (3 i j)
      then show ?case using "1.prems"(3) by blast
    next
      case 4
      then show ?case using "1.prems"(4) by (auto split: if_splits)
    next
      case 5
      show ?case
      proof (cases "f (xs ! (base + sz div 2)) = Greater")
        case True
        have "base + sz div 2 \<le> base + (sz - sz div 2)" by simp
        then show ?thesis
          using 5 True "1.prems"(3) by auto
      next
        case False
        then show ?thesis using 5 "1.prems"(5) half by (auto simp: half_def)
      qed
    qed
    then show ?thesis by (simp only: step)
  qed
qed

text \<open>Vectors sorted by a key, without duplicates.\<close>

abbreviation sorted_by :: "('a \<Rightarrow> 'k::linorder) \<Rightarrow> 'a list \<Rightarrow> bool" where
  "sorted_by key xs \<equiv> sorted_wrt (\<lambda>a b. key a < key b) xs"

definition search_key :: "('a \<Rightarrow> 'k::linorder) \<Rightarrow> 'k \<Rightarrow> 'a list \<Rightarrow> nat + nat" where
  "search_key key k xs = binary_search_by (\<lambda>e. cmp (key e) k) xs"

lemma search_key_cases:
  assumes "sorted_by key xs"
  obtains (Found) i where "search_key key k xs = Inr i" "i < length xs" "key (xs ! i) = k"
  | (Missing) i where "search_key key k xs = Inl i" "i \<le> length xs"
      "\<And>j. j < i \<Longrightarrow> key (xs ! j) < k" "\<And>j. i \<le> j \<Longrightarrow> j < length xs \<Longrightarrow> k < key (xs ! j)"
proof (cases "xs = []")
  case True
  then show thesis by (intro Missing [of 0]) (auto simp: search_key_def binary_search_by_def)
next
  case False
  have mono: "key (xs ! i) < key (xs ! j)" if "i < j" "j < length xs" for i j
    using assms that by (simp add: sorted_wrt_iff_nth_less)
  define f where "f = (\<lambda>e. cmp (key e) k)"
  define b where "b = bsearch_base f xs 0 (length xs)"
  have inv: "b < length xs \<and> (0 < b \<longrightarrow> f (xs ! b) \<noteq> Greater) \<and>
      (Suc b < length xs \<longrightarrow> f (xs ! Suc b) = Greater)"
  proof -
    have up: "f (xs ! j) = Greater" if "i \<le> j" "j < length xs" "f (xs ! i) = Greater" for i j
      using that mono [of i j] by (cases "i = j") (auto simp: f_def)
    have "let b = bsearch_base f xs 0 (length xs) in
        b < length xs \<and> (0 < b \<longrightarrow> f (xs ! b) \<noteq> Greater) \<and>
        (Suc b < length xs \<longrightarrow> f (xs ! Suc b) = Greater)"
    proof (rule bsearch_base_inv, goal_cases)
      case 1
      show ?case using False by simp
    next
      case (3 i j)
      then show ?case by (rule up)
    qed simp_all
    then show ?thesis by (simp add: b_def Let_def)
  qed
  have below: "key (xs ! j) < key (xs ! b)" if "j < b" for j
    using mono [OF that] inv by blast
  have above: "k < key (xs ! j)" if "b < j" "j < length xs" for j
  proof -
    from that have "Suc b \<le> j" by simp
    moreover have "k < key (xs ! Suc b)" using inv that by (auto simp: f_def)
    ultimately show ?thesis using mono [of "Suc b" j] that by (cases "j = Suc b") auto
  qed
  have res: "search_key key k xs = (case f (xs ! b) of Equal \<Rightarrow> Inr b | Less \<Rightarrow> Inl (b + 1) | Greater \<Rightarrow> Inl b)"
    unfolding search_key_def binary_search_by_def f_def b_def Let_def using False by simp
  consider "key (xs ! b) < k" | "key (xs ! b) = k" | "k < key (xs ! b)" by fastforce
  then show thesis
  proof cases
    case 1
    then have "search_key key k xs = Inl (b + 1)" using res by (simp add: f_def cmp_def)
    then show thesis
    proof (rule Missing)
      show "key (xs ! j) < k" if "j < b + 1" for j
        using that below [of j] 1 by (cases "j = b") auto
    qed (use inv above in auto)
  next
    case 2
    then have "search_key key k xs = Inr b" using res by (simp add: f_def cmp_def)
    then show thesis using 2 inv by (intro Found) auto
  next
    case 3
    then have gr: "f (xs ! b) = Greater" by (simp add: f_def)
    with inv have b0: "b = 0" by auto
    then have "search_key key k xs = Inl 0" using res gr by simp
    then show thesis
      by (rule Missing) (use 3 b0 above in \<open>auto simp: le_less\<close>)
  qed
qed

section \<open>Sorted vectors as finite maps\<close>

definition vec_insert :: "nat \<Rightarrow> 'a \<Rightarrow> 'a list \<Rightarrow> 'a list" where
  "vec_insert i x xs = take i xs @ x # drop i xs"

definition vec_remove :: "nat \<Rightarrow> 'a list \<Rightarrow> 'a list" where
  "vec_remove i xs = take i xs @ drop (Suc i) xs"

text \<open>The map a vector of keyed entries stands for (the first entry of a key counts).\<close>

definition kmap :: "('a \<Rightarrow> 'k) \<Rightarrow> 'a list \<Rightarrow> 'k \<Rightarrow> 'a option" where
  "kmap key xs = map_of (map (\<lambda>e. (key e, e)) xs)"

lemma kmap_simps [simp]:
  "kmap key [] = Map.empty"
  "kmap key (x # xs) = (kmap key xs)(key x \<mapsto> x)"
  by (simp_all add: kmap_def)

lemma kmap_append: "kmap key (xs @ ys) = kmap key ys ++ kmap key xs"
  by (simp add: kmap_def)

lemma kmap_None_iff: "kmap key xs k = None \<longleftrightarrow> k \<notin> key ` set xs"
  by (induction xs) auto

lemma kmap_SomeD: "kmap key xs k = Some e \<Longrightarrow> e \<in> set xs \<and> key e = k"
  by (induction xs) (auto split: if_splits)

lemma kmap_Some_iff:
  "distinct (map key xs) \<Longrightarrow> kmap key xs k = Some e \<longleftrightarrow> e \<in> set xs \<and> key e = k"
proof (induction xs)
  case (Cons a xs)
  show ?case
  proof (cases "key a = k")
    case True
    then have "\<And>e. e \<in> set xs \<Longrightarrow> key e \<noteq> k" 
      using Cons.prems by (metis distinct.simps(2) image_eqI list.simps(9) set_map)
    then show ?thesis using True by auto
  next
    case False
    then show ?thesis using Cons by auto
  qed
qed simp

lemma kmap_eqI:
  assumes "distinct (map key xs)" "distinct (map key ys)" "set xs = set ys"
  shows "kmap key xs = kmap key ys"
proof
  fix k
  show "kmap key xs k = kmap key ys k"
    using kmap_Some_iff [OF assms(1), of k] kmap_Some_iff [OF assms(2), of k] assms(3)
    by (metis option.exhaust)
qed

lemma sorted_by_distinct: "sorted_by key xs \<Longrightarrow> distinct (map key xs)"
  by (induction xs) auto

lemma vec_insert_simps [simp]:
  "set (vec_insert i x xs) = insert x (set xs)"
  "length (vec_insert i x xs) = Suc (length xs)"
proof -
  have "set xs = set (take i xs) \<union> set (drop i xs)"
    by (metis append_take_drop_id set_append)
  then show "set (vec_insert i x xs) = insert x (set xs)"
    by (auto simp: vec_insert_def)
  show "length (vec_insert i x xs) = Suc (length xs)"
    by (simp add: vec_insert_def)
qed

lemma length_vec_remove [simp]: "i < length xs \<Longrightarrow> length (vec_remove i xs) = length xs - 1"
  by (simp add: vec_remove_def)

lemma split_at: "i < length xs \<Longrightarrow> xs = take i xs @ xs ! i # drop (Suc i) xs"
  by (rule id_take_nth_drop)

lemma kmap_vec_insert:
  assumes "key x \<notin> key ` set xs"
  shows "kmap key (vec_insert i x xs) = (kmap key xs)(key x \<mapsto> x)"
proof -
  have "kmap key xs = kmap key (drop i xs) ++ kmap key (take i xs)"
    by (metis kmap_append append_take_drop_id)
  moreover have "key x \<notin> key ` set (take i xs)"
    using assms by (auto dest: in_set_takeD)
  then have "kmap key (take i xs) (key x) = None" by (simp add: kmap_None_iff)
  ultimately show ?thesis
    by (auto simp: vec_insert_def kmap_append map_add_def fun_eq_iff split: option.splits)
qed

lemma kmap_list_update:
  assumes "distinct (map key xs)" "i < length xs" "key (xs ! i) = key x"
  shows "kmap key (xs[i := x]) = (kmap key xs)(key x \<mapsto> x)"
  using assms
proof (induction xs arbitrary: i)
  case Nil
  then show ?case by simp
next
  case (Cons y ys)
  show ?case
  proof (cases i)
    case 0
    with Cons.prems show ?thesis by (auto simp: fun_eq_iff)
  next
    case (Suc j)
    with Cons.prems have "key x \<in> key ` set ys"
      by (metis image_eqI nth_Cons_Suc Suc_less_SucD length_Cons nth_mem)
    then have "key y \<noteq> key x" using Cons.prems by auto
    then show ?thesis using Cons Suc by (auto simp: fun_eq_iff)
  qed
qed

lemma kmap_vec_remove:
  assumes "distinct (map key xs)" "i < length xs"
  shows "kmap key (vec_remove i xs) = (kmap key xs)(key (xs ! i) := None)"
  using assms
proof (induction xs arbitrary: i)
  case Nil
  then show ?case by simp
next
  case (Cons y ys)
  show ?case
  proof (cases i)
    case 0
    then show ?thesis using Cons.prems by (auto simp: vec_remove_def fun_eq_iff kmap_None_iff)
  next
    case (Suc j)
    with Cons.prems have "key (ys ! j) \<in> key ` set ys" by simp
    then have ne: "key y \<noteq> key (ys ! j)" using Cons.prems by auto
    have "kmap key (vec_remove i (y # ys)) = (kmap key (vec_remove j ys))(key y \<mapsto> y)"
      using Suc by (simp add: vec_remove_def)
    then show ?thesis using Cons Suc ne by (auto simp: fun_eq_iff)
  qed
qed

lemma sorted_by_vec_insert:
  assumes "sorted_by key xs" "i \<le> length xs"
    and "\<And>j. j < i \<Longrightarrow> key (xs ! j) < key x"
    and "\<And>j. i \<le> j \<Longrightarrow> j < length xs \<Longrightarrow> key x < key (xs ! j)"
  shows "sorted_by key (vec_insert i x xs)"
proof -
  have "sorted_by key (take i xs @ drop i xs)" using assms(1) by simp
  moreover have "\<forall>a\<in>set (take i xs). key a < key x"
    using assms(2,3) by (auto simp: in_set_conv_nth)
  moreover have "\<forall>b\<in>set (drop i xs). key x < key b"
    using assms(2,4) by (auto simp: in_set_conv_nth)
  ultimately show ?thesis
    unfolding vec_insert_def sorted_wrt_append by auto
qed

lemma sorted_by_list_update:
  assumes "sorted_by key xs" "i < length xs" "key (xs ! i) = key x"
  shows "sorted_by key (xs[i := x])"
proof -
  have "map key (xs[i := x]) = map key xs"
    using assms(2,3) by (simp add: map_update list_update_same_conv)
  then show ?thesis using assms(1) by (metis sorted_wrt_map)
qed

lemma sorted_by_vec_remove: "sorted_by key xs \<Longrightarrow> sorted_by key (vec_remove i xs)"
proof -
  assume "sorted_by key xs"
  then have "sorted_by key (take i xs @ drop i xs)" by simp
  moreover have "set (drop (Suc i) xs) \<subseteq> set (drop i xs)"
    by (rule set_drop_subset_set_drop) simp
  moreover have "sorted_by key (drop (Suc i) xs)"
    using \<open>sorted_by key xs\<close> by (rule sorted_wrt_drop)
  ultimately show ?thesis
    unfolding vec_remove_def sorted_wrt_append by blast
qed

text \<open>Insert-or-update, removal and lookup through binary search.\<close>

definition vec_upsert :: "('a \<Rightarrow> 'k::linorder) \<Rightarrow> 'a \<Rightarrow> 'a list \<Rightarrow> 'a list" where
  "vec_upsert key x xs =
    (case search_key key (key x) xs of Inr i \<Rightarrow> xs[i := x] | Inl i \<Rightarrow> vec_insert i x xs)"

definition vec_delete :: "('a \<Rightarrow> 'k::linorder) \<Rightarrow> 'k \<Rightarrow> 'a list \<Rightarrow> 'a list" where
  "vec_delete key k xs =
    (case search_key key k xs of Inr i \<Rightarrow> vec_remove i xs | Inl i \<Rightarrow> xs)"

definition vec_lookup :: "('a \<Rightarrow> 'k::linorder) \<Rightarrow> 'a list \<Rightarrow> 'k \<Rightarrow> 'a option" where
  "vec_lookup key xs k =
    (case search_key key k xs of Inr i \<Rightarrow> Some (xs ! i) | Inl i \<Rightarrow> None)"

lemma search_missing:
  assumes "i \<le> length xs"
    and "\<And>j. j < i \<Longrightarrow> key (xs ! j) < k" "\<And>j. i \<le> j \<Longrightarrow> j < length xs \<Longrightarrow> k < key (xs ! j)"
  shows "(k :: 'k::linorder) \<notin> key ` set xs"
proof
  assume "k \<in> key ` set xs"
  then obtain j where "j < length xs" "key (xs ! j) = k" by (auto simp: in_set_conv_nth)
  with assms show False by (cases "j < i") (auto simp: not_less dest: less_imp_not_eq2)
qed

lemma vec_lookup_kmap:
  assumes "sorted_by key xs"
  shows "vec_lookup key xs k = kmap key xs k"
  using assms
proof (cases rule: search_key_cases [of key xs k])
  case (Found i)
  then have "kmap key xs k = Some (xs ! i)"
    using kmap_Some_iff [OF sorted_by_distinct [OF assms]] by simp
  with Found show ?thesis by (simp add: vec_lookup_def)
next
  case (Missing i)
  then have "k \<notin> key ` set xs" by (intro search_missing) auto
  then have "kmap key xs k = None" by (simp add: kmap_None_iff)
  with Missing show ?thesis by (simp add: vec_lookup_def)
qed

lemma vec_upsert_correct:
  assumes "sorted_by key xs"
  shows "sorted_by key (vec_upsert key x xs) \<and>
    kmap key (vec_upsert key x xs) = (kmap key xs)(key x \<mapsto> x)"
  using assms
proof (cases rule: search_key_cases [of key xs "key x"])
  case (Found i)
  then show ?thesis
    using assms sorted_by_list_update [of key xs i x]
      kmap_list_update [OF sorted_by_distinct [OF assms], of i x]
    by (simp add: vec_upsert_def)
next
  case (Missing i)
  then have "key x \<notin> key ` set xs" by (intro search_missing) auto
  then show ?thesis
    using assms Missing sorted_by_vec_insert [of key xs i x] kmap_vec_insert [of key x xs i]
    by (simp add: vec_upsert_def)
qed

lemma vec_delete_correct:
  assumes "sorted_by key xs"
  shows "sorted_by key (vec_delete key k xs) \<and>
    kmap key (vec_delete key k xs) = (kmap key xs)(k := None)"
  using assms
proof (cases rule: search_key_cases [of key xs k])
  case (Found i)
  then show ?thesis
    using assms kmap_vec_remove [OF sorted_by_distinct [OF assms], of i]
    by (simp add: vec_delete_def sorted_by_vec_remove)
next
  case (Missing i)
  then have "k \<notin> key ` set xs" by (intro search_missing) auto
  then have "kmap key xs k = None" by (simp add: kmap_None_iff)
  then have "(kmap key xs)(k := None) = kmap key xs" by (auto simp: fun_eq_iff)
  then show ?thesis using assms Missing by (simp add: vec_delete_def)
qed

section \<open>Ordered vectors as sets\<close>

lemma sorted_by_set_iff:
  "sorted_by key xs \<Longrightarrow> e \<in> set xs \<longleftrightarrow> kmap key xs (key e) = Some e"
  by (simp add: kmap_Some_iff sorted_by_distinct)

lemma set_vec_upsert:
  assumes "sorted_by key xs"
  shows "set (vec_upsert key x xs) = insert x {e \<in> set xs. key e \<noteq> key x}"
proof (rule set_eqI)
  fix e
  have "e \<in> set (vec_upsert key x xs) \<longleftrightarrow> ((kmap key xs)(key x \<mapsto> x)) (key e) = Some e"
    using vec_upsert_correct [OF assms, of x] sorted_by_set_iff [of key "vec_upsert key x xs" e] by simp
  then show "e \<in> set (vec_upsert key x xs) \<longleftrightarrow> e \<in> insert x {e \<in> set xs. key e \<noteq> key x}"
    using sorted_by_set_iff [OF assms, of e] by (cases "key e = key x") auto
qed

lemma set_vec_delete:
  assumes "sorted_by key xs"
  shows "set (vec_delete key k xs) = {e \<in> set xs. key e \<noteq> k}"
proof (rule set_eqI)
  fix e
  have "e \<in> set (vec_delete key k xs) \<longleftrightarrow> ((kmap key xs)(k := None)) (key e) = Some e"
    using vec_delete_correct [OF assms, of k] sorted_by_set_iff [of key "vec_delete key k xs" e] by simp
  then show "e \<in> set (vec_delete key k xs) \<longleftrightarrow> e \<in> {e \<in> set xs. key e \<noteq> k}"
    using sorted_by_set_iff [OF assms, of e] by (cases "key e = k") auto
qed

lemma set_upsert_id: "sorted_by id xs \<Longrightarrow> set (vec_upsert id x xs) = insert x (set xs)"
  by (subst set_vec_upsert) auto

lemma set_delete_id: "sorted_by id xs \<Longrightarrow> set (vec_delete id x xs) = set xs - {x}"
  by (subst set_vec_delete) auto

lemma vec_lookup_Some_iff:
  "sorted_by key xs \<Longrightarrow> vec_lookup key xs k = Some e \<longleftrightarrow> e \<in> set xs \<and> key e = k"
  by (simp add: vec_lookup_kmap kmap_Some_iff sorted_by_distinct)

lemma vec_lookup_None_iff:
  "sorted_by key xs \<Longrightarrow> vec_lookup key xs k = None \<longleftrightarrow> k \<notin> key ` set xs"
  by (simp add: vec_lookup_kmap kmap_None_iff)

lemma sorted_by_hd: "sorted_by key xs \<Longrightarrow> x \<in> set xs \<Longrightarrow> key (hd xs) \<le> key x"
  by (cases xs) (auto simp: less_imp_le)

lemma sorted_by_set_eq:
  assumes "sorted_by key xs" "sorted_by key ys" "set xs = set ys"
  shows "xs = ys"
  using assms
proof (induction xs arbitrary: ys)
  case (Cons x xs)
  obtain y ys' where ys: "ys = y # ys'" using Cons.prems(3) by (cases ys) auto
  have x: "x \<in> set (y # ys')" and y: "y \<in> set (x # xs)" using Cons.prems(3) unfolding ys by auto
  have "x = y"
  proof (rule ccontr)
    assume "x \<noteq> y"
    then have "key y < key x" "key x < key y" using x y Cons.prems(1,2) by (auto simp: ys)
    then show False by simp
  qed
  moreover have "x \<notin> set xs" "y \<notin> set ys'" using Cons.prems(1,2) by (auto simp: ys)
  then have "set xs = set ys'" using Cons.prems(3) calculation by (auto simp: ys)
  ultimately show ?case using Cons.IH [of ys'] Cons.prems(1,2) by (simp add: ys)
qed simp

section \<open>The keyed-store interface\<close>

text \<open>
  What the engine's index structures promise their clients: entries carry their key, a lookup
  after an insert sees the inserted entry, a removal takes exactly that key away, and the
  invariant is kept.
\<close>

locale keyed_store =
  fixes invar :: "'s \<Rightarrow> bool"
    and key :: "'v \<Rightarrow> 'k"
    and put :: "'v \<Rightarrow> 's \<Rightarrow> 's"
    and del :: "'k \<Rightarrow> 's \<Rightarrow> 's"
    and get :: "'s \<Rightarrow> 'k \<Rightarrow> 'v option"
    and ok :: "'v \<Rightarrow> bool"
  assumes invar_put: "invar s \<Longrightarrow> ok v \<Longrightarrow> invar (put v s)"
    and invar_del: "invar s \<Longrightarrow> invar (del k s)"
    and get_put: "invar s \<Longrightarrow> ok v \<Longrightarrow> get (put v s) = (get s)(key v \<mapsto> v)"
    and get_del: "invar s \<Longrightarrow> get (del k s) = (get s)(k := None)"
begin

lemma puts_correct:
  assumes "invar s" "\<forall>v\<in>set vs. ok v"
  shows "invar (fold put vs s) \<and> get (fold put vs s) = get s ++ kmap key (rev vs)"
  using assms
proof (induction vs arbitrary: s)
  case Nil
  then show ?case by simp
next
  case (Cons v vs)
  then have s: "invar (put v s)" "get (put v s) = (get s)(key v \<mapsto> v)"
    by (simp_all add: invar_put get_put)
  have "invar (fold put vs (put v s)) \<and>
      get (fold put vs (put v s)) = get (put v s) ++ kmap key (rev vs)"
    using Cons.IH [OF s(1)] Cons.prems(2) by simp
  moreover have "get (put v s) ++ kmap key (rev vs) = get s ++ kmap key (rev (v # vs))"
    by (auto simp: s(2) kmap_append map_add_def fun_eq_iff split: option.splits)
  ultimately show ?case by simp
qed

lemma put_put_other:
  assumes "invar s" "ok v" "ok w" "key v \<noteq> key w"
  shows "get (put v (put w s)) = get (put w (put v s))"
  using assms by (simp add: invar_put get_put fun_upd_twist)

lemma del_put:
  assumes "invar s" "ok v" "get s (key v) = None"
  shows "get (del (key v) (put v s)) = get s"
  using assms by (auto simp: invar_put get_put get_del fun_eq_iff)

end

interpretation sorted_vec: keyed_store "sorted_by key" key "vec_upsert key" "vec_delete key"
    "vec_lookup key" "\<lambda>_. True"
  for key :: "'v \<Rightarrow> 'k::linorder"
  by unfold_locales (simp_all add: vec_lookup_kmap vec_upsert_correct vec_delete_correct fun_eq_iff)

section \<open>Hash maps and hash sets\<close>

text \<open>A \<^verbatim>\<open>HashMap\<close> is a vector sorted by key and a \<^verbatim>\<open>HashSet\<close> a sorted vector, where the program does not depend
  on an iteration order.\<close>

type_synonym 'v hmap = "(str \<times> 'v) list"

definition hm_get :: "'v hmap \<Rightarrow> str \<Rightarrow> 'v option" where
  "hm_get m k = map_option snd (vec_lookup fst m k)"

definition hm_insert :: "str \<Rightarrow> 'v \<Rightarrow> 'v hmap \<Rightarrow> 'v hmap" where
  "hm_insert k v m = vec_upsert fst (k, v) m"

definition hs_insert :: "bytes \<Rightarrow> bytes list \<Rightarrow> bytes list" where
  "hs_insert x s = vec_upsert id x s"

lemma hm_get_kmap: "sorted_by fst m \<Longrightarrow> hm_get m k = map_option snd (kmap fst m k)"
  by (simp add: hm_get_def vec_lookup_kmap)

lemma hm_insert_correct:
  assumes "sorted_by fst m"
  shows "sorted_by fst (hm_insert k v m)" "hm_get (hm_insert k v m) = (hm_get m)(k \<mapsto> v)"
proof -
  note u = vec_upsert_correct [OF assms, of "(k, v)"]
  show s: "sorted_by fst (hm_insert k v m)" using u by (simp add: hm_insert_def)
  show "hm_get (hm_insert k v m) = (hm_get m)(k \<mapsto> v)"
    using hm_get_kmap [OF s] hm_get_kmap [OF assms] u by (intro ext) (simp add: hm_insert_def)
qed

lemma hm_get_Nil [simp]: "hm_get [] k = None"
  by (simp add: hm_get_kmap)

lemma hm_get_Some_iff: "sorted_by fst m \<Longrightarrow> hm_get m k = Some v \<longleftrightarrow> (k, v) \<in> set m"
  by (auto simp: hm_get_kmap kmap_Some_iff sorted_by_distinct)

lemma hm_keys: "sorted_by fst m \<Longrightarrow> k \<in> fst ` set m \<longleftrightarrow> hm_get m k \<noteq> None"
  using hm_get_Some_iff [of m k] by (cases "hm_get m k") force+

lemma hs_insert_correct:
  assumes "sorted_by id s"
  shows "sorted_by id (hs_insert x s)" "set (hs_insert x s) = insert x (set s)"
  unfolding hs_insert_def using vec_upsert_correct [OF assms, of x] set_upsert_id [OF assms, of x] by blast+

lemma find_SomeD: "List.find P xs = Some x \<Longrightarrow> x \<in> set xs \<and> P x"
  by (induction xs) (auto split: if_splits)

section \<open>Operations that may panic\<close>

text \<open>\<open>None\<close> is a panic, \<open>Some (Inl e)\<close> an error, which the question-mark operator propagates.\<close>

type_synonym 'a fallible = "'a engine_result option"

definition fal_bind :: "'a fallible \<Rightarrow> ('a \<Rightarrow> 'b fallible) \<Rightarrow> 'b fallible" where
  "fal_bind m f = (case m of None \<Rightarrow> None | Some (Inl e) \<Rightarrow> Some (Inl e) | Some (Inr x) \<Rightarrow> f x)"

lemma fal_bind_simps [simp]:
  "fal_bind None f = None"
  "fal_bind (Some (Inl e)) f = Some (Inl e)"
  "fal_bind (Some (Inr x)) f = f x"
  by (simp_all add: fal_bind_def)

lemma fal_bind_eq_Inr [simp]:
  "fal_bind m f = Some (Inr y) \<longleftrightarrow> (\<exists>x. m = Some (Inr x) \<and> f x = Some (Inr y))"
  by (auto simp: fal_bind_def split: option.splits sum.splits)

end
