(* ===== verification/Binary_Utils.thy ===== *)
theory Binary_Utils
  imports Aeor_Prelude
begin

text \<open>
  The bounds-checked readers of \<^verbatim>\<open>binary_utils.rs\<close>, which thread an offset through a byte slice,
  and the interface \<open>record_codec\<close> between a record format and the loops that read a counted
  sequence of records.  \<open>cursor_at data off xs\<close> says that the reader stands at \<open>off\<close> with the
  bytes \<open>xs\<close> ahead of it; each reader lemma consumes a prefix of \<open>xs\<close>.
\<close>

section \<open>Readers\<close>

definition read_u16 :: "bytes \<Rightarrow> nat \<Rightarrow> (u16 \<times> nat) engine_result" where
  "read_u16 data offset =
    (if offset + 2 > length data then Inl UnexpectedEof
     else Inr (from_le_bytes (slice_at data offset 2), offset + 2))"

definition read_u32 :: "bytes \<Rightarrow> nat \<Rightarrow> (u32 \<times> nat) engine_result" where
  "read_u32 data offset =
    (if offset + 4 > length data then Inl UnexpectedEof
     else Inr (from_le_bytes (slice_at data offset 4), offset + 4))"

definition read_u64 :: "bytes \<Rightarrow> nat \<Rightarrow> (u64 \<times> nat) engine_result" where
  "read_u64 data offset =
    (if offset + 8 > length data then Inl UnexpectedEof
     else Inr (from_le_bytes (slice_at data offset 8), offset + 8))"

definition read_i64 :: "bytes \<Rightarrow> nat \<Rightarrow> (i64 \<times> nat) engine_result" where
  "read_i64 data offset =
    (if offset + 8 > length data then Inl UnexpectedEof
     else Inr (from_le_bytes (slice_at data offset 8), offset + 8))"

definition read_bytes :: "bytes \<Rightarrow> nat \<Rightarrow> nat \<Rightarrow> (bytes \<times> nat) engine_result" where
  "read_bytes data offset len =
    (if offset + len > length data then Inl UnexpectedEof
     else Inr (slice_at data offset len, offset + len))"

definition read_string :: "bytes \<Rightarrow> nat \<Rightarrow> nat \<Rightarrow> (str \<times> nat) engine_result" where
  "read_string data offset len =
    res_bind (read_bytes data offset len) (\<lambda>(bs, offset').
      if utf8_valid bs then Inr (bs, offset')
      else Inl (CorruptEntry offset' ''Invalid UTF-8 string''))"

text \<open>The optional string of the record formats: length zero stands for \<^verbatim>\<open>None\<close>.\<close>

definition read_opt_string :: "bytes \<Rightarrow> nat \<Rightarrow> nat \<Rightarrow> (str option \<times> nat) engine_result" where
  "read_opt_string data offset len =
    (if len = 0 then Inr (None, offset)
     else res_bind (read_string data offset len) (\<lambda>(s, offset'). Inr (Some s, offset')))"

section \<open>Cursors\<close>

definition cursor_at :: "bytes \<Rightarrow> nat \<Rightarrow> bytes \<Rightarrow> bool" where
  "cursor_at data off xs \<longleftrightarrow> off \<le> length data \<and> drop off data = xs"

lemma cursor_start: "cursor_at xs 0 xs"
  by (simp add: cursor_at_def)

lemma cursor_advance:
  assumes "cursor_at data off (xs @ ys)"
  shows "cursor_at data (off + length xs) ys" and "off + length xs \<le> length data"
    and "slice_at data off (length xs) = xs"
proof -
  have len: "length data - off = length xs + length ys"
    using assms by (metis cursor_at_def length_append length_drop)
  moreover have "off \<le> length data" using assms by (simp add: cursor_at_def)
  ultimately show le: "off + length xs \<le> length data" by linarith
  have "drop (off + length xs) data = drop (length xs) (drop off data)"
    by (simp add: add.commute)
  also have "\<dots> = ys" using assms by (simp add: cursor_at_def del: drop_drop)
  finally show "cursor_at data (off + length xs) ys"
    using le by (simp add: cursor_at_def)
  show "slice_at data off (length xs) = xs"
    using assms by (simp add: cursor_at_def slice_at_def)
qed

lemma cursor_nth:
  assumes "cursor_at data off (xs @ y # ys)"
  shows "data ! (off + length xs) = y"
proof -
  have "off \<le> length data" "drop off data = xs @ y # ys" using assms by (simp_all add: cursor_at_def)
  then show ?thesis by (metis nth_append_length nth_drop)
qed

lemma cursor_slice:
  assumes "cursor_at data off (xs @ zs @ ys)" and "o' = off + length xs" and "n = length zs"
  shows "slice_at data o' n = zs"
  using cursor_advance(3) [OF cursor_advance(1) [OF assms(1)]] assms(2,3) by simp

lemma read_u16_cursor:
  assumes "cursor_at data off (to_le_bytes (w :: u16) @ ys)"
  shows "read_u16 data off = Inr (w, off + 2)" and "cursor_at data (off + 2) ys"
  using cursor_advance [OF assms] by (simp_all add: read_u16_def)

lemma read_u32_cursor:
  assumes "cursor_at data off (to_le_bytes (w :: u32) @ ys)"
  shows "read_u32 data off = Inr (w, off + 4)" and "cursor_at data (off + 4) ys"
  using cursor_advance [OF assms] by (simp_all add: read_u32_def)

lemma read_u64_cursor:
  assumes "cursor_at data off (to_le_bytes (w :: u64) @ ys)"
  shows "read_u64 data off = Inr (w, off + 8)" and "cursor_at data (off + 8) ys"
  using cursor_advance [OF assms] by (simp_all add: read_u64_def)

lemma read_i64_cursor:
  assumes "cursor_at data off (to_le_bytes (w :: i64) @ ys)"
  shows "read_i64 data off = Inr (w, off + 8)" and "cursor_at data (off + 8) ys"
  using cursor_advance [OF assms] by (simp_all add: read_i64_def)

lemma read_bytes_cursor:
  assumes "cursor_at data off (xs @ ys)" and "len = length xs"
  shows "read_bytes data off len = Inr (xs, off + len)" and "cursor_at data (off + len) ys"
  using cursor_advance [OF assms(1)] assms(2) by (simp_all add: read_bytes_def)

lemma read_string_cursor:
  assumes "cursor_at data off (xs @ ys)" and "len = length xs" and "utf8_valid xs"
  shows "read_string data off len = Inr (xs, off + len)" and "cursor_at data (off + len) ys"
  using read_bytes_cursor [OF assms(1,2)] assms(3) by (simp_all add: read_string_def)

text \<open>How an optional string is written: \<^verbatim>\<open>as_deref().unwrap_or("")\<close>.\<close>

definition opt_bytes :: "str option \<Rightarrow> bytes" where
  "opt_bytes s = (case s of None \<Rightarrow> [] | Some b \<Rightarrow> b)"

definition opt_string_ok :: "str option \<Rightarrow> bool" where
  "opt_string_ok s = (case s of None \<Rightarrow> True | Some b \<Rightarrow> b \<noteq> [] \<and> utf8_valid b)"

lemma read_opt_string_cursor:
  assumes "cursor_at data off (opt_bytes s @ ys)" and "len = length (opt_bytes s)"
    and "opt_string_ok s"
  shows "read_opt_string data off len = Inr (s, off + len)"
    and "cursor_at data (off + len) ys"
proof -
  show "cursor_at data (off + len) ys"
    using cursor_advance [OF assms(1)] assms(2) by simp
  show "read_opt_string data off len = Inr (s, off + len)"
  proof (cases s)
    case None
    then show ?thesis using assms by (simp add: read_opt_string_def opt_bytes_def)
  next
    case (Some b)
    then have "b \<noteq> []" "utf8_valid b" and c: "cursor_at data off (b @ ys)" "len = length b"
      using assms by (simp_all add: opt_string_ok_def opt_bytes_def)
    then show ?thesis
      using Some read_string_cursor [OF c] by (simp add: read_opt_string_def)
  qed
qed

text \<open>Readers never run past the slice, and on success advance by what they read.\<close>

lemma read_string_SomeD:
  assumes "read_string data off len = Inr (s, off')"
  shows "off' = off + len" "off' \<le> length data" "utf8_valid s" "s = slice_at data off len"
  using assms by (auto simp: read_string_def read_bytes_def split: if_splits)

section \<open>Counted sequences of records\<close>

text \<open>\<^verbatim>\<open>for _ in 0..n { let x = read(data, &mut offset)?; out.push(x); }\<close>\<close>

primrec read_many ::
  "(bytes \<Rightarrow> nat \<Rightarrow> 'e + 'a \<times> nat) \<Rightarrow> nat \<Rightarrow> bytes \<Rightarrow> nat \<Rightarrow> 'e + 'a list \<times> nat" where
  "read_many rd 0 data off = Inr ([], off)"
| "read_many rd (Suc n) data off =
    res_bind (rd data off) (\<lambda>(x, off1).
      res_bind (read_many rd n data off1) (\<lambda>(xs, off2). Inr (x # xs, off2)))"

locale record_codec =
  fixes enc :: "'a \<Rightarrow> bytes"
    and dec :: "bytes \<Rightarrow> nat \<Rightarrow> 'e + 'a \<times> nat"
    and ok :: "'a \<Rightarrow> bool"
  assumes dec_enc:
    "ok x \<Longrightarrow> cursor_at data off (enc x @ ys) \<Longrightarrow> dec data off = Inr (x, off + length (enc x))"
begin

lemma read_many_enc:
  assumes "\<forall>x\<in>set xs. ok x" and "cursor_at data off (concat (map enc xs) @ ys)"
  shows "read_many dec (length xs) data off = Inr (xs, off + length (concat (map enc xs)))"
    and "cursor_at data (off + length (concat (map enc xs))) ys"
proof -
  show "cursor_at data (off + length (concat (map enc xs))) ys"
    using assms(2) by (rule cursor_advance)
  show "read_many dec (length xs) data off = Inr (xs, off + length (concat (map enc xs)))"
    using assms
  proof (induction xs arbitrary: off)
    case Nil
    then show ?case by simp
  next
    case (Cons x xs)
    from Cons.prems(2) have c: "cursor_at data off (enc x @ concat (map enc xs) @ ys)" by simp
    have "dec data off = Inr (x, off + length (enc x))"
      using Cons.prems(1) c by (intro dec_enc) auto
    moreover have "read_many dec (length xs) data (off + length (enc x)) =
        Inr (xs, off + length (enc x) + length (concat (map enc xs)))"
      using Cons.prems(1) cursor_advance(1) [OF c] by (intro Cons.IH) auto
    ultimately show ?case by (simp add: add.assoc)
  qed
qed

end

text \<open>Fixed-width hashes are the simplest record.\<close>

interpretation hash_codec: record_codec "\<lambda>h. h" "\<lambda>data off. read_bytes data off n"
    "\<lambda>h. length h = n"
  for n :: nat
  by unfold_locales (auto simp: read_bytes_cursor)

section \<open>Arrays of fixed-size records\<close>

text \<open>
  Pages and the hot tail address their records by index, \<^verbatim>\<open>base + i * record_size\<close>.  A record
  format with an encoder of constant length and a decoder at an offset reads back every array.
\<close>

locale fixed_records =
  fixes enc :: "'a \<Rightarrow> bytes"
    and at :: "bytes \<Rightarrow> nat \<Rightarrow> 'a"
    and sz :: nat
    and ok :: "'a \<Rightarrow> bool"
  assumes length_enc: "length (enc x) = sz"
    and at_enc: "ok x \<Longrightarrow> cursor_at data off (enc x @ ys) \<Longrightarrow> at data off = x"
begin

lemma length_concat_enc: "length (concat (map enc xs)) = length xs * sz"
  by (induction xs) (simp_all add: length_enc)

lemma array_read:
  assumes "\<forall>x\<in>set xs. ok x" and "cursor_at data base (concat (map enc xs) @ ys)"
  shows "map (\<lambda>i. at data (base + i * sz)) [0..<length xs] = xs"
proof (rule nth_equalityI)
  fix i
  assume "i < length (map (\<lambda>i. at data (base + i * sz)) [0..<length xs])"
  then have i: "i < length xs" by simp
  have "xs = take i xs @ xs ! i # drop (Suc i) xs" using i by (rule split_at)
  then have "concat (map enc xs) =
      concat (map enc (take i xs)) @ enc (xs ! i) @ concat (map enc (drop (Suc i) xs))"
    by (metis concat.simps(2) concat_append list.simps(9) map_append)
  then have "cursor_at data base (concat (map enc (take i xs)) @ enc (xs ! i) @
      concat (map enc (drop (Suc i) xs)) @ ys)"
    using assms(2) by simp
  from cursor_advance(1) [OF this] have "cursor_at data (base + i * sz)
      (enc (xs ! i) @ concat (map enc (drop (Suc i) xs)) @ ys)"
    using i by (simp add: length_concat_enc)
  then have "at data (base + i * sz) = xs ! i"
    using assms(1) i by (intro at_enc) auto
  then show "map (\<lambda>i. at data (base + i * sz)) [0..<length xs] ! i = xs ! i" using i by simp
qed simp

end

end
