(* ===== verification/Entry_Codec.thy ===== *)
theory Entry_Codec
  imports Binary_Utils
begin

text \<open>
  The write-ahead log's entry header: \<^verbatim>\<open>entry_type.rs\<close>, \<^verbatim>\<open>hash_algorithm.rs\<close>, the algorithm tags of
  \<^verbatim>\<open>compression.rs\<close>, and \<^verbatim>\<open>entry_header.rs\<close>.  The BLAKE3 function is the parameter \<open>blake3\<close>.
  The lemmas show that the header codec is a bijection between headers with a hash of the right
  length and the byte strings the parser accepts, and that \<open>compute_total_length\<close> cannot
  overflow its 32 bits.
\<close>

unbundle bit_operations_syntax

section \<open>Tags\<close>

datatype entry_type =
  Chunk | FileRecord | DirectoryIndex | DeletionRecord | Snapshot | Void | Fork | Symlink

definition entry_type_to_u8 :: "entry_type \<Rightarrow> u8" where
  "entry_type_to_u8 t = (case t of
     Chunk \<Rightarrow> 0x01 | FileRecord \<Rightarrow> 0x02 | DirectoryIndex \<Rightarrow> 0x03 | DeletionRecord \<Rightarrow> 0x04
   | Snapshot \<Rightarrow> 0x05 | Void \<Rightarrow> 0x06 | Fork \<Rightarrow> 0x07 | Symlink \<Rightarrow> 0x08)"

definition entry_type_from_u8 :: "u8 \<Rightarrow> entry_type engine_result" where
  "entry_type_from_u8 v =
    (if v = 0x01 then Inr Chunk else if v = 0x02 then Inr FileRecord
     else if v = 0x03 then Inr DirectoryIndex else if v = 0x04 then Inr DeletionRecord
     else if v = 0x05 then Inr Snapshot else if v = 0x06 then Inr Void
     else if v = 0x07 then Inr Fork else if v = 0x08 then Inr Symlink
     else Inl (InvalidEntryType v))"

definition KV_TYPE_CHUNK :: u8 where "KV_TYPE_CHUNK = 0x0"
definition KV_TYPE_FILE_RECORD :: u8 where "KV_TYPE_FILE_RECORD = 0x1"
definition KV_TYPE_DIRECTORY :: u8 where "KV_TYPE_DIRECTORY = 0x2"
definition KV_TYPE_DELETION :: u8 where "KV_TYPE_DELETION = 0x3"
definition KV_TYPE_SNAPSHOT :: u8 where "KV_TYPE_SNAPSHOT = 0x4"
definition KV_TYPE_VOID :: u8 where "KV_TYPE_VOID = 0x5"
definition KV_TYPE_FORK :: u8 where "KV_TYPE_FORK = 0x7"
definition KV_TYPE_SYMLINK :: u8 where "KV_TYPE_SYMLINK = 0x9"

lemmas kv_type_defs = KV_TYPE_CHUNK_def KV_TYPE_FILE_RECORD_def KV_TYPE_DIRECTORY_def
  KV_TYPE_DELETION_def KV_TYPE_SNAPSHOT_def KV_TYPE_VOID_def KV_TYPE_FORK_def KV_TYPE_SYMLINK_def

definition entry_type_to_kv_type :: "entry_type \<Rightarrow> u8" where
  "entry_type_to_kv_type t = (case t of
     Chunk \<Rightarrow> KV_TYPE_CHUNK | FileRecord \<Rightarrow> KV_TYPE_FILE_RECORD
   | DirectoryIndex \<Rightarrow> KV_TYPE_DIRECTORY | DeletionRecord \<Rightarrow> KV_TYPE_DELETION
   | Snapshot \<Rightarrow> KV_TYPE_SNAPSHOT | Void \<Rightarrow> KV_TYPE_VOID | Fork \<Rightarrow> KV_TYPE_FORK
   | Symlink \<Rightarrow> KV_TYPE_SYMLINK)"

datatype hash_algorithm = Blake3_256 | Sha256 | Sha512 | Sha3_256 | Sha3_512

definition hash_length :: "hash_algorithm \<Rightarrow> nat" where
  "hash_length a = (case a of
     Blake3_256 \<Rightarrow> 32 | Sha256 \<Rightarrow> 32 | Sha512 \<Rightarrow> 64 | Sha3_256 \<Rightarrow> 32 | Sha3_512 \<Rightarrow> 64)"

definition hash_algorithm_to_u16 :: "hash_algorithm \<Rightarrow> u16" where
  "hash_algorithm_to_u16 a = (case a of
     Blake3_256 \<Rightarrow> 0x0001 | Sha256 \<Rightarrow> 0x0002 | Sha512 \<Rightarrow> 0x0003 | Sha3_256 \<Rightarrow> 0x0004
   | Sha3_512 \<Rightarrow> 0x0005)"

definition hash_algorithm_from_u16 :: "u16 \<Rightarrow> hash_algorithm option" where
  "hash_algorithm_from_u16 v =
    (if v = 0x0001 then Some Blake3_256 else if v = 0x0002 then Some Sha256
     else if v = 0x0003 then Some Sha512 else if v = 0x0004 then Some Sha3_256
     else if v = 0x0005 then Some Sha3_512 else None)"

text \<open>Only BLAKE3 is implemented; the other algorithms are refused.\<close>

definition compute_hash_algo ::
  "(bytes \<Rightarrow> bytes) \<Rightarrow> hash_algorithm \<Rightarrow> bytes \<Rightarrow> bytes engine_result" where
  "compute_hash_algo blake3 a data = (case a of
     Blake3_256 \<Rightarrow> Inr (blake3 data)
   | other \<Rightarrow> Inl (InvalidHashAlgorithm (hash_algorithm_to_u16 other)))"

datatype compression_algorithm = NoCompression | Zstd

definition compression_to_u8 :: "compression_algorithm \<Rightarrow> u8" where
  "compression_to_u8 a = (case a of NoCompression \<Rightarrow> 0x00 | Zstd \<Rightarrow> 0x01)"

definition compression_from_u8 :: "u8 \<Rightarrow> compression_algorithm option" where
  "compression_from_u8 v =
    (if v = 0x00 then Some NoCompression else if v = 0x01 then Some Zstd else None)"

text \<open>
  The zstd codec is a pair of parameters that may fail.  \<^verbatim>\<open>to_lowercase\<close> is taken on ASCII
  letters only: no letter outside ASCII lowercases to a string in which one of the fixed patterns
  below could be completed, since none of them contains the letter k (the Kelvin sign) and
  the dotted capital I lowercases to an i followed by a combining mark.
\<close>

definition compress ::
  "(bytes \<Rightarrow> string + bytes) \<Rightarrow> bytes \<Rightarrow> compression_algorithm \<Rightarrow> bytes engine_result" where
  "compress zstd_encode data a = (case a of
     NoCompression \<Rightarrow> Inr data
   | Zstd \<Rightarrow> (case zstd_encode data of Inr out \<Rightarrow> Inr out | Inl e \<Rightarrow> Inl (IoError e)))"

definition decompress ::
  "(bytes \<Rightarrow> string + bytes) \<Rightarrow> bytes \<Rightarrow> compression_algorithm \<Rightarrow> bytes engine_result" where
  "decompress zstd_decode data a = (case a of
     NoCompression \<Rightarrow> Inr data
   | Zstd \<Rightarrow> (case zstd_decode data of Inr out \<Rightarrow> Inr out | Inl e \<Rightarrow> Inl (IoError e)))"

definition ascii_lower :: "u8 \<Rightarrow> u8" where
  "ascii_lower b = (if in_range 65 90 b then b + 32 else b)"

fun starts_with :: "bytes \<Rightarrow> bytes \<Rightarrow> bool" where
  "starts_with s [] = True"
| "starts_with [] (p # ps) = False"
| "starts_with (c # s) (p # ps) = (c = p \<and> starts_with s ps)"

fun contains_str :: "bytes \<Rightarrow> bytes \<Rightarrow> bool" where
  "contains_str [] p = (p = [])"
| "contains_str (c # s) p = (starts_with (c # s) p \<or> contains_str s p)"

definition should_compress :: "str option \<Rightarrow> nat \<Rightarrow> bool" where
  "should_compress content_type data_size =
    (if data_size < 500 then False
     else (case content_type of
       None \<Rightarrow> True
     | Some ct \<Rightarrow>
         (let lower = map ascii_lower ct in
          \<not> (starts_with lower (lit ''image/jpeg'') \<or> starts_with lower (lit ''image/png'')
            \<or> starts_with lower (lit ''image/gif'') \<or> starts_with lower (lit ''image/webp'')
            \<or> starts_with lower (lit ''video/'') \<or> starts_with lower (lit ''audio/'')
            \<or> contains_str lower (lit ''zip'') \<or> contains_str lower (lit ''gzip'')
            \<or> contains_str lower (lit ''compressed'') \<or> contains_str lower (lit ''zstd'')))))"

text \<open>What a writer compresses a reader gets back, given that zstd inverts itself.\<close>

lemma decompress_compress:
  assumes "\<And>d out. zstd_encode d = Inr out \<Longrightarrow> zstd_decode out = Inr d"
    and "compress zstd_encode data a = Inr out"
  shows "decompress zstd_decode out a = Inr data"
  using assms by (cases a) (auto simp: compress_def decompress_def split: sum.splits)

lemma tag_roundtrips [simp, codec_simps]:
  "entry_type_from_u8 (entry_type_to_u8 t) = Inr t"
  "hash_algorithm_from_u16 (hash_algorithm_to_u16 a) = Some a"
  "compression_from_u8 (compression_to_u8 c) = Some c"
proof -
  show "entry_type_from_u8 (entry_type_to_u8 t) = Inr t"
    by (cases t) (simp_all add: entry_type_from_u8_def entry_type_to_u8_def)
  show "hash_algorithm_from_u16 (hash_algorithm_to_u16 a) = Some a"
    by (cases a) (simp_all add: hash_algorithm_from_u16_def hash_algorithm_to_u16_def)
  show "compression_from_u8 (compression_to_u8 c) = Some c"
    by (cases c) (simp_all add: compression_from_u8_def compression_to_u8_def)
qed

lemma tag_inverses:
  "entry_type_from_u8 v = Inr t \<Longrightarrow> entry_type_to_u8 t = v"
  "hash_algorithm_from_u16 w = Some a \<Longrightarrow> hash_algorithm_to_u16 a = w"
  "compression_from_u8 v = Some c \<Longrightarrow> compression_to_u8 c = v"
  by (auto simp: entry_type_from_u8_def entry_type_to_u8_def hash_algorithm_from_u16_def
      hash_algorithm_to_u16_def compression_from_u8_def compression_to_u8_def split: if_splits)

lemma hash_length_cases: "hash_length a = 32 \<or> hash_length a = 64"
  by (cases a) (simp_all add: hash_length_def)

section \<open>The entry header\<close>

definition ENTRY_MAGIC :: u32 where "ENTRY_MAGIC = 0x0AE012DB"
definition CURRENT_ENTRY_VERSION :: u8 where "CURRENT_ENTRY_VERSION = 0"
definition FLAG_SYSTEM :: u8 where "FLAG_SYSTEM = 0x01"
definition FIXED_HEADER_SIZE :: nat where "FIXED_HEADER_SIZE = 31"
definition MAX_KEY_OR_VALUE_BYTES :: nat where "MAX_KEY_OR_VALUE_BYTES = 2 ^ 30"

record entry_header =
  eh_entry_version :: u8
  eh_entry_type :: entry_type
  eh_flags :: u8
  eh_hash_algo :: hash_algorithm
  eh_compression_algo :: compression_algorithm
  eh_encryption_algo :: u8
  eh_key_length :: u32
  eh_value_length :: u32
  eh_timestamp :: i64
  eh_total_length :: u32
  eh_hash :: bytes

definition header_size :: "hash_algorithm \<Rightarrow> nat" where
  "header_size a = FIXED_HEADER_SIZE + hash_length a"

definition is_system_entry :: "entry_header \<Rightarrow> bool" where
  "is_system_entry h \<longleftrightarrow> eh_flags h AND FLAG_SYSTEM \<noteq> 0"

definition compute_total_length :: "hash_algorithm \<Rightarrow> nat \<Rightarrow> nat \<Rightarrow> u32 engine_result" where
  "compute_total_length a key_length value_length =
    (if key_length > MAX_KEY_OR_VALUE_BYTES then Inl (InvalidInput ''key length exceeds maximum'')
     else if value_length > MAX_KEY_OR_VALUE_BYTES then Inl (InvalidInput ''value length exceeds maximum'')
     else Inr (word_of_nat (header_size a) + word_of_nat key_length + word_of_nat value_length))"

definition entry_compute_hash ::
  "(bytes \<Rightarrow> bytes) \<Rightarrow> entry_type \<Rightarrow> bytes \<Rightarrow> bytes \<Rightarrow> hash_algorithm \<Rightarrow> bytes engine_result" where
  "entry_compute_hash blake3 t key value a =
    compute_hash_algo blake3 a (entry_type_to_u8 t # key @ value)"

definition entry_verify :: "(bytes \<Rightarrow> bytes) \<Rightarrow> entry_header \<Rightarrow> bytes \<Rightarrow> bytes \<Rightarrow> bool" where
  "entry_verify blake3 h key value =
    (case entry_compute_hash blake3 (eh_entry_type h) key value (eh_hash_algo h) of
       Inr computed \<Rightarrow> computed = eh_hash h
     | Inl _ \<Rightarrow> False)"

definition entry_header_serialize :: "entry_header \<Rightarrow> bytes" where
  "entry_header_serialize h =
    to_le_bytes ENTRY_MAGIC @
    [eh_entry_version h, entry_type_to_u8 (eh_entry_type h), eh_flags h] @
    to_le_bytes (hash_algorithm_to_u16 (eh_hash_algo h)) @
    [compression_to_u8 (eh_compression_algo h), eh_encryption_algo h] @
    to_le_bytes (eh_key_length h) @
    to_le_bytes (eh_value_length h) @
    to_le_bytes (eh_timestamp h) @
    to_le_bytes (eh_total_length h) @
    eh_hash h"

text \<open>Parsing from a reader: the result carries the bytes that are left.\<close>

definition entry_header_deserialize :: "bytes \<Rightarrow> (entry_header \<times> bytes) engine_result" where
  "entry_header_deserialize reader =
    (if length reader < FIXED_HEADER_SIZE then Inl UnexpectedEof
     else let fixed_buffer = take FIXED_HEADER_SIZE reader; reader1 = drop FIXED_HEADER_SIZE reader in
       if from_le_bytes (slice_at fixed_buffer 0 4) \<noteq> ENTRY_MAGIC then Inl InvalidMagic
       else res_bind (entry_type_from_u8 (fixed_buffer ! 5)) (\<lambda>et.
         let hash_algo_raw = from_le_bytes (slice_at fixed_buffer 7 2) in
         res_bind (ok_or (InvalidHashAlgorithm hash_algo_raw) (hash_algorithm_from_u16 hash_algo_raw)) (\<lambda>algo.
         res_bind (ok_or (CorruptEntry 0 ''Invalid compression algorithm'')
             (compression_from_u8 (fixed_buffer ! 9))) (\<lambda>comp.
         if length reader1 < hash_length algo then Inl UnexpectedEof
         else Inr (\<lparr> eh_entry_version = fixed_buffer ! 4,
                eh_entry_type = et,
                eh_flags = fixed_buffer ! 6,
                eh_hash_algo = algo,
                eh_compression_algo = comp,
                eh_encryption_algo = fixed_buffer ! 10,
                eh_key_length = from_le_bytes (slice_at fixed_buffer 11 4),
                eh_value_length = from_le_bytes (slice_at fixed_buffer 15 4),
                eh_timestamp = from_le_bytes (slice_at fixed_buffer 19 8),
                eh_total_length = from_le_bytes (slice_at fixed_buffer 27 4),
                eh_hash = take (hash_length algo) reader1 \<rparr>,
              drop (hash_length algo) reader1)))))"

definition entry_header_wf :: "entry_header \<Rightarrow> bool" where
  "entry_header_wf h \<longleftrightarrow> length (eh_hash h) = hash_length (eh_hash_algo h)"

lemma length_entry_header_serialize:
  "entry_header_wf h \<Longrightarrow> length (entry_header_serialize h) = header_size (eh_hash_algo h)"
  by (simp add: entry_header_serialize_def header_size_def FIXED_HEADER_SIZE_def entry_header_wf_def)

lemma entry_header_deserialize_serialize:
  assumes "entry_header_wf h"
  shows "entry_header_deserialize (entry_header_serialize h @ rest) = Inr (h, rest)"
  using assms
  by (simp add: entry_header_deserialize_def entry_header_serialize_def FIXED_HEADER_SIZE_def
      entry_header_wf_def Let_def nth_append del: res_bind_eq_Inr)

lemma list_31_split:
  assumes "length xs = 31"
  shows "xs = slice_at xs 0 4 @ [xs ! 4, xs ! 5, xs ! 6] @ slice_at xs 7 2 @ [xs ! 9, xs ! 10] @
    slice_at xs 11 4 @ slice_at xs 15 4 @ slice_at xs 19 8 @ slice_at xs 27 4"
proof -
  have one: "slice_at xs i (Suc 0) = [xs ! i]" if "i < 31" for i
    using that assms by (simp add: slice_at_def take_Suc_conv_app_nth Cons_nth_drop_Suc [symmetric])
  have "xs = slice_at xs 0 31" using assms by (simp add: slice_at_def)
  also have "\<dots> = slice_at xs 0 4 @ slice_at xs 4 1 @ slice_at xs 5 1 @ slice_at xs 6 1 @
      slice_at xs 7 2 @ slice_at xs 9 1 @ slice_at xs 10 1 @ slice_at xs 11 4 @ slice_at xs 15 4 @
      slice_at xs 19 8 @ slice_at xs 27 4"
    using assms slice_at_split [of 0 4 27 xs] slice_at_split [of 4 1 26 xs]
      slice_at_split [of 5 1 25 xs] slice_at_split [of 6 1 24 xs] slice_at_split [of 7 2 22 xs]
      slice_at_split [of 9 1 21 xs] slice_at_split [of 10 1 20 xs] slice_at_split [of 11 4 16 xs]
      slice_at_split [of 15 4 12 xs] slice_at_split [of 19 8 4 xs]
    by simp
  also have "\<dots> = slice_at xs 0 4 @ [xs ! 4, xs ! 5, xs ! 6] @ slice_at xs 7 2 @ [xs ! 9, xs ! 10] @
      slice_at xs 11 4 @ slice_at xs 15 4 @ slice_at xs 19 8 @ slice_at xs 27 4"
    by (simp add: one)
  finally show ?thesis .
qed

lemma entry_header_canonical:
  assumes "entry_header_deserialize bs = Inr (h, rest)"
  shows "bs = entry_header_serialize h @ rest" and "entry_header_wf h"
proof -
  define fb where "fb = take 31 bs"
  define rd where "rd = drop 31 bs"
  have len: "31 \<le> length bs"
    using assms by (auto simp: entry_header_deserialize_def FIXED_HEADER_SIZE_def split: if_splits)
  have magic: "from_le_bytes (slice_at fb 0 4) = ENTRY_MAGIC"
    using assms len by (auto simp: entry_header_deserialize_def FIXED_HEADER_SIZE_def Let_def fb_def
        split: if_splits)
  obtain et algo comp where
      et: "entry_type_from_u8 (fb ! 5) = Inr et"
      and algo: "hash_algorithm_from_u16 (from_le_bytes (slice_at fb 7 2)) = Some algo"
      and comp: "compression_from_u8 (fb ! 9) = Some comp"
      and rl: "hash_length algo \<le> length rd"
      and h: "h = \<lparr> eh_entry_version = fb ! 4, eh_entry_type = et, eh_flags = fb ! 6,
          eh_hash_algo = algo, eh_compression_algo = comp, eh_encryption_algo = fb ! 10,
          eh_key_length = from_le_bytes (slice_at fb 11 4),
          eh_value_length = from_le_bytes (slice_at fb 15 4),
          eh_timestamp = from_le_bytes (slice_at fb 19 8),
          eh_total_length = from_le_bytes (slice_at fb 27 4),
          eh_hash = take (hash_length algo) rd \<rparr>"
      and rest: "rest = drop (hash_length algo) rd"
    using assms len
    by (auto simp: entry_header_deserialize_def FIXED_HEADER_SIZE_def Let_def fb_def rd_def
        split: if_splits)
  have fl: "length fb = 31" using len by (simp add: fb_def)
  have m4: "to_le_bytes ENTRY_MAGIC = slice_at fb 0 4"
    using magic fl le_word_codec_inv(2) [of "slice_at fb 0 4"] by simp
  have a2: "to_le_bytes (hash_algorithm_to_u16 algo) = slice_at fb 7 2"
    using tag_inverses(2) [OF algo] fl by simp
  have "entry_header_serialize h =
      (slice_at fb 0 4 @ [fb ! 4, fb ! 5, fb ! 6] @ slice_at fb 7 2 @ [fb ! 9, fb ! 10] @
       slice_at fb 11 4 @ slice_at fb 15 4 @ slice_at fb 19 8 @ slice_at fb 27 4) @
      take (hash_length algo) rd"
    using tag_inverses(1) [OF et] tag_inverses(3) [OF comp] m4 a2 fl
    by (simp add: entry_header_serialize_def h)
  also have "\<dots> = fb @ take (hash_length algo) rd"
    using list_31_split [OF fl] by (simp only:)
  finally show "bs = entry_header_serialize h @ rest"
    by (simp add: rest) (simp add: fb_def rd_def)
  show "entry_header_wf h" using rl by (simp add: entry_header_wf_def h)
qed

lemma compute_total_length_exact:
  assumes "compute_total_length a k v = Inr t"
  shows "unat t = header_size a + k + v"
proof -
  have "k \<le> 1073741824" "v \<le> 1073741824"
    and t: "t = word_of_nat (header_size a) + word_of_nat k + word_of_nat v"
    using assms by (auto simp: compute_total_length_def MAX_KEY_OR_VALUE_BYTES_def split: if_splits)
  moreover have "header_size a \<le> 95"
    using hash_length_cases [of a] by (auto simp: header_size_def FIXED_HEADER_SIZE_def)
  ultimately have "header_size a + k + v < 4294967296" by simp
  moreover have "t = word_of_nat (header_size a + k + v)" by (simp add: t)
  ultimately show ?thesis by (simp only: unat_word_of_nat)
qed

section \<open>Properties\<close>

text \<open>
  C29: The log's entry header survives the disk: parsing the bytes \<open>entry_header_serialize\<close> wrote,
  followed by anything, returns the same header and leaves exactly the bytes that followed.
\<close>

theorem entry_header_roundtrip:
  assumes "entry_header_wf h"
  shows "entry_header_deserialize (entry_header_serialize h @ rest) = Inr (h, rest)"
  using assms by (rule entry_header_deserialize_serialize)

theorem entry_header_roundtrip_witness:
  "\<exists>h. entry_header_wf h \<and> eh_entry_type h = Symlink \<and>
    entry_header_deserialize (entry_header_serialize h @ [1, 2]) = Inr (h, [1, 2])"
proof -
  let ?h = "\<lparr> eh_entry_version = 0, eh_entry_type = Symlink, eh_flags = 1, eh_hash_algo = Blake3_256,
    eh_compression_algo = Zstd, eh_encryption_algo = 0, eh_key_length = 7, eh_value_length = 300,
    eh_timestamp = 1700000000000, eh_total_length = 370, eh_hash = replicate 32 9 \<rparr>"
  have wf: "entry_header_wf ?h" by (simp add: entry_header_wf_def hash_length_def)
  show ?thesis using wf entry_header_roundtrip [OF wf] by (intro exI [of _ ?h]) simp
qed

text \<open>
  The header format is canonical: whatever byte string the parser accepts is the serialization
  of the header it returns, followed by the bytes left over.  So no two different byte strings parse
  to the same header, and a parsed header can be rewritten in place.
\<close>

theorem entry_header_parse_canonical:
  assumes "entry_header_deserialize bs = Inr (h, rest)"
  shows "bs = entry_header_serialize h @ rest \<and> entry_header_wf h"
  using entry_header_canonical [OF assms] by blast

theorem entry_header_parse_canonical_witness:
  "\<exists>h bs. entry_header_deserialize bs = Inr (h, [5]) \<and> bs = entry_header_serialize h @ [5] \<and>
    entry_header_wf h"
proof -
  let ?h = "\<lparr> eh_entry_version = 0, eh_entry_type = Chunk, eh_flags = 0, eh_hash_algo = Sha512,
    eh_compression_algo = NoCompression, eh_encryption_algo = 0, eh_key_length = 1,
    eh_value_length = 2, eh_timestamp = 3, eh_total_length = 98, eh_hash = replicate 64 1 \<rparr>"
  have "entry_header_wf ?h" by (simp add: entry_header_wf_def hash_length_def)
  from entry_header_deserialize_serialize [OF this, of "[5]"]
  show ?thesis using entry_header_parse_canonical by blast
qed

text \<open>
  \<open>compute_total_length\<close> is exact on 32 bits: it fails precisely when the key or the value is
  longer than 1 GiB, and otherwise the 32-bit sum has not wrapped, so the write cursor always
  advances by the true size of the entry.
\<close>

theorem compute_total_length_no_overflow:
  "(\<exists>t. compute_total_length a k v = Inr t \<and> unat t = header_size a + k + v) \<longleftrightarrow>
    k \<le> 2 ^ 30 \<and> v \<le> 2 ^ 30"
proof
  assume "\<exists>t. compute_total_length a k v = Inr t \<and> unat t = header_size a + k + v"
  then show "k \<le> 2 ^ 30 \<and> v \<le> 2 ^ 30"
    by (auto simp: compute_total_length_def MAX_KEY_OR_VALUE_BYTES_def split: if_splits)
next
  assume "k \<le> 2 ^ 30 \<and> v \<le> 2 ^ 30"
  then obtain t where "compute_total_length a k v = Inr t"
    by (auto simp: compute_total_length_def MAX_KEY_OR_VALUE_BYTES_def)
  then show "\<exists>t. compute_total_length a k v = Inr t \<and> unat t = header_size a + k + v"
    using compute_total_length_exact by blast
qed

end
