(* ===== verification/Records.thy ===== *)
theory Records
  imports Entry_Codec
begin

text \<open>
  The values the log stores under a key: \<^verbatim>\<open>file_record.rs\<close>, \<^verbatim>\<open>symlink_record.rs\<close>,
  \<^verbatim>\<open>deletion_record.rs\<close> and the child entries of a directory (\<^verbatim>\<open>directory_entry.rs\<close>).  Each has a
  serializer, the parser of the current version and, for file records, the parser of the version
  before it.  The lemmas are the round trips, with the exact conditions under which they hold.
\<close>

section \<open>Child entries\<close>

record child_entry =
  ce_entry_type :: u8
  ce_hash :: bytes
  ce_total_size :: u64
  ce_created_at :: i64
  ce_updated_at :: i64
  ce_name :: str
  ce_content_type :: "str option"
  ce_virtual_time :: u64
  ce_node_id :: u64

definition child_entry_bytes :: "child_entry \<Rightarrow> bytes" where
  "child_entry_bytes e =
    [ce_entry_type e] @ ce_hash e @
    to_le_bytes (ce_total_size e) @ to_le_bytes (ce_created_at e) @ to_le_bytes (ce_updated_at e) @
    to_le_bytes (word_of_nat (length (ce_name e)) :: u16) @ ce_name e @
    to_le_bytes (word_of_nat (length (opt_bytes (ce_content_type e))) :: u16) @
    opt_bytes (ce_content_type e) @
    to_le_bytes (ce_virtual_time e) @ to_le_bytes (ce_node_id e)"

definition child_entry_serialize :: "child_entry \<Rightarrow> nat \<Rightarrow> bytes engine_result" where
  "child_entry_serialize e hl =
    (if length (ce_name e) > 65535 then Inl (InvalidInput ''Name too long'')
     else if length (opt_bytes (ce_content_type e)) > 65535
       then Inl (InvalidInput ''Content type too long'')
     else Inr (child_entry_bytes e))"

definition child_entry_deserialize_v0 :: "bytes \<Rightarrow> nat \<Rightarrow> (child_entry \<times> nat) engine_result" where
  "child_entry_deserialize_v0 data hl =
    (if data = [] then Inl UnexpectedEof
     else
       res_bind (read_bytes data 1 hl) (\<lambda>(hash, o1).
       res_bind (read_u64 data o1) (\<lambda>(total_size, o2).
       res_bind (read_i64 data o2) (\<lambda>(created_at, o3).
       res_bind (read_i64 data o3) (\<lambda>(updated_at, o4).
       res_bind (read_u16 data o4) (\<lambda>(name_length, o5).
       res_bind (read_string data o5 (unat name_length)) (\<lambda>(name, o6).
       res_bind (read_u16 data o6) (\<lambda>(content_type_length, o7).
       res_bind (read_opt_string data o7 (unat content_type_length)) (\<lambda>(content_type, o8).
       res_bind (if o8 + 8 \<le> length data then read_u64 data o8 else Inr (0, o8)) (\<lambda>(virtual_time, o9).
       res_bind (if o9 + 8 \<le> length data then read_u64 data o9 else Inr (0, o9)) (\<lambda>(node_id, o10).
         Inr (\<lparr> ce_entry_type = data ! 0, ce_hash = hash, ce_total_size = total_size,
                ce_created_at = created_at, ce_updated_at = updated_at, ce_name = name,
                ce_content_type = content_type, ce_virtual_time = virtual_time,
                ce_node_id = node_id \<rparr>, o10))))))))))))"

definition child_entry_deserialize :: "bytes \<Rightarrow> nat \<Rightarrow> u8 \<Rightarrow> (child_entry \<times> nat) engine_result" where
  "child_entry_deserialize data hl version =
    (if version = 0 then child_entry_deserialize_v0 data hl else Inl (InvalidEntryVersion version))"

fun serialize_child_entries :: "child_entry list \<Rightarrow> nat \<Rightarrow> bytes engine_result" where
  "serialize_child_entries [] hl = Inr []"
| "serialize_child_entries (e # es) hl =
    res_bind (child_entry_serialize e hl) (\<lambda>bs.
      res_bind (serialize_child_entries es hl) (\<lambda>rest. Inr (bs @ rest)))"

lemma read_consumes:
  "read_bytes data off n = Inr (b, off') \<Longrightarrow> off' = off + n \<and> off' \<le> length data"
  "read_u64 data off = Inr (w, off') \<Longrightarrow> off' = off + 8 \<and> off' \<le> length data"
  "read_i64 data off = Inr (w, off') \<Longrightarrow> off' = off + 8 \<and> off' \<le> length data"
  "read_u32 data off = Inr (w32, off') \<Longrightarrow> off' = off + 4 \<and> off' \<le> length data"
  "read_u16 data off = Inr (w16, off') \<Longrightarrow> off' = off + 2 \<and> off' \<le> length data"
  by (auto simp: read_bytes_def read_u64_def read_i64_def read_u32_def read_u16_def split: if_splits)

lemma read_opt_string_consumes:
  "read_opt_string data off n = Inr (s, off') \<Longrightarrow> off' = off + n"
  by (auto simp: read_opt_string_def read_string_def read_bytes_def split: if_splits)

lemma child_entry_deserialize_consumes:
  assumes "child_entry_deserialize_v0 data hl = Inr (e, n)"
  shows "0 < n"
  using assms
  by (auto simp: child_entry_deserialize_v0_def split: if_splits
      dest!: read_consumes read_opt_string_consumes read_string_SomeD(1))

text \<open>The loop over a directory's bytes; it ends because each entry takes at least one byte.\<close>

function deserialize_child_entries_v0 :: "bytes \<Rightarrow> nat \<Rightarrow> child_entry list engine_result" where
  "deserialize_child_entries_v0 data hl =
    (if data = [] then Inr []
     else case child_entry_deserialize_v0 data hl of
       Inl e \<Rightarrow> Inl e
     | Inr (entry, bytes_consumed) \<Rightarrow>
         res_bind (deserialize_child_entries_v0 (drop bytes_consumed data) hl)
           (\<lambda>entries. Inr (entry # entries)))"
  by pat_completeness auto
termination
  by (relation "measure (\<lambda>(data, hl). length data)")
     (auto dest!: child_entry_deserialize_consumes)

declare deserialize_child_entries_v0.simps [simp del]

definition deserialize_child_entries :: "bytes \<Rightarrow> nat \<Rightarrow> u8 \<Rightarrow> child_entry list engine_result" where
  "deserialize_child_entries data hl version =
    (if version = 0 then deserialize_child_entries_v0 data hl else Inl (InvalidEntryVersion version))"

definition child_entry_ok :: "nat \<Rightarrow> child_entry \<Rightarrow> bool" where
  "child_entry_ok hl e \<longleftrightarrow> length (ce_hash e) = hl \<and> utf8_valid (ce_name e) \<and>
    opt_string_ok (ce_content_type e)"

lemma child_entry_serialize_Inr:
  "child_entry_serialize e hl = Inr bs \<longleftrightarrow> bs = child_entry_bytes e \<and>
    length (ce_name e) \<le> 65535 \<and> length (opt_bytes (ce_content_type e)) \<le> 65535"
  by (auto simp: child_entry_serialize_def)

lemma child_entry_deserialize_bytes:
  assumes ok: "child_entry_ok hl e" and len: "length (ce_name e) \<le> 65535"
    "length (opt_bytes (ce_content_type e)) \<le> 65535"
  shows "child_entry_deserialize_v0 (child_entry_bytes e @ rest) hl =
    Inr (e, length (child_entry_bytes e))"
proof -
  let ?d = "child_entry_bytes e @ rest"
  let ?nl = "word_of_nat (length (ce_name e)) :: u16"
  let ?cl = "word_of_nat (length (opt_bytes (ce_content_type e))) :: u16"
  have nl: "unat ?nl = length (ce_name e)" and cl: "unat ?cl = length (opt_bytes (ce_content_type e))"
    using len by (simp_all add: unat_word_of_nat)
  have h: "hl = length (ce_hash e)" "utf8_valid (ce_name e)" "opt_string_ok (ce_content_type e)"
    using ok by (simp_all add: child_entry_ok_def)
  have "cursor_at ?d 0 ([ce_entry_type e] @ ce_hash e @ drop (1 + hl) ?d)"
    using h by (simp add: cursor_at_def child_entry_bytes_def)
  note c1 = cursor_advance(1) [OF this, simplified]
  have r1: "read_bytes ?d 1 hl = Inr (ce_hash e, 1 + hl)"
    using read_bytes_cursor(1) [OF c1 h(1)] by simp
  have "cursor_at ?d (1 + hl) (drop (1 + hl) ?d)" by (simp add: cursor_at_def child_entry_bytes_def h)
  then have c2: "cursor_at ?d (1 + hl) (to_le_bytes (ce_total_size e) @ to_le_bytes (ce_created_at e) @
      to_le_bytes (ce_updated_at e) @ to_le_bytes ?nl @ ce_name e @ to_le_bytes ?cl @
      opt_bytes (ce_content_type e) @ to_le_bytes (ce_virtual_time e) @ to_le_bytes (ce_node_id e) @ rest)"
    by (simp add: child_entry_bytes_def h)
  note r2 = read_u64_cursor [OF c2]
  note r3 = read_i64_cursor [OF r2(2)]
  note r4 = read_i64_cursor [OF r3(2)]
  note r5 = read_u16_cursor [OF r4(2)]
  note r6 = read_string_cursor [OF r5(2) nl h(2)]
  note r7 = read_u16_cursor [OF r6(2)]
  note r8 = read_opt_string_cursor [OF r7(2) cl h(3)]
  note r9 = read_u64_cursor [OF r8(2)]
  note r10 = read_u64_cursor [OF r9(2)]
  note le = cursor_advance(2) [OF r8(2)] cursor_advance(2) [OF r9(2)]
  show ?thesis
    unfolding child_entry_deserialize_v0_def
    using r1 r2(1) r3(1) r4(1) r5(1) r6(1) r7(1) r8(1) r9(1) r10(1) le nl cl
    by (simp add: child_entry_bytes_def h)
qed

lemma serialize_child_entries_Inr:
  assumes "serialize_child_entries es hl = Inr bs"
  shows "bs = concat (map child_entry_bytes es) \<and>
    (\<forall>e\<in>set es. length (ce_name e) \<le> 65535 \<and> length (opt_bytes (ce_content_type e)) \<le> 65535)"
  using assms
  by (induction es arbitrary: bs) (auto simp: child_entry_serialize_Inr)

lemma deserialize_concat_child_entries:
  assumes "\<forall>e\<in>set es. child_entry_ok hl e \<and> length (ce_name e) \<le> 65535 \<and>
      length (opt_bytes (ce_content_type e)) \<le> 65535"
  shows "deserialize_child_entries_v0 (concat (map child_entry_bytes es)) hl = Inr es"
  using assms
proof (induction es)
  case Nil
  then show ?case by (simp add: deserialize_child_entries_v0.simps)
next
  case (Cons e es)
  have "child_entry_deserialize_v0 (child_entry_bytes e @ concat (map child_entry_bytes es)) hl =
      Inr (e, length (child_entry_bytes e))"
    using Cons.prems by (intro child_entry_deserialize_bytes) auto
  moreover have "child_entry_bytes e \<noteq> []" by (simp add: child_entry_bytes_def)
  ultimately show ?case
    using Cons by (subst deserialize_child_entries_v0.simps) simp
qed

section \<open>Symlink records\<close>

record symlink_record =
  sl_path :: str
  sl_target :: str
  sl_created_at :: i64
  sl_updated_at :: i64

definition symlink_record_new :: "i64 \<Rightarrow> str \<Rightarrow> str \<Rightarrow> symlink_record" where
  "symlink_record_new now path target =
    \<lparr> sl_path = path, sl_target = target, sl_created_at = now, sl_updated_at = now \<rparr>"

definition symlink_record_serialize :: "symlink_record \<Rightarrow> bytes engine_result" where
  "symlink_record_serialize r =
    (if length (sl_path r) > 65535 then Inl (InvalidInput ''Path too long'')
     else if length (sl_target r) > 65535 then Inl (InvalidInput ''Target too long'')
     else Inr (
       to_le_bytes (word_of_nat (length (sl_path r)) :: u16) @ sl_path r @
       to_le_bytes (word_of_nat (length (sl_target r)) :: u16) @ sl_target r @
       to_le_bytes (sl_created_at r) @ to_le_bytes (sl_updated_at r)))"

definition symlink_record_deserialize_v0 :: "bytes \<Rightarrow> symlink_record engine_result" where
  "symlink_record_deserialize_v0 data =
    (if length data < 4 then Inl (CorruptEntry 0 ''SymlinkRecord data too short'')
     else let path_length = unat (from_le_bytes (slice_at data 0 2) :: u16); c1 = 2 in
     if length data < c1 + path_length + 2
       then Inl (CorruptEntry 0 ''SymlinkRecord data too short for path'')
     else let path = slice_at data c1 path_length; c2 = c1 + path_length in
     if \<not> utf8_valid path then Inl (CorruptEntry 0 ''Invalid UTF-8 in symlink path'')
     else let target_length = unat (from_le_bytes (slice_at data c2 2) :: u16); c3 = c2 + 2 in
     if length data < c3 + target_length + 16
       then Inl (CorruptEntry 0 ''SymlinkRecord data too short for target + timestamps'')
     else let target = slice_at data c3 target_length; c4 = c3 + target_length in
     if \<not> utf8_valid target then Inl (CorruptEntry 0 ''Invalid UTF-8 in symlink target'')
     else Inr \<lparr> sl_path = path, sl_target = target,
       sl_created_at = from_le_bytes (slice_at data c4 8),
       sl_updated_at = from_le_bytes (slice_at data (c4 + 8) 8) \<rparr>)"

definition symlink_record_deserialize :: "bytes \<Rightarrow> u8 \<Rightarrow> symlink_record engine_result" where
  "symlink_record_deserialize data version =
    (if version = 0 then symlink_record_deserialize_v0 data else Inl (InvalidEntryVersion version))"

definition symlink_path_hash ::
  "(bytes \<Rightarrow> bytes) \<Rightarrow> str \<Rightarrow> hash_algorithm \<Rightarrow> bytes engine_result" where
  "symlink_path_hash blake3 path a = compute_hash_algo blake3 a (lit ''symlink:'' @ path)"

definition symlink_content_hash ::
  "(bytes \<Rightarrow> bytes) \<Rightarrow> bytes \<Rightarrow> hash_algorithm \<Rightarrow> bytes engine_result" where
  "symlink_content_hash blake3 data a = compute_hash_algo blake3 a (lit ''symlinkc:'' @ data)"

lemma symlink_record_roundtrip_v0:
  assumes "symlink_record_serialize r = Inr bs" "utf8_valid (sl_path r)" "utf8_valid (sl_target r)"
  shows "symlink_record_deserialize_v0 bs = Inr r"
proof -
  have len: "length (sl_path r) \<le> 65535" "length (sl_target r) \<le> 65535"
    and bs: "bs = to_le_bytes (word_of_nat (length (sl_path r)) :: u16) @ sl_path r @
       to_le_bytes (word_of_nat (length (sl_target r)) :: u16) @ sl_target r @
       to_le_bytes (sl_created_at r) @ to_le_bytes (sl_updated_at r)"
    using assms(1) by (auto simp: symlink_record_serialize_def split: if_splits)
  then show ?thesis
    using assms(2,3)
    by (simp add: symlink_record_deserialize_v0_def Let_def unat_word_of_nat)
qed

section \<open>Deletion records\<close>

record deletion_record =
  dr_path :: str
  dr_deleted_at :: i64
  dr_reason :: "str option"

definition deletion_record_new :: "i64 \<Rightarrow> str \<Rightarrow> str option \<Rightarrow> deletion_record" where
  "deletion_record_new now path reason = \<lparr> dr_path = path, dr_deleted_at = now, dr_reason = reason \<rparr>"

text \<open>No length check: \<^verbatim>\<open>len() as u16\<close> keeps the low sixteen bits.\<close>

definition deletion_record_serialize :: "deletion_record \<Rightarrow> bytes" where
  "deletion_record_serialize r =
    to_le_bytes (word_of_nat (length (dr_path r)) :: u16) @ dr_path r @
    to_le_bytes (dr_deleted_at r) @
    to_le_bytes (word_of_nat (length (opt_bytes (dr_reason r))) :: u16) @ opt_bytes (dr_reason r)"

definition deletion_record_deserialize_v0 :: "bytes \<Rightarrow> deletion_record engine_result" where
  "deletion_record_deserialize_v0 data =
    res_bind (read_u16 data 0) (\<lambda>(path_length, o1).
    res_bind (read_string data o1 (unat path_length)) (\<lambda>(path, o2).
    res_bind (read_i64 data o2) (\<lambda>(deleted_at, o3).
    res_bind (read_u16 data o3) (\<lambda>(reason_length, o4).
    res_bind (read_opt_string data o4 (unat reason_length)) (\<lambda>(reason, _).
      Inr \<lparr> dr_path = path, dr_deleted_at = deleted_at, dr_reason = reason \<rparr>)))))"

definition deletion_record_deserialize :: "bytes \<Rightarrow> u8 \<Rightarrow> deletion_record engine_result" where
  "deletion_record_deserialize data version =
    (if version = 0 then deletion_record_deserialize_v0 data else Inl (InvalidEntryVersion version))"

lemma deletion_record_roundtrip_v0:
  assumes "length (dr_path r) \<le> 65535" "length (opt_bytes (dr_reason r)) \<le> 65535"
    and "utf8_valid (dr_path r)" "opt_string_ok (dr_reason r)"
  shows "deletion_record_deserialize_v0 (deletion_record_serialize r) = Inr r"
proof -
  let ?d = "deletion_record_serialize r"
  have pl: "unat (word_of_nat (length (dr_path r)) :: u16) = length (dr_path r)"
    and rl: "unat (word_of_nat (length (opt_bytes (dr_reason r))) :: u16) = length (opt_bytes (dr_reason r))"
    using assms(1,2) by (simp_all add: unat_word_of_nat)
  have "cursor_at ?d 0 (to_le_bytes (word_of_nat (length (dr_path r)) :: u16) @ dr_path r @
    to_le_bytes (dr_deleted_at r) @
    to_le_bytes (word_of_nat (length (opt_bytes (dr_reason r))) :: u16) @ opt_bytes (dr_reason r) @ [])"
    by (simp add: cursor_at_def deletion_record_serialize_def)
  note r1 = read_u16_cursor [OF this]
  note r2 = read_string_cursor [OF r1(2) pl assms(3)]
  note r3 = read_i64_cursor [OF r2(2)]
  note r4 = read_u16_cursor [OF r3(2)]
  note r5 = read_opt_string_cursor [OF r4(2) rl assms(4)]
  show ?thesis
    unfolding deletion_record_deserialize_v0_def
    using r1(1) r2(1) r3(1) r4(1) r5(1) pl rl by simp
qed

text \<open>
  A path longer than 65535 bytes is written with a wrong length, and its bytes are then read as the
  fields that follow.
\<close>

lemma utf8_valid_replicate_ascii: "in_range 0 127 b \<Longrightarrow> utf8_valid (replicate n b)"
  by (induction n) simp_all

lemma replicate_8_u8:
  "replicate 8 (b :: u8) = [b, b, b, b, b, b, b, b]" "replicate 2 (b :: u8) = [b, b]"
  by (simp_all add: numeral_eq_Suc)

lemma deletion_record_long_path:
  fixes t reason
  defines "d \<equiv> deletion_record_serialize
    \<lparr> dr_path = replicate 65537 0x61, dr_deleted_at = t, dr_reason = reason \<rparr>"
  shows "deletion_record_deserialize_v0 d =
    Inr \<lparr> dr_path = [0x61], dr_deleted_at = 0x6161616161616161,
          dr_reason = Some (replicate 24929 0x61) \<rparr>"
proof -
  have "replicate (1 + (8 + (2 + (24929 + 40597)))) (0x61 :: u8) = replicate 1 0x61 @ replicate 8 0x61 @
      replicate 2 0x61 @ replicate 24929 0x61 @ replicate 40597 0x61"
    by (simp only: replicate_add)
  then have rep: "replicate 65537 (0x61 :: u8) = [0x61] @ replicate 8 0x61 @ replicate 2 0x61 @
      replicate 24929 0x61 @ replicate 40597 0x61"
    by simp
  have "(from_le_bytes [0x61, 0x61, 0x61, 0x61, 0x61, 0x61, 0x61, 0x61] :: u64) = 0x6161616161616161"
    by (simp add: from_le_bytes_def)
  then have a8: "to_le_bytes (0x6161616161616161 :: u64) = replicate 8 0x61"
    by (metis le_word_codec_inv(3) replicate_8_u8(1) length_replicate)
  have "(from_le_bytes [0x61, 0x61] :: u16) = 0x6161" by (simp add: from_le_bytes_def)
  then have a2: "to_le_bytes (0x6161 :: u16) = replicate 2 0x61"
    by (metis le_word_codec_inv(1) replicate_8_u8(2) length_replicate)
  have u: "utf8_valid (replicate n (0x61 :: u8))" for n
    by (rule utf8_valid_replicate_ascii) (simp add: in_range_def)
  define ys where "ys = replicate 40597 (0x61 :: u8) @ to_le_bytes t @
    to_le_bytes (word_of_nat (length (opt_bytes reason)) :: u16) @ opt_bytes reason"
  have wrap: "(65537 :: u16) = 1" by simp
  have "d = to_le_bytes (1 :: u16) @ [0x61] @ to_le_bytes (0x6161616161616161 :: u64) @
      to_le_bytes (0x6161 :: u16) @ opt_bytes (Some (replicate 24929 0x61)) @ ys"
    unfolding d_def deletion_record_serialize_def a8 a2
    by (simp add: ys_def opt_bytes_def rep wrap)
  then have "cursor_at d 0 (to_le_bytes (1 :: u16) @ [0x61] @ to_le_bytes (0x6161616161616161 :: u64) @
      to_le_bytes (0x6161 :: u16) @ opt_bytes (Some (replicate 24929 0x61)) @ ys)"
    by (simp add: cursor_at_def)
  note r1 = read_u16_cursor [OF this]
  have "utf8_valid [0x61]" using u [of 1] by simp
  note r2 = read_string_cursor [OF r1(2) _ this, of 1, simplified]
  note r3 = read_i64_cursor [OF r2(2)]
  note r4 = read_u16_cursor [OF r3(2)]
  have "opt_string_ok (Some (replicate 24929 0x61))" using u by (simp add: opt_string_ok_def)
  note r5 = read_opt_string_cursor [OF r4(2) _ this, of 24929, simplified]
  show ?thesis
    unfolding deletion_record_deserialize_v0_def
    using r1(1) r2(1) r3(1) r4(1) r5(1) by (simp add: opt_bytes_def)
qed

section \<open>File records\<close>

record file_record =
  fr_path :: str
  fr_content_type :: "str option"
  fr_total_size :: u64
  fr_created_at :: i64
  fr_updated_at :: i64
  fr_metadata :: bytes
  fr_content_hash :: bytes
  fr_chunk_hashes :: "bytes list"

definition CURRENT_FILE_RECORD_VERSION :: u8 where "CURRENT_FILE_RECORD_VERSION = 1"

definition file_record_new :: "i64 \<Rightarrow> str \<Rightarrow> str option \<Rightarrow> u64 \<Rightarrow> bytes list \<Rightarrow> file_record" where
  "file_record_new now path content_type total_size chunk_hashes =
    \<lparr> fr_path = path, fr_content_type = content_type, fr_total_size = total_size,
      fr_created_at = now, fr_updated_at = now, fr_metadata = [], fr_content_hash = [],
      fr_chunk_hashes = chunk_hashes \<rparr>"

definition file_record_bytes :: "file_record \<Rightarrow> bytes" where
  "file_record_bytes r =
    to_le_bytes (word_of_nat (length (fr_path r)) :: u16) @ fr_path r @
    to_le_bytes (word_of_nat (length (opt_bytes (fr_content_type r))) :: u16) @
    opt_bytes (fr_content_type r) @
    to_le_bytes (fr_total_size r) @ to_le_bytes (fr_created_at r) @ to_le_bytes (fr_updated_at r) @
    fr_content_hash r @
    to_le_bytes (word_of_nat (length (fr_metadata r)) :: u32) @ fr_metadata r @
    to_le_bytes (word_of_nat (length (fr_chunk_hashes r)) :: u32) @ concat (fr_chunk_hashes r)"

definition file_record_serialize :: "file_record \<Rightarrow> nat \<Rightarrow> bytes engine_result" where
  "file_record_serialize r hl =
    (if length (fr_path r) > 65535 then Inl (InvalidInput ''Path too long'')
     else if length (opt_bytes (fr_content_type r)) > 65535
       then Inl (InvalidInput ''Content type too long'')
     else if length (fr_metadata r) > 4294967295 then Inl (InvalidInput ''Metadata too large'')
     else if length (fr_chunk_hashes r) > 4294967295 then Inl (InvalidInput ''Too many chunk hashes'')
     else if length (fr_content_hash r) \<noteq> hl
       then Inl (InvalidInput ''Content hash length does not match expected hash length'')
     else Inr (file_record_bytes r))"

text \<open>The part of the two parsers after the optional content hash.\<close>

definition file_record_tail ::
  "bytes \<Rightarrow> nat \<Rightarrow> nat \<Rightarrow> string \<Rightarrow> (bytes \<times> bytes list) engine_result" where
  "file_record_tail data hl off msg =
    res_bind (read_u32 data off) (\<lambda>(metadata_length, o1).
    res_bind (read_bytes data o1 (unat metadata_length)) (\<lambda>(metadata, o2).
    res_bind (read_u32 data o2) (\<lambda>(chunk_count, o3).
    res_bind (read_many (\<lambda>d off. read_bytes d off hl) (unat chunk_count) data o3) (\<lambda>(chunk_hashes, o4).
      if o4 \<noteq> length data then Inl (InvalidInput msg)
      else Inr (metadata, chunk_hashes)))))"

definition file_record_deserialize_v0 :: "bytes \<Rightarrow> nat \<Rightarrow> file_record engine_result" where
  "file_record_deserialize_v0 data hl =
    res_bind (read_u16 data 0) (\<lambda>(path_length, o1).
    res_bind (read_string data o1 (unat path_length)) (\<lambda>(path, o2).
    res_bind (read_u16 data o2) (\<lambda>(content_type_length, o3).
    res_bind (read_opt_string data o3 (unat content_type_length)) (\<lambda>(content_type, o4).
    res_bind (read_u64 data o4) (\<lambda>(total_size, o5).
    res_bind (read_i64 data o5) (\<lambda>(created_at, o6).
    res_bind (read_i64 data o6) (\<lambda>(updated_at, o7).
    res_bind (file_record_tail data hl o7 ''Invalid FileRecord v0 trailing bytes'')
      (\<lambda>(metadata, chunk_hashes).
      Inr \<lparr> fr_path = path, fr_content_type = content_type, fr_total_size = total_size,
        fr_created_at = created_at, fr_updated_at = updated_at, fr_metadata = metadata,
        fr_content_hash = [], fr_chunk_hashes = chunk_hashes \<rparr>))))))))"

definition file_record_deserialize_v1 :: "bytes \<Rightarrow> nat \<Rightarrow> file_record engine_result" where
  "file_record_deserialize_v1 data hl =
    res_bind (read_u16 data 0) (\<lambda>(path_length, o1).
    res_bind (read_string data o1 (unat path_length)) (\<lambda>(path, o2).
    res_bind (read_u16 data o2) (\<lambda>(content_type_length, o3).
    res_bind (read_opt_string data o3 (unat content_type_length)) (\<lambda>(content_type, o4).
    res_bind (read_u64 data o4) (\<lambda>(total_size, o5).
    res_bind (read_i64 data o5) (\<lambda>(created_at, o6).
    res_bind (read_i64 data o6) (\<lambda>(updated_at, o7).
    res_bind (read_bytes data o7 hl) (\<lambda>(content_hash, o8).
    res_bind (file_record_tail data hl o8 ''Invalid FileRecord v1 trailing bytes'')
      (\<lambda>(metadata, chunk_hashes).
      Inr \<lparr> fr_path = path, fr_content_type = content_type, fr_total_size = total_size,
        fr_created_at = created_at, fr_updated_at = updated_at, fr_metadata = metadata,
        fr_content_hash = content_hash, fr_chunk_hashes = chunk_hashes \<rparr>)))))))))"

definition file_record_deserialize :: "bytes \<Rightarrow> nat \<Rightarrow> u8 \<Rightarrow> file_record engine_result" where
  "file_record_deserialize data hl version =
    (if version = 0 then file_record_deserialize_v0 data hl
     else if version = 1 then file_record_deserialize_v1 data hl
     else Inl (InvalidEntryVersion version))"

definition file_record_ok :: "nat \<Rightarrow> file_record \<Rightarrow> bool" where
  "file_record_ok hl r \<longleftrightarrow> utf8_valid (fr_path r) \<and> opt_string_ok (fr_content_type r) \<and>
    (\<forall>h\<in>set (fr_chunk_hashes r). length h = hl)"

lemma file_record_tail_bytes:
  assumes "cursor_at data off (to_le_bytes (word_of_nat (length md) :: u32) @ md @
      to_le_bytes (word_of_nat (length hs) :: u32) @ concat hs)"
    and "length md \<le> 4294967295" "length hs \<le> 4294967295" "\<forall>h\<in>set hs. length h = hl"
  shows "file_record_tail data hl off msg = Inr (md, hs)"
proof -
  have ml: "unat (word_of_nat (length md) :: u32) = length md"
    and hsl: "unat (word_of_nat (length hs) :: u32) = length hs"
    using assms(2,3) by (simp_all add: unat_word_of_nat)
  note r1 = read_u32_cursor [OF assms(1)]
  note r2 = read_bytes_cursor [OF r1(2) ml]
  note r3 = read_u32_cursor [OF r2(2)]
  from r3(2) have c3: "cursor_at data (off + 4 + unat (word_of_nat (length md) :: u32) + 4)
      (concat (map (\<lambda>h. h) hs) @ [])" by simp
  note r4 = hash_codec.read_many_enc [OF assms(4) c3]
  have "length data = off + 4 + unat (word_of_nat (length md) :: u32) + 4 + length (concat hs)"
    using r4(2) by (auto simp: cursor_at_def)
  then show ?thesis
    unfolding file_record_tail_def using r1(1) r2(1) r3(1) r4(1) ml hsl by simp
qed

lemma file_record_roundtrip_v1:
  assumes ok: "file_record_ok hl r" and ser: "file_record_serialize r hl = Inr bs"
  shows "file_record_deserialize_v1 bs hl = Inr r"
proof -
  have len: "length (fr_path r) \<le> 65535" "length (opt_bytes (fr_content_type r)) \<le> 65535"
      "length (fr_metadata r) \<le> 4294967295" "length (fr_chunk_hashes r) \<le> 4294967295"
      "hl = length (fr_content_hash r)" and bs: "bs = file_record_bytes r"
    using ser by (auto simp: file_record_serialize_def split: if_splits)
  have u: "utf8_valid (fr_path r)" "opt_string_ok (fr_content_type r)"
      "\<forall>h\<in>set (fr_chunk_hashes r). length h = hl"
    using ok by (simp_all add: file_record_ok_def)
  have pl: "unat (word_of_nat (length (fr_path r)) :: u16) = length (fr_path r)"
    and cl: "unat (word_of_nat (length (opt_bytes (fr_content_type r))) :: u16) =
      length (opt_bytes (fr_content_type r))"
    using len by (simp_all add: unat_word_of_nat)
  have "cursor_at bs 0 bs" by (rule cursor_start)
  then have c0: "cursor_at bs 0 (to_le_bytes (word_of_nat (length (fr_path r)) :: u16) @ fr_path r @
    to_le_bytes (word_of_nat (length (opt_bytes (fr_content_type r))) :: u16) @
    opt_bytes (fr_content_type r) @
    to_le_bytes (fr_total_size r) @ to_le_bytes (fr_created_at r) @ to_le_bytes (fr_updated_at r) @
    fr_content_hash r @
    to_le_bytes (word_of_nat (length (fr_metadata r)) :: u32) @ fr_metadata r @
    to_le_bytes (word_of_nat (length (fr_chunk_hashes r)) :: u32) @ concat (fr_chunk_hashes r))"
    unfolding bs file_record_bytes_def .
  note r1 = read_u16_cursor [OF c0]
  note r2 = read_string_cursor [OF r1(2) pl u(1)]
  note r3 = read_u16_cursor [OF r2(2)]
  note r4 = read_opt_string_cursor [OF r3(2) cl u(2)]
  note r5 = read_u64_cursor [OF r4(2)]
  note r6 = read_i64_cursor [OF r5(2)]
  note r7 = read_i64_cursor [OF r6(2)]
  note r8 = read_bytes_cursor [OF r7(2) len(5)]
  note r9 = file_record_tail_bytes [OF r8(2) len(3,4) u(3)]
  show ?thesis
    unfolding file_record_deserialize_v1_def
    using r1(1) r2(1) r3(1) r4(1) r5(1) r6(1) r7(1) r8(1) r9 pl cl by simp
qed

section \<open>Properties\<close>

text \<open>
  C30: A flat directory survives the disk: when its child entries serialize, parsing the bytes gives
  back the same list in the same order, for every list of entries whose hashes have the
  database's length and whose strings are UTF-8 (an empty content type must be absent rather than the
  empty string, which the format cannot express).
\<close>

theorem child_entries_roundtrip:
  assumes "\<forall>e\<in>set es. child_entry_ok hl e" and "serialize_child_entries es hl = Inr bs"
  shows "deserialize_child_entries bs hl 0 = Inr es"
  using serialize_child_entries_Inr [OF assms(2)] deserialize_concat_child_entries [of es hl] assms(1)
  by (simp add: deserialize_child_entries_def)

theorem child_entries_roundtrip_witness:
  "\<exists>es bs. length es = 2 \<and> (\<forall>e\<in>set es. child_entry_ok 2 e) \<and>
    serialize_child_entries es 2 = Inr bs \<and> deserialize_child_entries bs 2 0 = Inr es"
proof -
  let ?e = "\<lambda>n c. \<lparr> ce_entry_type = 2, ce_hash = [7, 8], ce_total_size = 10, ce_created_at = 1,
    ce_updated_at = 2, ce_name = [n], ce_content_type = c, ce_virtual_time = 3, ce_node_id = 4 \<rparr>"
  let ?es = "[?e 0x61 None, ?e 0x62 (Some [0x63])]"
  have ok: "\<forall>e\<in>set ?es. child_entry_ok 2 e"
    by (simp add: child_entry_ok_def opt_string_ok_def in_range_def)
  obtain bs where bs: "serialize_child_entries ?es 2 = Inr bs"
    by (simp add: child_entry_serialize_def opt_bytes_def)
  show ?thesis
    using ok bs child_entries_roundtrip [OF ok bs] by (intro exI [of _ ?es] exI [of _ bs]) simp
qed

text \<open>
  C31: A file record survives the disk: whatever \<open>file_record_serialize\<close> writes, the version-1 parser
  reads back unchanged, chunk list included.
\<close>

theorem file_record_roundtrip:
  assumes "file_record_ok hl r" and "file_record_serialize r hl = Inr bs"
  shows "file_record_deserialize bs hl CURRENT_FILE_RECORD_VERSION = Inr r"
  using file_record_roundtrip_v1 [OF assms]
  by (simp add: file_record_deserialize_def CURRENT_FILE_RECORD_VERSION_def)

theorem file_record_roundtrip_witness:
  "\<exists>r bs. fr_chunk_hashes r = [[1, 2], [3, 4]] \<and> file_record_ok 2 r \<and>
    file_record_serialize r 2 = Inr bs \<and>
    file_record_deserialize bs 2 CURRENT_FILE_RECORD_VERSION = Inr r"
proof -
  let ?r = "(file_record_new 9 (lit ''/a.txt'') (Some (lit ''text/plain'')) 20 [[1, 2], [3, 4]])
    \<lparr>fr_content_hash := [5, 6]\<rparr>"
  have ok: "file_record_ok 2 ?r"
    by (simp add: file_record_ok_def file_record_new_def opt_string_ok_def lit_def in_range_def)
  obtain bs where bs: "file_record_serialize ?r 2 = Inr bs"
    by (simp add: file_record_serialize_def file_record_new_def opt_bytes_def lit_def)
  show ?thesis
    using ok bs file_record_roundtrip [OF ok bs]
    by (intro exI [of _ ?r] exI [of _ bs]) (simp add: file_record_new_def)
qed

text \<open>
  A deletion record is written without a length check.  A path of 65537 letters a is written with
  length 1, and the parser reads back, without an error, the deletion of the one-letter path at a
  time and with a reason made of the path's own bytes.
\<close>

theorem deletion_record_length_wraps:
  "deletion_record_deserialize
     (deletion_record_serialize
       \<lparr> dr_path = replicate 65537 0x61, dr_deleted_at = t, dr_reason = reason \<rparr>) 0 =
   Inr \<lparr> dr_path = [0x61], dr_deleted_at = 0x6161616161616161,
         dr_reason = Some (replicate 24929 0x61) \<rparr>"
  using deletion_record_long_path by (simp add: deletion_record_deserialize_def)

end
