(* ===== verification/File_Header.thy ===== *)
theory File_Header
  imports Entry_Codec
begin

text \<open>
  The database file's header (\<^verbatim>\<open>file_header.rs\<close>): two 256-byte slots with a sequence number and
  a CRC each, of which the valid one with the higher sequence is the live one and updates go to
  the other.  The CRC-32 function is the parameter \<open>crc32\<close>.  A Rust panic (a slice out of range)
  is the outer \<open>None\<close>.  The lemmas show that the live header survives any torn write of the
  other slot, that a completed write becomes the live header, and where the fixed slot size is
  too small for the algorithm.
\<close>

section \<open>The header record\<close>

definition FILE_HEADER_SIZE :: nat where "FILE_HEADER_SIZE = 256"
definition HEADER_REGION_SIZE :: nat where "HEADER_REGION_SIZE = FILE_HEADER_SIZE * 2"
definition FILE_MAGIC :: bytes where "FILE_MAGIC = lit ''AEOR''"
definition HEADER_CRC_SIZE :: nat where "HEADER_CRC_SIZE = 4"
definition SUPPORTED_HEADER_VERSION :: u8 where "SUPPORTED_HEADER_VERSION = 3"

record file_header =
  fh_header_version :: u8
  fh_hash_algo :: hash_algorithm
  fh_sequence :: u64
  fh_created_at :: i64
  fh_updated_at :: i64
  fh_kv_block_offset :: u64
  fh_kv_block_length :: u64
  fh_kv_block_version :: u8
  fh_nvt_offset :: u64
  fh_nvt_length :: u64
  fh_nvt_version :: u8
  fh_head_hash :: bytes
  fh_entry_count :: u64
  fh_resize_in_progress :: bool
  fh_buffer_kvs_offset :: u64
  fh_buffer_nvt_offset :: u64
  fh_hot_tail_offset :: u64
  fh_kv_block_stage :: u8
  fh_resize_target_stage :: u8
  fh_backup_type :: u8
  fh_base_hash :: bytes
  fh_target_hash :: bytes

text \<open>\<open>now\<close> is the clock reading of \<^verbatim>\<open>chrono::Utc::now()\<close>.\<close>

definition file_header_new :: "i64 \<Rightarrow> hash_algorithm \<Rightarrow> file_header" where
  "file_header_new now a =
    \<lparr> fh_header_version = SUPPORTED_HEADER_VERSION, fh_hash_algo = a, fh_sequence = 0,
      fh_created_at = now, fh_updated_at = now,
      fh_kv_block_offset = 0, fh_kv_block_length = 0, fh_kv_block_version = 1,
      fh_nvt_offset = 0, fh_nvt_length = 0, fh_nvt_version = 1,
      fh_head_hash = replicate (hash_length a) 0, fh_entry_count = 0,
      fh_resize_in_progress = False, fh_buffer_kvs_offset = 0, fh_buffer_nvt_offset = 0,
      fh_hot_tail_offset = 0, fh_kv_block_stage = 0, fh_resize_target_stage = 0,
      fh_backup_type = 0, fh_base_hash = replicate (hash_length a) 0,
      fh_target_hash = replicate (hash_length a) 0 \<rparr>"

text \<open>A hash field: at most \<open>n\<close> bytes are copied into \<open>n\<close> zeroed ones.\<close>

definition hash_field :: "nat \<Rightarrow> bytes \<Rightarrow> bytes" where
  "hash_field n h = take n h @ replicate (n - length h) 0"

text \<open>
  The fields in the order they are copied into the zeroed buffer.  The copy of \<^verbatim>\<open>target_hash\<close> is the
  last and the only one that can leave the buffer; the CRC then overwrites the last four bytes.
\<close>

definition file_header_fields :: "file_header \<Rightarrow> bytes" where
  "file_header_fields h = (let n = hash_length (fh_hash_algo h) in
    FILE_MAGIC @ [fh_header_version h] @
    to_le_bytes (hash_algorithm_to_u16 (fh_hash_algo h)) @
    to_le_bytes (fh_sequence h) @
    to_le_bytes (fh_created_at h) @
    to_le_bytes (fh_updated_at h) @
    to_le_bytes (fh_kv_block_offset h) @
    to_le_bytes (fh_kv_block_length h) @
    [fh_kv_block_version h] @
    to_le_bytes (fh_nvt_offset h) @
    to_le_bytes (fh_nvt_length h) @
    [fh_nvt_version h] @
    hash_field n (fh_head_hash h) @
    to_le_bytes (fh_entry_count h) @
    [if fh_resize_in_progress h then 1 else 0] @
    to_le_bytes (fh_buffer_kvs_offset h) @
    to_le_bytes (fh_buffer_nvt_offset h) @
    to_le_bytes (fh_hot_tail_offset h) @
    [fh_kv_block_stage h, fh_resize_target_stage h, fh_backup_type h] @
    hash_field n (fh_base_hash h) @
    hash_field n (fh_target_hash h))"

definition file_header_serialize :: "(bytes \<Rightarrow> u32) \<Rightarrow> file_header \<Rightarrow> bytes option" where
  "file_header_serialize crc32 h =
    (let n = hash_length (fh_hash_algo h);
         target_offset = 101 + 2 * n;
         copy_len = min n (length (fh_target_hash h));
         body = take (FILE_HEADER_SIZE - HEADER_CRC_SIZE) (file_header_fields h @ replicate FILE_HEADER_SIZE 0) in
     if target_offset + copy_len > FILE_HEADER_SIZE then None
     else Some (body @ to_le_bytes (crc32 body)))"

definition file_header_deserialize ::
  "(bytes \<Rightarrow> u32) \<Rightarrow> bytes \<Rightarrow> file_header engine_result option" where
  "file_header_deserialize crc32 bs =
    (if slice_at bs 0 4 \<noteq> FILE_MAGIC then Some (Inl InvalidMagic)
     else if bs ! 4 \<noteq> SUPPORTED_HEADER_VERSION then Some (Inl (InvalidEntryVersion (bs ! 4)))
     else if from_le_bytes (slice_at bs (FILE_HEADER_SIZE - HEADER_CRC_SIZE) 4)
         \<noteq> crc32 (take (FILE_HEADER_SIZE - HEADER_CRC_SIZE) bs)
       then Some (Inl (CorruptEntry 0 ''file header CRC mismatch''))
     else let hash_algo_raw = from_le_bytes (slice_at bs 5 2) in
       (case hash_algorithm_from_u16 hash_algo_raw of
          None \<Rightarrow> Some (Inl (InvalidHashAlgorithm hash_algo_raw))
        | Some a \<Rightarrow>
            (let n = hash_length a in
             if 101 + 3 * n > FILE_HEADER_SIZE then None
             else Some (Inr \<lparr>
               fh_header_version = bs ! 4, fh_hash_algo = a,
               fh_sequence = from_le_bytes (slice_at bs 7 8),
               fh_created_at = from_le_bytes (slice_at bs 15 8),
               fh_updated_at = from_le_bytes (slice_at bs 23 8),
               fh_kv_block_offset = from_le_bytes (slice_at bs 31 8),
               fh_kv_block_length = from_le_bytes (slice_at bs 39 8),
               fh_kv_block_version = bs ! 47,
               fh_nvt_offset = from_le_bytes (slice_at bs 48 8),
               fh_nvt_length = from_le_bytes (slice_at bs 56 8),
               fh_nvt_version = bs ! 64,
               fh_head_hash = slice_at bs 65 n,
               fh_entry_count = from_le_bytes (slice_at bs (65 + n) 8),
               fh_resize_in_progress = (bs ! (73 + n) \<noteq> 0),
               fh_buffer_kvs_offset = from_le_bytes (slice_at bs (74 + n) 8),
               fh_buffer_nvt_offset = from_le_bytes (slice_at bs (82 + n) 8),
               fh_hot_tail_offset = from_le_bytes (slice_at bs (90 + n) 8),
               fh_kv_block_stage = bs ! (98 + n),
               fh_resize_target_stage = bs ! (99 + n),
               fh_backup_type = bs ! (100 + n),
               fh_base_hash = slice_at bs (101 + n) n,
               fh_target_hash = slice_at bs (101 + 2 * n) n \<rparr>))))"

definition file_header_wf :: "file_header \<Rightarrow> bool" where
  "file_header_wf h \<longleftrightarrow> fh_header_version h = SUPPORTED_HEADER_VERSION \<and>
    (let n = hash_length (fh_hash_algo h) in n = 32 \<and> length (fh_head_hash h) = n \<and>
      length (fh_base_hash h) = n \<and> length (fh_target_hash h) = n)"

lemmas file_header_sizes = FILE_HEADER_SIZE_def HEADER_CRC_SIZE_def HEADER_REGION_SIZE_def
  SUPPORTED_HEADER_VERSION_def

lemma length_FILE_MAGIC [simp]: "length FILE_MAGIC = 4"
  by (simp add: FILE_MAGIC_def lit_def)

lemma hash_field_exact [simp]: "length h = n \<Longrightarrow> hash_field n h = h"
  by (simp add: hash_field_def)

lemma length_hash_field [simp]: "length (hash_field n h) = n"
  by (simp add: hash_field_def)

lemma length_file_header_fields [simp]:
  "length (file_header_fields h) = 101 + 3 * hash_length (fh_hash_algo h)"
  by (simp add: file_header_fields_def Let_def)

lemma file_header_serialize_wf:
  assumes "file_header_wf h"
  defines "body \<equiv> file_header_fields h @ replicate 55 0"
  shows "file_header_serialize crc32 h = Some (body @ to_le_bytes (crc32 body))"
  using assms
  by (simp add: file_header_serialize_def file_header_sizes file_header_wf_def Let_def body_def)

lemma length_file_header_serialize:
  assumes "file_header_serialize crc32 h = Some bs"
  shows "length bs = 256"
  using assms by (auto simp: file_header_serialize_def file_header_sizes Let_def split: if_splits)

lemma file_header_deserialize_serialize:
  assumes "file_header_wf h" and "file_header_serialize crc32 h = Some bs"
  shows "file_header_deserialize crc32 bs = Some (Inr h)"
proof -
  define body where "body = file_header_fields h @ replicate 55 (0 :: u8)"
  have n: "hash_length (fh_hash_algo h) = 32" using assms(1) by (simp add: file_header_wf_def Let_def)
  have bs: "bs = body @ to_le_bytes (crc32 body)"
    using assms file_header_serialize_wf [OF assms(1)] by (simp add: body_def)
  have lb: "length body = 252" using n by (simp add: body_def)
  have crc: "from_le_bytes (slice_at bs 252 4) = crc32 (take 252 bs)"
    using lb by (simp add: bs)
  have h: "length (fh_head_hash h) = 32" "length (fh_base_hash h) = 32"
      "length (fh_target_hash h) = 32" "fh_header_version h = SUPPORTED_HEADER_VERSION"
    using assms(1) by (simp_all add: file_header_wf_def Let_def)
  have fields: "slice_at bs 0 4 = FILE_MAGIC" "bs ! 4 = SUPPORTED_HEADER_VERSION"
      "from_le_bytes (slice_at bs 5 2) = hash_algorithm_to_u16 (fh_hash_algo h)"
    using h n by (simp_all add: bs body_def file_header_fields_def Let_def nth_append)
  show ?thesis
    unfolding file_header_deserialize_def file_header_sizes
    using h n crc fields
    by (simp add: Let_def file_header_sizes)
       (simp add: bs body_def file_header_fields_def Let_def nth_append)
qed

section \<open>The two slots\<close>

definition read_active_header ::
  "(bytes \<Rightarrow> u32) \<Rightarrow> bytes \<Rightarrow> (file_header \<times> nat) engine_result option" where
  "read_active_header crc32 file =
    (case (read_exact file 0 FILE_HEADER_SIZE, read_exact file FILE_HEADER_SIZE FILE_HEADER_SIZE) of
       (Some slot_a, Some slot_b) \<Rightarrow>
         (case (file_header_deserialize crc32 slot_a, file_header_deserialize crc32 slot_b) of
            (Some parsed_a, Some parsed_b) \<Rightarrow> Some (case (parsed_a, parsed_b) of
                (Inr a, Inr b) \<Rightarrow> if fh_sequence a \<ge> fh_sequence b then Inr (a, 0) else Inr (b, 1)
              | (Inr a, Inl _) \<Rightarrow> Inr (a, 0)
              | (Inl _, Inr b) \<Rightarrow> Inr (b, 1)
              | (Inl err, Inl _) \<Rightarrow> Inl err)
          | _ \<Rightarrow> None)
     | _ \<Rightarrow> Some (Inl UnexpectedEof))"

text \<open>The header with its new sequence number and the file; \<open>None\<close> is a panic in \<^verbatim>\<open>serialize\<close>.\<close>

definition write_header_to_inactive_slot ::
  "(bytes \<Rightarrow> u32) \<Rightarrow> bytes \<Rightarrow> file_header \<Rightarrow> nat \<Rightarrow> (bytes \<times> file_header) option" where
  "write_header_to_inactive_slot crc32 file header active_slot =
    (let header1 = header\<lparr>fh_sequence := fh_sequence header + 1\<rparr>;
         target_slot = 1 - active_slot;
         slot_offset = target_slot * FILE_HEADER_SIZE in
     case file_header_serialize crc32 header1 of
       None \<Rightarrow> None
     | Some bs \<Rightarrow> Some (write_at file slot_offset bs, header1))"

definition write_initial_header ::
  "(bytes \<Rightarrow> u32) \<Rightarrow> bytes \<Rightarrow> file_header \<Rightarrow> (bytes \<times> file_header) option" where
  "write_initial_header crc32 file header =
    (let file1 = write_at file FILE_HEADER_SIZE (replicate FILE_HEADER_SIZE 0);
         header1 = header\<lparr>fh_sequence := 1\<rparr> in
     case file_header_serialize crc32 header1 of
       None \<Rightarrow> None
     | Some bs \<Rightarrow> Some (write_at file1 0 bs, header1))"

text \<open>What one slot holds, for the lemmas.\<close>

definition slot_at :: "(bytes \<Rightarrow> u32) \<Rightarrow> bytes \<Rightarrow> nat \<Rightarrow> file_header engine_result option" where
  "slot_at crc32 file i = file_header_deserialize crc32 (slice_at file (i * 256) 256)"

lemma read_active_header_slots:
  assumes "512 \<le> length file"
  shows "read_active_header crc32 file =
    (case (slot_at crc32 file 0, slot_at crc32 file 1) of
       (Some parsed_a, Some parsed_b) \<Rightarrow> Some (case (parsed_a, parsed_b) of
           (Inr a, Inr b) \<Rightarrow> if fh_sequence a \<ge> fh_sequence b then Inr (a, 0) else Inr (b, 1)
         | (Inr a, Inl _) \<Rightarrow> Inr (a, 0)
         | (Inl _, Inr b) \<Rightarrow> Inr (b, 1)
         | (Inl err, Inl _) \<Rightarrow> Inl err)
     | _ \<Rightarrow> None)"
  using assms by (simp add: read_active_header_def read_exact_def slot_at_def FILE_HEADER_SIZE_def)

lemma read_active_header_len:
  assumes "read_active_header crc32 file = Some (Inr r)"
  shows "512 \<le> length file"
  using assms by (auto simp: read_active_header_def read_exact_def FILE_HEADER_SIZE_def
      split: if_splits option.splits)

text \<open>Reading returns slot \<open>i\<close> when it is valid and the other is rejected or not newer.\<close>

lemma read_active_header_iff:
  assumes "512 \<le> length file"
  shows "read_active_header crc32 file = Some (Inr (h, i)) \<longleftrightarrow>
    i < 2 \<and> slot_at crc32 file i = Some (Inr h) \<and>
    (\<exists>other. slot_at crc32 file (1 - i) = Some other \<and>
      (case other of Inl _ \<Rightarrow> True
       | Inr h' \<Rightarrow> if i = 0 then fh_sequence h' \<le> fh_sequence h else fh_sequence h' < fh_sequence h))"
proof (cases "i = 0")
  case True
  then show ?thesis
    unfolding read_active_header_slots [OF assms]
    by (auto split: option.splits sum.splits if_splits)
next
  case False
  then show ?thesis
    unfolding read_active_header_slots [OF assms]
    by (cases "i = 1") (auto split: option.splits sum.splits if_splits)
qed

lemma slot_at_write:
  assumes "512 \<le> length file" and "i < 2" and "j < 2" and "length bs = 256"
  shows "slot_at crc32 (write_at file (i * 256) bs) j =
    (if i = j then file_header_deserialize crc32 bs else slot_at crc32 file j)"
proof -
  have "read_exact (write_at file (i * 256) bs) (j * 256) 256 =
      (if i = j then Some bs else read_exact file (j * 256) 256)"
  proof (cases "i = j")
    case False
    then have "j * 256 + 256 \<le> i * 256 \<or> i * 256 + 256 \<le> j * 256" using assms by auto
    then show ?thesis using assms False by (simp add: read_write_other)
  qed (simp add: assms)
  then show ?thesis
    using assms by (auto simp: slot_at_def read_exact_def split: if_splits)
qed

lemma other_slot:
  assumes "i < 2"
  shows "1 - i < (2 :: nat)" "1 - i \<noteq> i" "1 - (1 - i) = i"
  using less_2_cases [OF assms] by auto

lemma torn_inactive_slot:
  assumes "read_active_header crc32 file = Some (Inr (h, i))"
    and "length torn = 256" and "file_header_deserialize crc32 torn = Some (Inl e)"
  shows "read_active_header crc32 (write_at file ((1 - i) * 256) torn) = Some (Inr (h, i))"
proof -
  have len: "512 \<le> length file" using assms(1) by (rule read_active_header_len)
  have i: "i < 2" "slot_at crc32 file i = Some (Inr h)"
    using assms(1) read_active_header_iff [OF len] by auto
  note ne = other_slot [OF i(1)]
  show ?thesis
    using len i ne assms(2,3) slot_at_write [OF len]
    by (subst read_active_header_iff) auto
qed

lemma complete_inactive_slot:
  assumes "read_active_header crc32 file = Some (Inr (h0, i))"
    and "fh_sequence h = fh_sequence h0" and "fh_sequence h \<noteq> - 1" and "file_header_wf h"
    and "write_header_to_inactive_slot crc32 file h i = Some (file', h')"
  shows "read_active_header crc32 file' = Some (Inr (h', 1 - i))"
    and "file_header_wf h'" and "fh_sequence h' = fh_sequence h + 1"
proof -
  have len: "512 \<le> length file" using assms(1) by (rule read_active_header_len)
  have i: "i < 2" "slot_at crc32 file i = Some (Inr h0)"
    using assms(1) read_active_header_iff [OF len] by auto
  note ne = other_slot [OF i(1)]
  obtain bs where h': "h' = h\<lparr>fh_sequence := fh_sequence h + 1\<rparr>"
      and ser: "file_header_serialize crc32 h' = Some bs"
      and f: "file' = write_at file ((1 - i) * 256) bs"
    using assms(5)
    by (auto simp: write_header_to_inactive_slot_def FILE_HEADER_SIZE_def Let_def split: option.splits)
  show wf: "file_header_wf h'" using assms(4) by (simp add: h' file_header_wf_def Let_def)
  show "fh_sequence h' = fh_sequence h + 1" by (simp add: h')
  have lt: "fh_sequence h0 < fh_sequence h'"
    using assms(2,3) inc_less_eq_self_iff_eq [of "fh_sequence h"] by (simp add: h' not_le)
  have "length bs = 256" using ser by (rule length_file_header_serialize)
  then show "read_active_header crc32 file' = Some (Inr (h', 1 - i))"
    using len i ne lt file_header_deserialize_serialize [OF wf ser] slot_at_write [OF len]
    by (subst read_active_header_iff) (auto simp: f less_imp_le)
qed

lemma zero_slot_rejected:
  "file_header_deserialize crc32 (replicate 256 0) = Some (Inl InvalidMagic)"
proof -
  have "slice_at (replicate 256 (0 :: u8)) 0 4 = [0, 0, 0, 0]"
    by (simp add: slice_at_def) (simp add: numeral_eq_Suc)
  then have "slice_at (replicate 256 0) 0 4 \<noteq> FILE_MAGIC"
    by (simp add: FILE_MAGIC_def lit_def)
  then show ?thesis unfolding file_header_deserialize_def by (simp only: if_True simp_thms)
qed

lemma initial_header:
  assumes "file_header_wf h" and "write_initial_header crc32 file h = Some (file', h')"
  shows "read_active_header crc32 file' = Some (Inr (h', 0))" and "file_header_wf h'"
proof -
  define f1 where "f1 = write_at file 256 (replicate 256 0)"
  obtain bs where h': "h' = h\<lparr>fh_sequence := 1\<rparr>"
      and ser: "file_header_serialize crc32 h' = Some bs" and f: "file' = write_at f1 (0 * 256) bs"
    using assms(2)
    by (auto simp: write_initial_header_def FILE_HEADER_SIZE_def Let_def f1_def split: option.splits)
  have len: "512 \<le> length f1" by (simp add: f1_def)
  show wf: "file_header_wf h'" using assms(1) by (simp add: h' file_header_wf_def Let_def)
  have "read_exact f1 256 256 = Some (replicate 256 0)" by (simp add: f1_def)
  then have "slot_at crc32 f1 1 = Some (Inl InvalidMagic)"
    by (auto simp: slot_at_def read_exact_def zero_slot_rejected split: if_splits)
  then show "read_active_header crc32 file' = Some (Inr (h', 0))"
    using len file_header_deserialize_serialize [OF wf ser] length_file_header_serialize [OF ser]
      slot_at_write [OF len, of 0 0 bs] slot_at_write [OF len, of 0 1 bs]
    by (subst read_active_header_iff) (auto simp: f)
qed

lemma read_active_header_data_write:
  assumes "512 \<le> off" and "512 \<le> length file"
  shows "read_active_header crc32 (write_at file off bs) = read_active_header crc32 file"
  using assms by (simp add: read_active_header_def FILE_HEADER_SIZE_def read_write_before)

text \<open>
  The life of the header region: creation, completed updates, updates torn by a crash (the other
  slot is left with bytes that do not parse), and writes to the data region behind it.
\<close>

inductive header_history :: "(bytes \<Rightarrow> u32) \<Rightarrow> bytes \<Rightarrow> file_header \<Rightarrow> nat \<Rightarrow> bool"
  for crc32 where
  create: "file_header_wf h \<Longrightarrow> write_initial_header crc32 file h = Some (file', h') \<Longrightarrow>
    header_history crc32 file' h' 0"
| update: "header_history crc32 file h0 slot \<Longrightarrow> file_header_wf h \<Longrightarrow>
    fh_sequence h = fh_sequence h0 \<Longrightarrow> fh_sequence h \<noteq> - 1 \<Longrightarrow>
    write_header_to_inactive_slot crc32 file h slot = Some (file', h') \<Longrightarrow>
    header_history crc32 file' h' (1 - slot)"
| crash: "header_history crc32 file h slot \<Longrightarrow> length torn = 256 \<Longrightarrow>
    file_header_deserialize crc32 torn = Some (Inl e) \<Longrightarrow>
    header_history crc32 (write_at file ((1 - slot) * FILE_HEADER_SIZE) torn) h slot"
| data: "header_history crc32 file h slot \<Longrightarrow> HEADER_REGION_SIZE \<le> off \<Longrightarrow>
    header_history crc32 (write_at file off bs) h slot"

lemma header_history_active:
  assumes "header_history crc32 file h slot"
  shows "read_active_header crc32 file = Some (Inr (h, slot)) \<and> file_header_wf h"
  using assms
proof induction
  case (create h f f' h')
  then show ?case using initial_header by blast
next
  case (update f h0 slot h f' h')
  then show ?case using complete_inactive_slot by blast
next
  case (crash f h slot torn e)
  then show ?case using torn_inactive_slot by (simp add: FILE_HEADER_SIZE_def)
next
  case (data f h slot off bs)
  then have "512 \<le> off" "512 \<le> length f"
    using read_active_header_len [of crc32 f] by (auto simp: HEADER_REGION_SIZE_def FILE_HEADER_SIZE_def)
  with data show ?case by (simp add: read_active_header_data_write)
qed

section \<open>Properties\<close>

text \<open>
  C10: Crash safety of the A/B header slots.  After any history of creation, completed updates, updates
  torn by a crash and writes to the data region, reading the file returns exactly the header of the
  last completed update, together with the slot that holds it.
\<close>

theorem header_crash_safe:
  assumes "header_history crc32 file h slot"
  shows "read_active_header crc32 file = Some (Inr (h, slot))"
  using header_history_active [OF assms] by blast

theorem header_crash_safe_witness:
  "\<exists>file h. header_history (\<lambda>_. 7) file h 1 \<and> fh_sequence h = 2 \<and>
    read_active_header (\<lambda>_. 7) file = Some (Inr (h, 1))"
proof -
  let ?c = "\<lambda>_ :: bytes. 7 :: u32"
  let ?h = "file_header_new 5 Blake3_256"
  let ?torn = "replicate 256 (0 :: u8)"
  have wf: "file_header_wf ?h"
    by (simp add: file_header_wf_def file_header_new_def hash_length_def Let_def)
  have ser: "\<exists>bs. file_header_serialize ?c (?h\<lparr>fh_sequence := s\<rparr>) = Some bs" for s
    using wf file_header_serialize_wf [of "?h\<lparr>fh_sequence := s\<rparr>" ?c]
    by (auto simp: file_header_wf_def Let_def)
  obtain f1 where 1: "write_initial_header ?c [] ?h = Some (f1, ?h\<lparr>fh_sequence := 1\<rparr>)"
    using ser [of 1] by (auto simp: write_initial_header_def Let_def)
  let ?h1 = "?h\<lparr>fh_sequence := 1\<rparr>"
  obtain f2 where 2: "write_header_to_inactive_slot ?c f1 ?h1 0 = Some (f2, ?h1\<lparr>fh_sequence := 2\<rparr>)"
    using ser [of 2] by (auto simp: write_header_to_inactive_slot_def Let_def)
  have "header_history ?c f2 (?h1\<lparr>fh_sequence := 2\<rparr>) (1 - 0)"
    using wf by (intro header_history.update [OF header_history.create [OF wf 1] _ _ _ 2])
      (auto simp: file_header_wf_def Let_def)
  then have "header_history ?c (write_at f2 ((1 - (1 - 0)) * FILE_HEADER_SIZE) ?torn)
      (?h1\<lparr>fh_sequence := 2\<rparr>) (1 - 0)"
    by (rule header_history.crash [OF _ _ zero_slot_rejected]) simp
  from this header_crash_safe [OF this] show ?thesis by force
qed

text \<open>
  C32: The 256-byte slot is too small for the 64-byte hash algorithms.  \<open>file_header_serialize\<close> panics
  exactly when the hash is 64 bytes long and more than 27 bytes of \<^verbatim>\<open>target_hash\<close> are set, which
  is the case for every header \<open>file_header_new\<close> makes with SHA-512 or SHA3-512.
\<close>

theorem file_header_serialize_panics:
  "(file_header_serialize crc32 h = None \<longleftrightarrow>
     hash_length (fh_hash_algo h) = 64 \<and> 27 < length (fh_target_hash h)) \<and>
   (file_header_serialize crc32 (file_header_new now a) = None \<longleftrightarrow> a = Sha512 \<or> a = Sha3_512)"
proof -
  have 1: "file_header_serialize crc32 h = None \<longleftrightarrow>
     hash_length (fh_hash_algo h) = 64 \<and> 27 < length (fh_target_hash h)" for h
    using hash_length_cases [of "fh_hash_algo h"]
    by (auto simp: file_header_serialize_def FILE_HEADER_SIZE_def Let_def)
  moreover have "file_header_serialize crc32 (file_header_new now a) = None \<longleftrightarrow>
      a = Sha512 \<or> a = Sha3_512"
    unfolding 1 by (cases a) (simp_all add: file_header_new_def hash_length_def)
  ultimately show ?thesis by blast
qed

end
