(* ===== verification/KV_Pages.thy ===== *)
theory KV_Pages
  imports File_Header
begin

text \<open>
  The on-disk form of the key-value index: the stage table (\<^verbatim>\<open>kv_stages.rs\<close>), the entry record
  (\<^verbatim>\<open>KVEntry\<close> of \<^verbatim>\<open>kv_store.rs\<close>) and the fixed-size bucket pages (\<^verbatim>\<open>kv_pages.rs\<close>).  The CRC-32
  function is the parameter \<open>crc32\<close>.  The lemmas show that a page reads back the entries written to
  it, that the allocation-free search agrees with a search in the decoded page, and that the stage
  chosen for a number of entries has room for them.
\<close>

unbundle bit_operations_syntax

section \<open>Entries\<close>

definition KV_FLAG_PENDING :: u8 where "KV_FLAG_PENDING = 0x10"
definition KV_FLAG_DELETED :: u8 where "KV_FLAG_DELETED = 0x20"

record kv_entry =
  kv_type_flags :: u8
  kv_hash :: bytes
  kv_offset :: u64
  kv_total_length :: u32

definition kv_entry_type :: "kv_entry \<Rightarrow> u8" where
  "kv_entry_type e = kv_type_flags e AND 0x0F"

definition kv_flags :: "kv_entry \<Rightarrow> u8" where
  "kv_flags e = kv_type_flags e AND 0xF0"

definition is_pending :: "kv_entry \<Rightarrow> bool" where
  "is_pending e \<longleftrightarrow> kv_type_flags e AND KV_FLAG_PENDING \<noteq> 0"

definition is_deleted :: "kv_entry \<Rightarrow> bool" where
  "is_deleted e \<longleftrightarrow> kv_type_flags e AND KV_FLAG_DELETED \<noteq> 0"

section \<open>Stages\<close>

definition KV_STAGE_SIZES :: "nat list" where
  "KV_STAGE_SIZES =
    [64 * 1024, 512 * 1024, 4 * 1024 * 1024, 32 * 1024 * 1024, 128 * 1024 * 1024,
     512 * 1024 * 1024, 1024 * 1024 * 1024, 2 * 1024 * 1024 * 1024, 4 * 1024 * 1024 * 1024,
     8 * 1024 * 1024 * 1024]"

definition buckets_for_block :: "nat \<Rightarrow> nat \<Rightarrow> nat" where
  "buckets_for_block block_size psize = block_size div psize"

text \<open>\<^verbatim>\<open>saturating_mul\<close> on u64 caps the block size at \<open>2 ^ 64 - 1\<close>.\<close>

definition stage_params :: "nat \<Rightarrow> nat \<Rightarrow> nat \<times> nat" where
  "stage_params stage psize =
    (let block_size =
       if stage < length KV_STAGE_SIZES then KV_STAGE_SIZES ! stage
       else let last_size = KV_STAGE_SIZES ! (length KV_STAGE_SIZES - 1);
                extra = min (stage - (length KV_STAGE_SIZES - 1)) 53 in
            min (last_size * 2 ^ extra) (2 ^ 64 - 1)
     in (block_size, buckets_for_block block_size psize))"

definition initial_block_size :: nat where
  "initial_block_size = KV_STAGE_SIZES ! 0"

section \<open>Pages\<close>

definition MAX_ENTRIES_PER_PAGE :: nat where "MAX_ENTRIES_PER_PAGE = 32"
definition PAGE_MAGIC :: u32 where "PAGE_MAGIC = 0xAE0DB905"
definition PAGE_HEADER_SIZE :: nat where "PAGE_HEADER_SIZE = 4 + 4 + 2"

definition entry_size :: "nat \<Rightarrow> nat" where
  "entry_size hl = hl + 1 + 8 + 4"

definition page_size :: "nat \<Rightarrow> nat" where
  "page_size hl = PAGE_HEADER_SIZE + MAX_ENTRIES_PER_PAGE * entry_size hl"

definition is_empty_page :: "bytes \<Rightarrow> bool" where
  "is_empty_page data =
    (if length data < PAGE_HEADER_SIZE then False
     else (from_le_bytes (slice_at data 0 4) :: u32) = 0 \<and>
          (from_le_bytes (slice_at data 8 2) :: u16) = 0)"

definition page_crc :: "(bytes \<Rightarrow> u32) \<Rightarrow> bytes \<Rightarrow> u32" where
  "page_crc crc32 data = crc32 (take 4 data @ replicate 4 0 @ drop 8 data)"

definition validated_entry_count ::
  "(bytes \<Rightarrow> u32) \<Rightarrow> bytes \<Rightarrow> nat \<Rightarrow> nat option engine_result" where
  "validated_entry_count crc32 data hl =
    (if length data < PAGE_HEADER_SIZE then Inl (CorruptEntry 0 ''Page data too short for header'')
     else if is_empty_page data then Inr None
     else if from_le_bytes (slice_at data 0 4) \<noteq> PAGE_MAGIC
       then Inl (CorruptEntry 0 ''page magic mismatch'')
     else if from_le_bytes (slice_at data 4 4) \<noteq> page_crc crc32 data
       then Inl (CorruptEntry 0 ''page CRC mismatch'')
     else let count = unat (from_le_bytes (slice_at data 8 2) :: u16) in
       if count > MAX_ENTRIES_PER_PAGE then Inl (CorruptEntry 0 ''Page entry count exceeds maximum'')
       else if length data < PAGE_HEADER_SIZE + count * entry_size hl
         then Inl (CorruptEntry 0 ''Page data too short'')
       else Inr (Some count))"

definition bucket_page_offset :: "nat \<Rightarrow> nat \<Rightarrow> nat" where
  "bucket_page_offset bucket_index hl = bucket_index * page_size hl"

text \<open>The bytes of one entry in the zeroed buffer, and the page without and with its CRC.\<close>

definition page_entry_bytes :: "nat \<Rightarrow> kv_entry \<Rightarrow> bytes" where
  "page_entry_bytes hl e =
    hash_field hl (kv_hash e) @ [kv_type_flags e] @ to_le_bytes (kv_offset e) @
    to_le_bytes (kv_total_length e)"

definition serialize_page :: "(bytes \<Rightarrow> u32) \<Rightarrow> kv_entry list \<Rightarrow> nat \<Rightarrow> bytes" where
  "serialize_page crc32 entries hl =
    (let count = min (length entries) MAX_ENTRIES_PER_PAGE;
         body = to_le_bytes (word_of_nat count :: u16) @
           concat (map (page_entry_bytes hl) (take count entries)) @
           replicate ((MAX_ENTRIES_PER_PAGE - count) * entry_size hl) 0;
         crc = crc32 (to_le_bytes PAGE_MAGIC @ replicate 4 0 @ body) in
     to_le_bytes PAGE_MAGIC @ to_le_bytes crc @ body)"

definition page_entry_at :: "nat \<Rightarrow> bytes \<Rightarrow> nat \<Rightarrow> kv_entry" where
  "page_entry_at hl data offset =
    \<lparr> kv_type_flags = data ! (offset + hl), kv_hash = slice_at data offset hl,
      kv_offset = from_le_bytes (slice_at data (offset + hl + 1) 8),
      kv_total_length = from_le_bytes (slice_at data (offset + hl + 9) 4) \<rparr>"

definition deserialize_page :: "(bytes \<Rightarrow> u32) \<Rightarrow> bytes \<Rightarrow> nat \<Rightarrow> kv_entry list engine_result" where
  "deserialize_page crc32 data hl =
    res_bind (validated_entry_count crc32 data hl) (\<lambda>c. case c of
      None \<Rightarrow> Inr []
    | Some count \<Rightarrow>
        Inr (map (\<lambda>i. page_entry_at hl data (PAGE_HEADER_SIZE + i * entry_size hl)) [0..<count]))"

fun find_entry_loop :: "bytes \<Rightarrow> nat \<Rightarrow> bytes \<Rightarrow> bool \<Rightarrow> nat list \<Rightarrow> kv_entry option" where
  "find_entry_loop data hl hash include_deleted [] = None"
| "find_entry_loop data hl hash include_deleted (i # is) =
    (let offset = PAGE_HEADER_SIZE + i * entry_size hl in
     if slice_at data offset hl \<noteq> hash then find_entry_loop data hl hash include_deleted is
     else if \<not> include_deleted \<and> data ! (offset + hl) AND KV_FLAG_DELETED \<noteq> 0 then None
     else Some (page_entry_at hl data offset))"

definition find_entry_in_page_data ::
  "(bytes \<Rightarrow> u32) \<Rightarrow> bytes \<Rightarrow> nat \<Rightarrow> bytes \<Rightarrow> bool \<Rightarrow> kv_entry option engine_result" where
  "find_entry_in_page_data crc32 data hl hash include_deleted =
    res_bind (validated_entry_count crc32 data hl) (\<lambda>c. case c of
      None \<Rightarrow> Inr None
    | Some count \<Rightarrow> Inr (find_entry_loop data hl hash include_deleted [0..<count]))"

fun live_type_loop :: "bytes \<Rightarrow> nat \<Rightarrow> nat list \<Rightarrow> nat list \<Rightarrow> nat list" where
  "live_type_loop data hl counts [] = counts"
| "live_type_loop data hl counts (i # is) =
    (let type_flags = data ! (PAGE_HEADER_SIZE + i * entry_size hl + hl);
         t = unat (type_flags AND 0x0F) in
     live_type_loop data hl
       (if type_flags AND KV_FLAG_DELETED = 0 then counts[t := counts ! t + 1] else counts) is)"

definition live_type_counts_in_page ::
  "(bytes \<Rightarrow> u32) \<Rightarrow> bytes \<Rightarrow> nat \<Rightarrow> nat list engine_result" where
  "live_type_counts_in_page crc32 data hl =
    res_bind (validated_entry_count crc32 data hl) (\<lambda>c. case c of
      None \<Rightarrow> Inr (replicate 16 0)
    | Some count \<Rightarrow> Inr (live_type_loop data hl (replicate 16 0) [0..<count]))"

definition find_in_page :: "kv_entry list \<Rightarrow> bytes \<Rightarrow> kv_entry option" where
  "find_in_page entries hash = find (\<lambda>e. kv_hash e = hash \<and> kv_type_flags e AND KV_FLAG_DELETED = 0) entries"

text \<open>Replace the first entry with the same hash, if there is one.\<close>

fun replace_first :: "kv_entry list \<Rightarrow> kv_entry \<Rightarrow> kv_entry list option" where
  "replace_first [] entry = None"
| "replace_first (e # es) entry =
    (if kv_hash e = kv_hash entry then Some (entry # es)
     else map_option ((#) e) (replace_first es entry))"

definition upsert_in_page :: "kv_entry list \<Rightarrow> kv_entry \<Rightarrow> kv_entry list \<times> bool" where
  "upsert_in_page entries entry =
    (case replace_first entries entry of
       Some entries' \<Rightarrow> (entries', True)
     | None \<Rightarrow> if length entries < MAX_ENTRIES_PER_PAGE then (entries @ [entry], True)
               else (entries, False))"

fun stage_for_count_loop :: "nat \<Rightarrow> nat \<Rightarrow> nat \<Rightarrow> nat list \<Rightarrow> nat option" where
  "stage_for_count_loop entry_count psize stage [] = None"
| "stage_for_count_loop entry_count psize stage (block_size # rest) =
    (if entry_count < buckets_for_block block_size psize * MAX_ENTRIES_PER_PAGE then Some stage
     else stage_for_count_loop entry_count psize (Suc stage) rest)"

definition stage_for_count :: "nat \<Rightarrow> nat \<Rightarrow> nat" where
  "stage_for_count entry_count hl =
    (case stage_for_count_loop entry_count (page_size hl) 0 KV_STAGE_SIZES of
       Some stage \<Rightarrow> stage
     | None \<Rightarrow> length KV_STAGE_SIZES - 1)"

section \<open>A page reads back what was written\<close>

lemma length_page_entry_bytes [simp]: "length (page_entry_bytes hl e) = entry_size hl"
  by (simp add: page_entry_bytes_def entry_size_def)

interpretation page_entries: fixed_records "page_entry_bytes hl" "page_entry_at hl" "entry_size hl"
    "\<lambda>e. length (kv_hash e) = hl"
  for hl
proof
  fix e data off ys
  assume l: "length (kv_hash e) = hl" and c: "cursor_at data off (page_entry_bytes hl e @ ys)"
  then have c: "cursor_at data off (kv_hash e @ kv_type_flags e # to_le_bytes (kv_offset e) @
      to_le_bytes (kv_total_length e) @ ys)"
    by (simp add: page_entry_bytes_def)
  have "slice_at data off hl = kv_hash e" using cursor_advance(3) [OF c] l by simp
  moreover have "data ! (off + hl) = kv_type_flags e" using cursor_nth [OF c] l by simp
  moreover have "slice_at data (off + hl + 1) 8 = to_le_bytes (kv_offset e)"
    using c l by (intro cursor_slice [of data off "kv_hash e @ [kv_type_flags e]"]) auto
  moreover have "slice_at data (off + hl + 9) 4 = to_le_bytes (kv_total_length e)"
    using c l
    by (intro cursor_slice [of data off "kv_hash e @ [kv_type_flags e] @ to_le_bytes (kv_offset e)"]) auto
  ultimately show "page_entry_at hl data off = e" by (simp add: page_entry_at_def)
qed simp

lemmas page_consts = PAGE_HEADER_SIZE_def MAX_ENTRIES_PER_PAGE_def

lemma length_serialize_page [simp]: "length (serialize_page crc32 es hl) = page_size hl"
proof -
  have "min (length es) 32 * entry_size hl + (32 - min (length es) 32) * entry_size hl = 32 * entry_size hl"
    by (simp add: add_mult_distrib [symmetric])
  then show ?thesis
    by (simp add: serialize_page_def page_size_def page_consts Let_def
        page_entries.length_concat_enc add.commute add.left_commute)
qed

lemma validated_entry_count_serialize:
  "validated_entry_count crc32 (serialize_page crc32 es hl) hl = Inr (Some (min (length es) 32))"
proof -
  define count where "count = min (length es) 32"
  define body where "body = to_le_bytes (word_of_nat count :: u16) @
           concat (map (page_entry_bytes hl) (take count es)) @ replicate ((32 - count) * entry_size hl) (0 :: u8)"
  define crc where "crc = crc32 (to_le_bytes PAGE_MAGIC @ replicate 4 0 @ body)"
  have page: "serialize_page crc32 es hl = to_le_bytes PAGE_MAGIC @ to_le_bytes crc @ body"
    by (simp add: serialize_page_def crc_def body_def count_def page_consts Let_def)
  have c32: "count \<le> 32" by (simp add: count_def)
  have cnt: "unat (word_of_nat count :: u16) = count" using c32 by (simp add: unat_word_of_nat)
  have s0: "slice_at (serialize_page crc32 es hl) 0 4 = to_le_bytes PAGE_MAGIC"
    and s4: "slice_at (serialize_page crc32 es hl) 4 4 = to_le_bytes crc"
    and s8: "slice_at (serialize_page crc32 es hl) 8 2 = to_le_bytes (word_of_nat count :: u16)"
    and crc: "page_crc crc32 (serialize_page crc32 es hl) = crc"
    unfolding page by (simp_all add: page_crc_def body_def crc_def)
  have "count * entry_size hl \<le> 32 * entry_size hl" using c32 by (rule mult_le_mono1)
  then have "PAGE_HEADER_SIZE + count * entry_size hl \<le> page_size hl"
    by (simp add: page_size_def page_consts)
  moreover have "(PAGE_MAGIC :: u32) \<noteq> 0" by (simp add: PAGE_MAGIC_def)
  moreover have "PAGE_HEADER_SIZE \<le> page_size hl" by (simp add: page_size_def)
  ultimately have "validated_entry_count crc32 (serialize_page crc32 es hl) hl = Inr (Some count)"
    unfolding validated_entry_count_def is_empty_page_def s0 s4 s8 crc
    using c32 by (simp add: Let_def cnt not_less) (simp add: page_consts)
  then show ?thesis by (simp add: count_def)
qed

lemma deserialize_serialize_page:
  assumes "length es \<le> MAX_ENTRIES_PER_PAGE" and "\<forall>e\<in>set es. length (kv_hash e) = hl"
  shows "deserialize_page crc32 (serialize_page crc32 es hl) hl = Inr es"
proof -
  have len: "min (length es) 32 = length es" using assms(1) by (simp add: page_consts)
  have "cursor_at (serialize_page crc32 es hl) 10 (concat (map (page_entry_bytes hl) es) @
      replicate ((32 - length es) * entry_size hl) 0)"
    using len by (simp add: cursor_at_def serialize_page_def page_consts Let_def)
  from page_entries.array_read [OF assms(2) this] show ?thesis
    by (simp add: deserialize_page_def validated_entry_count_serialize len PAGE_HEADER_SIZE_def)
qed

lemma empty_page_reads_empty:
  assumes "page_size hl \<le> n"
  shows "deserialize_page crc32 (replicate n 0) hl = Inr []"
proof -
  have n: "10 \<le> n" using assms by (simp add: page_size_def page_consts)
  have z: "le_dec (replicate k 0) = 0" for k by (induction k) simp_all
  have "is_empty_page (replicate n 0)"
    using n by (simp add: is_empty_page_def slice_at_def from_le_bytes_def z page_consts)
  then show ?thesis
    using n by (simp add: deserialize_page_def validated_entry_count_def page_consts)
qed

section \<open>Searching a page\<close>

text \<open>The first entry with the hash decides, also when it is a deleted one.\<close>

definition page_lookup :: "kv_entry list \<Rightarrow> bytes \<Rightarrow> bool \<Rightarrow> kv_entry option" where
  "page_lookup entries hash include_deleted =
    (case kmap kv_hash entries hash of
       None \<Rightarrow> None
     | Some e \<Rightarrow> if \<not> include_deleted \<and> is_deleted e then None else Some e)"

lemma find_entry_loop_lookup:
  "find_entry_loop data hl hash incl is =
    page_lookup (map (\<lambda>i. page_entry_at hl data (PAGE_HEADER_SIZE + i * entry_size hl)) is) hash incl"
  by (induction "is") (auto simp: page_lookup_def page_entry_at_def is_deleted_def Let_def)

lemma find_entry_in_page_data_lookup:
  "find_entry_in_page_data crc32 data hl hash incl =
    res_bind (deserialize_page crc32 data hl) (\<lambda>es. Inr (page_lookup es hash incl))"
  by (cases "validated_entry_count crc32 data hl")
     (auto simp: find_entry_in_page_data_def deserialize_page_def find_entry_loop_lookup page_lookup_def
        simp del: res_bind_eq_Inr split: option.splits)

lemma find_in_page_lookup:
  assumes "distinct (map kv_hash es)"
  shows "find_in_page es hash = page_lookup es hash False"
  using assms
proof (induction es)
  case Nil
  then show ?case by (simp add: find_in_page_def page_lookup_def)
next
  case (Cons e es)
  show ?case
  proof (cases "kv_hash e = hash")
    case True
    with Cons.prems have "hash \<notin> kv_hash ` set es" by auto
    then have "find_in_page es hash = None"
      by (auto simp: find_in_page_def find_None_iff)
    then show ?thesis using True by (simp add: find_in_page_def page_lookup_def is_deleted_def)
  next
    case False
    then show ?thesis using Cons by (simp add: find_in_page_def page_lookup_def)
  qed
qed

section \<open>Updating a page\<close>

definition page_ok :: "nat \<Rightarrow> kv_entry list \<Rightarrow> bool" where
  "page_ok hl es \<longleftrightarrow> length es \<le> MAX_ENTRIES_PER_PAGE \<and> distinct (map kv_hash es) \<and>
    (\<forall>e\<in>set es. length (kv_hash e) = hl)"

lemma replace_first_cases:
  "(case replace_first es e of
      None \<Rightarrow> kv_hash e \<notin> kv_hash ` set es
    | Some es' \<Rightarrow> kv_hash e \<in> kv_hash ` set es \<and> map kv_hash es' = map kv_hash es \<and>
        set es' \<subseteq> insert e (set es) \<and>
        (distinct (map kv_hash es) \<longrightarrow> kmap kv_hash es' = (kmap kv_hash es)(kv_hash e \<mapsto> e)))"
proof (induction es)
  case Nil
  then show ?case by simp
next
  case (Cons a es)
  show ?case
  proof (cases "kv_hash a = kv_hash e")
    case True
    then show ?thesis by auto
  next
    case False
    then show ?thesis using Cons
      by (cases "replace_first es e") (auto simp: fun_upd_twist)
  qed
qed

lemma upsert_in_page_ok:
  assumes "page_ok hl es" and "length (kv_hash e) = hl"
    and "upsert_in_page es e = (es', fits)"
  shows "page_ok hl es'"
    and "fits \<longleftrightarrow> kv_hash e \<in> kv_hash ` set es \<or> length es < MAX_ENTRIES_PER_PAGE"
    and "kmap kv_hash es' = (if fits then (kmap kv_hash es)(kv_hash e \<mapsto> e) else kmap kv_hash es)"
proof -
  have d: "distinct (map kv_hash es)" "length es \<le> MAX_ENTRIES_PER_PAGE"
      "\<forall>e\<in>set es. length (kv_hash e) = hl"
    using assms(1) by (simp_all add: page_ok_def)
  show "page_ok hl es'"
    "fits \<longleftrightarrow> kv_hash e \<in> kv_hash ` set es \<or> length es < MAX_ENTRIES_PER_PAGE"
    "kmap kv_hash es' = (if fits then (kmap kv_hash es)(kv_hash e \<mapsto> e) else kmap kv_hash es)"
  proof (atomize (full), cases "replace_first es e")
    case None
    with replace_first_cases [where es = es and e = e] have "kv_hash e \<notin> kv_hash ` set es" by simp
    moreover from this have "kmap kv_hash es (kv_hash e) = None" by (simp add: kmap_None_iff)
    then have "kmap kv_hash (es @ [e]) = (kmap kv_hash es)(kv_hash e \<mapsto> e)"
      by (auto simp: kmap_append map_add_def fun_eq_iff split: option.splits)
    ultimately show "page_ok hl es' \<and>
        fits = (kv_hash e \<in> kv_hash ` set es \<or> length es < MAX_ENTRIES_PER_PAGE) \<and>
        kmap kv_hash es' = (if fits then (kmap kv_hash es)(kv_hash e \<mapsto> e) else kmap kv_hash es)"
      using None assms d by (auto simp: upsert_in_page_def page_ok_def split: if_splits)
  next
    case (Some es2)
    with replace_first_cases [where es = es and e = e] have r: "kv_hash e \<in> kv_hash ` set es"
        "map kv_hash es2 = map kv_hash es" "set es2 \<subseteq> insert e (set es)"
        "kmap kv_hash es2 = (kmap kv_hash es)(kv_hash e \<mapsto> e)"
      using d by simp_all
    from r(2) have "length es2 = length es" by (metis length_map)
    then have "page_ok hl es2" using r d assms(2) by (auto simp: page_ok_def)
    then show "page_ok hl es' \<and>
        fits = (kv_hash e \<in> kv_hash ` set es \<or> length es < MAX_ENTRIES_PER_PAGE) \<and>
        kmap kv_hash es' = (if fits then (kmap kv_hash es)(kv_hash e \<mapsto> e) else kmap kv_hash es)"
      using Some assms r by (auto simp: upsert_in_page_def)
  qed
qed

section \<open>Counting and stages\<close>

definition live_of_type :: "nat \<Rightarrow> kv_entry \<Rightarrow> bool" where
  "live_of_type t e \<longleftrightarrow> \<not> is_deleted e \<and> unat (kv_entry_type e) = t"

lemma unat_low_nibble: "unat (b AND 0x0F :: u8) < 16"
proof -
  have "b AND 0x0F \<le> 0x0F" by (rule word_and_le1)
  then show ?thesis by (simp add: word_le_nat_alt)
qed

lemma live_type_loop_counts:
  assumes "length counts = 16" and "t < 16"
  shows "live_type_loop data hl counts is ! t = counts ! t +
      length (filter (live_of_type t)
        (map (\<lambda>i. page_entry_at hl data (PAGE_HEADER_SIZE + i * entry_size hl)) is)) \<and>
    length (live_type_loop data hl counts is) = 16"
  using assms
proof (induction "is" arbitrary: counts)
  case Nil
  then show ?case by simp
next
  case (Cons i "is")
  let ?f = "data ! (PAGE_HEADER_SIZE + i * entry_size hl + hl)"
  have "unat (?f AND 0x0F) < 16" by (rule unat_low_nibble)
  then show ?case
    using Cons by (auto simp: Let_def live_of_type_def is_deleted_def kv_entry_type_def
        page_entry_at_def nth_list_update)
qed

lemma stage_for_count_loop_cases:
  "case stage_for_count_loop n psize base sizes of
     None \<Rightarrow> \<forall>s < length sizes. buckets_for_block (sizes ! s) psize * MAX_ENTRIES_PER_PAGE \<le> n
   | Some stage \<Rightarrow> \<exists>s < length sizes. stage = base + s \<and>
       n < buckets_for_block (sizes ! s) psize * MAX_ENTRIES_PER_PAGE \<and>
       (\<forall>t < s. buckets_for_block (sizes ! t) psize * MAX_ENTRIES_PER_PAGE \<le> n)"
proof (induction sizes arbitrary: base)
  case Nil
  then show ?case by simp
next
  case (Cons b sizes)
  show ?case
  proof (cases "n < buckets_for_block b psize * MAX_ENTRIES_PER_PAGE")
    case True
    then show ?thesis by auto
  next
    case False
    show ?thesis
    proof (cases "stage_for_count_loop n psize (Suc base) sizes")
      case None
      then show ?thesis
        using False Cons.IH [of "Suc base"] by (auto simp: less_Suc_eq_0_disj not_less)
    next
      case (Some stage)
      then obtain s where "s < length sizes" "stage = Suc base + s"
          "n < buckets_for_block (sizes ! s) psize * MAX_ENTRIES_PER_PAGE"
          "\<forall>t < s. buckets_for_block (sizes ! t) psize * MAX_ENTRIES_PER_PAGE \<le> n"
        using Cons.IH [of "Suc base"] by auto
      then show ?thesis
        using False Some by (auto simp: less_Suc_eq_0_disj not_less intro!: exI [of _ "Suc s"])
    qed
  qed
qed

section \<open>Properties\<close>

text \<open>
  The allocation-free page search agrees with the decoded page.  On every byte string,
  \<open>find_entry_in_page_data\<close> fails exactly when \<open>deserialize_page\<close> fails, with the same error, and
  otherwise returns what a search of the decoded entries returns; and on decoded entries without
  duplicate hashes it agrees with \<open>find_in_page\<close>.
\<close>

theorem page_search_equiv:
  "find_entry_in_page_data crc32 data hl hash incl =
     res_bind (deserialize_page crc32 data hl) (\<lambda>es. Inr (page_lookup es hash incl)) \<and>
   (distinct (map kv_hash es) \<longrightarrow> find_in_page es hash = page_lookup es hash False)"
  using find_entry_in_page_data_lookup find_in_page_lookup by blast

theorem page_search_equiv_witness:
  "let e = \<lparr> kv_type_flags = 0x21, kv_hash = [1], kv_offset = 5, kv_total_length = 6 \<rparr>;
       f = \<lparr> kv_type_flags = 1, kv_hash = [2], kv_offset = 7, kv_total_length = 8 \<rparr> in
   distinct (map kv_hash [e, f]) \<and> find_in_page [e, f] [1] = None \<and>
   find_in_page [e, f] [2] = Some f"
  using page_search_equiv
    [of crc32 data 1 "[1]" False "[\<lparr> kv_type_flags = 0x21, kv_hash = [1], kv_offset = 5, kv_total_length = 6 \<rparr>,
      \<lparr> kv_type_flags = 1, kv_hash = [2], kv_offset = 7, kv_total_length = 8 \<rparr>]"]
    page_search_equiv
    [of crc32 data 1 "[2]" False "[\<lparr> kv_type_flags = 0x21, kv_hash = [1], kv_offset = 5, kv_total_length = 6 \<rparr>,
      \<lparr> kv_type_flags = 1, kv_hash = [2], kv_offset = 7, kv_total_length = 8 \<rparr>]"]
  by (simp add: Let_def page_lookup_def is_deleted_def KV_FLAG_DELETED_def)

text \<open>
  C21: Updating a bucket page on disk behaves as updating a map: when the entry fits, searching the
  rewritten page's bytes finds the new entry under its hash and, under every other hash, what the
  old page's bytes held; the entry is refused exactly when its hash is new and the page has 32
  entries.
\<close>

theorem page_update_on_disk:
  assumes "page_ok hl es" and "length (kv_hash e) = hl" and "upsert_in_page es e = (es', fits)"
  shows "(fits \<longleftrightarrow> kv_hash e \<in> kv_hash ` set es \<or> length es < MAX_ENTRIES_PER_PAGE) \<and>
    find_entry_in_page_data crc32 (serialize_page crc32 es' hl) hl h True =
      (if fits \<and> h = kv_hash e then Inr (Some e)
       else find_entry_in_page_data crc32 (serialize_page crc32 es hl) hl h True)"
proof -
  note u = upsert_in_page_ok [OF assms]
  have "find_entry_in_page_data crc32 (serialize_page crc32 xs hl) hl h True = Inr (kmap kv_hash xs h)"
    if "page_ok hl xs" for xs
    using that deserialize_serialize_page [of xs hl crc32]
    by (simp add: page_ok_def find_entry_in_page_data_lookup page_lookup_def split: option.splits)
  then show ?thesis using u assms(1) by auto
qed

theorem page_update_on_disk_witness:
  "let e = \<lparr> kv_type_flags = 1, kv_hash = [1], kv_offset = 5, kv_total_length = 6 \<rparr>;
       es = [\<lparr> kv_type_flags = 0, kv_hash = [1], kv_offset = 4, kv_total_length = 6 \<rparr>] in
   page_ok 1 es \<and> upsert_in_page es e = ([e], True) \<and>
   find_entry_in_page_data (\<lambda>_. 0) (serialize_page (\<lambda>_. 0) [e] 1) 1 [1] True = Inr (Some e)"
  using page_update_on_disk
    [of 1 "[\<lparr> kv_type_flags = 0, kv_hash = [1], kv_offset = 4, kv_total_length = 6 \<rparr>]"
      "\<lparr> kv_type_flags = 1, kv_hash = [1], kv_offset = 5, kv_total_length = 6 \<rparr>"
      "[\<lparr> kv_type_flags = 1, kv_hash = [1], kv_offset = 5, kv_total_length = 6 \<rparr>]" True "\<lambda>_. 0" "[1]"]
  by (simp add: Let_def page_ok_def page_consts upsert_in_page_def)

text \<open>
  The per-type counts read off a page's bytes are exact: entry \<open>t\<close> of the result is the number of
  decoded entries of KV type \<open>t\<close> that are not deleted, and the sixteen counters are never indexed
  out of range.
\<close>

theorem live_type_counts_exact:
  assumes "deserialize_page crc32 data hl = Inr es" and "t < 16"
  shows "\<exists>counts. live_type_counts_in_page crc32 data hl = Inr counts \<and> length counts = 16 \<and>
    counts ! t = length (filter (\<lambda>e. \<not> is_deleted e \<and> unat (kv_entry_type e) = t) es)"
proof -
  obtain c where c: "validated_entry_count crc32 data hl = Inr c"
    using assms(1) by (auto simp: deserialize_page_def)
  show ?thesis
  proof (cases c)
    case None
    then show ?thesis
      using c assms by (auto simp: deserialize_page_def live_type_counts_in_page_def)
  next
    case (Some count)
    then show ?thesis
      using c assms live_type_loop_counts [of "replicate 16 0" t data hl "[0..<count]"]
      by (auto simp: deserialize_page_def live_type_counts_in_page_def live_of_type_def [abs_def] o_def)
  qed
qed

theorem live_type_counts_exact_witness:
  "let e = \<lparr> kv_type_flags = 0x21, kv_hash = [1], kv_offset = 5, kv_total_length = 6 \<rparr>;
       f = \<lparr> kv_type_flags = 1, kv_hash = [2], kv_offset = 7, kv_total_length = 8 \<rparr>;
       data = serialize_page (\<lambda>_. 0) [e, f] 1 in
   deserialize_page (\<lambda>_. 0) data 1 = Inr [e, f] \<and>
   (\<exists>counts. live_type_counts_in_page (\<lambda>_. 0) data 1 = Inr counts \<and> counts ! 1 = 1)"
proof -
  define e :: kv_entry where "e = \<lparr> kv_type_flags = 0x21, kv_hash = [1], kv_offset = 5, kv_total_length = 6 \<rparr>"
  define f :: kv_entry where "f = \<lparr> kv_type_flags = 1, kv_hash = [2], kv_offset = 7, kv_total_length = 8 \<rparr>"
  define data where "data = serialize_page (\<lambda>_. 0) [e, f] 1"
  have d: "deserialize_page (\<lambda>_. 0) data 1 = Inr [e, f]"
    unfolding data_def by (rule deserialize_serialize_page) (simp_all add: page_consts e_def f_def)
  have "length (filter (\<lambda>e. \<not> is_deleted e \<and> unat (kv_entry_type e) = 1) [e, f]) = 1"
    by (simp add: e_def f_def is_deleted_def kv_entry_type_def KV_FLAG_DELETED_def)
  then have "\<exists>counts. live_type_counts_in_page (\<lambda>_. 0) data 1 = Inr counts \<and> counts ! 1 = 1"
    using live_type_counts_exact [OF d, of 1] by auto
  then show ?thesis using d unfolding e_def f_def data_def Let_def by blast
qed

text \<open>
  The stage chosen for a number of entries is the smallest one with room: it exists in the stage
  table, every smaller stage's pages hold at most that many entries, the chosen stage's pages hold
  more unless it is the last stage, and the pages of the stage fit in its block.
\<close>

theorem stage_for_count_least:
  assumes "s = stage_for_count n hl"
  shows "s < length KV_STAGE_SIZES \<and>
    (\<forall>t < s. snd (stage_params t (page_size hl)) * MAX_ENTRIES_PER_PAGE \<le> n) \<and>
    (n < snd (stage_params s (page_size hl)) * MAX_ENTRIES_PER_PAGE \<or> s = length KV_STAGE_SIZES - 1) \<and>
    snd (stage_params s (page_size hl)) * page_size hl \<le> fst (stage_params s (page_size hl))"
proof -
  note loop = stage_for_count_loop_cases
    [where n = n and psize = "page_size hl" and base = 0 and sizes = KV_STAGE_SIZES]
  have params: "snd (stage_params t (page_size hl)) = buckets_for_block (KV_STAGE_SIZES ! t) (page_size hl)"
    if "t < length KV_STAGE_SIZES" for t
    using that by (simp add: stage_params_def Let_def)
  have ne: "0 < length KV_STAGE_SIZES" by (simp add: KV_STAGE_SIZES_def)
  have fit: "snd (stage_params s (page_size hl)) * page_size hl \<le> fst (stage_params s (page_size hl))"
    by (simp add: stage_params_def buckets_for_block_def Let_def)
  show ?thesis
  proof (cases "stage_for_count_loop n (page_size hl) 0 KV_STAGE_SIZES")
    case None
    with ne show ?thesis using assms loop fit params by (simp add: stage_for_count_def)
  next
    case (Some stage)
    with ne show ?thesis using assms loop fit params by (auto simp: stage_for_count_def)
  qed
qed

theorem stage_for_count_least_witness:
  "stage_for_count 1440 32 = 1 \<and> snd (stage_params 0 (page_size 32)) * MAX_ENTRIES_PER_PAGE \<le> 1440 \<and>
    1440 < snd (stage_params 1 (page_size 32)) * MAX_ENTRIES_PER_PAGE"
proof -
  have s: "1 = stage_for_count 1440 32"
    by (simp add: stage_for_count_def KV_STAGE_SIZES_def buckets_for_block_def page_size_def
        page_consts entry_size_def)
  from stage_for_count_least [OF this] show ?thesis
    using s by (simp add: KV_STAGE_SIZES_def)
qed

end
