(* ===== verification/NVT.thy ===== *)
theory NVT
  imports KV_Pages
begin

text \<open>
  The hash-to-bucket map: \<^verbatim>\<open>HashConverter\<close> of \<^verbatim>\<open>scalar_converter.rs\<close> and the bucket arithmetic of
  \<^verbatim>\<open>nvt.rs\<close>.  The code computes it in IEEE double precision; the model keeps every double of
  the computation exactly, as a natural number scaled by \<open>2 ^ 64\<close>: \<^verbatim>\<open>u64::MAX as f64\<close> is \<open>2 ^ 64\<close>, so
  that division is exact, and the conversions and the product round to 53 significant bits, ties
  to even (\<open>round53\<close>).  No intermediate value is subnormal or overflows.  The lemmas show that the bucket is
  in range and grows with the hash.
\<close>

section \<open>Rounding to 53 bits\<close>

fun bit_length :: "nat \<Rightarrow> nat" where
  "bit_length n = (if n = 0 then 0 else Suc (bit_length (n div 2)))"

declare bit_length.simps [simp del]

definition round_even :: "nat \<Rightarrow> nat \<Rightarrow> nat" where
  "round_even e x =
    (let q = x div 2 ^ e; r = x mod 2 ^ e in
     if 2 * r > 2 ^ e \<or> (2 * r = 2 ^ e \<and> odd q) then q + 1 else q)"

definition round53 :: "nat \<Rightarrow> nat" where
  "round53 x = (let e = bit_length x - 53 in round_even e x * 2 ^ e)"

lemma bit_length_bounds:
  "x < 2 ^ bit_length x" "0 < x \<Longrightarrow> 2 ^ (bit_length x - 1) \<le> x"
proof -
  show "x < 2 ^ bit_length x"
  proof (induction x rule: bit_length.induct)
    case (1 n)
    show ?case
    proof (cases "n = 0")
      case False
      with 1 have "n div 2 < 2 ^ bit_length (n div 2)" by simp
      then have "n < 2 * 2 ^ bit_length (n div 2)" by linarith
      then show ?thesis using False by (simp add: bit_length.simps [of n])
    qed (simp add: bit_length.simps)
  qed
  show "0 < x \<Longrightarrow> 2 ^ (bit_length x - 1) \<le> x"
  proof (induction x rule: bit_length.induct)
    case (1 n)
    show ?case
    proof (cases "n div 2 = 0")
      case True
      then have "n = 1" using 1 by linarith
      then show ?thesis by (simp add: bit_length.simps)
    next
      case False
      with 1 have "2 ^ (bit_length (n div 2) - 1) \<le> n div 2" by simp
      moreover have "bit_length (n div 2) = Suc (bit_length (n div 2) - 1)"
        using False by (simp add: bit_length.simps [of "n div 2"])
      ultimately have "(2::nat) ^ bit_length (n div 2) \<le> n"
        by (metis div_times_less_eq_dividend le_trans mult_le_mono1 power_Suc2)
      then show ?thesis using False 1 by (simp add: bit_length.simps [of n])
    qed
  qed
qed

lemma bit_length_mono:
  assumes "x \<le> y"
  shows "bit_length x \<le> bit_length y"
proof (cases "x = 0")
  case True
  then show ?thesis by (simp add: bit_length.simps)
next
  case False
  then have "2 ^ (bit_length x - 1) \<le> x" by (intro bit_length_bounds(2)) simp
  also have "\<dots> \<le> y" by (rule assms)
  also have "\<dots> < 2 ^ bit_length y" by (rule bit_length_bounds)
  finally have "bit_length x - 1 < bit_length y" by simp
  then show ?thesis by linarith
qed

lemma round_even_mono:
  assumes "x \<le> y"
  shows "round_even e x \<le> round_even e y"
proof (cases "x div 2 ^ e = y div 2 ^ e")
  case True
  then have "x mod 2 ^ e \<le> y mod 2 ^ e"
    using assms by (metis add_le_cancel_left div_mult_mod_eq)
  then show ?thesis using True by (auto simp: round_even_def Let_def)
next
  case False
  then have "x div 2 ^ e < y div 2 ^ e"
    using div_le_mono [OF assms, of "2 ^ e"] by simp
  then show ?thesis by (auto simp: round_even_def Let_def)
qed

lemma round_even_bounds: "x div 2 ^ e \<le> round_even e x" "round_even e x \<le> x div 2 ^ e + 1"
  by (auto simp: round_even_def Let_def)

lemma round53_small: "x < 2 ^ 53 \<Longrightarrow> round53 x = x"
proof -
  assume "x < 2 ^ 53"
  have "bit_length x \<le> 53"
  proof (cases "x = 0")
    case False
    then have "2 ^ (bit_length x - 1) \<le> x" by (intro bit_length_bounds(2)) simp
    with \<open>x < 2 ^ 53\<close> have "(2::nat) ^ (bit_length x - 1) < 2 ^ 53" by linarith
    then show ?thesis using power_less_imp_less_exp [of "2::nat" "bit_length x - 1" 53] by linarith
  qed (simp add: bit_length.simps)
  then show ?thesis by (simp add: round53_def round_even_def Let_def)
qed

lemma round53_upper: "round53 x \<le> 2 ^ bit_length x"
proof (cases "bit_length x \<le> 53")
  case True
  then have "round53 x = x" by (simp add: round53_def round_even_def Let_def)
  then show ?thesis using bit_length_bounds(1) [of x] by linarith
next
  case False
  define e where "e = bit_length x - 53"
  have b: "bit_length x = 53 + e" using False by (simp add: e_def)
  have "x < 2 ^ 53 * 2 ^ e" using bit_length_bounds(1) [of x] by (simp add: b power_add)
  then have "x div 2 ^ e < 2 ^ 53" by (simp add: less_mult_imp_div_less)
  then have "round_even e x \<le> 2 ^ 53" using round_even_bounds(2) [of e x] by linarith
  then have "round_even e x * 2 ^ e \<le> 2 ^ 53 * 2 ^ e" by (rule mult_le_mono1)
  then show ?thesis by (simp add: round53_def e_def [symmetric] b power_add Let_def)
qed

lemma round53_lower:
  assumes "0 < x"
  shows "2 ^ (bit_length x - 1) \<le> round53 x"
proof (cases "bit_length x \<le> 53")
  case True
  then have "round53 x = x" by (simp add: round53_def round_even_def Let_def)
  then show ?thesis using bit_length_bounds(2) [OF assms] by simp
next
  case False
  define e where "e = bit_length x - 53"
  have b: "bit_length x - 1 = 52 + e" using False by (simp add: e_def)
  have "2 ^ 52 * 2 ^ e \<le> x" using bit_length_bounds(2) [OF assms] unfolding b power_add .
  then have "2 ^ 52 \<le> x div 2 ^ e"
    by (metis div_le_mono nonzero_mult_div_cancel_right power_not_zero zero_neq_numeral)
  then have "2 ^ 52 \<le> round_even e x" using round_even_bounds(1) [of x e] by linarith
  then have "2 ^ 52 * 2 ^ e \<le> round_even e x * 2 ^ e" by (rule mult_le_mono1)
  then show ?thesis unfolding b by (simp add: round53_def e_def [symmetric] power_add Let_def)
qed

lemma round53_mono:
  assumes "x \<le> y"
  shows "round53 x \<le> round53 y"
proof (cases "bit_length x = bit_length y")
  case True
  then show ?thesis using round_even_mono [OF assms] by (simp add: round53_def Let_def)
next
  case False
  with bit_length_mono [OF assms] have lt: "bit_length x < bit_length y" by simp
  then have y: "0 < y" by (cases y) (simp_all add: bit_length.simps)
  have "round53 x \<le> 2 ^ bit_length x" by (rule round53_upper)
  also have "\<dots> \<le> 2 ^ (bit_length y - 1)" using lt by simp
  also have "\<dots> \<le> round53 y" using y by (rule round53_lower)
  finally show ?thesis .
qed

section \<open>Scalars and buckets\<close>

definition hash_to_scalar :: "bytes \<Rightarrow> nat" where
  "hash_to_scalar value = (if length value < 8 then 0 else round53 (be_dec 0 (take 8 value)))"

definition bucket_for_scalar :: "nat \<Rightarrow> nat \<Rightarrow> nat" where
  "bucket_for_scalar bucket_count scalar =
    min (round53 (scalar * round53 bucket_count) div 2 ^ 64) (bucket_count - 1)"

text \<open>\<^verbatim>\<open>bucket_for_value\<close> of a table with the hash converter; it depends on the number of buckets only.\<close>

definition hash_bucket :: "nat \<Rightarrow> bytes \<Rightarrow> nat" where
  "hash_bucket bucket_count value = bucket_for_scalar bucket_count (hash_to_scalar value)"

lemma hash_bucket_less: "0 < n \<Longrightarrow> hash_bucket n h < n"
  by (simp add: hash_bucket_def bucket_for_scalar_def min_less_iff_disj)

lemma be_dec_acc: "be_dec acc bs = acc * 256 ^ length bs + be_dec 0 bs"
proof (induction bs arbitrary: acc)
  case Nil
  then show ?case by simp
next
  case (Cons b bs)
  show ?case using Cons [of "256 * acc + unat b"] Cons [of "unat b"] by (simp add: algebra_simps)
qed

lemma be_dec_less: "be_dec 0 bs < 256 ^ length bs"
proof (induction bs)
  case Nil
  then show ?case by simp
next
  case (Cons b bs)
  have "be_dec 0 (b # bs) = unat b * 256 ^ length bs + be_dec 0 bs"
    using be_dec_acc [of "unat b" bs] by simp
  also have "\<dots> < (unat b + 1) * 256 ^ length bs" using Cons by simp
  also have "\<dots> \<le> 256 * 256 ^ length bs"
    using unat_u8_less [of b] by (intro mult_le_mono1) simp
  finally show ?case by simp
qed

lemma be_dec_mono:
  assumes "length xs = length ys" "xs \<le> ys"
  shows "be_dec 0 xs \<le> be_dec 0 ys"
  using assms
proof (induction xs ys rule: list_induct2)
  case Nil
  then show ?case by simp
next
  case (Cons x xs y ys)
  have e: "be_dec 0 (b # bs) = unat b * 256 ^ length bs + be_dec 0 bs" for b :: u8 and bs
    using be_dec_acc [of "unat b" bs] by simp
  from Cons.prems consider "x < y" | "x = y" "xs \<le> ys" by auto
  then show ?case
  proof cases
    case 1
    then have "unat x + 1 \<le> unat y" by (simp add: word_less_nat_alt)
    then have "(unat x + 1) * 256 ^ length xs \<le> unat y * 256 ^ length ys"
      using Cons.hyps by (metis mult_le_mono1)
    then show ?thesis using be_dec_less [of xs] unfolding e by (simp add: algebra_simps)
  next
    case 2
    then show ?thesis using Cons unfolding e by simp
  qed
qed

lemma take_mono_lex:
  assumes "length xs = length ys" "xs \<le> (ys :: bytes)"
  shows "take n xs \<le> take n ys"
  using assms
proof (induction xs ys arbitrary: n rule: list_induct2)
  case Nil
  then show ?case by simp
next
  case (Cons x xs y ys)
  then show ?case by (cases n) auto
qed

lemma hash_bucket_mono:
  assumes "length g = length h" "g \<le> h"
  shows "hash_bucket n g \<le> hash_bucket n h"
proof -
  have "hash_to_scalar g \<le> hash_to_scalar h"
    using assms be_dec_mono [OF _ take_mono_lex [OF assms]]
    by (auto simp: hash_to_scalar_def intro: round53_mono)
  then have "hash_to_scalar g * round53 n \<le> hash_to_scalar h * round53 n" by (rule mult_le_mono1)
  then have "round53 (hash_to_scalar g * round53 n) div 2 ^ 64 \<le>
      round53 (hash_to_scalar h * round53 n) div 2 ^ 64"
    by (intro div_le_mono round53_mono)
  then show ?thesis by (simp add: hash_bucket_def bucket_for_scalar_def min.coboundedI1)
qed

section \<open>The table\<close>

text \<open>
  The converter is a trait object: a value of a type \<open>'c\<close> with the trait's methods \<open>to_scalar\<close> and
  \<open>serialize\<close> passed where the code calls them, and \<open>deserialize_converter\<close> for reading it back.  An
  index out of range is a panic, the value \<open>None\<close>.
\<close>

record nvt_bucket =
  nb_kv_block_offset :: u64
  nb_entry_count :: u32

record 'c normalized_vector_table =
  nvt_version :: u8
  nvt_buckets :: "nvt_bucket list"
  nvt_converter :: 'c

definition nvt_new :: "'c \<Rightarrow> nat \<Rightarrow> 'c normalized_vector_table" where
  "nvt_new converter initial_bucket_count =
    \<lparr> nvt_version = 1,
      nvt_buckets = replicate initial_bucket_count \<lparr> nb_kv_block_offset = 0, nb_entry_count = 0 \<rparr>,
      nvt_converter = converter \<rparr>"

text \<open>The converter of the key-value index.\<close>

datatype hash_converter = HashConverter

definition hash_converter_to_scalar :: "hash_converter \<Rightarrow> bytes \<Rightarrow> nat" where
  "hash_converter_to_scalar c value = hash_to_scalar value"

definition CONVERTER_TYPE_HASH :: u8 where "CONVERTER_TYPE_HASH = 0x01"

definition hash_converter_serialize :: "hash_converter \<Rightarrow> bytes" where
  "hash_converter_serialize c = [CONVERTER_TYPE_HASH]"

definition nvt_bucket_count :: "'c normalized_vector_table \<Rightarrow> nat" where
  "nvt_bucket_count nvt = length (nvt_buckets nvt)"

definition bucket_for_value ::
  "('c \<Rightarrow> bytes \<Rightarrow> nat) \<Rightarrow> 'c normalized_vector_table \<Rightarrow> bytes \<Rightarrow> nat" where
  "bucket_for_value to_scalar nvt value =
    bucket_for_scalar (nvt_bucket_count nvt) (to_scalar (nvt_converter nvt) value)"

definition nvt_get_bucket :: "'c normalized_vector_table \<Rightarrow> nat \<Rightarrow> nvt_bucket option" where
  "nvt_get_bucket nvt i = (if i < length (nvt_buckets nvt) then Some (nvt_buckets nvt ! i) else None)"

definition nvt_update_bucket ::
  "'c normalized_vector_table \<Rightarrow> nat \<Rightarrow> u64 \<Rightarrow> u32 \<Rightarrow> 'c normalized_vector_table option" where
  "nvt_update_bucket nvt i off count =
    (if i < length (nvt_buckets nvt)
     then Some (nvt\<lparr> nvt_buckets := (nvt_buckets nvt)[i := \<lparr> nb_kv_block_offset = off, nb_entry_count = count \<rparr>] \<rparr>)
     else None)"

definition nvt_bucket_bytes :: "nvt_bucket \<Rightarrow> bytes" where
  "nvt_bucket_bytes b = to_le_bytes (nb_kv_block_offset b) @ to_le_bytes (nb_entry_count b)"

definition nvt_serialize :: "('c \<Rightarrow> bytes) \<Rightarrow> 'c normalized_vector_table \<Rightarrow> bytes" where
  "nvt_serialize serialize_converter nvt =
    (let converter_data = serialize_converter (nvt_converter nvt) in
     [nvt_version nvt] @ to_le_bytes (word_of_nat (length converter_data) :: u32) @ converter_data @
     to_le_bytes (word_of_nat (length (nvt_buckets nvt)) :: u32) @
     concat (map nvt_bucket_bytes (nvt_buckets nvt)))"

definition nvt_bucket_at :: "bytes \<Rightarrow> nat \<Rightarrow> nvt_bucket" where
  "nvt_bucket_at data cursor =
    \<lparr> nb_kv_block_offset = from_le_bytes (slice_at data cursor 8),
      nb_entry_count = from_le_bytes (slice_at data (cursor + 8) 4) \<rparr>"

definition nvt_deserialize_v1 ::
  "(bytes \<Rightarrow> 'c engine_result) \<Rightarrow> bytes \<Rightarrow> 'c normalized_vector_table engine_result" where
  "nvt_deserialize_v1 deserialize_converter data =
    (if length data < 5 then Inl (CorruptEntry 0 ''NVT data too short for header'')
     else let converter_length = unat (from_le_bytes (slice_at data 1 4) :: u32) in
     if length data < 5 + converter_length
       then Inl (CorruptEntry 0 ''NVT data too short for converter section'')
     else res_bind (deserialize_converter (slice_at data 5 converter_length)) (\<lambda>converter.
       let c1 = 5 + converter_length in
       if length data < c1 + 4 then Inl (CorruptEntry 0 ''NVT data too short for bucket count'')
       else let bucket_count = unat (from_le_bytes (slice_at data c1 4) :: u32); c2 = c1 + 4 in
         if length data < c2 + bucket_count * 12 then Inl (CorruptEntry 0 ''NVT data too short'')
         else Inr \<lparr> nvt_version = 1,
           nvt_buckets = map (\<lambda>i. nvt_bucket_at data (c2 + i * 12)) [0..<bucket_count],
           nvt_converter = converter \<rparr>))"

definition nvt_deserialize ::
  "(bytes \<Rightarrow> 'c engine_result) \<Rightarrow> bytes \<Rightarrow> 'c normalized_vector_table engine_result" where
  "nvt_deserialize deserialize_converter data =
    (if data = [] then Inl (CorruptEntry 0 ''NVT data is empty'')
     else if data ! 0 = 1 then nvt_deserialize_v1 deserialize_converter data
     else Inl (InvalidEntryVersion (data ! 0)))"

interpretation nvt_bucket_array: fixed_records nvt_bucket_bytes nvt_bucket_at 12 "\<lambda>_. True"
proof
  fix b data off ys
  assume c: "cursor_at data off (nvt_bucket_bytes b @ ys)"
  have "slice_at data off 8 = to_le_bytes (nb_kv_block_offset b)"
    using c by (intro cursor_slice [of data off "[]"]) (auto simp: nvt_bucket_bytes_def)
  moreover have "slice_at data (off + 8) 4 = to_le_bytes (nb_entry_count b)"
    using c by (intro cursor_slice [of data off "to_le_bytes (nb_kv_block_offset b)"]) (auto simp: nvt_bucket_bytes_def)
  ultimately show "nvt_bucket_at data off = b" by (simp add: nvt_bucket_at_def)
qed (simp add: nvt_bucket_bytes_def)

definition nvt_ok :: "'c normalized_vector_table \<Rightarrow> bool" where
  "nvt_ok nvt \<longleftrightarrow> nvt_version nvt = 1 \<and> length (nvt_buckets nvt) < 2 ^ 32"

lemma nvt_roundtrip:
  assumes "nvt_ok nvt" and "length (ser (nvt_converter nvt)) < 2 ^ 32"
    and "deser (ser (nvt_converter nvt)) = Inr (nvt_converter nvt)"
  shows "nvt_deserialize deser (nvt_serialize ser nvt) = Inr nvt"
proof -
  let ?d = "nvt_serialize ser nvt" and ?c = "ser (nvt_converter nvt)" and ?bs = "nvt_buckets nvt"
  have n: "nvt_version nvt = 1" "length ?bs < 2 ^ 32" "\<forall>b\<in>set ?bs. True"
    using assms(1) by (simp_all add: nvt_ok_def)
  have cl: "unat (word_of_nat (length ?c) :: u32) = length ?c"
    and bl: "unat (word_of_nat (length ?bs) :: u32) = length ?bs"
    using assms(2) n(2) by (simp_all add: unat_word_of_nat)
  have d: "?d = nvt_version nvt # to_le_bytes (word_of_nat (length ?c) :: u32) @ ?c @
      to_le_bytes (word_of_nat (length ?bs) :: u32) @ concat (map nvt_bucket_bytes ?bs)"
    by (simp add: nvt_serialize_def Let_def)
  have len: "length ?d = 9 + length ?c + length ?bs * 12"
    by (simp add: d nvt_bucket_array.length_concat_enc)
  have "cursor_at ?d 0 ((nvt_version nvt # to_le_bytes (word_of_nat (length ?c) :: u32) @ ?c @
      to_le_bytes (word_of_nat (length ?bs) :: u32)) @ concat (map nvt_bucket_bytes ?bs))"
    by (simp add: cursor_at_def d)
  from cursor_advance(1) [OF this]
  have "cursor_at ?d (9 + length ?c) (concat (map nvt_bucket_bytes ?bs) @ [])"
    by (simp add: add.commute add.left_commute)
  note buckets = nvt_bucket_array.array_read [OF n(3) this]
  have s1: "slice_at ?d 1 4 = to_le_bytes (word_of_nat (length ?c) :: u32)"
    and s2: "slice_at ?d 5 (length ?c) = ?c"
    and s3: "slice_at ?d (5 + length ?c) 4 = to_le_bytes (word_of_nat (length ?bs) :: u32)"
    and v: "?d ! 0 = 1" "?d \<noteq> []"
    using n(1) by (simp_all add: d)
  show ?thesis
    unfolding nvt_deserialize_def nvt_deserialize_v1_def
    using s1 s2 s3 v cl bl len buckets assms(3) n(1)
    by (simp add: Let_def add.commute del: res_bind_eq_Inr)
qed

section \<open>Properties\<close>

text \<open>
  The bucket of a hash, computed by the code in double precision, is always a valid bucket index
  and grows with the hash: of two hashes of the same length the one that compares lower never gets
  the higher bucket.  This is what lets a sorted index be cut into buckets, and holds in spite of the
  two roundings.
\<close>

theorem hash_bucket_monotone:
  assumes "0 < n" and "length g = length h" and "g \<le> h"
  shows "hash_bucket n g \<le> hash_bucket n h \<and> hash_bucket n h < n"
  using hash_bucket_mono [OF assms(2,3)] hash_bucket_less [OF assms(1)] by blast

theorem hash_bucket_monotone_witness:
  "replicate 32 (0 :: u8) \<le> replicate 32 0xFF \<and>
    hash_bucket 45 (replicate 32 0) \<le> hash_bucket 45 (replicate 32 0xFF) \<and>
    hash_bucket 45 (replicate 32 0xFF) < 45"
proof -
  have le: "replicate 32 (0 :: u8) \<le> replicate 32 0xFF" by (simp add: numeral_eq_Suc)
  show ?thesis using le hash_bucket_monotone [OF _ _ le, of 45] by simp
qed

text \<open>
  A bucket table survives serialization, for every converter whose own bytes read back, provided
  the number of buckets is in the range of its 32-bit field.
\<close>

theorem nvt_serialization_roundtrip:
  assumes "nvt_ok nvt" and "length (ser (nvt_converter nvt)) < 2 ^ 32"
    and "deser (ser (nvt_converter nvt)) = Inr (nvt_converter nvt)"
  shows "nvt_deserialize deser (nvt_serialize ser nvt) = Inr nvt"
  using assms by (rule nvt_roundtrip)

theorem nvt_serialization_roundtrip_witness:
  "nvt_deserialize (\<lambda>bs. if bs = [1] then Inr () else Inl UnexpectedEof)
     (nvt_serialize (\<lambda>_. [1]) (nvt_new () 3)) = Inr (nvt_new () 3)"
  by (rule nvt_serialization_roundtrip) (simp_all add: nvt_ok_def nvt_new_def)

end
