(* ===== verification/KV_Store.thy ===== *)
theory KV_Store
  imports NVT
begin

text \<open>
  The in-memory index (\<^verbatim>\<open>kv_store.rs\<close>): a vector of entries sorted by hash with a bucket table that
  says where the entries of each bucket start and how many they are, maintained incrementally.
  The lemmas show that the table always describes the vector and that the store behaves as a
  map from hashes to entries.
\<close>

unbundle bit_operations_syntax

section \<open>Operations\<close>

record kv_store =
  ks_version :: u8
  ks_hash_algo :: hash_algorithm
  ks_entries :: "kv_entry list"
  ks_nvt :: "hash_converter normalized_vector_table"

definition kv_store_new :: "hash_algorithm \<Rightarrow> nat \<Rightarrow> kv_store" where
  "kv_store_new a initial_nvt_buckets =
    \<lparr> ks_version = 1, ks_hash_algo = a, ks_entries = [],
      ks_nvt = nvt_new HashConverter initial_nvt_buckets \<rparr>"

abbreviation kv_bucket :: "kv_store \<Rightarrow> bytes \<Rightarrow> nat" where
  "kv_bucket s h \<equiv> bucket_for_value hash_converter_to_scalar (ks_nvt s) h"

text \<open>The loops over the buckets change bucket \<open>i\<close> only in round \<open>i\<close>.  The counts are 32-bit and the offsets 64-bit
  words, and their sums wrap around as in a release build; a debug build panics there.\<close>

definition increment_bucket :: "nat \<Rightarrow> nat \<Rightarrow> nat \<Rightarrow> nvt_bucket \<Rightarrow> nvt_bucket" where
  "increment_bucket bucket_index insert_index i bucket =
    (if i = bucket_index then
       (if nb_entry_count bucket = 0
        then \<lparr> nb_kv_block_offset = word_of_nat insert_index, nb_entry_count = 1 \<rparr>
        else \<lparr> nb_kv_block_offset = min (nb_kv_block_offset bucket) (word_of_nat insert_index),
               nb_entry_count = nb_entry_count bucket + 1 \<rparr>)
     else if unat (nb_kv_block_offset bucket) \<ge> insert_index \<and> nb_entry_count bucket > 0
       then bucket\<lparr> nb_kv_block_offset := nb_kv_block_offset bucket + 1 \<rparr>
     else bucket)"

definition nvt_increment ::
  "hash_converter normalized_vector_table \<Rightarrow> nat \<Rightarrow> nat \<Rightarrow> hash_converter normalized_vector_table" where
  "nvt_increment nvt bucket_index insert_index =
    nvt\<lparr> nvt_buckets := map (\<lambda>i. increment_bucket bucket_index insert_index i (nvt_buckets nvt ! i))
           [0..<length (nvt_buckets nvt)] \<rparr>"

definition kv_store_insert :: "kv_store \<Rightarrow> kv_entry \<Rightarrow> kv_store" where
  "kv_store_insert s entry =
    (case search_key kv_hash (kv_hash entry) (ks_entries s) of
       Inr index \<Rightarrow> s\<lparr> ks_entries := (ks_entries s)[index := entry] \<rparr>
     | Inl index \<Rightarrow>
         (let bucket_index = kv_bucket s (kv_hash entry) in
          s\<lparr> ks_entries := vec_insert index entry (ks_entries s),
             ks_nvt := nvt_increment (ks_nvt s) bucket_index index \<rparr>))"

text \<open>The outer \<open>None\<close> is the panic of indexing a table without buckets.\<close>

definition kv_store_get :: "kv_store \<Rightarrow> bytes \<Rightarrow> kv_entry option option" where
  "kv_store_get s hash =
    (case nvt_get_bucket (ks_nvt s) (kv_bucket s hash) of
       None \<Rightarrow> None
     | Some bucket \<Rightarrow>
         (let start = unat (nb_kv_block_offset bucket); count = unat (nb_entry_count bucket) in
          if start \<ge> length (ks_entries s) \<or> count = 0 then Some None
          else let end' = min (start + count) (length (ks_entries s));
                   range = slice_at (ks_entries s) start (end' - start) in
            (case search_key kv_hash hash range of
               Inr relative_index \<Rightarrow> Some (Some (ks_entries s ! (start + relative_index)))
             | Inl _ \<Rightarrow> Some None)))"

definition decrement_bucket :: "nat \<Rightarrow> nat \<Rightarrow> nat \<Rightarrow> nvt_bucket \<Rightarrow> nvt_bucket" where
  "decrement_bucket bucket_index remove_index i bucket =
    (if nb_entry_count bucket = 0 then bucket
     else if i = bucket_index then
       (if nb_entry_count bucket \<le> 1 then \<lparr> nb_kv_block_offset = 0, nb_entry_count = 0 \<rparr>
        else bucket\<lparr> nb_entry_count := nb_entry_count bucket - 1 \<rparr>)
     else if unat (nb_kv_block_offset bucket) > remove_index
       then bucket\<lparr> nb_kv_block_offset := nb_kv_block_offset bucket - 1 \<rparr>
     else bucket)"

definition nvt_decrement ::
  "hash_converter normalized_vector_table \<Rightarrow> nat \<Rightarrow> nat \<Rightarrow> hash_converter normalized_vector_table" where
  "nvt_decrement nvt bucket_index remove_index =
    nvt\<lparr> nvt_buckets := map (\<lambda>i. decrement_bucket bucket_index remove_index i (nvt_buckets nvt ! i))
           [0..<length (nvt_buckets nvt)] \<rparr>"

definition kv_store_remove :: "kv_store \<Rightarrow> bytes \<Rightarrow> kv_entry option \<times> kv_store" where
  "kv_store_remove s hash =
    (case search_key kv_hash hash (ks_entries s) of
       Inr index \<Rightarrow>
         (Some (ks_entries s ! index),
          s\<lparr> ks_entries := vec_remove index (ks_entries s),
             ks_nvt := nvt_decrement (ks_nvt s) (kv_bucket s hash) index \<rparr>)
     | Inl _ \<Rightarrow> (None, s))"

definition kv_store_update_offset :: "kv_store \<Rightarrow> bytes \<Rightarrow> u64 \<Rightarrow> bool \<times> kv_store" where
  "kv_store_update_offset s hash new_offset =
    (case search_key kv_hash hash (ks_entries s) of
       Inr index \<Rightarrow>
         (True, s\<lparr> ks_entries := (ks_entries s)[index := (ks_entries s ! index)\<lparr> kv_offset := new_offset \<rparr>] \<rparr>)
     | Inl _ \<Rightarrow> (False, s))"

definition kv_store_update_flags :: "kv_store \<Rightarrow> bytes \<Rightarrow> u8 \<Rightarrow> bool \<times> kv_store" where
  "kv_store_update_flags s hash new_flags =
    (case search_key kv_hash hash (ks_entries s) of
       Inr index \<Rightarrow>
         (let e = ks_entries s ! index; ty = kv_type_flags e AND 0x0F in
          (True, s\<lparr> ks_entries := (ks_entries s)[index := e\<lparr> kv_type_flags := ty OR (new_flags AND 0xF0) \<rparr>] \<rparr>))
     | Inl _ \<Rightarrow> (False, s))"

definition kv_store_contains :: "kv_store \<Rightarrow> bytes \<Rightarrow> bool option" where
  "kv_store_contains s hash = map_option (\<lambda>r. r \<noteq> None) (kv_store_get s hash)"

definition kv_store_entries_in_range :: "kv_store \<Rightarrow> u64 \<Rightarrow> u64 \<Rightarrow> kv_entry list" where
  "kv_store_entries_in_range s start_offset end_offset =
    filter (\<lambda>e. kv_offset e \<ge> start_offset \<and> kv_offset e < end_offset) (ks_entries s)"

text \<open>\<^verbatim>\<open>rebuild_nvt\<close>: one pass over the sorted entries, flushing a bucket when the next one begins.\<close>

fun rebuild_loop ::
  "(kv_entry \<Rightarrow> nat) \<Rightarrow> nat option \<Rightarrow> nat \<Rightarrow> u32 \<Rightarrow> nat \<Rightarrow> kv_entry list \<Rightarrow> nvt_bucket list \<Rightarrow> nvt_bucket list" where
  "rebuild_loop bkt current start count i [] buckets =
    (case current of
       None \<Rightarrow> buckets
     | Some b \<Rightarrow> buckets[b := \<lparr> nb_kv_block_offset = word_of_nat start, nb_entry_count = count \<rparr>])"
| "rebuild_loop bkt current start count i (e # es) buckets =
    (if current = Some (bkt e) then rebuild_loop bkt current start (count + 1) (Suc i) es buckets
     else rebuild_loop bkt (Some (bkt e)) i 1 (Suc i) es
       (case current of
          None \<Rightarrow> buckets
        | Some b \<Rightarrow> buckets[b := \<lparr> nb_kv_block_offset = word_of_nat start, nb_entry_count = count \<rparr>]))"

definition rebuild_nvt :: "kv_store \<Rightarrow> kv_store" where
  "rebuild_nvt s =
    (let cleared = replicate (nvt_bucket_count (ks_nvt s)) \<lparr> nb_kv_block_offset = 0, nb_entry_count = 0 \<rparr> in
     s\<lparr> ks_nvt := (ks_nvt s)\<lparr> nvt_buckets :=
       (if ks_entries s = [] then cleared
        else rebuild_loop (\<lambda>e. kv_bucket s (kv_hash e)) None 0 0 0 (ks_entries s) cleared) \<rparr> \<rparr>)"

definition store_entry_bytes :: "kv_entry \<Rightarrow> bytes" where
  "store_entry_bytes e =
    [kv_type_flags e] @ kv_hash e @ to_le_bytes (kv_offset e) @ to_le_bytes (kv_total_length e)"

definition kv_store_serialize :: "kv_store \<Rightarrow> bytes" where
  "kv_store_serialize s =
    (let nvt_data = nvt_serialize hash_converter_serialize (ks_nvt s) in
     [ks_version s] @ to_le_bytes (hash_algorithm_to_u16 (ks_hash_algo s)) @
     to_le_bytes (word_of_nat (length (ks_entries s)) :: u64) @
     concat (map store_entry_bytes (ks_entries s)) @
     to_le_bytes (word_of_nat (length nvt_data) :: u32) @ nvt_data)"

definition store_entry_at :: "nat \<Rightarrow> bytes \<Rightarrow> nat \<Rightarrow> kv_entry" where
  "store_entry_at hl data cursor =
    \<lparr> kv_type_flags = data ! cursor, kv_hash = slice_at data (cursor + 1) hl,
      kv_offset = from_le_bytes (slice_at data (cursor + 1 + hl) 8),
      kv_total_length = from_le_bytes (slice_at data (cursor + 1 + hl + 8) 4) \<rparr>"

definition kv_store_deserialize ::
  "(bytes \<Rightarrow> hash_converter engine_result) \<Rightarrow> bytes \<Rightarrow> kv_store engine_result" where
  "kv_store_deserialize deserialize_converter data =
    (if length data < 11 then Inl (CorruptEntry 0 ''KVStore data too short for header'')
     else if data ! 0 = 0 then Inl (CorruptEntry 0 ''Invalid KVStore version'')
     else let hash_algo_raw = from_le_bytes (slice_at data 1 2) in
     res_bind (ok_or (InvalidHashAlgorithm hash_algo_raw) (hash_algorithm_from_u16 hash_algo_raw)) (\<lambda>a.
       let entry_count = unat (from_le_bytes (slice_at data 3 8) :: u64);
           hl = hash_length a;
           entries_end = 11 + entry_count * (1 + hl + 8 + 4) in
       if length data < entries_end + 4 then Inl (CorruptEntry 0 ''KVStore data too short'')
       else let nvt_length = unat (from_le_bytes (slice_at data entries_end 4) :: u32);
                c = entries_end + 4 in
         if length data < c + nvt_length then Inl (CorruptEntry 0 ''KVStore data too short for NVT section'')
         else res_bind (nvt_deserialize deserialize_converter (slice_at data c nvt_length)) (\<lambda>nvt.
           Inr \<lparr> ks_version = data ! 0, ks_hash_algo = a,
             ks_entries = map (\<lambda>i. store_entry_at hl data (11 + i * (1 + hl + 8 + 4))) [0..<entry_count],
             ks_nvt = nvt \<rparr>)))"

section \<open>Buckets of a sorted list\<close>

text \<open>
  The bucket numbers of the entries form a sorted list.  In such a list the elements below \<open>b\<close> are a
  prefix, followed by the elements equal to \<open>b\<close>.
\<close>

definition below :: "nat list \<Rightarrow> nat \<Rightarrow> nat" where
  "below bs b = length (filter (\<lambda>x. x < b) bs)"

definition equal_to :: "nat list \<Rightarrow> nat \<Rightarrow> nat" where
  "equal_to bs b = length (filter (\<lambda>x. x = b) bs)"

lemma filter_empty_sorted: "sorted (x # xs) \<Longrightarrow> b \<le> x \<Longrightarrow> filter (\<lambda>y. y < b) xs = []"
  by (auto simp: filter_empty_conv)

lemma below_nth:
  assumes "sorted bs" "j < length bs"
  shows "bs ! j < b \<longleftrightarrow> j < below bs b"
  using assms
proof (induction bs arbitrary: j)
  case Nil
  then show ?case by simp
next
  case (Cons x bs)
  show ?case
  proof (cases "x < b")
    case True
    then show ?thesis using Cons by (cases j) (auto simp: below_def)
  next
    case False
    then have "filter (\<lambda>y. y < b) bs = []" using filter_empty_sorted [of x bs b] Cons.prems(1) False by simp
    moreover have "x \<le> (x # bs) ! j" using Cons.prems by (cases j) auto
    ultimately show ?thesis using False by (simp add: below_def)
  qed
qed

lemma below_Suc: "below bs (Suc b) = below bs b + equal_to bs b"
  by (induction bs) (auto simp: below_def equal_to_def less_Suc_eq)

lemma below_mono: "a \<le> b \<Longrightarrow> below bs a \<le> below bs b"
  by (induction bs) (auto simp: below_def)

lemma below_le: "below bs b \<le> length bs"
  by (simp add: below_def)

lemma nth_bucket_iff:
  assumes "sorted bs" "j < length bs"
  shows "bs ! j = b \<longleftrightarrow> below bs b \<le> j \<and> j < below bs b + equal_to bs b"
proof -
  have "bs ! j < b \<longleftrightarrow> j < below bs b" "bs ! j < Suc b \<longleftrightarrow> j < below bs b + equal_to bs b"
    using below_nth [OF assms, of b] below_nth [OF assms, of "Suc b"] by (simp_all add: below_Suc)
  then show ?thesis by linarith
qed

lemma below_vec_insert:
  "below (vec_insert i x bs) b = below bs b + (if x < b then 1 else 0)"
  "equal_to (vec_insert i x bs) b = equal_to bs b + (if x = b then 1 else 0)"
proof -
  have "filter P bs = filter P (take i bs) @ filter P (drop i bs)" for P
    by (metis append_take_drop_id filter_append)
  then show "below (vec_insert i x bs) b = below bs b + (if x < b then 1 else 0)"
    "equal_to (vec_insert i x bs) b = equal_to bs b + (if x = b then 1 else 0)"
    by (simp_all add: below_def equal_to_def vec_insert_def)
qed

lemma vec_insert_remove: "i < length xs \<Longrightarrow> vec_insert i (xs ! i) (vec_remove i xs) = xs"
  using split_at [of i xs] by (simp add: vec_insert_def vec_remove_def)

lemma nth_vec_insert: "i \<le> length xs \<Longrightarrow> vec_insert i x xs ! i = x"
  by (simp add: vec_insert_def nth_append)

text \<open>The table entry of bucket \<open>b\<close> describes the list.\<close>

definition bucket_describes :: "nat list \<Rightarrow> nat \<Rightarrow> nvt_bucket \<Rightarrow> bool" where
  "bucket_describes bs b bucket \<longleftrightarrow> unat (nb_entry_count bucket) = equal_to bs b \<and>
    (0 < equal_to bs b \<longrightarrow> unat (nb_kv_block_offset bucket) = below bs b)"

lemma below_equal_le: "below bs b + equal_to bs b \<le> length bs"
  using below_le [of bs "Suc b"] by (simp add: below_Suc)

lemma describesD:
  assumes "bucket_describes bs b bucket"
  shows "unat (nb_entry_count bucket) = equal_to bs b" "0 < equal_to bs b \<Longrightarrow> unat (nb_kv_block_offset bucket) = below bs b"
    "nb_entry_count bucket = 0 \<longleftrightarrow> equal_to bs b = 0" "nb_entry_count bucket > 0 \<longleftrightarrow> 0 < equal_to bs b"
    "nb_entry_count bucket \<le> 1 \<longleftrightarrow> equal_to bs b \<le> 1"
  using assms by (auto simp: bucket_describes_def unat_eq_0 word_le_nat_alt word_less_nat_alt)

lemma unat_inc32: "unat c + 1 < 2 ^ 32 \<Longrightarrow> unat (c + 1 :: u32) = unat c + 1"
  by (simp add: unat_word_ariths)

lemma unat_inc64: "unat c + 1 < 2 ^ 64 \<Longrightarrow> unat (c + 1 :: u64) = unat c + 1"
  by (simp add: unat_word_ariths)

lemma unat_index64: "i < 2 ^ 64 \<Longrightarrow> unat (word_of_nat i :: u64) = i"
  by (simp add: unat_word_of_nat)

lemma unat_min_index: "i < 2 ^ 64 \<Longrightarrow> unat (min w (word_of_nat i) :: u64) = min (unat w) i"
  by (simp add: min_def word_le_nat_alt unat_index64)

lemma increment_describes:
  assumes "sorted (vec_insert i x bs)" "i \<le> length bs" "bucket_describes bs b bucket" and small: "length bs + 1 < 2 ^ 32"
  shows "bucket_describes (vec_insert i x bs) b (increment_bucket x i b bucket)"
proof -
  let ?bs = "vec_insert i x bs"
  have "?bs ! i = b \<longleftrightarrow> below ?bs b \<le> i \<and> i < below ?bs b + equal_to ?bs b"
    using assms by (intro nth_bucket_iff) auto
  then have pos: "x = b \<longleftrightarrow> below ?bs b \<le> i \<and> i < below ?bs b + equal_to ?bs b"
    using assms(2) by (simp add: nth_vec_insert)
  have "?bs ! i < b \<longleftrightarrow> i < below ?bs b" using assms by (intro below_nth) auto
  then have lt: "x < b \<longleftrightarrow> i < below ?bs b" using assms(2) by (simp add: nth_vec_insert)
  note ins = below_vec_insert [of i x bs b]
  note d = describesD [OF assms(3)]
  have i: "i < 2 ^ 64" and c: "equal_to bs b + 1 < 2 ^ 32" and o: "below bs b + 1 < 2 ^ 64"
    using assms(2) small below_equal_le [of bs b] by simp_all
  consider (eq) "b = x" | (below) "b < x" | (above) "x < b" by linarith
  then show ?thesis
  proof cases
    case eq
    then have "below bs b \<le> i" "equal_to bs b = 0 \<Longrightarrow> i = below bs b" using pos ins by simp_all
    then show ?thesis using eq d(1,2,3) ins unat_index64 [OF i] unat_min_index [OF i] unat_inc32 [of "nb_entry_count bucket"] c
      by (cases "equal_to bs b = 0") (simp_all add: bucket_describes_def increment_bucket_def)
  next
    case below
    then have same: "below ?bs b = below bs b" "equal_to ?bs b = equal_to bs b" using ins by simp_all
    have "below bs b + equal_to bs b \<le> i" using pos lt below unfolding same by linarith
    then have "increment_bucket x i b bucket = bucket"
      using below d(2,4) by (cases "equal_to bs b = 0") (auto simp: increment_bucket_def)
    then show ?thesis using d(1,2) same by (simp add: bucket_describes_def)
  next
    case above
    then have same: "below ?bs b = below bs b + 1" "equal_to ?bs b = equal_to bs b" using ins by simp_all
    have "i \<le> below bs b" using lt above unfolding same by linarith
    then show ?thesis
      using above d(1,2,4) same unat_inc64 [of "nb_kv_block_offset bucket"] o
      by (cases "equal_to bs b = 0") (simp_all add: bucket_describes_def increment_bucket_def)
  qed
qed

lemma decrement_describes:
  assumes "sorted bs" "i < length bs" "bucket_describes bs b bucket"
  shows "bucket_describes (vec_remove i bs) b (decrement_bucket (bs ! i) i b bucket)"
proof -
  let ?r = "vec_remove i bs" and ?x = "bs ! i"
  have cnt: "below bs b = below ?r b + (if ?x < b then 1 else 0)"
      "equal_to bs b = equal_to ?r b + (if ?x = b then 1 else 0)"
    using below_vec_insert [of i ?x ?r b] vec_insert_remove [OF assms(2)] by simp_all
  have pos: "?x = b \<longleftrightarrow> below bs b \<le> i \<and> i < below bs b + equal_to bs b"
    and lt: "?x < b \<longleftrightarrow> i < below bs b"
    using nth_bucket_iff [OF assms(1,2)] below_nth [OF assms(1,2)] by auto
  note d = describesD [OF assms(3)]
  have dec: "nb_entry_count bucket \<noteq> 0 \<Longrightarrow> unat (nb_entry_count bucket - 1) = equal_to bs b - 1"
    "nb_kv_block_offset bucket \<noteq> 0 \<Longrightarrow> unat (nb_kv_block_offset bucket - 1) = unat (nb_kv_block_offset bucket) - 1"
    using d(1) by (simp_all add: unat_minus_one)
  consider (eq) "b = ?x" | (below) "b < ?x" | (above) "?x < b" by linarith
  then show ?thesis
  proof cases
    case eq
    then show ?thesis using d cnt dec(1) by (simp add: bucket_describes_def decrement_bucket_def)
  next
    case below
    then have "0 < equal_to bs b \<Longrightarrow> below bs b \<le> i" using pos lt by simp
    then show ?thesis using below d(1,2,3) cnt by (auto simp: bucket_describes_def decrement_bucket_def)
  next
    case above
    then have "i < below bs b" using lt by simp
    moreover from this have "0 < equal_to bs b \<Longrightarrow> nb_kv_block_offset bucket \<noteq> 0" using d(2) by (auto simp flip: unat_eq_0)
    ultimately show ?thesis using above d(1,2,3) cnt dec(2)
      by (cases "equal_to bs b = 0") (simp_all add: bucket_describes_def decrement_bucket_def)
  qed
qed

section \<open>The store is a map\<close>

definition entry_buckets :: "nat \<Rightarrow> kv_entry list \<Rightarrow> nat list" where
  "entry_buckets n es = map (\<lambda>e. hash_bucket n (kv_hash e)) es"

text \<open>The vector is sorted whatever the table says; the table describes it as long as its 32-bit counts suffice.\<close>

definition kv_sorted :: "kv_store \<Rightarrow> bool" where
  "kv_sorted s \<longleftrightarrow> sorted_by kv_hash (ks_entries s) \<and>
    (\<forall>e\<in>set (ks_entries s). length (kv_hash e) = hash_length (ks_hash_algo s))"

definition kv_ok :: "kv_store \<Rightarrow> bool" where
  "kv_ok s \<longleftrightarrow>
    (let n = nvt_bucket_count (ks_nvt s); es = ks_entries s in
     kv_sorted s \<and> 0 < n \<and> length es < 2 ^ 32 \<and>
     (\<forall>b<n. bucket_describes (entry_buckets n es) b (nvt_buckets (ks_nvt s) ! b)))"

lemma kv_sortedD:
  assumes "kv_sorted s"
  shows "sorted_by kv_hash (ks_entries s)" "\<forall>e\<in>set (ks_entries s). length (kv_hash e) = hash_length (ks_hash_algo s)"
  using assms by (simp_all add: kv_sorted_def)

lemma kv_okD:
  assumes "kv_ok s"
  shows "kv_sorted s" "0 < nvt_bucket_count (ks_nvt s)" "length (ks_entries s) < 2 ^ 32"
    "\<forall>b<nvt_bucket_count (ks_nvt s). bucket_describes (entry_buckets (nvt_bucket_count (ks_nvt s)) (ks_entries s)) b
      (nvt_buckets (ks_nvt s) ! b)"
  using assms by (simp_all add: kv_ok_def Let_def)

lemma kv_bucket_hash: "kv_bucket s h = hash_bucket (nvt_bucket_count (ks_nvt s)) h"
  by (simp add: bucket_for_value_def hash_bucket_def hash_converter_to_scalar_def)

lemma sorted_entry_buckets:
  assumes "sorted_by kv_hash es" "\<forall>e\<in>set es. length (kv_hash e) = hl"
  shows "sorted (entry_buckets n es)"
  using assms
proof (induction es)
  case Nil
  then show ?case by (simp add: entry_buckets_def)
next
  case (Cons e es)
  have "hash_bucket n (kv_hash e) \<le> hash_bucket n (kv_hash f)" if "f \<in> set es" for f
    using Cons.prems that by (intro hash_bucket_mono) auto
  then show ?case using Cons by (auto simp: entry_buckets_def)
qed

lemma map_vec_insert: "map f (vec_insert i x xs) = vec_insert i (f x) (map f xs)"
  by (simp add: vec_insert_def take_map drop_map)

lemma map_vec_remove: "map f (vec_remove i xs) = vec_remove i (map f xs)"
  by (simp add: vec_remove_def take_map drop_map)

lemma kv_store_new_ok: "0 < n \<Longrightarrow> kv_ok (kv_store_new a n)"
  by (simp add: kv_ok_def kv_sorted_def kv_store_new_def nvt_new_def nvt_bucket_count_def entry_buckets_def
      bucket_describes_def equal_to_def Let_def)

lemma slice_range:
  assumes "below bs b + equal_to bs b \<le> length es"
  shows "set (slice_at es (below bs b) (equal_to bs b)) =
    {es ! j | j. below bs b \<le> j \<and> j < below bs b + equal_to bs b}"
proof -
  have len: "length (slice_at es (below bs b) (equal_to bs b)) = equal_to bs b" using assms by simp
  have nth: "slice_at es (below bs b) (equal_to bs b) ! k = es ! (below bs b + k)" if "k < equal_to bs b" for k
    using that assms by (simp add: slice_at_def)
  show ?thesis
  proof (intro equalityI subsetI)
    fix x assume "x \<in> set (slice_at es (below bs b) (equal_to bs b))"
    then obtain k where "k < equal_to bs b" "x = es ! (below bs b + k)"
      using len nth by (auto simp: in_set_conv_nth)
    then show "x \<in> {es ! j | j. below bs b \<le> j \<and> j < below bs b + equal_to bs b}" by auto
  next
    fix x assume "x \<in> {es ! j | j. below bs b \<le> j \<and> j < below bs b + equal_to bs b}"
    then obtain j where j: "below bs b \<le> j" "j < below bs b + equal_to bs b" "x = es ! j" by auto
    then have "j - below bs b < equal_to bs b" "x = slice_at es (below bs b) (equal_to bs b) ! (j - below bs b)"
      using nth [of "j - below bs b"] by auto
    then show "x \<in> set (slice_at es (below bs b) (equal_to bs b))" using len by (metis nth_mem)
  qed
qed

lemma kv_store_get_kmap:
  assumes "kv_ok s"
  shows "kv_store_get s h = Some (kmap kv_hash (ks_entries s) h)"
proof -
  define n es where "n = nvt_bucket_count (ks_nvt s)" and "es = ks_entries s"
  define bs b where "bs = entry_buckets n es" and "b = hash_bucket n h"
  have ok: "0 < n" "sorted_by kv_hash es" "\<forall>e\<in>set es. length (kv_hash e) = hash_length (ks_hash_algo s)"
      "\<forall>b<n. bucket_describes bs b (nvt_buckets (ks_nvt s) ! b)"
    using kv_okD [OF assms] kv_sortedD [of s] by (simp_all add: n_def es_def bs_def)
  have b: "b < n" using ok(1) by (simp add: b_def hash_bucket_less)
  have lbs: "length bs = length es" by (simp add: bs_def entry_buckets_def)
  have bk: "bs ! j = hash_bucket n (kv_hash (es ! j))" if "j < length es" for j
    using that by (simp add: bs_def entry_buckets_def)
  have srt: "sorted bs" using ok(2,3) unfolding bs_def by (rule sorted_entry_buckets)
  have le: "below bs b + equal_to bs b \<le> length es" using below_le [of bs "Suc b"] by (simp add: below_Suc lbs)
  define bucket where "bucket = nvt_buckets (ks_nvt s) ! b"
  have d: "unat (nb_entry_count bucket) = equal_to bs b" "0 < equal_to bs b \<Longrightarrow> unat (nb_kv_block_offset bucket) = below bs b"
    using ok(4) b by (auto simp: bucket_describes_def bucket_def)
  have gb: "nvt_get_bucket (ks_nvt s) (kv_bucket s h) = Some bucket"
    using b by (simp add: nvt_get_bucket_def kv_bucket_hash nvt_bucket_count_def [symmetric] n_def b_def bucket_def)
  have inrange: "below bs b \<le> j \<and> j < below bs b + equal_to bs b" if "j < length es" "kv_hash (es ! j) = h" for j
    using nth_bucket_iff [OF srt, of j b] bk [OF that(1)] that by (simp add: lbs b_def)
  show ?thesis
  proof (cases "equal_to bs b = 0")
    case True
    have "h \<notin> kv_hash ` set es"
    proof
      assume "h \<in> kv_hash ` set es"
      then obtain j where "j < length es" "kv_hash (es ! j) = h" by (auto simp: in_set_conv_nth)
      from inrange [OF this] True show False by linarith
    qed
    then have "kmap kv_hash es h = None" by (simp add: kmap_None_iff)
    then show ?thesis using True gb d by (simp add: kv_store_get_def es_def)
  next
    case False
    define range where "range = slice_at es (below bs b) (equal_to bs b)"
    have off: "unat (nb_kv_block_offset bucket) = below bs b" "below bs b < length es" using False d le by auto
    have srange: "sorted_by kv_hash range"
      using ok(2) by (simp add: range_def slice_at_def sorted_wrt_take sorted_wrt_drop)
    have get: "kv_store_get s h = (case search_key kv_hash h range of
        Inr r \<Rightarrow> Some (Some (es ! (below bs b + r))) | Inl _ \<Rightarrow> Some None)"
      using gb d off False le by (simp add: kv_store_get_def es_def range_def Let_def split: sum.split)
    show ?thesis
    proof (cases rule: search_key_cases [OF srange, of h])
      case (1 r)
      then have "es ! (below bs b + r) \<in> set es" "kv_hash (es ! (below bs b + r)) = h"
        using le by (auto simp: range_def slice_at_def)
      then have "kmap kv_hash es h = Some (es ! (below bs b + r))"
        using kmap_Some_iff [OF sorted_by_distinct [OF ok(2)]] by blast
      then show ?thesis using 1 get by (simp add: es_def)
    next
      case (2 r)
      then have "h \<notin> kv_hash ` set range" by (intro search_missing) auto
      then have "h \<notin> kv_hash ` set es"
        using inrange slice_range [OF le] by (force simp: in_set_conv_nth range_def)
      then have "kmap kv_hash es h = None" by (simp add: kmap_None_iff)
      then show ?thesis using 2(1) get by (simp add: es_def)
    qed
  qed
qed

lemma buckets_after_map:
  "nvt_bucket_count (nvt_increment nvt b i) = nvt_bucket_count nvt"
  "nvt_bucket_count (nvt_decrement nvt b i) = nvt_bucket_count nvt"
  "j < nvt_bucket_count nvt \<Longrightarrow>
    nvt_buckets (nvt_increment nvt b i) ! j = increment_bucket b i j (nvt_buckets nvt ! j)"
  "j < nvt_bucket_count nvt \<Longrightarrow>
    nvt_buckets (nvt_decrement nvt b i) ! j = decrement_bucket b i j (nvt_buckets nvt ! j)"
  by (simp_all add: nvt_bucket_count_def nvt_increment_def nvt_decrement_def)

lemma entry_buckets_update:
  "i < length es \<Longrightarrow> kv_hash (es ! i) = kv_hash e \<Longrightarrow> entry_buckets n (es[i := e]) = entry_buckets n es"
  by (simp add: entry_buckets_def map_update list_update_same_conv)

lemma kv_ok_replace:
  assumes "kv_sorted s" "i < length (ks_entries s)" "kv_hash e = kv_hash (ks_entries s ! i)"
  defines "s' \<equiv> s\<lparr> ks_entries := (ks_entries s)[i := e] \<rparr>"
  shows "kv_sorted s'" and "kv_ok s \<Longrightarrow> kv_ok s'"
    and "kmap kv_hash ((ks_entries s)[i := e]) = (kmap kv_hash (ks_entries s))(kv_hash e \<mapsto> e)"
proof -
  note ok = kv_sortedD [OF assms(1)]
  have "\<forall>x\<in>set ((ks_entries s)[i := e]). length (kv_hash x) = hash_length (ks_hash_algo s)"
    using ok(2) assms(2,3) set_update_subset_insert [of "ks_entries s" i e] nth_mem [OF assms(2)] by auto
  then show srt: "kv_sorted s'"
    using assms sorted_by_list_update [OF ok(1) assms(2)] by (simp add: kv_sorted_def)
  then show "kv_ok s \<Longrightarrow> kv_ok s'"
    using assms(2,3) by (simp add: s'_def kv_ok_def entry_buckets_update Let_def)
  show "kmap kv_hash ((ks_entries s)[i := e]) = (kmap kv_hash (ks_entries s))(kv_hash e \<mapsto> e)"
    using assms(2,3) kmap_list_update [OF sorted_by_distinct [OF ok(1)], of i e] by simp
qed

lemma kv_store_insert_correct:
  assumes "kv_sorted s" "length (kv_hash e) = hash_length (ks_hash_algo s)"
  shows "kv_sorted (kv_store_insert s e)"
    and "kmap kv_hash (ks_entries (kv_store_insert s e)) = (kmap kv_hash (ks_entries s))(kv_hash e \<mapsto> e)"
    and "ks_hash_algo (kv_store_insert s e) = ks_hash_algo s"
    and "length (ks_entries (kv_store_insert s e)) \<le> length (ks_entries s) + 1"
    and "kv_ok s \<Longrightarrow> length (ks_entries s) + 1 < 2 ^ 32 \<Longrightarrow> kv_ok (kv_store_insert s e)"
proof -
  define n es where "n = nvt_bucket_count (ks_nvt s)" and "es = ks_entries s"
  let ?s = "kv_store_insert s e"
  note ok = kv_sortedD [OF assms(1), folded es_def]
  have "kv_sorted ?s \<and> kmap kv_hash (ks_entries ?s) = (kmap kv_hash es)(kv_hash e \<mapsto> e) \<and>
      ks_hash_algo ?s = ks_hash_algo s \<and> length (ks_entries ?s) \<le> length es + 1 \<and>
      (kv_ok s \<longrightarrow> length es + 1 < 2 ^ 32 \<longrightarrow> kv_ok ?s)"
  proof (cases rule: search_key_cases [OF ok(1), of "kv_hash e"])
    case (1 i)
    then show ?thesis
      using kv_ok_replace [OF assms(1), of i e] by (simp add: kv_store_insert_def es_def)
  next
    case (2 i)
    let ?es = "vec_insert i e es" and ?b = "hash_bucket n (kv_hash e)"
    have new: "kv_hash e \<notin> kv_hash ` set es" using 2 by (intro search_missing) auto
    have srt: "sorted_by kv_hash ?es" using ok(1) 2 by (intro sorted_by_vec_insert) auto
    have hl: "\<forall>x\<in>set ?es. length (kv_hash x) = hash_length (ks_hash_algo s)" using ok(2) assms(2) by auto
    have bs: "entry_buckets n ?es = vec_insert i ?b (entry_buckets n es)"
      by (simp add: entry_buckets_def map_vec_insert)
    have s: "?s = s\<lparr> ks_entries := ?es, ks_nvt := nvt_increment (ks_nvt s) ?b i \<rparr>"
      using 2 by (simp add: kv_store_insert_def es_def kv_bucket_hash n_def Let_def)
    have sorted: "kv_sorted ?s" using srt hl by (simp add: s kv_sorted_def)
    have "kv_ok ?s" if o: "kv_ok s" "length es + 1 < 2 ^ 32"
    proof -
      have "bucket_describes (entry_buckets n ?es) b (increment_bucket ?b i b (nvt_buckets (ks_nvt s) ! b))"
        if "b < n" for b
        using kv_okD(4) [OF o(1), folded es_def n_def] o(2) that 2(2) sorted_entry_buckets [OF srt hl, of n]
        unfolding bs by (intro increment_describes) (auto simp: entry_buckets_def)
      then show ?thesis
        using sorted o(2) 2(2) kv_okD(2) [OF o(1)]
        by (simp add: kv_ok_def s n_def [symmetric] buckets_after_map Let_def)
    qed
    then show ?thesis using 2 sorted kmap_vec_insert [OF new, of i] by (simp add: s)
  qed
  then show "kv_sorted ?s" "kmap kv_hash (ks_entries ?s) = (kmap kv_hash (ks_entries s))(kv_hash e \<mapsto> e)"
    "ks_hash_algo ?s = ks_hash_algo s" "length (ks_entries ?s) \<le> length (ks_entries s) + 1"
    "kv_ok s \<Longrightarrow> length (ks_entries s) + 1 < 2 ^ 32 \<Longrightarrow> kv_ok ?s"
    by (simp_all add: es_def)
qed

lemma kv_store_remove_correct:
  assumes "kv_sorted s" "kv_store_remove s h = (r, s')"
  shows "kv_sorted s'" and "r = kmap kv_hash (ks_entries s) h"
    and "kmap kv_hash (ks_entries s') = (kmap kv_hash (ks_entries s))(h := None)"
    and "ks_hash_algo s' = ks_hash_algo s" and "kv_ok s \<Longrightarrow> kv_ok s'"
proof -
  define n es where "n = nvt_bucket_count (ks_nvt s)" and "es = ks_entries s"
  note ok = kv_sortedD [OF assms(1), folded es_def]
  note dist = sorted_by_distinct [OF ok(1)]
  have "kv_sorted s' \<and> r = kmap kv_hash es h \<and> kmap kv_hash (ks_entries s') = (kmap kv_hash es)(h := None) \<and>
      ks_hash_algo s' = ks_hash_algo s \<and> (kv_ok s \<longrightarrow> kv_ok s')"
  proof (cases rule: search_key_cases [OF ok(1), of h])
    case (1 i)
    let ?es = "vec_remove i es" and ?b = "hash_bucket n h"
    have s': "r = Some (es ! i)" "s' = s\<lparr> ks_entries := ?es, ks_nvt := nvt_decrement (ks_nvt s) ?b i \<rparr>"
      using 1 assms(2) by (auto simp: kv_store_remove_def es_def [symmetric] kv_bucket_hash n_def)
    have "set ?es \<subseteq> set es" by (auto simp: vec_remove_def dest: in_set_takeD in_set_dropD)
    then have sorted: "kv_sorted s'"
      using ok(2) sorted_by_vec_remove [OF ok(1)] by (auto simp: s' kv_sorted_def)
    have bs: "entry_buckets n ?es = vec_remove i (entry_buckets n es)" "entry_buckets n es ! i = ?b"
      using 1 by (simp_all add: entry_buckets_def map_vec_remove)
    have "kv_ok s'" if o: "kv_ok s"
    proof -
      have "bucket_describes (entry_buckets n ?es) b (decrement_bucket ?b i b (nvt_buckets (ks_nvt s) ! b))"
        if "b < n" for b
        using kv_okD(4) [OF o, folded es_def n_def] that 1(2) sorted_entry_buckets [OF ok, of n]
          decrement_describes [of "entry_buckets n es" i b "nvt_buckets (ks_nvt s) ! b"]
        unfolding bs by (simp add: entry_buckets_def)
      moreover have "length ?es < 2 ^ 32" using kv_okD(3) [OF o] 1(2) by (simp add: es_def vec_remove_def)
      ultimately show ?thesis
        using sorted kv_okD(2) [OF o] by (simp add: kv_ok_def s' n_def [symmetric] buckets_after_map Let_def)
    qed
    moreover have "kmap kv_hash es h = Some (es ! i)" using 1 kmap_Some_iff [OF dist] by simp
    ultimately show ?thesis using 1 s' sorted kmap_vec_remove [OF dist, of i] by simp
  next
    case (2 i)
    then have "h \<notin> kv_hash ` set es" by (intro search_missing) auto
    then have "kmap kv_hash es h = None" by (simp add: kmap_None_iff)
    moreover have "r = None" "s' = s"
      using 2(1) assms(2) by (simp_all add: kv_store_remove_def es_def [symmetric])
    ultimately show ?thesis using assms(1) by (auto simp: es_def fun_eq_iff)
  qed
  then show "kv_sorted s'" "r = kmap kv_hash (ks_entries s) h"
    "kmap kv_hash (ks_entries s') = (kmap kv_hash (ks_entries s))(h := None)"
    "ks_hash_algo s' = ks_hash_algo s" "kv_ok s \<Longrightarrow> kv_ok s'"
    by (simp_all add: es_def)
qed

lemma kv_store_update_offset_correct:
  assumes "kv_ok s" "kv_store_update_offset s h off = (found, s')"
  shows "kv_ok s'" and "found \<longleftrightarrow> kmap kv_hash (ks_entries s) h \<noteq> None"
    and "kmap kv_hash (ks_entries s') = (kmap kv_hash (ks_entries s))
      (h := map_option (\<lambda>e. e\<lparr> kv_offset := off \<rparr>) (kmap kv_hash (ks_entries s) h))"
proof -
  let ?es = "ks_entries s"
  note sorted = kv_okD(1) [OF assms(1)]
  note srt = kv_sortedD(1) [OF sorted]
  have "kv_ok s' \<and> (found \<longleftrightarrow> kmap kv_hash ?es h \<noteq> None) \<and>
     kmap kv_hash (ks_entries s') = (kmap kv_hash ?es)
      (h := map_option (\<lambda>e. e\<lparr> kv_offset := off \<rparr>) (kmap kv_hash ?es h))"
  proof (cases rule: search_key_cases [OF srt, of h])
    case (1 i)
    let ?e = "(?es ! i)\<lparr> kv_offset := off \<rparr>"
    have "kmap kv_hash ?es h = Some (?es ! i)"
      using 1 kmap_Some_iff [OF sorted_by_distinct [OF srt]] by simp
    then show ?thesis
      using 1 assms kv_ok_replace [OF sorted 1(2), of ?e] by (auto simp: kv_store_update_offset_def)
  next
    case (2 i)
    then have "h \<notin> kv_hash ` set ?es" by (intro search_missing) auto
    then have "kmap kv_hash ?es h = None" by (simp add: kmap_None_iff)
    moreover have "found = False" "s' = s"
      using 2(1) assms(2) by (simp_all add: kv_store_update_offset_def)
    ultimately show ?thesis using assms(1) by (auto simp: fun_eq_iff)
  qed
  then show "kv_ok s'" "found \<longleftrightarrow> kmap kv_hash (ks_entries s) h \<noteq> None"
    "kmap kv_hash (ks_entries s') = (kmap kv_hash (ks_entries s))
      (h := map_option (\<lambda>e. e\<lparr> kv_offset := off \<rparr>) (kmap kv_hash (ks_entries s) h))"
    by simp_all
qed

text \<open>The rebuilt table describes the entries whatever the table said before.\<close>

lemma below_append: "below (xs @ ys) b = below xs b + below ys b"
  "equal_to (xs @ ys) b = equal_to xs b + equal_to ys b"
  by (simp_all add: below_def equal_to_def)

lemma describes_snoc:
  assumes "bucket_describes xs b k" "\<forall>x\<in>set xs. x \<le> y" "b \<noteq> y"
  shows "bucket_describes (xs @ [y]) b k"
proof -
  have "b < y" if "0 < equal_to xs b"
    using that assms(2,3) by (auto simp: equal_to_def filter_empty_conv le_neq_implies_less)
  then have "0 < equal_to xs b \<Longrightarrow> below (xs @ [y]) b = below xs b"
    by (simp add: below_append(1)) (simp add: below_def)
  moreover have "equal_to (xs @ [y]) b = equal_to xs b"
    using assms(3) by (simp add: below_append(2)) (simp add: equal_to_def)
  ultimately show ?thesis using assms(1) by (simp add: bucket_describes_def)
qed

lemma all_below: "\<forall>x\<in>set xs. x < b \<Longrightarrow> below xs b = length xs \<and> equal_to xs b = 0"
  by (auto simp: below_def equal_to_def filter_empty_conv)

lemma rebuild_loop_describes:
  assumes "sorted (map bkt (pre @ es))" "\<forall>e\<in>set es. bkt e < length buckets"
    and "i = length pre"
    and "case current of None \<Rightarrow> pre = [] | Some c \<Rightarrow> c < length buckets \<and> (\<forall>e\<in>set pre. bkt e \<le> c) \<and>
        (\<forall>e\<in>set es. c \<le> bkt e) \<and>
        start = below (map bkt pre) c \<and> unat count = equal_to (map bkt pre) c"
    and small: "length (pre @ es) < 2 ^ 32"
    and "\<forall>b<length buckets. current \<noteq> Some b \<longrightarrow> bucket_describes (map bkt pre) b (buckets ! b)"
    and "b < length buckets"
  shows "bucket_describes (map bkt (pre @ es)) b (rebuild_loop bkt current start count i es buckets ! b)"
  using assms
proof (induction es arbitrary: pre current start count i buckets)
  case Nil
  then have "start < 2 ^ 64" if "current = Some c" for c
    using that below_le [of "map bkt pre" c] by simp
  then show ?case using Nil by (auto simp: bucket_describes_def nth_list_update unat_index64 split: option.splits)
next
  case (Cons e es)
  let ?bs = "map bkt pre" and ?b = "bkt e"
  have le: "\<forall>x\<in>set ?bs. x \<le> ?b" "\<forall>f\<in>set es. ?b \<le> bkt f"
    using Cons.prems(1) by (auto simp: sorted_append)
  show ?case
  proof (cases "current = Some ?b")
    case True
    then have st: "start = below ?bs ?b" "unat count = equal_to ?bs ?b" using Cons.prems(4) by auto
    then have cnt: "unat (count + 1) = equal_to ?bs ?b + 1"
      using unat_inc32 [of count] below_equal_le [of ?bs ?b] Cons.prems(5) by simp
    have "bucket_describes (map bkt ((pre @ [e]) @ es)) b
        (rebuild_loop bkt (Some ?b) start (count + 1) (Suc i) es buckets ! b)"
    proof (rule Cons.IH)
      show "case Some ?b of None \<Rightarrow> pre @ [e] = [] | Some c \<Rightarrow> c < length buckets \<and>
          (\<forall>f\<in>set (pre @ [e]). bkt f \<le> c) \<and> (\<forall>f\<in>set es. c \<le> bkt f) \<and>
          start = below (map bkt (pre @ [e])) c \<and> unat (count + 1) = equal_to (map bkt (pre @ [e])) c"
        using Cons.prems(2) le st cnt by (auto simp: below_append) (auto simp: below_def equal_to_def)
      show "\<forall>b<length buckets. Some ?b \<noteq> Some b \<longrightarrow> bucket_describes (map bkt (pre @ [e])) b (buckets ! b)"
        using Cons.prems(6) True le(1) describes_snoc [of ?bs _ _ ?b] by auto
    qed (use Cons.prems in auto)
    then show ?thesis using True by simp
  next
    case False
    define buckets' where "buckets' = (case current of None \<Rightarrow> buckets
        | Some c \<Rightarrow> buckets[c := \<lparr> nb_kv_block_offset = word_of_nat start, nb_entry_count = count \<rparr>])"
    have len: "length buckets' = length buckets" by (simp add: buckets'_def split: option.splits)
    have lt: "\<forall>x\<in>set ?bs. x < ?b"
      using Cons.prems(4) False le by (cases current) (auto simp: le_neq_implies_less order_le_less_trans)
    have "start < 2 ^ 64" if "current = Some c" for c
      using that Cons.prems(4,5) below_le [of ?bs c] by simp
    then have pre: "bucket_describes ?bs c (buckets' ! c)" if "c < length buckets" "c \<noteq> ?b" for c
      using Cons.prems(4,6) that
      by (cases "current = Some c") (auto simp: buckets'_def bucket_describes_def unat_index64 split: option.splits)
    have "bucket_describes (map bkt ((pre @ [e]) @ es)) b
        (rebuild_loop bkt (Some ?b) i 1 (Suc i) es buckets' ! b)"
    proof (rule Cons.IH)
      show "case Some ?b of None \<Rightarrow> pre @ [e] = [] | Some c \<Rightarrow> c < length buckets' \<and>
          (\<forall>f\<in>set (pre @ [e]). bkt f \<le> c) \<and> (\<forall>f\<in>set es. c \<le> bkt f) \<and>
          i = below (map bkt (pre @ [e])) c \<and> unat (1 :: u32) = equal_to (map bkt (pre @ [e])) c"
        using Cons.prems(2,3) le len all_below [OF lt]
        by (auto simp: below_append) (auto simp: below_def equal_to_def)
      show "\<forall>b<length buckets'. Some ?b \<noteq> Some b \<longrightarrow> bucket_describes (map bkt (pre @ [e])) b (buckets' ! b)"
        using pre le(1) describes_snoc [of ?bs _ _ ?b] by (auto simp: len)
    qed (use Cons.prems len in auto)
    then show ?thesis using False by (simp add: buckets'_def)
  qed
qed

lemma rebuild_nvt_ok:
  assumes "kv_sorted s" "0 < nvt_bucket_count (ks_nvt s)" "length (ks_entries s) < 2 ^ 32"
  shows "kv_ok (rebuild_nvt s)" and "ks_entries (rebuild_nvt s) = ks_entries s"
proof -
  let ?n = "nvt_bucket_count (ks_nvt s)" and ?es = "ks_entries s"
  let ?clr = "replicate ?n \<lparr> nb_kv_block_offset = 0, nb_entry_count = 0 \<rparr>"
  let ?bkt = "\<lambda>e. hash_bucket ?n (kv_hash e)"
  define out where "out = rebuild_loop ?bkt None 0 0 0 ?es ?clr"
  have lout: "length (rebuild_loop bkt c st k i es bs) = length bs" for bkt c st k i es bs
    by (induction bkt c st k i es bs rule: rebuild_loop.induct) (auto split: option.splits)
  have bs: "nvt_buckets (ks_nvt (rebuild_nvt s)) = out"
    by (simp add: rebuild_nvt_def Let_def kv_bucket_hash out_def)
  then have n: "nvt_bucket_count (ks_nvt (rebuild_nvt s)) = ?n"
    by (simp add: nvt_bucket_count_def out_def lout)
  have "bucket_describes (map ?bkt ([] @ ?es)) b (out ! b)" if "b < ?n" for b
    unfolding out_def
    using that sorted_entry_buckets [OF kv_sortedD [OF assms(1)], of ?n] assms(2,3)
    by (intro rebuild_loop_describes)
      (auto simp: entry_buckets_def hash_bucket_less bucket_describes_def equal_to_def)
  then have "\<forall>b<?n. bucket_describes (entry_buckets ?n ?es) b (out ! b)" by (simp add: entry_buckets_def)
  moreover show es: "ks_entries (rebuild_nvt s) = ?es" by (simp add: rebuild_nvt_def Let_def)
  moreover have "ks_hash_algo (rebuild_nvt s) = ks_hash_algo s" by (simp add: rebuild_nvt_def Let_def)
  ultimately show "kv_ok (rebuild_nvt s)"
    using assms n by (simp add: kv_ok_def kv_sorted_def bs Let_def)
qed

text \<open>The vector is a map from hashes to entries, also when the counts of the table have wrapped around.\<close>

interpretation kv_index: keyed_store "\<lambda>s. kv_sorted s \<and> ks_hash_algo s = a" kv_hash
    "\<lambda>e s. kv_store_insert s e" "\<lambda>h s. snd (kv_store_remove s h)" "\<lambda>s. kmap kv_hash (ks_entries s)"
    "\<lambda>e. length (kv_hash e) = hash_length a"
  for a
proof
  fix s and e :: kv_entry
  assume s: "kv_sorted s \<and> ks_hash_algo s = a" and e: "length (kv_hash e) = hash_length a"
  then have "length (kv_hash e) = hash_length (ks_hash_algo s)" by simp
  note ins = kv_store_insert_correct [OF conjunct1 [OF s] this]
  show "kv_sorted (kv_store_insert s e) \<and> ks_hash_algo (kv_store_insert s e) = a" using ins(1,3) s by simp
  show "kmap kv_hash (ks_entries (kv_store_insert s e)) = (kmap kv_hash (ks_entries s))(kv_hash e \<mapsto> e)" by (rule ins(2))
next
  fix s h
  assume s: "kv_sorted s \<and> ks_hash_algo s = a"
  obtain r s' where r: "kv_store_remove s h = (r, s')" by fastforce
  note rem = kv_store_remove_correct [OF conjunct1 [OF s] r]
  show "kv_sorted (snd (kv_store_remove s h)) \<and> ks_hash_algo (snd (kv_store_remove s h)) = a"
    using rem(1,4) s r by simp
  show "kmap kv_hash (ks_entries (snd (kv_store_remove s h))) = (kmap kv_hash (ks_entries s))(h := None)"
    using rem(3) r by simp
qed

text \<open>Insertions keep the table as long as fewer than \<open>2 ^ 32\<close> entries result.\<close>

lemma insertions_ok:
  assumes "kv_ok s" "\<forall>e\<in>set es. length (kv_hash e) = hash_length (ks_hash_algo s)"
    "length (ks_entries s) + length es < 2 ^ 32"
  defines "s' \<equiv> fold (\<lambda>e s. kv_store_insert s e) es s"
  shows "kv_ok s' \<and> length (ks_entries s') \<le> length (ks_entries s) + length es"
  using assms(1-3) unfolding s'_def
proof (induction es arbitrary: s)
  case (Cons e es)
  have "length (kv_hash e) = hash_length (ks_hash_algo s)" using Cons.prems(2) by simp
  note ins = kv_store_insert_correct [OF kv_okD(1) [OF Cons.prems(1)] this]
  have "kv_ok (kv_store_insert s e)" using ins(5) Cons.prems(1,3) by simp
  then show ?case using Cons.IH [of "kv_store_insert s e"] Cons.prems(2,3) ins(3,4) by simp
qed simp

section \<open>Properties\<close>

text \<open>
  The bucketed index is a map.  From an empty store, after any sequence of fewer than \<open>2 ^ 32\<close> insertions of
  entries with hashes of the store's length, a lookup through the bucket table never panics and returns the last
  entry inserted under the hash, or nothing; and the incrementally maintained table still
  describes the entries.
\<close>

theorem kv_store_insertions_lookup:
  assumes "0 < n" and "\<forall>e\<in>set es. length (kv_hash e) = hash_length a" and "length es < 2 ^ 32"
    and "s = fold (\<lambda>e s. kv_store_insert s e) es (kv_store_new a n)"
  shows "kv_ok s \<and> kv_store_get s h = Some (kmap kv_hash (rev es) h)"
proof -
  have new: "kv_ok (kv_store_new a n)" "ks_hash_algo (kv_store_new a n) = a" "ks_entries (kv_store_new a n) = []"
    using kv_store_new_ok [OF assms(1)] by (simp_all add: kv_store_new_def)
  then have ok: "kv_ok s" using insertions_ok [of "kv_store_new a n" es] assms(2-4) by simp
  have "kmap kv_hash (ks_entries s) = kmap kv_hash (rev es)"
    using kv_index.puts_correct [OF conjI [OF kv_okD(1) [OF new(1)] new(2)] assms(2), folded assms(4)] new(3) by simp
  then show ?thesis using ok by (simp add: kv_store_get_kmap)
qed

theorem kv_store_insertions_lookup_witness:
  "let e = \<lparr> kv_type_flags = 1, kv_hash = replicate 32 3, kv_offset = 5, kv_total_length = 6 \<rparr>;
       f = \<lparr> kv_type_flags = 2, kv_hash = replicate 32 3, kv_offset = 9, kv_total_length = 7 \<rparr>;
       s = fold (\<lambda>e s. kv_store_insert s e) [e, f] (kv_store_new Blake3_256 16) in
   kv_store_get s (replicate 32 3) = Some (Some f) \<and> kv_store_get s [] = Some None"
proof -
  let ?e = "\<lparr> kv_type_flags = 1, kv_hash = replicate 32 3, kv_offset = 5, kv_total_length = 6 \<rparr>"
  let ?f = "\<lparr> kv_type_flags = 2, kv_hash = replicate 32 3, kv_offset = 9, kv_total_length = 7 \<rparr>"
  have ok: "\<forall>e\<in>set [?e, ?f]. length (kv_hash e) = hash_length Blake3_256"
    by (simp add: hash_length_def)
  show ?thesis
    using kv_store_insertions_lookup [OF _ ok _ refl, of 16 "replicate 32 3"]
      kv_store_insertions_lookup [OF _ ok _ refl, of 16 "[]"]
    by (simp add: Let_def)
qed

text \<open>
  Removing a hash from the bucketed index returns the entry it had and takes exactly that hash away,
  and the table still describes the remaining entries; rebuilding the table from scratch gives a store
  that answers every lookup the same way.
\<close>

theorem kv_store_remove_rebuild:
  assumes "kv_ok s" and "kv_store_remove s h = (r, s')"
  shows "kv_ok s' \<and> kv_store_get s h = Some r \<and>
    kv_store_get s' k = (if k = h then Some None else kv_store_get s k) \<and>
    kv_ok (rebuild_nvt s') \<and> kv_store_get (rebuild_nvt s') k = kv_store_get s' k"
proof -
  note rem = kv_store_remove_correct [OF kv_okD(1) [OF assms(1)] assms(2)]
  note ok = rem(5) [OF assms(1)]
  have "kv_ok (rebuild_nvt s')" "ks_entries (rebuild_nvt s') = ks_entries s'"
    using rebuild_nvt_ok kv_okD [OF ok] by blast+
  then show ?thesis using rem ok assms(1) by (simp add: kv_store_get_kmap)
qed

theorem kv_store_remove_rebuild_witness:
  "\<exists>s s'. kv_ok s \<and> kv_store_remove s (replicate 32 3) = (None, s') \<and>
    kv_store_get s' (replicate 32 3) = Some None"
proof -
  let ?s = "kv_store_new Blake3_256 16"
  have ok: "kv_ok ?s" by (simp add: kv_store_new_ok)
  have r: "kv_store_remove ?s (replicate 32 3) = (None, ?s)"
    by (simp add: kv_store_remove_def kv_store_new_def search_key_def binary_search_by_def)
  show ?thesis using ok r kv_store_remove_rebuild [OF ok r, of "replicate 32 3"] by blast
qed

end
