(* ===== verification/Hot_Tail.thy ===== *)
theory Hot_Tail
  imports KV_Pages
begin

text \<open>
  The hot tail (\<^verbatim>\<open>hot_tail.rs\<close>): the record at the end of the log that carries the index writes not
  yet in bucket pages and the reusable voids.  The lemmas show that it reads back, that every truncated
  copy is refused, and that its checksum covers the 14 header bytes only.
\<close>

definition HOT_TAIL_MAGIC :: bytes where "HOT_TAIL_MAGIC = [0xAE, 0x01, 0x7D, 0xB1, 0x0D]"
definition HOT_TAIL_FORMAT_VERSION :: u8 where "HOT_TAIL_FORMAT_VERSION = 1"
definition WRITE_RECORD_VERSION :: u8 where "WRITE_RECORD_VERSION = 1"
definition VOID_RECORD_VERSION :: u8 where "VOID_RECORD_VERSION = 1"
definition HOT_TAIL_HEADER_SIZE :: nat where "HOT_TAIL_HEADER_SIZE = 5 + 1 + 4 + 4 + 4"

definition write_record_size :: "nat \<Rightarrow> nat" where
  "write_record_size hl = 1 + hl + 1 + 8 + 4"

definition VOID_RECORD_SIZE :: nat where "VOID_RECORD_SIZE = 1 + 8 + 4"

record void_record =
  vr_offset :: u64
  vr_size :: u32

record hot_tail_payload =
  htp_writes :: "kv_entry list"
  htp_voids :: "void_record list"

definition write_record_bytes :: "nat \<Rightarrow> kv_entry \<Rightarrow> bytes" where
  "write_record_bytes hl e =
    [WRITE_RECORD_VERSION] @ hash_field hl (kv_hash e) @ [kv_type_flags e] @
    to_le_bytes (kv_offset e) @ to_le_bytes (kv_total_length e)"

definition void_record_bytes :: "void_record \<Rightarrow> bytes" where
  "void_record_bytes v = [VOID_RECORD_VERSION] @ to_le_bytes (vr_offset v) @ to_le_bytes (vr_size v)"

definition hot_tail_header :: "(bytes \<Rightarrow> u32) \<Rightarrow> nat \<Rightarrow> nat \<Rightarrow> bytes" where
  "hot_tail_header crc32 writes voids =
    (let pre = HOT_TAIL_MAGIC @ [HOT_TAIL_FORMAT_VERSION] @
       to_le_bytes (word_of_nat writes :: u32) @ to_le_bytes (word_of_nat voids :: u32) in
     pre @ to_le_bytes (crc32 pre))"

definition serialize_hot_tail :: "(bytes \<Rightarrow> u32) \<Rightarrow> hot_tail_payload \<Rightarrow> nat \<Rightarrow> bytes" where
  "serialize_hot_tail crc32 payload hl =
    hot_tail_header crc32 (length (htp_writes payload)) (length (htp_voids payload)) @
    concat (map (write_record_bytes hl) (htp_writes payload)) @
    concat (map void_record_bytes (htp_voids payload))"

text \<open>The records at a cursor; the version byte of a record is skipped unread.\<close>

definition write_record_at :: "nat \<Rightarrow> bytes \<Rightarrow> nat \<Rightarrow> kv_entry" where
  "write_record_at hl data cursor =
    \<lparr> kv_type_flags = data ! (cursor + 1 + hl), kv_hash = slice_at data (cursor + 1) hl,
      kv_offset = from_le_bytes (slice_at data (cursor + 1 + hl + 1) 8),
      kv_total_length = from_le_bytes (slice_at data (cursor + 1 + hl + 9) 4) \<rparr>"

definition void_record_at :: "bytes \<Rightarrow> nat \<Rightarrow> void_record" where
  "void_record_at data cursor =
    \<lparr> vr_offset = from_le_bytes (slice_at data (cursor + 1) 8),
      vr_size = from_le_bytes (slice_at data (cursor + 9) 4) \<rparr>"

definition deserialize_hot_tail :: "(bytes \<Rightarrow> u32) \<Rightarrow> bytes \<Rightarrow> nat \<Rightarrow> hot_tail_payload option" where
  "deserialize_hot_tail crc32 data hl =
    (if length data < HOT_TAIL_HEADER_SIZE then None
     else if take 5 data \<noteq> HOT_TAIL_MAGIC then None
     else if data ! 5 \<noteq> HOT_TAIL_FORMAT_VERSION then None
     else let write_count = unat (from_le_bytes (slice_at data 6 4) :: u32);
              void_count = unat (from_le_bytes (slice_at data 10 4) :: u32) in
       if from_le_bytes (slice_at data 14 4) \<noteq> crc32 (take 14 data) then None
       else let wsize = write_record_size hl;
                voids_start = HOT_TAIL_HEADER_SIZE + write_count * wsize in
         if length data < voids_start + void_count * VOID_RECORD_SIZE then None
         else Some \<lparr>
           htp_writes = map (\<lambda>i. write_record_at hl data (HOT_TAIL_HEADER_SIZE + i * wsize)) [0..<write_count],
           htp_voids = map (\<lambda>i. void_record_at data (voids_start + i * VOID_RECORD_SIZE)) [0..<void_count] \<rparr>)"

definition write_hot_tail ::
  "(bytes \<Rightarrow> u32) \<Rightarrow> bytes \<Rightarrow> nat \<Rightarrow> hot_tail_payload \<Rightarrow> nat \<Rightarrow> bytes \<times> nat" where
  "write_hot_tail crc32 file offset payload hl =
    (let data = serialize_hot_tail crc32 payload hl in
     (write_at file offset data, offset + length data))"

definition read_hot_tail :: "(bytes \<Rightarrow> u32) \<Rightarrow> bytes \<Rightarrow> nat \<Rightarrow> nat \<Rightarrow> hot_tail_payload option" where
  "read_hot_tail crc32 file offset hl =
    (case read_exact file offset HOT_TAIL_HEADER_SIZE of
       None \<Rightarrow> None
     | Some header \<Rightarrow>
         if take 5 header \<noteq> HOT_TAIL_MAGIC then None
         else if header ! 5 \<noteq> HOT_TAIL_FORMAT_VERSION then None
         else let write_count = unat (from_le_bytes (slice_at header 6 4) :: u32);
                  void_count = unat (from_le_bytes (slice_at header 10 4) :: u32) in
           if crc32 (take 14 header) \<noteq> from_le_bytes (slice_at header 14 4) then None
           else let body_len = write_count * write_record_size hl + void_count * VOID_RECORD_SIZE in
             (case read_exact file (offset + HOT_TAIL_HEADER_SIZE) body_len of
                None \<Rightarrow> None
              | Some body \<Rightarrow> deserialize_hot_tail crc32 (header @ body) hl))"

section \<open>Reading back\<close>

lemma length_hot_tail_header [simp]: "length (hot_tail_header crc32 w v) = 18"
  by (simp add: hot_tail_header_def HOT_TAIL_MAGIC_def Let_def)

lemmas hot_tail_sizes = HOT_TAIL_HEADER_SIZE_def VOID_RECORD_SIZE_def

interpretation hot_writes: fixed_records "write_record_bytes hl" "write_record_at hl" "write_record_size hl"
    "\<lambda>e. length (kv_hash e) = hl"
  for hl
proof
  fix e data off ys
  assume l: "length (kv_hash e) = hl" and "cursor_at data off (write_record_bytes hl e @ ys)"
  then have c: "cursor_at data off (WRITE_RECORD_VERSION # kv_hash e @ kv_type_flags e #
      to_le_bytes (kv_offset e) @ to_le_bytes (kv_total_length e) @ ys)"
    by (simp add: write_record_bytes_def)
  have "slice_at data (off + 1) hl = kv_hash e"
    using c l by (intro cursor_slice [of data off "[WRITE_RECORD_VERSION]"]) auto
  moreover have "data ! (off + 1 + hl) = kv_type_flags e"
    using c l cursor_nth [of data off "WRITE_RECORD_VERSION # kv_hash e"] by simp
  moreover have "slice_at data (off + 1 + hl + 1) 8 = to_le_bytes (kv_offset e)"
    using c l by (intro cursor_slice [of data off "WRITE_RECORD_VERSION # kv_hash e @ [kv_type_flags e]"]) auto
  moreover have "slice_at data (off + 1 + hl + 9) 4 = to_le_bytes (kv_total_length e)"
    using c l by (intro cursor_slice
      [of data off "WRITE_RECORD_VERSION # kv_hash e @ [kv_type_flags e] @ to_le_bytes (kv_offset e)"]) auto
  ultimately show "write_record_at hl data off = e" by (simp add: write_record_at_def)
qed (simp add: write_record_bytes_def write_record_size_def)

interpretation hot_voids: fixed_records void_record_bytes void_record_at VOID_RECORD_SIZE "\<lambda>_. True"
proof
  fix v data off ys
  assume "cursor_at data off (void_record_bytes v @ ys)"
  then have c: "cursor_at data off (VOID_RECORD_VERSION # to_le_bytes (vr_offset v) @
      to_le_bytes (vr_size v) @ ys)"
    by (simp add: void_record_bytes_def)
  have "slice_at data (off + 1) 8 = to_le_bytes (vr_offset v)"
    using c by (intro cursor_slice [of data off "[VOID_RECORD_VERSION]"]) auto
  moreover have "slice_at data (off + 9) 4 = to_le_bytes (vr_size v)"
    using c by (intro cursor_slice [of data off "VOID_RECORD_VERSION # to_le_bytes (vr_offset v)"]) auto
  ultimately show "void_record_at data off = v" by (simp add: void_record_at_def)
qed (simp add: void_record_bytes_def VOID_RECORD_SIZE_def)

definition payload_ok :: "nat \<Rightarrow> hot_tail_payload \<Rightarrow> bool" where
  "payload_ok hl p \<longleftrightarrow> length (htp_writes p) < 2 ^ 32 \<and> length (htp_voids p) < 2 ^ 32 \<and>
    (\<forall>e\<in>set (htp_writes p). length (kv_hash e) = hl)"

text \<open>A header with its own CRC, followed by a body of the announced length.\<close>

lemma header_fields:
  fixes crc32 w v rest
  defines "data \<equiv> hot_tail_header crc32 w v @ rest"
  assumes "w < 2 ^ 32" "v < 2 ^ 32"
  shows "take 5 data = HOT_TAIL_MAGIC" "data ! 5 = HOT_TAIL_FORMAT_VERSION"
    "unat (from_le_bytes (slice_at data 6 4) :: u32) = w"
    "unat (from_le_bytes (slice_at data 10 4) :: u32) = v"
    "from_le_bytes (slice_at data 14 4) = crc32 (take 14 data)"
  using assms
  by (simp_all add: hot_tail_header_def HOT_TAIL_MAGIC_def Let_def unat_word_of_nat)

lemma deserialize_hot_tail_header:
  assumes "w < 2 ^ 32" "v < 2 ^ 32"
  shows "deserialize_hot_tail crc32 (hot_tail_header crc32 w v @ body) hl =
    (if length body < w * write_record_size hl + v * VOID_RECORD_SIZE then None
     else Some \<lparr>
       htp_writes = map (\<lambda>i. write_record_at hl (hot_tail_header crc32 w v @ body)
         (18 + i * write_record_size hl)) [0..<w],
       htp_voids = map (\<lambda>i. void_record_at (hot_tail_header crc32 w v @ body)
         (18 + w * write_record_size hl + i * VOID_RECORD_SIZE)) [0..<v] \<rparr>)"
  using header_fields [OF assms, of crc32 body]
  unfolding deserialize_hot_tail_def HOT_TAIL_HEADER_SIZE_def by (simp add: Let_def)

lemma read_hot_tail_header:
  assumes "w < 2 ^ 32" "v < 2 ^ 32"
    and "cursor_at file off (hot_tail_header crc32 w v @ rest)"
    and n: "n = w * write_record_size hl + v * VOID_RECORD_SIZE"
  shows "read_hot_tail crc32 file off hl =
    (if length rest < n then None
     else deserialize_hot_tail crc32 (hot_tail_header crc32 w v @ take n rest) hl)"
proof -
  have h: "read_exact file off HOT_TAIL_HEADER_SIZE = Some (hot_tail_header crc32 w v)"
    using cursor_advance(2,3) [OF assms(3)] by (simp add: read_exact_def HOT_TAIL_HEADER_SIZE_def)
  have c: "cursor_at file (off + 18) rest" using cursor_advance(1) [OF assms(3)] by simp
  then have len: "length file = off + 18 + length rest" by (auto simp: cursor_at_def)
  have b: "read_exact file (off + HOT_TAIL_HEADER_SIZE) n = (if length rest < n then None else Some (take n rest))"
    using c len by (auto simp: read_exact_def HOT_TAIL_HEADER_SIZE_def slice_at_def cursor_at_def)
  show ?thesis
    unfolding read_hot_tail_def h
    using header_fields [OF assms(1,2), of crc32 "[]"] b
    by (simp add: Let_def n [symmetric])
qed

lemma deserialize_serialize_hot_tail:
  assumes "payload_ok hl p"
  shows "deserialize_hot_tail crc32 (serialize_hot_tail crc32 p hl) hl = Some p"
proof -
  let ?w = "htp_writes p" and ?v = "htp_voids p"
  let ?d = "serialize_hot_tail crc32 p hl"
  let ?h = "hot_tail_header crc32 (length ?w) (length ?v)"
  have lim: "length ?w < 2 ^ 32" "length ?v < 2 ^ 32" and ok: "\<forall>e\<in>set ?w. length (kv_hash e) = hl"
    using assms by (simp_all add: payload_ok_def)
  have d: "?d = ?h @ concat (map (write_record_bytes hl) ?w) @ concat (map void_record_bytes ?v)"
    by (simp add: serialize_hot_tail_def)
  have c1: "cursor_at ?d 18 (concat (map (write_record_bytes hl) ?w) @ concat (map void_record_bytes ?v))"
    by (simp add: cursor_at_def d)
  have c2: "cursor_at ?d (18 + length ?w * write_record_size hl) (concat (map void_record_bytes ?v) @ [])"
    using cursor_advance(1) [OF c1] by (simp add: hot_writes.length_concat_enc)
  have w: "map (\<lambda>i. write_record_at hl ?d (18 + i * write_record_size hl)) [0..<length ?w] = ?w"
    by (rule hot_writes.array_read [OF ok c1])
  have v: "map (\<lambda>i. void_record_at ?d (18 + length ?w * write_record_size hl + i * VOID_RECORD_SIZE))
      [0..<length ?v] = ?v"
    by (rule hot_voids.array_read [OF _ c2]) simp
  show ?thesis
    using deserialize_hot_tail_header [OF lim, of crc32 _ hl] w v unfolding d
    by (simp add: hot_writes.length_concat_enc hot_voids.length_concat_enc)
qed

lemma length_serialize_hot_tail:
  "length (serialize_hot_tail crc32 p hl) =
    18 + length (htp_writes p) * write_record_size hl + length (htp_voids p) * VOID_RECORD_SIZE"
  by (simp add: serialize_hot_tail_def hot_writes.length_concat_enc hot_voids.length_concat_enc)

lemma cursor_at_write: "cursor_at (write_at file off bs) off (bs @ drop (off + length bs) file)"
  by (simp add: cursor_at_def write_at_def)

lemma cursor_at_take:
  assumes "cursor_at data off xs" and "off \<le> n"
  shows "cursor_at (take n data) off (take (n - off) xs)"
  using assms by (auto simp: cursor_at_def drop_take)

lemma read_write_hot_tail:
  assumes "payload_ok hl p" and "write_hot_tail crc32 file off p hl = (file', end')"
  shows "read_hot_tail crc32 file' off hl = Some p"
    and "off \<le> n \<Longrightarrow> n < end' \<Longrightarrow> read_hot_tail crc32 (take n file') off hl = None"
proof -
  let ?w = "htp_writes p" and ?v = "htp_voids p"
  let ?h = "hot_tail_header crc32 (length ?w) (length ?v)"
  let ?m = "length ?w * write_record_size hl + length ?v * VOID_RECORD_SIZE"
  define body where "body = concat (map (write_record_bytes hl) ?w) @ concat (map void_record_bytes ?v)"
  have lim: "length ?w < 2 ^ 32" "length ?v < 2 ^ 32" using assms(1) by (simp_all add: payload_ok_def)
  have d: "serialize_hot_tail crc32 p hl = ?h @ body" by (simp add: serialize_hot_tail_def body_def)
  have lb: "length body = ?m"
    by (simp add: body_def hot_writes.length_concat_enc hot_voids.length_concat_enc)
  have f: "file' = write_at file off (?h @ body)" and e: "end' = off + 18 + length body"
    using assms(2) by (auto simp: write_hot_tail_def d Let_def)
  have c: "cursor_at file' off (?h @ body @ drop (end') file)"
    using cursor_at_write [of "file" off "?h @ body"] by (simp add: f e add.assoc)
  show "read_hot_tail crc32 file' off hl = Some p"
    using read_hot_tail_header [OF lim c refl, of hl] deserialize_serialize_hot_tail [OF assms(1), of crc32]
    by (simp add: lb d)
  show "read_hot_tail crc32 (take n file') off hl = None" if n: "off \<le> n" "n < end'"
  proof (cases "n < off + 18")
    case True
    then have "read_exact (take n file') off HOT_TAIL_HEADER_SIZE = None"
      by (simp add: read_exact_def HOT_TAIL_HEADER_SIZE_def)
    then show ?thesis by (simp add: read_hot_tail_def)
  next
    case False
    then have n18: "18 \<le> n - off" and lt: "n - off - 18 < length body" using n e by auto
    have "cursor_at (take n file') off (take (n - off) (?h @ body @ drop end' file))"
      using c n(1) by (rule cursor_at_take)
    then have "cursor_at (take n file') off (?h @ take (n - off - 18) (body @ drop end' file))"
      using n18 by simp
    from read_hot_tail_header [OF lim this refl, of hl] lt show ?thesis by (simp add: lb [symmetric])
  qed
qed

section \<open>Properties\<close>

text \<open>
  C23: The hot tail survives the disk and never survives in part: reading at the offset it was
  written to returns the same pending writes and voids, and reading a file cut anywhere before its end
  returns nothing, so that start-up falls back to the dirty path.
\<close>

theorem hot_tail_whole_or_nothing:
  assumes "payload_ok hl p" and "write_hot_tail crc32 file off p hl = (file', end')"
  shows "read_hot_tail crc32 file' off hl = Some p \<and>
    (off \<le> n \<and> n < end' \<longrightarrow> read_hot_tail crc32 (take n file') off hl = None)"
  using read_write_hot_tail [OF assms] by blast

theorem hot_tail_whole_or_nothing_witness:
  "\<exists>file'. write_hot_tail (\<lambda>_. 3) [0, 0]  1
      \<lparr> htp_writes = [\<lparr> kv_type_flags = 1, kv_hash = [4], kv_offset = 5, kv_total_length = 6 \<rparr>],
        htp_voids = [\<lparr> vr_offset = 7, vr_size = 8 \<rparr>] \<rparr> 1 = (file', 47) \<and>
    read_hot_tail (\<lambda>_. 3) file' 1 1 =
      Some \<lparr> htp_writes = [\<lparr> kv_type_flags = 1, kv_hash = [4], kv_offset = 5, kv_total_length = 6 \<rparr>],
        htp_voids = [\<lparr> vr_offset = 7, vr_size = 8 \<rparr>] \<rparr> \<and>
    read_hot_tail (\<lambda>_. 3) (take 46 file') 1 1 = None"
proof -
  let ?p = "\<lparr> htp_writes = [\<lparr> kv_type_flags = 1, kv_hash = [4], kv_offset = 5, kv_total_length = 6 \<rparr>],
        htp_voids = [\<lparr> vr_offset = 7, vr_size = 8 \<rparr>] \<rparr> :: hot_tail_payload"
  have ok: "payload_ok 1 ?p" by (simp add: payload_ok_def)
  define file' where "file' = fst (write_hot_tail (\<lambda>_. 3) [0, 0] 1 ?p 1)"
  have "snd (write_hot_tail (\<lambda>_. 3) [0, 0] 1 ?p 1) = 47"
    by (simp add: write_hot_tail_def length_serialize_hot_tail Let_def write_record_size_def
        VOID_RECORD_SIZE_def)
  then have f: "write_hot_tail (\<lambda>_. 3) [0, 0] 1 ?p 1 = (file', 47)"
    by (simp add: file'_def prod_eq_iff)
  show ?thesis
    using f hot_tail_whole_or_nothing [OF ok f, of 46] by (intro exI [of _ file']) simp
qed

text \<open>
  C33: The hot tail's checksum covers its header only.  With an intact header, every body of the
  announced length is accepted, whatever its bytes are, so damage to the records themselves is
  not detected by \<open>read_hot_tail\<close>.
\<close>

theorem hot_tail_body_unchecked:
  assumes "w < 2 ^ 32" and "v < 2 ^ 32"
    and "length body = w * write_record_size hl + v * VOID_RECORD_SIZE"
  shows "\<exists>p. read_hot_tail crc32 (hot_tail_header crc32 w v @ body) 0 hl = Some p \<and>
    length (htp_writes p) = w \<and> length (htp_voids p) = v"
  using read_hot_tail_header [OF assms(1,2) cursor_start assms(3)] assms(3)
    deserialize_hot_tail_header [OF assms(1,2), of crc32 body hl]
  by simp

theorem hot_tail_body_unchecked_witness:
  "\<exists>p. read_hot_tail (\<lambda>_. 3) (hot_tail_header (\<lambda>_. 3) 1 0 @ replicate 46 0xFF) 0 32 = Some p \<and>
    length (htp_writes p) = 1 \<and> length (htp_voids p) = 0"
  using hot_tail_body_unchecked [of 1 0 "replicate 46 0xFF" 32 "\<lambda>_. 3"]
  by (simp add: write_record_size_def)

end
