(* ===== verification/KV_Snapshot.thy ===== *)
theory KV_Snapshot
  imports NVT Hot_Tail
begin

text \<open>
  The published read view of the disk index (\<^verbatim>\<open>kv_snapshot.rs\<close>): a frozen copy of the write buffer and of
  all bucket pages.  A \<^verbatim>\<open>HashMap\<close> is an association list with distinct keys; its iteration order, which the
  standard library leaves open, is the order of the list, and no lemma depends on which list of
  the same bindings it is.  The lemmas show that a lookup is the overlay of the buffer over
  the pages and that the per-type counts agree with the entries a scan returns.
\<close>

type_synonym kv_buffer = "(bytes \<times> kv_entry) list"

abbreviation buffer_values :: "kv_buffer \<Rightarrow> kv_entry list" where
  "buffer_values m \<equiv> map snd m"

record read_snapshot =
  rs_buffer :: kv_buffer
  rs_nvt :: "hash_converter normalized_vector_table"
  rs_bucket_count :: nat
  rs_hash_algo :: hash_algorithm
  rs_entry_count :: nat
  rs_pages :: "bytes list"
  rs_page_type_counts :: "nat list"
  rs_buffer_type_counts :: "nat list"

fun add_page_counts :: "(bytes \<Rightarrow> u32) \<Rightarrow> nat \<Rightarrow> bytes list \<Rightarrow> nat list \<Rightarrow> nat list" where
  "add_page_counts crc32 hl [] counts = counts"
| "add_page_counts crc32 hl (page # pages) counts =
    add_page_counts crc32 hl pages
      (case live_type_counts_in_page crc32 page hl of
         Inr page_counts \<Rightarrow> map2 (+) counts page_counts
       | Inl _ \<Rightarrow> counts)"

definition build_page_type_counts :: "(bytes \<Rightarrow> u32) \<Rightarrow> bytes list \<Rightarrow> hash_algorithm \<Rightarrow> nat list" where
  "build_page_type_counts crc32 pages a = add_page_counts crc32 (hash_length a) pages (replicate 16 0)"

fun add_buffer_counts :: "kv_entry list \<Rightarrow> nat list \<Rightarrow> nat list" where
  "add_buffer_counts [] counts = counts"
| "add_buffer_counts (e # es) counts =
    add_buffer_counts es
      (if is_deleted e then counts
       else counts[unat (kv_entry_type e) := counts ! unat (kv_entry_type e) + 1])"

definition build_buffer_type_counts :: "kv_buffer \<Rightarrow> nat list" where
  "build_buffer_type_counts buffer = add_buffer_counts (buffer_values buffer) (replicate 16 0)"

definition read_snapshot_new_with_page_type_counts ::
  "kv_buffer \<Rightarrow> hash_converter normalized_vector_table \<Rightarrow> nat \<Rightarrow> hash_algorithm \<Rightarrow> nat \<Rightarrow> bytes list \<Rightarrow>
    nat list \<Rightarrow> read_snapshot" where
  "read_snapshot_new_with_page_type_counts buffer nvt bucket_count a entry_count pages page_type_counts =
    \<lparr> rs_buffer = buffer, rs_nvt = nvt, rs_bucket_count = bucket_count, rs_hash_algo = a,
      rs_entry_count = entry_count, rs_pages = pages, rs_page_type_counts = page_type_counts,
      rs_buffer_type_counts = build_buffer_type_counts buffer \<rparr>"

definition read_snapshot_new ::
  "(bytes \<Rightarrow> u32) \<Rightarrow> kv_buffer \<Rightarrow> hash_converter normalized_vector_table \<Rightarrow> nat \<Rightarrow> hash_algorithm \<Rightarrow> nat \<Rightarrow>
    bytes list \<Rightarrow> read_snapshot" where
  "read_snapshot_new crc32 buffer nvt bucket_count a entry_count pages =
    read_snapshot_new_with_page_type_counts buffer nvt bucket_count a entry_count pages
      (build_page_type_counts crc32 pages a)"

definition rs_read_from_disk :: "(bytes \<Rightarrow> u32) \<Rightarrow> read_snapshot \<Rightarrow> bytes \<Rightarrow> bool \<Rightarrow> kv_entry option" where
  "rs_read_from_disk crc32 s hash include_deleted =
    (let bucket_index = bucket_for_value hash_converter_to_scalar (rs_nvt s) hash in
     if bucket_index \<ge> rs_bucket_count s \<or> bucket_index \<ge> length (rs_pages s) then None
     else case find_entry_in_page_data crc32 (rs_pages s ! bucket_index) (hash_length (rs_hash_algo s))
         hash include_deleted of
       Inr r \<Rightarrow> r
     | Inl _ \<Rightarrow> None)"

definition rs_get :: "(bytes \<Rightarrow> u32) \<Rightarrow> read_snapshot \<Rightarrow> bytes \<Rightarrow> kv_entry option" where
  "rs_get crc32 s hash =
    (case map_of (rs_buffer s) hash of
       Some entry \<Rightarrow> if is_deleted entry then None else Some entry
     | None \<Rightarrow> rs_read_from_disk crc32 s hash False)"

definition rs_get_raw :: "(bytes \<Rightarrow> u32) \<Rightarrow> read_snapshot \<Rightarrow> bytes \<Rightarrow> kv_entry option" where
  "rs_get_raw crc32 s hash =
    (case map_of (rs_buffer s) hash of
       Some entry \<Rightarrow> Some entry
     | None \<Rightarrow> rs_read_from_disk crc32 s hash True)"

text \<open>The entries of all pages that decode; corrupt pages count as empty.\<close>

definition pages_entries :: "(bytes \<Rightarrow> u32) \<Rightarrow> nat \<Rightarrow> bytes list \<Rightarrow> kv_entry list" where
  "pages_entries crc32 hl pages =
    concat (map (\<lambda>page. case deserialize_page crc32 page hl of Inr es \<Rightarrow> es | Inl _ \<Rightarrow> []) pages)"

definition rs_iter_by_type :: "(bytes \<Rightarrow> u32) \<Rightarrow> read_snapshot \<Rightarrow> u8 \<Rightarrow> kv_entry list" where
  "rs_iter_by_type crc32 s target_type =
    filter (\<lambda>e. kv_entry_type e = target_type \<and> \<not> is_deleted e \<and> map_of (rs_buffer s) (kv_hash e) = None)
      (pages_entries crc32 (hash_length (rs_hash_algo s)) (rs_pages s)) @
    filter (\<lambda>e. kv_entry_type e = target_type \<and> \<not> is_deleted e) (buffer_values (rs_buffer s))"

fun count_buffer ::
  "(bytes \<Rightarrow> kv_entry option) \<Rightarrow> u8 \<Rightarrow> kv_buffer \<Rightarrow> nat \<Rightarrow> nat" where
  "count_buffer on_disk target_type [] count = count"
| "count_buffer on_disk target_type ((hash, buffered) # rest) count =
    (let count1 = (case on_disk hash of
           Some page_entry \<Rightarrow> if kv_entry_type page_entry = target_type then count - 1 else count
         | None \<Rightarrow> count);
         count2 = (if \<not> is_deleted buffered \<and> kv_entry_type buffered = target_type then count1 + 1 else count1) in
     count_buffer on_disk target_type rest count2)"

definition rs_count_by_type :: "(bytes \<Rightarrow> u32) \<Rightarrow> read_snapshot \<Rightarrow> u8 \<Rightarrow> nat" where
  "rs_count_by_type crc32 s target_type =
    count_buffer (\<lambda>hash. rs_read_from_disk crc32 s hash False) target_type (rs_buffer s)
      (rs_page_type_counts s ! unat (target_type AND 0x0F))"

definition rs_iter_all :: "(bytes \<Rightarrow> u32) \<Rightarrow> read_snapshot \<Rightarrow> kv_entry list" where
  "rs_iter_all crc32 s =
    filter (\<lambda>e. \<not> is_deleted e \<and> map_of (rs_buffer s) (kv_hash e) = None)
      (pages_entries crc32 (hash_length (rs_hash_algo s)) (rs_pages s)) @
    filter (\<lambda>e. \<not> is_deleted e) (buffer_values (rs_buffer s))"

definition rs_is_deleted_in_buffer :: "read_snapshot \<Rightarrow> bytes \<Rightarrow> bool" where
  "rs_is_deleted_in_buffer s hash =
    (case map_of (rs_buffer s) hash of Some e \<Rightarrow> is_deleted e | None \<Rightarrow> False)"

section \<open>Pages that hold their buckets\<close>

text \<open>
  Page \<open>b\<close> decodes to entries with distinct hashes of the right length that all belong in bucket \<open>b\<close>.
\<close>

definition page_holds :: "(bytes \<Rightarrow> u32) \<Rightarrow> nat \<Rightarrow> nat \<Rightarrow> nat \<Rightarrow> bytes \<Rightarrow> kv_entry list \<Rightarrow> bool" where
  "page_holds crc32 hl n b page es \<longleftrightarrow> deserialize_page crc32 page hl = Inr es \<and> page_ok hl es \<and>
    (\<forall>e\<in>set es. hash_bucket n (kv_hash e) = b)"

definition pages_ok :: "(bytes \<Rightarrow> u32) \<Rightarrow> nat \<Rightarrow> bytes list \<Rightarrow> bool" where
  "pages_ok crc32 hl pages \<longleftrightarrow> 0 < length pages \<and>
    (\<forall>b<length pages. \<exists>es. page_holds crc32 hl (length pages) b (pages ! b) es)"

definition pages_map :: "(bytes \<Rightarrow> u32) \<Rightarrow> nat \<Rightarrow> bytes list \<Rightarrow> bytes \<Rightarrow> kv_entry option" where
  "pages_map crc32 hl pages = kmap kv_hash (pages_entries crc32 hl pages)"

definition live :: "kv_entry option \<Rightarrow> kv_entry option" where
  "live r = (case r of None \<Rightarrow> None | Some e \<Rightarrow> if is_deleted e then None else Some e)"

lemma pages_entries_nth:
  assumes "b < length pages" "page_holds crc32 hl n b (pages ! b) es" "e \<in> set es"
  shows "e \<in> set (pages_entries crc32 hl pages)"
  using assms by (force simp: pages_entries_def page_holds_def intro!: bexI [of _ "pages ! b"])

lemma pages_entries_elim:
  assumes "pages_ok crc32 hl pages" "e \<in> set (pages_entries crc32 hl pages)"
  obtains b es where "b < length pages" "page_holds crc32 hl (length pages) b (pages ! b) es" "e \<in> set es"
proof -
  from assms(2) obtain page where "page \<in> set pages"
      "e \<in> set (case deserialize_page crc32 page hl of Inr es \<Rightarrow> es | Inl _ \<Rightarrow> [])"
    by (auto simp: pages_entries_def)
  then obtain b where b: "b < length pages"
      "e \<in> set (case deserialize_page crc32 (pages ! b) hl of Inr es \<Rightarrow> es | Inl _ \<Rightarrow> [])"
    by (auto simp: in_set_conv_nth)
  moreover obtain es where "page_holds crc32 hl (length pages) b (pages ! b) es"
    using assms(1) b(1) by (auto simp: pages_ok_def)
  ultimately show thesis using that by (auto simp: page_holds_def)
qed

lemma distinct_pages_entries:
  assumes "pages_ok crc32 hl pages"
  shows "distinct (map kv_hash (pages_entries crc32 hl pages))"
proof -
  let ?dec = "\<lambda>page. case deserialize_page crc32 page hl of Inr es \<Rightarrow> es | Inl _ \<Rightarrow> []"
  have "distinct (map kv_hash (concat (map ?dec (take k pages)))) \<and>
      (\<forall>e\<in>set (concat (map ?dec (take k pages))). hash_bucket (length pages) (kv_hash e) < k)"
    if "k \<le> length pages" for k
    using that
  proof (induction k)
    case 0
    then show ?case by simp
  next
    case (Suc k)
    then have k: "k < length pages" by simp
    obtain es where es: "page_holds crc32 hl (length pages) k (pages ! k) es"
      using assms k unfolding pages_ok_def by blast
    then have dec: "?dec (pages ! k) = es" by (simp add: page_holds_def)
    have "take (Suc k) pages = take k pages @ [pages ! k]"
      using Suc.prems by (simp add: take_Suc_conv_app_nth)
    then have split: "concat (map ?dec (take (Suc k) pages)) = concat (map ?dec (take k pages)) @ es"
      using dec by simp
    have "distinct (map kv_hash es)" "\<forall>e\<in>set es. hash_bucket (length pages) (kv_hash e) = k"
      using es by (simp_all add: page_holds_def page_ok_def)
    moreover define A where "A = concat (map ?dec (take k pages))"
    moreover have "distinct (map kv_hash A)" "\<forall>e\<in>set A. hash_bucket (length pages) (kv_hash e) < k"
      unfolding A_def using Suc.IH k by simp_all
    ultimately have "distinct (map kv_hash (A @ es)) \<and>
        (\<forall>e\<in>set (A @ es). hash_bucket (length pages) (kv_hash e) < Suc k)"
      by (fastforce simp: less_Suc_eq)
    then show ?case unfolding split A_def .
  qed
  from this [of "length pages"] show ?thesis by (simp add: pages_entries_def)
qed

lemma pages_map_bucket:
  assumes "pages_ok crc32 hl pages" "b = hash_bucket (length pages) h"
    "page_holds crc32 hl (length pages) b (pages ! b) es"
  shows "pages_map crc32 hl pages h = kmap kv_hash es h"
proof -
  have b: "b < length pages"
    using assms by (simp add: pages_ok_def hash_bucket_less)
  have d: "distinct (map kv_hash es)" using assms(3) by (simp add: page_holds_def page_ok_def)
  note D = distinct_pages_entries [OF assms(1)]
  show ?thesis
  proof (cases "kmap kv_hash es h")
    case (Some e)
    then have "e \<in> set (pages_entries crc32 hl pages)" "kv_hash e = h"
      using pages_entries_nth [OF b assms(3)] by (auto dest: kmap_SomeD)
    then show ?thesis using Some kmap_Some_iff [OF D] by (simp add: pages_map_def)
  next
    case None
    have "h \<notin> kv_hash ` set (pages_entries crc32 hl pages)"
    proof
      assume "h \<in> kv_hash ` set (pages_entries crc32 hl pages)"
      then obtain e where e: "e \<in> set (pages_entries crc32 hl pages)" "kv_hash e = h" by auto
      obtain c fs where c: "c < length pages" "page_holds crc32 hl (length pages) c (pages ! c) fs" "e \<in> set fs"
        using pages_entries_elim [OF assms(1) e(1)] .
      then have "c = b" using e(2) assms(2) by (auto simp: page_holds_def)
      then have "e \<in> set es" using c assms(3) by (simp add: page_holds_def)
      then show False using None e(2) by (auto simp: kmap_None_iff)
    qed
    then have "kmap kv_hash (pages_entries crc32 hl pages) h = None" by (simp add: kmap_None_iff)
    then show ?thesis using None by (simp add: pages_map_def)
  qed
qed

definition rs_ok :: "(bytes \<Rightarrow> u32) \<Rightarrow> read_snapshot \<Rightarrow> bool" where
  "rs_ok crc32 s \<longleftrightarrow> pages_ok crc32 (hash_length (rs_hash_algo s)) (rs_pages s) \<and>
    rs_bucket_count s = length (rs_pages s) \<and> nvt_bucket_count (rs_nvt s) = length (rs_pages s)"

lemma rs_read_from_disk_map:
  assumes "rs_ok crc32 s"
  shows "rs_read_from_disk crc32 s h incl =
    (let r = pages_map crc32 (hash_length (rs_hash_algo s)) (rs_pages s) h in if incl then r else live r)"
proof -
  let ?hl = "hash_length (rs_hash_algo s)" and ?n = "length (rs_pages s)"
  have ok: "pages_ok crc32 ?hl (rs_pages s)" "rs_bucket_count s = ?n" "nvt_bucket_count (rs_nvt s) = ?n"
    using assms by (simp_all add: rs_ok_def)
  define b where "b = hash_bucket ?n h"
  have b: "b < ?n" using ok(1) by (simp add: b_def pages_ok_def hash_bucket_less)
  then obtain es where es: "page_holds crc32 ?hl ?n b (rs_pages s ! b) es"
    using ok(1) by (auto simp: pages_ok_def)
  have bk: "bucket_for_value hash_converter_to_scalar (rs_nvt s) h = b"
    by (simp add: bucket_for_value_def hash_converter_to_scalar_def ok(3) b_def hash_bucket_def)
  have "find_entry_in_page_data crc32 (rs_pages s ! b) ?hl h incl = Inr (page_lookup es h incl)"
    using es by (simp add: find_entry_in_page_data_lookup page_holds_def)
  then have "rs_read_from_disk crc32 s h incl = page_lookup es h incl"
    using b by (simp add: rs_read_from_disk_def bk ok(2) Let_def)
  also have "\<dots> = (let r = kmap kv_hash es h in if incl then r else live r)"
    by (auto simp: page_lookup_def live_def Let_def split: option.splits)
  finally show ?thesis using pages_map_bucket [OF ok(1) b_def es] by simp
qed

lemma rs_get_overlay:
  assumes "rs_ok crc32 s"
  shows "rs_get_raw crc32 s = pages_map crc32 (hash_length (rs_hash_algo s)) (rs_pages s) ++ map_of (rs_buffer s)"
    and "rs_get crc32 s h = live (rs_get_raw crc32 s h)"
  using rs_read_from_disk_map [OF assms]
  by (auto simp: rs_get_raw_def rs_get_def map_add_def live_def Let_def fun_eq_iff split: option.splits)

section \<open>Counting by type\<close>

lemma live_type_counts_page:
  assumes "t < 16"
  shows "case live_type_counts_in_page crc page hl of
      Inr c \<Rightarrow> length c = 16 \<and>
        c ! t = length (filter (live_of_type t) (case deserialize_page crc page hl of Inr es \<Rightarrow> es | Inl _ \<Rightarrow> []))
    | Inl _ \<Rightarrow> \<exists>err. deserialize_page crc page hl = Inl err"
proof (cases "validated_entry_count crc page hl")
  case (Inl a)
  then show ?thesis by (simp add: live_type_counts_in_page_def deserialize_page_def)
next
  case (Inr c)
  show ?thesis
  proof (cases c)
    case None
    then show ?thesis
      using Inr assms by (simp add: live_type_counts_in_page_def deserialize_page_def)
  next
    case (Some k)
    then show ?thesis
      using Inr assms live_type_loop_counts [of "replicate 16 0" t page hl "[0..<k]"]
      by (simp add: live_type_counts_in_page_def deserialize_page_def)
  qed
qed

lemma add_page_counts_nth:
  assumes "length counts = 16" "t < 16"
  shows "length (add_page_counts crc32 hl pages counts) = 16 \<and>
    add_page_counts crc32 hl pages counts ! t =
      counts ! t + length (filter (live_of_type t) (pages_entries crc32 hl pages))"
  using assms
proof (induction pages arbitrary: counts)
  case Nil
  then show ?case by (simp add: pages_entries_def)
next
  case (Cons page pages)
  let ?new = "case live_type_counts_in_page crc32 page hl of Inr pc \<Rightarrow> map2 (+) counts pc | Inl _ \<Rightarrow> counts"
  have "length ?new = 16 \<and> ?new ! t = counts ! t +
      length (filter (live_of_type t) (case deserialize_page crc32 page hl of Inr es \<Rightarrow> es | Inl _ \<Rightarrow> []))"
    using live_type_counts_page [OF Cons.prems(2), where crc = crc32 and page = page and hl = hl] Cons.prems
    by (auto split: sum.splits)
  then show ?case
    using Cons.IH [of ?new] Cons.prems(2) by (simp add: pages_entries_def)
qed

lemma count_buffer_exact:
  assumes "distinct (map kv_hash L)" "distinct (map fst buf)"
    and "\<forall>h\<in>fst ` set buf. (\<exists>e. od h = Some e \<and> kv_entry_type e = t) \<longleftrightarrow> h \<in> kv_hash ` set L"
  shows "count_buffer od t buf (length L + c) =
    length (filter (\<lambda>e. kv_hash e \<notin> fst ` set buf) L) + c +
    length (filter (\<lambda>e. kv_entry_type e = t \<and> \<not> is_deleted e) (buffer_values buf))"
  using assms
proof (induction buf arbitrary: L c)
  case Nil
  then show ?case by simp
next
  case (Cons hb buf)
  obtain h b where hb: "hb = (h, b)" by fastforce
  let ?L = "filter (\<lambda>e. kv_hash e \<noteq> h) L"
  let ?hit = "\<exists>e. od h = Some e \<and> kv_entry_type e = t"
  let ?c = "if \<not> is_deleted b \<and> kv_entry_type b = t then c + 1 else c"
  have len: "length L = length ?L + (if ?hit then 1 else 0)"
  proof -
    have "?hit \<longleftrightarrow> h \<in> kv_hash ` set L" using Cons.prems(3) hb by simp
    moreover have "length L = length ?L + (if h \<in> kv_hash ` set L then 1 else 0)"
      using Cons.prems(1)
    proof (induction L)
      case (Cons e L)
      then show ?case
        by (cases "kv_hash e = h") (auto simp: filter_id_conv)
    qed simp
    ultimately show ?thesis by simp
  qed
  have step: "count_buffer od t (hb # buf) (length L + c) = count_buffer od t buf (length ?L + ?c)"
    using len by (auto simp: hb Let_def split: option.splits)
  have "distinct (map kv_hash ?L)" using Cons.prems(1) by (rule distinct_map_filter)
  moreover have "h' \<in> kv_hash ` set ?L \<longleftrightarrow> h' \<in> kv_hash ` set L" if "h' \<in> fst ` set buf" for h'
  proof -
    have "h' \<noteq> h" using Cons.prems(2) that hb by auto
    then show ?thesis by auto
  qed
  then have "\<forall>h'\<in>fst ` set buf. (\<exists>e. od h' = Some e \<and> kv_entry_type e = t) \<longleftrightarrow> h' \<in> kv_hash ` set ?L"
    using Cons.prems(3) hb by simp
  ultimately have "count_buffer od t buf (length ?L + ?c) =
      length (filter (\<lambda>e. kv_hash e \<notin> fst ` set buf) ?L) + ?c +
      length (filter (\<lambda>e. kv_entry_type e = t \<and> \<not> is_deleted e) (buffer_values buf))"
    using Cons.prems(2) by (intro Cons.IH) auto
  then show ?case unfolding step by (auto simp: hb conj_commute)
qed

definition rs_counts_ok :: "(bytes \<Rightarrow> u32) \<Rightarrow> read_snapshot \<Rightarrow> bool" where
  "rs_counts_ok crc32 s \<longleftrightarrow> (\<forall>t<16. rs_page_type_counts s ! t =
    length (filter (live_of_type t) (pages_entries crc32 (hash_length (rs_hash_algo s)) (rs_pages s))))"

lemma read_snapshot_new_counts:
  "rs_counts_ok crc32 (read_snapshot_new crc32 buffer nvt n a c pages)"
  using add_page_counts_nth [of "replicate 16 0"]
  by (simp add: rs_counts_ok_def read_snapshot_new_def read_snapshot_new_with_page_type_counts_def
      build_page_type_counts_def)

lemma low_nibble_id:
  assumes "t < 16"
  shows "unat (word_of_nat t AND 0x0F :: u8) = t"
proof -
  have "word_of_nat t AND (0x0F :: u8) = take_bit 4 (word_of_nat t)"
    by (simp add: take_bit_eq_mask mask_numeral)
  then show ?thesis
    using assms by (simp add: take_bit_eq_mod unat_mod_distrib unat_of_nat)
qed

lemma rs_count_by_type_iter:
  assumes "rs_ok crc32 s" "rs_counts_ok crc32 s" "distinct (map fst (rs_buffer s))" "t < 16"
  shows "rs_count_by_type crc32 s (word_of_nat t) = length (rs_iter_by_type crc32 s (word_of_nat t))"
proof -
  let ?P = "pages_entries crc32 (hash_length (rs_hash_algo s)) (rs_pages s)"
  let ?t = "word_of_nat t :: u8"
  let ?L = "filter (live_of_type t) ?P"
  have ut: "unat ?t = t" using assms(4) by (simp add: unat_of_nat)
  have lt: "live_of_type t e \<longleftrightarrow> kv_entry_type e = ?t \<and> \<not> is_deleted e" for e
    using ut by (auto simp: live_of_type_def)
  have D: "distinct (map kv_hash ?P)" using assms(1) by (simp add: rs_ok_def distinct_pages_entries)
  have hit: "(\<exists>e. rs_read_from_disk crc32 s h False = Some e \<and> kv_entry_type e = ?t) \<longleftrightarrow> h \<in> kv_hash ` set ?L" for h
  proof -
    have "rs_read_from_disk crc32 s h False = live (kmap kv_hash ?P h)"
      using rs_read_from_disk_map [OF assms(1)] by (simp add: pages_map_def Let_def)
    then have "(\<exists>e. rs_read_from_disk crc32 s h False = Some e \<and> kv_entry_type e = ?t) \<longleftrightarrow>
        (\<exists>e. kmap kv_hash ?P h = Some e \<and> \<not> is_deleted e \<and> kv_entry_type e = ?t)"
      by (auto simp: live_def split: option.splits if_splits)
    also have "\<dots> \<longleftrightarrow> h \<in> kv_hash ` set ?L"
      unfolding kmap_Some_iff [OF D] by (auto simp: lt)
    finally show ?thesis .
  qed
  have idx: "rs_page_type_counts s ! unat (?t AND 0x0F) = length ?L"
    using assms(2,4) by (simp add: rs_counts_ok_def low_nibble_id)
  have "rs_count_by_type crc32 s ?t = length (filter (\<lambda>e. kv_hash e \<notin> fst ` set (rs_buffer s)) ?L) +
      length (filter (\<lambda>e. kv_entry_type e = ?t \<and> \<not> is_deleted e) (buffer_values (rs_buffer s)))"
    unfolding rs_count_by_type_def idx
    using count_buffer_exact [OF distinct_map_filter [OF D] assms(3), where c = 0 and t = ?t] hit by simp
  moreover have "filter (\<lambda>e. kv_hash e \<notin> fst ` set (rs_buffer s)) ?L =
      filter (\<lambda>e. kv_entry_type e = ?t \<and> \<not> is_deleted e \<and> map_of (rs_buffer s) (kv_hash e) = None) ?P"
    by (auto simp: lt map_of_eq_None_iff intro!: filter_cong)
  ultimately show ?thesis by (simp add: rs_iter_by_type_def)
qed

section \<open>Properties\<close>

text \<open>
  C20: A snapshot lookup is the frozen buffer laid over the frozen pages: with pages that hold their
  buckets, \<open>rs_get\<close> returns the buffered entry if there is one and it is not deleted, and otherwise
  the entry that the decoded pages hold under the hash, wherever it stands, unless it is deleted.
\<close>

theorem snapshot_lookup_overlay:
  assumes "rs_ok crc32 s"
  shows "rs_get crc32 s h =
    live ((kmap kv_hash (pages_entries crc32 (hash_length (rs_hash_algo s)) (rs_pages s)) ++
      map_of (rs_buffer s)) h)"
  using rs_get_overlay [OF assms] by (simp add: pages_map_def)

theorem snapshot_lookup_overlay_witness:
  "let e = \<lparr> kv_type_flags = 1, kv_hash = replicate 32 3, kv_offset = 5, kv_total_length = 6 \<rparr>;
       s = read_snapshot_new (\<lambda>_. 0) [(replicate 32 3, e)] (nvt_new HashConverter 1) 1 Blake3_256 1
             [replicate (page_size 32) 0] in
   rs_ok (\<lambda>_. 0) s \<and> rs_get (\<lambda>_. 0) s (replicate 32 3) = Some e"
proof -
  define e :: kv_entry where
    "e = \<lparr> kv_type_flags = 1, kv_hash = replicate 32 3, kv_offset = 5, kv_total_length = 6 \<rparr>"
  define s where "s = read_snapshot_new (\<lambda>_. 0) [(replicate 32 3, e)] (nvt_new HashConverter 1) 1 Blake3_256 1
             [replicate (page_size 32) 0]"
  have "page_holds (\<lambda>_. 0) 32 1 0 (replicate (page_size 32) 0) []"
    by (simp add: page_holds_def empty_page_reads_empty page_ok_def)
  then have ok: "rs_ok (\<lambda>_. 0) s"
    by (auto simp: rs_ok_def s_def read_snapshot_new_def read_snapshot_new_with_page_type_counts_def
        hash_length_def pages_ok_def nvt_bucket_count_def nvt_new_def)
  have "rs_buffer s = [(replicate 32 3, e)]"
    by (simp add: s_def read_snapshot_new_def read_snapshot_new_with_page_type_counts_def)
  moreover have "\<not> is_deleted e" by (simp add: e_def is_deleted_def KV_FLAG_DELETED_def)
  ultimately have "rs_get (\<lambda>_. 0) s (replicate 32 3) = Some e"
    using snapshot_lookup_overlay [OF ok, of "replicate 32 3"] by (simp add: live_def)
  then show ?thesis using ok unfolding s_def e_def Let_def by blast
qed

text \<open>
  \<open>rs_count_by_type\<close> never scans the pages, yet returns exactly the number of entries that the
  scan \<open>rs_iter_by_type\<close> returns: for each of the sixteen types, when the stored page counts are those of
  the pages.  In particular its saturating subtraction never saturates.
\<close>

theorem snapshot_count_exact:
  assumes "rs_ok crc32 s" and "rs_counts_ok crc32 s" and "distinct (map fst (rs_buffer s))" and "t < 16"
  shows "rs_count_by_type crc32 s (word_of_nat t) = length (rs_iter_by_type crc32 s (word_of_nat t))"
  using assms by (rule rs_count_by_type_iter)

theorem snapshot_count_exact_witness:
  "let e = \<lparr> kv_type_flags = 1, kv_hash = replicate 32 3, kv_offset = 5, kv_total_length = 6 \<rparr>;
       s = read_snapshot_new (\<lambda>_. 0) [(replicate 32 3, e)] (nvt_new HashConverter 1) 1 Blake3_256 1
             [replicate (page_size 32) 0] in
   rs_ok (\<lambda>_. 0) s \<and> rs_count_by_type (\<lambda>_. 0) s 1 = 1"
proof -
  define e :: kv_entry where
    "e = \<lparr> kv_type_flags = 1, kv_hash = replicate 32 3, kv_offset = 5, kv_total_length = 6 \<rparr>"
  define s where "s = read_snapshot_new (\<lambda>_. 0) [(replicate 32 3, e)] (nvt_new HashConverter 1) 1 Blake3_256 1
             [replicate (page_size 32) 0]"
  have "page_holds (\<lambda>_. 0) 32 1 0 (replicate (page_size 32) 0) []"
    by (simp add: page_holds_def empty_page_reads_empty page_ok_def)
  then have ok: "rs_ok (\<lambda>_. 0) s"
    by (auto simp: rs_ok_def s_def read_snapshot_new_def read_snapshot_new_with_page_type_counts_def
        hash_length_def pages_ok_def nvt_bucket_count_def nvt_new_def)
  have s: "rs_buffer s = [(replicate 32 3, e)]" "rs_pages s = [replicate (page_size 32) 0]" "rs_hash_algo s = Blake3_256"
    by (simp_all add: s_def read_snapshot_new_def read_snapshot_new_with_page_type_counts_def)
  have "pages_entries (\<lambda>_. 0) 32 [replicate (page_size 32) 0] = []"
    by (simp add: pages_entries_def empty_page_reads_empty)
  then have "length (rs_iter_by_type (\<lambda>_. 0) s 1) = 1"
    by (simp add: rs_iter_by_type_def s hash_length_def e_def kv_entry_type_def is_deleted_def KV_FLAG_DELETED_def)
  moreover have "rs_counts_ok (\<lambda>_. 0) s" unfolding s_def by (rule read_snapshot_new_counts)
  ultimately have "rs_count_by_type (\<lambda>_. 0) s 1 = 1"
    using snapshot_count_exact [OF ok, of 1] s by simp
  then show ?thesis using ok unfolding s_def e_def Let_def by blast
qed

end
