(* ===== verification/Disk_KV.thy ===== *)
theory Disk_KV
  imports KV_Snapshot
begin

text \<open>
  The disk-resident index (\<^verbatim>\<open>disk_kv_store.rs\<close>): bucket pages inside the database file, a write buffer, the
  hot tail behind the log, and the published read snapshot.  The database file is the list of its
  bytes; metrics and log output are left out.  An operation that fails returns the error, and the
  state it leaves behind is not tracked.
\<close>

unbundle bit_operations_syntax

definition WRITE_BUFFER_THRESHOLD :: nat where "WRITE_BUFFER_THRESHOLD = 512"
definition HOT_BUFFER_THRESHOLD :: nat where "HOT_BUFFER_THRESHOLD = 512"
definition CURRENT_KV_BLOCK_VERSION :: u8 where "CURRENT_KV_BLOCK_VERSION = 1"

record disk_kv_store =
  dk_nvt :: "hash_converter normalized_vector_table"
  dk_write_buffer :: kv_buffer
  dk_db_file :: bytes
  dk_kv_block_offset :: nat
  dk_kv_block_length :: nat
  dk_hot_tail_offset :: nat
  dk_hot_tail_enabled :: bool
  dk_stage :: nat
  dk_hash_algo :: hash_algorithm
  dk_entry_count :: nat
  dk_bucket_count :: nat
  dk_hot_buffer :: "kv_entry list"
  dk_snapshot :: read_snapshot
  dk_shared_nvt :: "hash_converter normalized_vector_table"
  dk_needs_rebuild :: bool
  dk_needs_expansion :: "nat option"
  dk_transaction_depth :: nat
  dk_pending_voids :: "void_record list"

abbreviation dk_hl :: "disk_kv_store \<Rightarrow> nat" where
  "dk_hl s \<equiv> hash_length (dk_hash_algo s)"

abbreviation dk_bucket :: "disk_kv_store \<Rightarrow> bytes \<Rightarrow> nat" where
  "dk_bucket s h \<equiv> bucket_for_value hash_converter_to_scalar (dk_nvt s) h"

section \<open>Voids\<close>

definition valid_void_range_for_layout :: "nat \<Rightarrow> nat \<Rightarrow> nat \<Rightarrow> nat \<Rightarrow> nat \<Rightarrow> bool" where
  "valid_void_range_for_layout kv_block_offset kv_block_length hot_tail_offset off sz =
    (if sz = 0 then False
     else let wal_start = min (kv_block_offset + kv_block_length) (2 ^ 64 - 1); end' = off + sz in
       if end' \<ge> 2 ^ 64 then False else off \<ge> wal_start \<and> end' \<le> hot_tail_offset)"

definition sanitize_pending_voids :: "disk_kv_store \<Rightarrow> disk_kv_store" where
  "sanitize_pending_voids s =
    s\<lparr> dk_pending_voids := filter (\<lambda>v. valid_void_range_for_layout (dk_kv_block_offset s)
         (dk_kv_block_length s) (dk_hot_tail_offset s) (unat (vr_offset v)) (unat (vr_size v)))
       (dk_pending_voids s) \<rparr>"

text \<open>\<^verbatim>\<open>build_merged_void_ranges\<close> and the overlap test by \<^verbatim>\<open>partition_point\<close>.\<close>

fun merge_ranges :: "(nat \<times> nat) list \<Rightarrow> (nat \<times> nat) list \<Rightarrow> (nat \<times> nat) list" where
  "merge_ranges merged [] = merged"
| "merge_ranges merged ((start, end') # rest) =
    (if merged \<noteq> [] \<and> start \<le> snd (last merged)
     then merge_ranges (butlast merged @ [(fst (last merged), max (snd (last merged)) end')]) rest
     else merge_ranges (merged @ [(start, end')]) rest)"

definition build_merged_void_ranges :: "void_record list \<Rightarrow> (nat \<times> nat) list" where
  "build_merged_void_ranges voids =
    (let ranges = List.map_filter (\<lambda>v. let off = unat (vr_offset v); sz = unat (vr_size v); end' = off + sz in
           if sz = 0 then None
           else if end' \<ge> 2 ^ 64 then None
           else if end' \<le> off then None
           else Some (off, end')) voids
     in merge_ranges [] (sort_key fst (sort_key snd ranges)))"

fun partition_point :: "('a \<Rightarrow> bool) \<Rightarrow> 'a list \<Rightarrow> nat" where
  "partition_point p [] = 0"
| "partition_point p (x # xs) = (if p x then Suc (partition_point p xs) else 0)"

definition entry_overlaps_void_ranges :: "nat \<Rightarrow> nat \<Rightarrow> (nat \<times> nat) list \<Rightarrow> bool" where
  "entry_overlaps_void_ranges entry_start entry_end void_ranges =
    (if entry_start \<ge> entry_end \<or> void_ranges = [] then False
     else let idx = partition_point (\<lambda>(_, void_end). void_end \<le> entry_start) void_ranges in
       idx < length void_ranges \<and> fst (void_ranges ! idx) < entry_end)"

section \<open>Creation and opening\<close>

definition page_at :: "bytes \<Rightarrow> nat \<Rightarrow> nat \<Rightarrow> nat \<Rightarrow> bytes option" where
  "page_at file kv_block_offset hl bucket =
    read_exact file (kv_block_offset + bucket_page_offset bucket hl) (page_size hl)"

definition write_page :: "bytes \<Rightarrow> nat \<Rightarrow> nat \<Rightarrow> nat \<Rightarrow> bytes \<Rightarrow> bytes" where
  "write_page file kv_block_offset hl bucket page =
    write_at file (kv_block_offset + bucket_page_offset bucket hl) page"

text \<open>Zeroed pages for buckets \<open>0 ..< n\<close>.\<close>

definition zero_pages :: "bytes \<Rightarrow> nat \<Rightarrow> nat \<Rightarrow> nat \<Rightarrow> bytes" where
  "zero_pages file kv_block_offset hl n =
    fold (\<lambda>b f. write_page f kv_block_offset hl b (replicate (page_size hl) 0)) [0..<n] file"

definition disk_kv_create ::
  "(bytes \<Rightarrow> u32) \<Rightarrow> bytes \<Rightarrow> hash_algorithm \<Rightarrow> nat \<Rightarrow> nat \<Rightarrow> nat \<Rightarrow> disk_kv_store" where
  "disk_kv_create crc32 db_file a kv_block_offset hot_tail_offset stage0 =
    (let stage = min stage0 (length KV_STAGE_SIZES - 1);
         hl = hash_length a;
         psize = page_size hl;
         (block_size, bucket_count) = stage_params stage psize;
         file1 = zero_pages db_file kv_block_offset hl bucket_count;
         nvt = nvt_new HashConverter bucket_count;
         pages = replicate bucket_count (replicate psize 0) in
     \<lparr> dk_nvt = nvt, dk_write_buffer = [], dk_db_file = file1,
       dk_kv_block_offset = kv_block_offset, dk_kv_block_length = block_size,
       dk_hot_tail_offset = hot_tail_offset, dk_hot_tail_enabled = True,
       dk_stage = stage, dk_hash_algo = a, dk_entry_count = 0, dk_bucket_count = bucket_count,
       dk_hot_buffer = [],
       dk_snapshot = read_snapshot_new crc32 [] nvt bucket_count a 0 pages,
       dk_shared_nvt = nvt, dk_needs_rebuild = False, dk_needs_expansion = None,
       dk_transaction_depth = 0, dk_pending_voids = [] \<rparr>)"

definition disk_kv_create_temp ::
  "(bytes \<Rightarrow> u32) \<Rightarrow> bytes \<Rightarrow> hash_algorithm \<Rightarrow> nat \<Rightarrow> nat \<Rightarrow> disk_kv_store" where
  "disk_kv_create_temp crc32 db_file a kv_block_offset stage =
    (disk_kv_create crc32 db_file a kv_block_offset 0 stage)\<lparr> dk_hot_tail_enabled := False \<rparr>"

text \<open>The entry counts of the page headers; an unreadable header counts nothing.\<close>

definition page_header_count :: "bytes \<Rightarrow> nat \<Rightarrow> nat \<Rightarrow> nat \<Rightarrow> nat" where
  "page_header_count file kv_block_offset hl bucket =
    (case read_exact file (kv_block_offset + bucket_page_offset bucket hl) PAGE_HEADER_SIZE of
       None \<Rightarrow> 0
     | Some header_buf \<Rightarrow>
         if (from_le_bytes (slice_at header_buf 0 4) :: u32) = PAGE_MAGIC
         then unat (from_le_bytes (slice_at header_buf (PAGE_HEADER_SIZE - 2) 2) :: u16) else 0)"

fun read_pages_strict :: "bytes \<Rightarrow> nat \<Rightarrow> nat \<Rightarrow> nat list \<Rightarrow> bytes list engine_result" where
  "read_pages_strict file kv_block_offset hl [] = Inr []"
| "read_pages_strict file kv_block_offset hl (b # bs) =
    res_bind (ok_or UnexpectedEof (page_at file kv_block_offset hl b)) (\<lambda>page.
      res_bind (read_pages_strict file kv_block_offset hl bs) (\<lambda>pages. Inr (page # pages)))"

text \<open>Mask the page entries that lie in reclaimed ranges with deleted buffer entries.\<close>

fun mask_voided ::
  "(nat \<times> nat) list \<Rightarrow> kv_entry list \<Rightarrow> kv_buffer \<Rightarrow> nat \<Rightarrow> kv_buffer \<times> nat" where
  "mask_voided ranges [] buffer voided = (buffer, voided)"
| "mask_voided ranges (entry # es) buffer voided =
    (if map_of buffer (kv_hash entry) \<noteq> None then mask_voided ranges es buffer voided
     else let entry_end = min (unat (kv_offset entry) + unat (kv_total_length entry)) (2 ^ 64 - 1) in
       if entry_overlaps_void_ranges (unat (kv_offset entry)) entry_end ranges
       then mask_voided ranges es
         (AList.update (kv_hash entry)
            (entry\<lparr> kv_type_flags := kv_type_flags entry OR KV_FLAG_DELETED \<rparr>) buffer) (voided + 1)
       else mask_voided ranges es buffer voided)"

definition disk_kv_open ::
  "(bytes \<Rightarrow> u32) \<Rightarrow> bytes \<Rightarrow> hash_algorithm \<Rightarrow> nat \<Rightarrow> nat \<Rightarrow> nat \<Rightarrow> kv_entry list \<Rightarrow> void_record list \<Rightarrow>
    u8 \<Rightarrow> disk_kv_store engine_result" where
  "disk_kv_open crc32 db_file a kv_block_offset hot_tail_offset stage0 hot_entries hot_voids kv_block_version =
    (if kv_block_version \<noteq> CURRENT_KV_BLOCK_VERSION then Inl (InvalidEntryVersion kv_block_version)
     else let stage = min stage0 (length KV_STAGE_SIZES - 1);
              hl = hash_length a;
              (block_size, bucket_count) = stage_params stage (page_size hl);
              entry_count = sum_list (map (page_header_count db_file kv_block_offset hl) [0..<bucket_count]);
              nvt = nvt_new HashConverter bucket_count in
       res_bind (read_pages_strict db_file kv_block_offset hl [0..<bucket_count]) (\<lambda>pages.
         let corrupt = list_ex (\<lambda>page. case deserialize_page crc32 page hl of Inl _ \<Rightarrow> True | Inr _ \<Rightarrow> False) pages;
             buffer0 = fold (\<lambda>e m. AList.update (kv_hash e) e m) hot_entries [];
             hot_count = length buffer0;
             ranges = build_merged_void_ranges hot_voids;
             (buffer, voided) =
               (if hot_voids = [] then (buffer0, 0)
                else mask_voided ranges (pages_entries crc32 hl pages) buffer0 0);
             effective_entry_count = (entry_count - voided) + hot_count in
         Inr \<lparr> dk_nvt = nvt, dk_write_buffer = buffer, dk_db_file = db_file,
           dk_kv_block_offset = kv_block_offset, dk_kv_block_length = block_size,
           dk_hot_tail_offset = hot_tail_offset, dk_hot_tail_enabled = True,
           dk_stage = stage, dk_hash_algo = a, dk_entry_count = effective_entry_count,
           dk_bucket_count = bucket_count, dk_hot_buffer = [],
           dk_snapshot = read_snapshot_new crc32 buffer nvt bucket_count a effective_entry_count pages,
           dk_shared_nvt = nvt, dk_needs_rebuild = corrupt, dk_needs_expansion = None,
           dk_transaction_depth = 0, dk_pending_voids = hot_voids \<rparr>))"

section \<open>Lookup and publishing\<close>

definition disk_kv_get :: "(bytes \<Rightarrow> u32) \<Rightarrow> disk_kv_store \<Rightarrow> bytes \<Rightarrow> kv_entry option" where
  "disk_kv_get crc32 s hash =
    (case map_of (dk_write_buffer s) hash of
       Some entry \<Rightarrow> if is_deleted entry then None else Some entry
     | None \<Rightarrow>
         (case page_at (dk_db_file s) (dk_kv_block_offset s) (dk_hl s) (dk_bucket s hash) of
            None \<Rightarrow> None
          | Some page_data \<Rightarrow>
              (case deserialize_page crc32 page_data (dk_hl s) of
                 Inl _ \<Rightarrow> None
               | Inr entries \<Rightarrow> find_in_page entries hash)))"

definition read_all_pages :: "disk_kv_store \<Rightarrow> bytes list" where
  "read_all_pages s =
    map (\<lambda>b. case page_at (dk_db_file s) (dk_kv_block_offset s) (dk_hl s) b of
           Some page \<Rightarrow> page | None \<Rightarrow> replicate (page_size (dk_hl s)) 0)
      [0..<dk_bucket_count s]"

definition publish_buffer_only :: "disk_kv_store \<Rightarrow> disk_kv_store" where
  "publish_buffer_only s =
    s\<lparr> dk_snapshot := read_snapshot_new_with_page_type_counts (dk_write_buffer s) (dk_shared_nvt s)
         (dk_bucket_count s) (dk_hash_algo s) (dk_entry_count s)
         (rs_pages (dk_snapshot s)) (rs_page_type_counts (dk_snapshot s)) \<rparr>"

definition publish_full_snapshot :: "(bytes \<Rightarrow> u32) \<Rightarrow> disk_kv_store \<Rightarrow> disk_kv_store" where
  "publish_full_snapshot crc32 s =
    s\<lparr> dk_snapshot := read_snapshot_new crc32 (dk_write_buffer s) (dk_shared_nvt s) (dk_bucket_count s)
         (dk_hash_algo s) (dk_entry_count s) (read_all_pages s) \<rparr>"

definition publish_full_snapshot_with_new_nvt :: "(bytes \<Rightarrow> u32) \<Rightarrow> disk_kv_store \<Rightarrow> disk_kv_store" where
  "publish_full_snapshot_with_new_nvt crc32 s = publish_full_snapshot crc32 (s\<lparr> dk_shared_nvt := dk_nvt s \<rparr>)"

definition page_counts_or_zero :: "(bytes \<Rightarrow> u32) \<Rightarrow> bytes \<Rightarrow> nat \<Rightarrow> nat list" where
  "page_counts_or_zero crc32 page hl =
    (case live_type_counts_in_page crc32 page hl of Inr c \<Rightarrow> c | Inl _ \<Rightarrow> replicate 16 0)"

fun republish_buckets ::
  "(bytes \<Rightarrow> u32) \<Rightarrow> disk_kv_store \<Rightarrow> nat list \<Rightarrow> bytes list \<Rightarrow> nat list \<Rightarrow> bytes list \<times> nat list" where
  "republish_buckets crc32 s [] pages counts = (pages, counts)"
| "republish_buckets crc32 s (bucket # rest) pages counts =
    (if bucket < length pages then
       (let hl = dk_hl s;
            old_counts = page_counts_or_zero crc32 (pages ! bucket) hl;
            page_data = (case page_at (dk_db_file s) (dk_kv_block_offset s) hl bucket of
               Some page \<Rightarrow> page | None \<Rightarrow> replicate (page_size hl) 0);
            new_counts = page_counts_or_zero crc32 page_data hl in
        republish_buckets crc32 s rest (pages[bucket := page_data])
          (map (\<lambda>i. (counts ! i - old_counts ! i) + new_counts ! i) [0..<length counts]))
     else republish_buckets crc32 s rest pages counts)"

definition publish_snapshot_incremental ::
  "(bytes \<Rightarrow> u32) \<Rightarrow> disk_kv_store \<Rightarrow> nat list \<Rightarrow> disk_kv_store" where
  "publish_snapshot_incremental crc32 s modified_buckets =
    (let s1 = (if nvt_bucket_count (dk_shared_nvt s) \<noteq> nvt_bucket_count (dk_nvt s)
               then s\<lparr> dk_shared_nvt := dk_nvt s \<rparr> else s);
         (new_pages, new_counts) = republish_buckets crc32 s1 modified_buckets
            (rs_pages (dk_snapshot s1)) (rs_page_type_counts (dk_snapshot s1)) in
     s1\<lparr> dk_snapshot := read_snapshot_new_with_page_type_counts (dk_write_buffer s1) (dk_shared_nvt s1)
          (dk_bucket_count s1) (dk_hash_algo s1) (dk_entry_count s1) new_pages new_counts \<rparr>)"

section \<open>Flushing to pages\<close>

text \<open>The buffered entries by bucket, in the order the buckets are first met.\<close>

definition group_by_bucket :: "(kv_entry \<Rightarrow> nat) \<Rightarrow> kv_entry list \<Rightarrow> (nat \<times> kv_entry list) list" where
  "group_by_bucket bkt es =
    fold (\<lambda>e m. AList.update (bkt e)
      (case map_of m (bkt e) of None \<Rightarrow> [e] | Some l \<Rightarrow> l @ [e]) m) es []"

fun upsert_all :: "kv_entry list \<Rightarrow> kv_entry list \<Rightarrow> kv_entry list \<Rightarrow> kv_entry list \<times> kv_entry list" where
  "upsert_all existing [] overflow = (existing, overflow)"
| "upsert_all existing (entry # rest) overflow =
    (let (existing', fits) = upsert_in_page existing entry in
     upsert_all existing' rest (if fits then overflow else overflow @ [entry]))"

text \<open>
  One round of the page loop of \<^verbatim>\<open>flush\<close> and \<^verbatim>\<open>flush_no_snapshot\<close>: read the page, reset it when it is
  corrupt, merge the entries, write it back.  The state is the file, the rebuild flag and the
  entries that did not fit.
\<close>

definition flush_bucket ::
  "(bytes \<Rightarrow> u32) \<Rightarrow> nat \<Rightarrow> nat \<Rightarrow> nat \<times> kv_entry list \<Rightarrow> bytes \<times> bool \<times> kv_entry list \<Rightarrow>
    (bytes \<times> bool \<times> kv_entry list) engine_result" where
  "flush_bucket crc32 kv_block_offset hl grp st =
    (let (bucket, new_entries) = grp; (file, rebuild, overflow) = st in
     res_bind (ok_or UnexpectedEof (page_at file kv_block_offset hl bucket)) (\<lambda>page_data.
       let (file1, rebuild1, existing) =
             (case deserialize_page crc32 page_data hl of
                Inr entries \<Rightarrow> (file, rebuild, entries)
              | Inl _ \<Rightarrow> (write_page file kv_block_offset hl bucket (replicate (page_size hl) 0), True, []));
           (existing', overflow') = upsert_all existing new_entries overflow in
       Inr (write_page file1 kv_block_offset hl bucket (serialize_page crc32 existing' hl), rebuild1, overflow')))"

fun flush_groups ::
  "(bytes \<Rightarrow> u32) \<Rightarrow> nat \<Rightarrow> nat \<Rightarrow> (nat \<times> kv_entry list) list \<Rightarrow> bytes \<times> bool \<times> kv_entry list \<Rightarrow>
    (bytes \<times> bool \<times> kv_entry list) engine_result" where
  "flush_groups crc32 kv_block_offset hl [] st = Inr st"
| "flush_groups crc32 kv_block_offset hl (g # gs) st =
    res_bind (flush_bucket crc32 kv_block_offset hl g st) (flush_groups crc32 kv_block_offset hl gs)"

definition flush_pages ::
  "(bytes \<Rightarrow> u32) \<Rightarrow> disk_kv_store \<Rightarrow> (bytes \<times> bool \<times> kv_entry list) engine_result" where
  "flush_pages crc32 s =
    flush_groups crc32 (dk_kv_block_offset s) (dk_hl s)
      (group_by_bucket (\<lambda>e. dk_bucket s (kv_hash e)) (buffer_values (dk_write_buffer s)))
      (dk_db_file s, dk_needs_rebuild s, [])"

text \<open>Here the entries that did not fit are dropped: the result of \<^verbatim>\<open>upsert_in_page\<close> is ignored.\<close>

definition flush_no_snapshot :: "(bytes \<Rightarrow> u32) \<Rightarrow> disk_kv_store \<Rightarrow> disk_kv_store engine_result" where
  "flush_no_snapshot crc32 s =
    (if dk_write_buffer s = [] then Inr s
     else res_bind (flush_pages crc32 s) (\<lambda>(file, rebuild, _).
       Inr (s\<lparr> dk_db_file := file, dk_needs_rebuild := rebuild, dk_write_buffer := [] \<rparr>)))"

definition entry_exists_on_disk :: "(bytes \<Rightarrow> u32) \<Rightarrow> disk_kv_store \<Rightarrow> bytes \<Rightarrow> bool" where
  "entry_exists_on_disk crc32 s hash = (rs_get_raw crc32 (dk_snapshot s) hash \<noteq> None)"

text \<open>
  A failed flush inside the bulk insertion is only logged and the entries stay buffered; the pages it
  rewrote before the error, which only a file cut inside the block can raise, are not tracked.
\<close>

fun bulk_insert :: "(bytes \<Rightarrow> u32) \<Rightarrow> kv_entry list \<Rightarrow> disk_kv_store \<Rightarrow> disk_kv_store" where
  "bulk_insert crc32 [] s = s"
| "bulk_insert crc32 (entry # rest) s =
    (let s1 = (if map_of (dk_write_buffer s) (kv_hash entry) = None \<and> \<not> entry_exists_on_disk crc32 s (kv_hash entry)
               then s\<lparr> dk_entry_count := dk_entry_count s + 1 \<rparr> else s);
         s2 = s1\<lparr> dk_write_buffer := AList.update (kv_hash entry) entry (dk_write_buffer s1) \<rparr>;
         s3 = (if length (dk_write_buffer s2) \<ge> WRITE_BUFFER_THRESHOLD
               then (case flush_no_snapshot crc32 s2 of Inr s' \<Rightarrow> s' | Inl _ \<Rightarrow> s2) else s2) in
     bulk_insert crc32 rest s3)"

definition disk_kv_iter_all :: "(bytes \<Rightarrow> u32) \<Rightarrow> disk_kv_store \<Rightarrow> kv_entry list" where
  "disk_kv_iter_all crc32 s =
    (let page_entries = concat (map (\<lambda>b.
            case page_at (dk_db_file s) (dk_kv_block_offset s) (dk_hl s) b of
              None \<Rightarrow> []
            | Some page \<Rightarrow> (case deserialize_page crc32 page (dk_hl s) of Inr es \<Rightarrow> es | Inl _ \<Rightarrow> []))
           [0..<dk_bucket_count s]);
         all1 = fold (\<lambda>e m. AList.update (kv_hash e) e m) page_entries [];
         all2 = fold (\<lambda>(h, e) m. AList.update h e m) (dk_write_buffer s) all1 in
     filter (\<lambda>e. \<not> is_deleted e) (map snd all2))"

definition resize_to_next_stage :: "(bytes \<Rightarrow> u32) \<Rightarrow> disk_kv_store \<Rightarrow> disk_kv_store engine_result" where
  "resize_to_next_stage crc32 s =
    (let new_stage = min (dk_stage s + 1) (length KV_STAGE_SIZES - 1) in
     if new_stage = dk_stage s then Inl (IoError ''KV store at maximum stage'')
     else let hl = dk_hl s;
              new_bucket_count = snd (stage_params new_stage (page_size hl));
              new_pages_size = new_bucket_count * page_size hl in
       if new_pages_size > dk_kv_block_length s
       then Inr (s\<lparr> dk_needs_expansion := Some new_stage \<rparr>)
       else let all_entries = disk_kv_iter_all crc32 s;
                s1 = s\<lparr> dk_db_file := zero_pages (dk_db_file s) (dk_kv_block_offset s) hl new_bucket_count,
                        dk_stage := new_stage, dk_bucket_count := new_bucket_count,
                        dk_nvt := nvt_new HashConverter new_bucket_count, dk_entry_count := 0 \<rparr> in
         res_bind (flush_no_snapshot crc32 (bulk_insert crc32 all_entries s1)) (\<lambda>s2.
           Inr (publish_full_snapshot_with_new_nvt crc32 (s2\<lparr> dk_entry_count := length all_entries \<rparr>))))"

section \<open>The hot tail\<close>

text \<open>Write the payload at the hot-tail offset and cut the file behind it.\<close>

definition put_hot_tail :: "(bytes \<Rightarrow> u32) \<Rightarrow> disk_kv_store \<Rightarrow> kv_entry list \<Rightarrow> disk_kv_store" where
  "put_hot_tail crc32 s writes =
    (let s1 = sanitize_pending_voids s;
         payload = \<lparr> htp_writes = writes, htp_voids = dk_pending_voids s1 \<rparr>;
         (file1, end') = write_hot_tail crc32 (dk_db_file s1) (dk_hot_tail_offset s1) payload (dk_hl s1) in
     s1\<lparr> dk_db_file := set_len file1 end' \<rparr>)"

definition force_flush_hot_buffer :: "(bytes \<Rightarrow> u32) \<Rightarrow> disk_kv_store \<Rightarrow> disk_kv_store" where
  "force_flush_hot_buffer crc32 s =
    (if \<not> dk_hot_tail_enabled s then s
     else put_hot_tail crc32 s (buffer_values (dk_write_buffer s)))"

definition flush_hot_buffer :: "(bytes \<Rightarrow> u32) \<Rightarrow> disk_kv_store \<Rightarrow> disk_kv_store" where
  "flush_hot_buffer crc32 s =
    (if dk_hot_buffer s = [] \<or> \<not> dk_hot_tail_enabled s then s
     else (put_hot_tail crc32 s (buffer_values (dk_write_buffer s)))\<lparr> dk_hot_buffer := [] \<rparr>)"

definition set_pending_voids :: "disk_kv_store \<Rightarrow> void_record list \<Rightarrow> disk_kv_store" where
  "set_pending_voids s voids = sanitize_pending_voids (s\<lparr> dk_pending_voids := voids \<rparr>)"

definition emergency_hot_tail_payload :: "disk_kv_store \<Rightarrow> hot_tail_payload \<times> disk_kv_store" where
  "emergency_hot_tail_payload s =
    (let s1 = sanitize_pending_voids s in
     (\<lparr> htp_writes = buffer_values (dk_write_buffer s), htp_voids = dk_pending_voids s1 \<rparr>, s1))"

definition set_hot_tail_offset :: "disk_kv_store \<Rightarrow> nat \<Rightarrow> disk_kv_store" where
  "set_hot_tail_offset s off =
    (if off > dk_hot_tail_offset s then s\<lparr> dk_hot_tail_offset := off \<rparr> else s)"

section \<open>Flush\<close>

definition insert_overflow :: "kv_entry list \<Rightarrow> kv_buffer \<Rightarrow> kv_buffer" where
  "insert_overflow overflow buffer = fold (\<lambda>e m. AList.update (kv_hash e) e m) overflow buffer"

text \<open>
  One pass of \<^verbatim>\<open>flush\<close>: \<open>Inr (Inr s')\<close> when it returns, \<open>Inr (Inl s')\<close> when the stage was raised in place
  and the overflow, back in the buffer, is to be flushed again.
\<close>

definition flush_pass ::
  "(bytes \<Rightarrow> u32) \<Rightarrow> disk_kv_store \<Rightarrow> (disk_kv_store + disk_kv_store) engine_result" where
  "flush_pass crc32 s =
    (if dk_write_buffer s = [] then Inr (Inr s)
     else res_bind (flush_pages crc32 s) (\<lambda>(file, rebuild, overflow).
         let modified = map fst (group_by_bucket (\<lambda>e. dk_bucket s (kv_hash e)) (buffer_values (dk_write_buffer s)));
             s1 = s\<lparr> dk_db_file := file, dk_needs_rebuild := rebuild, dk_write_buffer := [] \<rparr> in
         if overflow \<noteq> [] then
           res_bind (resize_to_next_stage crc32 (publish_snapshot_incremental crc32 s1 modified)) (\<lambda>s2.
             let s3 = s2\<lparr> dk_write_buffer := insert_overflow overflow (dk_write_buffer s2) \<rparr> in
             if dk_stage s2 > dk_stage s then Inr (Inl s3)
             else let s4 = (if dk_hot_tail_enabled s3
                            then put_hot_tail crc32 s3 (buffer_values (dk_write_buffer s3)) else s3) in
               Inr (Inr (publish_buffer_only (publish_snapshot_incremental crc32 s4 modified))))
         else
           let s2 = flush_hot_buffer crc32 s1;
               s3 = (if dk_transaction_depth s2 = 0 \<and> dk_hot_tail_enabled s2 then put_hot_tail crc32 s2 [] else s2) in
           Inr (Inr (publish_snapshot_incremental crc32 s3 modified))))"

lemma flush_no_snapshot_stage:
  assumes "flush_no_snapshot crc32 s = Inr s'"
  shows "dk_stage s' = dk_stage s"
  using assms by (auto simp: flush_no_snapshot_def split: if_splits)

lemma bulk_insert_stage: "dk_stage (bulk_insert crc32 es s) = dk_stage s"
proof (induction es arbitrary: s)
  case (Cons e es)
  show ?case
    by (auto simp: Cons.IH Let_def dest!: flush_no_snapshot_stage split: sum.split)
qed simp

lemma resize_stage:
  assumes "resize_to_next_stage crc32 s = Inr s'"
  shows "dk_stage s' \<le> max (dk_stage s) (length KV_STAGE_SIZES - 1)"
proof -
  let ?new = "min (dk_stage s + 1) (length KV_STAGE_SIZES - 1)"
  have "dk_stage s' = dk_stage s \<or> dk_stage s' = ?new"
  proof (cases "snd (stage_params ?new (page_size (dk_hl s))) * page_size (dk_hl s) > dk_kv_block_length s")
    case True
    then show ?thesis using assms by (auto simp: resize_to_next_stage_def Let_def split: if_splits)
  next
    case False
    then show ?thesis
      using assms
      by (auto simp: resize_to_next_stage_def Let_def bulk_insert_stage publish_full_snapshot_with_new_nvt_def
          publish_full_snapshot_def simp del: bulk_insert.simps dest!: flush_no_snapshot_stage split: if_splits)
  qed
  then show ?thesis by auto
qed

lemma publish_incremental_stage [simp]:
  "dk_stage (publish_snapshot_incremental crc32 s bs) = dk_stage s"
  by (simp add: publish_snapshot_incremental_def Let_def split: prod.split)

lemma flush_pass_stage:
  assumes "flush_pass crc32 s = Inr (Inl s')"
  shows "dk_stage s < dk_stage s'" "dk_stage s' < length KV_STAGE_SIZES"
proof -
  have "0 < length KV_STAGE_SIZES" by (simp add: KV_STAGE_SIZES_def)
  then show "dk_stage s < dk_stage s'" "dk_stage s' < length KV_STAGE_SIZES"
    using assms
    by (auto simp: flush_pass_def Let_def split: if_splits dest!: resize_stage)
qed

lemma flush_pass_decreases:
  "flush_pass crc32 s = Inr (Inl s') \<Longrightarrow> length KV_STAGE_SIZES - dk_stage s' < length KV_STAGE_SIZES - dk_stage s"
  using flush_pass_stage [of crc32 s s'] by linarith

function flush :: "(bytes \<Rightarrow> u32) \<Rightarrow> disk_kv_store \<Rightarrow> disk_kv_store engine_result" where
  "flush crc32 s =
    (case flush_pass crc32 s of
       Inl err \<Rightarrow> Inl err
     | Inr (Inr s') \<Rightarrow> Inr s'
     | Inr (Inl s') \<Rightarrow> flush crc32 s')"
  by pat_completeness auto
termination
  by (relation "measure (\<lambda>(crc32, s). length KV_STAGE_SIZES - dk_stage s)")
     (simp_all add: flush_pass_decreases)

declare flush.simps [simp del]

section \<open>Updates\<close>

definition disk_kv_insert :: "(bytes \<Rightarrow> u32) \<Rightarrow> disk_kv_store \<Rightarrow> kv_entry \<Rightarrow> disk_kv_store engine_result" where
  "disk_kv_insert crc32 s entry =
    (let is_new = (map_of (dk_write_buffer s) (kv_hash entry) = None \<and>
           \<not> entry_exists_on_disk crc32 s (kv_hash entry));
         s1 = s\<lparr> dk_write_buffer := AList.update (kv_hash entry) entry (dk_write_buffer s) \<rparr>;
         s2 = (if is_new then s1\<lparr> dk_entry_count := dk_entry_count s1 + 1 \<rparr> else s1);
         s3 = (if dk_hot_tail_enabled s2 then
                 (let s' = s2\<lparr> dk_hot_buffer := dk_hot_buffer s2 @ [entry] \<rparr> in
                  if length (dk_hot_buffer s') \<ge> HOT_BUFFER_THRESHOLD then flush_hot_buffer crc32 s' else s')
               else s2) in
     if length (dk_write_buffer s3) \<ge> WRITE_BUFFER_THRESHOLD then flush crc32 s3
     else Inr (publish_buffer_only s3))"

definition disk_kv_contains :: "(bytes \<Rightarrow> u32) \<Rightarrow> disk_kv_store \<Rightarrow> bytes \<Rightarrow> bool" where
  "disk_kv_contains crc32 s hash = (disk_kv_get crc32 s hash \<noteq> None)"

definition mark_deleted :: "(bytes \<Rightarrow> u32) \<Rightarrow> disk_kv_store \<Rightarrow> bytes \<Rightarrow> disk_kv_store" where
  "mark_deleted crc32 s hash =
    (case disk_kv_get crc32 s hash of
       None \<Rightarrow> s
     | Some entry \<Rightarrow>
         publish_buffer_only
           (s\<lparr> dk_write_buffer := AList.update hash
                  (entry\<lparr> kv_type_flags := kv_type_flags entry OR KV_FLAG_DELETED \<rparr>) (dk_write_buffer s),
               dk_entry_count := dk_entry_count s - 1 \<rparr>))"

fun mark_deleted_loop :: "(bytes \<Rightarrow> u32) \<Rightarrow> read_snapshot \<Rightarrow> bytes list \<Rightarrow> disk_kv_store \<Rightarrow> disk_kv_store" where
  "mark_deleted_loop crc32 snapshot [] s = s"
| "mark_deleted_loop crc32 snapshot (hash # hashes) s =
    (let found = (case map_of (dk_write_buffer s) hash of
           Some buffered \<Rightarrow> if is_deleted buffered then None else Some buffered
         | None \<Rightarrow> (case rs_get_raw crc32 snapshot hash of
             Some snap_entry \<Rightarrow> if is_deleted snap_entry then None else Some snap_entry
           | None \<Rightarrow> None)) in
     mark_deleted_loop crc32 snapshot hashes
       (case found of
          None \<Rightarrow> s
        | Some entry \<Rightarrow>
            s\<lparr> dk_write_buffer := AList.update hash
                 (entry\<lparr> kv_type_flags := kv_type_flags entry OR KV_FLAG_DELETED \<rparr>) (dk_write_buffer s),
               dk_entry_count := dk_entry_count s - 1 \<rparr>))"

definition mark_deleted_batch :: "(bytes \<Rightarrow> u32) \<Rightarrow> disk_kv_store \<Rightarrow> bytes list \<Rightarrow> disk_kv_store" where
  "mark_deleted_batch crc32 s hashes = publish_buffer_only (mark_deleted_loop crc32 (dk_snapshot s) hashes s)"

definition clear_write_buffer :: "disk_kv_store \<Rightarrow> disk_kv_store" where
  "clear_write_buffer s = s\<lparr> dk_write_buffer := [] \<rparr>"

definition buffer_only :: "disk_kv_store \<Rightarrow> kv_entry \<Rightarrow> disk_kv_store" where
  "buffer_only s entry =
    (let is_new = (map_of (dk_write_buffer s) (kv_hash entry) = None);
         s1 = s\<lparr> dk_write_buffer := AList.update (kv_hash entry) entry (dk_write_buffer s) \<rparr> in
     if is_new then s1\<lparr> dk_entry_count := dk_entry_count s1 + 1 \<rparr> else s1)"

definition disk_kv_update_flags :: "(bytes \<Rightarrow> u32) \<Rightarrow> disk_kv_store \<Rightarrow> bytes \<Rightarrow> u8 \<Rightarrow> bool \<times> disk_kv_store" where
  "disk_kv_update_flags crc32 s hash new_flags =
    (case disk_kv_get crc32 s hash of
       None \<Rightarrow> (False, s)
     | Some entry \<Rightarrow>
         (let ty = kv_type_flags entry AND 0x0F in
          (True, publish_buffer_only (s\<lparr> dk_write_buffer := AList.update hash
             (entry\<lparr> kv_type_flags := ty OR (new_flags AND 0xF0) \<rparr>) (dk_write_buffer s) \<rparr>))))"

definition disk_kv_update_offset :: "(bytes \<Rightarrow> u32) \<Rightarrow> disk_kv_store \<Rightarrow> bytes \<Rightarrow> u64 \<Rightarrow> bool \<times> disk_kv_store" where
  "disk_kv_update_offset crc32 s hash new_offset =
    (case disk_kv_get crc32 s hash of
       None \<Rightarrow> (False, s)
     | Some entry \<Rightarrow>
         (True, publish_buffer_only (s\<lparr> dk_write_buffer := AList.update hash
             (entry\<lparr> kv_offset := new_offset \<rparr>) (dk_write_buffer s) \<rparr>)))"

definition adopt_snapshot_handle :: "(bytes \<Rightarrow> u32) \<Rightarrow> disk_kv_store \<Rightarrow> read_snapshot \<Rightarrow> disk_kv_store" where
  "adopt_snapshot_handle crc32 s snapshot = publish_full_snapshot crc32 (s\<lparr> dk_snapshot := snapshot \<rparr>)"

text \<open>
  \<^verbatim>\<open>finalize_expansion\<close>; \<open>None\<close> is a panic of the header codec.
\<close>

definition finalize_expansion ::
  "(bytes \<Rightarrow> u32) \<Rightarrow> disk_kv_store \<Rightarrow> nat \<Rightarrow> nat \<Rightarrow> nat \<Rightarrow> i64 \<Rightarrow> nat \<Rightarrow> void_record list \<Rightarrow>
    disk_kv_store engine_result option" where
  "finalize_expansion crc32 s target_stage old_kv_end relocation_end offset_delta new_hot_tail pending_voids =
    (let hl = dk_hl s;
         psize = page_size hl;
         (new_block_size, new_bucket_count) = stage_params target_stage psize;
         new_pages_size = new_bucket_count * psize;
         all_entries = disk_kv_iter_all crc32 s;
         file1 = zero_pages (dk_db_file s) (dk_kv_block_offset s) hl new_bucket_count;
         file2 = (if new_block_size > new_pages_size
                  then write_at file1 (dk_kv_block_offset s + new_pages_size)
                    (replicate (new_block_size - new_pages_size) 0)
                  else file1);
         s1 = s\<lparr> dk_db_file := file2, dk_kv_block_length := new_block_size, dk_stage := target_stage,
                 dk_bucket_count := new_bucket_count, dk_nvt := nvt_new HashConverter new_bucket_count,
                 dk_hot_tail_offset := new_hot_tail, dk_entry_count := 0,
                 dk_pending_voids := pending_voids, dk_write_buffer := [], dk_hot_buffer := [] \<rparr>;
         adjusted = map (\<lambda>e. if unat (kv_offset e) \<ge> old_kv_end \<and> unat (kv_offset e) < relocation_end
                              then e\<lparr> kv_offset := kv_offset e + offset_delta \<rparr> else e) all_entries in
     case flush_no_snapshot crc32 (bulk_insert crc32 adjusted s1) of
       Inl err \<Rightarrow> Some (Inl err)
     | Inr s2 \<Rightarrow>
         let s3 = put_hot_tail crc32 (s2\<lparr> dk_entry_count := length adjusted \<rparr>) [] in
         (case read_active_header crc32 (dk_db_file s3) of
            None \<Rightarrow> None
          | Some (Inl err) \<Rightarrow> Some (Inl err)
          | Some (Inr (header, active_slot)) \<Rightarrow>
              let header1 = header\<lparr> fh_kv_block_length := word_of_nat new_block_size,
                    fh_kv_block_stage := word_of_nat target_stage, fh_resize_in_progress := False,
                    fh_resize_target_stage := 0, fh_hot_tail_offset := word_of_nat new_hot_tail \<rparr> in
              (case write_header_to_inactive_slot crc32 (dk_db_file s3) header1 active_slot of
                 None \<Rightarrow> None
               | Some (file4, _) \<Rightarrow>
                   Some (Inr ((publish_full_snapshot_with_new_nvt crc32 (s3\<lparr> dk_db_file := file4 \<rparr>))
                     \<lparr> dk_needs_expansion := None \<rparr>)))))"

text \<open>Dropping the store flushes it; an error is only logged.\<close>

definition disk_kv_drop :: "(bytes \<Rightarrow> u32) \<Rightarrow> disk_kv_store \<Rightarrow> disk_kv_store engine_result" where
  "disk_kv_drop crc32 s = (if dk_write_buffer s \<noteq> [] then flush crc32 s else Inr s)"

end
