(* ===== verification/Disk_KV_Correct.thy ===== *)
theory Disk_KV_Correct
  imports Disk_KV
begin

text \<open>
  Correctness of the disk index: the layout invariant \<open>dk_ok\<close>, the abstract view \<open>dk_raw\<close> (a map from hashes
  to entries), and that every operation keeps the invariant and acts on the view as a map update,
  with flushes and hot-tail writes leaving it unchanged.
\<close>

section \<open>Pages in the file\<close>

definition file_pages :: "bytes \<Rightarrow> nat \<Rightarrow> nat \<Rightarrow> nat \<Rightarrow> bytes list" where
  "file_pages file off hl n = map (\<lambda>b. slice_at file (off + b * page_size hl) (page_size hl)) [0..<n]"

lemma length_file_pages [simp]: "length (file_pages file off hl n) = n"
  by (simp add: file_pages_def)

lemma page_size_pos: "0 < page_size hl"
  by (simp add: page_size_def page_consts)

lemma page_end_le:
  assumes "b < n"
  shows "off + b * page_size hl + page_size hl \<le> off + n * page_size hl"
proof -
  have "Suc b * page_size hl \<le> n * page_size hl" using assms by (intro mult_le_mono1) simp
  then show ?thesis by simp
qed

lemma page_at_file_pages:
  assumes "b < n" "off + n * page_size hl \<le> length f"
  shows "page_at f off hl b = Some (file_pages f off hl n ! b)"
proof -
  have "off + b * page_size hl + page_size hl \<le> length f"
    using page_end_le [OF assms(1), of off hl] assms(2) by linarith
  then show ?thesis
    using assms(1) by (simp add: page_at_def read_exact_def file_pages_def bucket_page_offset_def)
qed

lemma page_at_eq_pages:
  assumes "off + n * page_size hl \<le> length f" "off + n * page_size hl \<le> length g"
  shows "file_pages f off hl n = file_pages g off hl n \<longleftrightarrow> (\<forall>b<n. page_at f off hl b = page_at g off hl b)"
  using assms by (auto simp: page_at_file_pages list_eq_iff_nth_eq)

lemma pages_disjoint:
  assumes "b \<noteq> c"
  shows "b * page_size hl + page_size hl \<le> c * page_size hl \<or> c * page_size hl + page_size hl \<le> b * page_size hl"
proof (cases "b < c")
  case True
  then show ?thesis using page_end_le [of b c 0] by simp
next
  case False
  then have "c < b" using assms by simp
  then show ?thesis using page_end_le [of c b 0] by simp
qed

lemma write_page_pages:
  assumes "b < n" "off + n * page_size hl \<le> length f" "length p = page_size hl"
  shows "length (write_page f off hl b p) = length f"
    and "file_pages (write_page f off hl b p) off hl n = (file_pages f off hl n)[b := p]"
    and "off + n * page_size hl \<le> o2 \<Longrightarrow> o2 + m \<le> length f \<Longrightarrow>
      read_exact (write_page f off hl b p) o2 m = read_exact f o2 m"
    and "take off (write_page f off hl b p) = take off f"
proof -
  have e: "off + b * page_size hl + page_size hl \<le> off + n * page_size hl"
    using assms(1) by (rule page_end_le)
  show len: "length (write_page f off hl b p) = length f"
    using e assms by (simp add: write_page_def bucket_page_offset_def)
  show "file_pages (write_page f off hl b p) off hl n = (file_pages f off hl n)[b := p]"
  proof (rule nth_equalityI)
    fix c
    assume "c < length (file_pages (write_page f off hl b p) off hl n)"
    then have c: "c < n" by simp
    have ce: "off + c * page_size hl + page_size hl \<le> off + n * page_size hl"
      using c by (rule page_end_le)
    have "page_at (write_page f off hl b p) off hl c = Some ((file_pages f off hl n)[b := p] ! c)"
    proof (cases "c = b")
      case True
      then show ?thesis
        using assms c by (simp add: page_at_def write_page_def)
    next
      case False
      have "page_at (write_page f off hl b p) off hl c = page_at f off hl c"
        unfolding page_at_def write_page_def bucket_page_offset_def
        using pages_disjoint [OF False, of hl] ce assms by (intro read_write_other) auto
      then show ?thesis using False c page_at_file_pages [OF c assms(2)] by simp
    qed
    then show "file_pages (write_page f off hl b p) off hl n ! c = (file_pages f off hl n)[b := p] ! c"
      using page_at_file_pages [OF c, of off hl "write_page f off hl b p"] assms(2) len by simp
  qed simp
  show "read_exact (write_page f off hl b p) o2 m = read_exact f o2 m"
    if "off + n * page_size hl \<le> o2" "o2 + m \<le> length f"
    unfolding write_page_def bucket_page_offset_def
    using that e assms by (intro read_write_after) auto
  show "take off (write_page f off hl b p) = take off f"
    using e assms by (simp add: write_page_def write_at_def bucket_page_offset_def min_def)
qed

section \<open>Replacing one page\<close>

lemma pages_ok_update:
  assumes "pages_ok crc32 hl pages" "b < length pages" "page_holds crc32 hl (length pages) b p es"
  shows "pages_ok crc32 hl (pages[b := p])"
    and "pages_map crc32 hl (pages[b := p]) h =
      (if hash_bucket (length pages) h = b then kmap kv_hash es h else pages_map crc32 hl pages h)"
proof -
  let ?q = "pages[b := p]"
  show ok: "pages_ok crc32 hl ?q"
    using assms by (auto simp: pages_ok_def nth_list_update)
  define c where "c = hash_bucket (length pages) h"
  have c: "c < length pages" using assms(1) by (simp add: c_def pages_ok_def hash_bucket_less)
  show "pages_map crc32 hl ?q h =
      (if hash_bucket (length pages) h = b then kmap kv_hash es h else pages_map crc32 hl pages h)"
  proof (cases "c = b")
    case True
    then have "pages_map crc32 hl ?q h = kmap kv_hash es h"
      using pages_map_bucket [OF ok, of b h es] assms c_def by simp
    then show ?thesis using True c_def by simp
  next
    case False
    obtain fs where fs: "page_holds crc32 hl (length pages) c (pages ! c) fs"
      using assms(1) c by (auto simp: pages_ok_def)
    have "pages_map crc32 hl ?q h = kmap kv_hash fs h"
      using pages_map_bucket [OF ok, of c h fs] fs False c_def by simp
    moreover have "pages_map crc32 hl pages h = kmap kv_hash fs h"
      using pages_map_bucket [OF assms(1), of c h fs] fs c_def by simp
    ultimately show ?thesis using False c_def by simp
  qed
qed

lemma kmap_cons_absent:
  assumes "key e \<notin> key ` set es"
  shows "f(key e \<mapsto> e) ++ kmap key es = f ++ (kmap key es)(key e \<mapsto> e)"
proof -
  have "kmap key es (key e) = None" using assms by (simp add: kmap_None_iff)
  then show ?thesis by (auto simp: fun_eq_iff map_add_def split: option.splits)
qed

lemma upsert_in_page_length: "length existing \<le> length (fst (upsert_in_page existing e))"
proof (cases "replace_first existing e")
  case None
  then show ?thesis by (simp add: upsert_in_page_def)
next
  case (Some es')
  then have "map kv_hash es' = map kv_hash existing" using replace_first_cases [where es = existing and e = e] by simp
  then have "length es' = length existing" by (metis length_map)
  then show ?thesis using Some by (simp add: upsert_in_page_def)
qed

lemma upsert_in_page_set: "set (fst (upsert_in_page existing e)) \<subseteq> insert e (set existing)"
  using replace_first_cases [where es = existing and e = e] by (auto simp: upsert_in_page_def split: option.splits)

lemma upsert_all_length: "length existing \<le> length (fst (upsert_all existing es ov))"
proof (induction es arbitrary: existing ov)
  case (Cons e es)
  show ?case
    using Cons.IH [of "fst (upsert_in_page existing e)"] upsert_in_page_length [of existing e]
    by (simp add: Let_def split_def) (meson order_trans)
qed simp

lemma upsert_all_correct:
  assumes "page_ok hl existing" "\<forall>e\<in>set es. length (kv_hash e) = hl" "distinct (map kv_hash es)"
    "upsert_all existing es ov = (existing', ov')"
  shows "\<exists>ov2. ov' = ov @ ov2 \<and> set ov2 \<subseteq> set es \<and> distinct (map kv_hash ov2) \<and>
    page_ok hl existing' \<and> set existing' \<subseteq> set existing \<union> set es \<and>
    (ov2 \<noteq> [] \<longrightarrow> length existing' = MAX_ENTRIES_PER_PAGE) \<and>
    kmap kv_hash existing' ++ kmap kv_hash ov2 = kmap kv_hash existing ++ kmap kv_hash es"
  using assms
proof (induction es arbitrary: existing ov)
  case Nil
  then show ?case by auto
next
  case (Cons e es)
  obtain ex1 fits where up: "upsert_in_page existing e = (ex1, fits)" by fastforce
  have le: "length (kv_hash e) = hl" using Cons.prems(2) by simp
  note u = upsert_in_page_ok [OF Cons.prems(1) le up]
  have sub: "set ex1 \<subseteq> insert e (set existing)"
    using up upsert_in_page_set [of existing e] by simp
  obtain ov2 where ov2: "ov' = (if fits then ov else ov @ [e]) @ ov2"
      "set ov2 \<subseteq> set es" "distinct (map kv_hash ov2)" "page_ok hl existing'"
      "set existing' \<subseteq> set ex1 \<union> set es" "ov2 \<noteq> [] \<longrightarrow> length existing' = MAX_ENTRIES_PER_PAGE"
      "kmap kv_hash existing' ++ kmap kv_hash ov2 = kmap kv_hash ex1 ++ kmap kv_hash es"
    using Cons.IH [OF u(1), of "if fits then ov else ov @ [e]"] Cons.prems up by (auto simp: Let_def)
  have ne: "kv_hash e \<notin> kv_hash ` set es" using Cons.prems(3) by simp
  show ?case
  proof (cases fits)
    case True
    then have "kmap kv_hash ex1 ++ kmap kv_hash es = kmap kv_hash existing ++ kmap kv_hash (e # es)"
      using u(3) kmap_cons_absent [of kv_hash, OF ne] by simp
    then have "kmap kv_hash existing' ++ kmap kv_hash ov2 = kmap kv_hash existing ++ kmap kv_hash (e # es)"
      by (rule trans [OF ov2(7)])
    moreover have "set existing' \<subseteq> set existing \<union> set (e # es)" using ov2(5) sub by auto
    moreover have "set ov2 \<subseteq> set (e # es)" using ov2(2) by auto
    ultimately show ?thesis
      using True ov2(1,3,4,6) by (intro exI [of _ ov2] conjI) (assumption | simp)+
  next
    case False
    then have ex1: "ex1 = existing" and full: "length existing = MAX_ENTRIES_PER_PAGE"
      using up u(2) Cons.prems(1) by (auto simp: upsert_in_page_def page_ok_def split: option.splits if_splits)
    have full': "length existing' = MAX_ENTRIES_PER_PAGE"
      using upsert_all_length [of existing "e # es" ov] full Cons.prems(4) ov2(4) by (simp add: page_ok_def)
    have "kv_hash e \<notin> kv_hash ` set ov2" using ov2(2) ne by auto
    moreover have "set existing' \<subseteq> set existing \<union> set (e # es)" using ov2(5) ex1 by auto
    moreover have "kmap kv_hash existing' ++ kmap kv_hash (e # ov2) = kmap kv_hash existing ++ kmap kv_hash (e # es)"
      using ov2(7) ex1 by (simp only: kmap_simps map_add_upd)
    moreover have "set (e # ov2) \<subseteq> set (e # es)" using ov2(2) by auto
    ultimately show ?thesis
      using False ov2 full' by (intro exI [of _ "e # ov2"] conjI) (assumption | simp)+
  qed
qed

section \<open>Grouping by bucket\<close>

lemma group_by_bucket_map:
  "distinct (map fst (group_by_bucket bkt es)) \<and>
   map_of (group_by_bucket bkt es) b =
     (let l = filter (\<lambda>e. bkt e = b) es in if l = [] then None else Some l)"
proof (induction es arbitrary: b rule: rev_induct)
  case Nil
  then show ?case by (simp add: group_by_bucket_def)
next
  case (snoc e es)
  have "group_by_bucket bkt (es @ [e]) = AList.update (bkt e)
      (case map_of (group_by_bucket bkt es) (bkt e) of None \<Rightarrow> [e] | Some l \<Rightarrow> l @ [e]) (group_by_bucket bkt es)"
    by (simp add: group_by_bucket_def)
  then show ?case
    using snoc by (auto simp: AList.update_conv' AList.distinct_update Let_def split: option.splits if_splits)
qed

lemma group_by_bucket_props:
  shows "distinct (map fst (group_by_bucket bkt es))"
    and "(b, l) \<in> set (group_by_bucket bkt es) \<Longrightarrow> l = filter (\<lambda>e. bkt e = b) es \<and> l \<noteq> []"
    and "set (concat (map snd (group_by_bucket bkt es))) = set es"
proof -
  let ?g = "group_by_bucket bkt es"
  show d: "distinct (map fst ?g)" using group_by_bucket_map by blast
  have m: "(b, l) \<in> set ?g \<longleftrightarrow> l = filter (\<lambda>e. bkt e = b) es \<and> l \<noteq> []" for b l
    using group_by_bucket_map [of bkt es b] map_of_eq_Some_iff [OF d, of b l]
    by (auto simp: Let_def split: if_splits)
  show "(b, l) \<in> set ?g \<Longrightarrow> l = filter (\<lambda>e. bkt e = b) es \<and> l \<noteq> []" using m by blast
  show "set (concat (map snd ?g)) = set es"
  proof (intro set_eqI iffI)
    fix e
    assume "e \<in> set (concat (map snd ?g))"
    then obtain b l where "(b, l) \<in> set ?g" "e \<in> set l" by auto
    then show "e \<in> set es" using m [of b l] by auto
  next
    fix e
    assume "e \<in> set es"
    then have "filter (\<lambda>x. bkt x = bkt e) es \<noteq> []" "e \<in> set (filter (\<lambda>x. bkt x = bkt e) es)"
      by (auto simp: filter_empty_conv)
    then show "e \<in> set (concat (map snd ?g))"
      using m [of "bkt e" "filter (\<lambda>x. bkt x = bkt e) es"] by force
  qed
qed

lemma group_by_bucket_distinct:
  assumes "distinct (map key es)"
  shows "distinct (map key (concat (map snd (group_by_bucket bkt es))))"
proof -
  have "distinct (map key (concat (map snd gs)))"
    if "distinct (map fst gs)" "\<And>b l. (b, l) \<in> set gs \<Longrightarrow> l = filter (\<lambda>e. bkt e = b) es" for gs
    using that
  proof (induction gs)
    case (Cons g gs)
    obtain b l where g: "g = (b, l)" by fastforce
    have l: "l = filter (\<lambda>e. bkt e = b) es" using Cons.prems(2) [of b l] g by simp
    have rest: "bkt e \<noteq> b \<and> e \<in> set es" if in_rest: "e \<in> set (concat (map snd gs))" for e
    proof -
      obtain cm where "cm \<in> set gs" "e \<in> set (snd cm)" using in_rest by auto
      then obtain c m where cm: "(c, m) \<in> set gs" "e \<in> set m" by (metis prod.collapse)
      then have "m = filter (\<lambda>e. bkt e = c) es" using Cons.prems(2) by simp
      moreover have "c \<noteq> b" using Cons.prems(1) cm(1) g by force
      ultimately show ?thesis using cm(2) by auto
    qed
    have "distinct (map key l)" unfolding l using assms by (rule distinct_map_filter)
    moreover have "distinct (map key (concat (map snd gs)))" using Cons by simp
    moreover have "key ` set l \<inter> key ` set (concat (map snd gs)) = {}"
    proof (rule ccontr)
      assume "\<not> ?thesis"
      then obtain x y where xy: "x \<in> set l" "y \<in> set (concat (map snd gs))" "key x = key y" by (auto simp del: set_concat)
      then have "x \<in> set es" "bkt x = b" using l by auto
      moreover have "bkt y \<noteq> b" "y \<in> set es" using rest [OF xy(2)] by auto
      ultimately show False using assms xy(3) by (auto simp: distinct_map inj_on_def)
    qed
    ultimately show ?case using g by simp
  qed simp
  from this [OF group_by_bucket_props(1)] show ?thesis using group_by_bucket_props(2) by blast
qed

section \<open>Writing the buffered entries to pages\<close>

text \<open>The page region of a file: long enough and every page holding its bucket.\<close>

definition region_ok :: "(bytes \<Rightarrow> u32) \<Rightarrow> nat \<Rightarrow> nat \<Rightarrow> nat \<Rightarrow> bytes \<Rightarrow> bool" where
  "region_ok crc32 off hl n file \<longleftrightarrow> off + n * page_size hl \<le> length file \<and>
    pages_ok crc32 hl (file_pages file off hl n)"

text \<open>Two files agree outside the page region.\<close>

definition same_outside :: "nat \<Rightarrow> nat \<Rightarrow> bytes \<Rightarrow> bytes \<Rightarrow> bool" where
  "same_outside lo hi f g \<longleftrightarrow> length f = length g \<and> take lo f = take lo g \<and> drop hi f = drop hi g"

definition bucket_entries_ok :: "nat \<Rightarrow> nat \<Rightarrow> nat \<times> kv_entry list \<Rightarrow> bool" where
  "bucket_entries_ok hl n g \<longleftrightarrow> fst g < n \<and> distinct (map kv_hash (snd g)) \<and>
    (\<forall>e\<in>set (snd g). length (kv_hash e) = hl \<and> hash_bucket n (kv_hash e) = fst g)"

lemma write_page_same_outside:
  assumes "b < n" "off + n * page_size hl \<le> length f" "length p = page_size hl"
  shows "same_outside off (off + n * page_size hl) (write_page f off hl b p) f"
proof -
  have e: "off + b * page_size hl + page_size hl \<le> off + n * page_size hl"
    using assms(1) by (rule page_end_le)
  have "drop (off + n * page_size hl) (write_page f off hl b p) = drop (off + n * page_size hl) f"
    using e assms by (simp add: write_page_def write_at_def bucket_page_offset_def add.commute)
  then show ?thesis using write_page_pages [OF assms] by (simp add: same_outside_def)
qed

lemma flush_bucket_correct:
  assumes "region_ok crc32 off hl n f" "bucket_entries_ok hl n g"
  shows "\<exists>f' ov2. flush_bucket crc32 off hl g (f, r, ov) = Inr (f', r, ov @ ov2) \<and>
    region_ok crc32 off hl n f' \<and> same_outside off (off + n * page_size hl) f' f \<and>
    set ov2 \<subseteq> set (snd g) \<and> distinct (map kv_hash ov2) \<and>
    (\<forall>b<n. b \<noteq> fst g \<longrightarrow> file_pages f' off hl n ! b = file_pages f off hl n ! b) \<and>
    pages_map crc32 hl (file_pages f' off hl n) ++ kmap kv_hash ov2 =
      pages_map crc32 hl (file_pages f off hl n) ++ kmap kv_hash (snd g)"
proof -
  obtain b es where g: "g = (b, es)" by fastforce
  let ?P = "file_pages f off hl n"
  have b: "b < n" and es: "distinct (map kv_hash es)" "\<forall>e\<in>set es. length (kv_hash e) = hl"
      "\<forall>e\<in>set es. hash_bucket n (kv_hash e) = b"
    using assms(2) by (auto simp: g bucket_entries_ok_def)
  have len: "off + n * page_size hl \<le> length f" and ok: "pages_ok crc32 hl ?P"
    using assms(1) by (auto simp: region_ok_def)
  obtain ex where ex: "page_holds crc32 hl n b (?P ! b) ex" using ok b by (auto simp: pages_ok_def)
  obtain ex' ov' where up: "upsert_all ex es ov = (ex', ov')" by fastforce
  obtain ov2 where ov2: "ov' = ov @ ov2" "set ov2 \<subseteq> set es" "distinct (map kv_hash ov2)"
      "page_ok hl ex'" "set ex' \<subseteq> set ex \<union> set es"
      "kmap kv_hash ex' ++ kmap kv_hash ov2 = kmap kv_hash ex ++ kmap kv_hash es"
    using upsert_all_correct [OF _ es(2,1) up] ex by (auto simp: page_holds_def)
  define p where "p = serialize_page crc32 ex' hl"
  define f' where "f' = write_page f off hl b p"
  have lp: "length p = page_size hl" by (simp add: p_def)
  note w = write_page_pages [OF b len lp, folded f'_def]
  have run: "flush_bucket crc32 off hl g (f, r, ov) = Inr (f', r, ov @ ov2)"
    using page_at_file_pages [OF b len] ex up ov2(1)
    by (simp add: flush_bucket_def g page_holds_def f'_def p_def Let_def)
  have "deserialize_page crc32 p hl = Inr ex'"
    unfolding p_def using ov2(4) by (intro deserialize_serialize_page) (auto simp: page_ok_def)
  then have ph: "page_holds crc32 hl n b p ex'"
    using ov2(4,5) ex es(3) by (auto simp: page_holds_def)
  have ok': "pages_ok crc32 hl (file_pages f' off hl n)"
    and pm: "\<And>h. pages_map crc32 hl (file_pages f' off hl n) h =
      (if hash_bucket n h = b then kmap kv_hash ex' h else pages_map crc32 hl ?P h)"
    using pages_ok_update [OF ok, of b p ex'] b ph w(2) by simp_all
  have "pages_map crc32 hl (file_pages f' off hl n) ++ kmap kv_hash ov2 = pages_map crc32 hl ?P ++ kmap kv_hash es"
  proof
    fix h
    show "(pages_map crc32 hl (file_pages f' off hl n) ++ kmap kv_hash ov2) h =
        (pages_map crc32 hl ?P ++ kmap kv_hash es) h"
    proof (cases "hash_bucket n h = b")
      case True
      have "pages_map crc32 hl ?P h = kmap kv_hash ex h"
        using pages_map_bucket [OF ok, of b h ex] ex True by simp
      then show ?thesis
        using fun_cong [OF ov2(6), of h] pm [of h] True by (auto simp: map_add_def split: option.splits)
    next
      case False
      then have "h \<notin> kv_hash ` set es" "h \<notin> kv_hash ` set ov2" using es(3) ov2(2) by auto
      then have "kmap kv_hash es h = None" "kmap kv_hash ov2 h = None" by (simp_all add: kmap_None_iff)
      then show ?thesis using pm [of h] False by (simp add: map_add_def)
    qed
  qed
  moreover have "region_ok crc32 off hl n f'" using ok' len w(1) by (simp add: region_ok_def)
  moreover have "same_outside off (off + n * page_size hl) f' f"
    unfolding f'_def using b len lp by (rule write_page_same_outside)
  ultimately show ?thesis using run ov2(2,3) g w(2) by auto
qed

lemma dom_kmap: "dom (kmap key xs) = key ` set xs"
  by (simp add: kmap_def dom_map_of_conv_image_fst image_image)

lemma same_outside_trans: "same_outside lo hi f g \<Longrightarrow> same_outside lo hi g h \<Longrightarrow> same_outside lo hi f h"
  by (simp add: same_outside_def)

lemma flush_groups_correct:
  assumes "region_ok crc32 off hl n f" "\<forall>g\<in>set gs. bucket_entries_ok hl n g"
    and "distinct (map kv_hash (concat (map snd gs)))"
  shows "\<exists>f' ov2. flush_groups crc32 off hl gs (f, r, ov) = Inr (f', r, ov @ ov2) \<and>
    region_ok crc32 off hl n f' \<and> same_outside off (off + n * page_size hl) f' f \<and>
    set ov2 \<subseteq> set (concat (map snd gs)) \<and> distinct (map kv_hash ov2) \<and>
    (\<forall>b<n. b \<notin> fst ` set gs \<longrightarrow> file_pages f' off hl n ! b = file_pages f off hl n ! b) \<and>
    pages_map crc32 hl (file_pages f' off hl n) ++ kmap kv_hash ov2 =
      pages_map crc32 hl (file_pages f off hl n) ++ kmap kv_hash (concat (map snd gs))"
  using assms
proof (induction gs arbitrary: f ov)
  case Nil
  then show ?case by (simp add: same_outside_def)
next
  case (Cons g gs)
  let ?pm = "\<lambda>f. pages_map crc32 hl (file_pages f off hl n)"
  obtain f1 ov1 where 1: "flush_bucket crc32 off hl g (f, r, ov) = Inr (f1, r, ov @ ov1)"
      "region_ok crc32 off hl n f1" "same_outside off (off + n * page_size hl) f1 f"
      "set ov1 \<subseteq> set (snd g)" "distinct (map kv_hash ov1)"
      "\<forall>b<n. b \<noteq> fst g \<longrightarrow> file_pages f1 off hl n ! b = file_pages f off hl n ! b"
      "?pm f1 ++ kmap kv_hash ov1 = ?pm f ++ kmap kv_hash (snd g)"
    using flush_bucket_correct [OF Cons.prems(1), of g r ov] Cons.prems(2) by auto
  have dis: "kv_hash ` set (snd g) \<inter> kv_hash ` set (concat (map snd gs)) = {}"
      "distinct (map kv_hash (concat (map snd gs)))"
    using Cons.prems(3) by (auto simp del: set_concat)
  obtain f2 ov2 where 2: "flush_groups crc32 off hl gs (f1, r, ov @ ov1) = Inr (f2, r, (ov @ ov1) @ ov2)"
      "region_ok crc32 off hl n f2" "same_outside off (off + n * page_size hl) f2 f1"
      "set ov2 \<subseteq> set (concat (map snd gs))" "distinct (map kv_hash ov2)"
      "\<forall>b<n. b \<notin> fst ` set gs \<longrightarrow> file_pages f2 off hl n ! b = file_pages f1 off hl n ! b"
      "?pm f2 ++ kmap kv_hash ov2 = ?pm f1 ++ kmap kv_hash (concat (map snd gs))"
    using Cons.IH [OF 1(2), of "ov @ ov1"] Cons.prems(2) dis(2) by (auto simp del: set_concat)
  have d12: "dom (kmap kv_hash (concat (map snd gs))) \<inter> dom (kmap kv_hash ov1) = {}"
  proof -
    show ?thesis using dis(1) 1(4) unfolding dom_kmap by blast
  qed
  have "?pm f2 ++ kmap kv_hash (ov1 @ ov2) = (?pm f2 ++ kmap kv_hash ov2) ++ kmap kv_hash ov1"
    by (simp add: kmap_append)
  also have "\<dots> = ?pm f1 ++ (kmap kv_hash (concat (map snd gs)) ++ kmap kv_hash ov1)"
    by (simp add: 2(7))
  also have "\<dots> = (?pm f1 ++ kmap kv_hash ov1) ++ kmap kv_hash (concat (map snd gs))"
    using map_add_comm [OF d12] by simp
  also have "\<dots> = ?pm f ++ (kmap kv_hash (snd g) ++ kmap kv_hash (concat (map snd gs)))"
    by (simp add: 1(7))
  also have "kmap kv_hash (snd g) ++ kmap kv_hash (concat (map snd gs)) = kmap kv_hash (concat (map snd (g # gs)))"
  proof -
    have "dom (kmap kv_hash (snd g)) \<inter> dom (kmap kv_hash (concat (map snd gs))) = {}"
      using dis(1) unfolding dom_kmap .
    then show ?thesis by (simp only: list.map concat.simps kmap_append) (rule map_add_comm)
  qed
  finally have m: "?pm f2 ++ kmap kv_hash (ov1 @ ov2) = ?pm f ++ kmap kv_hash (concat (map snd (g # gs)))" .
  have "kv_hash ` set ov1 \<inter> kv_hash ` set ov2 = {}" using dis(1) 1(4) 2(4) by blast
  then have "distinct (map kv_hash (ov1 @ ov2))" using 1(5) 2(5) by simp
  moreover have "set (ov1 @ ov2) \<subseteq> set (concat (map snd (g # gs)))" using 1(4) 2(4) by auto
  moreover have "\<forall>b<n. b \<notin> fst ` set (g # gs) \<longrightarrow> file_pages f2 off hl n ! b = file_pages f off hl n ! b"
    using 1(6) 2(6) by simp
  ultimately show ?case
    using 1(1) 2(1,2) same_outside_trans [OF 2(3) 1(3)] m
    by (intro exI [of _ f2] exI [of _ "ov1 @ ov2"]) simp
qed

section \<open>The invariant and the abstract view\<close>

definition buffer_ok :: "nat \<Rightarrow> kv_buffer \<Rightarrow> bool" where
  "buffer_ok hl m \<longleftrightarrow> distinct (map fst m) \<and> (\<forall>(h, e)\<in>set m. kv_hash e = h \<and> length h = hl)"

abbreviation dk_pages_end :: "disk_kv_store \<Rightarrow> nat" where
  "dk_pages_end s \<equiv> dk_kv_block_offset s + dk_bucket_count s * page_size (dk_hl s)"

abbreviation dk_pages :: "disk_kv_store \<Rightarrow> bytes list" where
  "dk_pages s \<equiv> file_pages (dk_db_file s) (dk_kv_block_offset s) (dk_hl s) (dk_bucket_count s)"

definition dk_store_ok :: "(bytes \<Rightarrow> u32) \<Rightarrow> disk_kv_store \<Rightarrow> bool" where
  "dk_store_ok crc32 s \<longleftrightarrow>
    region_ok crc32 (dk_kv_block_offset s) (dk_hl s) (dk_bucket_count s) (dk_db_file s) \<and>
    nvt_bucket_count (dk_nvt s) = dk_bucket_count s \<and>
    dk_stage s < length KV_STAGE_SIZES \<and>
    stage_params (dk_stage s) (page_size (dk_hl s)) = (dk_kv_block_length s, dk_bucket_count s) \<and>
    (dk_hot_tail_enabled s \<longrightarrow> dk_kv_block_offset s + dk_kv_block_length s \<le> dk_hot_tail_offset s) \<and>
    buffer_ok (dk_hl s) (dk_write_buffer s)"

text \<open>The published snapshot shows the pages of the file.\<close>

definition dk_pages_published :: "(bytes \<Rightarrow> u32) \<Rightarrow> disk_kv_store \<Rightarrow> bool" where
  "dk_pages_published crc32 s \<longleftrightarrow>
    nvt_bucket_count (dk_shared_nvt s) = dk_bucket_count s \<and>
    rs_pages (dk_snapshot s) = dk_pages s \<and>
    length (rs_page_type_counts (dk_snapshot s)) = 16 \<and>
    rs_hash_algo (dk_snapshot s) = dk_hash_algo s \<and> rs_counts_ok crc32 (dk_snapshot s)"

definition dk_published :: "(bytes \<Rightarrow> u32) \<Rightarrow> disk_kv_store \<Rightarrow> bool" where
  "dk_published crc32 s \<longleftrightarrow> dk_pages_published crc32 s \<and> rs_buffer (dk_snapshot s) = dk_write_buffer s \<and>
    nvt_bucket_count (rs_nvt (dk_snapshot s)) = dk_bucket_count s \<and>
    rs_bucket_count (dk_snapshot s) = dk_bucket_count s"

definition dk_ok :: "(bytes \<Rightarrow> u32) \<Rightarrow> disk_kv_store \<Rightarrow> bool" where
  "dk_ok crc32 s \<longleftrightarrow> dk_store_ok crc32 s \<and> dk_published crc32 s"

definition dk_raw :: "(bytes \<Rightarrow> u32) \<Rightarrow> disk_kv_store \<Rightarrow> bytes \<Rightarrow> kv_entry option" where
  "dk_raw crc32 s = pages_map crc32 (dk_hl s) (dk_pages s) ++ map_of (dk_write_buffer s)"

text \<open>Nothing of the file below the hot tail changes, apart from the pages.\<close>

definition log_same :: "disk_kv_store \<Rightarrow> disk_kv_store \<Rightarrow> bool" where
  "log_same s s' \<longleftrightarrow>
    (\<forall>o1 m. (o1 + m \<le> dk_kv_block_offset s \<or> dk_pages_end s \<le> o1) \<and> o1 + m \<le> dk_hot_tail_offset s \<and>
      o1 + m \<le> length (dk_db_file s) \<longrightarrow> read_exact (dk_db_file s') o1 m = read_exact (dk_db_file s) o1 m)"

lemma dk_bucket_hash: "dk_bucket s h = hash_bucket (nvt_bucket_count (dk_nvt s)) h"
  by (simp add: bucket_for_value_def hash_converter_to_scalar_def hash_bucket_def)

lemma stage_pages_fit:
  assumes "stage_params stage psize = (blen, n)"
  shows "n * psize \<le> blen"
  using assms by (auto simp: stage_params_def buckets_for_block_def Let_def)

lemma dk_store_okD:
  assumes "dk_store_ok crc32 s"
  shows "0 < dk_bucket_count s" "dk_pages_end s \<le> length (dk_db_file s)"
    "pages_ok crc32 (dk_hl s) (dk_pages s)" "dk_pages_end s \<le> dk_kv_block_offset s + dk_kv_block_length s"
    "dk_hot_tail_enabled s \<Longrightarrow> dk_pages_end s \<le> dk_hot_tail_offset s"
proof -
  show "0 < dk_bucket_count s" "dk_pages_end s \<le> length (dk_db_file s)" "pages_ok crc32 (dk_hl s) (dk_pages s)"
    using assms by (auto simp: dk_store_ok_def region_ok_def pages_ok_def)
  show le: "dk_pages_end s \<le> dk_kv_block_offset s + dk_kv_block_length s"
    using assms stage_pages_fit by (auto simp: dk_store_ok_def)
  show "dk_pages_end s \<le> dk_hot_tail_offset s" if "dk_hot_tail_enabled s"
    using assms that le by (auto simp: dk_store_ok_def)
qed

lemma read_all_pages_file:
  assumes "dk_pages_end s \<le> length (dk_db_file s)"
  shows "read_all_pages s = dk_pages s"
  using assms page_at_file_pages [of _ "dk_bucket_count s" "dk_kv_block_offset s" "dk_hl s" "dk_db_file s"]
  by (intro nth_equalityI) (simp_all add: read_all_pages_def)

lemma dk_raw_values:
  assumes "buffer_ok hl m"
  shows "kmap kv_hash (buffer_values m) = map_of m" "distinct (map kv_hash (buffer_values m))"
    "\<forall>e\<in>set (buffer_values m). length (kv_hash e) = hl"
proof -
  have "map (\<lambda>e. (kv_hash e, e)) (buffer_values m) = m"
    using assms by (induction m) (auto simp: buffer_ok_def)
  then show "kmap kv_hash (buffer_values m) = map_of m" by (simp add: kmap_def)
  have keys: "map kv_hash (buffer_values m) = map fst m"
    using assms by (induction m) (auto simp: buffer_ok_def)
  show "distinct (map kv_hash (buffer_values m))"
    unfolding keys using assms by (simp add: buffer_ok_def)
  show "\<forall>e\<in>set (buffer_values m). length (kv_hash e) = hl" using assms by (auto simp: buffer_ok_def)
qed

lemma set_alist_update: "set (AList.update k v m) \<subseteq> insert (k, v) (set m)"
  by (induction m) auto

lemma buffer_ok_update:
  assumes "buffer_ok hl m" "length (kv_hash e) = hl" "h = kv_hash e"
  shows "buffer_ok hl (AList.update h e m)"
  using assms by (auto simp: buffer_ok_def AList.distinct_update dest!: subsetD [OF set_alist_update])

section \<open>Publishing\<close>

lemma pages_entries_list_update:
  assumes "b < length pages"
  shows "length (filter P (pages_entries crc32 hl (pages[b := p]))) +
      length (filter P (case deserialize_page crc32 (pages ! b) hl of Inr es \<Rightarrow> es | Inl _ \<Rightarrow> [])) =
    length (filter P (pages_entries crc32 hl pages)) +
      length (filter P (case deserialize_page crc32 p hl of Inr es \<Rightarrow> es | Inl _ \<Rightarrow> []))"
  using assms
proof (induction pages arbitrary: b)
  case (Cons q pages)
  then show ?case by (cases b) (auto simp: pages_entries_def)
qed simp

lemma page_entries_le:
  assumes "b < length pages"
  shows "length (filter P (case deserialize_page crc32 (pages ! b) hl of Inr es \<Rightarrow> es | Inl _ \<Rightarrow> [])) \<le>
    length (filter P (pages_entries crc32 hl pages))"
  using assms
proof (induction pages arbitrary: b)
  case (Cons q pages)
  then show ?case by (cases b) (auto simp: pages_entries_def intro: trans_le_add2)
qed simp

lemma page_counts_or_zero_nth:
  assumes "t < 16"
  shows "length (page_counts_or_zero crc32 page hl) = 16"
    and "page_counts_or_zero crc32 page hl ! t =
      length (filter (live_of_type t) (case deserialize_page crc32 page hl of Inr es \<Rightarrow> es | Inl _ \<Rightarrow> []))"
  using live_type_counts_page [OF assms, where crc = crc32 and page = page and hl = hl] assms
  by (auto simp: page_counts_or_zero_def split: sum.splits)

lemma republish_buckets_correct:
  assumes "dk_pages_end s \<le> length (dk_db_file s)" "length pages = dk_bucket_count s" "length counts = 16"
    and "\<forall>t<16. counts ! t = length (filter (live_of_type t) (pages_entries crc32 (dk_hl s) pages))"
    and "set bs \<subseteq> {..<dk_bucket_count s}"
    and "republish_buckets crc32 s bs pages counts = (pages', counts')"
  shows "length pages' = dk_bucket_count s \<and> length counts' = 16 \<and>
    (\<forall>b<dk_bucket_count s. pages' ! b = (if b \<in> set bs then dk_pages s ! b else pages ! b)) \<and>
    (\<forall>t<16. counts' ! t = length (filter (live_of_type t) (pages_entries crc32 (dk_hl s) pages')))"
  using assms(2-)
proof (induction bs arbitrary: pages counts)
  case Nil
  then show ?case by simp
next
  case (Cons b bs)
  let ?hl = "dk_hl s" and ?p = "dk_pages s ! b"
  let ?c = "map (\<lambda>i. (counts ! i - page_counts_or_zero crc32 (pages ! b) ?hl ! i) + page_counts_or_zero crc32 ?p ?hl ! i)
      [0..<length counts]"
  have b: "b < dk_bucket_count s" using Cons.prems(4) by simp
  have pa: "page_at (dk_db_file s) (dk_kv_block_offset s) ?hl b = Some ?p"
    using page_at_file_pages [OF b assms(1)] .
  have step: "republish_buckets crc32 s bs (pages[b := ?p]) ?c = (pages', counts')"
    using Cons.prems(5) b Cons.prems(1) by (simp add: pa Let_def)
  have "?c ! t = length (filter (live_of_type t) (pages_entries crc32 ?hl (pages[b := ?p])))" if "t < 16" for t
    using pages_entries_list_update [of b pages "live_of_type t" crc32 ?hl ?p]
      page_entries_le [of b pages "live_of_type t" crc32 ?hl] b Cons.prems(1-3) that
    by (simp add: page_counts_or_zero_nth(2))
  then have "length pages' = dk_bucket_count s \<and> length counts' = 16 \<and>
    (\<forall>c<dk_bucket_count s. pages' ! c = (if c \<in> set bs then dk_pages s ! c else pages[b := ?p] ! c)) \<and>
    (\<forall>t<16. counts' ! t = length (filter (live_of_type t) (pages_entries crc32 ?hl pages')))"
    using Cons.prems(1,2,4) by (intro Cons.IH [OF _ _ _ _ step]) auto
  then show ?case using Cons.prems(1) b by (auto simp: nth_list_update)
qed

lemma publish_incremental_ok:
  assumes "dk_pages_end s \<le> length (dk_db_file s)" "nvt_bucket_count (dk_nvt s) = dk_bucket_count s"
    and "length (rs_pages (dk_snapshot s)) = dk_bucket_count s"
    and "length (rs_page_type_counts (dk_snapshot s)) = 16"
    and "rs_hash_algo (dk_snapshot s) = dk_hash_algo s" "rs_counts_ok crc32 (dk_snapshot s)"
    and "set bs \<subseteq> {..<dk_bucket_count s}"
    and "\<forall>b<dk_bucket_count s. b \<notin> set bs \<longrightarrow> rs_pages (dk_snapshot s) ! b = dk_pages s ! b"
  shows "dk_published crc32 (publish_snapshot_incremental crc32 s bs)"
proof -
  define s1 where "s1 = (if nvt_bucket_count (dk_shared_nvt s) \<noteq> nvt_bucket_count (dk_nvt s)
               then s\<lparr> dk_shared_nvt := dk_nvt s \<rparr> else s)"
  have s1: "dk_snapshot s1 = dk_snapshot s" "dk_db_file s1 = dk_db_file s" "dk_hash_algo s1 = dk_hash_algo s"
      "dk_kv_block_offset s1 = dk_kv_block_offset s" "dk_bucket_count s1 = dk_bucket_count s"
      "dk_write_buffer s1 = dk_write_buffer s" "nvt_bucket_count (dk_shared_nvt s1) = dk_bucket_count s"
    using assms(2) by (auto simp: s1_def)
  obtain P c where r: "republish_buckets crc32 s1 bs (rs_pages (dk_snapshot s)) (rs_page_type_counts (dk_snapshot s)) = (P, c)"
    by fastforce
  have "length P = dk_bucket_count s1 \<and> length c = 16 \<and>
    (\<forall>b<dk_bucket_count s1. P ! b = (if b \<in> set bs then dk_pages s1 ! b else rs_pages (dk_snapshot s) ! b)) \<and>
    (\<forall>t<16. c ! t = length (filter (live_of_type t) (pages_entries crc32 (dk_hl s1) P)))"
    using assms s1(2-5) by (intro republish_buckets_correct [OF _ _ _ _ _ r]) (auto simp: rs_counts_ok_def)
  then have P: "length P = dk_bucket_count s" "length c = 16"
      "\<forall>b<dk_bucket_count s. P ! b = (if b \<in> set bs then dk_pages s ! b else rs_pages (dk_snapshot s) ! b)"
      "\<forall>t<16. c ! t = length (filter (live_of_type t) (pages_entries crc32 (dk_hl s) P))"
    by (simp_all add: s1)
  have "P = dk_pages s" using P(1,3) assms(8) by (intro nth_equalityI) auto
  moreover have "publish_snapshot_incremental crc32 s bs =
      s1\<lparr> dk_snapshot := read_snapshot_new_with_page_type_counts (dk_write_buffer s) (dk_shared_nvt s1)
          (dk_bucket_count s) (dk_hash_algo s) (dk_entry_count s1) P c \<rparr>"
    using r by (simp add: publish_snapshot_incremental_def s1_def [symmetric] s1 Let_def)
  ultimately show ?thesis
    using P(2,4) s1
    by (simp add: dk_published_def dk_pages_published_def read_snapshot_new_with_page_type_counts_def rs_counts_ok_def)
qed

lemma publish_buffer_only_ok:
  assumes "dk_pages_published crc32 s"
  shows "dk_published crc32 (publish_buffer_only s)"
  using assms
  by (simp add: dk_published_def dk_pages_published_def publish_buffer_only_def
      read_snapshot_new_with_page_type_counts_def rs_counts_ok_def)

lemma publish_full_ok:
  assumes "dk_pages_end s \<le> length (dk_db_file s)" "nvt_bucket_count (dk_shared_nvt s) = dk_bucket_count s"
  shows "dk_published crc32 (publish_full_snapshot crc32 s)"
proof -
  have "length (build_page_type_counts crc32 (dk_pages s) (dk_hash_algo s)) = 16"
    using add_page_counts_nth [of "replicate 16 0" 0] by (simp add: build_page_type_counts_def)
  then show ?thesis
    using read_snapshot_new_counts [of crc32 "dk_write_buffer s" "dk_shared_nvt s" "dk_bucket_count s"
        "dk_hash_algo s" "dk_entry_count s" "dk_pages s"] assms
    by (simp add: dk_published_def dk_pages_published_def publish_full_snapshot_def read_snapshot_new_def
        read_snapshot_new_with_page_type_counts_def read_all_pages_file)
qed

section \<open>Hot tail writes\<close>

lemma file_pages_cong:
  assumes "off + n * page_size hl \<le> length f" "off + n * page_size hl \<le> length g"
    and "\<And>b. b < n \<Longrightarrow> read_exact f (off + b * page_size hl) (page_size hl) = read_exact g (off + b * page_size hl) (page_size hl)"
  shows "file_pages f off hl n = file_pages g off hl n"
  using assms by (simp add: page_at_eq_pages page_at_def bucket_page_offset_def)

lemma put_hot_tail_form:
  assumes "dk_pages_end s \<le> dk_hot_tail_offset s" "dk_pages_end s \<le> length (dk_db_file s)"
  shows "\<exists>v f. put_hot_tail crc32 s ws = s\<lparr> dk_pending_voids := v, dk_db_file := f \<rparr> \<and>
    dk_pages_end s \<le> length f \<and> dk_hot_tail_offset s \<le> length f \<and>
    file_pages f (dk_kv_block_offset s) (dk_hl s) (dk_bucket_count s) = dk_pages s \<and>
    (\<forall>o1 m. o1 + m \<le> dk_hot_tail_offset s \<and> o1 + m \<le> length (dk_db_file s) \<longrightarrow>
      read_exact f o1 m = read_exact (dk_db_file s) o1 m)"
proof -
  define v where "v = dk_pending_voids (sanitize_pending_voids s)"
  define d where "d = serialize_hot_tail crc32 \<lparr> htp_writes = ws, htp_voids = v \<rparr> (dk_hl s)"
  define f where "f = set_len (write_at (dk_db_file s) (dk_hot_tail_offset s) d) (dk_hot_tail_offset s + length d)"
  have form: "put_hot_tail crc32 s ws = s\<lparr> dk_pending_voids := v, dk_db_file := f \<rparr>"
    by (simp add: put_hot_tail_def write_hot_tail_def f_def d_def v_def sanitize_pending_voids_def Let_def)
  have rd: "read_exact f o1 m = read_exact (dk_db_file s) o1 m"
    if "o1 + m \<le> dk_hot_tail_offset s" "o1 + m \<le> length (dk_db_file s)" for o1 m
    using that by (simp add: f_def read_set_len read_write_before)
  have len: "dk_pages_end s \<le> length f" using assms(1) by (simp add: f_def)
  have "file_pages f (dk_kv_block_offset s) (dk_hl s) (dk_bucket_count s) = dk_pages s"
  proof (rule file_pages_cong [OF len assms(2)])
    fix b
    assume "b < dk_bucket_count s"
    then have "dk_kv_block_offset s + b * page_size (dk_hl s) + page_size (dk_hl s) \<le> dk_pages_end s"
      by (rule page_end_le)
    then show "read_exact f (dk_kv_block_offset s + b * page_size (dk_hl s)) (page_size (dk_hl s)) =
        read_exact (dk_db_file s) (dk_kv_block_offset s + b * page_size (dk_hl s)) (page_size (dk_hl s))"
      using assms by (intro rd) linarith+
  qed
  moreover have "dk_hot_tail_offset s \<le> length f" by (simp add: f_def)
  ultimately show ?thesis using form len rd by blast
qed

text \<open>Storing the hot tail keeps everything but the bytes from the hot-tail offset on.\<close>

definition same_index :: "disk_kv_store \<Rightarrow> disk_kv_store \<Rightarrow> bool" where
  "same_index s s' \<longleftrightarrow> (\<exists>v f h. s' = s\<lparr> dk_pending_voids := v, dk_db_file := f, dk_hot_buffer := h \<rparr> \<and>
    dk_pages_end s \<le> length f \<and> dk_pages s' = dk_pages s \<and>
    min (dk_hot_tail_offset s) (length (dk_db_file s)) \<le> length f \<and>
    (\<forall>o1 m. o1 + m \<le> dk_hot_tail_offset s \<and> o1 + m \<le> length (dk_db_file s) \<longrightarrow>
      read_exact f o1 m = read_exact (dk_db_file s) o1 m))"

lemma same_index_refl: "dk_pages_end s \<le> length (dk_db_file s) \<Longrightarrow> same_index s s"
  unfolding same_index_def
  by (intro exI [of _ "dk_pending_voids s"] exI [of _ "dk_db_file s"] exI [of _ "dk_hot_buffer s"]) simp

lemma same_index_put:
  assumes "dk_pages_end s \<le> dk_hot_tail_offset s" "dk_pages_end s \<le> length (dk_db_file s)"
  shows "same_index s (put_hot_tail crc32 s ws)"
    and "same_index s ((put_hot_tail crc32 s ws)\<lparr> dk_hot_buffer := h \<rparr>)"
proof -
  obtain v f where f: "put_hot_tail crc32 s ws = s\<lparr> dk_pending_voids := v, dk_db_file := f \<rparr>"
    "dk_pages_end s \<le> length f" "dk_hot_tail_offset s \<le> length f"
    "file_pages f (dk_kv_block_offset s) (dk_hl s) (dk_bucket_count s) = dk_pages s"
    "\<forall>o1 m. o1 + m \<le> dk_hot_tail_offset s \<and> o1 + m \<le> length (dk_db_file s) \<longrightarrow>
      read_exact f o1 m = read_exact (dk_db_file s) o1 m"
    using put_hot_tail_form [OF assms] by blast
  have g: "same_index s (s\<lparr> dk_pending_voids := v, dk_db_file := f, dk_hot_buffer := h \<rparr>)" for h
    unfolding same_index_def using f(2-5) by (intro exI [of _ v] exI [of _ f] exI [of _ h]) simp
  show "same_index s (put_hot_tail crc32 s ws)" using g [of "dk_hot_buffer s"] by (simp add: f(1))
  show "same_index s ((put_hot_tail crc32 s ws)\<lparr> dk_hot_buffer := h \<rparr>)" using g by (simp add: f(1))
qed

lemma same_index_hot:
  assumes "dk_store_ok crc32 s"
  shows "same_index s (flush_hot_buffer crc32 s)" "same_index s (force_flush_hot_buffer crc32 s)"
  using dk_store_okD(2,5) [OF assms] same_index_put [where s = s] same_index_refl [of s]
  by (auto simp: flush_hot_buffer_def force_flush_hot_buffer_def)

lemma same_index_trans:
  assumes "same_index s t" "same_index t u"
  shows "same_index s u"
proof -
  obtain v f h where t: "t = s\<lparr> dk_pending_voids := v, dk_db_file := f, dk_hot_buffer := h \<rparr>"
    and t2: "dk_pages t = dk_pages s" "min (dk_hot_tail_offset s) (length (dk_db_file s)) \<le> length f"
    "\<And>o1 m. o1 + m \<le> dk_hot_tail_offset s \<Longrightarrow> o1 + m \<le> length (dk_db_file s) \<Longrightarrow>
      read_exact f o1 m = read_exact (dk_db_file s) o1 m"
    using assms(1) unfolding same_index_def by blast
  obtain w g k where u: "u = t\<lparr> dk_pending_voids := w, dk_db_file := g, dk_hot_buffer := k \<rparr>"
    and u2: "dk_pages_end t \<le> length g" "dk_pages u = dk_pages t"
    "min (dk_hot_tail_offset t) (length (dk_db_file t)) \<le> length g"
    "\<And>o1 m. o1 + m \<le> dk_hot_tail_offset t \<Longrightarrow> o1 + m \<le> length (dk_db_file t) \<Longrightarrow>
      read_exact g o1 m = read_exact (dk_db_file t) o1 m"
    using assms(2) unfolding same_index_def by blast
  have "read_exact g o1 m = read_exact (dk_db_file s) o1 m"
    if "o1 + m \<le> dk_hot_tail_offset s" "o1 + m \<le> length (dk_db_file s)" for o1 m
  proof -
    have "o1 + m \<le> length (dk_db_file t)" using that t2(2) by (auto simp: t)
    then show ?thesis using u2(4) [of o1 m] t2(3) [of o1 m] that by (simp add: t)
  qed
  moreover have "min (dk_hot_tail_offset s) (length (dk_db_file s)) \<le> length g"
    using t2(2) u2(3) by (auto simp: t min_def split: if_splits)
  ultimately show ?thesis
    unfolding same_index_def using u2(1,2) t2(1)
    by (intro exI [of _ w] exI [of _ g] exI [of _ k]) (simp add: u t)
qed

lemma same_index_ok:
  assumes "same_index s s'" "dk_store_ok crc32 s"
  shows "dk_store_ok crc32 s'" "dk_raw crc32 s' = dk_raw crc32 s" "dk_write_buffer s' = dk_write_buffer s"
    "dk_pages_published crc32 s \<Longrightarrow> dk_pages_published crc32 s'" "log_same s s'"
    "dk_published crc32 s \<Longrightarrow> dk_published crc32 s'"
  using assms
  by (auto simp: same_index_def dk_store_ok_def region_ok_def dk_raw_def dk_pages_published_def log_same_def
      dk_published_def)

section \<open>Flush\<close>

lemma flush_pages_correct:
  assumes "dk_store_ok crc32 s"
  shows "\<exists>f ov. flush_pages crc32 s = Inr (f, dk_needs_rebuild s, ov) \<and>
    region_ok crc32 (dk_kv_block_offset s) (dk_hl s) (dk_bucket_count s) f \<and>
    same_outside (dk_kv_block_offset s) (dk_pages_end s) f (dk_db_file s) \<and>
    set ov \<subseteq> set (buffer_values (dk_write_buffer s)) \<and> distinct (map kv_hash ov) \<and>
    (\<forall>b<dk_bucket_count s. b \<notin> set (map fst (group_by_bucket (\<lambda>e. dk_bucket s (kv_hash e)) (buffer_values (dk_write_buffer s)))) \<longrightarrow>
      file_pages f (dk_kv_block_offset s) (dk_hl s) (dk_bucket_count s) ! b = dk_pages s ! b) \<and>
    pages_map crc32 (dk_hl s) (file_pages f (dk_kv_block_offset s) (dk_hl s) (dk_bucket_count s)) ++ kmap kv_hash ov =
      dk_raw crc32 s"
proof -
  let ?n = "dk_bucket_count s" and ?vs = "buffer_values (dk_write_buffer s)"
  let ?b = "\<lambda>e. dk_bucket s (kv_hash e)"
  let ?gs = "group_by_bucket ?b ?vs"
  have bo: "buffer_ok (dk_hl s) (dk_write_buffer s)" and n: "nvt_bucket_count (dk_nvt s) = ?n"
    and reg: "region_ok crc32 (dk_kv_block_offset s) (dk_hl s) ?n (dk_db_file s)"
    using assms by (auto simp: dk_store_ok_def)
  note v = dk_raw_values [OF bo]
  have n0: "0 < ?n" using dk_store_okD(1) [OF assms] .
  have g: "bucket_entries_ok (dk_hl s) ?n g" if in_g: "g \<in> set ?gs" for g
  proof -
    obtain b l where bl: "g = (b, l)" by fastforce
    then have l: "l = filter (\<lambda>e. ?b e = b) ?vs" "l \<noteq> []"
      using group_by_bucket_props(2) [of b l ?b ?vs] in_g by auto
    then obtain e where "e \<in> set l" by (meson last_in_set)
    then have "b < ?n" using l n0 by (auto simp: dk_bucket_hash n hash_bucket_less)
    moreover have "distinct (map kv_hash l)" unfolding l(1) using v(2) by (rule distinct_map_filter)
    moreover have "\<forall>e\<in>set l. length (kv_hash e) = dk_hl s \<and> hash_bucket ?n (kv_hash e) = b"
      using v(3) unfolding l(1) by (auto simp: dk_bucket_hash n)
    ultimately show ?thesis by (simp add: bl bucket_entries_ok_def)
  qed
  have d: "distinct (map kv_hash (concat (map snd ?gs)))" using v(2) by (rule group_by_bucket_distinct)
  have set: "set (concat (map snd ?gs)) = set ?vs" by (rule group_by_bucket_props(3))
  have km: "kmap kv_hash (concat (map snd ?gs)) = map_of (dk_write_buffer s)"
    using kmap_eqI [OF d v(2) set] v(1) by (rule trans)
  obtain f ov where "flush_groups crc32 (dk_kv_block_offset s) (dk_hl s) ?gs (dk_db_file s, dk_needs_rebuild s, []) =
      Inr (f, dk_needs_rebuild s, [] @ ov)"
    "region_ok crc32 (dk_kv_block_offset s) (dk_hl s) ?n f"
    "same_outside (dk_kv_block_offset s) (dk_pages_end s) f (dk_db_file s)"
    "set ov \<subseteq> set (concat (map snd ?gs))" "distinct (map kv_hash ov)"
    "\<forall>b<?n. b \<notin> fst ` set ?gs \<longrightarrow>
      file_pages f (dk_kv_block_offset s) (dk_hl s) ?n ! b = dk_pages s ! b"
    "pages_map crc32 (dk_hl s) (file_pages f (dk_kv_block_offset s) (dk_hl s) ?n) ++ kmap kv_hash ov =
      pages_map crc32 (dk_hl s) (dk_pages s) ++ kmap kv_hash (concat (map snd ?gs))"
    using flush_groups_correct [OF reg _ d, of "dk_needs_rebuild s" "[]"] g by blast
  then show ?thesis
    unfolding flush_pages_def km set
    by (intro exI [of _ f] exI [of _ ov]) (simp add: dk_raw_def)
qed

lemma modified_buckets_in_range:
  assumes "dk_store_ok crc32 s"
  shows "set (map fst (group_by_bucket (\<lambda>e. dk_bucket s (kv_hash e)) es)) \<subseteq> {..<dk_bucket_count s}"
proof
  fix b
  assume "b \<in> set (map fst (group_by_bucket (\<lambda>e. dk_bucket s (kv_hash e)) es))"
  then obtain l where "(b, l) \<in> set (group_by_bucket (\<lambda>e. dk_bucket s (kv_hash e)) es)" by auto
  then have l: "l = filter (\<lambda>e. dk_bucket s (kv_hash e) = b) es" "l \<noteq> []"
    using group_by_bucket_props(2) by auto
  then obtain e where "e \<in> set l" by (meson last_in_set)
  then show "b \<in> {..<dk_bucket_count s}"
    using l assms dk_store_okD(1) [OF assms] by (auto simp: dk_bucket_hash dk_store_ok_def hash_bucket_less)
qed

lemma insert_overflow_map:
  "map_of (insert_overflow ov m) = map_of m ++ kmap kv_hash (rev ov)"
proof (induction ov arbitrary: m)
  case (Cons e ov)
  then show ?case
    by (simp add: insert_overflow_def AList.update_conv' kmap_append del: fun_upd_apply)
qed (simp add: insert_overflow_def)

lemma insert_overflow_set:
  "set (insert_overflow ov m) \<subseteq> (\<lambda>e. (kv_hash e, e)) ` set ov \<union> set m"
proof (induction ov arbitrary: m)
  case (Cons e ov)
  show ?case
    using Cons.IH [of "AList.update (kv_hash e) e m"] set_alist_update [of "kv_hash e" e m]
    by (auto simp: insert_overflow_def)
qed (simp add: insert_overflow_def)

lemma insert_overflow_ok:
  assumes "buffer_ok hl m" "\<forall>e\<in>set ov. length (kv_hash e) = hl"
  shows "buffer_ok hl (insert_overflow ov m)"
  using assms
proof (induction ov arbitrary: m)
  case (Cons e ov)
  then show ?case using buffer_ok_update [of hl m e] by (simp add: insert_overflow_def)
qed (simp add: insert_overflow_def)

text \<open>A block is never large enough for the pages of the next stage.\<close>

lemma next_stage_too_large:
  assumes "stage + 1 < length KV_STAGE_SIZES"
  shows "fst (stage_params stage (page_size (hash_length a))) <
    snd (stage_params (stage + 1) (page_size (hash_length a))) * page_size (hash_length a)"
proof -
  have "stage \<in> {0, 1, 2, 3, 4, 5, 6, 7, 8}" using assms by (auto simp: KV_STAGE_SIZES_def)
  then show ?thesis
    by (cases a) (auto simp: hash_length_def page_size_def page_consts entry_size_def stage_params_def
        KV_STAGE_SIZES_def buckets_for_block_def)
qed

lemma resize_blocked:
  assumes "dk_stage s < length KV_STAGE_SIZES"
    and "stage_params (dk_stage s) (page_size (dk_hl s)) = (dk_kv_block_length s, dk_bucket_count s)"
  shows "resize_to_next_stage crc32 s =
    (if dk_stage s + 1 < length KV_STAGE_SIZES then Inr (s\<lparr> dk_needs_expansion := Some (dk_stage s + 1) \<rparr>)
     else Inl (IoError ''KV store at maximum stage''))"
proof (cases "dk_stage s + 1 < length KV_STAGE_SIZES")
  case True
  then have "min (dk_stage s + 1) (length KV_STAGE_SIZES - 1) = dk_stage s + 1" by linarith
  then show ?thesis
    using next_stage_too_large [OF True, of "dk_hash_algo s"] assms(2) True
    unfolding resize_to_next_stage_def Let_def by simp
next
  case False
  then have "dk_stage s = length KV_STAGE_SIZES - 1" using assms(1) by simp
  then show ?thesis by (simp add: resize_to_next_stage_def)
qed

lemma same_outside_read:
  assumes "same_outside lo hi f g" "o1 + m \<le> lo \<or> hi \<le> o1"
  shows "read_exact f o1 m = read_exact g o1 m"
proof -
  have "slice_at f o1 m = slice_at g o1 m"
  proof (cases "o1 + m \<le> lo")
    case True
    have "slice_at h o1 m = drop o1 (take (o1 + m) (take lo h))" for h :: bytes
      using True by (simp add: slice_at_def drop_take min_def)
    then show ?thesis using assms(1) unfolding same_outside_def by metis
  next
    case False
    then have "slice_at h o1 m = take m (drop (o1 - hi) (drop hi h))" for h :: bytes
      using assms(2) by (simp add: slice_at_def)
    then show ?thesis using assms(1) unfolding same_outside_def by metis
  qed
  then show ?thesis using assms(1) by (simp add: read_exact_def same_outside_def)
qed

text \<open>What an operation keeps of the layout.\<close>

definition same_layout :: "disk_kv_store \<Rightarrow> disk_kv_store \<Rightarrow> bool" where
  "same_layout s s' \<longleftrightarrow> dk_kv_block_offset s' = dk_kv_block_offset s \<and> dk_kv_block_length s' = dk_kv_block_length s \<and>
    dk_stage s' = dk_stage s \<and> dk_hash_algo s' = dk_hash_algo s \<and> dk_bucket_count s' = dk_bucket_count s \<and>
    dk_hot_tail_offset s' = dk_hot_tail_offset s \<and> dk_hot_tail_enabled s' = dk_hot_tail_enabled s"

lemma same_layout_refl [simp]: "same_layout s s"
  by (simp add: same_layout_def)

lemma same_layout_trans: "same_layout s t \<Longrightarrow> same_layout t u \<Longrightarrow> same_layout s u"
  by (simp add: same_layout_def)

lemma same_index_layout: "same_index s s' \<Longrightarrow> same_layout s s'"
  by (auto simp: same_index_def same_layout_def)

text \<open>The state after the page writes, before anything is published.\<close>

lemma flushed_state:
  fixes s f ov
  defines "s1 \<equiv> s\<lparr> dk_db_file := f, dk_write_buffer := [] \<rparr>"
  assumes "dk_store_ok crc32 s"
    and "region_ok crc32 (dk_kv_block_offset s) (dk_hl s) (dk_bucket_count s) f"
    and "same_outside (dk_kv_block_offset s) (dk_pages_end s) f (dk_db_file s)"
  shows "dk_store_ok crc32 s1" "log_same s s1" "length f = length (dk_db_file s)"
  using assms same_outside_read [OF assms(4)]
  by (auto simp: dk_store_ok_def buffer_ok_def log_same_def same_outside_def)

lemma publish_incremental_form:
  "\<exists>n r. publish_snapshot_incremental crc32 s bs = s\<lparr> dk_shared_nvt := n, dk_snapshot := r \<rparr>"
proof -
  define n where "n = (if nvt_bucket_count (dk_shared_nvt s) \<noteq> nvt_bucket_count (dk_nvt s) then dk_nvt s else dk_shared_nvt s)"
  have "(if nvt_bucket_count (dk_shared_nvt s) \<noteq> nvt_bucket_count (dk_nvt s)
      then s\<lparr> dk_shared_nvt := dk_nvt s \<rparr> else s) = s\<lparr> dk_shared_nvt := n \<rparr>"
    by (simp add: n_def)
  then have "publish_snapshot_incremental crc32 s bs = s\<lparr> dk_shared_nvt := n,
      dk_snapshot := dk_snapshot (publish_snapshot_incremental crc32 s bs) \<rparr>"
    by (simp add: publish_snapshot_incremental_def split_def Let_def)
  then show ?thesis by blast
qed

lemma publish_incremental_keeps:
  "dk_store_ok crc32 (publish_snapshot_incremental crc32 s bs) = dk_store_ok crc32 s"
  "dk_raw crc32 (publish_snapshot_incremental crc32 s bs) = dk_raw crc32 s"
  "dk_write_buffer (publish_snapshot_incremental crc32 s bs) = dk_write_buffer s"
  "dk_db_file (publish_snapshot_incremental crc32 s bs) = dk_db_file s"
  "same_layout t (publish_snapshot_incremental crc32 s bs) = same_layout t s"
  "log_same t (publish_snapshot_incremental crc32 s bs) = log_same t s"
  using publish_incremental_form [of crc32 s bs]
  by (auto simp: dk_store_ok_def dk_raw_def same_layout_def log_same_def)

lemma publish_buffer_only_keeps:
  "dk_store_ok crc32 (publish_buffer_only s) = dk_store_ok crc32 s"
  "dk_raw crc32 (publish_buffer_only s) = dk_raw crc32 s"
  "dk_write_buffer (publish_buffer_only s) = dk_write_buffer s"
  "dk_db_file (publish_buffer_only s) = dk_db_file s"
  "same_layout t (publish_buffer_only s) = same_layout t s"
  "log_same t (publish_buffer_only s) = log_same t s"
  by (simp_all add: publish_buffer_only_def dk_store_ok_def dk_raw_def same_layout_def log_same_def)

lemma log_same_trans:
  assumes "log_same s t" "same_index t u" "same_layout s t" "length (dk_db_file t) = length (dk_db_file s)"
  shows "log_same s u"
  using assms by (fastforce simp: log_same_def same_index_def same_layout_def)

text \<open>What a completed flush achieves.\<close>

definition flush_post :: "(bytes \<Rightarrow> u32) \<Rightarrow> disk_kv_store \<Rightarrow> disk_kv_store \<Rightarrow> bool" where
  "flush_post crc32 s s' \<longleftrightarrow> dk_ok crc32 s' \<and> dk_raw crc32 s' = dk_raw crc32 s \<and> same_layout s s' \<and> log_same s s' \<and>
    set (buffer_values (dk_write_buffer s')) \<subseteq> set (buffer_values (dk_write_buffer s)) \<and>
    (dk_write_buffer s' = [] \<or> dk_needs_expansion s' = Some (dk_stage s + 1))"

text \<open>The outcome of the page writes of a flush: the new file, what did not fit, the buckets written.\<close>

definition pages_flushed ::
  "(bytes \<Rightarrow> u32) \<Rightarrow> disk_kv_store \<Rightarrow> bytes \<Rightarrow> kv_entry list \<Rightarrow> nat list \<Rightarrow> bool" where
  "pages_flushed crc32 s f ov bs \<longleftrightarrow>
    dk_store_ok crc32 s \<and> dk_pages_published crc32 s \<and>
    bs = map fst (group_by_bucket (\<lambda>e. dk_bucket s (kv_hash e)) (buffer_values (dk_write_buffer s))) \<and>
    flush_pages crc32 s = Inr (f, dk_needs_rebuild s, ov) \<and>
    region_ok crc32 (dk_kv_block_offset s) (dk_hl s) (dk_bucket_count s) f \<and>
    same_outside (dk_kv_block_offset s) (dk_pages_end s) f (dk_db_file s) \<and>
    set ov \<subseteq> set (buffer_values (dk_write_buffer s)) \<and> distinct (map kv_hash ov) \<and>
    (\<forall>b<dk_bucket_count s. b \<notin> set bs \<longrightarrow>
      file_pages f (dk_kv_block_offset s) (dk_hl s) (dk_bucket_count s) ! b = dk_pages s ! b) \<and>
    pages_map crc32 (dk_hl s) (file_pages f (dk_kv_block_offset s) (dk_hl s) (dk_bucket_count s)) ++
      kmap kv_hash ov = dk_raw crc32 s"

abbreviation flushed :: "disk_kv_store \<Rightarrow> bytes \<Rightarrow> disk_kv_store" where
  "flushed s f \<equiv> s\<lparr> dk_db_file := f, dk_write_buffer := [] \<rparr>"

lemma pages_flushedD:
  assumes "pages_flushed crc32 s f ov bs"
  shows "dk_store_ok crc32 (flushed s f)" "log_same s (flushed s f)" "length f = length (dk_db_file s)"
    "same_layout s (flushed s f)" "dk_raw crc32 (flushed s f) ++ kmap kv_hash ov = dk_raw crc32 s"
    "set bs \<subseteq> {..<dk_bucket_count s}" "\<forall>e\<in>set ov. length (kv_hash e) = dk_hl s"
proof -
  have ok: "dk_store_ok crc32 s" and reg: "region_ok crc32 (dk_kv_block_offset s) (dk_hl s) (dk_bucket_count s) f"
    and out: "same_outside (dk_kv_block_offset s) (dk_pages_end s) f (dk_db_file s)"
    using assms by (simp_all add: pages_flushed_def)
  show "dk_store_ok crc32 (flushed s f)" "log_same s (flushed s f)" "length f = length (dk_db_file s)"
    using flushed_state [OF ok reg out] by simp_all
  show "same_layout s (flushed s f)" by (simp add: same_layout_def)
  show "dk_raw crc32 (flushed s f) ++ kmap kv_hash ov = dk_raw crc32 s"
    using assms by (simp add: pages_flushed_def dk_raw_def)
  show "set bs \<subseteq> {..<dk_bucket_count s}"
    using assms modified_buckets_in_range [OF ok] by (simp add: pages_flushed_def)
  show "\<forall>e\<in>set ov. length (kv_hash e) = dk_hl s"
    using assms dk_raw_values(3) [of "dk_hl s" "dk_write_buffer s"] ok
    by (auto simp: dk_store_ok_def pages_flushed_def)
qed

text \<open>Publishing from any state with the flushed index shows its pages.\<close>

lemma publish_flushed:
  assumes fl: "pages_flushed crc32 s f ov bs" and t: "same_index (flushed s f) t"
  shows "dk_published crc32 (publish_snapshot_incremental crc32 t bs)"
proof (rule publish_incremental_ok)
  note d = pages_flushedD [OF fl]
  have tok: "dk_store_ok crc32 t" using same_index_ok(1) [OF t d(1)] .
  then show "dk_pages_end t \<le> length (dk_db_file t)" by (rule dk_store_okD(2))
  have tf: "dk_snapshot t = dk_snapshot s" "dk_pages t = dk_pages (flushed s f)" "dk_bucket_count t = dk_bucket_count s"
      "dk_hash_algo t = dk_hash_algo s"
    using t by (auto simp: same_index_def)
  have pub: "dk_pages_published crc32 s" using fl by (simp add: pages_flushed_def)
  show "nvt_bucket_count (dk_nvt t) = dk_bucket_count t" using tok by (simp add: dk_store_ok_def)
  show "length (rs_pages (dk_snapshot t)) = dk_bucket_count t"
    "length (rs_page_type_counts (dk_snapshot t)) = 16"
    "rs_hash_algo (dk_snapshot t) = dk_hash_algo t" "rs_counts_ok crc32 (dk_snapshot t)"
    using pub by (simp_all add: tf dk_pages_published_def)
  show "set bs \<subseteq> {..<dk_bucket_count t}" using d(6) by (simp add: tf)
  show "\<forall>b<dk_bucket_count t. b \<notin> set bs \<longrightarrow> rs_pages (dk_snapshot t) ! b = dk_pages t ! b"
    using fl pub unfolding tf(2) by (simp add: tf(1,3) dk_pages_published_def pages_flushed_def)
qed

lemma flush_pass_fits:
  assumes fl: "pages_flushed crc32 s f [] bs" and ne: "dk_write_buffer s \<noteq> []"
  shows "\<exists>s'. flush_pass crc32 s = Inr (Inr s') \<and> flush_post crc32 s s'"
proof -
  note d = pages_flushedD [OF fl]
  define s2 where "s2 = flush_hot_buffer crc32 (flushed s f)"
  define s3 where "s3 = (if dk_transaction_depth s2 = 0 \<and> dk_hot_tail_enabled s2 then put_hot_tail crc32 s2 [] else s2)"
  have run: "flush_pass crc32 s = Inr (Inr (publish_snapshot_incremental crc32 s3 bs))"
    using ne fl by (simp add: flush_pass_def pages_flushed_def s2_def s3_def Let_def)
  have i2: "same_index (flushed s f) s2" unfolding s2_def by (rule same_index_hot(1) [OF d(1)])
  have ok2: "dk_store_ok crc32 s2" by (rule same_index_ok(1) [OF i2 d(1)])
  have "same_index s2 s3"
    using dk_store_okD(2,5) [OF ok2] by (auto simp: s3_def intro: same_index_put(1) same_index_refl)
  with i2 have i3: "same_index (flushed s f) s3" by (rule same_index_trans)
  have "flush_post crc32 s (publish_snapshot_incremental crc32 s3 bs)"
    using same_index_ok [OF i3 d(1)] publish_flushed [OF fl i3] d(3,5)
      same_layout_trans [OF d(4) same_index_layout [OF i3]] log_same_trans [OF d(2) i3 d(4)]
    by (simp add: flush_post_def dk_ok_def publish_incremental_keeps)
  then show ?thesis using run by simp
qed

text \<open>The overflow back in the buffer, with the request to expand.\<close>

definition overflowed :: "disk_kv_store \<Rightarrow> kv_entry list \<Rightarrow> disk_kv_store" where
  "overflowed p ov = p\<lparr> dk_needs_expansion := Some (dk_stage p + 1),
     dk_write_buffer := insert_overflow ov (dk_write_buffer p) \<rparr>"

lemma overflowed_ok:
  fixes crc32 s f ov bs
  defines "p \<equiv> publish_snapshot_incremental crc32 (flushed s f) bs"
  assumes fl: "pages_flushed crc32 s f ov bs"
  shows "dk_store_ok crc32 (overflowed p ov)" "dk_raw crc32 (overflowed p ov) = dk_raw crc32 s"
    "dk_pages_published crc32 (overflowed p ov)" "same_layout s (overflowed p ov)" "log_same s (overflowed p ov)"
    "length (dk_db_file (overflowed p ov)) = length (dk_db_file s)"
    "set (buffer_values (dk_write_buffer (overflowed p ov))) \<subseteq> set (buffer_values (dk_write_buffer s))"
proof -
  note d = pages_flushedD [OF fl]
  have okp: "dk_store_ok crc32 p" using d(1) by (simp add: p_def publish_incremental_keeps)
  have layp: "same_layout s p" using d(4) by (simp add: p_def publish_incremental_keeps)
  have bufp: "dk_write_buffer p = []" by (simp add: p_def publish_incremental_keeps)
  show "dk_store_ok crc32 (overflowed p ov)"
    using okp insert_overflow_ok [of "dk_hl s" "[]" ov] d(7) layp bufp
    by (simp add: dk_store_ok_def overflowed_def same_layout_def buffer_ok_def)
  have "kmap kv_hash (rev ov) = kmap kv_hash ov"
    using fl by (intro kmap_eqI) (simp_all add: rev_map [symmetric] pages_flushed_def)
  then have "dk_raw crc32 (overflowed p ov) = dk_raw crc32 p ++ kmap kv_hash ov"
    by (simp add: dk_raw_def overflowed_def bufp insert_overflow_map)
  then show "dk_raw crc32 (overflowed p ov) = dk_raw crc32 s"
    using d(5) by (simp add: p_def publish_incremental_keeps)
  have "dk_published crc32 p"
    unfolding p_def by (rule publish_flushed [OF fl same_index_refl]) (rule dk_store_okD(2) [OF d(1)])
  then show "dk_pages_published crc32 (overflowed p ov)"
    by (simp add: dk_published_def dk_pages_published_def overflowed_def)
  show "same_layout s (overflowed p ov)" using layp by (simp add: overflowed_def same_layout_def)
  show "log_same s (overflowed p ov)"
    using d(2) by (simp add: overflowed_def p_def publish_incremental_keeps log_same_def)
  show "length (dk_db_file (overflowed p ov)) = length (dk_db_file s)"
    using d(3) by (simp add: overflowed_def p_def publish_incremental_keeps)
  show "set (buffer_values (dk_write_buffer (overflowed p ov))) \<subseteq> set (buffer_values (dk_write_buffer s))"
    using insert_overflow_set [of ov "[]"] fl by (force simp: overflowed_def bufp pages_flushed_def)
qed

lemma flush_pass_overflow:
  assumes fl: "pages_flushed crc32 s f ov bs" and ne: "dk_write_buffer s \<noteq> []" and ov: "ov \<noteq> []"
    and room: "dk_stage s + 1 < length KV_STAGE_SIZES"
  shows "\<exists>s'. flush_pass crc32 s = Inr (Inr s') \<and> flush_post crc32 s s'"
proof -
  note d = pages_flushedD [OF fl]
  define p where "p = publish_snapshot_incremental crc32 (flushed s f) bs"
  note o = overflowed_ok [OF fl, folded p_def]
  have stage: "dk_stage p = dk_stage s" using o(4) by (simp add: same_layout_def overflowed_def)
  have "dk_store_ok crc32 p" using d(1) by (simp add: p_def publish_incremental_keeps)
  then have res: "resize_to_next_stage crc32 p = Inr (p\<lparr> dk_needs_expansion := Some (dk_stage s + 1) \<rparr>)"
    using resize_blocked [of p crc32] stage room by (simp add: dk_store_ok_def)
  define s3 where "s3 = overflowed p ov"
  define s4 where "s4 = (if dk_hot_tail_enabled s3 then put_hot_tail crc32 s3 (buffer_values (dk_write_buffer s3)) else s3)"
  let ?r = "publish_buffer_only (publish_snapshot_incremental crc32 s4 bs)"
  have run: "flush_pass crc32 s = Inr (Inr ?r)"
    using ne ov fl res stage
    by (simp add: flush_pass_def pages_flushed_def p_def s3_def s4_def overflowed_def Let_def)
  have i4: "same_index s3 s4"
    using dk_store_okD(2,5) [OF o(1)] by (auto simp: s3_def s4_def intro: same_index_put(1) same_index_refl)
  note k = same_index_ok [OF i4 o(1) [folded s3_def]]
  have "dk_published crc32 (publish_snapshot_incremental crc32 s4 bs)"
    using k(4) [OF o(3) [folded s3_def]] k(1) dk_store_okD(2) [OF k(1)] d(6) o(4) same_index_layout [OF i4]
    by (intro publish_incremental_ok)
       (auto simp: dk_pages_published_def dk_store_ok_def same_layout_def s3_def)
  then have "dk_published crc32 ?r" by (intro publish_buffer_only_ok) (simp add: dk_published_def)
  moreover have "dk_needs_expansion ?r = Some (dk_stage s + 1)"
    using i4 publish_incremental_form [of crc32 s4 bs] stage
    by (auto simp: publish_buffer_only_def same_index_def s3_def overflowed_def)
  ultimately have "flush_post crc32 s ?r"
    using k o(2,4-7) [folded s3_def] same_layout_trans [OF _ same_index_layout [OF i4]] log_same_trans [OF _ i4]
    by (simp add: flush_post_def dk_ok_def publish_incremental_keeps publish_buffer_only_keeps)
  then show ?thesis using run by simp
qed

lemma flush_pass_correct:
  assumes ok: "dk_store_ok crc32 s" and pub: "dk_pages_published crc32 s" and ne: "dk_write_buffer s \<noteq> []"
  shows "case flush_pass crc32 s of
      Inr (Inr s') \<Rightarrow> flush_post crc32 s s'
    | Inr (Inl s') \<Rightarrow> False
    | Inl err \<Rightarrow> dk_stage s + 1 = length KV_STAGE_SIZES"
proof -
  obtain f ov bs where fl: "pages_flushed crc32 s f ov bs"
    using flush_pages_correct [OF ok] ok pub unfolding pages_flushed_def by blast
  consider "ov = []" | "ov \<noteq> []" "dk_stage s + 1 < length KV_STAGE_SIZES" | "ov \<noteq> []" "dk_stage s + 1 = length KV_STAGE_SIZES"
    using ok by (fastforce simp: dk_store_ok_def)
  then show ?thesis
  proof cases
    case 1
    then show ?thesis using flush_pass_fits [of crc32 s f bs] fl ne by auto
  next
    case 2
    then show ?thesis using flush_pass_overflow [OF fl ne] by auto
  next
    case 3
    let ?p = "publish_snapshot_incremental crc32 (flushed s f) bs"
    have okp: "dk_store_ok crc32 ?p" using pages_flushedD(1) [OF fl] by (simp add: publish_incremental_keeps)
    have "dk_stage ?p = dk_stage s" using publish_incremental_stage by simp
    then have "\<exists>err. resize_to_next_stage crc32 ?p = Inl err"
      using resize_blocked [of ?p crc32] okp 3(2) by (simp add: dk_store_ok_def)
    then have "\<exists>err. flush_pass crc32 s = Inl err"
      using ne 3(1) fl by (auto simp: flush_pass_def pages_flushed_def Let_def)
    then show ?thesis using 3(2) by auto
  qed
qed

lemma flush_correct:
  assumes "dk_store_ok crc32 s" "dk_pages_published crc32 s" "dk_write_buffer s = [] \<Longrightarrow> dk_published crc32 s"
  shows "case flush crc32 s of
      Inr s' \<Rightarrow> flush_post crc32 s s'
    | Inl err \<Rightarrow> dk_stage s + 1 = length KV_STAGE_SIZES"
proof (cases "dk_write_buffer s = []")
  case True
  then have "flush crc32 s = Inr s" by (simp add: flush.simps flush_pass_def)
  then show ?thesis using assms True by (simp add: flush_post_def dk_ok_def log_same_def)
next
  case False
  then show ?thesis
    using flush_pass_correct [OF assms(1,2) False] by (auto simp: flush.simps [of crc32 s] split: sum.splits)
qed

end
