(* ===== verification/Op_Refinement.thy ===== *)
theory Op_Refinement
  imports Aeor_Prelude
begin

text \<open>
  The interface of a stateful component whose operations may fail: a concrete step that returns the new
  state or an error, and the effect it is to have on an abstract view.  The laws are stated for one
  operation; the lemmas carry them over to every sequence of operations.
\<close>

fun run_ops :: "('op \<Rightarrow> 's \<Rightarrow> 'e + 's) \<Rightarrow> 'op list \<Rightarrow> 's \<Rightarrow> 'e + 's" where
  "run_ops step [] s = Inr s"
| "run_ops step (x # xs) s = res_bind (step x s) (run_ops step xs)"

locale op_refinement =
  fixes invar :: "'s \<Rightarrow> bool"
    and abs :: "'s \<Rightarrow> 'a"
    and step :: "'op \<Rightarrow> 's \<Rightarrow> 'e + 's"
    and spec :: "'op \<Rightarrow> 'a \<Rightarrow> 'a"
    and valid :: "'p \<Rightarrow> 'op \<Rightarrow> bool"
    and par :: "'s \<Rightarrow> 'p"
    and room :: "'p \<Rightarrow> bool"
  assumes step_simulates: "invar s \<Longrightarrow> valid (par s) x \<Longrightarrow> step x s = Inr s' \<Longrightarrow>
      invar s' \<and> abs s' = spec x (abs s) \<and> par s' = par s"
    and step_defined: "invar s \<Longrightarrow> valid (par s) x \<Longrightarrow> room (par s) \<Longrightarrow> \<exists>s'. step x s = Inr s'"
begin

lemma run_simulates:
  assumes "invar s" "\<forall>x\<in>set xs. valid (par s) x" "run_ops step xs s = Inr s'"
  shows "invar s' \<and> abs s' = fold spec xs (abs s) \<and> par s' = par s"
  using assms
proof (induction xs arbitrary: s)
  case (Cons x xs)
  then obtain t where t: "step x s = Inr t" "run_ops step xs t = Inr s'" by auto
  have "invar t \<and> abs t = spec x (abs s) \<and> par t = par s"
    using step_simulates [OF Cons.prems(1) _ t(1)] Cons.prems(2) by simp
  then show ?case using Cons.IH [of t] t(2) Cons.prems(2) by simp
qed simp

lemma run_defined:
  assumes "invar s" "\<forall>x\<in>set xs. valid (par s) x" "room (par s)"
  shows "\<exists>s'. run_ops step xs s = Inr s'"
  using assms
proof (induction xs arbitrary: s)
  case (Cons x xs)
  have v: "valid (par s) x" using Cons.prems(2) by simp
  obtain t where t: "step x s = Inr t" using step_defined [OF Cons.prems(1) v Cons.prems(3)] by blast
  have "invar t \<and> par t = par s" using step_simulates [OF Cons.prems(1) v t] by simp
  then show ?case using Cons.IH [of t] Cons.prems t by simp
qed simp

end

end
