(* ===== verification/Disk_KV_Ops.thy ===== *)
theory Disk_KV_Ops
  imports Disk_KV_Correct Op_Refinement
begin

text \<open>
  The operations of the disk index as a refinement of a map: lookups in the store and in the published
  snapshot, insertion, deletion, flag and offset updates, flushes and hot-tail writes, alone and in any
  sequence; the freshly created store; and recovery from the hot tail with masking of reclaimed ranges.
\<close>

unbundle bit_operations_syntax

section \<open>Lookup\<close>

lemma disk_kv_get_raw:
  assumes "dk_store_ok crc32 s"
  shows "disk_kv_get crc32 s h = live (dk_raw crc32 s h)"
proof (cases "map_of (dk_write_buffer s) h")
  case (Some e)
  then show ?thesis by (simp add: disk_kv_get_def dk_raw_def live_def)
next
  case None
  let ?n = "dk_bucket_count s"
  note d = dk_store_okD [OF assms]
  have bk: "dk_bucket s h = hash_bucket ?n h" using assms by (simp add: dk_bucket_hash dk_store_ok_def)
  have b: "hash_bucket ?n h < ?n" using d(1) by (rule hash_bucket_less)
  obtain es where es: "page_holds crc32 (dk_hl s) ?n (hash_bucket ?n h) (dk_pages s ! hash_bucket ?n h) es"
    using d(3) b by (auto simp: pages_ok_def)
  have "pages_map crc32 (dk_hl s) (dk_pages s) h = kmap kv_hash es h"
    using pages_map_bucket [OF d(3), of "hash_bucket ?n h" h es] es by simp
  moreover have "find_in_page es h = live (kmap kv_hash es h)"
    using es find_in_page_lookup [of es h]
    by (auto simp: page_holds_def page_ok_def page_lookup_def live_def split: option.splits)
  ultimately show ?thesis
    using None page_at_file_pages [OF b d(2)] es
    by (simp add: disk_kv_get_def bk dk_raw_def page_holds_def map_add_def)
qed

lemma dk_published_rs_ok:
  assumes "dk_ok crc32 s"
  shows "rs_ok crc32 (dk_snapshot s)" "rs_get_raw crc32 (dk_snapshot s) = dk_raw crc32 s"
proof -
  show ok: "rs_ok crc32 (dk_snapshot s)"
    using assms dk_store_okD(3) [of crc32 s]
    by (simp add: rs_ok_def dk_ok_def dk_published_def dk_pages_published_def)
  show "rs_get_raw crc32 (dk_snapshot s) = dk_raw crc32 s"
    using rs_get_overlay(1) [OF ok] assms
    by (simp add: dk_ok_def dk_published_def dk_pages_published_def dk_raw_def)
qed

lemma dk_raw_hash:
  assumes "dk_store_ok crc32 s" "dk_raw crc32 s h = Some e"
  shows "kv_hash e = h" "length h = dk_hl s"
proof -
  have "kv_hash e = h \<and> length h = dk_hl s"
  proof (cases "map_of (dk_write_buffer s) h")
    case (Some x)
    then have "(h, e) \<in> set (dk_write_buffer s)"
      using assms(2) by (auto simp: dk_raw_def dest: map_of_SomeD)
    then show ?thesis using assms(1) by (auto simp: dk_store_ok_def buffer_ok_def)
  next
    case None
    then have "kmap kv_hash (pages_entries crc32 (dk_hl s) (dk_pages s)) h = Some e"
      using assms(2) by (simp add: dk_raw_def pages_map_def map_add_def)
    then have e: "e \<in> set (pages_entries crc32 (dk_hl s) (dk_pages s))" "kv_hash e = h"
      by (auto dest: kmap_SomeD)
    obtain b es where "page_holds crc32 (dk_hl s) (dk_bucket_count s) b (dk_pages s ! b) es" "e \<in> set es"
      by (rule pages_entries_elim [OF dk_store_okD(3) [OF assms(1)] e(1)]) auto
    then show ?thesis using e(2) by (auto simp: page_holds_def page_ok_def)
  qed
  then show "kv_hash e = h" "length h = dk_hl s" by auto
qed

section \<open>Updates through the write buffer\<close>

definition buffered :: "disk_kv_store \<Rightarrow> bytes \<Rightarrow> kv_entry \<Rightarrow> nat \<Rightarrow> disk_kv_store" where
  "buffered s h e c = s\<lparr> dk_write_buffer := AList.update h e (dk_write_buffer s), dk_entry_count := c \<rparr>"

lemma buffered_ok:
  assumes "dk_store_ok crc32 s" "h = kv_hash e" "length h = dk_hl s"
  shows "dk_store_ok crc32 (buffered s h e c)"
    "dk_raw crc32 (buffered s h e c) = (dk_raw crc32 s)(h \<mapsto> e)"
    "dk_pages_published crc32 s \<Longrightarrow> dk_pages_published crc32 (buffered s h e c)"
    "same_layout s (buffered s h e c)" "log_same s (buffered s h e c)"
  using assms buffer_ok_update [of "dk_hl s" "dk_write_buffer s" e h]
  by (simp_all add: buffered_def dk_store_ok_def dk_raw_def dk_pages_published_def same_layout_def log_same_def
      AList.update_conv' del: fun_upd_apply)

lemma publish_buffered:
  assumes "dk_ok crc32 s" "h = kv_hash e" "length h = dk_hl s"
  shows "dk_ok crc32 (publish_buffer_only (buffered s h e c))"
    "dk_raw crc32 (publish_buffer_only (buffered s h e c)) = (dk_raw crc32 s)(h \<mapsto> e)"
    "same_layout s (publish_buffer_only (buffered s h e c))"
  using assms buffered_ok [of crc32 s h e c] publish_buffer_only_ok [of crc32 "buffered s h e c"]
  by (simp_all add: dk_ok_def dk_published_def publish_buffer_only_keeps)

lemma log_same_index:
  assumes "same_index s t" "log_same t u"
  shows "log_same s u"
  using assms by (fastforce simp: log_same_def same_index_def)

lemma insert_correct:
  assumes "dk_ok crc32 s" "length (kv_hash e) = dk_hl s"
  shows "case disk_kv_insert crc32 s e of
      Inr s' \<Rightarrow> dk_ok crc32 s' \<and> dk_raw crc32 s' = (dk_raw crc32 s)(kv_hash e \<mapsto> e) \<and>
        same_layout s s' \<and> log_same s s'
    | Inl err \<Rightarrow> dk_stage s + 1 = length KV_STAGE_SIZES"
proof -
  define s2 where "s2 = buffered s (kv_hash e) e
    (if map_of (dk_write_buffer s) (kv_hash e) = None \<and> \<not> entry_exists_on_disk crc32 s (kv_hash e)
     then dk_entry_count s + 1 else dk_entry_count s)"
  define s3 where "s3 = (if dk_hot_tail_enabled s2 then
      (let s' = s2\<lparr> dk_hot_buffer := dk_hot_buffer s2 @ [e] \<rparr> in
       if length (dk_hot_buffer s') \<ge> HOT_BUFFER_THRESHOLD then flush_hot_buffer crc32 s' else s') else s2)"
  have run: "disk_kv_insert crc32 s e = (if length (dk_write_buffer s3) \<ge> WRITE_BUFFER_THRESHOLD
      then flush crc32 s3 else Inr (publish_buffer_only s3))"
    by (simp add: disk_kv_insert_def s3_def s2_def buffered_def Let_def)
  have s: "dk_store_ok crc32 s" "dk_pages_published crc32 s" using assms(1) by (auto simp: dk_ok_def dk_published_def)
  note b = buffered_ok [OF s(1) refl assms(2), of "if map_of (dk_write_buffer s) (kv_hash e) = None \<and>
      \<not> entry_exists_on_disk crc32 s (kv_hash e) then dk_entry_count s + 1 else dk_entry_count s", folded s2_def]
  have h: "same_index s2 (s2\<lparr> dk_hot_buffer := x \<rparr>)" for x
    unfolding same_index_def using dk_store_okD(2) [OF b(1)]
    by (intro exI [of _ "dk_pending_voids s2"] exI [of _ "dk_db_file s2"] exI [of _ x]) simp
  have "same_index s2 s3"
    using h [of "dk_hot_buffer s2"] h [of "dk_hot_buffer s2 @ [e]"]
      same_index_trans [OF h same_index_hot(1) [OF same_index_ok(1) [OF h b(1)]], of "dk_hot_buffer s2 @ [e]"]
    by (auto simp: s3_def Let_def)
  note i = this and k = same_index_ok [OF this b(1)]
  have pub: "dk_pages_published crc32 s3" by (rule k(4) [OF b(3) [OF s(2)]])
  have ne: "dk_write_buffer s3 \<noteq> []"
    unfolding k(3) by (simp add: s2_def buffered_def)
  show ?thesis
  proof (cases "length (dk_write_buffer s3) \<ge> WRITE_BUFFER_THRESHOLD")
    case True
    have f: "case flush crc32 s3 of Inr s' \<Rightarrow> flush_post crc32 s3 s' | Inl err \<Rightarrow> dk_stage s3 + 1 = length KV_STAGE_SIZES"
      using flush_correct [OF k(1) pub] ne by simp
    have "log_same s u" if "log_same s3 u" for u
      using log_same_index [OF i that] b(5) by (simp add: log_same_def s2_def buffered_def)
    then show ?thesis
      using True f run k(2) b(2) same_layout_trans [OF b(4) same_index_layout [OF i]] same_layout_trans [of s s3]
      by (auto simp: flush_post_def same_layout_def split: sum.splits)
  next
    case False
    have "log_same s s3" using k(5) by (simp add: log_same_def s2_def buffered_def)
    then show ?thesis
      using False run k b publish_buffer_only_ok [OF pub] same_layout_trans [OF b(4) same_index_layout [OF i]]
      by (simp add: dk_ok_def publish_buffer_only_keeps)
  qed
qed

section \<open>Deletion and in-place updates\<close>

abbreviation with_deleted :: "kv_entry \<Rightarrow> kv_entry" where
  "with_deleted e \<equiv> e\<lparr> kv_type_flags := kv_type_flags e OR KV_FLAG_DELETED \<rparr>"

lemma is_deleted_with_deleted [simp]: "is_deleted (with_deleted e)"
proof -
  have "(kv_type_flags e OR KV_FLAG_DELETED) AND KV_FLAG_DELETED = KV_FLAG_DELETED"
    by (simp add: bit_eq_iff bit_simps)
  then show ?thesis by (simp add: is_deleted_def KV_FLAG_DELETED_def)
qed

text \<open>Replace the live entry of a hash, if there is one.\<close>

definition update_live ::
  "(kv_entry \<Rightarrow> kv_entry) \<Rightarrow> bytes \<Rightarrow> (bytes \<Rightarrow> kv_entry option) \<Rightarrow> bytes \<Rightarrow> kv_entry option" where
  "update_live g h m = (case live (m h) of None \<Rightarrow> m | Some e \<Rightarrow> m(h \<mapsto> g e))"

lemma live_SomeD: "live r = Some e \<Longrightarrow> r = Some e \<and> \<not> is_deleted e"
  by (auto simp: live_def split: option.splits if_splits)

text \<open>The three operations that look an entry up, change it and buffer it.\<close>

lemma modify_correct:
  assumes "dk_ok crc32 s" "\<And>e. kv_hash (g e) = kv_hash e"
    and "s' = (case disk_kv_get crc32 s h of None \<Rightarrow> s
      | Some e \<Rightarrow> publish_buffer_only (buffered s h (g e) (c e)))"
  shows "dk_ok crc32 s' \<and> dk_raw crc32 s' = update_live g h (dk_raw crc32 s) \<and> same_layout s s'"
proof (cases "disk_kv_get crc32 s h")
  case None
  then have "live (dk_raw crc32 s h) = None"
    using disk_kv_get_raw assms(1) by (simp add: dk_ok_def)
  then show ?thesis using None assms(1,3) by (simp add: update_live_def)
next
  case (Some e)
  have ok: "dk_store_ok crc32 s" using assms(1) by (simp add: dk_ok_def)
  then have l: "live (dk_raw crc32 s h) = Some e" using Some disk_kv_get_raw by simp
  then have r: "dk_raw crc32 s h = Some e" using live_SomeD by blast
  have e: "h = kv_hash (g e)" "length h = dk_hl s" using dk_raw_hash [OF ok r] assms(2) by auto
  show ?thesis
    using publish_buffered [OF assms(1) e] Some assms(3) l by (simp add: update_live_def del: fun_upd_apply)
qed

lemma mark_deleted_correct:
  assumes "dk_ok crc32 s"
  shows "dk_ok crc32 (mark_deleted crc32 s h) \<and>
    dk_raw crc32 (mark_deleted crc32 s h) = update_live with_deleted h (dk_raw crc32 s) \<and>
    same_layout s (mark_deleted crc32 s h)"
  by (rule modify_correct [OF assms, where c = "\<lambda>_. dk_entry_count s - 1"])
     (simp_all add: mark_deleted_def buffered_def split: option.split)

lemma update_flags_correct:
  assumes "dk_ok crc32 s"
  shows "dk_ok crc32 (snd (disk_kv_update_flags crc32 s h fl)) \<and>
    dk_raw crc32 (snd (disk_kv_update_flags crc32 s h fl)) =
      update_live (\<lambda>e. e\<lparr> kv_type_flags := (kv_type_flags e AND 0x0F) OR (fl AND 0xF0) \<rparr>) h (dk_raw crc32 s) \<and>
    same_layout s (snd (disk_kv_update_flags crc32 s h fl))"
  by (rule modify_correct [OF assms, where c = "\<lambda>_. dk_entry_count s"])
     (simp_all add: disk_kv_update_flags_def buffered_def Let_def split: option.split)

lemma update_offset_correct:
  assumes "dk_ok crc32 s"
  shows "dk_ok crc32 (snd (disk_kv_update_offset crc32 s h off)) \<and>
    dk_raw crc32 (snd (disk_kv_update_offset crc32 s h off)) = update_live (\<lambda>e. e\<lparr> kv_offset := off \<rparr>) h (dk_raw crc32 s) \<and>
    same_layout s (snd (disk_kv_update_offset crc32 s h off))"
  by (rule modify_correct [OF assms, where c = "\<lambda>_. dk_entry_count s"])
     (simp_all add: disk_kv_update_offset_def buffered_def split: option.split)

text \<open>The batch resolves its hashes in the snapshot and in the buffer as it grows.\<close>

lemma mark_deleted_loop_correct:
  assumes "dk_store_ok crc32 s" "dk_pages_published crc32 s"
    and "\<And>h. map_of (dk_write_buffer s) h = None \<Longrightarrow> rs_get_raw crc32 snap h = dk_raw crc32 s h"
  shows "let s' = mark_deleted_loop crc32 snap hs s in
    dk_store_ok crc32 s' \<and> dk_pages_published crc32 s' \<and> same_layout s s' \<and>
    dk_raw crc32 s' = fold (update_live with_deleted) hs (dk_raw crc32 s)"
  using assms
proof (induction hs arbitrary: s)
  case Nil
  then show ?case by simp
next
  case (Cons h hs)
  define found where "found = (case map_of (dk_write_buffer s) h of
      Some x \<Rightarrow> if is_deleted x then None else Some x
    | None \<Rightarrow> (case rs_get_raw crc32 snap h of Some e \<Rightarrow> if is_deleted e then None else Some e | None \<Rightarrow> None))"
  have found: "found = live (dk_raw crc32 s h)"
  proof (cases "map_of (dk_write_buffer s) h")
    case None
    then show ?thesis using Cons.prems(3) by (simp add: found_def live_def)
  next
    case (Some e)
    then show ?thesis by (simp add: found_def live_def dk_raw_def)
  qed
  define t where "t = (case found of None \<Rightarrow> s | Some e \<Rightarrow> buffered s h (with_deleted e) (dk_entry_count s - 1))"
  have step: "mark_deleted_loop crc32 snap (h # hs) s = mark_deleted_loop crc32 snap hs t"
    unfolding t_def found_def mark_deleted_loop.simps Let_def buffered_def ..
  have t: "dk_store_ok crc32 t \<and> dk_pages_published crc32 t \<and> same_layout s t \<and>
      dk_raw crc32 t = update_live with_deleted h (dk_raw crc32 s) \<and>
      (\<forall>k. map_of (dk_write_buffer t) k = None \<longrightarrow> rs_get_raw crc32 snap k = dk_raw crc32 t k)"
  proof (cases found)
    case None
    then show ?thesis using Cons.prems found by (simp add: t_def update_live_def)
  next
    case (Some e)
    then have l: "live (dk_raw crc32 s h) = Some e" using found by simp
    then have r: "dk_raw crc32 s h = Some e" using live_SomeD by blast
    have e: "h = kv_hash (with_deleted e)" "length h = dk_hl s" using dk_raw_hash [OF Cons.prems(1) r] by auto
    note b = buffered_ok [OF Cons.prems(1) e, of "dk_entry_count s - 1"]
    have "\<forall>k. map_of (dk_write_buffer (buffered s h (with_deleted e) (dk_entry_count s - 1))) k = None \<longrightarrow>
        rs_get_raw crc32 snap k = ((dk_raw crc32 s)(h \<mapsto> with_deleted e)) k"
      using Cons.prems(3) by (auto simp: buffered_def AList.update_conv')
    then show ?thesis
      using b Cons.prems(2) Some l by (simp add: t_def update_live_def del: fun_upd_apply)
  qed
  then show ?case
    using Cons.IH [of t] same_layout_trans [of s t] unfolding step by (simp add: Let_def)
qed

lemma mark_deleted_batch_correct:
  assumes "dk_ok crc32 s"
  shows "dk_ok crc32 (mark_deleted_batch crc32 s hs) \<and>
    dk_raw crc32 (mark_deleted_batch crc32 s hs) = fold (update_live with_deleted) hs (dk_raw crc32 s) \<and>
    same_layout s (mark_deleted_batch crc32 s hs)"
proof -
  have "dk_store_ok crc32 s" "dk_pages_published crc32 s" using assms by (auto simp: dk_ok_def dk_published_def)
  from mark_deleted_loop_correct [OF this, of "dk_snapshot s" hs]
  show ?thesis
    using dk_published_rs_ok(2) [OF assms] publish_buffer_only_ok
    by (simp add: mark_deleted_batch_def Let_def dk_ok_def publish_buffer_only_keeps)
qed

section \<open>Sequences of operations\<close>

datatype kv_op =
    Op_insert kv_entry
  | Op_mark_deleted bytes
  | Op_mark_deleted_batch "bytes list"
  | Op_update_flags bytes u8
  | Op_update_offset bytes u64
  | Op_flush
  | Op_flush_hot_buffer
  | Op_force_flush_hot_buffer

fun kv_step :: "(bytes \<Rightarrow> u32) \<Rightarrow> kv_op \<Rightarrow> disk_kv_store \<Rightarrow> disk_kv_store engine_result" where
  "kv_step crc32 (Op_insert e) s = disk_kv_insert crc32 s e"
| "kv_step crc32 (Op_mark_deleted h) s = Inr (mark_deleted crc32 s h)"
| "kv_step crc32 (Op_mark_deleted_batch hs) s = Inr (mark_deleted_batch crc32 s hs)"
| "kv_step crc32 (Op_update_flags h fl) s = Inr (snd (disk_kv_update_flags crc32 s h fl))"
| "kv_step crc32 (Op_update_offset h off) s = Inr (snd (disk_kv_update_offset crc32 s h off))"
| "kv_step crc32 Op_flush s = flush crc32 s"
| "kv_step crc32 Op_flush_hot_buffer s = Inr (flush_hot_buffer crc32 s)"
| "kv_step crc32 Op_force_flush_hot_buffer s = Inr (force_flush_hot_buffer crc32 s)"

text \<open>What each operation does to the map from hashes to entries.\<close>

fun kv_spec :: "kv_op \<Rightarrow> (bytes \<Rightarrow> kv_entry option) \<Rightarrow> bytes \<Rightarrow> kv_entry option" where
  "kv_spec (Op_insert e) m = m(kv_hash e \<mapsto> e)"
| "kv_spec (Op_mark_deleted h) m = update_live with_deleted h m"
| "kv_spec (Op_mark_deleted_batch hs) m = fold (update_live with_deleted) hs m"
| "kv_spec (Op_update_flags h fl) m =
    update_live (\<lambda>e. e\<lparr> kv_type_flags := (kv_type_flags e AND 0x0F) OR (fl AND 0xF0) \<rparr>) h m"
| "kv_spec (Op_update_offset h off) m = update_live (\<lambda>e. e\<lparr> kv_offset := off \<rparr>) h m"
| "kv_spec Op_flush m = m"
| "kv_spec Op_flush_hot_buffer m = m"
| "kv_spec Op_force_flush_hot_buffer m = m"

fun kv_op_ok :: "nat \<times> nat \<Rightarrow> kv_op \<Rightarrow> bool" where
  "kv_op_ok (hl, stage) (Op_insert e) = (length (kv_hash e) = hl)"
| "kv_op_ok (hl, stage) _ = True"

lemma kv_step_simulates:
  assumes "dk_ok crc32 s" "kv_op_ok (dk_hl s, dk_stage s) x"
  shows "case kv_step crc32 x s of
      Inr s' \<Rightarrow> dk_ok crc32 s' \<and> dk_raw crc32 s' = kv_spec x (dk_raw crc32 s) \<and> same_layout s s'
    | Inl err \<Rightarrow> dk_stage s + 1 = length KV_STAGE_SIZES"
proof (cases x)
  case (Op_insert e)
  then show ?thesis using insert_correct [OF assms(1), of e] assms(2) by (auto split: sum.splits)
next
  case (Op_mark_deleted h)
  then show ?thesis using mark_deleted_correct [OF assms(1)] by simp
next
  case (Op_mark_deleted_batch hs)
  then show ?thesis using mark_deleted_batch_correct [OF assms(1)] by simp
next
  case (Op_update_flags h fl)
  then show ?thesis using update_flags_correct [OF assms(1)] by simp
next
  case (Op_update_offset h off)
  then show ?thesis using update_offset_correct [OF assms(1)] by simp
next
  case Op_flush
  then show ?thesis
    using flush_correct [of crc32 s] assms(1) by (auto simp: dk_ok_def dk_published_def flush_post_def split: sum.splits)
next
  case Op_flush_hot_buffer
  then show ?thesis
    using same_index_ok [OF same_index_hot(1), of crc32 s] same_index_layout [OF same_index_hot(1), of crc32 s] assms(1)
    by (simp add: dk_ok_def)
next
  case Op_force_flush_hot_buffer
  then show ?thesis
    using same_index_ok [OF same_index_hot(2), of crc32 s] same_index_layout [OF same_index_hot(2), of crc32 s] assms(1)
    by (simp add: dk_ok_def)
qed

interpretation disk_index: op_refinement "dk_ok crc32" "dk_raw crc32" "kv_step crc32" kv_spec kv_op_ok
    "\<lambda>s. (dk_hl s, dk_stage s)" "\<lambda>(hl, stage). stage + 1 < length KV_STAGE_SIZES"
  for crc32 :: "bytes \<Rightarrow> u32"
proof
  fix s x s'
  assume "dk_ok crc32 s" "kv_op_ok (dk_hl s, dk_stage s) x" "kv_step crc32 x s = Inr s'"
  then show "dk_ok crc32 s' \<and> dk_raw crc32 s' = kv_spec x (dk_raw crc32 s) \<and>
      (dk_hl s', dk_stage s') = (dk_hl s, dk_stage s)"
    using kv_step_simulates [of crc32 s x] by (simp add: same_layout_def)
next
  fix s x
  assume "dk_ok crc32 s" "kv_op_ok (dk_hl s, dk_stage s) x"
    "case (dk_hl s, dk_stage s) of (hl, stage) \<Rightarrow> stage + 1 < length KV_STAGE_SIZES"
  then show "\<exists>s'. kv_step crc32 x s = Inr s'"
    using kv_step_simulates [of crc32 s x] by (auto split: sum.splits)
qed

section \<open>The created store\<close>

lemma zero_pages_length:
  assumes "off \<le> length f \<or> 0 < n"
  shows "length (zero_pages f off hl n) = max (length f) (off + n * page_size hl)"
  using assms
proof (induction n)
  case 0
  then show ?case by (simp add: zero_pages_def)
next
  case (Suc n)
  have "zero_pages f off hl (Suc n) = write_page (zero_pages f off hl n) off hl n (replicate (page_size hl) 0)"
    by (simp add: zero_pages_def)
  moreover have "length (zero_pages f off hl n) = (if n = 0 then length f else max (length f) (off + n * page_size hl))"
    using Suc by (cases "n = 0") (simp_all add: zero_pages_def)
  ultimately show ?case by (auto simp: write_page_def bucket_page_offset_def max_def)
qed

lemma zero_pages_read:
  assumes "b < n"
  shows "page_at (zero_pages f off hl n) off hl b = Some (replicate (page_size hl) 0)"
  using assms
proof (induction n)
  case (Suc n)
  have z: "zero_pages f off hl (Suc n) = write_page (zero_pages f off hl n) off hl n (replicate (page_size hl) 0)"
    by (simp add: zero_pages_def)
  show ?case
  proof (cases "b = n")
    case True
    then show ?thesis by (simp add: z page_at_def write_page_def)
  next
    case False
    then have b: "b < n" using Suc.prems by simp
    have "off + b * page_size hl + page_size hl \<le> off + n * page_size hl" using b by (rule page_end_le)
    moreover have "off + n * page_size hl \<le> length (zero_pages f off hl n)" using zero_pages_length [of off f n hl] b by simp
    ultimately have "page_at (zero_pages f off hl (Suc n)) off hl b = page_at (zero_pages f off hl n) off hl b"
      unfolding z page_at_def write_page_def bucket_page_offset_def by (intro read_write_before) simp_all
    then show ?thesis using Suc.IH [OF b] by simp
  qed
qed simp

lemma zero_pages_region:
  assumes "0 < n"
  shows "region_ok crc32 off hl n (zero_pages f off hl n)"
    "file_pages (zero_pages f off hl n) off hl n = replicate n (replicate (page_size hl) 0)"
proof -
  have len: "off + n * page_size hl \<le> length (zero_pages f off hl n)" using zero_pages_length [of off f n hl] assms by simp
  show p: "file_pages (zero_pages f off hl n) off hl n = replicate n (replicate (page_size hl) 0)"
  proof (rule nth_equalityI)
    fix b
    assume "b < length (file_pages (zero_pages f off hl n) off hl n)"
    then have b: "b < n" by simp
    then show "file_pages (zero_pages f off hl n) off hl n ! b = replicate n (replicate (page_size hl) 0) ! b"
      using page_at_file_pages [OF b len] zero_pages_read [OF b] by simp
  qed simp
  have "page_holds crc32 hl n b (replicate (page_size hl) 0) []" for b
    by (simp add: page_holds_def empty_page_reads_empty page_ok_def)
  then have "pages_ok crc32 hl (replicate n (replicate (page_size hl) 0))"
    using assms by (auto simp: pages_ok_def)
  then show "region_ok crc32 off hl n (zero_pages f off hl n)"
    using len p by (simp add: region_ok_def)
qed

lemma stage_has_buckets:
  assumes "stage < length KV_STAGE_SIZES"
  shows "0 < snd (stage_params stage (page_size (hash_length a)))"
proof -
  have "stage \<in> {0, 1, 2, 3, 4, 5, 6, 7, 8, 9}" using assms by (auto simp: KV_STAGE_SIZES_def)
  then show ?thesis
    by (cases a) (auto simp: hash_length_def page_size_def page_consts entry_size_def stage_params_def
        KV_STAGE_SIZES_def buckets_for_block_def)
qed

lemma nvt_bucket_count_new [simp]: "nvt_bucket_count (nvt_new c n) = n"
  by (simp add: nvt_bucket_count_def nvt_new_def)

lemma pages_map_empty:
  "pages_map crc32 hl (replicate n (replicate (page_size hl) 0)) = Map.empty"
  by (simp add: pages_map_def pages_entries_def empty_page_reads_empty concat_replicate_trivial kmap_def)

lemma disk_kv_create_ok:
  assumes "stage < length KV_STAGE_SIZES"
    and "kv_off + fst (stage_params stage (page_size (hash_length a))) \<le> hot_off"
  shows "dk_ok crc32 (disk_kv_create crc32 f a kv_off hot_off stage)"
    "dk_raw crc32 (disk_kv_create crc32 f a kv_off hot_off stage) = Map.empty"
    "dk_hash_algo (disk_kv_create crc32 f a kv_off hot_off stage) = a"
    "dk_stage (disk_kv_create crc32 f a kv_off hot_off stage) = stage"
proof -
  let ?hl = "hash_length a"
  obtain bl n where sp: "stage_params stage (page_size ?hl) = (bl, n)" by fastforce
  define nvt where "nvt = nvt_new HashConverter n"
  define f1 where "f1 = zero_pages f kv_off ?hl n"
  let ?P = "replicate n (replicate (page_size ?hl) (0 :: u8))"
  have "min stage (length KV_STAGE_SIZES - 1) = stage" using assms(1) by simp
  then have c: "disk_kv_create crc32 f a kv_off hot_off stage =
     \<lparr> dk_nvt = nvt, dk_write_buffer = [], dk_db_file = f1,
       dk_kv_block_offset = kv_off, dk_kv_block_length = bl,
       dk_hot_tail_offset = hot_off, dk_hot_tail_enabled = True,
       dk_stage = stage, dk_hash_algo = a, dk_entry_count = 0, dk_bucket_count = n, dk_hot_buffer = [],
       dk_snapshot = read_snapshot_new crc32 [] nvt n a 0 ?P,
       dk_shared_nvt = nvt, dk_needs_rebuild = False, dk_needs_expansion = None,
       dk_transaction_depth = 0, dk_pending_voids = [] \<rparr>"
    by (simp add: disk_kv_create_def sp f1_def nvt_def Let_def)
  have n: "0 < n" using stage_has_buckets [OF assms(1), of a] sp by simp
  note z = zero_pages_region [OF n, where off = kv_off and hl = ?hl and f = f, folded f1_def]
  have cnt: "length (build_page_type_counts crc32 ?P a) = 16"
    using add_page_counts_nth [of "replicate 16 0" 0] by (simp add: build_page_type_counts_def)
  show "dk_ok crc32 (disk_kv_create crc32 f a kv_off hot_off stage)"
    using z cnt assms sp read_snapshot_new_counts [of crc32 "[]" nvt n a 0 ?P]
    unfolding c dk_ok_def dk_store_ok_def dk_published_def dk_pages_published_def
    by (simp add: buffer_ok_def read_snapshot_new_def read_snapshot_new_with_page_type_counts_def nvt_def)
  show "dk_raw crc32 (disk_kv_create crc32 f a kv_off hot_off stage) = Map.empty"
    unfolding c by (simp add: dk_raw_def z(2) pages_map_empty)
  show "dk_hash_algo (disk_kv_create crc32 f a kv_off hot_off stage) = a"
    "dk_stage (disk_kv_create crc32 f a kv_off hot_off stage) = stage"
    unfolding c by simp_all
qed

section \<open>Reclaimed ranges\<close>

definition ranges_set :: "(nat \<times> nat) list \<Rightarrow> nat set" where
  "ranges_set rs = (\<Union>r\<in>set rs. {fst r..<snd r})"

lemma ranges_set_simps [simp]:
  "ranges_set [] = {}" "ranges_set (r # rs) = {fst r..<snd r} \<union> ranges_set rs"
  "ranges_set (xs @ ys) = ranges_set xs \<union> ranges_set ys"
  by (auto simp: ranges_set_def)

lemma ranges_set_last:
  assumes "rs \<noteq> []"
  shows "ranges_set rs = ranges_set (butlast rs) \<union> {fst (last rs)..<snd (last rs)}"
proof -
  have "rs = butlast rs @ [last rs]" using assms by simp
  then have "ranges_set rs = ranges_set (butlast rs @ [last rs])" by (rule arg_cong)
  then show ?thesis by simp
qed

text \<open>Ranges in ascending order with gaps between them.\<close>

definition separated :: "(nat \<times> nat) list \<Rightarrow> bool" where
  "separated rs \<longleftrightarrow> sorted_wrt (\<lambda>x y. snd x < fst y) rs \<and> (\<forall>r\<in>set rs. fst r < snd r)"

lemma separated_last:
  assumes "separated rs" "rs \<noteq> []"
  shows "separated (butlast rs)" "\<forall>r\<in>set (butlast rs). snd r < fst (last rs)" "fst (last rs) < snd (last rs)"
proof -
  have eq: "rs = butlast rs @ [last rs]" using assms(2) by simp
  have "separated (butlast rs @ [last rs])" using assms(1) eq by simp
  then show "separated (butlast rs)" "\<forall>r\<in>set (butlast rs). snd r < fst (last rs)" "fst (last rs) < snd (last rs)"
    by (auto simp: separated_def sorted_wrt_append)
qed

lemma merge_ranges_correct:
  assumes "separated merged" "sorted (map fst rest)" "\<forall>r\<in>set rest. fst r < snd r"
    and "merged \<noteq> [] \<Longrightarrow> \<forall>r\<in>set rest. fst (last merged) \<le> fst r"
  shows "separated (merge_ranges merged rest) \<and>
    ranges_set (merge_ranges merged rest) = ranges_set merged \<union> ranges_set rest"
  using assms
proof (induction merged rest rule: merge_ranges.induct)
  case (1 merged)
  then show ?case by simp
next
  case (2 merged a b rest)
  show ?case
  proof (cases "merged \<noteq> [] \<and> a \<le> snd (last merged)")
    case True
    let ?l = "last merged"
    let ?m = "butlast merged @ [(fst ?l, max (snd ?l) b)]"
    have la: "fst ?l \<le> a" "a < b" using "2.prems"(3,4) True by auto
    note sl = separated_last [OF "2.prems"(1)]
    have "separated ?m"
      using sl True by (auto simp: separated_def sorted_wrt_append max_def)
    then have "separated (merge_ranges ?m rest) \<and> ranges_set (merge_ranges ?m rest) = ranges_set ?m \<union> ranges_set rest"
      using "2.prems"(2-4) True la by (intro "2.IH"(1)) auto
    moreover have "{fst ?l..<max (snd ?l) b} = {fst ?l..<snd ?l} \<union> {a..<b}"
      using la True sl(3) by (auto simp: max_def)
    then have "ranges_set ?m = ranges_set merged \<union> {a..<b}"
      using ranges_set_last [of merged] True by auto
    ultimately show ?thesis using True by auto
  next
    case False
    have "separated (merged @ [(a, b)])"
    proof (cases "merged = []")
      case True
      then show ?thesis using "2.prems"(3) by (simp add: separated_def)
    next
      case ne: False
      then have "snd (last merged) < a" using False by simp
      moreover have "\<forall>r\<in>set merged. r = last merged \<or> snd r < fst (last merged)"
        using separated_last(2) [OF "2.prems"(1) ne] ne
        by (metis append_butlast_last_id in_set_conv_decomp_last rotate1.simps(2) set_ConsD set_rotate1)
      ultimately show ?thesis
        using "2.prems"(1,3) separated_last(3) [OF "2.prems"(1) ne]
        by (fastforce simp: separated_def sorted_wrt_append)
    qed
    then have "separated (merge_ranges (merged @ [(a, b)]) rest) \<and>
        ranges_set (merge_ranges (merged @ [(a, b)]) rest) = ranges_set (merged @ [(a, b)]) \<union> ranges_set rest"
      using "2.prems"(2,3) False by (intro "2.IH"(2)) auto
    then show ?thesis using False by (auto simp: Un_assoc)
  qed
qed

text \<open>The bytes that a list of voids gives back.\<close>

definition reclaimed :: "void_record list \<Rightarrow> nat set" where
  "reclaimed voids = (\<Union>v\<in>set voids. if unat (vr_offset v) + unat (vr_size v) < 2 ^ 64
     then {unat (vr_offset v)..<unat (vr_offset v) + unat (vr_size v)} else {})"

lemma set_map_filter_iff: "y \<in> set (List.map_filter f xs) \<longleftrightarrow> (\<exists>x\<in>set xs. f x = Some y)"
  by (induction xs) (auto simp: map_filter_simps split: option.splits)

lemma build_merged_correct:
  "separated (build_merged_void_ranges voids)"
  "ranges_set (build_merged_void_ranges voids) = reclaimed voids"
proof -
  define rs where "rs = List.map_filter (\<lambda>v. let off = unat (vr_offset v); sz = unat (vr_size v); end' = off + sz in
           if sz = 0 then None else if end' \<ge> 2 ^ 64 then None else if end' \<le> off then None
           else Some (off, end')) voids"
  define srt where "srt = sort_key fst (sort_key snd rs)"
  have b: "build_merged_void_ranges voids = merge_ranges [] srt"
    by (simp add: build_merged_void_ranges_def rs_def srt_def Let_def)
  have set: "set srt = set rs" by (simp add: srt_def)
  have mem: "r \<in> set rs \<longleftrightarrow> (\<exists>v\<in>set voids. unat (vr_size v) \<noteq> 0 \<and> unat (vr_offset v) + unat (vr_size v) < 2 ^ 64 \<and>
      r = (unat (vr_offset v), unat (vr_offset v) + unat (vr_size v)))" for r
    by (auto simp: rs_def set_map_filter_iff Let_def split: if_splits)
  have sorted: "sorted (map fst srt)" unfolding srt_def by (rule sorted_sort_key)
  have c: "separated (merge_ranges [] srt) \<and> ranges_set (merge_ranges [] srt) = ranges_set [] \<union> ranges_set srt"
    by (rule merge_ranges_correct) (auto simp: separated_def set mem sorted)
  have "ranges_set srt = reclaimed voids"
  proof (rule set_eqI)
    fix x
    let ?in = "\<lambda>v. unat (vr_offset v) + unat (vr_size v) < 2 ^ 64 \<and>
        unat (vr_offset v) \<le> x \<and> x < unat (vr_offset v) + unat (vr_size v)"
    have "x \<in> ranges_set srt \<longleftrightarrow> (\<exists>r. r \<in> set rs \<and> fst r \<le> x \<and> x < snd r)"
      by (auto simp: ranges_set_def set Bex_def)
    also have "\<dots> \<longleftrightarrow> (\<exists>v\<in>set voids. ?in v)"
    proof
      assume "\<exists>v\<in>set voids. ?in v"
      then obtain v where v: "v \<in> set voids" "?in v" by blast
      then have "unat (vr_size v) \<noteq> 0" by linarith
      then have "(unat (vr_offset v), unat (vr_offset v) + unat (vr_size v)) \<in> set rs" using v mem by blast
      then show "\<exists>r. r \<in> set rs \<and> fst r \<le> x \<and> x < snd r" using v(2) by force
    qed (auto simp: mem)
    also have "\<dots> \<longleftrightarrow> x \<in> reclaimed voids" by (auto simp: reclaimed_def split: if_splits)
    finally show "x \<in> ranges_set srt \<longleftrightarrow> x \<in> reclaimed voids" .
  qed
  then show "separated (build_merged_void_ranges voids)"
    "ranges_set (build_merged_void_ranges voids) = reclaimed voids"
    using c b by simp_all
qed

lemma partition_point_props:
  "partition_point p xs \<le> length xs"
  "i < partition_point p xs \<Longrightarrow> p (xs ! i)"
  "partition_point p xs < length xs \<Longrightarrow> \<not> p (xs ! partition_point p xs)"
  by (induction xs arbitrary: i) (auto simp: nth_Cons split: nat.splits if_splits)

lemma entry_overlaps_iff:
  assumes "separated rs"
  shows "entry_overlaps_void_ranges a b rs \<longleftrightarrow> {a..<b} \<inter> ranges_set rs \<noteq> {}"
proof
  let ?p = "\<lambda>(_, void_end). void_end \<le> a"
  let ?i = "partition_point ?p rs"
  note pp = partition_point_props [where p = ?p and xs = rs]
  {
    assume "entry_overlaps_void_ranges a b rs"
    then have i: "a < b" "?i < length rs" "fst (rs ! ?i) < b"
      by (auto simp: entry_overlaps_void_ranges_def Let_def split: if_splits)
    have e: "a < snd (rs ! ?i)" using pp(3) [OF i(2)] by (simp add: case_prod_unfold)
    have "fst (rs ! ?i) < snd (rs ! ?i)" using assms i(2) by (auto simp: separated_def)
    then have "max a (fst (rs ! ?i)) \<in> {a..<b} \<inter> {fst (rs ! ?i)..<snd (rs ! ?i)}" using i e by auto
    moreover have "{fst (rs ! ?i)..<snd (rs ! ?i)} \<subseteq> ranges_set rs"
      unfolding ranges_set_def using nth_mem [OF i(2)] by blast
    ultimately show "{a..<b} \<inter> ranges_set rs \<noteq> {}" by blast
  next
    assume "{a..<b} \<inter> ranges_set rs \<noteq> {}"
    then obtain x r where r: "a \<le> x" "x < b" "r \<in> set rs" "fst r \<le> x" "x < snd r"
      unfolding ranges_set_def by fastforce
    then obtain j where "j < length rs" "rs ! j = r" by (auto simp: in_set_conv_nth)
    then have x: "a \<le> x" "x < b" "j < length rs" "fst (rs ! j) \<le> x" "x < snd (rs ! j)" using r by auto
    have le: "?i \<le> j"
    proof (rule ccontr)
      assume "\<not> ?i \<le> j"
      then have "snd (rs ! j) \<le> a" using pp(2) [of j] by (simp add: case_prod_unfold)
      then show False using x by simp
    qed
    then have "fst (rs ! ?i) \<le> fst (rs ! j)"
    proof (cases "?i = j")
      case False
      then have "snd (rs ! ?i) < fst (rs ! j)"
        using assms le x(3) by (auto simp: separated_def sorted_wrt_iff_nth_less)
      moreover have "fst (rs ! ?i) < snd (rs ! ?i)" using assms le x(3) by (auto simp: separated_def)
      ultimately show ?thesis by simp
    qed simp
    then show "entry_overlaps_void_ranges a b rs"
      using x le by (auto simp: entry_overlaps_void_ranges_def Let_def)
  }
qed

section \<open>Opening\<close>

definition entry_end :: "kv_entry \<Rightarrow> nat" where
  "entry_end e = min (unat (kv_offset e) + unat (kv_total_length e)) (2 ^ 64 - 1)"

abbreviation in_reclaimed :: "void_record list \<Rightarrow> kv_entry \<Rightarrow> bool" where
  "in_reclaimed voids e \<equiv> {unat (kv_offset e)..<entry_end e} \<inter> reclaimed voids \<noteq> {}"

lemma mask_voided_Cons:
  "mask_voided ranges (e # es) buf v =
    (if map_of buf (kv_hash e) = None \<and> entry_overlaps_void_ranges (unat (kv_offset e)) (entry_end e) ranges
     then mask_voided ranges es (AList.update (kv_hash e) (with_deleted e) buf) (v + 1)
     else mask_voided ranges es buf v)"
  by (simp add: entry_end_def Let_def)

lemma mask_voided_correct:
  assumes "buffer_ok hl buf" "distinct (map kv_hash es)" "\<forall>e\<in>set es. length (kv_hash e) = hl"
    and "mask_voided ranges es buf v = (buf', v')"
  shows "buffer_ok hl buf' \<and> map_of buf' h = (case map_of buf h of Some x \<Rightarrow> Some x
    | None \<Rightarrow> (case kmap kv_hash es h of
        Some e \<Rightarrow> if entry_overlaps_void_ranges (unat (kv_offset e)) (entry_end e) ranges
          then Some (with_deleted e) else None
      | None \<Rightarrow> None))"
  using assms
proof (induction es arbitrary: buf v)
  case Nil
  then show ?case by (simp split: option.split)
next
  case (Cons e es)
  let ?ov = "\<lambda>e. entry_overlaps_void_ranges (unat (kv_offset e)) (entry_end e) ranges"
  have ne: "kmap kv_hash es (kv_hash e) = None" using Cons.prems(2) by (simp add: kmap_None_iff)
  show ?case
  proof (cases "map_of buf (kv_hash e) = None \<and> ?ov e")
    case True
    let ?b = "AList.update (kv_hash e) (with_deleted e) buf"
    have "buffer_ok hl ?b" using Cons.prems(1,3) by (intro buffer_ok_update) simp_all
    moreover have "mask_voided ranges es ?b (v + 1) = (buf', v')" using Cons.prems(4) True unfolding mask_voided_Cons by simp
    ultimately have "buffer_ok hl buf' \<and> map_of buf' h = (case map_of ?b h of Some x \<Rightarrow> Some x
      | None \<Rightarrow> (case kmap kv_hash es h of Some e \<Rightarrow> if ?ov e then Some (with_deleted e) else None | None \<Rightarrow> None))"
      using Cons.prems(2,3) by (intro Cons.IH) simp_all
    then show ?thesis using True ne by (auto simp: AList.update_conv' split: option.splits)
  next
    case False
    then have "mask_voided ranges es buf v = (buf', v')" using Cons.prems(4) unfolding mask_voided_Cons by (simp split: if_splits)
    then have "buffer_ok hl buf' \<and> map_of buf' h = (case map_of buf h of Some x \<Rightarrow> Some x
      | None \<Rightarrow> (case kmap kv_hash es h of Some e \<Rightarrow> if ?ov e then Some (with_deleted e) else None | None \<Rightarrow> None))"
      using Cons.prems(1-3) by (intro Cons.IH) simp_all
    then show ?thesis using False ne by (auto split: option.splits)
  qed
qed

lemma read_pages_strict_all:
  assumes "off + n * page_size hl \<le> length f"
  shows "read_pages_strict f off hl [0..<n] = Inr (file_pages f off hl n)"
proof -
  have "read_pages_strict f off hl bs = Inr (map (\<lambda>b. file_pages f off hl n ! b) bs)" if "set bs \<subseteq> {..<n}" for bs
    using that
  proof (induction bs)
    case (Cons b bs)
    then show ?case using page_at_file_pages [OF _ assms, of b] by (simp add: ok_or_def)
  qed simp
  moreover have "set [0..<n] \<subseteq> {..<n}" by auto
  ultimately have "read_pages_strict f off hl [0..<n] = Inr (map (\<lambda>b. file_pages f off hl n ! b) [0..<n])" by blast
  then show ?thesis by (simp add: map_nth [of "file_pages f off hl n", simplified])
qed

text \<open>Opening a file whose pages hold their buckets, with a valid hot buffer.\<close>

lemma disk_kv_open_correct:
  fixes crc32 f a kv_off hot_off stage writes voids
  defines "hl \<equiv> hash_length a"
  assumes st: "stage < length KV_STAGE_SIZES" "stage_params stage (page_size hl) = (bl, n)" "kv_off + bl \<le> hot_off"
    and reg: "region_ok crc32 kv_off hl n f"
    and ws: "\<forall>e\<in>set writes. length (kv_hash e) = hl"
  shows "\<exists>r. disk_kv_open crc32 f a kv_off hot_off stage writes voids 1 = Inr r \<and> dk_ok crc32 r \<and>
    \<not> dk_needs_rebuild r \<and> dk_hash_algo r = a \<and> dk_stage r = stage \<and>
    (\<forall>h. dk_raw crc32 r h = (case kmap kv_hash (rev writes) h of Some e \<Rightarrow> Some e
      | None \<Rightarrow> (case pages_map crc32 hl (file_pages f kv_off hl n) h of
          Some e \<Rightarrow> if in_reclaimed voids e then Some (with_deleted e) else Some e
        | None \<Rightarrow> None)))"
proof -
  let ?P = "file_pages f kv_off hl n" and ?nvt = "nvt_new HashConverter n"
  let ?es = "pages_entries crc32 hl ?P"
  define buf0 where "buf0 = insert_overflow writes []"
  define rs where "rs = build_merged_void_ranges voids"
  define bv where "bv = (if voids = [] then (buf0, 0) else mask_voided rs ?es buf0 0)"
  obtain buf v where bv2: "bv = (buf, v)" by fastforce
  have buf0: "fold (\<lambda>e. AList.update (kv_hash e) e) writes [] = buf0" by (simp add: buf0_def insert_overflow_def)
  have len: "kv_off + n * page_size hl \<le> length f" and pok: "pages_ok crc32 hl ?P"
    using reg by (auto simp: region_ok_def)
  have es: "distinct (map kv_hash ?es)" "\<forall>e\<in>set ?es. length (kv_hash e) = hl"
    using distinct_pages_entries [OF pok] pages_entries_elim [OF pok]
    by (auto simp: page_holds_def page_ok_def)
  have b0: "buffer_ok hl buf0" unfolding buf0_def using ws by (intro insert_overflow_ok) (auto simp: buffer_ok_def)
  have m0: "map_of buf0 = kmap kv_hash (rev writes)" by (simp add: buf0_def insert_overflow_map)
  have ovl: "entry_overlaps_void_ranges (unat (kv_offset e)) (entry_end e) rs \<longleftrightarrow> in_reclaimed voids e" for e
    unfolding rs_def entry_overlaps_iff [OF build_merged_correct(1)] build_merged_correct(2) ..
  have buf: "buffer_ok hl buf \<and> map_of buf h = (case kmap kv_hash (rev writes) h of Some x \<Rightarrow> Some x
    | None \<Rightarrow> (case kmap kv_hash ?es h of Some e \<Rightarrow> if in_reclaimed voids e then Some (with_deleted e) else None
      | None \<Rightarrow> None))" for h
  proof (cases "voids = []")
    case True
    then show ?thesis
      using b0 m0 bv2 bv_def by (auto simp: reclaimed_def split: option.splits)
  next
    case False
    then have "mask_voided rs ?es buf0 0 = (buf, v)" using bv2 bv_def by simp
    from mask_voided_correct [OF b0 es this, of h] show ?thesis unfolding m0 ovl .
  qed
  have corrupt: "\<not> list_ex (\<lambda>page. case deserialize_page crc32 page hl of Inl _ \<Rightarrow> True | Inr _ \<Rightarrow> False) ?P"
    using pok by (fastforce simp: list_ex_iff in_set_conv_nth pages_ok_def page_holds_def)
  define c where "c = sum_list (map (page_header_count f kv_off hl) [0..<n]) - v + length buf0"
  define r where "r = \<lparr> dk_nvt = ?nvt, dk_write_buffer = buf, dk_db_file = f,
           dk_kv_block_offset = kv_off, dk_kv_block_length = bl,
           dk_hot_tail_offset = hot_off, dk_hot_tail_enabled = True,
           dk_stage = stage, dk_hash_algo = a, dk_entry_count = c,
           dk_bucket_count = n, dk_hot_buffer = [],
           dk_snapshot = read_snapshot_new crc32 buf ?nvt n a c ?P,
           dk_shared_nvt = ?nvt, dk_needs_rebuild = False, dk_needs_expansion = None,
           dk_transaction_depth = 0, dk_pending_voids = voids \<rparr>"
  have "min stage (length KV_STAGE_SIZES - 1) = stage" using st(1) by simp
  then have run: "disk_kv_open crc32 f a kv_off hot_off stage writes voids 1 = Inr r"
    using corrupt read_pages_strict_all [OF len] bv2 [unfolded bv_def rs_def]
    by (simp add: disk_kv_open_def CURRENT_KV_BLOCK_VERSION_def st(2) hl_def [symmetric] r_def c_def
        buf0 Let_def split: prod.split)
  have cnt: "length (build_page_type_counts crc32 ?P a) = 16"
    using add_page_counts_nth [of "replicate 16 0" 0] by (simp add: build_page_type_counts_def)
  have "dk_ok crc32 r"
    using reg st buf cnt read_snapshot_new_counts [of crc32 buf ?nvt n a c ?P]
    unfolding r_def dk_ok_def dk_store_ok_def dk_published_def dk_pages_published_def
    by (simp add: read_snapshot_new_def read_snapshot_new_with_page_type_counts_def hl_def)
  moreover have "dk_raw crc32 r h = (case kmap kv_hash (rev writes) h of Some e \<Rightarrow> Some e
      | None \<Rightarrow> (case pages_map crc32 hl ?P h of
          Some e \<Rightarrow> if in_reclaimed voids e then Some (with_deleted e) else Some e
        | None \<Rightarrow> None))" for h
    using buf by (auto simp: dk_raw_def r_def map_add_def pages_map_def hl_def [symmetric] split: option.splits)
  ultimately show ?thesis using run by (intro exI [of _ r]) (simp add: r_def)
qed

section \<open>The hot tail after a flush of it\<close>

lemma put_hot_tail_read:
  fixes s ws
  defines "p \<equiv> \<lparr> htp_writes = ws, htp_voids = dk_pending_voids (sanitize_pending_voids s) \<rparr>"
  assumes "payload_ok (dk_hl s) p"
  shows "read_hot_tail crc32 (dk_db_file (put_hot_tail crc32 s ws)) (dk_hot_tail_offset s) (dk_hl s) = Some p"
    "dk_pending_voids (put_hot_tail crc32 s ws) = htp_voids p"
proof -
  let ?off = "dk_hot_tail_offset s" and ?f = "dk_db_file s"
  define d where "d = serialize_hot_tail crc32 p (dk_hl s)"
  have "put_hot_tail crc32 s ws = s\<lparr> dk_pending_voids := htp_voids p,
      dk_db_file := set_len (write_at ?f ?off d) (?off + length d) \<rparr>"
    by (simp add: put_hot_tail_def write_hot_tail_def d_def p_def sanitize_pending_voids_def Let_def)
  moreover have "set_len (write_at ?f ?off d) (?off + length d) = write_at (take ?off ?f) ?off d"
    by (cases "length ?f \<le> ?off") (simp_all add: set_len_def write_at_def)
  moreover have "write_hot_tail crc32 (take ?off ?f) ?off p (dk_hl s) = (write_at (take ?off ?f) ?off d, ?off + length d)"
    by (simp add: write_hot_tail_def d_def Let_def)
  ultimately show "read_hot_tail crc32 (dk_db_file (put_hot_tail crc32 s ws)) ?off (dk_hl s) = Some p"
    "dk_pending_voids (put_hot_tail crc32 s ws) = htp_voids p"
    using read_write_hot_tail(1) [OF assms(2)] by simp_all
qed

lemma kmap_rev:
  assumes "distinct (map key xs)"
  shows "kmap key (rev xs) = kmap key xs"
  using assms by (intro kmap_eqI) (simp_all add: rev_map [symmetric])

lemma recovery_correct:
  assumes ok: "dk_ok crc32 s" and hot: "dk_hot_tail_enabled s"
    and lens: "length (dk_write_buffer s) < 2 ^ 32" "length (dk_pending_voids s) < 2 ^ 32"
    and s': "s' = force_flush_hot_buffer crc32 s"
  shows "\<exists>p r. read_hot_tail crc32 (dk_db_file s') (dk_hot_tail_offset s) (dk_hl s) = Some p \<and>
    disk_kv_open crc32 (dk_db_file s') (dk_hash_algo s) (dk_kv_block_offset s) (dk_hot_tail_offset s) (dk_stage s)
      (htp_writes p) (htp_voids p) 1 = Inr r \<and> dk_ok crc32 r \<and> \<not> dk_needs_rebuild r \<and>
    (\<forall>h. disk_kv_get crc32 r h = (case disk_kv_get crc32 s h of None \<Rightarrow> None
      | Some e \<Rightarrow> if map_of (dk_write_buffer s) h = None \<and> in_reclaimed (dk_pending_voids s') e then None else Some e))"
proof -
  let ?hl = "dk_hl s" and ?vs = "buffer_values (dk_write_buffer s)"
  have so: "dk_store_ok crc32 s" and bo: "buffer_ok ?hl (dk_write_buffer s)"
    using ok by (auto simp: dk_ok_def dk_store_ok_def)
  note v = dk_raw_values [OF bo]
  have f: "s' = put_hot_tail crc32 s ?vs" using s' hot by (simp add: force_flush_hot_buffer_def)
  define p where "p = \<lparr> htp_writes = ?vs, htp_voids = dk_pending_voids (sanitize_pending_voids s) \<rparr>"
  have pk: "payload_ok ?hl p"
    using lens v(3) le_less_trans [OF length_filter_le lens(2)]
    by (simp add: payload_ok_def p_def sanitize_pending_voids_def)
  note rd = put_hot_tail_read [OF pk [unfolded p_def], folded p_def f]
  have same: "same_index s s'" using same_index_hot(2) [OF so] s' by simp
  have pages: "dk_pages s' = dk_pages s" and reg': "dk_store_ok crc32 s'"
    using same same_index_ok(1) [OF same so] by (auto simp: same_index_def)
  have lay: "same_layout s s'" by (rule same_index_layout [OF same])
  have km: "kmap kv_hash (rev ?vs) = map_of (dk_write_buffer s)" using kmap_rev [OF v(2)] v(1) by simp
  have st: "dk_stage s < length KV_STAGE_SIZES" "stage_params (dk_stage s) (page_size ?hl) = (dk_kv_block_length s, dk_bucket_count s)"
    "dk_kv_block_offset s + dk_kv_block_length s \<le> dk_hot_tail_offset s"
    using so hot by (auto simp: dk_store_ok_def)
  have reg: "region_ok crc32 (dk_kv_block_offset s) ?hl (dk_bucket_count s) (dk_db_file s')"
    using reg' lay by (simp add: dk_store_ok_def same_layout_def)
  have pg: "file_pages (dk_db_file s') (dk_kv_block_offset s) ?hl (dk_bucket_count s) = dk_pages s"
    using pages lay by (simp add: same_layout_def)
  obtain r where r: "disk_kv_open crc32 (dk_db_file s') (dk_hash_algo s) (dk_kv_block_offset s) (dk_hot_tail_offset s)
      (dk_stage s) ?vs (htp_voids p) 1 = Inr r" "dk_ok crc32 r" "\<not> dk_needs_rebuild r"
    "\<And>h. dk_raw crc32 r h = (case map_of (dk_write_buffer s) h of Some e \<Rightarrow> Some e
      | None \<Rightarrow> (case pages_map crc32 ?hl (dk_pages s) h of
          Some e \<Rightarrow> if in_reclaimed (htp_voids p) e then Some (with_deleted e) else Some e
        | None \<Rightarrow> None))"
    using disk_kv_open_correct [OF st reg v(3), of "htp_voids p"] unfolding km pg by blast
  have "disk_kv_get crc32 r h = (case disk_kv_get crc32 s h of None \<Rightarrow> None
      | Some e \<Rightarrow> if map_of (dk_write_buffer s) h = None \<and> in_reclaimed (dk_pending_voids s') e then None else Some e)" for h
  proof -
    have "disk_kv_get crc32 r h = live (dk_raw crc32 r h)" "disk_kv_get crc32 s h = live (dk_raw crc32 s h)"
      using r(2) so by (simp_all add: disk_kv_get_raw dk_ok_def)
    moreover have "dk_raw crc32 s h = (case map_of (dk_write_buffer s) h of Some e \<Rightarrow> Some e
        | None \<Rightarrow> pages_map crc32 ?hl (dk_pages s) h)"
      by (simp add: dk_raw_def map_add_def split: option.split)
    moreover have "dk_pending_voids s' = htp_voids p" using rd(2) f by simp
    ultimately show ?thesis
      using r(4) [of h]
      by (cases "map_of (dk_write_buffer s) h"; cases "pages_map crc32 ?hl (dk_pages s) h";
          cases "in_reclaimed (htp_voids p) (the (pages_map crc32 ?hl (dk_pages s) h))")
         (simp_all add: live_def)
  qed
  moreover have "read_hot_tail crc32 (dk_db_file s') (dk_hot_tail_offset s) ?hl = Some p" using rd(1) f by simp
  ultimately show ?thesis using r(1-3) by (intro exI [of _ p] exI [of _ r]) (simp add: p_def)
qed

section \<open>Entries lost by the flush without snapshot\<close>

lemma flush_no_snapshot_full_page:
  assumes ok: "dk_store_ok crc32 s" and buf: "dk_write_buffer s = [(kv_hash e, e)]"
    and pg: "page_holds crc32 (dk_hl s) (dk_bucket_count s) (dk_bucket s (kv_hash e)) (dk_pages s ! dk_bucket s (kv_hash e)) es"
    and full: "length es = MAX_ENTRIES_PER_PAGE" "kv_hash e \<notin> kv_hash ` set es"
  shows "\<exists>s'. flush_no_snapshot crc32 s = Inr s' \<and> disk_kv_get crc32 s' (kv_hash e) = None"
proof -
  let ?b = "dk_bucket s (kv_hash e)" and ?n = "dk_bucket_count s"
  note d = dk_store_okD [OF ok]
  have b: "?b = hash_bucket ?n (kv_hash e)" using ok by (simp add: dk_bucket_hash dk_store_ok_def)
  then have lt: "?b < ?n" using d(1) by (simp add: hash_bucket_less)
  have hl: "\<forall>x\<in>set es. length (kv_hash x) = dk_hl s" "length es \<le> MAX_ENTRIES_PER_PAGE"
    using pg by (auto simp: page_holds_def page_ok_def)
  have "replace_first es e = None"
    using replace_first_cases [where es = es and e = e] full(2) by (cases "replace_first es e") auto
  then have up: "upsert_all es [e] [] = (es, [e])" using full(1) by (simp add: upsert_in_page_def)
  define f where "f = write_page (dk_db_file s) (dk_kv_block_offset s) (dk_hl s) ?b (serialize_page crc32 es (dk_hl s))"
  have run: "flush_pages crc32 s = Inr (f, dk_needs_rebuild s, [e])"
    using pg up page_at_file_pages [OF lt d(2)]
    by (simp add: flush_pages_def buf group_by_bucket_def flush_bucket_def page_holds_def f_def Let_def)
  then have s': "flush_no_snapshot crc32 s = Inr (s\<lparr> dk_db_file := f, dk_write_buffer := [] \<rparr>)"
    using buf by (simp add: flush_no_snapshot_def)
  have "deserialize_page crc32 (serialize_page crc32 es (dk_hl s)) (dk_hl s) = Inr es"
    using hl by (intro deserialize_serialize_page)
  moreover have "file_pages f (dk_kv_block_offset s) (dk_hl s) ?n = (dk_pages s)[?b := serialize_page crc32 es (dk_hl s)]"
    and len: "length f = length (dk_db_file s)"
    using write_page_pages [OF lt d(2)] by (simp_all add: f_def)
  moreover have "page_at f (dk_kv_block_offset s) (dk_hl s) ?b = Some (file_pages f (dk_kv_block_offset s) (dk_hl s) ?n ! ?b)"
    using page_at_file_pages [OF lt, of "dk_kv_block_offset s" "dk_hl s" f] d(2) len by simp
  moreover have "find_in_page es (kv_hash e) = None"
    using full(2) by (auto simp: find_in_page_def find_None_iff image_iff)
  ultimately have "disk_kv_get crc32 (s\<lparr> dk_db_file := f, dk_write_buffer := [] \<rparr>) (kv_hash e) = None"
    using lt by (simp add: disk_kv_get_def)
  then show ?thesis using s' by simp
qed

section \<open>Properties\<close>

text \<open>
  C2: The disk index refines a map from hashes to entries.  From a well-formed store, after any sequence
  of insertions, deletions, flag and offset updates, flushes and hot-tail writes that returns, the store
  is well-formed, a lookup in it returns what the same updates leave in a plain map (deleted entries
  hidden), and a lookup in the snapshot published to the lock-free readers returns the same.  Below the last stage
  no operation of the sequence can fail.
\<close>

theorem disk_kv_refines_map:
  assumes "dk_ok crc32 s" and "\<forall>x\<in>set xs. kv_op_ok (dk_hl s, dk_stage s) x"
  shows "(\<forall>s'. run_ops (kv_step crc32) xs s = Inr s' \<longrightarrow> dk_ok crc32 s' \<and>
      (\<forall>h. disk_kv_get crc32 s' h = live (fold kv_spec xs (dk_raw crc32 s) h) \<and>
        rs_get crc32 (dk_snapshot s') h = disk_kv_get crc32 s' h)) \<and>
    (dk_stage s + 1 < length KV_STAGE_SIZES \<longrightarrow> (\<exists>s'. run_ops (kv_step crc32) xs s = Inr s'))"
proof (intro conjI allI impI)
  fix s' h
  assume r: "run_ops (kv_step crc32) xs s = Inr s'"
  show ok: "dk_ok crc32 s'" using disk_index.run_simulates [OF assms r] by simp
  have g: "disk_kv_get crc32 s' h = live (dk_raw crc32 s' h)" using ok by (simp add: disk_kv_get_raw dk_ok_def)
  then show "disk_kv_get crc32 s' h = live (fold kv_spec xs (dk_raw crc32 s) h)"
    using disk_index.run_simulates [OF assms r] by simp
  show "rs_get crc32 (dk_snapshot s') h = disk_kv_get crc32 s' h"
    using rs_get_overlay(2) [OF dk_published_rs_ok(1) [OF ok]] dk_published_rs_ok(2) [OF ok] g by simp
next
  assume "dk_stage s + 1 < length KV_STAGE_SIZES"
  then show "\<exists>s'. run_ops (kv_step crc32) xs s = Inr s'" using disk_index.run_defined [OF assms] by simp
qed

theorem disk_kv_refines_map_witness:
  "let s = disk_kv_create (\<lambda>_. 0) [] Blake3_256 512 100000 0;
       e = \<lparr> kv_type_flags = 1, kv_hash = replicate 32 7, kv_offset = 5, kv_total_length = 6 \<rparr> in
   \<exists>s'. run_ops (kv_step (\<lambda>_. 0)) [Op_insert e, Op_flush, Op_update_offset (replicate 32 7) 9] s = Inr s' \<and>
     disk_kv_get (\<lambda>_. 0) s' (replicate 32 7) = Some (e\<lparr> kv_offset := 9 \<rparr>)"
proof -
  define s where "s = disk_kv_create (\<lambda>_. 0) [] Blake3_256 512 100000 0"
  define e :: kv_entry where
    "e = \<lparr> kv_type_flags = 1, kv_hash = replicate 32 7, kv_offset = 5, kv_total_length = 6 \<rparr>"
  let ?xs = "[Op_insert e, Op_flush, Op_update_offset (replicate 32 7) 9]"
  have "(0 :: nat) < length KV_STAGE_SIZES"
    "512 + fst (stage_params 0 (page_size (hash_length Blake3_256))) \<le> 100000"
    by (simp_all add: KV_STAGE_SIZES_def stage_params_def)
  note c = disk_kv_create_ok [OF this, of "\<lambda>_. 0" "[]", folded s_def]
  have ops: "\<forall>x\<in>set ?xs. kv_op_ok (dk_hl s, dk_stage s) x" by (simp add: c e_def hash_length_def)
  note t = disk_kv_refines_map [OF c(1) ops]
  have "dk_stage s + 1 < length KV_STAGE_SIZES" by (simp add: c KV_STAGE_SIZES_def)
  then obtain s' where s': "run_ops (kv_step (\<lambda>_. 0)) ?xs s = Inr s'" using t by blast
  then have "disk_kv_get (\<lambda>_. 0) s' (replicate 32 7) = live (fold kv_spec ?xs (dk_raw (\<lambda>_. 0) s) (replicate 32 7))"
    using t by blast
  also have "\<dots> = Some (e\<lparr> kv_offset := 9 \<rparr>)"
    by (simp add: e_def update_live_def live_def is_deleted_def KV_FLAG_DELETED_def)
  finally show ?thesis using s' unfolding s_def e_def Let_def by blast
qed

text \<open>
  C8: A flush loses nothing.  It either moves every buffered entry to its bucket page or keeps what does
  not fit in the buffer and asks for the next stage; every lookup, the log below the hot tail and the file header
  stay as they were, and it can only fail at the last stage.
\<close>

theorem flush_lossless:
  assumes "dk_ok crc32 s"
  shows "case flush crc32 s of
      Inr s' \<Rightarrow> dk_ok crc32 s' \<and> (\<forall>h. disk_kv_get crc32 s' h = disk_kv_get crc32 s h) \<and> log_same s s' \<and>
        (dk_write_buffer s' = [] \<or> dk_needs_expansion s' = Some (dk_stage s + 1))
    | Inl err \<Rightarrow> dk_stage s + 1 = length KV_STAGE_SIZES"
  using flush_correct [of crc32 s] assms
  by (auto simp: dk_ok_def dk_published_def flush_post_def disk_kv_get_raw split: sum.splits)

theorem flush_lossless_witness:
  "let s = disk_kv_create (\<lambda>_. 0) [] Blake3_256 512 100000 0 in
   dk_ok (\<lambda>_. 0) s \<and> (\<exists>s'. flush (\<lambda>_. 0) s = Inr s' \<and> dk_write_buffer s' = [])"
proof -
  define s where "s = disk_kv_create (\<lambda>_. 0) [] Blake3_256 512 100000 0"
  have "(0 :: nat) < length KV_STAGE_SIZES"
    "512 + fst (stage_params 0 (page_size (hash_length Blake3_256))) \<le> 100000"
    by (simp_all add: KV_STAGE_SIZES_def stage_params_def)
  note c = disk_kv_create_ok [OF this, of "\<lambda>_. 0" "[]", folded s_def]
  have "dk_write_buffer s = []" by (simp add: s_def disk_kv_create_def Let_def split: prod.split)
  then have "flush (\<lambda>_. 0) s = Inr s" by (simp add: flush.simps flush_pass_def)
  then show ?thesis
    using flush_lossless [OF c(1)] c(1) \<open>dk_write_buffer s = []\<close> unfolding s_def Let_def by auto
qed

text \<open>
  C9: Crash recovery of the index.  After the hot tail is written, opening the file from the hot tail it
  finds gives a well-formed index that answers every lookup as before the crash, except that an entry
  that only a bucket page holds is hidden when its bytes lie in a reclaimed range, so that reusable space is never served.
\<close>

theorem recovery_from_hot_tail:
  assumes "dk_ok crc32 s" and "dk_hot_tail_enabled s"
    and "length (dk_write_buffer s) < 2 ^ 32" and "length (dk_pending_voids s) < 2 ^ 32"
    and "s' = force_flush_hot_buffer crc32 s"
  shows "\<exists>p r. read_hot_tail crc32 (dk_db_file s') (dk_hot_tail_offset s) (dk_hl s) = Some p \<and>
    disk_kv_open crc32 (dk_db_file s') (dk_hash_algo s) (dk_kv_block_offset s) (dk_hot_tail_offset s) (dk_stage s)
      (htp_writes p) (htp_voids p) 1 = Inr r \<and> dk_ok crc32 r \<and> \<not> dk_needs_rebuild r \<and>
    (\<forall>h. disk_kv_get crc32 r h = (case disk_kv_get crc32 s h of None \<Rightarrow> None
      | Some e \<Rightarrow> if map_of (dk_write_buffer s) h = None \<and> in_reclaimed (dk_pending_voids s') e then None else Some e))"
  using assms by (rule recovery_correct)

theorem recovery_from_hot_tail_witness:
  "let s = disk_kv_create (\<lambda>_. 0) [] Blake3_256 512 100000 0;
       e = \<lparr> kv_type_flags = 1, kv_hash = replicate 32 7, kv_offset = 5, kv_total_length = 6 \<rparr>;
       t = publish_buffer_only (buffered s (replicate 32 7) e 1) in
   \<exists>p r. read_hot_tail (\<lambda>_. 0) (dk_db_file (force_flush_hot_buffer (\<lambda>_. 0) t)) 100000 32 = Some p \<and>
     disk_kv_open (\<lambda>_. 0) (dk_db_file (force_flush_hot_buffer (\<lambda>_. 0) t)) Blake3_256 512 100000 0
       (htp_writes p) (htp_voids p) 1 = Inr r \<and> disk_kv_get (\<lambda>_. 0) r (replicate 32 7) = Some e"
proof -
  define s where "s = disk_kv_create (\<lambda>_. 0) [] Blake3_256 512 100000 0"
  define e :: kv_entry where
    "e = \<lparr> kv_type_flags = 1, kv_hash = replicate 32 7, kv_offset = 5, kv_total_length = 6 \<rparr>"
  define t where "t = publish_buffer_only (buffered s (replicate 32 7) e 1)"
  have "(0 :: nat) < length KV_STAGE_SIZES"
    "512 + fst (stage_params 0 (page_size (hash_length Blake3_256))) \<le> 100000"
    by (simp_all add: KV_STAGE_SIZES_def stage_params_def)
  note c = disk_kv_create_ok [OF this, of "\<lambda>_. 0" "[]", folded s_def]
  have f: "dk_write_buffer s = []" "dk_pending_voids s = []" "dk_hot_tail_enabled s" "dk_kv_block_offset s = 512"
    "dk_hot_tail_offset s = 100000"
    by (simp_all add: s_def disk_kv_create_def Let_def split: prod.split)
  have h: "replicate 32 7 = kv_hash e" "length (replicate 32 7 :: bytes) = dk_hl s"
    by (simp_all add: e_def c hash_length_def)
  note t = publish_buffered [OF c(1) h, of 1, folded t_def]
  have tb: "dk_write_buffer t = [(replicate 32 7, e)]" "dk_pending_voids t = []" "dk_hot_tail_enabled t"
    "dk_kv_block_offset t = 512" "dk_hot_tail_offset t = 100000" "dk_hash_algo t = Blake3_256" "dk_stage t = 0"
    using f c by (simp_all add: t_def publish_buffer_only_def buffered_def)
  have "disk_kv_get (\<lambda>_. 0) t (replicate 32 7) = Some e"
    by (simp add: disk_kv_get_def tb) (simp add: e_def is_deleted_def KV_FLAG_DELETED_def)
  then show ?thesis
    using recovery_from_hot_tail [OF t(1) tb(3) _ _ refl] tb
    unfolding s_def [symmetric] e_def [symmetric] t_def [symmetric] Let_def by (fastforce simp: hash_length_def)
qed

text \<open>
  C34: The flush behind bulk insertion and block expansion drops what does not fit.  When the bucket
  page of the one buffered entry is full and does not hold its hash, \<open>flush_no_snapshot\<close> returns success with the
  buffer cleared and the entry in no page: the index no longer finds it.
\<close>

theorem flush_no_snapshot_drops:
  assumes "dk_store_ok crc32 s" and "dk_write_buffer s = [(kv_hash e, e)]"
    and "page_holds crc32 (dk_hl s) (dk_bucket_count s) (dk_bucket s (kv_hash e)) (dk_pages s ! dk_bucket s (kv_hash e)) es"
    and "length es = MAX_ENTRIES_PER_PAGE" and "kv_hash e \<notin> kv_hash ` set es"
  shows "\<exists>s'. flush_no_snapshot crc32 s = Inr s' \<and> disk_kv_get crc32 s' (kv_hash e) = None"
  using assms by (rule flush_no_snapshot_full_page)

lemma zero_prefix_bucket:
  assumes "take 8 h = replicate 8 0"
  shows "hash_bucket n h = 0"
proof -
  have "be_dec 0 (replicate k (0 :: u8)) = 0" for k by (induction k) simp_all
  then have "hash_to_scalar h = 0" using assms by (simp add: hash_to_scalar_def round53_small)
  then show ?thesis by (simp add: hash_bucket_def bucket_for_scalar_def round53_small)
qed

theorem flush_no_snapshot_drops_witness:
  "let ent = (\<lambda>i. \<lparr> kv_type_flags = 1, kv_hash = replicate 31 0 @ [word_of_nat i], kv_offset = 5, kv_total_length = 6 \<rparr>);
       es = map ent [0..<32]; e = ent 32; s = disk_kv_create (\<lambda>_. 0) [] Blake3_256 512 100000 0;
       t = s\<lparr> dk_db_file := write_page (dk_db_file s) 512 32 0 (serialize_page (\<lambda>_. 0) es 32),
              dk_write_buffer := [(kv_hash e, e)] \<rparr> in
   disk_kv_get (\<lambda>_. 0) t (kv_hash e) = Some e \<and>
   (\<exists>s'. flush_no_snapshot (\<lambda>_. 0) t = Inr s' \<and> disk_kv_get (\<lambda>_. 0) s' (kv_hash e) = None)"
proof -
  define ent :: "nat \<Rightarrow> kv_entry" where
    "ent = (\<lambda>i. \<lparr> kv_type_flags = 1, kv_hash = replicate 31 0 @ [word_of_nat i], kv_offset = 5, kv_total_length = 6 \<rparr>)"
  define es where "es = map ent [0..<32]"
  define s where "s = disk_kv_create (\<lambda>_. 0) [] Blake3_256 512 100000 0"
  define pg where "pg = serialize_page (\<lambda>_. 0) es 32"
  define t where "t = s\<lparr> dk_db_file := write_page (dk_db_file s) 512 32 0 pg, dk_write_buffer := [(kv_hash (ent 32), ent 32)] \<rparr>"
  have "(0 :: nat) < length KV_STAGE_SIZES"
    "512 + fst (stage_params 0 (page_size (hash_length Blake3_256))) \<le> 100000"
    by (simp_all add: KV_STAGE_SIZES_def stage_params_def)
  note c = disk_kv_create_ok [OF this, of "\<lambda>_. 0" "[]", folded s_def]
  have s: "dk_store_ok (\<lambda>_. 0) s" "dk_hl s = 32" "dk_kv_block_offset s = 512"
    using c by (simp_all add: dk_ok_def hash_length_def) (simp add: s_def disk_kv_create_def Let_def split: prod.split)
  note d = dk_store_okD [OF s(1), unfolded s]
  have inj: "(word_of_nat i :: u8) = word_of_nat j \<longleftrightarrow> i = j" if "i < 256" "j < 256" for i j
    using that by (simp add: word_of_nat_eq_iff take_bit_eq_mod)
  have hb: "hash_bucket m (kv_hash (ent i)) = 0" for i m by (rule zero_prefix_bucket) (simp add: ent_def)
  have lens: "\<forall>e\<in>set es. length (kv_hash e) = 32" "length es = MAX_ENTRIES_PER_PAGE"
    by (auto simp: es_def ent_def MAX_ENTRIES_PER_PAGE_def)
  have dist: "distinct (map kv_hash es)"
    by (simp add: es_def ent_def comp_def distinct_map inj_on_def inj)
  have "deserialize_page (\<lambda>_. 0) pg 32 = Inr es"
    unfolding pg_def using lens by (intro deserialize_serialize_page) simp_all
  then have ph: "page_holds (\<lambda>_. 0) 32 (dk_bucket_count s) 0 pg es"
    using lens dist hb by (auto simp: page_holds_def page_ok_def es_def)
  have lp: "length pg = page_size 32" by (simp add: pg_def)
  note w = write_page_pages [OF d(1,2) lp]
  have pages: "dk_pages t = (dk_pages s)[0 := pg]" using w(2) s by (simp add: t_def)
  have "pages_ok (\<lambda>_. 0) 32 ((dk_pages s)[0 := pg])"
    using pages_ok_update(1) [OF d(3)] ph d(1) s by simp
  then have tok: "dk_store_ok (\<lambda>_. 0) t"
    using s(1) w(1,2) d(2) s(2,3)
    by (simp add: dk_store_ok_def t_def region_ok_def buffer_ok_def) (simp add: ent_def)
  have b0: "dk_bucket t (kv_hash (ent 32)) = 0" by (simp add: dk_bucket_hash hb)
  have "page_holds (\<lambda>_. 0) (dk_hl t) (dk_bucket_count t) (dk_bucket t (kv_hash (ent 32)))
      (dk_pages t ! dk_bucket t (kv_hash (ent 32))) es"
    unfolding b0 pages using ph d(1) s(2) by (simp add: t_def)
  moreover have "(word_of_nat i :: u8) \<noteq> 32" if "i < 32" for i using inj [of i 32] that by simp
  then have "kv_hash (ent 32) \<notin> kv_hash ` set es" by (force simp: es_def ent_def)
  ultimately have "\<exists>s'. flush_no_snapshot (\<lambda>_. 0) t = Inr s' \<and> disk_kv_get (\<lambda>_. 0) s' (kv_hash (ent 32)) = None"
    using flush_no_snapshot_drops [OF tok _ _ lens(2), of "ent 32"] by (simp add: t_def)
  moreover have "disk_kv_get (\<lambda>_. 0) t (kv_hash (ent 32)) = Some (ent 32)"
    by (simp add: disk_kv_get_def t_def) (simp add: ent_def is_deleted_def KV_FLAG_DELETED_def)
  ultimately show ?thesis
    unfolding Let_def t_def pg_def es_def ent_def [symmetric] s_def by blast
qed

end
