(* ===== verification/Void_Manager.thy ===== *)
theory Void_Manager
  imports Entry_Codec Op_Refinement
begin

text \<open>
  The free-space manager of \<^verbatim>\<open>void_manager.rs\<close>: reusable byte ranges of the data file ("voids") in two
  ordered indexes, offset to size and size to set of offsets.  A \<^verbatim>\<open>BTreeMap\<close> is the vector of its pairs in
  key order, a \<^verbatim>\<open>BTreeSet\<close> the vector of its elements in order.  The lemmas show that the two indexes
  always describe the same set of voids, that \<^verbatim>\<open>find_void\<close> is best fit, and that the bytes it hands out
  are disjoint from every void that is left.
\<close>

section \<open>The manager\<close>

definition MINIMUM_VOID_SIZE :: u32 where "MINIMUM_VOID_SIZE = 1"
definition MINIMUM_USEFUL_VOID_SIZE :: u32 where "MINIMUM_USEFUL_VOID_SIZE = 63"

record void_manager =
  vm_by_offset :: "(u64 \<times> u32) list"
  vm_by_size :: "(u32 \<times> u64 list) list"
  vm_hash_algo :: hash_algorithm

definition void_manager_new :: "hash_algorithm \<Rightarrow> void_manager" where
  "void_manager_new a = \<lparr> vm_by_offset = [], vm_by_size = [], vm_hash_algo = a \<rparr>"

text \<open>The decimal digits \<^verbatim>\<open>format!\<close> writes.\<close>

fun decimal :: "nat \<Rightarrow> bytes" where
  "decimal n = (if n < 10 then [word_of_nat (48 + n)] else decimal (n div 10) @ [word_of_nat (48 + n mod 10)])"

declare decimal.simps [simp del]

definition void_hash :: "(bytes \<Rightarrow> bytes) \<Rightarrow> u32 \<Rightarrow> bytes" where
  "void_hash blake3 sz =
    blake3 (lit ''::aeordb:void:'' @ decimal (unat sz))"

text \<open>The two halves of the size index: drop an offset (and the size with its last offset), and
  \<^verbatim>\<open>entry(size).or_default().insert(offset)\<close>.\<close>

definition by_size_remove :: "u32 \<Rightarrow> u64 \<Rightarrow> (u32 \<times> u64 list) list \<Rightarrow> (u32 \<times> u64 list) list" where
  "by_size_remove sz offset bs =
    (case vec_lookup fst bs sz of
       None \<Rightarrow> bs
     | Some (_, offsets) \<Rightarrow>
         (let offsets' = vec_delete id offset offsets in
          if offsets' = [] then vec_delete fst sz bs else vec_upsert fst (sz, offsets') bs))"

definition by_size_insert :: "u32 \<Rightarrow> u64 \<Rightarrow> (u32 \<times> u64 list) list \<Rightarrow> (u32 \<times> u64 list) list" where
  "by_size_insert sz offset bs =
    (let offsets = (case vec_lookup fst bs sz of None \<Rightarrow> [] | Some (_, offsets) \<Rightarrow> offsets) in
     vec_upsert fst (sz, vec_upsert id offset offsets) bs)"

definition register_void :: "u64 \<Rightarrow> u32 \<Rightarrow> void_manager \<Rightarrow> void_manager" where
  "register_void offset sz m =
    (if sz < MINIMUM_VOID_SIZE then m
     else
       let insert_new = (\<lambda>bs. m\<lparr> vm_by_offset := vec_upsert fst (offset, sz) (vm_by_offset m),
                                 vm_by_size := by_size_insert sz offset bs \<rparr>) in
       case vec_lookup fst (vm_by_offset m) offset of
         Some (_, existing) \<Rightarrow>
           if existing = sz then m
           else insert_new (by_size_remove existing offset (vm_by_size m))
       | None \<Rightarrow> insert_new (vm_by_size m))"

text \<open>\<^verbatim>\<open>None\<close> is the panic of \<^verbatim>\<open>expect\<close>.\<close>

definition minimum_useful_void_size :: "void_manager \<Rightarrow> u32 option" where
  "minimum_useful_void_size m =
    (case compute_total_length (vm_hash_algo m) 0 0 of Inr t \<Rightarrow> Some t | Inl _ \<Rightarrow> None)"

definition find_void :: "u32 \<Rightarrow> void_manager \<Rightarrow> ((u64 \<times> u32) option \<times> void_manager) option" where
  "find_void needed_size m =
    (case List.find (\<lambda>(sz, offsets). needed_size \<le> sz \<and> offsets \<noteq> []) (vm_by_size m) of
       None \<Rightarrow> Some (None, m)
     | Some (matching_size, _) \<Rightarrow>
         (case vec_lookup fst (vm_by_size m) matching_size of
            None \<Rightarrow> Some (None, m)
          | Some (_, []) \<Rightarrow> Some (None, m)
          | Some (_, offset # _) \<Rightarrow>
              let m1 = m\<lparr> vm_by_offset := vec_delete fst offset (vm_by_offset m),
                          vm_by_size := by_size_remove matching_size offset (vm_by_size m) \<rparr>;
                  remainder = matching_size - needed_size in
              (case minimum_useful_void_size m1 of
                 None \<Rightarrow> None
               | Some least \<Rightarrow>
                   Some (Some (offset, matching_size),
                     if remainder \<ge> least then register_void (offset + ucast needed_size) remainder m1
                     else m1))))"

definition remove_void :: "u64 \<Rightarrow> void_manager \<Rightarrow> u32 option \<times> void_manager" where
  "remove_void offset m =
    (case vec_lookup fst (vm_by_offset m) offset of
       None \<Rightarrow> (None, m)
     | Some (_, sz) \<Rightarrow>
         (Some sz, m\<lparr> vm_by_offset := vec_delete fst offset (vm_by_offset m),
                      vm_by_size := by_size_remove sz offset (vm_by_size m) \<rparr>))"

definition total_void_space :: "void_manager \<Rightarrow> u64" where
  "total_void_space m = sum_list (map (\<lambda>(_, sz). ucast sz) (vm_by_offset m))"

definition void_count :: "void_manager \<Rightarrow> nat" where
  "void_count m = length (vm_by_offset m)"

definition void_iter :: "void_manager \<Rightarrow> (u64 \<times> u32) list" where
  "void_iter m = vm_by_offset m"

definition replace_all :: "(u64 \<times> u32) list \<Rightarrow> void_manager \<Rightarrow> void_manager" where
  "replace_all voids m =
    fold (\<lambda>(offset, sz). register_void offset sz) voids (m\<lparr> vm_by_offset := [], vm_by_size := [] \<rparr>)"

section \<open>The two indexes agree\<close>

definition by_size_ok :: "(u32 \<times> u64 list) list \<Rightarrow> bool" where
  "by_size_ok bs \<longleftrightarrow> sorted_by fst bs \<and> (\<forall>(sz, offsets)\<in>set bs. offsets \<noteq> [] \<and> sorted_by id offsets)"

definition by_size_voids :: "(u32 \<times> u64 list) list \<Rightarrow> (u64 \<times> u32) set" where
  "by_size_voids bs = {(offset, sz). \<exists>offsets. (sz, offsets) \<in> set bs \<and> offset \<in> set offsets}"

definition voids :: "void_manager \<Rightarrow> (u64 \<times> u32) set" where
  "voids m = set (vm_by_offset m)"

definition vm_ok :: "void_manager \<Rightarrow> bool" where
  "vm_ok m \<longleftrightarrow> sorted_by fst (vm_by_offset m) \<and> by_size_ok (vm_by_size m) \<and>
    by_size_voids (vm_by_size m) = voids m \<and> (\<forall>(offset, sz)\<in>voids m. sz \<noteq> 0)"

lemma by_size_lookup:
  assumes "by_size_ok bs"
  shows "(sz, offsets) \<in> set bs \<longleftrightarrow> vec_lookup fst bs sz = Some (sz, offsets)"
  using assms by (simp add: by_size_ok_def vec_lookup_Some_iff)

lemma by_size_lookupD:
  assumes "by_size_ok bs" "vec_lookup fst bs sz = Some p"
  shows "(sz, snd p) \<in> set bs"
proof -
  have "p \<in> set bs \<and> fst p = sz"
    using assms vec_lookup_Some_iff [of fst bs sz p] by (simp add: by_size_ok_def)
  then show ?thesis by auto
qed

lemma by_size_unique:
  assumes "by_size_ok bs" "(sz, xs) \<in> set bs" "(sz, ys) \<in> set bs"
  shows "ys = xs"
  using assms by (simp add: by_size_lookup)

lemma by_size_put:
  assumes ok: "by_size_ok bs" and xs: "xs \<noteq> []" "sorted_by id xs"
  shows "by_size_ok (vec_upsert fst (sz, xs) bs) \<and>
    by_size_voids (vec_upsert fst (sz, xs) bs) =
      {v \<in> by_size_voids bs. snd v \<noteq> sz} \<union> {(offset, sz) | offset. offset \<in> set xs}"
proof -
  have s: "sorted_by fst bs" using ok by (simp add: by_size_ok_def)
  have set: "set (vec_upsert fst (sz, xs) bs) = insert (sz, xs) {e \<in> set bs. fst e \<noteq> sz}"
    using set_vec_upsert [OF s] by simp
  have "sorted_by fst (vec_upsert fst (sz, xs) bs)"
    using vec_upsert_correct [OF s, of "(sz, xs)"] by simp
  moreover have "\<forall>(sz, offsets)\<in>set (vec_upsert fst (sz, xs) bs). offsets \<noteq> [] \<and> sorted_by id offsets"
    using ok xs unfolding set by_size_ok_def by simp
  moreover have "by_size_voids (vec_upsert fst (sz, xs) bs) =
      {v \<in> by_size_voids bs. snd v \<noteq> sz} \<union> {(offset, sz) | offset. offset \<in> set xs}"
    unfolding by_size_voids_def set by auto
  ultimately show ?thesis by (simp add: by_size_ok_def)
qed

lemma by_size_del:
  assumes ok: "by_size_ok bs"
  shows "by_size_ok (vec_delete fst sz bs) \<and>
    by_size_voids (vec_delete fst sz bs) = {v \<in> by_size_voids bs. snd v \<noteq> sz}"
proof -
  have s: "sorted_by fst bs" using ok by (simp add: by_size_ok_def)
  have set: "set (vec_delete fst sz bs) = {e \<in> set bs. fst e \<noteq> sz}"
    using set_vec_delete [OF s] by simp
  have "sorted_by fst (vec_delete fst sz bs)"
    using vec_delete_correct [OF s, of sz] by simp
  moreover have "\<forall>(sz, offsets)\<in>set (vec_delete fst sz bs). offsets \<noteq> [] \<and> sorted_by id offsets"
    using ok unfolding set by_size_ok_def by simp
  moreover have "by_size_voids (vec_delete fst sz bs) = {v \<in> by_size_voids bs. snd v \<noteq> sz}"
    unfolding by_size_voids_def set by auto
  ultimately show ?thesis by (simp add: by_size_ok_def)
qed

lemma by_size_voids_at:
  assumes "by_size_ok bs" "(sz, offsets) \<in> set bs"
  shows "(offset, sz) \<in> by_size_voids bs \<longleftrightarrow> offset \<in> set offsets"
proof
  assume "(offset, sz) \<in> by_size_voids bs"
  then obtain ys where ys: "(sz, ys) \<in> set bs" "offset \<in> set ys" by (auto simp: by_size_voids_def)
  then show "offset \<in> set offsets" using by_size_unique [OF assms ys(1)] by simp
next
  assume "offset \<in> set offsets"
  then show "(offset, sz) \<in> by_size_voids bs" using assms(2) by (auto simp: by_size_voids_def)
qed

lemma by_size_insert_correct:
  assumes ok: "by_size_ok bs"
  shows "by_size_ok (by_size_insert sz offset bs) \<and>
    by_size_voids (by_size_insert sz offset bs) = insert (offset, sz) (by_size_voids bs)"
proof -
  define offs where "offs = (case vec_lookup fst bs sz of None \<Rightarrow> [] | Some (_, offsets) \<Rightarrow> offsets)"
  have offs: "sorted_by id offs \<and> (\<forall>x. x \<in> set offs \<longleftrightarrow> (x, sz) \<in> by_size_voids bs)"
  proof (cases "vec_lookup fst bs sz")
    case None
    then have "sz \<notin> fst ` set bs"
      using ok by (simp add: by_size_ok_def vec_lookup_None_iff)
    then have "(x, sz) \<notin> by_size_voids bs" for x by (force simp: by_size_voids_def)
    then show ?thesis using None by (simp add: offs_def)
  next
    case (Some p)
    note p = by_size_lookupD [OF ok Some]
    have "sorted_by id (snd p)" using ok p(1) by (auto simp: by_size_ok_def)
    moreover have "offs = snd p" by (simp add: offs_def Some split: prod.splits)
    ultimately show ?thesis using by_size_voids_at [OF ok p(1)] by simp
  qed
  have put: "set (vec_upsert id offset offs) = insert offset (set offs)" "sorted_by id (vec_upsert id offset offs)"
    using offs by (simp_all only: set_upsert_id vec_upsert_correct)
  then have "vec_upsert id offset offs \<noteq> []" by auto
  note new = by_size_put [OF ok this put(2), of sz]
  have "by_size_insert sz offset bs = vec_upsert fst (sz, vec_upsert id offset offs) bs"
    by (simp add: by_size_insert_def offs_def)
  moreover have "{v \<in> by_size_voids bs. snd v \<noteq> sz} \<union> {(x, sz) |x. x \<in> insert offset (set offs)} =
      insert (offset, sz) (by_size_voids bs)"
    using offs [THEN conjunct2] by auto
  ultimately show ?thesis using new by (simp only: put(1))
qed

lemma by_size_remove_correct:
  assumes ok: "by_size_ok bs"
  shows "by_size_ok (by_size_remove sz offset bs) \<and>
    by_size_voids (by_size_remove sz offset bs) = by_size_voids bs - {(offset, sz)}"
proof (cases "vec_lookup fst bs sz")
  case None
  then have "sz \<notin> fst ` set bs" using ok by (simp add: by_size_ok_def vec_lookup_None_iff)
  then have "(offset, sz) \<notin> by_size_voids bs" by (force simp: by_size_voids_def)
  then show ?thesis using None ok by (simp add: by_size_remove_def)
next
  case (Some p)
  define xs where "xs = snd p"
  have p: "(sz, xs) \<in> set bs" unfolding xs_def by (rule by_size_lookupD [OF ok Some])
  then have s: "sorted_by id xs" using ok by (auto simp: by_size_ok_def)
  have del: "set (vec_delete id offset xs) = set xs - {offset}" "sorted_by id (vec_delete id offset xs)"
    using s by (simp_all only: set_delete_id vec_delete_correct)
  have at: "(x, sz) \<in> by_size_voids bs \<longleftrightarrow> x \<in> set xs" for x by (rule by_size_voids_at [OF ok p])
  have look: "vec_lookup fst bs sz = Some (sz, xs)" using p ok by (simp add: by_size_lookup)
  show ?thesis
  proof (cases "vec_delete id offset xs = []")
    case True
    then have "set xs \<subseteq> {offset}" using del(1) by auto
    then have "{v \<in> by_size_voids bs. snd v \<noteq> sz} = by_size_voids bs - {(offset, sz)}"
      using at by auto
    then show ?thesis
      using by_size_del [OF ok, of sz] True by (simp add: by_size_remove_def look)
  next
    case False
    have "{v \<in> by_size_voids bs. snd v \<noteq> sz} \<union> {(x, sz) |x. x \<in> set xs - {offset}} =
        by_size_voids bs - {(offset, sz)}"
      using at by auto
    then show ?thesis
      using by_size_put [OF ok False del(2), of sz] False
      by (simp only: by_size_remove_def look del(1) Let_def option.case prod.case if_False)
  qed
qed

section \<open>What the operations do to the set of voids\<close>

definition drop_void :: "u64 \<Rightarrow> (u64 \<times> u32) set \<Rightarrow> (u64 \<times> u32) set" where
  "drop_void offset V = {v \<in> V. fst v \<noteq> offset}"

lemma in_drop_void [simp]: "(x, sz) \<in> drop_void offset V \<longleftrightarrow> (x, sz) \<in> V \<and> x \<noteq> offset"
  by (simp add: drop_void_def)

lemma drop_void_at:
  assumes "vm_ok m" "(offset, sz) \<in> voids m"
  shows "drop_void offset (voids m) = voids m - {(offset, sz)}"
proof -
  have s: "sorted_by fst (vm_by_offset m)" using assms(1) by (simp add: vm_ok_def)
  have look: "vec_lookup fst (vm_by_offset m) offset = Some (offset, sz)"
    using assms(2) vec_lookup_Some_iff [OF s, of offset "(offset, sz)"] by (simp add: voids_def)
  have one: "v = (offset, sz)" if "v \<in> voids m" "fst v = offset" for v
    using that look vec_lookup_Some_iff [OF s, of offset v] by (simp add: voids_def)
  show ?thesis
  proof (rule set_eqI)
    show "v \<in> drop_void offset (voids m) \<longleftrightarrow> v \<in> voids m - {(offset, sz)}" for v
      using one [of v] by (cases "fst v = offset") (auto simp: drop_void_def)
  qed
qed

lemma drop_void_absent: "offset \<notin> fst ` V \<Longrightarrow> drop_void offset V = V"
  by (auto simp: drop_void_def)

lemma by_offset_lookup:
  assumes "vm_ok m"
  shows "vec_lookup fst (vm_by_offset m) offset = Some v \<longleftrightarrow> v \<in> voids m \<and> fst v = offset"
    and "vec_lookup fst (vm_by_offset m) offset = None \<longleftrightarrow> offset \<notin> fst ` voids m"
  using assms by (simp_all add: vm_ok_def voids_def vec_lookup_Some_iff vec_lookup_None_iff)

text \<open>Replacing both indexes keeps them consistent when both describe the same set of voids.\<close>

lemma voids_update: "voids (m\<lparr> vm_by_offset := bo, vm_by_size := bs \<rparr>) = set bo"
  by (simp add: voids_def)

lemma vm_okI:
  assumes "sorted_by fst bo" "by_size_ok bs" "by_size_voids bs = set bo" "\<forall>(offset, sz)\<in>set bo. sz \<noteq> 0"
  shows "vm_ok (m\<lparr> vm_by_offset := bo, vm_by_size := bs \<rparr>)"
  using assms by (simp add: vm_ok_def voids_def)

lemma vm_drop:
  assumes "vm_ok m" "(offset, sz) \<in> voids m"
  defines "m' \<equiv> m\<lparr> vm_by_offset := vec_delete fst offset (vm_by_offset m),
      vm_by_size := by_size_remove sz offset (vm_by_size m) \<rparr>"
  shows "vm_ok m' \<and> voids m' = drop_void offset (voids m)"
proof -
  have s: "sorted_by fst (vm_by_offset m)" and b: "by_size_ok (vm_by_size m)"
    and eq: "by_size_voids (vm_by_size m) = voids m" and nz: "\<forall>(offset, sz)\<in>voids m. sz \<noteq> 0"
    using assms(1) by (simp_all add: vm_ok_def)
  have del: "set (vec_delete fst offset (vm_by_offset m)) = drop_void offset (voids m)"
    by (simp add: set_vec_delete [OF s] drop_void_def voids_def)
  have "vm_ok m'" unfolding m'_def
  proof (rule vm_okI)
    show "sorted_by fst (vec_delete fst offset (vm_by_offset m))"
      using vec_delete_correct [OF s] by simp
    show "by_size_ok (by_size_remove sz offset (vm_by_size m))"
      using by_size_remove_correct [OF b] by simp
    show "by_size_voids (by_size_remove sz offset (vm_by_size m)) =
        set (vec_delete fst offset (vm_by_offset m))"
      using by_size_remove_correct [OF b] by (simp add: eq del drop_void_at [OF assms(1,2)])
    show "\<forall>(offset, sz)\<in>set (vec_delete fst offset (vm_by_offset m)). sz \<noteq> 0"
      using nz unfolding del drop_void_def by simp
  qed
  moreover have "voids m' = drop_void offset (voids m)"
    unfolding m'_def voids_update by (rule del)
  ultimately show ?thesis by simp
qed

lemma register_void_correct:
  assumes ok: "vm_ok m"
  shows "vm_ok (register_void offset sz m) \<and> vm_hash_algo (register_void offset sz m) = vm_hash_algo m \<and>
    voids (register_void offset sz m) =
      (if sz = 0 then voids m else insert (offset, sz) (drop_void offset (voids m)))"
proof (cases "sz = 0 \<or> (offset, sz) \<in> voids m")
  case True
  have "register_void offset sz m = m"
  proof (cases "sz = 0")
    case False
    then have "vec_lookup fst (vm_by_offset m) offset = Some (offset, sz)"
      using True by (simp add: by_offset_lookup [OF ok])
    then show ?thesis by (simp add: register_void_def)
  qed (simp add: register_void_def MINIMUM_VOID_SIZE_def)
  moreover have "insert (offset, sz) (drop_void offset (voids m)) = voids m" if "sz \<noteq> 0"
    using that True drop_void_at [OF ok, of offset sz] by auto
  ultimately show ?thesis using ok by simp
next
  case False
  have s: "sorted_by fst (vm_by_offset m)" and b: "by_size_ok (vm_by_size m)"
    and eq: "by_size_voids (vm_by_size m) = voids m" and nz: "\<forall>(offset, sz)\<in>voids m. sz \<noteq> 0"
    using ok by (simp_all add: vm_ok_def)
  define bs where "bs = (case vec_lookup fst (vm_by_offset m) offset of
      Some (_, existing) \<Rightarrow> by_size_remove existing offset (vm_by_size m) | None \<Rightarrow> vm_by_size m)"
  define m' where "m' = m\<lparr> vm_by_offset := vec_upsert fst (offset, sz) (vm_by_offset m),
      vm_by_size := by_size_insert sz offset bs \<rparr>"
  have bs: "by_size_ok bs \<and> by_size_voids bs = drop_void offset (voids m)"
  proof (cases "vec_lookup fst (vm_by_offset m) offset")
    case None
    then have "offset \<notin> fst ` voids m" by (simp add: by_offset_lookup [OF ok])
    then show ?thesis using b eq by (simp add: bs_def None drop_void_absent)
  next
    case (Some v)
    then have "(offset, snd v) \<in> voids m" by (auto simp: by_offset_lookup [OF ok])
    from drop_void_at [OF ok this] show ?thesis
      using by_size_remove_correct [OF b, of "snd v" offset] by (simp add: bs_def Some eq case_prod_unfold)
  qed
  have reg: "register_void offset sz m = m'"
  proof -
    have n: "\<not> sz < MINIMUM_VOID_SIZE" using False by (simp add: MINIMUM_VOID_SIZE_def)
    show ?thesis
    proof (cases "vec_lookup fst (vm_by_offset m) offset")
      case None
      then show ?thesis using n by (simp add: register_void_def m'_def bs_def)
    next
      case (Some v)
      then have "snd v \<noteq> sz" using False by (auto simp: by_offset_lookup [OF ok])
      then show ?thesis using n by (simp add: register_void_def m'_def bs_def Some case_prod_unfold)
    qed
  qed
  have up: "set (vec_upsert fst (offset, sz) (vm_by_offset m)) = insert (offset, sz) (drop_void offset (voids m))"
    by (simp add: set_vec_upsert [OF s] drop_void_def voids_def)
  have "vm_ok m'" unfolding m'_def
  proof (rule vm_okI)
    show "sorted_by fst (vec_upsert fst (offset, sz) (vm_by_offset m))"
      using vec_upsert_correct [OF s] by simp
    show "by_size_ok (by_size_insert sz offset bs)" 
      using by_size_insert_correct bs by simp
    show "by_size_voids (by_size_insert sz offset bs) = set (vec_upsert fst (offset, sz) (vm_by_offset m))"
      using by_size_insert_correct [of bs] bs by (simp add: up)
    show "\<forall>(offset, sz)\<in>set (vec_upsert fst (offset, sz) (vm_by_offset m)). sz \<noteq> 0"
      using nz False unfolding up drop_void_def by simp
  qed
  moreover have "voids m' = insert (offset, sz) (drop_void offset (voids m))"
    unfolding m'_def voids_update by (rule up)
  ultimately show ?thesis using False by (simp add: reg m'_def)
qed

lemma remove_void_correct:
  assumes ok: "vm_ok m" and r: "remove_void offset m = (r, m')"
  shows "vm_ok m' \<and> vm_hash_algo m' = vm_hash_algo m \<and> voids m' = drop_void offset (voids m) \<and>
    (case r of Some sz \<Rightarrow> (offset, sz) \<in> voids m | None \<Rightarrow> offset \<notin> fst ` voids m)"
proof (cases "vec_lookup fst (vm_by_offset m) offset")
  case None
  then have "offset \<notin> fst ` voids m" by (simp add: by_offset_lookup [OF ok])
  moreover have "r = None" "m' = m" using r by (simp_all add: remove_void_def None)
  ultimately show ?thesis using ok by (simp add: drop_void_absent)
next
  case (Some v)
  then have v: "(offset, snd v) \<in> voids m" by (auto simp: by_offset_lookup [OF ok])
  have "r = Some (snd v)" "m' = m\<lparr> vm_by_offset := vec_delete fst offset (vm_by_offset m),
      vm_by_size := by_size_remove (snd v) offset (vm_by_size m) \<rparr>"
    using r by (simp_all add: remove_void_def Some split: prod.splits)
  then show ?thesis using vm_drop [OF ok v] v by simp
qed

section \<open>Best fit\<close>

text \<open>The reference allocator works on the offset index alone: the first void of the least sufficient size.\<close>

fun best_fit :: "u32 \<Rightarrow> (u64 \<times> u32) list \<Rightarrow> (u64 \<times> u32) option" where
  "best_fit n [] = None"
| "best_fit n ((offset, sz) # vs) =
    (case best_fit n vs of
       None \<Rightarrow> if n \<le> sz then Some (offset, sz) else None
     | Some (offset', sz') \<Rightarrow> if n \<le> sz \<and> sz \<le> sz' then Some (offset, sz) else Some (offset', sz'))"

definition fits_best :: "u32 \<Rightarrow> (u64 \<times> u32) set \<Rightarrow> u64 \<times> u32 \<Rightarrow> bool" where
  "fits_best n V v \<longleftrightarrow> v \<in> V \<and> n \<le> snd v \<and>
    (\<forall>w\<in>V. n \<le> snd w \<longrightarrow> snd v < snd w \<or> snd v = snd w \<and> fst v \<le> fst w)"

lemma fits_best_unique: "fits_best n V v \<Longrightarrow> fits_best n V w \<Longrightarrow> v = w"
proof -
  assume v: "fits_best n V v" and w: "fits_best n V w"
  have "snd v < snd w \<or> snd v = snd w \<and> fst v \<le> fst w" "snd w < snd v \<or> snd w = snd v \<and> fst w \<le> fst v"
    using v w by (simp_all add: fits_best_def)
  then show "v = w" by (auto intro: prod_eqI)
qed

lemma best_fit_None: "best_fit n vs = None \<longleftrightarrow> (\<forall>v\<in>set vs. snd v < n)"
  by (induction n vs rule: best_fit.induct) (auto split: option.splits if_splits)

lemma best_fit_Some:
  assumes "sorted_by fst vs" "best_fit n vs = Some v"
  shows "fits_best n (set vs) v"
  using assms
proof (induction n vs arbitrary: v rule: best_fit.induct)
  case (2 n offset sz vs)
  have first: "\<forall>w\<in>set vs. offset < fst w" and s: "sorted_by fst vs" using "2.prems"(1) by auto
  show ?case
  proof (cases "best_fit n vs")
    case None
    then have "\<forall>w\<in>set vs. snd w < n" by (simp add: best_fit_None)
    then show ?thesis using "2.prems"(2) None by (auto simp: fits_best_def split: if_splits)
  next
    case (Some w)
    note w = "2.IH" [OF s Some]
    show ?thesis
    proof (cases "n \<le> sz \<and> sz \<le> snd w")
      case True
      then have v: "v = (offset, sz)" using "2.prems"(2) by (simp add: Some case_prod_unfold)
      have "snd v < snd u \<or> snd v = snd u \<and> fst v \<le> fst u" if "u \<in> set vs" "n \<le> snd u" for u
      proof -
        have "snd w \<le> snd u" using w that by (auto simp: fits_best_def)
        then have "sz \<le> snd u" using True by (blast intro: order.trans)
        moreover have "offset < fst u" using first that(1) by simp
        ultimately show ?thesis unfolding v by (simp add: less_imp_le order_le_less)
      qed
      then show ?thesis using True unfolding fits_best_def v by auto
    next
      case False
      then have "v = w" using "2.prems"(2) by (auto simp: Some case_prod_unfold split: if_splits)
      moreover have "snd w < sz" if "n \<le> sz" using False that by simp
      ultimately show ?thesis using w by (simp add: fits_best_def)
    qed
  qed
qed simp

lemma find_sorted_least:
  assumes "sorted_by key xs" "List.find P xs = Some x" "y \<in> set xs" "P y"
  shows "key x \<le> key y"
  using assms
proof (induction xs)
  case (Cons a xs)
  then show ?case by (cases "P a") (auto simp: less_imp_le)
qed simp

lemma minimum_useful_defined:
  "minimum_useful_void_size m = Some (word_of_nat (header_size (vm_hash_algo m)))"
  by (simp add: minimum_useful_void_size_def compute_total_length_def)

definition find_remainder :: "u32 \<Rightarrow> u64 \<times> u32 \<Rightarrow> void_manager \<Rightarrow> void_manager" where
  "find_remainder n v m =
    (if snd v - n \<ge> word_of_nat (header_size (vm_hash_algo m))
     then register_void (fst v + ucast n) (snd v - n) m else m)"

lemma by_size_find:
  assumes ok: "vm_ok m"
  shows "List.find (\<lambda>(sz, offsets). n \<le> sz \<and> offsets \<noteq> []) (vm_by_size m) = None \<longleftrightarrow>
    (\<forall>v\<in>voids m. snd v < n)"
proof -
  have b: "by_size_ok (vm_by_size m)" and eq: "by_size_voids (vm_by_size m) = voids m"
    using ok by (simp_all add: vm_ok_def)
  have "(\<exists>e\<in>set (vm_by_size m). n \<le> fst e \<and> snd e \<noteq> []) \<longleftrightarrow> (\<exists>v\<in>voids m. n \<le> snd v)"
  proof
    assume "\<exists>e\<in>set (vm_by_size m). n \<le> fst e \<and> snd e \<noteq> []"
    then obtain e where e: "e \<in> set (vm_by_size m)" "n \<le> fst e" "snd e \<noteq> []" by auto
    then have "(hd (snd e), fst e) \<in> voids m"
      unfolding eq [symmetric] by_size_voids_def by (auto intro!: exI [of _ "snd e"])
    then show "\<exists>v\<in>voids m. n \<le> snd v" using e(2) by (intro bexI) simp_all
  next
    assume "\<exists>v\<in>voids m. n \<le> snd v"
    then obtain offset sz where v: "(offset, sz) \<in> by_size_voids (vm_by_size m)" "n \<le> sz"
      unfolding eq by auto
    then obtain xs where "(sz, xs) \<in> set (vm_by_size m)" "offset \<in> set xs"
      by (auto simp: by_size_voids_def)
    then show "\<exists>e\<in>set (vm_by_size m). n \<le> fst e \<and> snd e \<noteq> []"
      using v(2) by (intro bexI [of _ "(sz, xs)"]) auto
  qed
  moreover have "List.find (\<lambda>(sz, offsets). n \<le> sz \<and> offsets \<noteq> []) (vm_by_size m) = None \<longleftrightarrow>
      \<not> (\<exists>e\<in>set (vm_by_size m). n \<le> fst e \<and> snd e \<noteq> [])"
    unfolding find_None_iff case_prod_unfold by blast
  ultimately show ?thesis by (simp add: linorder_not_le)
qed

lemma find_void_cases:
  assumes ok: "vm_ok m"
  obtains (Missing) "find_void n m = Some (None, m)" "\<forall>v\<in>voids m. snd v < n"
  | (Found) v m1 where "find_void n m = Some (Some v, find_remainder n v m1)" "fits_best n (voids m) v"
      "vm_ok m1" "vm_hash_algo m1 = vm_hash_algo m" "voids m1 = drop_void (fst v) (voids m)"
      "vm_by_offset m1 = vec_delete fst (fst v) (vm_by_offset m)"
proof (cases "List.find (\<lambda>(sz, offsets). n \<le> sz \<and> offsets \<noteq> []) (vm_by_size m)")
  case None
  then show thesis by (intro Missing) (simp_all add: find_void_def by_size_find [OF ok, symmetric])
next
  case (Some e)
  have b: "by_size_ok (vm_by_size m)" and eq: "by_size_voids (vm_by_size m) = voids m"
    using ok by (simp_all add: vm_ok_def)
  obtain sz x xs where e: "e = (sz, x # xs)" and n: "n \<le> sz" and mem: "e \<in> set (vm_by_size m)"
    using find_SomeD [OF Some] by (auto simp: neq_Nil_conv)
  have look: "vec_lookup fst (vm_by_size m) sz = Some (sz, x # xs)"
    using mem by (simp add: e by_size_lookup [OF b])
  have at: "(y, sz) \<in> voids m \<longleftrightarrow> y \<in> set (x # xs)" for y
    using by_size_voids_at [OF b mem [unfolded e]] by (simp add: eq)
  have s: "sorted_by fst (vm_by_size m)" and s': "sorted_by id (x # xs)"
    using b mem by (auto simp: by_size_ok_def e)
  have least: "snd w > sz \<or> snd w = sz \<and> x \<le> fst w" if "w \<in> voids m" "n \<le> snd w" for w
  proof -
    have "(fst w, snd w) \<in> by_size_voids (vm_by_size m)" using that(1) by (simp add: eq)
    then obtain ys where ys: "(snd w, ys) \<in> set (vm_by_size m)" "fst w \<in> set ys"
      unfolding by_size_voids_def mem_Collect_eq prod.case by blast
    have "ys \<noteq> []" using ys(2) by auto
    then have "sz \<le> snd w" using find_sorted_least [OF s Some ys(1)] that(2) by (simp add: e)
    moreover have "x \<le> fst w" if "snd w = sz"
      using at [of "fst w"] \<open>w \<in> voids m\<close> that s' by (auto simp: less_imp_le)
    ultimately show ?thesis by auto
  qed
  have fits: "fits_best n (voids m) (x, sz)" using at n least by (auto simp: fits_best_def)
  define m1 where "m1 = m\<lparr> vm_by_offset := vec_delete fst x (vm_by_offset m),
      vm_by_size := by_size_remove sz x (vm_by_size m) \<rparr>"
  have "(x, sz) \<in> voids m" using at by simp
  from vm_drop [OF ok this] have m1: "vm_ok m1" "voids m1 = drop_void x (voids m)"
    by (simp_all add: m1_def)
  have "find_void n m = Some (Some (x, sz), find_remainder n (x, sz) m1)"
    using Some by (simp add: find_void_def e look minimum_useful_defined find_remainder_def m1_def)
  then show thesis by (rule Found) (use fits m1 in \<open>simp_all add: m1_def\<close>)
qed

lemma find_void_best_fit:
  assumes ok: "vm_ok m" and f: "find_void n m = Some (r, m')"
  shows "r = best_fit n (vm_by_offset m)"
  using ok
proof (cases rule: find_void_cases [where n = n])
  case Missing
  then show ?thesis using f by (simp add: voids_def flip: best_fit_None)
next
  case (Found v m1)
  have "sorted_by fst (vm_by_offset m)" using ok by (simp add: vm_ok_def)
  moreover have "best_fit n (vm_by_offset m) \<noteq> None"
    using Found(2) by (auto simp: fits_best_def voids_def best_fit_None not_less)
  ultimately have "best_fit n (vm_by_offset m) = Some v"
    using best_fit_Some [of "vm_by_offset m" n] fits_best_unique [OF Found(2)] by (auto simp: voids_def)
  then show ?thesis using Found(1) f by simp
qed

section \<open>Every sequence of operations\<close>

datatype void_op = VRegister u64 u32 | VRemove u64 | VFind u32 | VReplace "(u64 \<times> u32) list"

definition void_step :: "void_op \<Rightarrow> void_manager \<Rightarrow> unit + void_manager" where
  "void_step x m = (case x of
     VRegister offset sz \<Rightarrow> Inr (register_void offset sz m)
   | VRemove offset \<Rightarrow> Inr (snd (remove_void offset m))
   | VFind n \<Rightarrow> (case find_void n m of None \<Rightarrow> Inl () | Some (_, m') \<Rightarrow> Inr m')
   | VReplace vs \<Rightarrow> Inr (replace_all vs m))"

definition spec_register :: "u64 \<Rightarrow> u32 \<Rightarrow> (u64 \<times> u32) list \<Rightarrow> (u64 \<times> u32) list" where
  "spec_register offset sz vs = (if sz = 0 then vs else vec_upsert fst (offset, sz) vs)"

definition spec_find :: "nat \<Rightarrow> u32 \<Rightarrow> (u64 \<times> u32) list \<Rightarrow> (u64 \<times> u32) list" where
  "spec_find least n vs =
    (case best_fit n vs of
       None \<Rightarrow> vs
     | Some (offset, sz) \<Rightarrow>
         let vs' = vec_delete fst offset vs in
         if least + unat n \<le> unat sz then spec_register (offset + ucast n) (sz - n) vs' else vs')"

definition void_spec :: "void_op \<Rightarrow> nat \<times> (u64 \<times> u32) list \<Rightarrow> nat \<times> (u64 \<times> u32) list" where
  "void_spec x = (\<lambda>(least, vs). (least, case x of
     VRegister offset sz \<Rightarrow> spec_register offset sz vs
   | VRemove offset \<Rightarrow> vec_delete fst offset vs
   | VFind n \<Rightarrow> spec_find least n vs
   | VReplace ws \<Rightarrow> fold (\<lambda>(offset, sz). spec_register offset sz) ws []))"

definition void_abs :: "void_manager \<Rightarrow> nat \<times> (u64 \<times> u32) list" where
  "void_abs m = (header_size (vm_hash_algo m), vm_by_offset m)"

lemma register_void_by_offset:
  assumes "vm_ok m"
  shows "vm_by_offset (register_void offset sz m) = spec_register offset sz (vm_by_offset m)"
proof -
  have s: "sorted_by fst (vm_by_offset m)" and t: "sorted_by fst (vm_by_offset (register_void offset sz m))"
    using assms register_void_correct [OF assms] by (simp_all add: vm_ok_def)
  have u: "sorted_by fst (spec_register offset sz (vm_by_offset m))"
    using s vec_upsert_correct [OF s] by (simp add: spec_register_def)
  have "set (vm_by_offset (register_void offset sz m)) = set (spec_register offset sz (vm_by_offset m))"
    using register_void_correct [OF assms, of offset sz]
    by (simp add: spec_register_def set_vec_upsert [OF s] voids_def drop_void_def)
  then show ?thesis by (rule sorted_by_set_eq [OF t u])
qed

lemma remove_void_by_offset: "vm_by_offset (snd (remove_void offset m)) = vec_delete fst offset (vm_by_offset m)"
  by (simp add: remove_void_def vec_lookup_def vec_delete_def split: option.splits prod.splits sum.splits)

lemma header_size_le_iff:
  assumes "n \<le> sz"
  shows "word_of_nat (header_size a) \<le> (sz - n :: u32) \<longleftrightarrow> header_size a + unat n \<le> unat sz"
proof -
  have "header_size a < 4294967296"
    by (cases a) (simp_all add: header_size_def FIXED_HEADER_SIZE_def hash_length_def)
  then have "unat (word_of_nat (header_size a) :: u32) = header_size a" by (rule unat_word_of_nat_u32)
  moreover have "unat (sz - n) = unat sz - unat n" using assms by (rule unat_sub)
  moreover have "unat n \<le> unat sz" using assms by (simp add: word_le_nat_alt)
  ultimately show ?thesis by (auto simp: word_le_nat_alt)
qed

lemma find_remainder_correct:
  assumes "vm_ok m"
  shows "vm_ok (find_remainder n v m)" "vm_hash_algo (find_remainder n v m) = vm_hash_algo m"
  using register_void_correct [OF assms] assms by (simp_all add: find_remainder_def)

lemma find_void_spec:
  assumes ok: "vm_ok m"
  shows "\<exists>m'. find_void n m = Some (best_fit n (vm_by_offset m), m') \<and> vm_ok m' \<and>
    void_abs m' = (fst (void_abs m), spec_find (fst (void_abs m)) n (snd (void_abs m)))"
  using ok
proof (cases rule: find_void_cases [where n = n])
  case Missing
  have "best_fit n (vm_by_offset m) = None" using find_void_best_fit [OF ok Missing(1)] by simp
  then show ?thesis using ok Missing(1) by (intro exI [of _ m]) (simp add: void_abs_def spec_find_def)
next
  case (Found v m1)
  have b: "best_fit n (vm_by_offset m) = Some v" using find_void_best_fit [OF ok Found(1)] by simp
  have "n \<le> snd v" using Found(2) by (simp add: fits_best_def)
  then have "vm_by_offset (find_remainder n v m1) = spec_find (header_size (vm_hash_algo m)) n (vm_by_offset m)"
    using header_size_le_iff [of n "snd v" "vm_hash_algo m"] Found(6)
    by (simp add: spec_find_def b find_remainder_def Found(4) register_void_by_offset [OF Found(3)] case_prod_unfold)
  then show ?thesis using find_remainder_correct [OF Found(3)] Found(1,4) b by (simp add: void_abs_def)
qed

lemma replace_all_correct:
  assumes "vm_ok m"
  shows "vm_ok (fold (\<lambda>(offset, sz). register_void offset sz) vs m) \<and>
    vm_hash_algo (fold (\<lambda>(offset, sz). register_void offset sz) vs m) = vm_hash_algo m \<and>
    vm_by_offset (fold (\<lambda>(offset, sz). register_void offset sz) vs m) =
      fold (\<lambda>(offset, sz). spec_register offset sz) vs (vm_by_offset m)"
  using assms
proof (induction vs arbitrary: m)
  case (Cons v vs)
  then have r: "vm_ok (register_void (fst v) (snd v) m)" "vm_hash_algo (register_void (fst v) (snd v) m) = vm_hash_algo m"
    using register_void_correct by simp_all
  show ?case
    using Cons.IH [OF r(1)] r(2) register_void_by_offset [OF Cons.prems]
    by (simp add: case_prod_unfold)
qed simp

lemma vm_ok_empty: "vm_by_offset m = [] \<Longrightarrow> vm_by_size m = [] \<Longrightarrow> vm_ok m"
  by (simp add: vm_ok_def by_size_ok_def by_size_voids_def voids_def)

lemma void_step_correct:
  assumes ok: "vm_ok m"
  shows "\<exists>m'. void_step x m = Inr m' \<and> vm_ok m' \<and> void_abs m' = void_spec x (void_abs m)"
proof (cases x)
  case (VRegister offset sz)
  then show ?thesis
    using register_void_correct [OF ok, of offset sz] register_void_by_offset [OF ok]
    by (simp add: void_step_def void_spec_def void_abs_def)
next
  case (VRemove offset)
  obtain r m' where "remove_void offset m = (r, m')" by (cases "remove_void offset m")
  then show ?thesis
    using remove_void_correct [OF ok] remove_void_by_offset [of offset m] VRemove
    by (simp add: void_step_def void_spec_def void_abs_def)
next
  case (VFind n)
  then show ?thesis
    using find_void_spec [OF ok, of n] by (auto simp: void_step_def void_spec_def case_prod_unfold)
next
  case (VReplace vs)
  then show ?thesis
    using replace_all_correct [of "m\<lparr> vm_by_offset := [], vm_by_size := [] \<rparr>" vs]
    by (simp add: void_step_def void_spec_def void_abs_def replace_all_def vm_ok_empty)
qed

interpretation void_index: op_refinement vm_ok void_abs void_step void_spec "\<lambda>_ _. True" "\<lambda>_. ()" "\<lambda>_. True"
proof
  fix m x m'
  assume "vm_ok m" "void_step x m = Inr m'"
  then show "vm_ok m' \<and> void_abs m' = void_spec x (void_abs m) \<and> () = ()"
    using void_step_correct [of m x] by auto
next
  fix m x
  assume "vm_ok m"
  then show "\<exists>m'. void_step x m = Inr m'" using void_step_correct [of m x] by auto
qed

text \<open>
  C18: After any sequence of registrations, removals, allocations and bulk replacements from an empty manager,
  no operation panics, the two indexes describe the same voids, and the manager behaves as one offset-ordered
  list of voids: in particular \<^verbatim>\<open>find_void\<close>, which reads the size index, returns what best fit over the
  offset list returns, the lowest offset of the smallest sufficient size.
\<close>

theorem void_manager_refines_offset_list:
  "\<exists>m. run_ops void_step xs (void_manager_new a) = Inr m \<and> vm_ok m \<and>
    void_abs m = fold void_spec xs (header_size a, []) \<and>
    (\<forall>n. \<exists>m'. find_void n m = Some (best_fit n (void_iter m), m'))"
proof -
  have ok: "vm_ok (void_manager_new a)" by (simp add: void_manager_new_def vm_ok_empty)
  obtain m where m: "run_ops void_step xs (void_manager_new a) = Inr m"
    using void_index.run_defined [OF ok] by auto
  have r: "vm_ok m \<and> void_abs m = fold void_spec xs (void_abs (void_manager_new a))"
    using void_index.run_simulates [OF ok _ m] by simp
  then show ?thesis
    using m find_void_spec [of m] unfolding void_iter_def
    by (intro exI [of _ m]) (auto simp: void_abs_def void_manager_new_def)
qed

section \<open>Allocated bytes are free bytes\<close>

definition void_span :: "u64 \<times> u32 \<Rightarrow> nat set" where
  "void_span v = {unat (fst v) ..< unat (fst v) + unat (snd v)}"

definition free_bytes :: "void_manager \<Rightarrow> nat set" where
  "free_bytes m = (\<Union>v\<in>voids m. void_span v)"

text \<open>Voids lie inside the address space and do not overlap.\<close>

definition voids_disjoint :: "(u64 \<times> u32) set \<Rightarrow> bool" where
  "voids_disjoint V \<longleftrightarrow> (\<forall>v\<in>V. unat (fst v) + unat (snd v) < 2 ^ 64) \<and>
    (\<forall>v\<in>V. \<forall>w\<in>V. v \<noteq> w \<longrightarrow> void_span v \<inter> void_span w = {})"

lemma unat_offset_add:
  assumes "unat (x :: u64) + unat (n :: u32) < 2 ^ 64"
  shows "unat (x + ucast n) = unat x + unat n"
proof -
  have "unat n < 2 ^ 64" using assms by simp
  then have "unat (ucast n :: u64) = unat n" by (simp add: unsigned_ucast_eq take_bit_nat_eq_self)
  then show ?thesis using assms by (subst unat_add_lem [THEN iffD1]) simp_all
qed

text \<open>Splitting a void at \<open>n\<close>: the tail is disjoint from the head and from every other void.\<close>

lemma void_split:
  assumes "unat x + unat sz < 2 ^ 64" "n \<le> sz"
  shows "void_span (x + ucast n, sz - n) = {unat x + unat n ..< unat x + unat sz}"
proof -
  have n: "unat n \<le> unat sz" using assms(2) by (simp add: word_le_nat_alt)
  have "unat (x + ucast n) = unat x + unat n" using n assms(1) by (intro unat_offset_add) simp
  moreover have "unat (sz - n) = unat sz - unat n" using assms(2) by (rule unat_sub)
  ultimately show ?thesis using n by (simp add: void_span_def)
qed

lemma voids_disjoint_replace:
  assumes d: "voids_disjoint V" and v: "v \<in> V" and w: "void_span w \<subseteq> void_span v" "unat (fst w) + unat (snd w) < 2 ^ 64"
  shows "voids_disjoint (insert w (V - {v}))" "(\<Union>u\<in>V - {v}. void_span u) \<inter> void_span v = {}"
proof -
  have away: "void_span v \<inter> void_span u = {}" if "u \<in> V - {v}" for u
    using d v that unfolding voids_disjoint_def by blast
  then show "(\<Union>u\<in>V - {v}. void_span u) \<inter> void_span v = {}" by blast
  have awayw: "void_span w \<inter> void_span u = {}" if "u \<in> V - {v}" for u using away [OF that] w(1) by blast
  have pair: "void_span a \<inter> void_span b = {}" if ab: "a \<in> insert w (V - {v})" "b \<in> insert w (V - {v})" "a \<noteq> b" for a b
  proof -
    consider "a = w" "b \<in> V - {v}" | "b = w" "a \<in> V - {v}" | "a \<in> V - {v}" "b \<in> V - {v}" using ab by blast
    then show ?thesis
    proof cases
      case 1
      then show ?thesis using awayw by simp
    next
      case 2
      then show ?thesis using awayw [of a] by blast
    next
      case 3
      then show ?thesis using d ab(3) unfolding voids_disjoint_def by blast
    qed
  qed
  moreover have "unat (fst u) + unat (snd u) < 2 ^ 64" if "u \<in> insert w (V - {v})" for u
    using that w(2) d unfolding voids_disjoint_def by blast
  ultimately show "voids_disjoint (insert w (V - {v}))" unfolding voids_disjoint_def by blast
qed

lemma drop_tail_void:
  assumes ok: "vm_ok m" and d: "voids_disjoint (voids m)" and v: "(x, sz) \<in> voids m" and n: "n < sz"
  shows "drop_void (x + ucast n) (voids m - {(x, sz)}) = voids m - {(x, sz)}"
proof (rule drop_void_absent, rule notI)
  assume "x + ucast n \<in> fst ` (voids m - {(x, sz)})"
  then obtain w where w: "w \<in> voids m" "w \<noteq> (x, sz)" "x + ucast n = fst w"
    unfolding image_iff by blast
  have b: "unat x + unat sz < 2 ^ 64" using d v unfolding voids_disjoint_def by force
  have nz: "unat n < unat sz" using n by (simp add: word_less_nat_alt)
  have "unat (fst w) = unat x + unat n" unfolding w(3) [symmetric] using nz b by (intro unat_offset_add) simp
  moreover have "snd w \<noteq> 0" using ok w(1) by (auto simp: vm_ok_def)
  then have "unat (snd w) > 0" by (simp add: unat_gt_0)
  ultimately have "unat x + unat n \<in> void_span w \<inter> void_span (x, sz)"
    using nz by (simp add: void_span_def)
  moreover have "void_span w \<inter> void_span (x, sz) = {}"
    using d w(1,2) v unfolding voids_disjoint_def by blast
  ultimately show False by simp
qed

lemma free_bytes_drop:
  assumes "v \<in> voids m" "voids_disjoint (voids m)" "voids m1 = voids m - {v}"
  shows "free_bytes m = free_bytes m1 \<union> void_span v" "free_bytes m1 \<inter> void_span v = {}"
    "voids_disjoint (voids m1)"
proof -
  show "free_bytes m = free_bytes m1 \<union> void_span v"
    using assms(1) unfolding free_bytes_def assms(3) by auto
  show "free_bytes m1 \<inter> void_span v = {}" 
    using assms(1,2) unfolding free_bytes_def assms(3) voids_disjoint_def by blast
  show "voids_disjoint (voids m1)" using assms(2) unfolding assms(3) voids_disjoint_def by blast
qed

lemma free_bytes_split:
  assumes v: "(x, sz) \<in> voids m" and d: "voids_disjoint (voids m)" and n: "n \<le> sz"
    and m': "voids m' = insert (x + ucast n, sz - n) (voids m - {(x, sz)})"
  shows "voids_disjoint (voids m')" "{unat x ..< unat x + unat n} \<inter> free_bytes m' = {}"
    "free_bytes m = free_bytes m' \<union> {unat x ..< unat x + unat n}"
proof -
  define rest where "rest = (\<Union>v\<in>voids m - {(x, sz)}. void_span v)"
  have b: "unat x + unat sz < 2 ^ 64" using d v unfolding voids_disjoint_def by force
  have nz: "unat n \<le> unat sz" using n by (simp add: word_le_nat_alt)
  have tail: "void_span (x + ucast n, sz - n) = {unat x + unat n ..< unat x + unat sz}"
    by (rule void_split [OF b n])
  have "void_span (x + ucast n, sz - n) \<subseteq> void_span (x, sz)" unfolding tail by (auto simp: void_span_def)
  moreover have "unat (fst (x + ucast n, sz - n)) + unat (snd (x + ucast n, sz - n)) < 2 ^ 64"
    using unat_offset_add [of x n] unat_sub [OF n] nz b by simp
  ultimately show "voids_disjoint (voids m')" unfolding m' by (rule voids_disjoint_replace(1) [OF d v])
  have away: "rest \<inter> {unat x ..< unat x + unat sz} = {}"
    using v d unfolding rest_def voids_disjoint_def void_span_def by force
  have free: "free_bytes m = rest \<union> {unat x ..< unat x + unat sz}"
    using v unfolding rest_def free_bytes_def by (auto simp: void_span_def)
  have free': "free_bytes m' = rest \<union> {unat x + unat n ..< unat x + unat sz}"
    unfolding free_bytes_def m' rest_def UN_insert tail by (rule Un_commute)
  have "{unat x ..< unat x + unat n} \<subseteq> {unat x ..< unat x + unat sz}" using nz by simp
  then show "{unat x ..< unat x + unat n} \<inter> free_bytes m' = {}"
    unfolding free' using away by auto
  have "{unat x ..< unat x + unat sz} = {unat x + unat n ..< unat x + unat sz} \<union> {unat x ..< unat x + unat n}"
    using nz by auto
  then show "free_bytes m = free_bytes m' \<union> {unat x ..< unat x + unat n}"
    unfolding free free' by (simp only: Un_assoc)
qed

lemma find_void_correct:
  assumes ok: "vm_ok m" and d: "voids_disjoint (voids m)"
    and f: "find_void n m = Some (Some (offset, sz), m')"
  shows "vm_ok m' \<and> voids_disjoint (voids m') \<and> (offset, sz) \<in> voids m \<and> n \<le> sz \<and>
    (\<exists>lost < header_size (vm_hash_algo m).
       {unat offset ..< unat offset + unat n + lost} \<inter> free_bytes m' = {} \<and>
       free_bytes m = free_bytes m' \<union> {unat offset ..< unat offset + unat n + lost})"
proof -
  obtain m1 where m': "m' = find_remainder n (offset, sz) m1" and fit: "fits_best n (voids m) (offset, sz)"
    and m1: "vm_ok m1" "vm_hash_algo m1 = vm_hash_algo m" "voids m1 = drop_void offset (voids m)"
    using f by (cases rule: find_void_cases [OF ok, where n = n]) auto
  have v: "(offset, sz) \<in> voids m" and n: "n \<le> sz" using fit by (simp_all add: fits_best_def)
  have vs: "voids m1 = voids m - {(offset, sz)}" using m1(3) drop_void_at [OF ok v] by simp
  have ok': "vm_ok m'" unfolding m' by (rule find_remainder_correct [OF m1(1)])
  show ?thesis
  proof (cases "header_size (vm_hash_algo m) + unat n \<le> unat sz")
    case False
    then have same: "m' = m1" using header_size_le_iff [OF n] by (simp add: m' find_remainder_def m1(2))
    have lost: "unat sz - unat n < header_size (vm_hash_algo m)" 
      using False n [unfolded word_le_nat_alt] by arith
    have "unat offset + unat n + (unat sz - unat n) = unat offset + unat sz"
      using n by (simp add: word_le_nat_alt)
    then have "{unat offset ..< unat offset + unat n + (unat sz - unat n)} = void_span (offset, sz)"
      by (simp add: void_span_def)
    then show ?thesis
      using ok' v n free_bytes_drop [OF v d vs] lost unfolding same
      by (intro conjI exI [of _ "unat sz - unat n"]) (simp_all add: Int_commute)
  next
    case True
    have pos: "0 < header_size (vm_hash_algo m)" by (simp add: header_size_def FIXED_HEADER_SIZE_def)
    then have lt: "n < sz" using True by (simp add: word_less_nat_alt)
    then have "sz - n \<noteq> 0" by auto
    then have "voids m' = insert (offset + ucast n, sz - n) (voids m - {(offset, sz)})"
      using True header_size_le_iff [OF n] register_void_correct [OF m1(1), of "offset + ucast n" "sz - n"]
        drop_tail_void [OF ok d v lt]
      by (simp add: m' find_remainder_def m1(2) vs)
    then show ?thesis
      using free_bytes_split [OF v d n] ok' v n pos by (intro conjI exI [of _ 0]) simp_all
  qed
qed

text \<open>
  C12: \<^verbatim>\<open>find_void\<close> hands out bytes of one free void that is large enough; afterwards these bytes are not
  free any more, no other free byte is lost except a tail too short for an entry header, and the remaining
  voids are again disjoint with both indexes consistent.
\<close>

theorem find_void_safe:
  assumes ok: "vm_ok m" and d: "voids_disjoint (voids m)"
    and f: "find_void n m = Some (Some (offset, sz), m')"
  shows "vm_ok m' \<and> voids_disjoint (voids m') \<and> (offset, sz) \<in> voids m \<and> n \<le> sz \<and>
    (\<exists>lost < header_size (vm_hash_algo m).
       {unat offset ..< unat offset + unat n + lost} \<inter> free_bytes m' = {} \<and>
       free_bytes m = free_bytes m' \<union> {unat offset ..< unat offset + unat n + lost})"
  by (rule find_void_correct [OF assms])

theorem find_void_safe_witness:
  "let m = replace_all [(1000, 500), (2000, 100)] (void_manager_new Blake3_256);
       m' = \<lparr> vm_by_offset = [(1200, 300), (2000, 100)],
         vm_by_size = [(100, [2000]), (300, [1200])], vm_hash_algo = Blake3_256 \<rparr> in
   find_void 200 m = Some (Some (1000, 500), m') \<and>
   vm_ok m' \<and> voids_disjoint (voids m') \<and> (1000, 500) \<in> voids m \<and> (200 :: u32) \<le> 500 \<and>
    (\<exists>lost < header_size (vm_hash_algo m).
       {unat (1000 :: u64) ..< unat (1000 :: u64) + unat (200 :: u32) + lost} \<inter> free_bytes m' = {} \<and>
       free_bytes m = free_bytes m' \<union> {unat (1000 :: u64) ..< unat (1000 :: u64) + unat (200 :: u32) + lost})"
proof -
  define m where "m = replace_all [(1000, 500), (2000, 100)] (void_manager_new Blake3_256)"
  define m' where "m' = \<lparr> vm_by_offset = [(1200, 300), (2000, 100)],
         vm_by_size = [(100, [2000]), (300, [1200])], vm_hash_algo = Blake3_256 \<rparr>"
  have ok: "vm_ok m"
    unfolding m_def replace_all_def by (intro replace_all_correct [THEN conjunct1] vm_ok_empty) simp_all
  have "vm_by_offset m = [(1000, 500), (2000, 100)]" unfolding m_def by code_simp
  then have d: "voids_disjoint (voids m)" by (simp add: voids_disjoint_def voids_def void_span_def)
  have f: "find_void 200 m = Some (Some (1000, 500), m')" 
    unfolding m'_def m_def find_void_def minimum_useful_defined by code_simp
  show ?thesis
    using find_void_safe [OF ok d f] f unfolding m_def [symmetric] m'_def [symmetric] Let_def by blast
qed

end
