(* ===== verification/Append_Writer.thy ===== *)
theory Append_Writer
  imports File_Header Hot_Tail
begin

text \<open>
  The write-ahead log of \<^verbatim>\<open>append_writer.rs\<close>: entries are appended at the tail of the data file, written
  in place over reclaimed space, and read back by offset.  The record keeps the bytes of the file (the
  writing and the reading handle see the same bytes), the header in memory, the tail offset and the active
  header slot.  \<open>now\<close> is the reading of the clock, \<open>None\<close> in an outer option a panic.  Offsets are natural
  numbers: a file has fewer than \<open>2 ^ 63\<close> bytes.  The lemmas show that a written entry reads back
  unchanged through every reader until its bytes are overwritten.
\<close>

section \<open>Signed time stamps\<close>

definition i64_max :: "i64 \<Rightarrow> i64 \<Rightarrow> i64" where
  "i64_max a b = (if sint a \<le> sint b then b else a)"

definition i64_saturating_add :: "i64 \<Rightarrow> i64 \<Rightarrow> i64" where
  "i64_saturating_add a b = word_of_int (max (- (2 ^ 63)) (min (2 ^ 63 - 1) (sint a + sint b)))"

lemma sint_i64_bounds: "- (2 ^ 63) \<le> sint (a :: i64)" "sint (a :: i64) < 2 ^ 63"
  using sint_greater_eq [of a] sint_less [of a] by simp_all

lemma sint_saturating_add_one:
  "sint (i64_saturating_add a 1) = min (2 ^ 63 - 1) (sint a + 1)"
proof -
  have "sint (word_of_int x :: i64) = x" if "- (2 ^ 63) \<le> x" "x < 2 ^ 63" for x
    using that by (simp add: signed_of_int signed_take_bit_int_eq_self)
  moreover have "sint (1 :: i64) = 1" by simp
  ultimately show ?thesis using sint_i64_bounds [of a] by (simp add: i64_saturating_add_def)
qed

section \<open>The writer\<close>

record append_writer =
  aw_file :: bytes
  aw_header :: file_header
  aw_offset :: nat
  aw_slot :: nat

definition append_writer_create :: "(bytes \<Rightarrow> u32) \<Rightarrow> i64 \<Rightarrow> append_writer option" where
  "append_writer_create crc32 now =
    (case write_initial_header crc32 [] (file_header_new now Blake3_256) of
       None \<Rightarrow> None
     | Some (f, h) \<Rightarrow> Some \<lparr> aw_file = f, aw_header = h, aw_offset = HEADER_REGION_SIZE, aw_slot = 0 \<rparr>)"

definition append_writer_open :: "(bytes \<Rightarrow> u32) \<Rightarrow> bytes \<Rightarrow> append_writer engine_result option" where
  "append_writer_open crc32 f =
    (case read_active_header crc32 f of
       None \<Rightarrow> None
     | Some (Inl e) \<Rightarrow> Some (Inl e)
     | Some (Inr (h, slot)) \<Rightarrow>
         Some (Inr \<lparr> aw_file = f, aw_header = h, aw_offset = length f, aw_slot = slot \<rparr>))"

definition set_offset :: "nat \<Rightarrow> append_writer \<Rightarrow> append_writer" where
  "set_offset off w = w\<lparr> aw_offset := off \<rparr>"

definition aw_file_size :: "append_writer \<Rightarrow> nat" where
  "aw_file_size w = aw_offset w"

definition update_header :: "(bytes \<Rightarrow> u32) \<Rightarrow> file_header \<Rightarrow> append_writer \<Rightarrow> append_writer option" where
  "update_header crc32 header w =
    (let new_header = header\<lparr> fh_sequence := fh_sequence (aw_header w),
           fh_updated_at := i64_max (fh_updated_at header) (fh_updated_at (aw_header w)) \<rparr> in
     case write_header_to_inactive_slot crc32 (aw_file w) new_header (aw_slot w) of
       None \<Rightarrow> None
     | Some (f, h) \<Rightarrow> Some (w\<lparr> aw_file := f, aw_header := h, aw_slot := 1 - aw_slot w \<rparr>))"

text \<open>\<^verbatim>\<open>update_file_header\<close> differs in the kind of \<^verbatim>\<open>fsync\<close> only, which the model does not see.\<close>

definition update_file_header :: "(bytes \<Rightarrow> u32) \<Rightarrow> file_header \<Rightarrow> append_writer \<Rightarrow> append_writer option" where
  "update_file_header crc32 header w =
    (let new_header = header\<lparr> fh_sequence := fh_sequence (aw_header w),
           fh_updated_at := i64_max (fh_updated_at header) (fh_updated_at (aw_header w)) \<rparr> in
     case write_header_to_inactive_slot crc32 (aw_file w) new_header (aw_slot w) of
       None \<Rightarrow> None
     | Some (f, h) \<Rightarrow> Some (w\<lparr> aw_file := f, aw_header := h, aw_slot := 1 - aw_slot w \<rparr>))"

definition set_header_in_memory :: "file_header \<Rightarrow> append_writer \<Rightarrow> append_writer" where
  "set_header_in_memory header w =
    w\<lparr> aw_header := header\<lparr> fh_updated_at := i64_max (fh_updated_at header) (fh_updated_at (aw_header w)) \<rparr> \<rparr>"

definition next_entry_timestamp :: "i64 \<Rightarrow> append_writer \<Rightarrow> i64 \<times> append_writer" where
  "next_entry_timestamp now w =
    (let updated_at = fh_updated_at (aw_header w);
         nxt = if sint now \<le> sint updated_at then i64_saturating_add updated_at 1 else now in
     (nxt, w\<lparr> aw_header := (aw_header w)\<lparr> fh_updated_at := nxt \<rparr> \<rparr>))"

section \<open>Writing entries\<close>

text \<open>The header both writers build: the hash and the length first, then the time stamp.\<close>

definition build_entry_header ::
  "(bytes \<Rightarrow> bytes) \<Rightarrow> i64 \<Rightarrow> entry_type \<Rightarrow> bytes \<Rightarrow> bytes \<Rightarrow> u8 \<Rightarrow> compression_algorithm \<Rightarrow> u8 \<Rightarrow>
    append_writer \<Rightarrow> (entry_header \<times> append_writer) engine_result" where
  "build_entry_header blake3 now et key value flags compression_algo entry_version w =
    (let hash_algo = fh_hash_algo (aw_header w) in
     res_bind (entry_compute_hash blake3 et key value hash_algo) (\<lambda>hash.
     res_bind (compute_total_length hash_algo (length key) (length value)) (\<lambda>total_length.
     let (ts, w1) = next_entry_timestamp now w in
     Inr (\<lparr> eh_entry_version = entry_version, eh_entry_type = et, eh_flags = flags,
            eh_hash_algo = hash_algo, eh_compression_algo = compression_algo, eh_encryption_algo = 0,
            eh_key_length = word_of_nat (length key), eh_value_length = word_of_nat (length value),
            eh_timestamp = ts, eh_total_length = total_length, eh_hash = hash \<rparr>, w1))))"

text \<open>A seek followed by three calls of \<^verbatim>\<open>write_all\<close>.\<close>

definition write_entry_bytes :: "bytes \<Rightarrow> nat \<Rightarrow> entry_header \<Rightarrow> bytes \<Rightarrow> bytes \<Rightarrow> bytes" where
  "write_entry_bytes f off h key value =
    (let hb = entry_header_serialize h;
         f1 = write_at f off hb;
         f2 = write_at f1 (off + length hb) key in
     write_at f2 (off + length hb + length key) value)"

definition append_entry_with_compression_and_version ::
  "(bytes \<Rightarrow> bytes) \<Rightarrow> i64 \<Rightarrow> entry_type \<Rightarrow> bytes \<Rightarrow> bytes \<Rightarrow> u8 \<Rightarrow> compression_algorithm \<Rightarrow> u8 \<Rightarrow>
    append_writer \<Rightarrow> (nat \<times> u32 \<times> append_writer) engine_result" where
  "append_entry_with_compression_and_version blake3 now et key value flags compression_algo entry_version w =
    res_bind (build_entry_header blake3 now et key value flags compression_algo entry_version w) (\<lambda>(header, w1).
      let entry_offset = aw_offset w1 in
      Inr (entry_offset, eh_total_length header,
        w1\<lparr> aw_file := write_entry_bytes (aw_file w1) entry_offset header key value,
            aw_offset := entry_offset + unat (eh_total_length header),
            aw_header := (aw_header w1)\<lparr> fh_entry_count := fh_entry_count (aw_header w1) + 1 \<rparr> \<rparr>))"

definition append_entry_with_compression ::
  "(bytes \<Rightarrow> bytes) \<Rightarrow> i64 \<Rightarrow> entry_type \<Rightarrow> bytes \<Rightarrow> bytes \<Rightarrow> u8 \<Rightarrow> compression_algorithm \<Rightarrow>
    append_writer \<Rightarrow> (nat \<times> u32 \<times> append_writer) engine_result" where
  "append_entry_with_compression blake3 now et key value flags compression_algo w =
    append_entry_with_compression_and_version blake3 now et key value flags compression_algo CURRENT_ENTRY_VERSION w"

definition append_entry ::
  "(bytes \<Rightarrow> bytes) \<Rightarrow> i64 \<Rightarrow> entry_type \<Rightarrow> bytes \<Rightarrow> bytes \<Rightarrow> u8 \<Rightarrow>
    append_writer \<Rightarrow> (nat \<times> u32 \<times> append_writer) engine_result" where
  "append_entry blake3 now et key value flags w =
    append_entry_with_compression blake3 now et key value flags NoCompression w"

definition write_void :: "(bytes \<Rightarrow> bytes) \<Rightarrow> i64 \<Rightarrow> u32 \<Rightarrow> append_writer \<Rightarrow> (nat \<times> u32 \<times> append_writer) engine_result" where
  "write_void blake3 now sz w =
    (let hs = 31 + hash_length (fh_hash_algo (aw_header w)) in
     if unat sz < hs then Inl (CorruptEntry (aw_offset w) ''Void size is smaller than minimum entry size'')
     else append_entry blake3 now Void [] (replicate (unat sz - hs) 0) 0 w)"

definition write_entry_at_nosync_full_with_version ::
  "(bytes \<Rightarrow> bytes) \<Rightarrow> i64 \<Rightarrow> nat \<Rightarrow> entry_type \<Rightarrow> bytes \<Rightarrow> bytes \<Rightarrow> u8 \<Rightarrow> compression_algorithm \<Rightarrow> u8 \<Rightarrow>
    append_writer \<Rightarrow> (u32 \<times> append_writer) engine_result" where
  "write_entry_at_nosync_full_with_version blake3 now offset et key value flags compression_algo entry_version w =
    res_bind (build_entry_header blake3 now et key value flags compression_algo entry_version w) (\<lambda>(header, w1).
      Inr (eh_total_length header,
        w1\<lparr> aw_file := write_entry_bytes (aw_file w1) offset header key value \<rparr>))"

definition write_entry_at_nosync_full ::
  "(bytes \<Rightarrow> bytes) \<Rightarrow> i64 \<Rightarrow> nat \<Rightarrow> entry_type \<Rightarrow> bytes \<Rightarrow> bytes \<Rightarrow> u8 \<Rightarrow> compression_algorithm \<Rightarrow>
    append_writer \<Rightarrow> (u32 \<times> append_writer) engine_result" where
  "write_entry_at_nosync_full blake3 now offset et key value flags compression_algo w =
    write_entry_at_nosync_full_with_version blake3 now offset et key value flags compression_algo CURRENT_ENTRY_VERSION w"

definition write_entry_at_nosync_with_flags ::
  "(bytes \<Rightarrow> bytes) \<Rightarrow> i64 \<Rightarrow> nat \<Rightarrow> entry_type \<Rightarrow> bytes \<Rightarrow> bytes \<Rightarrow> u8 \<Rightarrow>
    append_writer \<Rightarrow> (u32 \<times> append_writer) engine_result" where
  "write_entry_at_nosync_with_flags blake3 now offset et key value flags w =
    write_entry_at_nosync_full blake3 now offset et key value flags NoCompression w"

definition write_entry_at_nosync ::
  "(bytes \<Rightarrow> bytes) \<Rightarrow> i64 \<Rightarrow> nat \<Rightarrow> entry_type \<Rightarrow> bytes \<Rightarrow> bytes \<Rightarrow>
    append_writer \<Rightarrow> (u32 \<times> append_writer) engine_result" where
  "write_entry_at_nosync blake3 now offset et key value w =
    write_entry_at_nosync_full blake3 now offset et key value 0 NoCompression w"

text \<open>Without the \<^verbatim>\<open>fsync\<close> the two variants coincide.\<close>

definition write_entry_at ::
  "(bytes \<Rightarrow> bytes) \<Rightarrow> i64 \<Rightarrow> nat \<Rightarrow> entry_type \<Rightarrow> bytes \<Rightarrow> bytes \<Rightarrow>
    append_writer \<Rightarrow> (u32 \<times> append_writer) engine_result" where
  "write_entry_at blake3 now offset et key value w = write_entry_at_nosync blake3 now offset et key value w"

definition write_void_at_nosync ::
  "(bytes \<Rightarrow> bytes) \<Rightarrow> i64 \<Rightarrow> nat \<Rightarrow> u32 \<Rightarrow> append_writer \<Rightarrow> append_writer engine_result" where
  "write_void_at_nosync blake3 now offset sz w =
    (let hs = 31 + hash_length (fh_hash_algo (aw_header w)) in
     if unat sz < hs then Inl (CorruptEntry offset ''Void size is smaller than minimum entry size'')
     else res_bind (write_entry_at_nosync blake3 now offset Void [] (replicate (unat sz - hs) 0) w)
       (\<lambda>(_, w1). Inr w1))"

definition write_void_at ::
  "(bytes \<Rightarrow> bytes) \<Rightarrow> i64 \<Rightarrow> nat \<Rightarrow> u32 \<Rightarrow> append_writer \<Rightarrow> append_writer engine_result" where
  "write_void_at blake3 now offset sz w = write_void_at_nosync blake3 now offset sz w"

definition aw_write_at :: "nat \<Rightarrow> bytes \<Rightarrow> append_writer \<Rightarrow> append_writer" where
  "aw_write_at offset data w = w\<lparr> aw_file := write_at (aw_file w) offset data \<rparr>"

definition write_hot_tail_at ::
  "(bytes \<Rightarrow> u32) \<Rightarrow> nat \<Rightarrow> hot_tail_payload \<Rightarrow> nat \<Rightarrow> append_writer \<Rightarrow> nat \<times> append_writer" where
  "write_hot_tail_at crc32 offset payload hl w =
    (let (f, end_offset) = write_hot_tail crc32 (aw_file w) offset payload hl in
     (end_offset, w\<lparr> aw_file := f \<rparr>))"

text \<open>The copy loop, one chunk per step.\<close>

definition COPY_CHUNK :: nat where "COPY_CHUNK = 64 * 1024 * 1024"

function copy_loop :: "nat \<Rightarrow> nat \<Rightarrow> nat \<Rightarrow> bytes \<Rightarrow> bytes engine_result" where
  "copy_loop read_pos write_pos remaining f =
    (if remaining = 0 then Inr f
     else let chunk_len = min COPY_CHUNK remaining in
       (case read_exact f read_pos chunk_len of
          None \<Rightarrow> Inl UnexpectedEof
        | Some buf \<Rightarrow> copy_loop (read_pos + chunk_len) (write_pos + chunk_len) (remaining - chunk_len)
            (write_at f write_pos buf)))"
  by pat_completeness auto
termination
  by (relation "measure (\<lambda>(_, _, remaining, _). remaining)") (auto simp: COPY_CHUNK_def)

declare copy_loop.simps [simp del]

definition copy_region :: "nat \<Rightarrow> nat \<Rightarrow> nat \<Rightarrow> append_writer \<Rightarrow> append_writer engine_result" where
  "copy_region src dst sz w =
    res_bind (copy_loop src dst sz (aw_file w)) (\<lambda>f. Inr (w\<lparr> aw_file := f \<rparr>))"

section \<open>Reading entries\<close>

definition read_span_at :: "bytes \<Rightarrow> nat \<Rightarrow> nat \<Rightarrow> bytes engine_result" where
  "read_span_at f offset len = ok_or UnexpectedEof (read_exact f offset len)"

definition read_hot_tail_payload :: "(bytes \<Rightarrow> u32) \<Rightarrow> append_writer \<Rightarrow> nat \<Rightarrow> nat \<Rightarrow> hot_tail_payload" where
  "read_hot_tail_payload crc32 w offset hl =
    (case read_hot_tail crc32 (aw_file w) offset hl of
       None \<Rightarrow> \<lparr> htp_writes = [], htp_voids = [] \<rparr> | Some payload \<Rightarrow> payload)"

definition read_hot_tail_entries :: "(bytes \<Rightarrow> u32) \<Rightarrow> append_writer \<Rightarrow> nat \<Rightarrow> nat \<Rightarrow> kv_entry list" where
  "read_hot_tail_entries crc32 w offset hl = htp_writes (read_hot_tail_payload crc32 w offset hl)"

text \<open>The check of the payload lengths against the len length (with \<^verbatim>\<open>saturating_sub\<close>).\<close>

definition payload_fits :: "entry_header \<Rightarrow> bool" where
  "payload_fits h \<longleftrightarrow>
    unat (eh_key_length h) + unat (eh_value_length h) \<le> unat (eh_total_length h) - header_size (eh_hash_algo h)"

definition read_entry_at_opt ::
  "(bytes \<Rightarrow> bytes) \<Rightarrow> append_writer \<Rightarrow> nat \<Rightarrow> bool \<Rightarrow> (entry_header \<times> bytes \<times> bytes) engine_result" where
  "read_entry_at_opt blake3 w offset verify =
    res_bind (entry_header_deserialize (drop offset (aw_file w))) (\<lambda>(header, reader).
      if \<not> payload_fits header
      then Inl (CorruptEntry offset ''key_length + value_length exceeds total_length minus header'')
      else let klen = unat (eh_key_length header); vlen = unat (eh_value_length header) in
        res_bind (read_span_at reader 0 klen) (\<lambda>key.
        res_bind (read_span_at reader klen vlen) (\<lambda>value.
          if verify \<and> \<not> entry_verify blake3 header key value
          then Inl (CorruptEntry offset ''Hash verification failed'')
          else Inr (header, key, value))))"

text \<open>Reading the fixed part first, to learn the hash algorithm.\<close>

definition fixed_hash_algo :: "bytes \<Rightarrow> hash_algorithm engine_result" where
  "fixed_hash_algo fixed_buf =
    (let raw = from_le_bytes (slice_at fixed_buf 7 2) in
     ok_or (InvalidHashAlgorithm raw) (hash_algorithm_from_u16 raw))"

definition read_entry_header_at_shared :: "append_writer \<Rightarrow> nat \<Rightarrow> entry_header engine_result" where
  "read_entry_header_at_shared w offset =
    res_bind (read_span_at (aw_file w) offset FIXED_HEADER_SIZE) (\<lambda>fixed_buf.
    res_bind (fixed_hash_algo fixed_buf) (\<lambda>hash_algo.
    res_bind (read_span_at (aw_file w) (offset + FIXED_HEADER_SIZE) (hash_length hash_algo)) (\<lambda>rest.
    res_bind (entry_header_deserialize (fixed_buf @ rest)) (\<lambda>(header, _).
      if \<not> payload_fits header
      then Inl (CorruptEntry offset ''key_length + value_length exceeds total_length minus header'')
      else Inr header))))"

text \<open>\<open>None\<close>: the slice \<^verbatim>\<open>entry_buf[..full_header_size]\<close> panics when the recorded length is shorter than
  the header.\<close>

definition read_entry_at_shared_opt ::
  "(bytes \<Rightarrow> bytes) \<Rightarrow> append_writer \<Rightarrow> nat \<Rightarrow> bool \<Rightarrow> (entry_header \<times> bytes \<times> bytes) engine_result option" where
  "read_entry_at_shared_opt blake3 w offset verify =
    (case res_bind (read_span_at (aw_file w) offset FIXED_HEADER_SIZE) (\<lambda>fixed_buf.
          res_bind (fixed_hash_algo fixed_buf) (\<lambda>hash_algo.
          let total_length = unat (from_le_bytes (slice_at fixed_buf 27 4) :: u32) in
          res_bind (read_span_at (aw_file w) offset total_length) (\<lambda>entry_buf.
            Inr (header_size hash_algo, entry_buf)))) of
       Inl e \<Rightarrow> Some (Inl e)
     | Inr (full_header_size, entry_buf) \<Rightarrow>
         if length entry_buf < full_header_size then None
         else Some (res_bind (entry_header_deserialize (take full_header_size entry_buf)) (\<lambda>(header, _).
           if \<not> payload_fits header
           then Inl (CorruptEntry offset ''key_length + value_length exceeds total_length minus header'')
           else let klen = unat (eh_key_length header); vlen = unat (eh_value_length header);
                    key = slice_at entry_buf full_header_size klen;
                    value = slice_at entry_buf (full_header_size + klen) vlen in
             if verify \<and> \<not> entry_verify blake3 header key value
             then Inl (CorruptEntry offset ''Hash verification failed'')
             else Inr (header, key, value))))"

definition read_entry_at :: "(bytes \<Rightarrow> bytes) \<Rightarrow> append_writer \<Rightarrow> nat \<Rightarrow> (entry_header \<times> bytes \<times> bytes) engine_result" where
  "read_entry_at blake3 w offset = read_entry_at_opt blake3 w offset False"

definition read_entry_at_verified ::
  "(bytes \<Rightarrow> bytes) \<Rightarrow> append_writer \<Rightarrow> nat \<Rightarrow> (entry_header \<times> bytes \<times> bytes) engine_result" where
  "read_entry_at_verified blake3 w offset = read_entry_at_opt blake3 w offset True"

definition read_entry_at_shared ::
  "(bytes \<Rightarrow> bytes) \<Rightarrow> append_writer \<Rightarrow> nat \<Rightarrow> (entry_header \<times> bytes \<times> bytes) engine_result option" where
  "read_entry_at_shared blake3 w offset = read_entry_at_shared_opt blake3 w offset False"

definition read_entry_at_shared_verified ::
  "(bytes \<Rightarrow> bytes) \<Rightarrow> append_writer \<Rightarrow> nat \<Rightarrow> (entry_header \<times> bytes \<times> bytes) engine_result option" where
  "read_entry_at_shared_verified blake3 w offset = read_entry_at_shared_opt blake3 w offset True"

section \<open>Entries in the file\<close>

definition entry_bytes :: "entry_header \<Rightarrow> bytes \<Rightarrow> bytes \<Rightarrow> bytes" where
  "entry_bytes h key value = entry_header_serialize h @ key @ value"

definition at_file :: "bytes \<Rightarrow> nat \<Rightarrow> bytes \<Rightarrow> bool" where
  "at_file f off bs \<longleftrightarrow> read_exact f off (length bs) = Some bs"

text \<open>A header that describes its key and value.\<close>

definition entry_ok :: "(bytes \<Rightarrow> bytes) \<Rightarrow> entry_header \<Rightarrow> bytes \<Rightarrow> bytes \<Rightarrow> bool" where
  "entry_ok blake3 h key value \<longleftrightarrow> entry_header_wf h \<and> unat (eh_key_length h) = length key \<and>
    unat (eh_value_length h) = length value \<and>
    unat (eh_total_length h) = header_size (eh_hash_algo h) + length key + length value \<and>
    entry_verify blake3 h key value"

lemma write_at_append: "write_at (write_at f off a) (off + length a) b = write_at f off (a @ b)"
proof -
  have "length (take off f @ replicate (off - length f) 0 @ a) = off + length a" by simp
  then show ?thesis
    by (simp add: write_at_def drop_drop add.commute add.left_commute)
qed

lemma write_entry_bytes_eq: "write_entry_bytes f off h key value = write_at f off (entry_bytes h key value)"
  using write_at_append [of "write_at f off (entry_header_serialize h)"] write_at_append [of f]
  by (simp add: write_entry_bytes_def entry_bytes_def Let_def) (metis add.assoc append_assoc length_append)

lemma length_entry_bytes:
  "entry_header_wf h \<Longrightarrow> length (entry_bytes h key value) = header_size (eh_hash_algo h) + length key + length value"
  by (simp add: entry_bytes_def length_entry_header_serialize)

lemma at_file_write: "at_file (write_at f off bs) off bs"
  by (simp add: at_file_def)

lemma at_file_write_other:
  assumes "at_file f off bs" "off + length bs \<le> off' \<or> off' + length bs' \<le> off"
  shows "at_file (write_at f off' bs') off bs"
proof -
  have "off + length bs \<le> length f" using assms(1) by (simp add: at_file_def read_exact_def split: if_splits)
  then show ?thesis using assms read_write_other [of off "length bs" off' bs' f] by (simp add: at_file_def)
qed

lemma at_file_drop:
  "at_file f off bs \<longleftrightarrow> off + length bs \<le> length f \<and> take (length bs) (drop off f) = bs"
  by (simp add: at_file_def read_exact_def slice_at_def)

lemma at_fileE:
  assumes "at_file f off bs"
  obtains rest where "drop off f = bs @ rest" "off + length bs \<le> length f"
  using assms by (metis append_take_drop_id at_file_drop)

lemma at_fileI: "drop off f = bs @ rest \<Longrightarrow> off \<le> length f \<Longrightarrow> at_file f off bs"
proof -
  assume d: "drop off f = bs @ rest" and l: "off \<le> length f"
  have "length f - off = length bs + length rest" using arg_cong [OF d, of length] by simp
  then show ?thesis using d l by (simp add: at_file_drop)
qed

lemma at_file_prefix: "at_file f off (bs @ cs) \<Longrightarrow> at_file f off bs"
  by (erule at_fileE) (auto intro: at_fileI)

lemma at_file_split: "at_file f off (bs @ cs) \<longleftrightarrow> at_file f off bs \<and> at_file f (off + length bs) cs"
proof
  assume a: "at_file f off (bs @ cs)"
  then obtain rest where r: "drop off f = (bs @ cs) @ rest" "off + length (bs @ cs) \<le> length f" by (rule at_fileE)
  have "drop (off + length bs) f = drop (length bs) (drop off f)" by (simp add: add.commute)
  then have "drop (off + length bs) f = cs @ rest" using r(1) by simp
  then show "at_file f off bs \<and> at_file f (off + length bs) cs"
    using r(2) at_file_prefix [OF a] by (auto intro: at_fileI)
next
  assume a: "at_file f off bs \<and> at_file f (off + length bs) cs"
  then obtain rest where r: "drop off f = bs @ rest" "off + length bs \<le> length f" by (auto elim: at_fileE)
  from a obtain rest' where r': "drop (off + length bs) f = cs @ rest'" by (auto elim: at_fileE)
  have "rest = drop (length bs) (drop off f)" using r(1) by simp
  then have "rest = cs @ rest'" using r' by (simp add: add.commute)
  then show "at_file f off (bs @ cs)" using r by (auto intro: at_fileI)
qed

lemma read_span_iff: "read_span_at f off n = Inr bs \<longleftrightarrow> at_file f off bs \<and> length bs = n"
  by (auto simp: read_span_at_def at_file_def dest: read_exact_length)

lemma entry_ok_fits: "entry_ok blake3 h key value \<Longrightarrow> payload_fits h"
  by (simp add: entry_ok_def payload_fits_def)

text \<open>A read succeeds exactly on the bytes of an entry.\<close>

lemma read_entry_iff:
  "read_entry_at_opt blake3 w off verify = Inr (h, key, value) \<longleftrightarrow>
    at_file (aw_file w) off (entry_bytes h key value) \<and> entry_header_wf h \<and> payload_fits h \<and>
    unat (eh_key_length h) = length key \<and> unat (eh_value_length h) = length value \<and>
    (verify \<longrightarrow> entry_verify blake3 h key value)"
  (is "?L \<longleftrightarrow> ?R")
proof
  assume ?L
  then obtain rd where d: "entry_header_deserialize (drop off (aw_file w)) = Inr (h, rd)"
    and fits: "payload_fits h" and k: "read_span_at rd 0 (unat (eh_key_length h)) = Inr key"
    and v: "read_span_at rd (unat (eh_key_length h)) (unat (eh_value_length h)) = Inr value"
    and vf: "verify \<longrightarrow> entry_verify blake3 h key value"
    by (auto simp: read_entry_at_opt_def Let_def split: if_splits)
  note canon = entry_header_canonical [OF d]
  have kv: "at_file rd 0 (key @ value)" "length key = unat (eh_key_length h)" "length value = unat (eh_value_length h)"
    using k v by (auto simp: read_span_iff at_file_split)
  from kv(1) obtain rest where "rd = (key @ value) @ rest" by (rule at_fileE) simp
  then have b: "drop off (aw_file w) = entry_bytes h key value @ rest" using canon(1) by (simp add: entry_bytes_def)
  have "entry_bytes h key value \<noteq> []"
    using length_entry_bytes [OF canon(2), of key "value"] by (auto simp: header_size_def FIXED_HEADER_SIZE_def)
  then have "off \<le> length (aw_file w)" using b by (cases "off \<le> length (aw_file w)") auto
  then have "at_file (aw_file w) off (entry_bytes h key value)" by (rule at_fileI [OF b])
  then show ?R using canon(2) fits kv(2,3) vf by simp
next
  assume r: ?R
  then have r1: "at_file (aw_file w) off (entry_bytes h key value)" by simp
  from r1 obtain rest where d: "drop off (aw_file w) = entry_bytes h key value @ rest" by (rule at_fileE)
  have "entry_header_deserialize (drop off (aw_file w)) = Inr (h, key @ value @ rest)"
    using r entry_header_deserialize_serialize [of h "key @ value @ rest"] by (simp add: d entry_bytes_def)
  moreover have "at_file (key @ value @ rest) 0 (key @ value)" by (rule at_fileI [of _ _ _ rest]) simp_all
  then have "read_span_at (key @ value @ rest) 0 (length key) = Inr key"
    "read_span_at (key @ value @ rest) (length key) (length value) = Inr value"
    by (simp_all add: read_span_iff at_file_split)
  ultimately show ?L using r by (auto simp: read_entry_at_opt_def Let_def simp del: res_bind_eq_Inr)
qed

lemma fixed_part:
  assumes "entry_header_wf h"
  shows "fixed_hash_algo (take FIXED_HEADER_SIZE (entry_header_serialize h)) = Inr (eh_hash_algo h)"
    and "from_le_bytes (slice_at (take FIXED_HEADER_SIZE (entry_header_serialize h)) 27 4) = eh_total_length h"
  using assms
  by (simp_all add: fixed_hash_algo_def entry_header_serialize_def FIXED_HEADER_SIZE_def entry_header_wf_def)

lemma header_take_drop:
  assumes "entry_header_wf h"
  shows "entry_header_serialize h = take FIXED_HEADER_SIZE (entry_header_serialize h) @ eh_hash h"
    and "length (take FIXED_HEADER_SIZE (entry_header_serialize h)) = FIXED_HEADER_SIZE"
  using assms by (simp_all add: entry_header_serialize_def FIXED_HEADER_SIZE_def)

lemma shared_read_ok:
  assumes at: "at_file (aw_file w) off (entry_bytes h key value)" and ok: "entry_ok blake3 h key value"
  shows "read_entry_at_shared_opt blake3 w off verify = Some (Inr (h, key, value))"
    and "read_entry_header_at_shared w off = Inr h"
proof -
  have wf: "entry_header_wf h" using ok by (simp add: entry_ok_def)
  define fx where "fx = take FIXED_HEADER_SIZE (entry_header_serialize h)"
  have fx: "entry_header_serialize h = fx @ eh_hash h" "length fx = FIXED_HEADER_SIZE"
    using header_take_drop [OF wf] by (simp_all add: fx_def)
  have atf: "at_file (aw_file w) off fx" and ath: "at_file (aw_file w) (off + FIXED_HEADER_SIZE) (eh_hash h)"
    using at fx by (simp_all add: entry_bytes_def at_file_split)
  have r1: "read_span_at (aw_file w) off FIXED_HEADER_SIZE = Inr fx"
    using atf fx(2) by (simp add: read_span_iff)
  have r2: "read_span_at (aw_file w) (off + FIXED_HEADER_SIZE) (hash_length (eh_hash_algo h)) = Inr (eh_hash h)"
    using ath wf by (simp add: read_span_iff entry_header_wf_def)
  have len: "length (entry_bytes h key value) = unat (eh_total_length h)"
    using ok wf by (simp add: length_entry_bytes entry_ok_def)
  have r3: "read_span_at (aw_file w) off (unat (eh_total_length h)) = Inr (entry_bytes h key value)"
    using at len by (simp add: read_span_iff)
  have hs: "header_size (eh_hash_algo h) = length (entry_header_serialize h)"
    using wf by (simp add: length_entry_header_serialize)
  have des: "entry_header_deserialize (entry_header_serialize h) = Inr (h, [])"
    using entry_header_deserialize_serialize [OF wf, of "[]"] by simp
  have kv: "slice_at (entry_bytes h key value) (header_size (eh_hash_algo h)) (length key) = key"
    "slice_at (entry_bytes h key value) (header_size (eh_hash_algo h) + length key) (length value) = value"
    by (simp_all add: entry_bytes_def hs)
  have tk: "take (header_size (eh_hash_algo h)) (entry_bytes h key value) = entry_header_serialize h"
    by (simp add: entry_bytes_def hs)
  have kvl: "unat (eh_key_length h) = length key" "unat (eh_value_length h) = length value"
    "entry_verify blake3 h key value"
    using ok by (simp_all add: entry_ok_def)
  note fxp = fixed_part [OF wf, folded fx_def]
  show "read_entry_header_at_shared w off = Inr h"
    using entry_ok_fits [OF ok] des fx(1)
    by (simp add: read_entry_header_at_shared_def r1 fxp r2 del: res_bind_eq_Inr)
  have "\<not> length (entry_bytes h key value) < header_size (eh_hash_algo h)"
    by (simp add: length_entry_bytes [OF wf])
  then show "read_entry_at_shared_opt blake3 w off verify = Some (Inr (h, key, value))"
    using entry_ok_fits [OF ok] kvl
    by (simp add: read_entry_at_shared_opt_def r1 fxp r3 tk des kv Let_def del: res_bind_eq_Inr)
qed

section \<open>What the writers write\<close>

lemma next_entry_timestamp_props:
  assumes "next_entry_timestamp now w = (ts, w1)"
  shows "w1 = w\<lparr> aw_header := (aw_header w)\<lparr> fh_updated_at := ts \<rparr> \<rparr>"
    and "sint ts = max (sint now) (min (2 ^ 63 - 1) (sint (fh_updated_at (aw_header w)) + 1))"
proof -
  let ?u = "fh_updated_at (aw_header w)"
  have ts: "ts = (if sint now \<le> sint ?u then i64_saturating_add ?u 1 else now)"
    using assms unfolding next_entry_timestamp_def Let_def prod.inject by (simp only: simp_thms)
  have w1: "w1 = w\<lparr> aw_header := (aw_header w)\<lparr> fh_updated_at := ts \<rparr> \<rparr>"
    using assms unfolding next_entry_timestamp_def Let_def prod.inject ts by (simp only: simp_thms)
  show "w1 = w\<lparr> aw_header := (aw_header w)\<lparr> fh_updated_at := ts \<rparr> \<rparr>" by (rule w1)
  show "sint ts = max (sint now) (min (2 ^ 63 - 1) (sint ?u + 1))"
    using sint_i64_bounds(2) [of now] sint_i64_bounds(2) [of ?u]
    by (cases "sint now \<le> sint ?u") (simp_all add: ts sint_saturating_add_one)
qed

lemma build_entry_header_Inr:
  assumes hl: "\<forall>bs. length (blake3 bs) = 32"
    and b: "build_entry_header blake3 now et key value flags c ver w = Inr (h, w1)"
  shows "entry_ok blake3 h key value"
    and "eh_entry_type h = et \<and> eh_flags h = flags \<and> eh_compression_algo h = c \<and> eh_entry_version h = ver"
    and "w1 = w\<lparr> aw_header := (aw_header w)\<lparr> fh_updated_at := eh_timestamp h \<rparr> \<rparr>"
    and "sint (eh_timestamp h) = max (sint now) (min (2 ^ 63 - 1) (sint (fh_updated_at (aw_header w)) + 1))"
proof -
  let ?a = "fh_hash_algo (aw_header w)"
  obtain hash len ts where hash: "entry_compute_hash blake3 et key value ?a = Inr hash"
    and len: "compute_total_length ?a (length key) (length value) = Inr len"
    and ts: "next_entry_timestamp now w = (ts, w1)"
    and h: "h = \<lparr> eh_entry_version = ver, eh_entry_type = et, eh_flags = flags,
            eh_hash_algo = ?a, eh_compression_algo = c, eh_encryption_algo = 0,
            eh_key_length = word_of_nat (length key), eh_value_length = word_of_nat (length value),
            eh_timestamp = ts, eh_total_length = len, eh_hash = hash \<rparr>"
    using b by (auto simp: build_entry_header_def Let_def case_prod_unfold intro: prod.collapse [symmetric])
  have a: "?a = Blake3_256" "length hash = 32"
    using hash hl by (auto simp: entry_compute_hash_def compute_hash_algo_def split: hash_algorithm.splits)
  have "length key \<le> 1073741824" "length value \<le> 1073741824"
    using len by (auto simp: compute_total_length_def MAX_KEY_OR_VALUE_BYTES_def split: if_splits)
  then have kv: "unat (word_of_nat (length key) :: u32) = length key" 
    "unat (word_of_nat (length value) :: u32) = length value"
    by (simp_all add: unat_word_of_nat_u32)
  show "entry_ok blake3 h key value"
    using a hash kv compute_total_length_exact [OF len]
    by (simp add: entry_ok_def h entry_header_wf_def hash_length_def entry_verify_def)
  show "eh_entry_type h = et \<and> eh_flags h = flags \<and> eh_compression_algo h = c \<and> eh_entry_version h = ver"
    by (simp add: h)
  show "w1 = w\<lparr> aw_header := (aw_header w)\<lparr> fh_updated_at := eh_timestamp h \<rparr> \<rparr>"
    "sint (eh_timestamp h) = max (sint now) (min (2 ^ 63 - 1) (sint (fh_updated_at (aw_header w)) + 1))"
    using next_entry_timestamp_props [OF ts] by (simp_all add: h)
qed

lemma build_entry_header_defined:
  "(\<exists>r. build_entry_header blake3 now et key value flags c ver w = Inr r) \<longleftrightarrow>
    fh_hash_algo (aw_header w) = Blake3_256 \<and> length key \<le> 2 ^ 30 \<and> length value \<le> 2 ^ 30"
proof -
  have "(\<exists>r. build_entry_header blake3 now et key value flags c ver w = Inr r) \<longleftrightarrow>
      (\<exists>x. entry_compute_hash blake3 et key value (fh_hash_algo (aw_header w)) = Inr x) \<and>
      (\<exists>n. compute_total_length (fh_hash_algo (aw_header w)) (length key) (length value) = Inr n)"
    by (simp add: build_entry_header_def Let_def case_prod_unfold) blast
  moreover have "(\<exists>x. entry_compute_hash blake3 et key value a = Inr x) \<longleftrightarrow> a = Blake3_256" for a
    by (cases a) (simp_all add: entry_compute_hash_def compute_hash_algo_def)
  moreover have "(\<exists>n. compute_total_length a i j = Inr n) \<longleftrightarrow> i \<le> 2 ^ 30 \<and> j \<le> 2 ^ 30" for a i j
    by (simp add: compute_total_length_def MAX_KEY_OR_VALUE_BYTES_def)
  ultimately show ?thesis by simp
qed

lemma read_entry_write_other:
  assumes r: "read_entry_at_opt blake3 w off verify = Inr (h, key, value)"
    and d: "off + length (entry_bytes h key value) \<le> off' \<or> off' + length bs \<le> off"
    and f: "aw_file w' = write_at (aw_file w) off' bs"
  shows "read_entry_at_opt blake3 w' off verify = Inr (h, key, value)"
  using r at_file_write_other [OF _ d, of "aw_file w"] by (simp add: read_entry_iff f)

lemma read_entry_ok:
  assumes "at_file (aw_file w) off (entry_bytes h key value)" "entry_ok blake3 h key value"
  shows "read_entry_at_opt blake3 w off verify = Inr (h, key, value)"
  using assms entry_ok_fits [OF assms(2)] by (simp add: read_entry_iff entry_ok_def)

text \<open>
  C5: An appended entry is placed at the old tail, the tail advances by exactly its length, and every
  reader (verifying or not, shared or not, header only) returns the header, key and value that were
  written; the time stamp exceeds the last one until it saturates; every entry below the old tail
  still reads as before.
\<close>

theorem append_read_roundtrip:
  assumes hl: "\<forall>bs. length (blake3 bs) = 32"
    and a: "append_entry_with_compression_and_version blake3 now et key value flags c ver w = Inr (off, len, w')"
  shows "off = aw_offset w \<and> aw_offset w' = off + unat len \<and>
    unat len = header_size Blake3_256 + length key + length value \<and>
    (\<exists>h. eh_entry_type h = et \<and> eh_flags h = flags \<and> eh_compression_algo h = c \<and> eh_entry_version h = ver \<and>
      sint (eh_timestamp h) = max (sint now) (min (2 ^ 63 - 1) (sint (fh_updated_at (aw_header w)) + 1)) \<and>
      fh_updated_at (aw_header w') = eh_timestamp h \<and>
      read_entry_at_verified blake3 w' off = Inr (h, key, value) \<and>
      read_entry_at_shared_verified blake3 w' off = Some (Inr (h, key, value)) \<and>
      read_entry_header_at_shared w' off = Inr h) \<and>
    (\<forall>off0 v h0 k0 v0. read_entry_at_opt blake3 w off0 v = Inr (h0, k0, v0) \<and>
       off0 + length (entry_bytes h0 k0 v0) \<le> off \<longrightarrow> read_entry_at_opt blake3 w' off0 v = Inr (h0, k0, v0))"
proof -
  obtain h w1 where b: "build_entry_header blake3 now et key value flags c ver w = Inr (h, w1)"
    and r: "off = aw_offset w1" "len = eh_total_length h"
    and w': "w' = w1\<lparr> aw_file := write_entry_bytes (aw_file w1) off h key value,
            aw_offset := off + unat len,
            aw_header := (aw_header w1)\<lparr> fh_entry_count := fh_entry_count (aw_header w1) + 1 \<rparr> \<rparr>"
    using a by (auto simp: append_entry_with_compression_and_version_def Let_def)
  note bh = build_entry_header_Inr [OF hl b]
  have algo: "eh_hash_algo h = Blake3_256"
    using bh(1) by (cases "eh_hash_algo h")
      (simp_all add: entry_ok_def entry_verify_def entry_compute_hash_def compute_hash_algo_def)
  have f: "aw_file w' = write_at (aw_file w) off (entry_bytes h key value)"
    by (simp add: w' write_entry_bytes_eq bh(3))
  have at: "at_file (aw_file w') off (entry_bytes h key value)" by (simp add: f at_file_write)
  have old: "read_entry_at_opt blake3 w' off0 v = Inr (h0, k0, v0)"
    if "read_entry_at_opt blake3 w off0 v = Inr (h0, k0, v0)" "off0 + length (entry_bytes h0 k0 v0) \<le> off"
    for off0 v h0 k0 v0
    using read_entry_write_other [OF that(1) _ f] that(2) by simp
  have leq: "unat len = header_size Blake3_256 + length key + length value"
    using bh(1) algo by (simp add: r(2) entry_ok_def)
  have hd: "eh_entry_type h = et \<and> eh_flags h = flags \<and> eh_compression_algo h = c \<and> eh_entry_version h = ver \<and>
      sint (eh_timestamp h) = max (sint now) (min (2 ^ 63 - 1) (sint (fh_updated_at (aw_header w)) + 1)) \<and>
      fh_updated_at (aw_header w') = eh_timestamp h \<and>
      read_entry_at_verified blake3 w' off = Inr (h, key, value) \<and>
      read_entry_at_shared_verified blake3 w' off = Some (Inr (h, key, value)) \<and>
      read_entry_header_at_shared w' off = Inr h"
    using bh(2,4) read_entry_ok [OF at bh(1)] shared_read_ok [OF at bh(1)]
    unfolding read_entry_at_verified_def read_entry_at_shared_verified_def by (simp add: w' bh(3))
  have "off = aw_offset w \<and> aw_offset w' = off + unat len" using r(1) by (simp add: w' bh(3))
  then show ?thesis using leq hd old by blast
qed

text \<open>A chunked copy to lower addresses, or to a disjoint region, is one block copy.\<close>

lemma copy_loop_correct:
  assumes "at_file f src data" "dst \<le> src \<or> src + length data \<le> dst" "data \<noteq> []"
  shows "copy_loop src dst (length data) f = Inr (write_at f dst data)"
  using assms
proof (induction "length data" arbitrary: src dst f data rule: less_induct)
  case less
  define n where "n = min COPY_CHUNK (length data)"
  define d1 where "d1 = take n data"
  define d2 where "d2 = drop n data"
  have n: "0 < n" "n \<le> length data" using less.prems(3) by (simp_all add: n_def COPY_CHUNK_def)
  have d: "data = d1 @ d2" "length d1 = n" and ld: "length data = n + length d2"
    using n by (simp_all add: d1_def d2_def)
  have at: "at_file f src d1" "at_file f (src + n) d2"
    using less.prems(1) at_file_split [of f src d1 d2] d by auto
  have step: "copy_loop src dst (length data) f = copy_loop (src + n) (dst + n) (length d2) (write_at f dst d1)"
  proof -
    have "read_exact f src n = Some d1" using at(1) d(2) by (simp add: at_file_def)
    moreover have "length d2 = length data - n" using ld by simp
    ultimately show ?thesis
      using less.prems(3)
      by (subst copy_loop.simps) (simp only: n_def [symmetric] Let_def length_0_conv option.case if_False)
  qed
  show ?case
  proof (cases "d2 = []")
    case True
    then show ?thesis using step d(1) by (simp add: copy_loop.simps [of _ _ 0])
  next
    case False
    have sep: "src + n + length d2 \<le> dst \<or> dst + length d1 \<le> src + n"
      using less.prems(2) unfolding ld d(2) by linarith
    have at2: "at_file (write_at f dst d1) (src + n) d2" by (rule at_file_write_other [OF at(2) sep])
    have "dst + n \<le> src + n \<or> src + n + length d2 \<le> dst + n"
      using less.prems(2) unfolding ld by linarith
    from less.hyps [OF _ at2 this False] show ?thesis
      using n(1) step write_at_append [of f dst d1 d2] by (simp add: ld d(2) d(1) [symmetric])
  qed
qed

theorem append_read_roundtrip_witness:
  "\<exists>w' h. append_entry_with_compression_and_version (\<lambda>_. replicate 32 7) 9 FileRecord [1, 2] [3] 0 NoCompression 0
      \<lparr> aw_file = replicate 512 0, aw_header = file_header_new 5 Blake3_256, aw_offset = 512, aw_slot = 0 \<rparr> =
      Inr (512, 66, w') \<and> eh_entry_type h = FileRecord \<and> sint (eh_timestamp h) = 9 \<and>
    read_entry_at_verified (\<lambda>_. replicate 32 7) w' 512 = Inr (h, [1, 2], [3])"
proof -
  let ?b = "\<lambda>_ :: bytes. replicate 32 (7 :: u8)"
  let ?w = "\<lparr> aw_file = replicate 512 0, aw_header = file_header_new 5 Blake3_256, aw_offset = 512, aw_slot = 0 \<rparr>"
  obtain off len w' where a: "append_entry_with_compression_and_version ?b 9 FileRecord [1, 2] [3] 0 NoCompression 0 ?w =
      Inr (off, len, w')"
  proof -
    have "\<exists>r. build_entry_header ?b 9 FileRecord [1, 2] [3] 0 NoCompression 0 ?w = Inr r"
      unfolding build_entry_header_defined by (simp add: file_header_new_def)
    then show thesis
      using that by (auto simp: append_entry_with_compression_and_version_def Let_def case_prod_unfold simp del: res_bind_eq_Inr)
  qed
  have hl: "\<forall>bs. length (?b bs) = 32" by simp
  note r = append_read_roundtrip [OF hl a]
  have "unat len = 66" using r by (simp add: header_size_def FIXED_HEADER_SIZE_def hash_length_def)
  then have "len = 66" by (simp add: word_unat_eq_iff)
  moreover have "off = 512" using r by simp
  moreover obtain h where "eh_entry_type h = FileRecord" "sint (eh_timestamp h) = 9"
    "read_entry_at_verified ?b w' off = Inr (h, [1, 2], [3])"
    using r by (auto simp: file_header_new_def)
  ultimately show ?thesis using a by blast
qed

end
