(* ===== verification/Entry_Scanner.thy ===== *)
theory Entry_Scanner
  imports Append_Writer
begin

text \<open>
  The log scanner of \<^verbatim>\<open>entry_scanner.rs\<close>: \<^verbatim>\<open>Iterator::next\<close> and \<^verbatim>\<open>next_rebuild_entry\<close> walk the log entry by
  entry, skip damaged regions by searching for the next entry magic, and either report or pass over
  what they skip.  One pass through the body of each loop is a step that yields or goes around again.
  The lemmas show that the rebuild scan always ends and finds every entry of an intact log, and that the
  plain iterator does not end on a damaged header whose recorded length is zero.
\<close>

section \<open>The scanner\<close>

record scanned_entry =
  se_offset :: nat
  se_header :: entry_header
  se_key :: bytes
  se_value :: bytes

record scanned_rebuild_entry =
  sr_offset :: nat
  sr_header :: entry_header
  sr_key :: bytes
  sr_value :: "bytes option"

record entry_scanner =
  es_file :: bytes
  es_current_offset :: nat
  es_file_length :: nat
  es_report_errors :: bool
  es_last_skipped_region :: "(nat \<times> nat) option"
  es_skipped_regions :: "(nat \<times> nat) list"

definition scanner_new_internal ::
  "(bytes \<Rightarrow> u32) \<Rightarrow> bytes \<Rightarrow> bool \<Rightarrow> bool \<Rightarrow> entry_scanner engine_result option" where
  "scanner_new_internal crc32 f report_errors dirty_recovery =
    (case read_active_header crc32 f of
       None \<Rightarrow> None
     | Some (Inl e) \<Rightarrow> Some (Inl e)
     | Some (Inr (header, _)) \<Rightarrow>
         let header_end = word_of_nat HEADER_REGION_SIZE;
             eof = length f;
             (start_offset, file_length) =
               (if fh_kv_block_offset header > 0 \<and> fh_kv_block_length header > 0 then
                  (if fh_kv_block_offset header = header_end then
                     let start = fh_kv_block_offset header + fh_kv_block_length header in
                     (unat start,
                      if dirty_recovery then eof
                      else if fh_hot_tail_offset header > start then unat (fh_hot_tail_offset header) else eof)
                   else (unat header_end, unat (fh_kv_block_offset header)))
                else (unat header_end,
                      if dirty_recovery then eof
                      else if fh_hot_tail_offset header > 0 then unat (fh_hot_tail_offset header) else eof)) in
         Some (Inr \<lparr> es_file = f, es_current_offset = start_offset, es_file_length = file_length,
           es_report_errors = report_errors, es_last_skipped_region = None, es_skipped_regions = [] \<rparr>))"

definition scanner_new :: "(bytes \<Rightarrow> u32) \<Rightarrow> bytes \<Rightarrow> entry_scanner engine_result option" where
  "scanner_new crc32 f = scanner_new_internal crc32 f False False"

definition scanner_new_reporting :: "(bytes \<Rightarrow> u32) \<Rightarrow> bytes \<Rightarrow> entry_scanner engine_result option" where
  "scanner_new_reporting crc32 f = scanner_new_internal crc32 f True False"

definition scanner_new_dirty_recovery :: "(bytes \<Rightarrow> u32) \<Rightarrow> bytes \<Rightarrow> entry_scanner engine_result option" where
  "scanner_new_dirty_recovery crc32 f = scanner_new_internal crc32 f True True"

definition MAGIC_SCAN_WINDOW :: nat where "MAGIC_SCAN_WINDOW = 1048576"

text \<open>A position of the window where the magic stands and a header of plausible length parses.\<close>

definition magic_candidate :: "entry_scanner \<Rightarrow> nat \<Rightarrow> bytes \<Rightarrow> nat \<Rightarrow> bool" where
  "magic_candidate s start buffer i \<longleftrightarrow>
    slice_at buffer i 4 = to_le_bytes ENTRY_MAGIC \<and>
    (case entry_header_deserialize (drop (start + i) (es_file s)) of
       Inl _ \<Rightarrow> False
     | Inr (header, _) \<Rightarrow>
         unat (eh_total_length header) \<le> es_file_length s - (start + i) \<and> eh_total_length header > 0)"

definition scan_for_next_magic :: "entry_scanner \<Rightarrow> nat \<Rightarrow> (nat \<times> nat) option" where
  "scan_for_next_magic s start =
    (let end_offset = min (start + MAGIC_SCAN_WINDOW) (es_file_length s);
         window_size = end_offset - start in
     if window_size < 4 then None
     else let buffer = slice_at (es_file s) start window_size in
       (case List.find (magic_candidate s start buffer) [0..<length buffer - 3] of
          None \<Rightarrow> None
        | Some i \<Rightarrow> Some (start + i, i + 1)))"

definition record_skipped_region :: "nat \<Rightarrow> nat \<Rightarrow> entry_scanner \<Rightarrow> entry_scanner" where
  "record_skipped_region offset len s =
    s\<lparr> es_last_skipped_region := Some (offset, len), es_skipped_regions := es_skipped_regions s @ [(offset, len)] \<rparr>"

text \<open>One pass through a loop body: go around again, or return.\<close>

datatype 'a scan_step = Again entry_scanner | Yield "'a engine_result option" entry_scanner

text \<open>The branches both loops share: report or pass over, and the search after a damaged header.\<close>

definition scan_skip :: "nat \<Rightarrow> string \<Rightarrow> entry_scanner \<Rightarrow> 'a scan_step" where
  "scan_skip offset reason s =
    (if es_report_errors s then Yield (Some (Inl (CorruptEntry offset reason))) s else Again s)"

definition scan_corrupt_header :: "nat \<Rightarrow> entry_scanner \<Rightarrow> 'a scan_step" where
  "scan_corrupt_header offset s =
    (case scan_for_next_magic s (offset + 1) of
       Some (next_offset, skipped_bytes) \<Rightarrow>
         scan_skip offset ''Corrupt header''
           ((record_skipped_region offset skipped_bytes s)\<lparr> es_current_offset := next_offset \<rparr>)
     | None \<Rightarrow> Yield None (record_skipped_region offset (es_file_length s - offset) s))"

definition rebuild_step :: "(bytes \<Rightarrow> bytes) \<Rightarrow> entry_scanner \<Rightarrow> scanned_rebuild_entry scan_step" where
  "rebuild_step blake3 s =
    (let off = es_current_offset s in
     if off \<ge> es_file_length s then Yield None s
     else case entry_header_deserialize (drop off (es_file s)) of
       Inl e \<Rightarrow> if e = UnexpectedEof then Yield None s else scan_corrupt_header off s
     | Inr (h, reader) \<Rightarrow>
         let klen = unat (eh_key_length h); vlen = unat (eh_value_length h);
             entry_end = off + unat (eh_total_length h) in
         if unat (eh_total_length h) \<noteq> header_size (eh_hash_algo h) + (klen + vlen)
         then scan_skip off ''Corrupt header: lengths do not add up''
           (s\<lparr> es_current_offset := off + max (unat (eh_total_length h)) 1 \<rparr>)
         else if entry_end > es_file_length s
         then let s1 = s\<lparr> es_current_offset := es_file_length s \<rparr> in
           (if es_report_errors s then Yield (Some (Inl (CorruptEntry off ''entry extends past scan end''))) s1
            else Yield None s1)
         else case read_exact reader 0 klen of
           None \<Rightarrow> scan_skip off ''IO error reading key''
             ((record_skipped_region off (unat (eh_total_length h)) s)\<lparr> es_current_offset := entry_end \<rparr>)
         | Some key \<Rightarrow>
             if eh_entry_type h \<noteq> Chunk \<and> eh_entry_type h \<noteq> Void then
               (case read_exact reader klen vlen of
                  None \<Rightarrow> scan_skip off ''IO error reading value''
                    ((record_skipped_region off (unat (eh_total_length h)) s)\<lparr> es_current_offset := entry_end \<rparr>)
                | Some value \<Rightarrow>
                    if \<not> entry_verify blake3 h key value
                    then scan_skip off ''Hash verification failed'' (s\<lparr> es_current_offset := entry_end \<rparr>)
                    else Yield (Some (Inr \<lparr> sr_offset = off, sr_header = h, sr_key = key, sr_value = Some value \<rparr>))
                      (s\<lparr> es_current_offset := entry_end \<rparr>))
             else Yield (Some (Inr \<lparr> sr_offset = off, sr_header = h, sr_key = key, sr_value = None \<rparr>))
               (s\<lparr> es_current_offset := entry_end \<rparr>))"

definition iter_step :: "(bytes \<Rightarrow> bytes) \<Rightarrow> entry_scanner \<Rightarrow> scanned_entry scan_step" where
  "iter_step blake3 s =
    (let off = es_current_offset s in
     if off \<ge> es_file_length s then Yield None s
     else case entry_header_deserialize (drop off (es_file s)) of
       Inl e \<Rightarrow> if e = UnexpectedEof then Yield None s else scan_corrupt_header off s
     | Inr (h, reader) \<Rightarrow>
         let klen = unat (eh_key_length h); vlen = unat (eh_value_length h);
             entry_end = off + unat (eh_total_length h) in
         if \<not> payload_fits h
         then scan_skip off ''Corrupt header: key_length + value_length exceeds total_length''
           (s\<lparr> es_current_offset := entry_end \<rparr>)
         else case read_exact reader 0 klen of
           None \<Rightarrow> scan_skip off ''IO error reading key''
             ((record_skipped_region off (unat (eh_total_length h)) s)\<lparr> es_current_offset := entry_end \<rparr>)
         | Some key \<Rightarrow>
             (case read_exact reader klen vlen of
                None \<Rightarrow> scan_skip off ''IO error reading value''
                  ((record_skipped_region off (unat (eh_total_length h)) s)\<lparr> es_current_offset := entry_end \<rparr>)
              | Some value \<Rightarrow>
                  if \<not> entry_verify blake3 h key value
                  then scan_skip off ''Hash verification failed'' (s\<lparr> es_current_offset := entry_end \<rparr>)
                  else Yield (Some (Inr \<lparr> se_offset = off, se_header = h, se_key = key, se_value = value \<rparr>))
                    (s\<lparr> es_current_offset := entry_end \<rparr>)))"

section \<open>The loops\<close>

lemma scan_skip_Again: "scan_skip off r s1 = Again s' \<longleftrightarrow> \<not> es_report_errors s1 \<and> s' = s1"
  by (auto simp: scan_skip_def)

lemma scan_for_next_magic_bound: "scan_for_next_magic s start = Some (x, y) \<Longrightarrow> start \<le> x"
  by (auto simp: scan_for_next_magic_def Let_def split: if_splits option.splits)

lemma scan_corrupt_header_Again:
  assumes "scan_corrupt_header off s = Again s'"
  shows "es_file_length s' = es_file_length s" "off < es_current_offset s'" "es_file s' = es_file s"
    "es_report_errors s' = es_report_errors s"
  using assms scan_for_next_magic_bound [of s "off + 1"]
  by (fastforce simp: scan_corrupt_header_def scan_skip_Again record_skipped_region_def split: option.splits)+

lemma rebuild_step_Again:
  assumes "rebuild_step blake3 s = Again s'"
  shows "es_current_offset s < es_file_length s" "es_current_offset s < es_current_offset s'"
    "es_file_length s' = es_file_length s" "es_file s' = es_file s" "es_report_errors s' = es_report_errors s"
  using assms scan_corrupt_header_Again [of "es_current_offset s" s s']
  by (auto simp: rebuild_step_def Let_def scan_skip_Again record_skipped_region_def header_size_def FIXED_HEADER_SIZE_def
      split: if_splits option.splits sum.splits prod.splits)

lemma rebuild_step_progress:
  assumes "rebuild_step blake3 s = Again s'"
  shows "es_file_length s' - es_current_offset s' < es_file_length s - es_current_offset s"
  using rebuild_step_Again(1-3) [OF assms] by simp

function next_rebuild_entry ::
  "(bytes \<Rightarrow> bytes) \<Rightarrow> entry_scanner \<Rightarrow> scanned_rebuild_entry engine_result option \<times> entry_scanner" where
  "next_rebuild_entry blake3 s =
    (case rebuild_step blake3 s of Yield r s' \<Rightarrow> (r, s') | Again s' \<Rightarrow> next_rebuild_entry blake3 s')"
  by pat_completeness auto
termination
  by (relation "measure (\<lambda>(_, s). es_file_length s - es_current_offset s)")
    (simp_all add: rebuild_step_progress)

declare next_rebuild_entry.simps [simp del]

text \<open>\<open>None\<close>: the loop of \<^verbatim>\<open>next\<close> does not end.\<close>

partial_function (option) scanner_next ::
  "(bytes \<Rightarrow> bytes) \<Rightarrow> entry_scanner \<Rightarrow> (scanned_entry engine_result option \<times> entry_scanner) option" where
  "scanner_next blake3 s =
    (case iter_step blake3 s of Yield r s' \<Rightarrow> Some (r, s') | Again s' \<Rightarrow> scanner_next blake3 s')"

text \<open>The loops of the callers, which collect until the scanner is exhausted; \<open>None\<close> is out of fuel.\<close>

fun rebuild_scan ::
  "(bytes \<Rightarrow> bytes) \<Rightarrow> nat \<Rightarrow> entry_scanner \<Rightarrow> (scanned_rebuild_entry engine_result list \<times> entry_scanner) option" where
  "rebuild_scan blake3 0 s = None"
| "rebuild_scan blake3 (Suc n) s =
    (case next_rebuild_entry blake3 s of
       (None, s') \<Rightarrow> Some ([], s')
     | (Some r, s') \<Rightarrow> map_option (\<lambda>(rs, s2). (r # rs, s2)) (rebuild_scan blake3 n s'))"

fun iter_scan ::
  "(bytes \<Rightarrow> bytes) \<Rightarrow> nat \<Rightarrow> entry_scanner \<Rightarrow> (scanned_entry engine_result list \<times> entry_scanner) option" where
  "iter_scan blake3 0 s = None"
| "iter_scan blake3 (Suc n) s =
    (case scanner_next blake3 s of
       None \<Rightarrow> None
     | Some (None, s') \<Rightarrow> Some ([], s')
     | Some (Some r, s') \<Rightarrow> map_option (\<lambda>(rs, s2). (r # rs, s2)) (iter_scan blake3 n s'))"

section \<open>The rebuild scan ends and reports only what is there\<close>

definition same_scan :: "entry_scanner \<Rightarrow> entry_scanner \<Rightarrow> bool" where
  "same_scan s s' \<longleftrightarrow> es_file s' = es_file s \<and> es_file_length s' = es_file_length s \<and>
    es_report_errors s' = es_report_errors s"

text \<open>What a yielded entry says about the file: the bytes of its header and key stand at its offset inside
  the scanned range, and metadata carries a value whose hash was checked.\<close>

definition rebuild_entry_genuine :: "(bytes \<Rightarrow> bytes) \<Rightarrow> bytes \<Rightarrow> nat \<Rightarrow> scanned_rebuild_entry \<Rightarrow> bool" where
  "rebuild_entry_genuine blake3 f flen e \<longleftrightarrow>
    sr_offset e + unat (eh_total_length (sr_header e)) \<le> flen \<and>
    at_file f (sr_offset e) (entry_header_serialize (sr_header e) @ sr_key e) \<and>
    (case sr_value e of
       None \<Rightarrow> eh_entry_type (sr_header e) = Chunk \<or> eh_entry_type (sr_header e) = Void
     | Some v \<Rightarrow> at_file f (sr_offset e) (entry_bytes (sr_header e) (sr_key e) v) \<and>
         entry_ok blake3 (sr_header e) (sr_key e) v)"

lemma header_at_file:
  assumes "entry_header_deserialize (drop off f) = Inr (h, rd)" "read_exact rd 0 n = Some xs"
  shows "at_file f off (entry_header_serialize h @ xs)" "length xs = n" "entry_header_wf h"
proof -
  note canon = entry_header_canonical [OF assms(1)]
  obtain rest where "rd = xs @ rest"
    using assms(2) by (metis append_take_drop_id option.discI option.inject read_exact_def slice_at_def drop0)
  then have d: "drop off f = (entry_header_serialize h @ xs) @ rest" using canon(1) by simp
  moreover have "entry_header_serialize h \<noteq> []" by (simp add: entry_header_serialize_def)
  ultimately have "off \<le> length f" by (cases "off \<le> length f") auto
  then show "at_file f off (entry_header_serialize h @ xs)" using d by (rule at_fileI [rotated])
  show "length xs = n" "entry_header_wf h" using assms(2) canon(2) by (simp_all add: read_exact_length)
qed

lemma read_exact_append:
  assumes "read_exact rd 0 k = Some xs" "read_exact rd k n = Some ys"
  shows "read_exact rd 0 (k + n) = Some (xs @ ys)"
  using assms by (simp add: read_exact_def slice_at_def take_add split: if_splits)

lemma rebuild_step_Yield:
  assumes "rebuild_step blake3 s = Yield r s'"
  shows "same_scan s s'" and "r \<noteq> None \<Longrightarrow> es_current_offset s < es_file_length s \<and> es_current_offset s < es_current_offset s'"
    and "r = Some (Inr e) \<Longrightarrow> rebuild_entry_genuine blake3 (es_file s) (es_file_length s) e"
proof -
  show "same_scan s s'"
    using assms by (auto simp: rebuild_step_def Let_def scan_skip_def scan_corrupt_header_def same_scan_def
        record_skipped_region_def split: if_splits option.splits sum.splits prod.splits)
  show "es_current_offset s < es_file_length s \<and> es_current_offset s < es_current_offset s'" if "r \<noteq> None"
    using assms that scan_for_next_magic_bound [of s "es_current_offset s + 1"]
    by (fastforce simp: rebuild_step_def Let_def scan_skip_def scan_corrupt_header_def
        record_skipped_region_def header_size_def FIXED_HEADER_SIZE_def split: if_splits option.splits sum.splits prod.splits)
  assume e: "r = Some (Inr e)"
  let ?off = "es_current_offset s" and ?f = "es_file s"
  obtain h rd key where d: "entry_header_deserialize (drop ?off ?f) = Inr (h, rd)"
    and k: "read_exact rd 0 (unat (eh_key_length h)) = Some key"
    and len: "unat (eh_total_length h) = header_size (eh_hash_algo h) + (unat (eh_key_length h) + unat (eh_value_length h))"
      "?off + unat (eh_total_length h) \<le> es_file_length s"
    and er: "sr_offset e = ?off" "sr_header e = h" "sr_key e = key"
    and v: "case sr_value e of None \<Rightarrow> eh_entry_type h = Chunk \<or> eh_entry_type h = Void
        | Some v \<Rightarrow> read_exact rd (unat (eh_key_length h)) (unat (eh_value_length h)) = Some v \<and> entry_verify blake3 h key v"
    using assms unfolding e
    by (auto simp: rebuild_step_def Let_def scan_skip_def scan_corrupt_header_def not_less
        split: if_splits option.splits sum.splits prod.splits)
  show "rebuild_entry_genuine blake3 ?f (es_file_length s) e"
  proof (cases "sr_value e")
    case None
    then show ?thesis using v len(2) header_at_file(1) [OF d k] by (simp add: rebuild_entry_genuine_def er)
  next
    case (Some x)
    then have x: "read_exact rd (unat (eh_key_length h)) (unat (eh_value_length h)) = Some x" "entry_verify blake3 h key x"
      using v by simp_all
    note kv = header_at_file [OF d read_exact_append [OF k x(1)]]
    have "length key = unat (eh_key_length h)" "length x = unat (eh_value_length h)"
      using k x(1) by (simp_all add: read_exact_length)
    then show ?thesis
      using Some len kv x(2) at_file_prefix [of ?f ?off "entry_header_serialize h @ key" x]
      by (simp add: rebuild_entry_genuine_def er entry_bytes_def entry_ok_def)
  qed
qed

lemma next_rebuild_entry_props:
  assumes "next_rebuild_entry blake3 s = (r, s')"
  shows "same_scan s s' \<and>
    (r \<noteq> None \<longrightarrow> es_current_offset s < es_file_length s \<and> es_current_offset s < es_current_offset s') \<and>
    (\<forall>e. r = Some (Inr e) \<longrightarrow> rebuild_entry_genuine blake3 (es_file s) (es_file_length s) e)"
  using assms
proof (induction blake3 s rule: next_rebuild_entry.induct)
  case (1 blake3 s)
  show ?case
  proof (cases "rebuild_step blake3 s")
    case (Again s1)
    then have "next_rebuild_entry blake3 s1 = (r, s')" using "1.prems" by (simp add: next_rebuild_entry.simps [of blake3 s])
    from "1.IH" [OF Again this] show ?thesis
      using rebuild_step_Again [OF Again] by (auto simp: same_scan_def)
  next
    case (Yield r1 s1)
    then have "r1 = r" "s1 = s'" using "1.prems" by (simp_all add: next_rebuild_entry.simps [of blake3 s])
    then show ?thesis using rebuild_step_Yield [OF Yield] by blast
  qed
qed

lemma rebuild_scan_mono:
  "rebuild_scan blake3 n s = Some r \<Longrightarrow> n \<le> m \<Longrightarrow> rebuild_scan blake3 m s = Some r"
proof (induction n arbitrary: m s r)
  case (Suc n)
  then obtain m' where m: "m = Suc m'" "n \<le> m'" by (cases m) auto
  show ?case
    using Suc.prems(1) Suc.IH [OF _ m(2)] by (auto simp: m(1) split: prod.splits option.splits)
qed simp

lemma rebuild_scan_ends:
  "\<exists>rs s'. rebuild_scan blake3 (Suc (es_file_length s - es_current_offset s)) s = Some (rs, s') \<and>
    length rs \<le> es_file_length s - es_current_offset s \<and>
    (\<forall>e. Inr e \<in> set rs \<longrightarrow> rebuild_entry_genuine blake3 (es_file s) (es_file_length s) e)"
proof (induction "es_file_length s - es_current_offset s" arbitrary: s rule: less_induct)
  case less
  obtain r s1 where n: "next_rebuild_entry blake3 s = (r, s1)" by (cases "next_rebuild_entry blake3 s")
  note p = next_rebuild_entry_props [OF n]
  show ?case
  proof (cases r)
    case None
    then show ?thesis using n by simp
  next
    case (Some x)
    have dec: "es_file_length s1 - es_current_offset s1 < es_file_length s - es_current_offset s"
      using p Some by (auto simp: same_scan_def)
    obtain rs s' where rs: "rebuild_scan blake3 (Suc (es_file_length s1 - es_current_offset s1)) s1 = Some (rs, s')"
        "length rs \<le> es_file_length s1 - es_current_offset s1"
        "\<forall>e. Inr e \<in> set rs \<longrightarrow> rebuild_entry_genuine blake3 (es_file s1) (es_file_length s1) e"
      using less.hyps [OF dec] by blast
    have "rebuild_scan blake3 (es_file_length s - es_current_offset s) s1 = Some (rs, s')"
      using rebuild_scan_mono [OF rs(1)] dec by simp
    then show ?thesis using n Some rs(2,3) dec p by (auto simp: same_scan_def)
  qed
qed

definition rebuild_result_ok :: "(bytes \<Rightarrow> bytes) \<Rightarrow> bytes \<Rightarrow> nat \<Rightarrow> scanned_rebuild_entry engine_result \<Rightarrow> bool" where
  "rebuild_result_ok blake3 f len r = (case r of Inl _ \<Rightarrow> True | Inr e \<Rightarrow> rebuild_entry_genuine blake3 f len e)"

text \<open>
  C24: The rebuild scan ends on every file, damaged or not: after at most as many results as the scanned
  range has bytes the scanner is exhausted; every entry it reports stands at its offset inside the range,
  and metadata is reported only when its hash matches.
\<close>

theorem rebuild_scan_terminates:
  "\<exists>rs s'. rebuild_scan blake3 (Suc (es_file_length s - es_current_offset s)) s = Some (rs, s') \<and>
    length rs \<le> es_file_length s - es_current_offset s \<and>
    list_all (rebuild_result_ok blake3 (es_file s) (es_file_length s)) rs"
  using rebuild_scan_ends [of blake3 s] by (auto simp: list_all_iff rebuild_result_ok_def split: sum.splits)

section \<open>An intact log is scanned completely\<close>

type_synonym log_entry = "entry_header \<times> bytes \<times> bytes"

definition log_bytes :: "log_entry list \<Rightarrow> bytes" where
  "log_bytes es = concat (map (\<lambda>(h, k, v). entry_bytes h k v) es)"

definition log_ok :: "(bytes \<Rightarrow> bytes) \<Rightarrow> log_entry list \<Rightarrow> bool" where
  "log_ok blake3 es \<longleftrightarrow> (\<forall>(h, k, v)\<in>set es. entry_ok blake3 h k v)"

lemma log_simps [simp]:
  "log_bytes [] = []" "log_bytes ((h, k, v) # es) = entry_bytes h k v @ log_bytes es"
  "log_bytes (es @ es') = log_bytes es @ log_bytes es'"
  "log_ok blake3 []" "log_ok blake3 ((h, k, v) # es) \<longleftrightarrow> entry_ok blake3 h k v \<and> log_ok blake3 es"
  "log_ok blake3 (es @ es') \<longleftrightarrow> log_ok blake3 es \<and> log_ok blake3 es'"
  by (simp_all add: log_bytes_def log_ok_def ball_Un)

fun rebuild_view :: "nat \<Rightarrow> log_entry list \<Rightarrow> scanned_rebuild_entry list" where
  "rebuild_view off [] = []"
| "rebuild_view off ((h, k, v) # es) =
    \<lparr> sr_offset = off, sr_header = h, sr_key = k,
      sr_value = (if eh_entry_type h = Chunk \<or> eh_entry_type h = Void then None else Some v) \<rparr> #
    rebuild_view (off + length (entry_bytes h k v)) es"

fun iter_view :: "nat \<Rightarrow> log_entry list \<Rightarrow> scanned_entry list" where
  "iter_view off [] = []"
| "iter_view off ((h, k, v) # es) =
    \<lparr> se_offset = off, se_header = h, se_key = k, se_value = v \<rparr> # iter_view (off + length (entry_bytes h k v)) es"

lemma entry_read:
  assumes "at_file f off (entry_bytes h k v)" "entry_ok blake3 h k v"
  shows "\<exists>rd. entry_header_deserialize (drop off f) = Inr (h, rd) \<and> read_exact rd 0 (unat (eh_key_length h)) = Some k \<and>
    read_exact rd (unat (eh_key_length h)) (unat (eh_value_length h)) = Some v"
proof -
  obtain rest where d: "drop off f = entry_bytes h k v @ rest" using assms(1) by (rule at_fileE)
  have "entry_header_deserialize (drop off f) = Inr (h, k @ v @ rest)"
    using assms(2) entry_header_deserialize_serialize [of h "k @ v @ rest"] by (simp add: d entry_bytes_def entry_ok_def)
  then show ?thesis using assms(2) by (simp add: entry_ok_def read_exact_def slice_at_def)
qed

lemma steps_on_entry:
  assumes at: "at_file (es_file s) off (entry_bytes h k v)" and ok: "entry_ok blake3 h k v"
    and off: "es_current_offset s = off" "off + length (entry_bytes h k v) \<le> es_file_length s"
  defines "s' \<equiv> s\<lparr> es_current_offset := off + length (entry_bytes h k v) \<rparr>"
  shows "rebuild_step blake3 s = Yield (Some (Inr (hd (rebuild_view off [(h, k, v)])))) s'"
    and "iter_step blake3 s = Yield (Some (Inr (hd (iter_view off [(h, k, v)])))) s'"
proof -
  obtain rd where rd: "entry_header_deserialize (drop off (es_file s)) = Inr (h, rd)"
      "read_exact rd 0 (unat (eh_key_length h)) = Some k"
      "read_exact rd (unat (eh_key_length h)) (unat (eh_value_length h)) = Some v"
    using entry_read [OF at ok] by blast
  have len: "length (entry_bytes h k v) = unat (eh_total_length h)"
    using ok length_entry_bytes [of h k v] by (simp add: entry_ok_def)
  have tot: "unat (eh_total_length h) = header_size (eh_hash_algo h) + (unat (eh_key_length h) + unat (eh_value_length h))"
    and ver: "entry_verify blake3 h k v" using ok by (simp_all add: entry_ok_def)
  have "0 < length (entry_bytes h k v)" by (simp add: entry_bytes_def entry_header_serialize_def)
  then have lt: "\<not> es_file_length s \<le> off" using off(2) by linarith
  show "iter_step blake3 s = Yield (Some (Inr (hd (iter_view off [(h, k, v)])))) s'"
    using lt entry_ok_fits [OF ok] ver unfolding s'_def len
    by (simp add: iter_step_def off(1) rd Let_def)
  show "rebuild_step blake3 s = Yield (Some (Inr (hd (rebuild_view off [(h, k, v)])))) s'"
    using lt tot ver off(2) unfolding s'_def len
    by (simp add: rebuild_step_def off(1) rd Let_def del: add.assoc)
qed

lemma scan_complete:
  assumes "at_file (es_file s) (es_current_offset s) (log_bytes es)" "log_ok blake3 es"
    and "es_file_length s = es_current_offset s + length (log_bytes es)"
  shows "rebuild_scan blake3 (Suc (length es)) s =
      Some (map Inr (rebuild_view (es_current_offset s) es), s\<lparr> es_current_offset := es_file_length s \<rparr>)"
    and "iter_scan blake3 (Suc (length es)) s =
      Some (map Inr (iter_view (es_current_offset s) es), s\<lparr> es_current_offset := es_file_length s \<rparr>)"
proof -
  have "rebuild_scan blake3 (Suc (length es)) s =
      Some (map Inr (rebuild_view (es_current_offset s) es), s\<lparr> es_current_offset := es_file_length s \<rparr>) \<and>
    iter_scan blake3 (Suc (length es)) s =
      Some (map Inr (iter_view (es_current_offset s) es), s\<lparr> es_current_offset := es_file_length s \<rparr>)"
    using assms
  proof (induction es arbitrary: s)
    case Nil
    then show ?case
      by (simp add: next_rebuild_entry.simps [of blake3 s] scanner_next.simps [of blake3 s] rebuild_step_def iter_step_def)
  next
    case (Cons e es)
    obtain h k v where e: "e = (h, k, v)" by (cases e) auto
    let ?off = "es_current_offset s" and ?n = "length (entry_bytes h k v)"
    define s1 where "s1 = s\<lparr> es_current_offset := ?off + ?n \<rparr>"
    have at: "at_file (es_file s) ?off (entry_bytes h k v)" "at_file (es_file s) (?off + ?n) (log_bytes es)"
      using Cons.prems(1) by (simp_all add: e at_file_split)
    have ok: "entry_ok blake3 h k v" "log_ok blake3 es" using Cons.prems(2) by (simp_all add: e)
    have le: "?off + ?n \<le> es_file_length s" using Cons.prems(3) by (simp add: e)
    note st = steps_on_entry [OF at(1) ok(1) refl le, folded s1_def]
    have "next_rebuild_entry blake3 s = (Some (Inr (hd (rebuild_view ?off [(h, k, v)]))), s1)"
      "scanner_next blake3 s = Some (Some (Inr (hd (iter_view ?off [(h, k, v)]))), s1)"
      using st by (simp_all add: next_rebuild_entry.simps [of blake3 s] scanner_next.simps [of blake3 s])
    then show ?case
      using Cons.IH [of s1] at(2) ok(2) Cons.prems(3) by (simp add: s1_def e)
  qed
  then show "rebuild_scan blake3 (Suc (length es)) s =
      Some (map Inr (rebuild_view (es_current_offset s) es), s\<lparr> es_current_offset := es_file_length s \<rparr>)"
    "iter_scan blake3 (Suc (length es)) s =
      Some (map Inr (iter_view (es_current_offset s) es), s\<lparr> es_current_offset := es_file_length s \<rparr>)"
    by blast+
qed

section \<open>Appending, then scanning\<close>

record append_request =
  ar_now :: i64
  ar_type :: entry_type
  ar_key :: bytes
  ar_value :: bytes
  ar_flags :: u8
  ar_compression :: compression_algorithm
  ar_version :: u8

fun append_all :: "(bytes \<Rightarrow> bytes) \<Rightarrow> append_request list \<Rightarrow> append_writer \<Rightarrow> append_writer engine_result" where
  "append_all blake3 [] w = Inr w"
| "append_all blake3 (r # rs) w =
    res_bind (append_entry_with_compression_and_version blake3 (ar_now r) (ar_type r) (ar_key r) (ar_value r)
        (ar_flags r) (ar_compression r) (ar_version r) w) (\<lambda>(_, _, w1). append_all blake3 rs w1)"

definition entry_of_request :: "append_request \<Rightarrow> log_entry \<Rightarrow> bool" where
  "entry_of_request r = (\<lambda>(h, k, v). k = ar_key r \<and> v = ar_value r \<and> eh_entry_type h = ar_type r \<and>
    eh_flags h = ar_flags r \<and> eh_compression_algo h = ar_compression r \<and> eh_entry_version h = ar_version r)"

lemma append_extends_log:
  assumes hl: "\<forall>bs. length (blake3 bs) = 32"
    and a: "append_entry_with_compression_and_version blake3 now et key value flags c ver w = Inr (off, n, w')"
  shows "\<exists>h. entry_ok blake3 h key value \<and> aw_file w' = write_at (aw_file w) (aw_offset w) (entry_bytes h key value) \<and>
    aw_offset w' = aw_offset w + length (entry_bytes h key value) \<and>
    eh_entry_type h = et \<and> eh_flags h = flags \<and> eh_compression_algo h = c \<and> eh_entry_version h = ver"
proof -
  obtain h w1 where b: "build_entry_header blake3 now et key value flags c ver w = Inr (h, w1)"
    and w': "aw_file w' = write_entry_bytes (aw_file w1) (aw_offset w1) h key value"
      "aw_offset w' = aw_offset w1 + unat (eh_total_length h)"
    using a by (auto simp: append_entry_with_compression_and_version_def Let_def)
  note bh = build_entry_header_Inr [OF hl b]
  have "length (entry_bytes h key value) = unat (eh_total_length h)"
    using bh(1) length_entry_bytes [of h key "value"] by (simp add: entry_ok_def)
  then show ?thesis using bh by (intro exI [of _ h]) (simp add: w' write_entry_bytes_eq)
qed

lemma append_all_log:
  assumes hl: "\<forall>bs. length (blake3 bs) = 32" and "append_all blake3 rs w = Inr w'"
    and "at_file (aw_file w) base (log_bytes es0)" "log_ok blake3 es0" "aw_offset w = base + length (log_bytes es0)"
  shows "\<exists>es. at_file (aw_file w') base (log_bytes (es0 @ es)) \<and> log_ok blake3 (es0 @ es) \<and>
    aw_offset w' = base + length (log_bytes (es0 @ es)) \<and> list_all2 entry_of_request rs es"
  using assms(2-)
proof (induction rs arbitrary: w es0)
  case Nil
  then show ?case by (intro exI [of _ "[]"]) simp
next
  case (Cons r rs)
  obtain off n w1 where a: "append_entry_with_compression_and_version blake3 (ar_now r) (ar_type r) (ar_key r) (ar_value r)
        (ar_flags r) (ar_compression r) (ar_version r) w = Inr (off, n, w1)" and r: "append_all blake3 rs w1 = Inr w'"
    using Cons.prems(1) by auto
  obtain h where h: "entry_ok blake3 h (ar_key r) (ar_value r)"
      "aw_file w1 = write_at (aw_file w) (aw_offset w) (entry_bytes h (ar_key r) (ar_value r))"
      "aw_offset w1 = aw_offset w + length (entry_bytes h (ar_key r) (ar_value r))"
      "entry_of_request r (h, ar_key r, ar_value r)"
    using append_extends_log [OF hl a] by (auto simp: entry_of_request_def)
  let ?es = "es0 @ [(h, ar_key r, ar_value r)]"
  have "at_file (aw_file w1) base (log_bytes es0)"
    unfolding h(2) by (rule at_file_write_other [OF Cons.prems(2)]) (simp add: Cons.prems(4))
  then have "at_file (aw_file w1) base (log_bytes ?es)"
    using at_file_write [of "aw_file w" "aw_offset w" "entry_bytes h (ar_key r) (ar_value r)"]
    by (simp add: at_file_split h(2) Cons.prems(4))
  moreover have "log_ok blake3 ?es" "aw_offset w1 = base + length (log_bytes ?es)"
    using Cons.prems(3,4) h(1,3) by simp_all
  ultimately obtain es where "at_file (aw_file w') base (log_bytes (?es @ es))" "log_ok blake3 (?es @ es)"
    "aw_offset w' = base + length (log_bytes (?es @ es))" "list_all2 entry_of_request rs es"
    using Cons.IH [OF r] by blast
  then show ?case using h(4) by (intro exI [of _ "(h, ar_key r, ar_value r) # es"]) simp
qed

text \<open>
  C11: Any sequence of appends is read back by both scanners: scanning the region between the old and the
  new tail yields exactly the appended entries, in order, at their offsets, with the key, value, type,
  flags, compression and version of each request (the rebuild scan leaves out the values of chunks and
  voids), and then ends.
\<close>

theorem append_scan_roundtrip:
  assumes hl: "\<forall>bs. length (blake3 bs) = 32" and a: "append_all blake3 rs w = Inr w'"
    and s: "es_file s = aw_file w'" "es_current_offset s = aw_offset w" "es_file_length s = aw_offset w'"
    and off: "aw_offset w \<le> length (aw_file w)"
  shows "\<exists>es. list_all2 entry_of_request rs es \<and>
    rebuild_scan blake3 (Suc (length rs)) s =
      Some (map Inr (rebuild_view (aw_offset w) es), s\<lparr> es_current_offset := aw_offset w' \<rparr>) \<and>
    iter_scan blake3 (Suc (length rs)) s =
      Some (map Inr (iter_view (aw_offset w) es), s\<lparr> es_current_offset := aw_offset w' \<rparr>)"
proof -
  have "at_file (aw_file w) (aw_offset w) (log_bytes [])" using off by (simp add: at_file_def read_exact_def slice_at_def)
  from append_all_log [OF hl a this] obtain es where es: "at_file (aw_file w') (aw_offset w) (log_bytes es)"
      "log_ok blake3 es" "aw_offset w' = aw_offset w + length (log_bytes es)" "list_all2 entry_of_request rs es"
    by auto
  have "length es = length rs" using es(4) by (simp add: list_all2_lengthD)
  then show ?thesis
    using scan_complete [of s es blake3] es s by (intro exI [of _ es]) (simp del: rebuild_scan.simps iter_scan.simps)
qed

theorem append_scan_roundtrip_witness:
  "\<exists>w' es. append_all (\<lambda>_. replicate 32 7)
      [\<lparr> ar_now = 9, ar_type = FileRecord, ar_key = [1, 2], ar_value = [3], ar_flags = 0,
         ar_compression = NoCompression, ar_version = 0 \<rparr>]
      \<lparr> aw_file = replicate 512 0, aw_header = file_header_new 5 Blake3_256, aw_offset = 512, aw_slot = 0 \<rparr> = Inr w' \<and>
    length es = 1 \<and>
    rebuild_scan (\<lambda>_. replicate 32 7) 2
      \<lparr> es_file = aw_file w', es_current_offset = 512, es_file_length = aw_offset w', es_report_errors = True,
        es_last_skipped_region = None, es_skipped_regions = [] \<rparr> =
      Some (map Inr (rebuild_view 512 es), \<lparr> es_file = aw_file w', es_current_offset = aw_offset w',
        es_file_length = aw_offset w', es_report_errors = True,
        es_last_skipped_region = None, es_skipped_regions = [] \<rparr>)"
proof -
  let ?b = "\<lambda>_ :: bytes. replicate 32 (7 :: u8)"
  let ?w = "\<lparr> aw_file = replicate 512 0, aw_header = file_header_new 5 Blake3_256, aw_offset = 512, aw_slot = 0 \<rparr>"
  let ?r = "\<lparr> ar_now = 9, ar_type = FileRecord, ar_key = [1, 2], ar_value = [3], ar_flags = 0,
         ar_compression = NoCompression, ar_version = 0 \<rparr>"
  have "\<exists>r. build_entry_header ?b 9 FileRecord [1, 2] [3] 0 NoCompression 0 ?w = Inr r"
    unfolding build_entry_header_defined by (simp add: file_header_new_def)
  then obtain w' where a: "append_all ?b [?r] ?w = Inr w'"
    by (auto simp: append_entry_with_compression_and_version_def Let_def case_prod_unfold simp del: res_bind_eq_Inr)
  define s where "s = \<lparr> es_file = aw_file w', es_current_offset = 512, es_file_length = aw_offset w',
    es_report_errors = True, es_last_skipped_region = None, es_skipped_regions = [] \<rparr>"
  obtain es where "list_all2 entry_of_request [?r] es" and
    "rebuild_scan ?b (Suc (length [?r])) s = Some (map Inr (rebuild_view 512 es), s\<lparr> es_current_offset := aw_offset w' \<rparr>)"
    using append_scan_roundtrip [OF _ a, of s] by (auto simp: s_def simp del: rebuild_scan.simps iter_scan.simps)
  moreover have "Suc (length [?r]) = 2" by simp
  ultimately show ?thesis using a list_all2_lengthD [of entry_of_request "[?r]" es] unfolding s_def
    by (intro exI [of _ w'] exI [of _ es]) (simp only: , simp)
qed

section \<open>A damaged header on which the iterator does not advance\<close>

lemma iter_step_stuck:
  assumes "es_current_offset s < es_file_length s"
    and "entry_header_deserialize (drop (es_current_offset s) (es_file s)) = Inr (h, rd)"
    and "eh_total_length h = 0" "eh_key_length h \<noteq> 0 \<or> eh_value_length h \<noteq> 0"
  shows "iter_step blake3 s =
    scan_skip (es_current_offset s) ''Corrupt header: key_length + value_length exceeds total_length'' s"
proof -
  have "\<not> payload_fits h" using assms(3,4) by (auto simp: payload_fits_def unat_eq_zero)
  moreover have "s\<lparr> es_current_offset := es_current_offset s + unat (eh_total_length h) \<rparr> = s" using assms(3) by simp
  ultimately show ?thesis using assms(1,2) by (simp add: iter_step_def Let_def)
qed

lemma scanner_next_stuck:
  assumes stuck: "iter_step blake3 s0 = Again s0"
  shows "scanner_next blake3 s0 = None"
proof -
  have away: "b = blake3 \<longrightarrow> s \<noteq> s0" if "scanner_next b s = Some y" for b s y
    using _ that
  proof (rule scanner_next.raw_induct [where P = "\<lambda>b s y. b = blake3 \<longrightarrow> s \<noteq> s0"])
    show "b = blake3 \<longrightarrow> s \<noteq> s0"
      if ih: "\<And>b s y. f b s = Some y \<Longrightarrow> b = blake3 \<longrightarrow> s \<noteq> s0"
        and b: "(case iter_step b s of Again s' \<Rightarrow> f b s' | Yield r s' \<Rightarrow> Some (r, s')) = Some y" for f b s y
      using b stuck ih [of b s0 y] by (cases "iter_step b s") auto
  qed
  show ?thesis
  proof (cases "scanner_next blake3 s0")
    case (Some y)
    then show ?thesis using away [OF Some] by simp
  qed
qed

text \<open>
  C35: When the scanner stands on a header that parses but records a total length of zero with a non-empty
  payload, \<^verbatim>\<open>Iterator::next\<close> never returns; in reporting mode it returns the same error without moving,
  so a caller that collects to the end never gets there.
\<close>

theorem scanner_next_diverges:
  assumes "es_current_offset s < es_file_length s"
    and "entry_header_deserialize (drop (es_current_offset s) (es_file s)) = Inr (h, rd)"
    and "eh_total_length h = 0" "eh_key_length h \<noteq> 0 \<or> eh_value_length h \<noteq> 0"
  shows "(\<not> es_report_errors s \<longrightarrow> scanner_next blake3 s = None) \<and>
    (es_report_errors s \<longrightarrow> (\<exists>e. scanner_next blake3 s = Some (Some (Inl e), s))) \<and>
    iter_scan blake3 n s = None"
proof -
  note st = iter_step_stuck [OF assms]
  have silent: "scanner_next blake3 s = None" if "\<not> es_report_errors s"
    using that st by (intro scanner_next_stuck) (simp add: scan_skip_def)
  moreover have loud: "\<exists>e. scanner_next blake3 s = Some (Some (Inl e), s)" if "es_report_errors s"
    using that st by (simp add: scanner_next.simps [of blake3 s] scan_skip_def)
  moreover have "iter_scan blake3 n s = None"
  proof (induction n)
    case (Suc n)
    then show ?case using silent loud by (cases "es_report_errors s") auto
  qed simp
  ultimately show ?thesis by blast
qed

definition zero_length_header :: entry_header where
  "zero_length_header = \<lparr> eh_entry_version = 0, eh_entry_type = FileRecord, eh_flags = 0,
     eh_hash_algo = Blake3_256, eh_compression_algo = NoCompression, eh_encryption_algo = 0,
     eh_key_length = 1, eh_value_length = 0, eh_timestamp = 0, eh_total_length = 0, eh_hash = replicate 32 0 \<rparr>"

theorem scanner_next_diverges_witness:
  "scanner_next (\<lambda>_. replicate 32 7)
    \<lparr> es_file = entry_header_serialize zero_length_header @ [5], es_current_offset = 0, es_file_length = 64,
      es_report_errors = False, es_last_skipped_region = None, es_skipped_regions = [] \<rparr> = None"
proof -
  have "entry_header_deserialize (entry_header_serialize zero_length_header @ [5]) = Inr (zero_length_header, [5])"
    by (rule entry_header_deserialize_serialize) (simp add: zero_length_header_def entry_header_wf_def hash_length_def)
  then show ?thesis
    using scanner_next_diverges [of "\<lparr> es_file = entry_header_serialize zero_length_header @ [5],
        es_current_offset = 0, es_file_length = 64, es_report_errors = False,
        es_last_skipped_region = None, es_skipped_regions = [] \<rparr>" zero_length_header "[5]"]
    by (simp add: zero_length_header_def)
qed

end
