(* ===== verification/KV_Expand.thy ===== *)
theory KV_Expand
  imports Append_Writer KV_Pages
begin

text \<open>
  The offline expansion of the index block, \<^verbatim>\<open>kv_expand.rs\<close>: the log behind the block is moved towards the end
  of the file chunk by chunk, last chunk first, the block is zero-filled at its new size, and the new
  layout is committed through the inactive header slot.  The lemmas show that every byte of the log is found
  again at its old offset plus the shift.
\<close>

section \<open>The two loops\<close>

definition EXPAND_CHUNK_SIZE :: nat where "EXPAND_CHUNK_SIZE = 64 * 1024 * 1024"

function relocate_loop :: "nat \<Rightarrow> nat \<Rightarrow> nat \<Rightarrow> bytes \<Rightarrow> bytes engine_result" where
  "relocate_loop wal_start delta remaining f =
    (if remaining = 0 then Inr f
     else let chunk_len = min EXPAND_CHUNK_SIZE remaining;
              src_offset = wal_start + remaining - chunk_len;
              dst_offset = src_offset + delta in
       (case read_exact f src_offset chunk_len of
          None \<Rightarrow> Inl UnexpectedEof
        | Some buf \<Rightarrow> relocate_loop wal_start delta (remaining - chunk_len) (write_at f dst_offset buf)))"
  by pat_completeness auto
termination
  by (relation "measure (\<lambda>(_, _, remaining, _). remaining)") (auto simp: EXPAND_CHUNK_SIZE_def)

declare relocate_loop.simps [simp del]

text \<open>\<open>zlen\<close> is the length of \<^verbatim>\<open>zero_buf\<close>, the smaller of 65536 and the block size.\<close>

function zero_fill_loop :: "nat \<Rightarrow> nat \<Rightarrow> nat \<Rightarrow> nat \<Rightarrow> bytes \<Rightarrow> bytes" where
  "zero_fill_loop zlen base new_block_size zeroed f =
    (if zeroed < new_block_size \<and> 0 < zlen then
       let chunk = min zlen (new_block_size - zeroed) in
       zero_fill_loop zlen base new_block_size (zeroed + chunk) (write_at f (base + zeroed) (replicate chunk 0))
     else f)"
  by pat_completeness auto
termination
  by (relation "measure (\<lambda>(_, _, n, z, _). n - z)") auto

declare zero_fill_loop.simps [simp del]

definition expand_kv_block ::
  "(bytes \<Rightarrow> u32) \<Rightarrow> nat \<Rightarrow> nat \<Rightarrow> bytes \<Rightarrow> ((nat \<times> nat \<times> nat) \<times> bytes) engine_result option" where
  "expand_kv_block crc32 target_stage hl f =
    (let new_block_size = fst (stage_params target_stage (page_size hl)) in
     case read_active_header crc32 f of
       None \<Rightarrow> None
     | Some (Inl e) \<Rightarrow> Some (Inl e)
     | Some (Inr (header, active_slot)) \<Rightarrow>
         let old_kv_offset = unat (fh_kv_block_offset header);
             old_kv_length = unat (fh_kv_block_length header);
             wal_start = old_kv_offset + old_kv_length;
             wal_end = unat (fh_hot_tail_offset header);
             wal_size = wal_end - wal_start in
         if new_block_size \<le> old_kv_length
         then Some (Inr ((old_kv_length, unat (fh_kv_block_stage header), 0), f))
         else let delta = new_block_size - old_kv_length;
                  new_hot_tail = (if wal_end = 0 then 0 else wal_end + delta) in
           (case relocate_loop wal_start delta wal_size f of
              Inl e \<Rightarrow> Some (Inl e)
            | Inr f1 \<Rightarrow>
                let f2 = zero_fill_loop (min 65536 new_block_size) old_kv_offset new_block_size 0 f1;
                    header1 = header\<lparr> fh_kv_block_length := word_of_nat new_block_size,
                      fh_kv_block_stage := word_of_nat target_stage, fh_resize_target_stage := 0,
                      fh_hot_tail_offset := word_of_nat new_hot_tail \<rparr> in
                (case write_header_to_inactive_slot crc32 f2 header1 active_slot of
                   None \<Rightarrow> None
                 | Some (f3, _) \<Rightarrow> Some (Inr ((new_block_size, target_stage, delta), f3)))))"

section \<open>The loops are block operations\<close>

lemma write_at_prepend: "write_at (write_at f (off + length a) b) off a = write_at f off (a @ b)"
proof -
  define X where "X = take (off + length a) f @ replicate (off + length a - length f) 0"
  have lX: "length X = off + length a" by (simp add: X_def)
  have "take off X = take off f @ replicate (off - length f) 0"
    by (cases "off \<le> length f") (auto simp: X_def min_def)
  then show ?thesis by (simp add: write_at_def X_def [symmetric] lX add.assoc)
qed

lemma relocate_loop_correct:
  assumes "at_file f wal_start data" "0 < delta"
  shows "\<exists>f'. relocate_loop wal_start delta (length data) f = Inr f' \<and>
    (if data = [] then f' = f else f' = write_at f (wal_start + delta) data)"
  using assms
proof (induction "length data" arbitrary: f data rule: less_induct)
  case less
  show ?case
  proof (cases "data = []")
    case True
    then show ?thesis by (simp add: relocate_loop.simps [of _ _ 0])
  next
    case False
    define n where "n = min EXPAND_CHUNK_SIZE (length data)"
    define d1 where "d1 = take (length data - n) data"
    define d2 where "d2 = drop (length data - n) data"
    have n: "0 < n" "n \<le> length data" using False by (simp_all add: n_def EXPAND_CHUNK_SIZE_def)
    have d: "data = d1 @ d2" "length d2 = n" "length d1 = length data - n"
      using n by (simp_all add: d1_def d2_def)
    have at: "at_file f wal_start d1" "at_file f (wal_start + length d1) d2"
      using less.prems(1) at_file_split [of f wal_start d1 d2] d(1) by auto
    define f1 where "f1 = write_at f (wal_start + delta + length d1) d2"
    have step: "relocate_loop wal_start delta (length data) f = relocate_loop wal_start delta (length d1) f1"
    proof -
      have src: "wal_start + length data - n = wal_start + length d1" using n(2) d(3) by simp
      have "read_exact f (wal_start + length d1) n = Some d2" using at(2) d(2) by (simp add: at_file_def)
      moreover have "f1 = write_at f (wal_start + length d1 + delta) d2" by (simp add: f1_def ac_simps)
      ultimately show ?thesis
        using False by (subst relocate_loop.simps)
          (simp only: n_def [symmetric] Let_def length_0_conv option.case if_False src d(3) [symmetric])
    qed
    have at1: "at_file f1 wal_start d1"
      unfolding f1_def by (rule at_file_write_other [OF at(1)]) simp
    obtain f' where f': "relocate_loop wal_start delta (length d1) f1 = Inr f'"
        "if d1 = [] then f' = f1 else f' = write_at f1 (wal_start + delta) d1"
    proof -
      have "length d1 < length data" using d(3) n by simp
      from less.hyps [OF this at1 less.prems(2)] show thesis using that by blast
    qed
    have "f' = write_at f (wal_start + delta) data"
      using f'(2) write_at_prepend [of f "wal_start + delta" d1 d2] d(1) by (auto simp: f1_def split: if_splits)
    then show ?thesis using f'(1) step False by simp
  qed
qed

lemma zero_fill_loop_correct:
  assumes "0 < zlen" "zeroed < n"
  shows "zero_fill_loop zlen base n zeroed f = write_at f (base + zeroed) (replicate (n - zeroed) 0)"
  using assms
proof (induction "n - zeroed" arbitrary: zeroed f rule: less_induct)
  case less
  define c where "c = min zlen (n - zeroed)"
  have c: "0 < c" "c \<le> n - zeroed" using less.prems by (simp_all add: c_def)
  have step: "zero_fill_loop zlen base n zeroed f =
      zero_fill_loop zlen base n (zeroed + c) (write_at f (base + zeroed) (replicate c 0))"
    using less.prems by (subst zero_fill_loop.simps) (simp add: c_def Let_def)
  show ?case
  proof (cases "zeroed + c < n")
    case True
    have "zero_fill_loop zlen base n (zeroed + c) (write_at f (base + zeroed) (replicate c 0)) =
        write_at (write_at f (base + zeroed) (replicate c 0)) (base + (zeroed + c)) (replicate (n - (zeroed + c)) 0)"
      by (rule less.hyps) (use True c less.prems in auto)
    moreover have "replicate c 0 @ replicate (n - (zeroed + c)) (0 :: u8) = replicate (n - zeroed) 0"
      using c True by (simp flip: replicate_add)
    ultimately show ?thesis
      using step write_at_append [of f "base + zeroed" "replicate c 0" "replicate (n - (zeroed + c)) 0"]
      by (simp add: add.assoc)
  next
    case False
    then have "c = n - zeroed" using c by simp
    moreover have "zero_fill_loop zlen base n (zeroed + c) g = g" for g
      using False by (subst zero_fill_loop.simps) simp
    ultimately show ?thesis using step by simp
  qed
qed

section \<open>Expansion keeps the log\<close>

lemma read_write_inside:
  assumes "base \<le> off" "off + n \<le> base + length bs"
  shows "read_exact (write_at f base bs) off n = Some (slice_at bs (off - base) n)"
proof -
  have "at_file (write_at f base bs) base bs" by (rule at_file_write)
  then obtain rest where d: "drop base (write_at f base bs) = bs @ rest" by (rule at_fileE)
  have "drop off (write_at f base bs) = drop (off - base) (drop base (write_at f base bs))" using assms(1) by simp
  then have "drop off (write_at f base bs) = drop (off - base) bs @ rest" using assms d by simp
  then show ?thesis using assms by (simp add: read_exact_def slice_at_def)
qed

lemma relocated_read:
  assumes "wal_start + length data \<le> length f" "data = slice_at f wal_start (length data)"
    and "wal_start \<le> off" "off + n \<le> wal_start + length data"
  shows "read_exact (write_at f (wal_start + delta) data) (off + delta) n = read_exact f off n"
proof -
  have "slice_at data (off - wal_start) n = slice_at f off n"
    by (subst assms(2)) (use assms(3,4) in \<open>simp add: slice_at_def drop_take min_def\<close>)
  then show ?thesis using assms read_write_inside [of "wal_start + delta" "off + delta" n data f] by (simp add: read_exact_def)
qed

lemma write_header_defined:
  assumes "file_header_wf h"
  shows "\<exists>f' h'. write_header_to_inactive_slot crc32 f h i = Some (f', h')"
proof -
  have "file_header_wf (h\<lparr> fh_sequence := fh_sequence h + 1 \<rparr>)" using assms by (simp add: file_header_wf_def)
  from file_header_serialize_wf [OF this, of crc32] show ?thesis
    by (simp add: write_header_to_inactive_slot_def Let_def)
qed

lemma read_behind_header:
  assumes "write_header_to_inactive_slot crc32 f h i = Some (f', h')" "512 \<le> off" "off + n \<le> length f"
  shows "read_exact f' off n = read_exact f off n"
proof -
  obtain bs where bs: "length bs = 256" "f' = write_at f ((1 - i) * 256) bs"
    using assms(1) by (auto simp: write_header_to_inactive_slot_def Let_def FILE_HEADER_SIZE_def
        split: option.splits dest!: length_file_header_serialize)
  have "(1 - i) * 256 + 256 \<le> (512 :: nat)" by (cases "i = 0") auto
  then show ?thesis unfolding bs(2) by (intro read_write_after) (use bs(1) assms(2,3) in simp_all)
qed

lemma read_behind_zeros:
  assumes "read_exact f1 off n = Some bs" "kv + N \<le> off"
  shows "read_exact (write_at f1 kv (replicate N 0)) off n = Some bs" "off + n \<le> length (write_at f1 kv (replicate N 0))"
proof -
  have le: "off + n \<le> length f1" using assms(1) by (simp add: read_exact_def split: if_splits)
  then show "off + n \<le> length (write_at f1 kv (replicate N 0))" by simp
  have "read_exact (write_at f1 kv (replicate N 0)) off n = read_exact f1 off n"
    by (rule read_write_after) (use assms(2) le in simp_all)
  then show "read_exact (write_at f1 kv (replicate N 0)) off n = Some bs" using assms(1) by simp
qed

text \<open>The header describes a file with the index block behind the header slots, the log behind the block and
  a hot tail behind the log.\<close>

definition expandable :: "file_header \<Rightarrow> bytes \<Rightarrow> bool" where
  "expandable h f \<longleftrightarrow> file_header_wf h \<and> fh_sequence h \<noteq> - 1 \<and> 512 \<le> unat (fh_kv_block_offset h) \<and>
    unat (fh_kv_block_offset h) + unat (fh_kv_block_length h) \<le> unat (fh_hot_tail_offset h) \<and>
    unat (fh_hot_tail_offset h) \<le> length f"

lemma expand_bytes:
  assumes ex: "expandable h f" and new: "unat (fh_kv_block_length h) < new"
  defines "kv \<equiv> unat (fh_kv_block_offset h)" and "wal_start \<equiv> unat (fh_kv_block_offset h) + unat (fh_kv_block_length h)"
    and "wal_end \<equiv> unat (fh_hot_tail_offset h)" and "delta \<equiv> new - unat (fh_kv_block_length h)"
  shows "\<exists>f1. relocate_loop wal_start delta (wal_end - wal_start) f = Inr f1 \<and> length f \<le> length f1 \<and>
    read_active_header crc32 f1 = read_active_header crc32 f \<and>
    (\<forall>off n. wal_start \<le> off \<and> off + n \<le> wal_end \<longrightarrow> read_exact f1 (off + delta) n = read_exact f off n \<or> n = 0)"
proof -
  define data where "data = slice_at f wal_start (wal_end - wal_start)"
  have b: "wal_start \<le> wal_end" "wal_end \<le> length f" "512 \<le> kv" "kv \<le> wal_start" and d0: "0 < delta"
    using ex new by (simp_all add: expandable_def kv_def wal_start_def wal_end_def delta_def)
  have len: "length data = wal_end - wal_start" using b by (simp add: data_def)
  have at: "at_file f wal_start data"
    using b len by (simp add: at_file_def read_exact_def data_def)
  obtain f1 where f1: "relocate_loop wal_start delta (length data) f = Inr f1"
      "if data = [] then f1 = f else f1 = write_at f (wal_start + delta) data"
    using relocate_loop_correct [OF at d0] by blast
  show ?thesis
  proof (cases "data = []")
    case True
    then have "f1 = f" "wal_end = wal_start" using f1(2) len b(1) by simp_all
    then show ?thesis using f1(1) len True by (intro exI [of _ f]) simp
  next
    case False
    then have w: "f1 = write_at f (wal_start + delta) data" using f1(2) by simp
    have "read_active_header crc32 f1 = read_active_header crc32 f"
      unfolding w by (rule read_active_header_data_write) (use b in simp_all)
    moreover have "read_exact f1 (off + delta) n = read_exact f off n" if "wal_start \<le> off" "off + n \<le> wal_end" for off n
      unfolding w by (rule relocated_read) (use b len that in \<open>simp_all add: data_def\<close>)
    ultimately show ?thesis using f1(1) unfolding len w by (intro exI [of _ f1]) (simp add: w)
  qed
qed

text \<open>
  C19: Expanding the index block of a well-formed file to a larger stage succeeds; the committed header has
  the new block length and stage, and the hot tail moved by the growth; every range of the log reads at its old
  offset plus the growth as it read before, and the new block reads as zeros.
\<close>

theorem expand_kv_block_relocates:
  assumes r: "read_active_header crc32 f = Some (Inr (h, slot))" and ex: "expandable h f"
    and new: "unat (fh_kv_block_length h) < fst (stage_params target_stage (page_size hl))"
  shows "let new_size = fst (stage_params target_stage (page_size hl));
      delta = new_size - unat (fh_kv_block_length h);
      wal_start = unat (fh_kv_block_offset h) + unat (fh_kv_block_length h);
      wal_end = unat (fh_hot_tail_offset h) in
    \<exists>f' h'. expand_kv_block crc32 target_stage hl f = Some (Inr ((new_size, target_stage, delta), f')) \<and>
      read_active_header crc32 f' = Some (Inr (h', 1 - slot)) \<and>
      h' = h\<lparr> fh_kv_block_length := word_of_nat new_size, fh_kv_block_stage := word_of_nat target_stage,
        fh_resize_target_stage := 0, fh_hot_tail_offset := word_of_nat (wal_end + delta),
        fh_sequence := fh_sequence h + 1 \<rparr> \<and>
      (\<forall>off n. 0 < n \<and> wal_start \<le> off \<and> off + n \<le> wal_end \<longrightarrow> read_exact f' (off + delta) n = read_exact f off n) \<and>
      read_exact f' (unat (fh_kv_block_offset h)) new_size = Some (replicate new_size 0)"
proof -
  define N where "N = fst (stage_params target_stage (page_size hl))"
  define kv where "kv = unat (fh_kv_block_offset h)"
  define L where "L = unat (fh_kv_block_length h)"
  define delta where "delta = N - L"
  define wal_end where "wal_end = unat (fh_hot_tail_offset h)"
  have b: "L < N" "512 \<le> kv" "kv + L \<le> wal_end" "wal_end \<le> length f" "wal_end \<noteq> 0"
    using ex new by (simp_all add: expandable_def kv_def L_def wal_end_def N_def)
  obtain f1 where f1: "relocate_loop (kv + L) delta (wal_end - (kv + L)) f = Inr f1" "length f \<le> length f1"
      "read_active_header crc32 f1 = read_active_header crc32 f"
      "\<forall>off n. kv + L \<le> off \<and> off + n \<le> wal_end \<longrightarrow> read_exact f1 (off + delta) n = read_exact f off n \<or> n = 0"
    using expand_bytes [OF ex new [folded N_def], of crc32] unfolding kv_def L_def delta_def wal_end_def by blast
  define f2 where "f2 = write_at f1 kv (replicate N 0)"
  have z: "zero_fill_loop (min 65536 N) kv N 0 f1 = f2"
    using zero_fill_loop_correct [of "min 65536 N" 0 N kv f1] b(1) by (simp add: f2_def)
  define h1 where "h1 = h\<lparr> fh_kv_block_length := word_of_nat N, fh_kv_block_stage := word_of_nat target_stage,
      fh_resize_target_stage := 0, fh_hot_tail_offset := word_of_nat (wal_end + delta) \<rparr>"
  have wf: "file_header_wf h1" "fh_sequence h1 = fh_sequence h" "fh_sequence h1 \<noteq> - 1"
    using ex by (simp_all add: h1_def expandable_def file_header_wf_def)
  have r2: "read_active_header crc32 f2 = Some (Inr (h, slot))"
    unfolding f2_def using read_active_header_data_write [of kv f1 crc32] b f1(2,3) r read_active_header_len [OF r] by simp
  obtain f3 h' where w: "write_header_to_inactive_slot crc32 f2 h1 slot = Some (f3, h')"
    using write_header_defined [OF wf(1)] by fastforce
  note cmp = complete_inactive_slot [OF r2 wf(2,3,1) w]
  have h': "h' = h1\<lparr> fh_sequence := fh_sequence h + 1 \<rparr>"
    using w wf(2) by (auto simp: write_header_to_inactive_slot_def Let_def split: option.splits)
  have moved: "read_exact f3 (off + delta) n = read_exact f off n"
    if "0 < n" "kv + L \<le> off" "off + n \<le> wal_end" for off n
  proof -
    have f: "read_exact f off n = Some (slice_at f off n)" using that b(4) by (simp add: read_exact_def)
    have f1r: "read_exact f1 (off + delta) n = Some (slice_at f off n)" using f1(4) that f by force
    have kN: "kv + N \<le> off + delta" using that(2) b(1) by (simp add: delta_def)
    note f2r = read_behind_zeros [OF f1r kN, folded f2_def]
    show ?thesis using read_behind_header [OF w _ f2r(2)] f2r(1) kN b(2) f by simp
  qed
  have zeros: "read_exact f3 kv N = Some (replicate N 0)"
    using read_behind_header [OF w b(2), of N] by (simp add: f2_def)
  have ex': "expand_kv_block crc32 target_stage hl f = Some (Inr ((N, target_stage, delta), f3))"
    using b r f1(1) z w [unfolded h1_def]
    by (simp add: expand_kv_block_def Let_def N_def [symmetric] kv_def [symmetric] L_def [symmetric]
        wal_end_def [symmetric] delta_def [symmetric])
  show ?thesis
    unfolding Let_def N_def [symmetric] kv_def [symmetric] L_def [symmetric] wal_end_def [symmetric] delta_def [symmetric]
    using ex' cmp(1) h' moved zeros by (intro exI [of _ f3] exI [of _ h']) (simp add: h1_def)
qed

theorem expand_kv_block_relocates_witness:
  "\<exists>f f'. read_exact f 512 3 = Some [1, 2, 3] \<and>
    expand_kv_block (\<lambda>_. 7) 0 32 f =
      Some (Inr ((fst (stage_params 0 (page_size 32)), 0, fst (stage_params 0 (page_size 32))), f')) \<and>
    read_exact f' (512 + fst (stage_params 0 (page_size 32))) 3 = Some [1, 2, 3]"
proof -
  let ?c = "\<lambda>_ :: bytes. 7 :: u32"
  define N where "N = fst (stage_params 0 (page_size 32))"
  define h0 where "h0 = (file_header_new 5 Blake3_256)\<lparr> fh_kv_block_offset := 512, fh_hot_tail_offset := 515 \<rparr>"
  have wf: "file_header_wf h0"
    by (simp add: h0_def file_header_wf_def file_header_new_def hash_length_def Let_def)
  have wf1: "file_header_wf (h0\<lparr> fh_sequence := 1 \<rparr>)" using wf by (simp add: file_header_wf_def)
  obtain g h where w: "write_initial_header ?c [] h0 = Some (g, h)"
    using file_header_serialize_wf [OF wf1, of ?c] by (simp add: write_initial_header_def Let_def)
  have h: "h = h0\<lparr> fh_sequence := 1 \<rparr>"
    using w by (auto simp: write_initial_header_def Let_def split: option.splits)
  have r0: "read_active_header ?c g = Some (Inr (h, 0))" by (rule initial_header(1) [OF wf w])
  define f where "f = write_at g 512 [1, 2, 3]"
  have g: "512 \<le> length g" by (rule read_active_header_len [OF r0])
  have r: "read_active_header ?c f = Some (Inr (h, 0))"
    unfolding f_def using read_active_header_data_write [of 512 g ?c] g r0 by simp
  have ex: "expandable h f"
    using wf1 g unfolding expandable_def h by (simp add: h0_def file_header_new_def f_def)
  have len: "unat (fh_kv_block_length h) = 0" "unat (fh_kv_block_offset h) = 512" "unat (fh_hot_tail_offset h) = 515"
    by (simp_all add: h h0_def file_header_new_def)
  have "0 < N" by (simp add: N_def stage_params_def KV_STAGE_SIZES_def Let_def)
  then have new: "unat (fh_kv_block_length h) < fst (stage_params 0 (page_size 32))" by (simp add: len N_def)
  have f3: "read_exact f 512 3 = Some [1, 2, 3]" by (simp add: f_def)
  obtain f' where e: "expand_kv_block ?c 0 32 f = Some (Inr ((N, 0, N), f'))"
    and m: "\<forall>off n. 0 < n \<and> 512 \<le> off \<and> off + n \<le> 515 \<longrightarrow> read_exact f' (off + N) n = read_exact f off n"
    using expand_kv_block_relocates [OF r ex new] unfolding Let_def N_def [symmetric] len by auto
  show ?thesis using f3 e m [rule_format, of 3 512] unfolding N_def [symmetric] by auto
qed

end
