(* ===== verification/BTree.thy ===== *)
theory BTree
  imports Records
begin

text \<open>
  Directories as content-addressed B-trees, \<^verbatim>\<open>btree.rs\<close>.  A node is stored under the hash of its bytes; an
  update writes new nodes along one path and leaves the old ones.  The storage engine is seen as a map from
  keys to entries (a deletion flag, a format version and the value), whose reads and writes do not fail; its own
  theory is about how it implements such a map.  The functions that follow child hashes take a bound on the
  depth, \<open>None\<close> is exceeding it.
\<close>

section \<open>Nodes and their bytes\<close>

definition BTREE_MAX_LEAF_ENTRIES :: nat where "BTREE_MAX_LEAF_ENTRIES = 40"
definition BTREE_MIN_LEAF_ENTRIES :: nat where "BTREE_MIN_LEAF_ENTRIES = 20"
definition BTREE_MAX_INTERNAL_KEYS :: nat where "BTREE_MAX_INTERNAL_KEYS = 77"
definition BTREE_MIN_INTERNAL_KEYS :: nat where "BTREE_MIN_INTERNAL_KEYS = 38"
definition BTREE_CONVERSION_THRESHOLD :: nat where "BTREE_CONVERSION_THRESHOLD = 256"
definition BTREE_LEAF_MARKER :: u8 where "BTREE_LEAF_MARKER = 0x00"
definition BTREE_INTERNAL_MARKER :: u8 where "BTREE_INTERNAL_MARKER = 0x01"

datatype btree_node = Leaf (leaf_entries: "child_entry list")
  | Internal (node_keys: "str list") (node_children: "bytes list")

fun serialize_keys :: "str list \<Rightarrow> bytes engine_result" where
  "serialize_keys [] = Inr []"
| "serialize_keys (k # ks) =
    (if length k > 65535 then Inl (InvalidInput ''B-tree key too long'')
     else res_bind (serialize_keys ks) (\<lambda>rest. Inr (to_le_bytes (word_of_nat (length k) :: u16) @ k @ rest)))"

fun btree_serialize :: "btree_node \<Rightarrow> nat \<Rightarrow> bytes engine_result" where
  "btree_serialize (Leaf es) hl =
    res_bind (serialize_child_entries es hl) (\<lambda>child_data.
      Inr (BTREE_LEAF_MARKER # to_le_bytes (word_of_nat (length es) :: u16) @ child_data))"
| "btree_serialize (Internal ks cs) hl =
    res_bind (serialize_keys ks) (\<lambda>key_data.
      Inr (BTREE_INTERNAL_MARKER # to_le_bytes (word_of_nat (length ks) :: u16) @ key_data @ concat cs))"

fun read_keys :: "nat \<Rightarrow> bytes \<Rightarrow> nat \<Rightarrow> (str list \<times> nat) engine_result" where
  "read_keys 0 data off = Inr ([], off)"
| "read_keys (Suc n) data off =
    (if off + 2 > length data then Inl (CorruptEntry off ''Internal node data too short for key length'')
     else let key_len = unat (from_le_bytes (slice_at data off 2) :: u16) in
       if off + 2 + key_len > length data
       then Inl (CorruptEntry (off + 2) ''Internal node data too short for key'')
       else let key = slice_at data (off + 2) key_len in
         if \<not> utf8_valid key then Inl (CorruptEntry (off + 2) ''Invalid UTF-8 key'')
         else res_bind (read_keys n data (off + 2 + key_len)) (\<lambda>(ks, off'). Inr (key # ks, off')))"

fun read_children :: "nat \<Rightarrow> bytes \<Rightarrow> nat \<Rightarrow> nat \<Rightarrow> bytes list engine_result" where
  "read_children 0 data hl off = Inr []"
| "read_children (Suc n) data hl off =
    (if off + hl > length data then Inl (CorruptEntry off ''Internal node data too short for child hash'')
     else res_bind (read_children n data hl (off + hl)) (\<lambda>cs. Inr (slice_at data off hl # cs)))"

definition btree_deserialize_v0 :: "bytes \<Rightarrow> nat \<Rightarrow> btree_node engine_result" where
  "btree_deserialize_v0 data hl =
    (if data = [] then Inl (CorruptEntry 0 ''Empty B-tree node data'')
     else if data ! 0 = BTREE_LEAF_MARKER then
       (if length data < 3 then Inl (CorruptEntry 0 ''Leaf node data too short'')
        else let entry_count = unat (from_le_bytes (slice_at data 1 2) :: u16) in
          if entry_count = 0 then Inr (Leaf [])
          else res_bind (deserialize_child_entries (drop 3 data) hl 0) (\<lambda>es. Inr (Leaf es)))
     else if data ! 0 = BTREE_INTERNAL_MARKER then
       (if length data < 3 then Inl (CorruptEntry 0 ''Internal node data too short'')
        else let key_count = unat (from_le_bytes (slice_at data 1 2) :: u16) in
          res_bind (read_keys key_count data 3) (\<lambda>(ks, off).
          res_bind (read_children (key_count + 1) data hl off) (\<lambda>cs. Inr (Internal ks cs))))
     else Inl (CorruptEntry 0 ''Unknown B-tree node type''))"

definition btree_deserialize :: "bytes \<Rightarrow> nat \<Rightarrow> u8 \<Rightarrow> btree_node engine_result" where
  "btree_deserialize data hl version =
    (if version = 0 then btree_deserialize_v0 data hl else Inl (InvalidEntryVersion version))"

definition btree_content_hash ::
  "(bytes \<Rightarrow> bytes) \<Rightarrow> btree_node \<Rightarrow> nat \<Rightarrow> hash_algorithm \<Rightarrow> bytes engine_result" where
  "btree_content_hash blake3 node hl algo =
    res_bind (btree_serialize node hl) (\<lambda>serialized. compute_hash_algo blake3 algo (lit ''btree:'' @ serialized))"

definition is_btree_format :: "bytes \<Rightarrow> bool" where
  "is_btree_format data \<longleftrightarrow> data \<noteq> [] \<and> (data ! 0 = BTREE_LEAF_MARKER \<or> data ! 0 = BTREE_INTERNAL_MARKER)"

section \<open>Operations on one node\<close>

definition leaf_is_full :: "child_entry list \<Rightarrow> bool" where
  "leaf_is_full es \<longleftrightarrow> length es \<ge> BTREE_MAX_LEAF_ENTRIES"

definition leaf_is_underflow :: "child_entry list \<Rightarrow> bool" where
  "leaf_is_underflow es \<longleftrightarrow> length es < BTREE_MIN_LEAF_ENTRIES"

definition leaf_find :: "child_entry list \<Rightarrow> str \<Rightarrow> child_entry option" where
  "leaf_find es name =
    (case search_key ce_name name es of Inr i \<Rightarrow> Some (es ! i) | Inl _ \<Rightarrow> None)"

definition leaf_upsert :: "child_entry \<Rightarrow> child_entry list \<Rightarrow> child_entry list \<times> bool" where
  "leaf_upsert e es =
    (case search_key ce_name (ce_name e) es of
       Inr i \<Rightarrow> (es[i := e], False)
     | Inl i \<Rightarrow> (vec_insert i e es, True))"

definition leaf_remove :: "str \<Rightarrow> child_entry list \<Rightarrow> child_entry list \<times> bool" where
  "leaf_remove name es =
    (case search_key ce_name name es of
       Inr i \<Rightarrow> (vec_remove i es, True)
     | Inl _ \<Rightarrow> (es, False))"

definition leaf_split :: "child_entry list \<Rightarrow> child_entry list \<times> str \<times> child_entry list" where
  "leaf_split es =
    (let mid = length es div 2; right = drop mid es in (take mid es, ce_name (right ! 0), right))"

definition find_child_index :: "str list \<Rightarrow> str \<Rightarrow> nat" where
  "find_child_index ks name =
    (case search_key id name ks of Inr i \<Rightarrow> i + 1 | Inl i \<Rightarrow> i)"

definition internal_is_full :: "str list \<Rightarrow> bool" where
  "internal_is_full ks \<longleftrightarrow> length ks \<ge> BTREE_MAX_INTERNAL_KEYS"

definition internal_is_underflow :: "str list \<Rightarrow> bool" where
  "internal_is_underflow ks \<longleftrightarrow> length ks < BTREE_MIN_INTERNAL_KEYS"

definition insert_key :: "str \<Rightarrow> 'c \<Rightarrow> str list \<Rightarrow> 'c list \<Rightarrow> str list \<times> 'c list" where
  "insert_key key right_child ks cs =
    (let i = (case search_key id key ks of Inr i \<Rightarrow> i | Inl i \<Rightarrow> i) in
     (vec_insert i key ks, vec_insert (i + 1) right_child cs))"

definition internal_split :: "str list \<Rightarrow> 'c list \<Rightarrow> (str list \<times> 'c list) \<times> str \<times> (str list \<times> 'c list)" where
  "internal_split ks cs =
    (let mid = length ks div 2 in
     ((take mid ks, take (mid + 1) cs), ks ! mid, (drop (mid + 1) ks, drop (mid + 1) cs)))"

text \<open>The removal of an emptied child: its key, or the last key when it was the last child.\<close>

definition remove_child :: "nat \<Rightarrow> str list \<Rightarrow> 'c list \<Rightarrow> str list \<times> 'c list" where
  "remove_child i ks cs =
    (if i < length ks then vec_remove i ks
     else if ks \<noteq> [] then vec_remove (i - 1) ks else ks, vec_remove i cs)"

section \<open>The store\<close>

type_synonym dir_store = "bytes \<Rightarrow> (bool \<times> u8 \<times> bytes) option"

definition store_get :: "bool \<Rightarrow> dir_store \<Rightarrow> bytes \<Rightarrow> (u8 \<times> bytes) option" where
  "store_get include_deleted st k =
    (case st k of
       None \<Rightarrow> None
     | Some (deleted, version, data) \<Rightarrow> if deleted \<and> \<not> include_deleted then None else Some (version, data))"

definition store_put :: "bytes \<Rightarrow> bytes \<Rightarrow> dir_store \<Rightarrow> dir_store" where
  "store_put k data st = st(k \<mapsto> (False, CURRENT_ENTRY_VERSION, data))"

definition store_btree_node ::
  "(bytes \<Rightarrow> bytes) \<Rightarrow> btree_node \<Rightarrow> nat \<Rightarrow> hash_algorithm \<Rightarrow> dir_store \<Rightarrow> (bytes \<times> dir_store) engine_result" where
  "store_btree_node blake3 node hl algo st =
    res_bind (btree_serialize node hl) (\<lambda>serialized.
    res_bind (btree_content_hash blake3 node hl algo) (\<lambda>content_hash.
      Inr (content_hash, store_put content_hash serialized st)))"

text \<open>Sequencing with both ways to stop: an error, or the depth bound.\<close>

definition fr_bind :: "'a engine_result option \<Rightarrow> ('a \<Rightarrow> 'b engine_result option) \<Rightarrow> 'b engine_result option" where
  "fr_bind m f = (case m of None \<Rightarrow> None | Some (Inl e) \<Rightarrow> Some (Inl e) | Some (Inr x) \<Rightarrow> f x)"

lemma fr_bind_simps [simp]:
  "fr_bind None f = None" "fr_bind (Some (Inl e)) f = Some (Inl e)" "fr_bind (Some (Inr x)) f = f x"
  by (simp_all add: fr_bind_def)

lemma fr_bind_eq_Inr [simp]:
  "fr_bind m f = Some (Inr y) \<longleftrightarrow> (\<exists>x. m = Some (Inr x) \<and> f x = Some (Inr y))"
  by (auto simp: fr_bind_def split: option.splits sum.splits)

definition load_node :: "bool \<Rightarrow> string \<Rightarrow> dir_store \<Rightarrow> nat \<Rightarrow> bytes \<Rightarrow> btree_node engine_result" where
  "load_node include_deleted missing st hl h =
    res_bind (ok_or (NotFound missing) (store_get include_deleted st h)) (\<lambda>(version, data).
      btree_deserialize data hl version)"

section \<open>Lookup and listing\<close>

fun btree_lookup :: "nat \<Rightarrow> dir_store \<Rightarrow> bytes \<Rightarrow> str \<Rightarrow> nat \<Rightarrow> bool \<Rightarrow> child_entry option engine_result option" where
  "btree_lookup 0 st root name hl include_deleted = None"
| "btree_lookup (Suc n) st root name hl include_deleted =
    fr_bind (Some (load_node include_deleted ''B-tree root not found'' st hl root)) (\<lambda>node.
      case node of
        Leaf es \<Rightarrow> Some (Inr (leaf_find es name))
      | Internal ks cs \<Rightarrow> btree_lookup n st (cs ! find_child_index ks name) name hl include_deleted)"

fun list_children :: "(bytes \<Rightarrow> child_entry list engine_result option) \<Rightarrow> bytes list \<Rightarrow>
    child_entry list engine_result option" where
  "list_children f [] = Some (Inr [])"
| "list_children f (c # cs) =
    fr_bind (f c) (\<lambda>es. fr_bind (list_children f cs) (\<lambda>rest. Some (Inr (es @ rest))))"

fun btree_list :: "nat \<Rightarrow> dir_store \<Rightarrow> bytes \<Rightarrow> nat \<Rightarrow> bool \<Rightarrow> child_entry list engine_result option" where
  "btree_list 0 st root hl include_deleted = None"
| "btree_list (Suc n) st root hl include_deleted =
    fr_bind (Some (load_node include_deleted ''B-tree root not found'' st hl root)) (\<lambda>node.
      case node of
        Leaf es \<Rightarrow> Some (Inr es)
      | Internal ks cs \<Rightarrow> list_children (\<lambda>c. btree_list n st c hl include_deleted) cs)"

definition btree_list_from_node ::
  "nat \<Rightarrow> bytes \<Rightarrow> dir_store \<Rightarrow> nat \<Rightarrow> bool \<Rightarrow> child_entry list engine_result option" where
  "btree_list_from_node n root_data st hl include_deleted =
    fr_bind (Some (btree_deserialize root_data hl 0)) (\<lambda>node.
      case node of
        Leaf es \<Rightarrow> Some (Inr es)
      | Internal ks cs \<Rightarrow> list_children (\<lambda>c. btree_list n st c hl include_deleted) cs)"

section \<open>Insertion\<close>

datatype insert_result = Done (done_hash: bytes) (done_data: bytes) | Split bytes str bytes

text \<open>The node-by-node insertion writes as it goes, so it returns the store with the result, also when it fails.\<close>

definition sr_bind ::
  "('a engine_result \<times> dir_store) option \<Rightarrow> ('a \<Rightarrow> dir_store \<Rightarrow> ('b engine_result \<times> dir_store) option) \<Rightarrow>
    ('b engine_result \<times> dir_store) option" where
  "sr_bind m f = (case m of None \<Rightarrow> None | Some (Inl e, st) \<Rightarrow> Some (Inl e, st) | Some (Inr x, st) \<Rightarrow> f x st)"

lemma sr_bind_simps [simp]:
  "sr_bind None f = None" "sr_bind (Some (Inl e, st)) f = Some (Inl e, st)" "sr_bind (Some (Inr x, st)) f = f x st"
  by (simp_all add: sr_bind_def)

text \<open>The result of storing a node that did not split.\<close>

definition finish_insert ::
  "(bytes \<Rightarrow> bytes) \<Rightarrow> btree_node \<Rightarrow> nat \<Rightarrow> hash_algorithm \<Rightarrow> dir_store \<Rightarrow> insert_result engine_result \<times> dir_store" where
  "finish_insert blake3 node hl algo st =
    (case btree_serialize node hl of
       Inl x \<Rightarrow> (Inl x, st)
     | Inr data \<Rightarrow>
         (case store_btree_node blake3 node hl algo st of
            Inl x \<Rightarrow> (Inl x, st)
          | Inr (hash, st1) \<Rightarrow> (Inr (Done hash data), st1)))"

definition finish_split ::
  "(bytes \<Rightarrow> bytes) \<Rightarrow> btree_node \<Rightarrow> str \<Rightarrow> btree_node \<Rightarrow> nat \<Rightarrow> hash_algorithm \<Rightarrow> dir_store \<Rightarrow>
    insert_result engine_result \<times> dir_store" where
  "finish_split blake3 left split_key right hl algo st =
    (case store_btree_node blake3 left hl algo st of
       Inl x \<Rightarrow> (Inl x, st)
     | Inr (left_hash, st1) \<Rightarrow>
         (case store_btree_node blake3 right hl algo st1 of
            Inl x \<Rightarrow> (Inl x, st1)
          | Inr (right_hash, st2) \<Rightarrow> (Inr (Split left_hash split_key right_hash), st2)))"

fun btree_insert_node ::
  "(bytes \<Rightarrow> bytes) \<Rightarrow> nat \<Rightarrow> btree_node \<Rightarrow> child_entry \<Rightarrow> nat \<Rightarrow> hash_algorithm \<Rightarrow> dir_store \<Rightarrow>
    (insert_result engine_result \<times> dir_store) option" where
  "btree_insert_node blake3 n (Leaf es) e hl algo st =
    (let es1 = fst (leaf_upsert e es) in
     if leaf_is_full es1 then
       (let (left, split_key, right) = leaf_split es1 in
        Some (finish_split blake3 (Leaf left) split_key (Leaf right) hl algo st))
     else Some (finish_insert blake3 (Leaf es1) hl algo st))"
| "btree_insert_node blake3 0 (Internal ks cs) e hl algo st = None"
| "btree_insert_node blake3 (Suc n) (Internal ks cs) e hl algo st =
    (let i = find_child_index ks (ce_name e) in
     sr_bind (Some (load_node False ''B-tree child not found'' st hl (cs ! i), st)) (\<lambda>child_node st.
     sr_bind (btree_insert_node blake3 n child_node e hl algo st) (\<lambda>child_result st1.
       case child_result of
         Done new_child_hash _ \<Rightarrow>
           Some (finish_insert blake3 (Internal ks (cs[i := new_child_hash])) hl algo st1)
       | Split left_hash split_key right_hash \<Rightarrow>
           (let (ks1, cs1) = insert_key split_key right_hash ks (cs[i := left_hash]) in
            if internal_is_full ks1 then
              (let ((lk, lc), parent_split_key, (rk, rc)) = internal_split ks1 cs1 in
               Some (finish_split blake3 (Internal lk lc) parent_split_key (Internal rk rc) hl algo st1))
            else Some (finish_insert blake3 (Internal ks1 cs1) hl algo st1)))))"

definition btree_insert_with_data ::
  "(bytes \<Rightarrow> bytes) \<Rightarrow> nat \<Rightarrow> bytes \<Rightarrow> child_entry \<Rightarrow> nat \<Rightarrow> hash_algorithm \<Rightarrow> dir_store \<Rightarrow>
    ((bytes \<times> bytes) engine_result \<times> dir_store) option" where
  "btree_insert_with_data blake3 n root_data e hl algo st =
    sr_bind (Some (btree_deserialize root_data hl 0, st)) (\<lambda>root_node st.
    sr_bind (btree_insert_node blake3 n root_node e hl algo st) (\<lambda>result st1.
      case result of
        Done new_hash new_data \<Rightarrow> Some (Inr (new_hash, new_data), st1)
      | Split left_hash split_key right_hash \<Rightarrow>
          Some (let new_root = Internal [split_key] [left_hash, right_hash] in
            case btree_serialize new_root hl of
              Inl x \<Rightarrow> (Inl x, st1)
            | Inr new_data \<Rightarrow>
                (case store_btree_node blake3 new_root hl algo st1 of
                   Inl x \<Rightarrow> (Inl x, st1)
                 | Inr (new_hash, st2) \<Rightarrow> (Inr (new_hash, new_data), st2)))))"

definition btree_insert ::
  "(bytes \<Rightarrow> bytes) \<Rightarrow> nat \<Rightarrow> bytes \<Rightarrow> child_entry \<Rightarrow> nat \<Rightarrow> hash_algorithm \<Rightarrow> dir_store \<Rightarrow>
    (bytes engine_result \<times> dir_store) option" where
  "btree_insert blake3 n root_hash e hl algo st =
    sr_bind (Some (ok_or (NotFound ''B-tree root not found'') (store_get False st root_hash), st)) (\<lambda>(_, root_data) st.
    sr_bind (btree_insert_with_data blake3 n root_data e hl algo st) (\<lambda>(new_hash, _) st1.
      Some (Inr new_hash, st1)))"

section \<open>Insertion with collected writes\<close>

type_synonym write_batch = "(bytes \<times> bytes) list"

text \<open>The keys and values \<^verbatim>\<open>batch.add\<close> collects, all of type \<^verbatim>\<open>DirectoryIndex\<close>; \<^verbatim>\<open>flush_batch\<close> stores
  them in order.\<close>

definition batch_node ::
  "(bytes \<Rightarrow> bytes) \<Rightarrow> btree_node \<Rightarrow> nat \<Rightarrow> hash_algorithm \<Rightarrow> write_batch \<Rightarrow> (bytes \<times> bytes \<times> write_batch) engine_result" where
  "batch_node blake3 node hl algo batch =
    res_bind (btree_serialize node hl) (\<lambda>data.
    res_bind (btree_content_hash blake3 node hl algo) (\<lambda>hash.
      Inr (hash, data, batch @ [(hash, data)])))"

definition batch_finish_insert ::
  "(bytes \<Rightarrow> bytes) \<Rightarrow> btree_node \<Rightarrow> nat \<Rightarrow> hash_algorithm \<Rightarrow> write_batch \<Rightarrow> (insert_result \<times> write_batch) engine_result" where
  "batch_finish_insert blake3 node hl algo batch =
    res_bind (batch_node blake3 node hl algo batch) (\<lambda>(hash, data, batch1). Inr (Done hash data, batch1))"

definition batch_finish_split ::
  "(bytes \<Rightarrow> bytes) \<Rightarrow> btree_node \<Rightarrow> str \<Rightarrow> btree_node \<Rightarrow> nat \<Rightarrow> hash_algorithm \<Rightarrow> write_batch \<Rightarrow>
    (insert_result \<times> write_batch) engine_result" where
  "batch_finish_split blake3 left split_key right hl algo batch =
    res_bind (btree_content_hash blake3 left hl algo) (\<lambda>left_hash.
    res_bind (btree_content_hash blake3 right hl algo) (\<lambda>right_hash.
    res_bind (btree_serialize left hl) (\<lambda>left_data.
    res_bind (btree_serialize right hl) (\<lambda>right_data.
      Inr (Split left_hash split_key right_hash, batch @ [(left_hash, left_data), (right_hash, right_data)])))))"

fun btree_insert_node_batched ::
  "(bytes \<Rightarrow> bytes) \<Rightarrow> nat \<Rightarrow> dir_store \<Rightarrow> btree_node \<Rightarrow> child_entry \<Rightarrow> nat \<Rightarrow> hash_algorithm \<Rightarrow> write_batch \<Rightarrow>
    (insert_result \<times> write_batch) engine_result option" where
  "btree_insert_node_batched blake3 n st (Leaf es) e hl algo batch =
    (let es1 = fst (leaf_upsert e es) in
     if leaf_is_full es1 then
       (let (left, split_key, right) = leaf_split es1 in
        Some (batch_finish_split blake3 (Leaf left) split_key (Leaf right) hl algo batch))
     else Some (batch_finish_insert blake3 (Leaf es1) hl algo batch))"
| "btree_insert_node_batched blake3 0 st (Internal ks cs) e hl algo batch = None"
| "btree_insert_node_batched blake3 (Suc n) st (Internal ks cs) e hl algo batch =
    (let i = find_child_index ks (ce_name e) in
     fr_bind (Some (load_node False ''B-tree child not found'' st hl (cs ! i))) (\<lambda>child_node.
     fr_bind (btree_insert_node_batched blake3 n st child_node e hl algo batch) (\<lambda>(child_result, batch1).
       case child_result of
         Done new_child_hash _ \<Rightarrow>
           Some (batch_finish_insert blake3 (Internal ks (cs[i := new_child_hash])) hl algo batch1)
       | Split left_hash split_key right_hash \<Rightarrow>
           (let (ks1, cs1) = insert_key split_key right_hash ks (cs[i := left_hash]) in
            if internal_is_full ks1 then
              (let ((lk, lc), parent_split_key, (rk, rc)) = internal_split ks1 cs1 in
               Some (batch_finish_split blake3 (Internal lk lc) parent_split_key (Internal rk rc) hl algo batch1))
            else Some (batch_finish_insert blake3 (Internal ks1 cs1) hl algo batch1)))))"

text \<open>The writes of an insertion at the root, and the insertion: the writes, then one flush.\<close>

definition btree_insert_writes ::
  "(bytes \<Rightarrow> bytes) \<Rightarrow> nat \<Rightarrow> bytes \<Rightarrow> child_entry \<Rightarrow> nat \<Rightarrow> hash_algorithm \<Rightarrow> dir_store \<Rightarrow>
    (bytes \<times> bytes \<times> write_batch) engine_result option" where
  "btree_insert_writes blake3 n root_data e hl algo st =
    fr_bind (Some (btree_deserialize root_data hl 0)) (\<lambda>root_node.
    fr_bind (btree_insert_node_batched blake3 n st root_node e hl algo []) (\<lambda>(result, batch).
      case result of
        Done hash data \<Rightarrow> Some (Inr (hash, data, batch))
      | Split left_hash split_key right_hash \<Rightarrow>
          Some (batch_node blake3 (Internal [split_key] [left_hash, right_hash]) hl algo batch)))"

definition flush_batch :: "write_batch \<Rightarrow> dir_store \<Rightarrow> dir_store" where
  "flush_batch batch st = fold (\<lambda>(k, d). store_put k d) batch st"

definition btree_insert_batched ::
  "(bytes \<Rightarrow> bytes) \<Rightarrow> nat \<Rightarrow> bytes \<Rightarrow> child_entry \<Rightarrow> nat \<Rightarrow> hash_algorithm \<Rightarrow> dir_store \<Rightarrow>
    ((bytes \<times> bytes) engine_result \<times> dir_store) option" where
  "btree_insert_batched blake3 n root_data e hl algo st =
    (case btree_insert_writes blake3 n root_data e hl algo st of
       None \<Rightarrow> None
     | Some (Inl x) \<Rightarrow> Some (Inl x, st)
     | Some (Inr (new_hash, new_data, batch)) \<Rightarrow> Some (Inr (new_hash, new_data), flush_batch batch st))"

section \<open>Deletion\<close>

fun btree_delete ::
  "(bytes \<Rightarrow> bytes) \<Rightarrow> nat \<Rightarrow> bytes \<Rightarrow> str \<Rightarrow> nat \<Rightarrow> hash_algorithm \<Rightarrow> dir_store \<Rightarrow>
    (bytes option \<times> dir_store) engine_result option" where
  "btree_delete blake3 0 root name hl algo st = None"
| "btree_delete blake3 (Suc n) root name hl algo st =
    fr_bind (Some (load_node False ''B-tree root not found'' st hl root)) (\<lambda>node.
      case node of
        Leaf es \<Rightarrow>
          (let es1 = fst (leaf_remove name es) in
           if es1 = [] then Some (Inr (None, st))
           else Some (res_bind (store_btree_node blake3 (Leaf es1) hl algo st) (\<lambda>(h, st1). Inr (Some h, st1))))
      | Internal ks cs \<Rightarrow>
          (let i = find_child_index ks name in
           fr_bind (btree_delete blake3 n (cs ! i) name hl algo st) (\<lambda>(r, st1).
             case r of
               Some new_child_hash \<Rightarrow>
                 Some (res_bind (store_btree_node blake3 (Internal ks (cs[i := new_child_hash])) hl algo st1)
                   (\<lambda>(h, st2). Inr (Some h, st2)))
             | None \<Rightarrow>
                 (let (ks1, cs1) = remove_child i ks cs in
                  if cs1 = [] then Some (Inr (None, st1))
                  else if length cs1 = 1 then Some (Inr (Some (cs1 ! 0), st1))
                  else Some (res_bind (store_btree_node blake3 (Internal ks1 cs1) hl algo st1)
                    (\<lambda>(h, st2). Inr (Some h, st2)))))))"

section \<open>Bulk construction\<close>

function chunks :: "nat \<Rightarrow> 'a list \<Rightarrow> 'a list list" where
  "chunks n xs = (if xs = [] \<or> n = 0 then [] else take n xs # chunks n (drop n xs))"
  by pat_completeness auto
termination
  by (relation "measure (\<lambda>(_, xs). length xs)") auto

declare chunks.simps [simp del]

fun store_nodes ::
  "(bytes \<Rightarrow> bytes) \<Rightarrow> nat \<Rightarrow> hash_algorithm \<Rightarrow> btree_node list \<Rightarrow> dir_store \<Rightarrow> (bytes list \<times> dir_store) engine_result" where
  "store_nodes blake3 hl algo [] st = Inr ([], st)"
| "store_nodes blake3 hl algo (node # nodes) st =
    res_bind (store_btree_node blake3 node hl algo st) (\<lambda>(h, st1).
    res_bind (store_nodes blake3 hl algo nodes st1) (\<lambda>(hs, st2). Inr (h # hs, st2)))"

text \<open>The groups of one level: for the group of children \<open>i .. end\<close> the keys \<open>keys[i - 1 .. end - 1]\<close> (for the
  first group \<open>keys[.. end - 1]\<close>) and, for every group but the first, the key that separates it.\<close>

function group_level :: "nat \<Rightarrow> bytes list \<Rightarrow> str list \<Rightarrow> nat \<Rightarrow> btree_node list \<times> str list" where
  "group_level max_children cs ks i =
    (if i < length cs \<and> 0 < max_children then
       let e = min (i + max_children) (length cs);
           node_cs = slice_at cs i (e - i);
           node_ks = (if i = 0 then take (e - 1) ks else slice_at ks (i - 1) (e - 1 - (i - 1)));
           (nodes, new_keys) = group_level max_children cs ks e in
       (Internal node_ks node_cs # nodes,
        if i > 0 \<and> i - 1 < length ks then ks ! (i - 1) # new_keys else new_keys)
     else ([], []))"
  by pat_completeness auto
termination
  by (relation "measure (\<lambda>(_, cs, _, i). length cs - i)") auto

declare group_level.simps [simp del]

fun build_internal_level ::
  "(bytes \<Rightarrow> bytes) \<Rightarrow> nat \<Rightarrow> bytes list \<Rightarrow> str list \<Rightarrow> nat \<Rightarrow> hash_algorithm \<Rightarrow> dir_store \<Rightarrow>
    (bytes \<times> dir_store) engine_result option" where
  "build_internal_level blake3 0 cs ks hl algo st = None"
| "build_internal_level blake3 (Suc n) cs ks hl algo st =
    (if length cs = 1 then Some (Inr (cs ! 0, st))
     else let (nodes, new_keys) = group_level (BTREE_MAX_INTERNAL_KEYS + 1) cs ks 0 in
       fr_bind (Some (store_nodes blake3 hl algo nodes st)) (\<lambda>(new_children, st1).
         if length new_children = 1 then Some (Inr (new_children ! 0, st1))
         else build_internal_level blake3 n new_children new_keys hl algo st1))"

definition btree_from_entries ::
  "(bytes \<Rightarrow> bytes) \<Rightarrow> nat \<Rightarrow> child_entry list \<Rightarrow> nat \<Rightarrow> hash_algorithm \<Rightarrow> dir_store \<Rightarrow>
    (bytes \<times> dir_store) engine_result option" where
  "btree_from_entries blake3 n entries hl algo st =
    (let sorted_entries = sort_key ce_name entries in
     if sorted_entries = [] then Some (store_btree_node blake3 (Leaf []) hl algo st)
     else let leaves = chunks BTREE_MAX_LEAF_ENTRIES sorted_entries;
              split_keys = map (\<lambda>chunk. ce_name (chunk ! 0)) (tl leaves) in
       fr_bind (Some (store_nodes blake3 hl algo (map Leaf leaves) st)) (\<lambda>(leaf_hashes, st1).
         if length leaf_hashes = 1 then Some (Inr (leaf_hashes ! 0, st1))
         else build_internal_level blake3 n leaf_hashes split_keys hl algo st1))"

end
