(* ===== verification/BTree_Correct.thy ===== *)
theory BTree_Correct
  imports BTree "HOL-Library.Product_Lexorder" "HOL-Library.Sublist"
begin

text \<open>
  What the directory B-trees represent: the tree of nodes a root hash stands for, its search invariant as
  sortedness of one list (entries and separator keys in order, a key before an entry of the same name), that node
  bytes parse back, and that lookup and listing answer from the sorted list of directory entries.  Insertion and
  deletion follow in \<open>BTree_Insert\<close>, \<open>BTree_Update\<close> and \<open>BTree_Delete\<close>.
\<close>

section \<open>Node bytes parse back\<close>

definition key_ok :: "str \<Rightarrow> bool" where
  "key_ok k \<longleftrightarrow> utf8_valid k \<and> length k \<le> 65535"

definition dir_entry_ok :: "nat \<Rightarrow> child_entry \<Rightarrow> bool" where
  "dir_entry_ok hl e \<longleftrightarrow> child_entry_ok hl e \<and> length (ce_name e) \<le> 65535 \<and>
    length (opt_bytes (ce_content_type e)) \<le> 65535"

fun node_ok :: "nat \<Rightarrow> btree_node \<Rightarrow> bool" where
  "node_ok hl (Leaf es) \<longleftrightarrow> length es < 65536 \<and> (\<forall>e\<in>set es. dir_entry_ok hl e)"
| "node_ok hl (Internal ks cs) \<longleftrightarrow> length ks < 65536 \<and> length cs = Suc (length ks) \<and>
    (\<forall>k\<in>set ks. key_ok k) \<and> (\<forall>c\<in>set cs. length c = hl)"

definition keys_bytes :: "str list \<Rightarrow> bytes" where
  "keys_bytes ks = concat (map (\<lambda>k. to_le_bytes (word_of_nat (length k) :: u16) @ k) ks)"

lemma serialize_keys_ok: "\<forall>k\<in>set ks. key_ok k \<Longrightarrow> serialize_keys ks = Inr (keys_bytes ks)"
  by (induction ks) (simp_all add: key_ok_def keys_bytes_def)

lemma read_keys_ok:
  assumes "\<forall>k\<in>set ks. key_ok k" "cursor_at data off (keys_bytes ks @ rest)"
  shows "read_keys (length ks) data off = Inr (ks, off + length (keys_bytes ks)) \<and>
    cursor_at data (off + length (keys_bytes ks)) rest"
  using assms
proof (induction ks arbitrary: off)
  case Nil
  then show ?case by (simp add: keys_bytes_def)
next
  case (Cons k ks)
  let ?l = "word_of_nat (length k) :: u16"
  have k: "utf8_valid k" "length k \<le> 65535" using Cons.prems(1) by (simp_all add: key_ok_def)
  then have ul: "unat ?l = length k" by (simp add: unat_word_of_nat_u16)
  have c: "cursor_at data off (to_le_bytes ?l @ k @ keys_bytes ks @ rest)"
    using Cons.prems(2) by (simp add: keys_bytes_def)
  note c1 = cursor_advance [OF c]
  have c1': "cursor_at data (off + 2) (k @ keys_bytes ks @ rest)" using c1(1) by simp
  note c2 = cursor_advance [OF c1']
  have "from_le_bytes (slice_at data off 2) = ?l" using c1(3) by simp
  moreover have "off + 2 \<le> length data" using c1(2) by simp
  ultimately have "read_keys (length (k # ks)) data off =
      res_bind (read_keys (length ks) data (off + 2 + length k)) (\<lambda>(ks, off'). Inr (k # ks, off'))"
    using c2(2,3) k ul by (simp add: Let_def del: res_bind_eq_Inr)
  then show ?case using Cons.IH [OF _ c2(1)] Cons.prems(1) by (simp add: keys_bytes_def add.assoc del: res_bind_eq_Inr)
qed

lemma read_children_ok:
  assumes "\<forall>c\<in>set cs. length c = hl" "cursor_at data off (concat cs @ rest)"
  shows "read_children (length cs) data hl off = Inr cs"
  using assms
proof (induction cs arbitrary: off)
  case (Cons c cs)
  have "cursor_at data off (c @ concat cs @ rest)" using Cons.prems(2) by simp
  note c1 = cursor_advance [OF this]
  then show ?case using Cons by (simp del: res_bind_eq_Inr)
qed simp

lemma btree_deserialize_serialize:
  assumes ok: "node_ok hl node" and s: "btree_serialize node hl = Inr data"
  shows "btree_deserialize data hl 0 = Inr node"
proof (cases node)
  case (Leaf es)
  obtain cd where cd: "serialize_child_entries es hl = Inr cd"
    and d: "data = BTREE_LEAF_MARKER # to_le_bytes (word_of_nat (length es) :: u16) @ cd"
    using s by (auto simp: Leaf)
  have len: "length es < 65536" and es: "\<forall>e\<in>set es. dir_entry_ok hl e" using ok by (simp_all add: Leaf)
  have n: "unat (word_of_nat (length es) :: u16) = length es" using len by (simp add: unat_word_of_nat_u16)
  have c: "cd = concat (map child_entry_bytes es)" using serialize_child_entries_Inr [OF cd] by simp
  have sl: "slice_at data (Suc 0) 2 = to_le_bytes (word_of_nat (length es) :: u16)" by (simp add: d)
  have dr: "drop 3 data = cd" by (simp add: d numeral_3_eq_3)
  have "deserialize_child_entries_v0 cd hl = Inr es"
    unfolding c by (rule deserialize_concat_child_entries) (use es in \<open>auto simp: dir_entry_ok_def\<close>)
  moreover have "\<not> length data < 3" "data \<noteq> []" "data ! 0 = BTREE_LEAF_MARKER" by (simp_all add: d)
  ultimately show ?thesis
    using n by (simp add: btree_deserialize_def btree_deserialize_v0_def Let_def sl dr Leaf deserialize_child_entries_def
        del: res_bind_eq_Inr)
next
  case (Internal ks cs)
  have ks: "\<forall>k\<in>set ks. key_ok k" and len: "length ks < 65536" and lc: "length cs = Suc (length ks)"
    and cs: "\<forall>c\<in>set cs. length c = hl" using ok by (simp_all add: Internal)
  have d: "data = BTREE_INTERNAL_MARKER # to_le_bytes (word_of_nat (length ks) :: u16) @ keys_bytes ks @ concat cs"
    using s ks by (simp add: Internal serialize_keys_ok)
  have n: "unat (word_of_nat (length ks) :: u16) = length ks" using len by (simp add: unat_word_of_nat_u16)
  have "cursor_at data 3 (keys_bytes ks @ concat cs)" by (simp add: cursor_at_def d numeral_3_eq_3)
  from read_keys_ok [OF ks this] have k: "read_keys (length ks) data 3 = Inr (ks, 3 + length (keys_bytes ks))"
    and c: "cursor_at data (3 + length (keys_bytes ks)) (concat cs)" by simp_all
  have r: "read_children (length cs) data hl (3 + length (keys_bytes ks)) = Inr cs"
    by (rule read_children_ok [OF cs, of _ _ "[]"]) (use c in simp)
  have sl: "slice_at data (Suc 0) 2 = to_le_bytes (word_of_nat (length ks) :: u16)" by (simp add: d)
  have "\<not> length data < 3" "data \<noteq> []" "data ! 0 = BTREE_INTERNAL_MARKER" by (simp_all add: d)
  then show ?thesis
    using n k r lc by (simp add: btree_deserialize_def btree_deserialize_v0_def Let_def sl Internal
        BTREE_LEAF_MARKER_def BTREE_INTERNAL_MARKER_def del: res_bind_eq_Inr read_children.simps)
qed

lemma serialize_child_entries_ok:
  "\<forall>e\<in>set es. dir_entry_ok hl e \<Longrightarrow> \<exists>cd. serialize_child_entries es hl = Inr cd"
  by (induction es) (auto simp: dir_entry_ok_def child_entry_serialize_def)

lemma btree_serialize_ok: "node_ok hl node \<Longrightarrow> \<exists>data. btree_serialize node hl = Inr data"
  using serialize_child_entries_ok serialize_keys_ok by (cases node) fastforce+

section \<open>Trees\<close>

datatype btree = TLeaf "child_entry list" | TNode "str list" "btree list"

fun repr :: "dir_store \<Rightarrow> nat \<Rightarrow> bytes \<Rightarrow> btree \<Rightarrow> bool"
  and node_repr :: "dir_store \<Rightarrow> nat \<Rightarrow> btree_node \<Rightarrow> btree \<Rightarrow> bool" where
  "repr st hl h t \<longleftrightarrow> length h = hl \<and>
    (\<exists>data node. st h = Some (False, CURRENT_ENTRY_VERSION, data) \<and> btree_deserialize data hl 0 = Inr node \<and>
      node_repr st hl node t)"
| "node_repr st hl node (TLeaf es) \<longleftrightarrow> node = Leaf es"
| "node_repr st hl node (TNode ks ts) \<longleftrightarrow> (\<exists>cs. node = Internal ks cs \<and> list_all2 (repr st hl) cs ts)"

declare repr.simps [simp del]

fun bt_entries :: "btree \<Rightarrow> child_entry list" where
  "bt_entries (TLeaf es) = es"
| "bt_entries (TNode ks ts) = concat (map bt_entries ts)"

text \<open>The depth is at most \<open>n\<close>.\<close>

fun bt_within :: "nat \<Rightarrow> btree \<Rightarrow> bool" where
  "bt_within n (TLeaf es) \<longleftrightarrow> True"
| "bt_within 0 (TNode ks ts) \<longleftrightarrow> False"
| "bt_within (Suc n) (TNode ks ts) \<longleftrightarrow> (\<forall>t\<in>set ts. bt_within n t)"

text \<open>The shape and the sizes of the nodes.\<close>

fun bt_shape :: "nat \<Rightarrow> btree \<Rightarrow> bool" where
  "bt_shape hl (TLeaf es) \<longleftrightarrow> length es \<le> 40 \<and> (\<forall>e\<in>set es. dir_entry_ok hl e)"
| "bt_shape hl (TNode ks ts) \<longleftrightarrow> length ts = Suc (length ks) \<and> length ks \<le> 77 \<and> (\<forall>k\<in>set ks. key_ok k) \<and>
    (\<forall>t\<in>set ts. bt_shape hl t)"

text \<open>No leaf is empty, but the root may be an empty leaf.\<close>

fun bt_full :: "btree \<Rightarrow> bool" where
  "bt_full (TLeaf es) \<longleftrightarrow> es \<noteq> []"
| "bt_full (TNode ks ts) \<longleftrightarrow> (\<forall>t\<in>set ts. bt_full t)"

fun leaves_filled :: "btree \<Rightarrow> bool" where
  "leaves_filled (TLeaf es) \<longleftrightarrow> True"
| "leaves_filled (TNode ks ts) \<longleftrightarrow> (\<forall>t\<in>set ts. bt_full t)"

lemma full_filled: "bt_full t \<Longrightarrow> leaves_filled t"
  by (cases t) simp_all

lemma full_entries: "bt_full t \<Longrightarrow> bt_shape hl t \<Longrightarrow> bt_entries t \<noteq> []"
proof (induction t)
  case (TNode ks ts)
  then obtain u us where "ts = u # us" by (cases ts) simp_all
  then show ?case using TNode by simp
qed simp

text \<open>Names in tree order: an entry is tagged 1, a separator key 0, so that a key comes before the entry of
  the same name.\<close>

type_synonym mark = "str \<times> nat"

fun interleave :: "mark list list \<Rightarrow> str list \<Rightarrow> mark list" where
  "interleave (f # fs) (k # ks) = f @ (k, 0) # interleave fs ks"
| "interleave (f # fs) [] = f"
| "interleave [] ks = []"

fun marks :: "btree \<Rightarrow> mark list" where
  "marks (TLeaf es) = map (\<lambda>e. (ce_name e, 1)) es"
| "marks (TNode ks ts) = interleave (map marks ts) ks"

definition bt_ok :: "nat \<Rightarrow> btree \<Rightarrow> bool" where
  "bt_ok hl t \<longleftrightarrow> bt_shape hl t \<and> sorted_wrt (<) (marks t)"

definition left_part :: "mark list list \<Rightarrow> str list \<Rightarrow> mark list" where
  "left_part fs ks = concat (map2 (\<lambda>f k. f @ [(k, 0)]) fs ks)"

definition right_part :: "str list \<Rightarrow> mark list list \<Rightarrow> mark list" where
  "right_part ks fs = concat (map2 (\<lambda>k f. (k, 0) # f) ks fs)"

lemma interleave_right: "length fs = length ks \<Longrightarrow> interleave (f # fs) ks = f @ right_part ks fs"
  by (induction fs ks arbitrary: f rule: list_induct2) (simp_all add: right_part_def)

lemma interleave_split:
  assumes "length ks1 = length fs1" "length ks2 = length fs2"
  shows "interleave (fs1 @ f # fs2) (ks1 @ ks2) = left_part fs1 ks1 @ f @ right_part ks2 fs2"
  using assms
proof (induction fs1 arbitrary: ks1)
  case Nil
  then show ?case using interleave_right [of fs2 ks2 f] by (simp add: left_part_def)
next
  case (Cons g fs1)
  then show ?case by (cases ks1) (simp_all add: left_part_def)
qed

lemma right_part_append:
  "length ks1 = length fs1 \<Longrightarrow> right_part (ks1 @ ks2) (fs1 @ fs2) = right_part ks1 fs1 @ right_part ks2 fs2"
  by (simp add: right_part_def)

lemma left_part_append:
  "length ks1 = length fs1 \<Longrightarrow> left_part (fs1 @ fs2) (ks1 @ ks2) = left_part fs1 ks1 @ left_part fs2 ks2"
  by (simp add: left_part_def)

text \<open>A node split at child \<open>i\<close>.\<close>

lemma node_parts:
  assumes "length ts = Suc (length ks)" "i \<le> length ks"
  shows "ts = take i ts @ ts ! i # drop (Suc i) ts" "ks = take i ks @ drop i ks"
    "length (take i ks) = length (take i ts)" "length (drop i ks) = length (drop (Suc i) ts)"
  using assms by (simp_all add: id_take_nth_drop)

lemma marks_split:
  assumes "length ts = Suc (length ks)" "i \<le> length ks"
  defines "L \<equiv> left_part (map marks (take i ts)) (take i ks)" and "R \<equiv> right_part (drop i ks) (map marks (drop (Suc i) ts))"
  shows "marks (TNode ks ts) = L @ marks (ts ! i) @ R"
proof -
  note p = node_parts [OF assms(1,2)]
  have "marks (TNode ks ts) = interleave (map marks (take i ts) @ marks (ts ! i) # map marks (drop (Suc i) ts)) (take i ks @ drop i ks)"
    by (subst p(1), subst p(2)) simp
  then show ?thesis using interleave_split [of "take i ks" "map marks (take i ts)" "drop i ks" "map marks (drop (Suc i) ts)"] p(3,4)
    by (simp add: L_def R_def)
qed

lemma find_child_index_props:
  assumes "sorted_wrt (<) ks"
  shows "find_child_index ks name \<le> length ks"
    and "j < find_child_index ks name \<Longrightarrow> ks ! j \<le> name"
    and "find_child_index ks name \<le> j \<Longrightarrow> j < length ks \<Longrightarrow> name < ks ! j"
proof -
  have s: "sorted_by id ks" using assms by simp
  have "find_child_index ks name \<le> length ks \<and> (\<forall>j < find_child_index ks name. ks ! j \<le> name) \<and>
      (\<forall>j. find_child_index ks name \<le> j \<longrightarrow> j < length ks \<longrightarrow> name < ks ! j)"
    using s
  proof (cases rule: search_key_cases [of id ks name])
    case (Found i)
    have "ks ! j \<le> ks ! i" if "j \<le> i" for j
      using that assms Found(2) by (cases "j = i") (auto simp: sorted_wrt_iff_nth_less intro: less_imp_le)
    moreover have "ks ! i < ks ! j" if "i < j" "j < length ks" for j
      using that assms by (simp add: sorted_wrt_iff_nth_less)
    ultimately show ?thesis using Found by (auto simp: find_child_index_def less_Suc_eq_le)
  next
    case (Missing i)
    then show ?thesis by (auto simp: find_child_index_def intro: less_imp_le)
  qed
  then show "find_child_index ks name \<le> length ks"
    "j < find_child_index ks name \<Longrightarrow> ks ! j \<le> name"
    "find_child_index ks name \<le> j \<Longrightarrow> j < length ks \<Longrightarrow> name < ks ! j" by blast+
qed

lemma interleave_keys:
  assumes "length fs = Suc (length ks)"
  shows "subseq (map (\<lambda>k. (k, 0)) ks) (interleave fs ks)"
  using assms
proof (induction fs ks rule: interleave.induct)
  case (1 f fs k ks)
  then have "subseq ((k, 0) # map (\<lambda>k. (k, 0)) ks) ((k, 0) # interleave fs ks)" by simp
  then show ?case by (simp add: list_emb_append2)
qed simp_all

lemma sorted_wrt_subseq: "subseq xs ys \<Longrightarrow> sorted_wrt P ys \<Longrightarrow> sorted_wrt P xs"
proof (induction xs ys rule: list_emb.induct)
  case (list_emb_Cons2 x y xs ys)
  then show ?case by (auto dest: list_emb_set)
qed simp_all

lemma sorted_marks_keys:
  assumes "sorted_wrt (<) (marks (TNode ks ts))" "length ts = Suc (length ks)"
  shows "sorted_wrt (<) ks"
proof -
  have "sorted_wrt (<) (map (\<lambda>k. (k, 0 :: nat)) ks)"
    using sorted_wrt_subseq [OF interleave_keys assms(1) [simplified]] assms(2) by simp
  then show ?thesis by (simp add: sorted_wrt_map)
qed

text \<open>The child a name belongs to: what stands left of it is smaller, what stands right of it is larger.\<close>

lemma left_part_last:
  "ks \<noteq> [] \<Longrightarrow> length fs = length ks \<Longrightarrow> \<exists>xs. left_part fs ks = xs @ [(last ks, 0)]"
proof (induction fs ks rule: list_induct2')
  case (4 f fs k ks)
  show ?case
  proof (cases "ks = []")
    case True
    then show ?thesis using 4 by (simp add: left_part_def)
  next
    case False
    then show ?thesis using 4 by (auto simp: left_part_def)
  qed
qed simp_all

lemma right_part_hd:
  "ks \<noteq> [] \<Longrightarrow> length fs = length ks \<Longrightarrow> \<exists>xs. right_part ks fs = (hd ks, 0) # xs"
  by (cases ks; cases fs) (simp_all add: right_part_def)

lemma child_bounds:
  fixes name :: str
  assumes s: "sorted_wrt (<) (marks (TNode ks ts))" and l: "length ts = Suc (length ks)"
  defines "i \<equiv> find_child_index ks name"
  defines "L \<equiv> left_part (map marks (take i ts)) (take i ks)" and "R \<equiv> right_part (drop i ks) (map marks (drop (Suc i) ts))"
  shows "x \<in> set L \<Longrightarrow> x < (name, 1)" and "x \<in> set R \<Longrightarrow> (name, 1) < x"
proof -
  note f = find_child_index_props [OF sorted_marks_keys [OF s l], where name = name, folded i_def]
  have split: "marks (TNode ks ts) = L @ marks (ts ! i) @ R"
    unfolding L_def R_def by (rule marks_split [OF l f(1)])
  show "x < (name, 1)" if "x \<in> set L"
  proof (cases "i = 0")
    case False
    then have "take i ks \<noteq> []" "length (map marks (take i ts)) = length (take i ks)" using f(1) l by auto
    then obtain ys where ys: "L = ys @ [(last (take i ks), 0)]" using left_part_last unfolding L_def by blast
    have "last (take i ks) \<le> name"
      using f(1) f(2) [of "i - 1"] False \<open>take i ks \<noteq> []\<close> by (simp add: last_conv_nth)
    moreover have "x \<le> (last (take i ks), 0)"
      using that s split ys by (auto simp: sorted_wrt_append intro: less_imp_le)
    ultimately show ?thesis by (cases x) auto
  qed (use that in \<open>simp add: L_def left_part_def\<close>)
  show "(name, 1) < x" if "x \<in> set R"
  proof (cases "i = length ks")
    case False
    then have "drop i ks \<noteq> []" "length (map marks (drop (Suc i) ts)) = length (drop i ks)" using f(1) l by auto
    then obtain ys where ys: "R = (hd (drop i ks), 0) # ys" using right_part_hd unfolding R_def by blast
    have "name < hd (drop i ks)"
      using f(3) [of i] False f(1) by (simp add: hd_drop_conv_nth)
    moreover have "(hd (drop i ks), 0) \<le> x"
      using that s split ys by (auto simp: sorted_wrt_append intro: less_imp_le)
    ultimately show ?thesis by (cases x) auto
  qed (use that in \<open>simp add: R_def right_part_def\<close>)
qed

section \<open>Entries, lookup and listing\<close>

definition is_entry :: "mark \<Rightarrow> bool" where
  "is_entry m \<longleftrightarrow> snd m = 1"

lemma is_entry_simps [simp]: "is_entry (x, 1)" "\<not> is_entry (x, 0)"
  by (simp_all add: is_entry_def)

lemma filter_interleave:
  assumes "length fs = Suc (length ks)"
  shows "filter is_entry (interleave fs ks) = concat (map (filter is_entry) fs)"
  using assms
proof (induction fs ks rule: interleave.induct)
  case (2 f fs)
  then show ?case by simp
qed simp_all

lemma marks_entries:
  "bt_shape hl t \<Longrightarrow> filter is_entry (marks t) = map (\<lambda>e. (ce_name e, 1)) (bt_entries t)"
proof (induction t)
  case (TNode ks ts)
  then have "map (\<lambda>t. filter is_entry (marks t)) ts = map (\<lambda>t. map (\<lambda>e. (ce_name e, 1)) (bt_entries t)) ts"
    by simp
  then have "concat (map (\<lambda>t. filter is_entry (marks t)) ts) = concat (map (\<lambda>t. map (\<lambda>e. (ce_name e, 1)) (bt_entries t)) ts)"
    by (rule arg_cong)
  then show ?case using TNode.prems by (simp add: filter_interleave map_concat comp_def)
qed (simp add: is_entry_def filter_map comp_def)

lemma entries_in_marks:
  assumes "bt_shape hl t" "e \<in> set (bt_entries t)"
  shows "(ce_name e, 1) \<in> set (marks t)"
proof -
  have "(ce_name e, 1) \<in> set (filter is_entry (marks t))"
    unfolding marks_entries [OF assms(1)] using assms(2) by auto
  then show ?thesis by simp
qed

lemma entries_sorted: "bt_ok hl t \<Longrightarrow> sorted_by ce_name (bt_entries t)"
proof -
  assume ok: "bt_ok hl t"
  then have "sorted_wrt (<) (map (\<lambda>e. (ce_name e, 1 :: nat)) (bt_entries t))"
    using marks_entries [of hl t] sorted_wrt_filter [of "(<)" "marks t"] by (metis bt_ok_def)
  then show ?thesis by (simp add: sorted_wrt_map)
qed

lemma set_left_part: "length fs = length ks \<Longrightarrow> f \<in> set fs \<Longrightarrow> set f \<subseteq> set (left_part fs ks)"
  by (induction fs ks rule: list_induct2') (auto simp: left_part_def)

lemma set_right_part: "length fs = length ks \<Longrightarrow> f \<in> set fs \<Longrightarrow> set f \<subseteq> set (right_part ks fs)"
  by (induction fs ks rule: list_induct2') (auto simp: right_part_def)

lemma bt_ok_child:
  assumes "bt_ok hl (TNode ks ts)" "i \<le> length ks"
  shows "bt_ok hl (ts ! i)"
proof -
  have l: "length ts = Suc (length ks)" using assms(1) by (simp add: bt_ok_def)
  have "ts ! i \<in> set ts" using l assms(2) by simp
  then show ?thesis
    using assms(1) marks_split [OF l assms(2)] by (auto simp: bt_ok_def sorted_wrt_append)
qed

text \<open>The entries of the other children have other names.\<close>

lemma entries_around:
  fixes name :: str
  assumes ok: "bt_ok hl (TNode ks ts)"
  defines "i \<equiv> find_child_index ks name"
  shows "bt_entries (TNode ks ts) = concat (map bt_entries (take i ts)) @ bt_entries (ts ! i) @ concat (map bt_entries (drop (Suc i) ts))"
    and "e \<in> set (concat (map bt_entries (take i ts))) \<Longrightarrow> ce_name e < name"
    and "e \<in> set (concat (map bt_entries (drop (Suc i) ts))) \<Longrightarrow> name < ce_name e"
    and "i \<le> length ks"
proof -
  have l: "length ts = Suc (length ks)" and s: "sorted_wrt (<) (marks (TNode ks ts))" using ok by (simp_all add: bt_ok_def)
  show i: "i \<le> length ks" unfolding i_def by (rule find_child_index_props [OF sorted_marks_keys [OF s l]])
  show "bt_entries (TNode ks ts) = concat (map bt_entries (take i ts)) @ bt_entries (ts ! i) @ concat (map bt_entries (drop (Suc i) ts))"
    by (subst node_parts(1) [OF l i]) simp
  note b = child_bounds [OF s l, where name = name, folded i_def]
  have shape: "bt_shape hl t" if "t \<in> set ts" for t using ok that by (simp add: bt_ok_def)
  show "ce_name e < name" if e: "e \<in> set (concat (map bt_entries (take i ts)))"
  proof -
    obtain t where t: "t \<in> set (take i ts)" "e \<in> set (bt_entries t)" using e by auto
    have "(ce_name e, 1) \<in> set (marks t)"
      by (rule entries_in_marks [OF shape [OF in_set_takeD [OF t(1)]] t(2)])
    moreover have "set (marks t) \<subseteq> set (left_part (map marks (take i ts)) (take i ks))"
      by (rule set_left_part) (use t(1) i l in auto)
    ultimately have "(ce_name e, 1 :: nat) < (name, 1)" using b(1) by blast
    then show ?thesis by simp
  qed
  show "name < ce_name e" if e: "e \<in> set (concat (map bt_entries (drop (Suc i) ts)))"
  proof -
    obtain t where t: "t \<in> set (drop (Suc i) ts)" "e \<in> set (bt_entries t)" using e by auto
    have "(ce_name e, 1) \<in> set (marks t)"
      by (rule entries_in_marks [OF shape [OF in_set_dropD [OF t(1)]] t(2)])
    moreover have "set (marks t) \<subseteq> set (right_part (drop i ks) (map marks (drop (Suc i) ts)))"
      by (rule set_right_part) (use t(1) i l in auto)
    ultimately have "(name, 1 :: nat) < (ce_name e, 1)" using b(2) by blast
    then show ?thesis by simp
  qed
qed

lemma kmap_absent: "\<forall>e\<in>set es. ce_name e \<noteq> name \<Longrightarrow> kmap ce_name es name = None"
  by (auto simp: kmap_None_iff)

lemma kmap_child:
  assumes "bt_ok hl (TNode ks ts)"
  shows "kmap ce_name (bt_entries (TNode ks ts)) name = kmap ce_name (bt_entries (ts ! find_child_index ks name)) name"
proof -
  note a = entries_around [OF assms, where name = name]
  have "kmap ce_name (concat (map bt_entries (take (find_child_index ks name) ts))) name = None"
    by (rule kmap_absent) (use a(2) in force)
  moreover have "kmap ce_name (concat (map bt_entries (drop (Suc (find_child_index ks name)) ts))) name = None"
    by (rule kmap_absent) (use a(3) in force)
  ultimately have "kmap ce_name (concat (map bt_entries (take (find_child_index ks name) ts))) name = None"
    "kmap ce_name (concat (map bt_entries (drop (Suc (find_child_index ks name)) ts))) name = None" by simp_all
  then show ?thesis unfolding a(1) by (simp add: kmap_append map_add_def split: option.split)
qed

lemma load_node_repr:
  assumes "repr st hl h t"
  obtains node where "load_node include_deleted msg st hl h = Inr node" "node_repr st hl node t"
  using assms
  by (auto simp: repr.simps [of st hl h t] load_node_def store_get_def CURRENT_ENTRY_VERSION_def simp del: res_bind_eq_Inr)

lemma leaf_find_correct:
  assumes "sorted_by ce_name es"
  shows "leaf_find es name = kmap ce_name es name"
  using vec_lookup_kmap [OF assms, of name] by (simp add: leaf_find_def vec_lookup_def)

lemma btree_lookup_correct:
  assumes "repr st hl h t" "bt_ok hl t" "bt_within n t"
  shows "btree_lookup (Suc n) st h name hl include_deleted = Some (Inr (kmap ce_name (bt_entries t) name))"
  using assms
proof (induction n arbitrary: h t)
  case 0
  obtain node where node: "load_node include_deleted ''B-tree root not found'' st hl h = Inr node" "node_repr st hl node t"
    using "0.prems"(1) by (rule load_node_repr)
  then show ?case using "0.prems" entries_sorted [OF "0.prems"(2)] by (cases t) (simp_all add: leaf_find_correct)
next
  case (Suc n)
  obtain node where node: "load_node include_deleted ''B-tree root not found'' st hl h = Inr node" "node_repr st hl node t"
    using Suc.prems(1) by (rule load_node_repr)
  show ?case
  proof (cases t)
    case (TLeaf es)
    then show ?thesis using node entries_sorted [OF Suc.prems(2)] by (simp add: leaf_find_correct)
  next
    case (TNode ks ts)
    let ?i = "find_child_index ks name"
    obtain cs where cs: "node = Internal ks cs" "list_all2 (repr st hl) cs ts" using node(2) by (auto simp: TNode)
    have ok: "bt_ok hl (TNode ks ts)" using Suc.prems(2) by (simp add: TNode)
    then have i: "?i < length ts" using entries_around(4) [OF ok, of name] by (simp add: bt_ok_def)
    have "repr st hl (cs ! ?i) (ts ! ?i)" using cs(2) i by (simp add: list_all2_conv_all_nth)
    moreover have "bt_ok hl (ts ! ?i)" using ok entries_around(4) [OF ok] by (rule bt_ok_child)
    moreover have "bt_within n (ts ! ?i)" using Suc.prems(3) i by (simp add: TNode)
    ultimately show ?thesis
      using Suc.IH kmap_child [OF ok, of name] node(1) cs(1) by (simp add: TNode del: btree_lookup.simps(2) bt_entries.simps)
        (simp add: btree_lookup.simps(2) [of "Suc n"])
  qed
qed

lemma list_children_ok:
  assumes "list_all2 (\<lambda>c t. f c = Some (Inr (g t))) cs ts"
  shows "list_children f cs = Some (Inr (concat (map g ts)))"
  using assms by (induction rule: list_all2_induct) simp_all

lemma btree_list_correct:
  assumes "repr st hl h t" "bt_within n t"
  shows "btree_list (Suc n) st h hl include_deleted = Some (Inr (bt_entries t))"
  using assms
proof (induction n arbitrary: h t)
  case 0
  obtain node where "load_node include_deleted ''B-tree root not found'' st hl h = Inr node" "node_repr st hl node t"
    using "0.prems"(1) by (rule load_node_repr)
  then show ?case using "0.prems" by (cases t) simp_all
next
  case (Suc n)
  obtain node where node: "load_node include_deleted ''B-tree root not found'' st hl h = Inr node" "node_repr st hl node t"
    using Suc.prems(1) by (rule load_node_repr)
  show ?case
  proof (cases t)
    case (TLeaf es)
    then show ?thesis using node by simp
  next
    case (TNode ks ts)
    obtain cs where cs: "node = Internal ks cs" "list_all2 (repr st hl) cs ts" using node(2) by (auto simp: TNode)
    have "list_all2 (\<lambda>c t. btree_list (Suc n) st c hl include_deleted = Some (Inr (bt_entries t))) cs ts"
      using cs(2) Suc.IH Suc.prems(2) by (auto simp: TNode list_all2_conv_all_nth simp del: btree_list.simps)
    from list_children_ok [OF this] show ?thesis
      using node(1) cs(1) by (simp add: TNode btree_list.simps(2) [of "Suc n"] del: btree_list.simps)
  qed
qed

end
