(* ===== verification/BTree_Insert.thy ===== *)
theory BTree_Insert
  imports BTree_Correct
begin

text \<open>
  Insertion into the directory B-tree: the trees a successful insertion leaves, the nodes it writes, and that the
  variant which collects its writes in a batch and the one which writes node by node compute the same.
\<close>

section \<open>What an insertion leaves\<close>

lemma interleave_splice:
  assumes "length ks1 = length fs1" "length ks2 = length fs2" "length gs = Suc (length js)"
  shows "interleave (fs1 @ gs @ fs2) (ks1 @ js @ ks2) = left_part fs1 ks1 @ interleave gs js @ right_part ks2 fs2"
proof -
  obtain g gs' where gs: "gs = g # gs'" using assms(3) by (cases gs) auto
  have l: "length gs' = length js" using assms(3) by (simp add: gs)
  have "interleave (fs1 @ g # (gs' @ fs2)) (ks1 @ (js @ ks2)) = left_part fs1 ks1 @ g @ right_part (js @ ks2) (gs' @ fs2)"
    by (rule interleave_split) (use assms l in simp_all)
  then show ?thesis using l by (simp add: gs right_part_append interleave_right)
qed

lemma interleave_cut:
  assumes "length fs = Suc (length ks)" "m < length ks"
  shows "interleave fs ks = interleave (take (Suc m) fs) (take m ks) @ (ks ! m, 0) # interleave (drop (Suc m) fs) (drop (Suc m) ks)"
  using assms
proof (induction fs ks arbitrary: m rule: interleave.induct)
  case (1 f fs k ks)
  then show ?case by (cases m) simp_all
qed simp_all

lemma search_between:
  assumes "sorted_wrt (<) ks" "i \<le> length ks"
    and "\<And>j. j < i \<Longrightarrow> ks ! j < k" "\<And>j. i \<le> j \<Longrightarrow> j < length ks \<Longrightarrow> k < ks ! j"
  shows "search_key id k ks = Inl i"
proof -
  have s: "sorted_by id ks" using assms(1) by simp
  then show ?thesis
  proof (cases rule: search_key_cases [of id ks k])
    case (Found j)
    then have "ks ! j \<noteq> k" using assms(3) [of j] assms(4) [of j] by (cases "j < i") auto
    then show ?thesis using Found by simp
  next
    case (Missing j)
    have "j = i"
    proof (rule linorder_cases [of j i])
      assume "j < i"
      then show ?thesis using assms(2) assms(3) [of j] Missing(4) [of j] by auto
    next
      assume "i < j"
      then show ?thesis using assms(4) [of i] Missing(2) Missing(3) [of i] by auto
    qed simp
    then show ?thesis using Missing by simp
  qed
qed

text \<open>Every entry that is not deleted is kept.\<close>

definition keeps :: "dir_store \<Rightarrow> dir_store \<Rightarrow> bool" where
  "keeps st st' \<longleftrightarrow> (\<forall>k v d. st k = Some (False, v, d) \<longrightarrow> st' k = Some (False, v, d))"

definition holds :: "dir_store \<Rightarrow> write_batch \<Rightarrow> bool" where
  "holds st bs \<longleftrightarrow> (\<forall>(k, d)\<in>set bs. st k = Some (False, CURRENT_ENTRY_VERSION, d))"

lemma holds_simps [simp]:
  "holds st []" "holds st ((k, d) # bs) \<longleftrightarrow> st k = Some (False, CURRENT_ENTRY_VERSION, d) \<and> holds st bs"
  "holds st (bs @ bs') \<longleftrightarrow> holds st bs \<and> holds st bs'"
  by (simp_all add: holds_def ball_Un)

lemma repr_mono_step:
  assumes "\<And>node. node_repr st hl node t \<Longrightarrow> node_repr st' hl node t" and "keeps st st'" and "repr st hl h t"
  shows "repr st' hl h t"
  using assms unfolding repr.simps [of _ hl] keeps_def by blast

lemma node_repr_mono: "keeps st st' \<Longrightarrow> node_repr st hl node t \<Longrightarrow> node_repr st' hl node t"
proof (induction t arbitrary: node)
  case (TNode ks ts)
  obtain cs where cs: "node = Internal ks cs" "list_all2 (repr st hl) cs ts" using TNode.prems(2) by auto
  have "list_all2 (repr st' hl) cs ts"
    using cs(2)
  proof (rule list.rel_mono_strong)
    show "repr st' hl h t" if "t \<in> set ts" "repr st hl h t" for h t
      by (rule repr_mono_step [OF TNode.IH [OF that(1) TNode.prems(1)] TNode.prems(1) that(2)])
  qed
  then show ?case using cs(1) by simp
qed simp

lemma repr_mono: "keeps st st' \<Longrightarrow> repr st hl h t \<Longrightarrow> repr st' hl h t"
  by (rule repr_mono_step [OF node_repr_mono])

text \<open>Trees that together hold the entries of \<open>t\<close> with \<open>e\<close> inserted or replaced, with the keys that separate them.\<close>

definition upsert_forest :: "nat \<Rightarrow> nat \<Rightarrow> child_entry \<Rightarrow> btree \<Rightarrow> str list \<Rightarrow> btree list \<Rightarrow> bool" where
  "upsert_forest hl n e t ks ts \<longleftrightarrow>
    length ts = Suc (length ks) \<and> (\<forall>t'\<in>set ts. bt_shape hl t' \<and> bt_within n t') \<and> (\<forall>k\<in>set ks. key_ok k) \<and>
    sorted_wrt (<) (interleave (map marks ts) ks) \<and> interleave (map marks ts) ks \<noteq> [] \<and>
    hd (interleave (map marks ts) ks) \<in> insert (ce_name e, 1) (set (marks t)) \<and>
    last (interleave (map marks ts) ks) \<in> insert (ce_name e, 1) (set (marks t)) \<and>
    set (concat (map bt_entries ts)) = insert e {x \<in> set (bt_entries t). ce_name x \<noteq> ce_name e} \<and>
    (leaves_filled t \<longrightarrow> (\<forall>t'\<in>set ts. bt_full t'))"

lemma sorted_bounds:
  assumes "sorted_wrt (<) (F :: mark list)" "x \<in> set F"
  shows "hd F \<le> x" "x \<le> last F"
proof -
  show "hd F \<le> x" using assms by (cases F) (auto intro: less_imp_le)
  obtain G y where F: "F = G @ [y]" using assms(2) by (cases F rule: rev_cases) auto
  show "x \<le> last F" using assms unfolding F by (auto simp: sorted_wrt_append intro: less_imp_le)
qed

lemma leaf_upsert_eq: "fst (leaf_upsert e es) = vec_upsert ce_name e es"
  by (simp add: leaf_upsert_def vec_upsert_def split: sum.splits)

lemma length_vec_upsert: "length (vec_upsert key e es) \<le> Suc (length es)"
  by (simp add: vec_upsert_def split: sum.splits)

lemma leaf_upsert_props:
  assumes ok: "bt_ok hl (TLeaf es)" and e: "dir_entry_ok hl e"
  defines "es1 \<equiv> fst (leaf_upsert e es)"
  shows "sorted_wrt (<) (map (\<lambda>e. (ce_name e, 1 :: nat)) es1)" "es1 \<noteq> []" "length es1 \<le> 41"
    "set es1 = insert e {x \<in> set es. ce_name x \<noteq> ce_name e}" "\<forall>x\<in>set es1. dir_entry_ok hl x"
    "x \<in> set es1 \<Longrightarrow> (ce_name x, 1) \<in> insert (ce_name e, 1) (set (marks (TLeaf es)))"
proof -
  have s: "sorted_by ce_name es" using entries_sorted [OF ok] by simp
  have es: "\<forall>x\<in>set es. dir_entry_ok hl x" "length es \<le> 40" using ok by (simp_all add: bt_ok_def)
  show set: "set es1 = insert e {x \<in> set es. ce_name x \<noteq> ce_name e}"
    unfolding es1_def leaf_upsert_eq by (rule set_vec_upsert [OF s])
  then show "es1 \<noteq> []" by auto
  have "sorted_by ce_name es1"
    unfolding es1_def leaf_upsert_eq using vec_upsert_correct [OF s] by blast
  then show "sorted_wrt (<) (map (\<lambda>e. (ce_name e, 1 :: nat)) es1)" by (simp add: sorted_wrt_map)
  show "length es1 \<le> 41"
    using length_vec_upsert [of ce_name e es] es(2) unfolding es1_def leaf_upsert_eq by simp
  show "\<forall>x\<in>set es1. dir_entry_ok hl x" using es(1) e unfolding set by simp
  show "(ce_name x, 1) \<in> insert (ce_name e, 1) (set (marks (TLeaf es)))" if "x \<in> set es1"
    using that unfolding set by auto
qed

lemma forest_leaf:
  assumes ok: "bt_ok hl (TLeaf es)" and e: "dir_entry_ok hl e" and f: "\<not> leaf_is_full (fst (leaf_upsert e es))"
  shows "upsert_forest hl n e (TLeaf es) [] [TLeaf (fst (leaf_upsert e es))]"
proof -
  define es1 where "es1 = fst (leaf_upsert e es)"
  note p = leaf_upsert_props [OF ok e, folded es1_def]
  have "hd es1 \<in> set es1" "last es1 \<in> set es1" using p(2) by simp_all
  note hl = p(6) [OF this(1)] p(6) [OF this(2)]
  have "length es1 \<le> 40" using f by (simp add: leaf_is_full_def BTREE_MAX_LEAF_ENTRIES_def es1_def)
  then show ?thesis
    unfolding es1_def [symmetric] upsert_forest_def using p(1,2,4,5) hl by (simp add: hd_map last_map)
qed

lemma forest_leaf_split:
  assumes ok: "bt_ok hl (TLeaf es)" and e: "dir_entry_ok hl e" and f: "leaf_is_full (fst (leaf_upsert e es))"
    and sp: "leaf_split (fst (leaf_upsert e es)) = (left, k, right)"
  shows "upsert_forest hl n e (TLeaf es) [k] [TLeaf left, TLeaf right]"
proof -
  define es1 where "es1 = fst (leaf_upsert e es)"
  note p = leaf_upsert_props [OF ok e, folded es1_def]
  have len: "40 \<le> length es1" using f by (simp add: leaf_is_full_def BTREE_MAX_LEAF_ENTRIES_def es1_def)
  define m where "m = length es1 div 2"
  have lr: "left = take m es1" "right = drop m es1" "k = ce_name (es1 ! m)"
    using sp by (simp_all add: leaf_split_def Let_def es1_def [symmetric] m_def)
  have m: "0 < m" "m < length es1" "m \<le> 20" "length es1 - m \<le> 40" using len p(3) by (simp_all add: m_def)
  obtain y ys where r: "right = y # ys" using m(2) lr(2) by (metis Cons_nth_drop_Suc)
  have es1: "es1 = left @ right" by (simp add: lr)
  have l: "left \<noteq> []" using m p(2) by (simp add: lr(1))
  have "hd left \<in> set es1" "last right \<in> set es1" unfolding es1 using l r by simp_all
  note hls = p(6) [OF this(1)] p(6) [OF this(2)]
  have "es1 ! m = right ! 0" using m(2) by (simp add: lr(2))
  then have k: "k = ce_name y" by (simp add: lr(3) r)
  have "dir_entry_ok hl y" using p(5) unfolding es1 r by simp
  then have "key_ok k" by (simp add: k key_ok_def dir_entry_ok_def child_entry_ok_def)
  moreover have "sorted_wrt (<) (map (\<lambda>e. (ce_name e, 1 :: nat)) left @ (k, 0) # map (\<lambda>e. (ce_name e, 1)) right)"
    using p(1) unfolding es1 r k by (auto simp: sorted_wrt_append)
  moreover have "length left \<le> 40" "length right \<le> 40" using m by (simp_all add: lr)
  moreover have "set (left @ right) = insert e {x \<in> set es. ce_name x \<noteq> ce_name e}" using p(4) by (simp add: es1)
  moreover have "\<forall>x\<in>set left. dir_entry_ok hl x" "\<forall>x\<in>set right. dir_entry_ok hl x" using p(5) unfolding es1 by simp_all
  ultimately show ?thesis
    unfolding upsert_forest_def using hls l r by (simp add: hd_map last_map split: if_splits)
qed

text \<open>The children and keys of a node with child \<open>i\<close> replaced by a forest.\<close>

definition spliced :: "nat \<Rightarrow> 'a list \<Rightarrow> 'a list \<Rightarrow> nat \<Rightarrow> 'a list" where
  "spliced i xs ys j = take i xs @ ys @ drop j xs"

text \<open>Marks put in the place of the ones between \<open>L\<close> and \<open>R\<close> stay in order, when they begin and end with one
  of the old marks or with a mark that belongs there.\<close>

lemma splice_sorted:
  fixes L M R F :: "mark list"
  assumes old: "sorted_wrt (<) (L @ M @ R)" and F: "sorted_wrt (<) F" "F \<noteq> []"
    and h: "hd F \<in> insert x (set M)" and t: "last F \<in> insert x (set M)"
    and b: "\<And>y. y \<in> set L \<Longrightarrow> y < x" "\<And>y. y \<in> set R \<Longrightarrow> x < y"
  shows "sorted_wrt (<) (L @ F @ R)" "L @ F @ R \<noteq> []"
    "hd (L @ F @ R) \<in> insert x (set (L @ M @ R))" "last (L @ F @ R) \<in> insert x (set (L @ M @ R))"
proof -
  have o: "sorted_wrt (<) L" "sorted_wrt (<) R" "\<And>x y. x \<in> set L \<Longrightarrow> y \<in> set M \<Longrightarrow> x < y"
    "\<And>x y. x \<in> set L \<Longrightarrow> y \<in> set R \<Longrightarrow> x < y" "\<And>x y. x \<in> set M \<Longrightarrow> y \<in> set R \<Longrightarrow> x < y"
    using old by (auto simp: sorted_wrt_append)
  have LF: "y < z" if "y \<in> set L" "z \<in> set F" for y z
  proof -
    have "y < hd F" using h b(1) [OF that(1)] o(3) [OF that(1)] by (metis insertE)
    then show ?thesis using sorted_bounds(1) [OF F(1) that(2)] by (rule less_le_trans)
  qed
  have FR: "y < z" if "y \<in> set F" "z \<in> set R" for y z
  proof -
    have "last F < z" using t b(2) [OF that(2)] o(5) [OF _ that(2)] by (metis insertE)
    then show ?thesis using sorted_bounds(2) [OF F(1) that(1)] by (rule le_less_trans [rotated])
  qed
  show "sorted_wrt (<) (L @ F @ R)" using o(1,2,4) F(1) LF FR by (auto simp: sorted_wrt_append)
  show "L @ F @ R \<noteq> []" using F(2) by simp
  show "hd (L @ F @ R) \<in> insert x (set (L @ M @ R))" using h F(2) by (cases "L = []") auto
  show "last (L @ F @ R) \<in> insert x (set (L @ M @ R))" using t F(2) by (cases "R = []") auto
qed

lemma forest_node:
  assumes ok: "bt_ok hl (TNode ks ts)" and i: "i = find_child_index ks (ce_name e)"
    and f: "upsert_forest hl n e (ts ! i) js us" and w: "bt_within (Suc n) (TNode ks ts)"
  shows "upsert_forest hl n e (TNode ks ts) (spliced i ks js i) (spliced i ts us (Suc i))"
proof -
  define K where "K = spliced i ks js i"
  define T where "T = spliced i ts us (Suc i)"
  have l: "length ts = Suc (length ks)" and s: "sorted_wrt (<) (marks (TNode ks ts))"
    and sh: "\<forall>t\<in>set ts. bt_shape hl t" "\<forall>k\<in>set ks. key_ok k" using ok by (simp_all add: bt_ok_def)
  note a = entries_around [OF ok, where name = "ce_name e", folded i]
  define L where "L = left_part (map marks (take i ts)) (take i ks)"
  define R where "R = right_part (drop i ks) (map marks (drop (Suc i) ts))"
  note b = child_bounds [OF s l, where name = "ce_name e", folded i, folded L_def R_def]
  note u = f [unfolded upsert_forest_def]
  have old: "marks (TNode ks ts) = L @ marks (ts ! i) @ R" unfolding L_def R_def by (rule marks_split [OF l a(4)])
  have new: "interleave (map marks T) K = L @ interleave (map marks us) js @ R"
    unfolding T_def K_def L_def R_def spliced_def map_append
    by (rule interleave_splice) (use l a(4) u in simp_all)
  have F: "sorted_wrt (<) (interleave (map marks us) js)" "interleave (map marks us) js \<noteq> []"
    "hd (interleave (map marks us) js) \<in> insert (ce_name e, 1) (set (marks (ts ! i)))"
    "last (interleave (map marks us) js) \<in> insert (ce_name e, 1) (set (marks (ts ! i)))" using u by blast+
  note order = splice_sorted [OF s [unfolded old] F b, folded old new]
  have "{x \<in> set (bt_entries (TNode ks ts)). ce_name x \<noteq> ce_name e} =
      set (concat (map bt_entries (take i ts))) \<union> {x \<in> set (bt_entries (ts ! i)). ce_name x \<noteq> ce_name e} \<union>
      set (concat (map bt_entries (drop (Suc i) ts)))"
    unfolding a(1) by (auto simp del: set_concat dest: a(2) a(3))
  moreover have "set (concat (map bt_entries T)) = set (concat (map bt_entries (take i ts))) \<union>
      set (concat (map bt_entries us)) \<union> set (concat (map bt_entries (drop (Suc i) ts)))"
    by (simp add: T_def spliced_def Un_assoc)
  ultimately have ents: "set (concat (map bt_entries T)) = insert e {x \<in> set (bt_entries (TNode ks ts)). ce_name x \<noteq> ce_name e}"
    using u by (simp del: set_concat)
  have "length T = Suc (length K)" using l a(4) u by (simp add: T_def K_def spliced_def)
  moreover have "bt_shape hl t \<and> bt_within n t" if "t \<in> set T" for t
    using that sh(1) u w by (auto simp: T_def spliced_def dest: in_set_takeD in_set_dropD)
  moreover have "key_ok k" if "k \<in> set K" for k
    using that sh(2) u by (auto simp: K_def spliced_def dest: in_set_takeD in_set_dropD)
  moreover have "bt_full t" if "leaves_filled (TNode ks ts)" "t \<in> set T" for t
  proof -
    have full: "\<forall>t\<in>set ts. bt_full t" using that(1) by simp
    then have "leaves_filled (ts ! i)" using l a(4) by (intro full_filled) simp
    then show ?thesis using full u that(2) by (auto simp: T_def spliced_def dest: in_set_takeD in_set_dropD)
  qed
  ultimately have "upsert_forest hl n e (TNode ks ts) K T" unfolding upsert_forest_def using order ents by blast
  then show ?thesis by (simp add: K_def T_def)
qed

text \<open>Such a node is kept whole or cut in two.\<close>

lemma forest_whole:
  assumes f: "upsert_forest hl n e t ks ts" and len: "length ks \<le> 77"
  shows "upsert_forest hl (Suc n) e t [] [TNode ks ts]"
  using f len unfolding upsert_forest_def by simp

lemma forest_cut:
  assumes f: "upsert_forest hl n e t ks ts" and len: "m < length ks" "length ks \<le> 78" "0 < length ks"
  shows "upsert_forest hl (Suc n) e t [ks ! m]
    [TNode (take m ks) (take (Suc m) ts), TNode (drop (Suc m) ks) (drop (Suc m) ts)]"
proof -
  have l: "length (map marks ts) = Suc (length ks)" using f by (simp add: upsert_forest_def)
  have cut: "interleave (map marks ts) ks = interleave (map marks (take (Suc m) ts)) (take m ks) @ (ks ! m, 0) #
      interleave (map marks (drop (Suc m) ts)) (drop (Suc m) ks)"
    using interleave_cut [OF l len(1)] by (simp add: take_map drop_map)
  have "concat (map bt_entries (take (Suc m) ts)) @ concat (map bt_entries (drop (Suc m) ts)) = concat (map bt_entries ts)"
    by (metis append_take_drop_id concat_append map_append)
  then have e: "set (concat (map bt_entries (take (Suc m) ts))) \<union> set (concat (map bt_entries (drop (Suc m) ts))) = set (concat (map bt_entries ts))"
    by (metis set_append)
  show ?thesis
    using f len e unfolding upsert_forest_def cut [symmetric]
    by (auto simp: cut [symmetric] dest: in_set_takeD in_set_dropD simp del: set_concat)
qed

text \<open>Every collected write stands under the hash of its content.\<close>

definition addressed :: "(bytes \<Rightarrow> bytes) \<Rightarrow> write_batch \<Rightarrow> bool" where
  "addressed blake3 bs \<longleftrightarrow> (\<forall>(k, d)\<in>set bs. k = blake3 (lit ''btree:'' @ d))"

lemma addressed_simps [simp]:
  "addressed blake3 []" "addressed blake3 ((k, d) # bs) \<longleftrightarrow> k = blake3 (lit ''btree:'' @ d) \<and> addressed blake3 bs"
  "addressed blake3 (bs @ bs') \<longleftrightarrow> addressed blake3 bs \<and> addressed blake3 bs'"
  by (simp_all add: addressed_def ball_Un)

text \<open>The nodes an insertion writes represent these trees in every store that keeps the old nodes and holds
  the new ones.\<close>

fun result_hashes :: "insert_result \<Rightarrow> bytes list" where
  "result_hashes (Done h d) = [h]"
| "result_hashes (Split lh k rh) = [lh, rh]"

fun result_keys :: "insert_result \<Rightarrow> str list" where
  "result_keys (Done h d) = []"
| "result_keys (Split lh k rh) = [k]"

definition result_repr :: "dir_store \<Rightarrow> nat \<Rightarrow> insert_result \<Rightarrow> btree list \<Rightarrow> bool" where
  "result_repr st hl r ts \<longleftrightarrow> list_all2 (repr st hl) (result_hashes r) ts \<and>
    (\<forall>h d. r = Done h d \<longrightarrow> st h = Some (False, CURRENT_ENTRY_VERSION, d))"

definition insert_post ::
  "(bytes \<Rightarrow> bytes) \<Rightarrow> dir_store \<Rightarrow> nat \<Rightarrow> nat \<Rightarrow> child_entry \<Rightarrow> btree \<Rightarrow> insert_result \<Rightarrow> write_batch \<Rightarrow> bool" where
  "insert_post blake3 st hl n e t r bs \<longleftrightarrow> addressed blake3 bs \<and> (\<forall>h\<in>set (result_hashes r). length h = hl) \<and>
    (\<exists>ts. upsert_forest hl n e t (result_keys r) ts \<and> (\<forall>st'. keeps st st' \<longrightarrow> holds st' bs \<longrightarrow> result_repr st' hl r ts))"

lemma content_hash_ok:
  assumes "\<forall>bs. length (blake3 bs) = 32" "node_ok 32 node"
  obtains data h where "btree_serialize node 32 = Inr data" "btree_content_hash blake3 node 32 Blake3_256 = Inr h"
    "length h = 32" "btree_deserialize data 32 0 = Inr node" "h = blake3 (lit ''btree:'' @ data)"
proof -
  obtain data where d: "btree_serialize node 32 = Inr data" using btree_serialize_ok [OF assms(2)] by blast
  have "btree_deserialize data 32 0 = Inr node" by (rule btree_deserialize_serialize [OF assms(2) d])
  then show ?thesis
    using that [OF d _ _ _ refl] assms(1) by (simp add: btree_content_hash_def d compute_hash_algo_def)
qed

lemma stored_repr:
  assumes "btree_deserialize d hl 0 = Inr node" "length h = hl" "node_repr st hl node t"
    "st h = Some (False, CURRENT_ENTRY_VERSION, d)"
  shows "repr st hl h t"
  using assms by (auto simp: repr.simps [of _ hl])

lemma batch_insert_post:
  assumes b3: "\<forall>bs. length (blake3 bs) = 32" and ok: "node_ok 32 node" and f: "upsert_forest 32 n e t [] [t']"
    and r: "\<And>st'. keeps st st' \<Longrightarrow> holds st' bs \<Longrightarrow> node_repr st' 32 node t'" and a: "addressed blake3 bs"
  shows "\<exists>r bs'. batch_finish_insert blake3 node 32 Blake3_256 (batch @ bs) = Inr (r, batch @ bs') \<and>
    insert_post blake3 st 32 n e t r bs'"
proof -
  obtain data h where d: "btree_serialize node 32 = Inr data" "btree_content_hash blake3 node 32 Blake3_256 = Inr h"
    "length h = 32" "btree_deserialize data 32 0 = Inr node" "h = blake3 (lit ''btree:'' @ data)" using content_hash_ok [OF b3 ok] .
  have "result_repr st' 32 (Done h data) [t']" if st': "keeps st st'" "holds st' (bs @ [(h, data)])" for st'
    using st'(2) r [OF st'(1)] stored_repr [OF d(4,3)] by (simp add: result_repr_def)
  then have "insert_post blake3 st 32 n e t (Done h data) (bs @ [(h, data)])"
    unfolding insert_post_def using f d(3,5) a by fastforce
  then show ?thesis
    by (intro exI [of _ "Done h data"] exI [of _ "bs @ [(h, data)]"])
      (simp add: batch_finish_insert_def batch_node_def d(1,2))
qed

lemma batch_split_post:
  assumes b3: "\<forall>bs. length (blake3 bs) = 32" and ok: "node_ok 32 nl" "node_ok 32 nr"
    and f: "upsert_forest 32 n e t [k] [tl', tr']"
    and r: "\<And>st'. keeps st st' \<Longrightarrow> holds st' bs \<Longrightarrow> node_repr st' 32 nl tl' \<and> node_repr st' 32 nr tr'"
    and a: "addressed blake3 bs"
  shows "\<exists>r bs'. batch_finish_split blake3 nl k nr 32 Blake3_256 (batch @ bs) = Inr (r, batch @ bs') \<and>
    insert_post blake3 st 32 n e t r bs'"
proof -
  obtain dl hl where l: "btree_serialize nl 32 = Inr dl" "btree_content_hash blake3 nl 32 Blake3_256 = Inr hl"
    "length hl = 32" "btree_deserialize dl 32 0 = Inr nl" "hl = blake3 (lit ''btree:'' @ dl)" using content_hash_ok [OF b3 ok(1)] .
  obtain dr hr where d: "btree_serialize nr 32 = Inr dr" "btree_content_hash blake3 nr 32 Blake3_256 = Inr hr"
    "length hr = 32" "btree_deserialize dr 32 0 = Inr nr" "hr = blake3 (lit ''btree:'' @ dr)" using content_hash_ok [OF b3 ok(2)] .
  have "result_repr st' 32 (Split hl k hr) [tl', tr']"
    if st': "keeps st st'" "holds st' (bs @ [(hl, dl), (hr, dr)])" for st'
    using st'(2) r [OF st'(1)] stored_repr [OF l(4,3)] stored_repr [OF d(4,3)] by (simp add: result_repr_def)
  then have "insert_post blake3 st 32 n e t (Split hl k hr) (bs @ [(hl, dl), (hr, dr)])"
    unfolding insert_post_def using f d(3,5) l(3,5) a by fastforce
  then show ?thesis
    by (intro exI [of _ "Split hl k hr"] exI [of _ "bs @ [(hl, dl), (hr, dr)]"])
      (simp add: batch_finish_split_def d(1,2) l(1,2))
qed

lemma leaf_insert_post:
  assumes b3: "\<forall>bs. length (blake3 bs) = 32" and e: "dir_entry_ok 32 e" and ok: "bt_ok 32 (TLeaf es)"
  shows "\<exists>r bs. btree_insert_node_batched blake3 n st (Leaf es) e 32 Blake3_256 batch = Some (Inr (r, batch @ bs)) \<and>
    insert_post blake3 st 32 n e (TLeaf es) r bs"
proof (cases "leaf_is_full (fst (leaf_upsert e es))")
  case False
  note p = leaf_upsert_props [OF ok e]
  have "node_ok 32 (Leaf (fst (leaf_upsert e es)))" using p(3,5) by simp
  from batch_insert_post [OF b3 this forest_leaf [OF ok e False], where bs = "[]" and batch = batch and st = st]
  show ?thesis using False by (simp add: Let_def)
next
  case True
  obtain left k right where sp: "leaf_split (fst (leaf_upsert e es)) = (left, k, right)" by (cases "leaf_split (fst (leaf_upsert e es))")
  note f = forest_leaf_split [OF ok e True sp]
  have "node_ok 32 (Leaf left)" "node_ok 32 (Leaf right)" using f [of 0] by (auto simp: upsert_forest_def)
  from batch_split_post [OF b3 this f, where bs = "[]" and batch = batch and st = st]
  show ?thesis using True sp by (simp add: Let_def)
qed

lemma spliced_repr:
  assumes "list_all2 P cs ts" "list_all2 P hs us"
  shows "list_all2 P (spliced i cs hs j) (spliced i ts us j)"
  using assms unfolding spliced_def by (intro list_all2_appendI list_all2_takeI list_all2_dropI)

lemma spliced_update: "i < length cs \<Longrightarrow> cs[i := h] = spliced i cs [h] (Suc i)"
  by (simp add: spliced_def upd_conv_take_nth_drop)

lemma insert_key_spliced:
  assumes "sorted_wrt (<) (spliced i ks [k] i)" "i \<le> length ks" "i < length cs"
  shows "insert_key k rh ks (cs[i := lh]) = (spliced i ks [k] i, spliced i cs [lh, rh] (Suc i))"
proof -
  have "sorted_wrt (<) (take i ks @ k # drop i ks)" using assms(1) by (simp add: spliced_def)
  then have s: "sorted_wrt (<) (take i ks @ drop i ks)" "\<forall>x\<in>set (take i ks). x < k" "\<forall>x\<in>set (drop i ks). k < x"
    unfolding sorted_wrt_append by simp_all
  have "search_key id k ks = Inl i"
  proof (rule search_between)
    show "sorted_wrt (<) ks" using s(1) by simp
    show "ks ! j < k" if "j < i" for j
      using s(2) that assms(2) nth_mem [of j "take i ks"] by simp
    show "k < ks ! j" if "i \<le> j" "j < length ks" for j
      using s(3) that nth_mem [of "j - i" "drop i ks"] by simp
  qed (rule assms(2))
  then show ?thesis
    using assms(2,3) by (simp add: insert_key_def vec_insert_def spliced_def upd_conv_take_nth_drop min_def)
qed

lemma forest_keys_sorted: "upsert_forest hl n e t ks ts \<Longrightarrow> sorted_wrt (<) ks"
  by (rule sorted_marks_keys [of _ ts]) (simp_all add: upsert_forest_def)

text \<open>An internal node whose child was replaced is kept or split.\<close>

definition finish_node ::
  "(bytes \<Rightarrow> bytes) \<Rightarrow> str list \<Rightarrow> bytes list \<Rightarrow> nat \<Rightarrow> hash_algorithm \<Rightarrow> write_batch \<Rightarrow> (insert_result \<times> write_batch) engine_result" where
  "finish_node blake3 ks cs hl algo batch =
    (if internal_is_full ks then
       (let ((lk, lc), parent_split_key, (rk, rc)) = internal_split ks cs in
        batch_finish_split blake3 (Internal lk lc) parent_split_key (Internal rk rc) hl algo batch)
     else batch_finish_insert blake3 (Internal ks cs) hl algo batch)"

lemma finish_node_post:
  assumes b3: "\<forall>bs. length (blake3 bs) = 32" and f: "upsert_forest 32 n e t ks ts" and len: "length ks \<le> 78"
    and cs: "length cs = Suc (length ks)" "\<forall>c\<in>set cs. length c = 32"
    and r: "\<And>st'. keeps st st' \<Longrightarrow> holds st' bs \<Longrightarrow> list_all2 (repr st' 32) cs ts"
    and a: "addressed blake3 bs"
  shows "\<exists>r bs'. finish_node blake3 ks cs 32 Blake3_256 (batch @ bs) = Inr (r, batch @ bs') \<and> insert_post blake3 st 32 (Suc n) e t r bs'"
proof (cases "internal_is_full ks")
  case False
  have k: "\<forall>k\<in>set ks. key_ok k" using f by (simp add: upsert_forest_def)
  have "length ks \<le> 77" using False by (simp add: internal_is_full_def BTREE_MAX_INTERNAL_KEYS_def)
  note w = forest_whole [OF f this]
  have "node_ok 32 (Internal ks cs)" using cs k len by simp
  from batch_insert_post [OF b3 this w, where bs = bs and batch = batch and st = st] r a
  show ?thesis using False by (simp add: finish_node_def)
next
  case True
  define m where "m = length ks div 2"
  have k: "\<forall>k\<in>set ks. key_ok k" using f by (simp add: upsert_forest_def)
  have "77 \<le> length ks" using True by (simp add: internal_is_full_def BTREE_MAX_INTERNAL_KEYS_def)
  then have m: "m < length ks" "0 < length ks" unfolding m_def by linarith+
  note w = forest_cut [OF f m(1) len m(2)]
  have ok: "node_ok 32 (Internal (take m ks) (take (Suc m) cs))" "node_ok 32 (Internal (drop (Suc m) ks) (drop (Suc m) cs))"
    using cs k len m by (auto dest: in_set_takeD in_set_dropD)
  have "node_repr st' 32 (Internal (take m ks) (take (Suc m) cs)) (TNode (take m ks) (take (Suc m) ts)) \<and>
      node_repr st' 32 (Internal (drop (Suc m) ks) (drop (Suc m) cs)) (TNode (drop (Suc m) ks) (drop (Suc m) ts))"
    if "keeps st st'" "holds st' bs" for st'
    using r [OF that] by (simp add: list_all2_takeI list_all2_dropI)
  from batch_split_post [OF b3 ok w this a, where batch = batch]
  show ?thesis using True by (simp add: finish_node_def internal_split_def Let_def m_def)
qed

lemma node_insert_step:
  assumes b3: "\<forall>bs. length (blake3 bs) = 32" and ok: "bt_ok 32 (TNode ks ts)" and w: "bt_within (Suc n) (TNode ks ts)"
    and cs: "list_all2 (repr st 32) cs ts" and i: "i = find_child_index ks (ce_name e)"
    and child: "load_node False ''B-tree child not found'' st 32 (cs ! i) = Inr c"
    and call: "btree_insert_node_batched blake3 n st c e 32 Blake3_256 batch = Some (Inr (r, batch @ bs))"
    and post: "insert_post blake3 st 32 n e (ts ! i) r bs"
  shows "\<exists>r bs. btree_insert_node_batched blake3 (Suc n) st (Internal ks cs) e 32 Blake3_256 batch = Some (Inr (r, batch @ bs)) \<and>
    insert_post blake3 st 32 (Suc n) e (TNode ks ts) r bs"
proof -
  obtain us where f: "upsert_forest 32 n e (ts ! i) (result_keys r) us"
    and r: "\<And>st'. keeps st st' \<Longrightarrow> holds st' bs \<Longrightarrow> result_repr st' 32 r us" and h: "\<forall>h\<in>set (result_hashes r). length h = 32"
    and a: "addressed blake3 bs" using post by (auto simp: insert_post_def)
  define K where "K = spliced i ks (result_keys r) i"
  define T where "T = spliced i ts us (Suc i)"
  define C where "C = spliced i cs (result_hashes r) (Suc i)"
  have F: "upsert_forest 32 n e (TNode ks ts) K T" unfolding K_def T_def by (rule forest_node [OF ok i f w])
  have len: "length ks \<le> 77" "length cs = Suc (length ks)"
    using ok list_all2_lengthD [OF cs] by (simp_all add: bt_ok_def)
  have il: "i \<le> length ks" unfolding i by (rule entries_around(4) [OF ok])
  have C: "list_all2 (repr st' 32) C T" if "keeps st st'" "holds st' bs" for st'
    unfolding C_def T_def
    by (rule spliced_repr) (use cs r [OF that] repr_mono [OF that(1)] in \<open>auto simp: result_repr_def elim: list_all2_mono\<close>)
  have "\<forall>c\<in>set cs. length c = 32" using cs by (auto simp: repr.simps [of _ 32] list_all2_conv_all_nth in_set_conv_nth)
  then have C32: "\<forall>c\<in>set C. length c = 32" using h by (auto simp: C_def spliced_def dest: in_set_takeD in_set_dropD)
  have CK: "length C = Suc (length K)" using len il by (cases r) (simp_all add: C_def K_def spliced_def)
  show ?thesis
  proof (cases r)
    case (Done h d)
    have K: "K = ks" by (simp add: K_def Done spliced_def)
    have "node_ok 32 (Internal ks C)" using CK C32 F len(1) by (simp add: K upsert_forest_def)
    from batch_insert_post [OF b3 this forest_whole [OF F [unfolded K] len(1)], where bs = bs and batch = batch and st = st] C a
    show ?thesis using call child i Done il len(2) by (simp add: C_def spliced_update Let_def)
  next
    case (Split lh sk rh)
    have "length K \<le> 78" using len(1) il by (simp add: K_def Split spliced_def)
    note fin = finish_node_post [OF b3 F this CK C32 C a, where batch = batch]
    have "insert_key sk rh ks (cs[i := lh]) = (K, C)"
      using insert_key_spliced [of i ks sk cs rh lh] forest_keys_sorted [OF F] il len(2) by (simp add: K_def C_def Split)
    then have "btree_insert_node_batched blake3 (Suc n) st (Internal ks cs) e 32 Blake3_256 batch =
        Some (finish_node blake3 K C 32 Blake3_256 (batch @ bs))"
      using call child i Split by (simp add: finish_node_def Let_def case_prod_unfold)
    then show ?thesis using fin by simp
  qed
qed

lemma insert_node_correct:
  assumes b3: "\<forall>bs. length (blake3 bs) = 32" and e: "dir_entry_ok 32 e"
  shows "bt_ok 32 t \<Longrightarrow> bt_within n t \<Longrightarrow> node_repr st 32 node t \<Longrightarrow>
    \<exists>r bs. btree_insert_node_batched blake3 n st node e 32 Blake3_256 batch = Some (Inr (r, batch @ bs)) \<and>
      insert_post blake3 st 32 n e t r bs"
proof (induction n arbitrary: t node)
  case 0
  then obtain es where "t = TLeaf es" "node = Leaf es" by (cases t) auto
  then show ?case using leaf_insert_post [OF b3 e] 0 by simp
next
  case (Suc n)
  show ?case
  proof (cases t)
    case (TLeaf es)
    then show ?thesis using leaf_insert_post [OF b3 e] Suc.prems by simp
  next
    case (TNode ks ts)
    define i where "i = find_child_index ks (ce_name e)"
    obtain cs where cs: "node = Internal ks cs" "list_all2 (repr st 32) cs ts" using Suc.prems(3) TNode by auto
    have ok: "bt_ok 32 (TNode ks ts)" and w: "bt_within (Suc n) (TNode ks ts)" using Suc.prems TNode by simp_all
    have i: "i \<le> length ks" unfolding i_def by (rule entries_around(4) [OF ok])
    have len: "length ts = Suc (length ks)" using ok by (simp add: bt_ok_def)
    have "repr st 32 (cs ! i) (ts ! i)" using cs(2) i len by (simp add: list_all2_conv_all_nth)
    then obtain c where c: "load_node False ''B-tree child not found'' st 32 (cs ! i) = Inr c" "node_repr st 32 c (ts ! i)"
      using load_node_repr by blast
    have "bt_within n (ts ! i)" using w i len by simp
    then obtain r bs where "btree_insert_node_batched blake3 n st c e 32 Blake3_256 batch = Some (Inr (r, batch @ bs))"
      "insert_post blake3 st 32 n e (ts ! i) r bs" using Suc.IH [OF bt_ok_child [OF ok i] _ c(2)] by blast
    from node_insert_step [OF b3 ok w cs(2) i_def c(1) this] show ?thesis by (simp add: TNode cs(1))
  qed
qed

end
