(* ===== verification/BTree_Update.thy ===== *)
theory BTree_Update
  imports BTree_Insert
begin

text \<open>
  The operations of the directory B-tree on the sorted list of directory entries: insertion puts an entry in its
  place, deletion takes one out, and the two implementations of insertion agree.
\<close>

section \<open>Insertion at the root\<close>

definition no_clash :: "write_batch \<Rightarrow> dir_store \<Rightarrow> bool" where
  "no_clash bs st \<longleftrightarrow> (\<forall>(k, d)\<in>set bs. (\<forall>v d'. st k = Some (False, v, d') \<longrightarrow> v = CURRENT_ENTRY_VERSION \<and> d' = d) \<and>
    (\<forall>(k', d')\<in>set bs. k' = k \<longrightarrow> d' = d))"

lemma flush_batch_simps [simp]:
  "flush_batch [] st = st" "flush_batch (bs @ bs') st = flush_batch bs' (flush_batch bs st)"
  "flush_batch ((k, d) # bs) st = flush_batch bs (store_put k d st)"
  by (simp_all add: flush_batch_def)

lemma flush_batch_at:
  "flush_batch bs st k = st k \<and> k \<notin> fst ` set bs \<or> (\<exists>d. (k, d) \<in> set bs \<and> flush_batch bs st k = Some (False, CURRENT_ENTRY_VERSION, d))"
proof (induction bs arbitrary: st)
  case (Cons b bs)
  obtain k' d' where b: "b = (k', d')" by (cases b)
  have st: "store_put k' d' st k = (if k = k' then Some (False, CURRENT_ENTRY_VERSION, d') else st k)"
    by (simp add: store_put_def)
  show ?case
    using Cons.IH [of "store_put k' d' st"] unfolding b flush_batch_simps st
    by (cases "k = k'") (auto simp del: fun_upd_apply)
qed simp

lemma no_clash_flush:
  assumes "no_clash bs st"
  shows "keeps st (flush_batch bs st)" "holds (flush_batch bs st) bs"
proof -
  show "keeps st (flush_batch bs st)"
    unfolding keeps_def
  proof (intro allI impI)
    fix k v d
    assume st: "st k = Some (False, v, d)"
    show "flush_batch bs st k = Some (False, v, d)"
      using flush_batch_at [of bs st k]
    proof (elim disjE exE conjE)
      fix d' assume "(k, d') \<in> set bs" "flush_batch bs st k = Some (False, CURRENT_ENTRY_VERSION, d')"
      then show ?thesis using assms st by (auto simp: no_clash_def)
    qed (use st in simp)
  qed
  show "holds (flush_batch bs st) bs"
    unfolding holds_def
  proof (intro ballI, clarify)
    fix k d
    assume kd: "(k, d) \<in> set bs"
    then have "k \<in> fst ` set bs" by force
    then obtain d' where "(k, d') \<in> set bs" "flush_batch bs st k = Some (False, CURRENT_ENTRY_VERSION, d')"
      using flush_batch_at [of bs st k] by blast
    moreover have "d' = d" using assms kd calculation(1) by (auto simp: no_clash_def)
    ultimately show "flush_batch bs st k = Some (False, CURRENT_ENTRY_VERSION, d)" by simp
  qed
qed

text \<open>The tree at a hash, with the depth a bound allows.\<close>

definition tree_at :: "dir_store \<Rightarrow> nat \<Rightarrow> bytes \<Rightarrow> btree \<Rightarrow> bool" where
  "tree_at st n h t \<longleftrightarrow> repr st 32 h t \<and> bt_ok 32 t \<and> bt_within n t"

lemma bt_within_Suc: "bt_within n t \<Longrightarrow> bt_within (Suc n) t"
  by (induction n t rule: bt_within.induct) auto

lemma forest_single:
  assumes "upsert_forest hl n e t [] [t']" "bt_ok hl t"
  shows "bt_ok hl t'" "bt_within n t'" "bt_entries t' = vec_upsert ce_name e (bt_entries t)" "leaves_filled t \<Longrightarrow> leaves_filled t'"
proof -
  show "leaves_filled t'" if "leaves_filled t" using that assms(1) by (simp add: upsert_forest_def full_filled)
  show ok: "bt_ok hl t'" and "bt_within n t'" using assms(1) by (simp_all add: upsert_forest_def bt_ok_def)
  note s = entries_sorted [OF assms(2)]
  show "bt_entries t' = vec_upsert ce_name e (bt_entries t)"
  proof (rule sorted_by_set_eq [OF entries_sorted [OF ok]])
    show "sorted_by ce_name (vec_upsert ce_name e (bt_entries t))" using vec_upsert_correct [OF s] by blast
    show "set (bt_entries t') = set (vec_upsert ce_name e (bt_entries t))"
      using assms(1) set_vec_upsert [OF s] by (simp add: upsert_forest_def)
  qed
qed

lemma insert_writes_post:
  assumes b3: "\<forall>bs. length (blake3 bs) = 32" and e: "dir_entry_ok 32 e" and ok: "bt_ok 32 t" "bt_within n t"
    and root: "btree_deserialize root_data 32 0 = Inr node" "node_repr st 32 node t"
  shows "\<exists>h d bs t'. btree_insert_writes blake3 n root_data e 32 Blake3_256 st = Some (Inr (h, d, bs)) \<and>
    addressed blake3 bs \<and> bt_ok 32 t' \<and> bt_within (Suc n) t' \<and> bt_entries t' = vec_upsert ce_name e (bt_entries t) \<and>
    (leaves_filled t \<longrightarrow> leaves_filled t') \<and>
    (\<forall>st'. keeps st st' \<longrightarrow> holds st' bs \<longrightarrow> repr st' 32 h t' \<and> st' h = Some (False, CURRENT_ENTRY_VERSION, d))"
proof -
  obtain r bs where call: "btree_insert_node_batched blake3 n st node e 32 Blake3_256 [] = Some (Inr (r, bs))"
    and post: "insert_post blake3 st 32 n e t r bs" using insert_node_correct [OF b3 e ok root(2), where batch = "[]"] by auto
  then obtain ts where f: "upsert_forest 32 n e t (result_keys r) ts" and a: "addressed blake3 bs"
    and rr: "\<And>st'. keeps st st' \<Longrightarrow> holds st' bs \<Longrightarrow> result_repr st' 32 r ts" and h: "\<forall>h\<in>set (result_hashes r). length h = 32"
    by (auto simp: insert_post_def)
  show ?thesis
  proof (cases r)
    case (Done hash data)
    then obtain t' where ts: "ts = [t']" using f by (auto simp: upsert_forest_def length_Suc_conv)
    note s = forest_single [OF f [unfolded Done ts, simplified] ok(1)]
    have "btree_insert_writes blake3 n root_data e 32 Blake3_256 st = Some (Inr (hash, data, bs))"
      using call root(1) by (simp add: btree_insert_writes_def Done)
    moreover have "repr st' 32 hash t' \<and> st' hash = Some (False, CURRENT_ENTRY_VERSION, data)"
      if "keeps st st'" "holds st' bs" for st' using rr [OF that] by (simp add: Done ts result_repr_def)
    ultimately show ?thesis using a s bt_within_Suc [OF s(2)] by blast
  next
    case (Split lh k rh)
    let ?root = "Internal [k] [lh, rh]"
    have F: "upsert_forest 32 (Suc n) e t [] [TNode [k] ts]" using forest_whole [OF f] Split by simp
    have "node_ok 32 ?root" using h f by (simp add: Split upsert_forest_def)
    from content_hash_ok [OF b3 this] obtain d hash where d: "btree_serialize ?root 32 = Inr d"
      "btree_content_hash blake3 ?root 32 Blake3_256 = Inr hash" "length hash = 32" "btree_deserialize d 32 0 = Inr ?root"
      "hash = blake3 (lit ''btree:'' @ d)" .
    have "btree_insert_writes blake3 n root_data e 32 Blake3_256 st = Some (Inr (hash, d, bs @ [(hash, d)]))"
      using call root(1) d(1,2) by (simp add: btree_insert_writes_def Split batch_node_def)
    moreover have "addressed blake3 (bs @ [(hash, d)])" using a d(5) by simp
    moreover have "repr st' 32 hash (TNode [k] ts) \<and> st' hash = Some (False, CURRENT_ENTRY_VERSION, d)" if "keeps st st'" "holds st' (bs @ [(hash, d)])" for st'
      using that rr [OF that(1)] stored_repr [OF d(4,3), of st' "TNode [k] ts"] by (simp add: Split result_repr_def)
    ultimately show ?thesis using forest_single [OF F ok(1)] by blast
  qed
qed

text \<open>C4: Inserting a directory entry into a B-tree directory. Let the root bytes decode to a node of a well-formed
  tree of depth at most \<open>n\<close> (node sizes within bounds, entries and separator keys in search order), let the entry
  have a valid name and a 32-byte hash, and let \<^verbatim>\<open>blake3\<close> return 32 bytes. Then the insertion succeeds: it collects
  writes, each under the hash of its content, and flushes them. When no written key clashes with another node, the
  new root is the root of a well-formed tree one level deeper at most, whose listing is the old listing with the
  entry inserted or replaced in name order, and whose lookups give the entry for its name and the old answer for
  every other name. A tree in which no leaf below the root is empty stays one.\<close>
theorem btree_insert_correct:
  assumes "\<forall>bs. length (blake3 bs) = 32" and "dir_entry_ok 32 e" and "tree_at st n root t"
    and "st root = Some (False, CURRENT_ENTRY_VERSION, root_data)"
  shows "\<exists>h d bs. btree_insert_writes blake3 n root_data e 32 Blake3_256 st = Some (Inr (h, d, bs)) \<and>
    btree_insert_batched blake3 n root_data e 32 Blake3_256 st = Some (Inr (h, d), flush_batch bs st) \<and>
    addressed blake3 bs \<and>
    (no_clash bs st \<longrightarrow>
      (\<exists>t'. tree_at (flush_batch bs st) (Suc n) h t' \<and> bt_entries t' = vec_upsert ce_name e (bt_entries t) \<and>
        (leaves_filled t \<longrightarrow> leaves_filled t')) \<and>
      flush_batch bs st h = Some (False, CURRENT_ENTRY_VERSION, d) \<and>
      btree_list (Suc (Suc n)) (flush_batch bs st) h 32 False = Some (Inr (vec_upsert ce_name e (bt_entries t))) \<and>
      (\<forall>name. btree_lookup (Suc (Suc n)) (flush_batch bs st) h name 32 False =
        (if name = ce_name e then Some (Inr (Some e)) else btree_lookup (Suc n) st root name 32 False)))"
proof -
  have t: "repr st 32 root t" "bt_ok 32 t" "bt_within n t" using assms(3) by (simp_all add: tree_at_def)
  obtain node where node: "btree_deserialize root_data 32 0 = Inr node" "node_repr st 32 node t"
    using t(1) assms(4) by (auto simp: repr.simps [of st 32])
  obtain h d bs t' where call: "btree_insert_writes blake3 n root_data e 32 Blake3_256 st = Some (Inr (h, d, bs))"
    and a: "addressed blake3 bs" and t': "bt_ok 32 t'" "bt_within (Suc n) t'" "bt_entries t' = vec_upsert ce_name e (bt_entries t)"
      "leaves_filled t \<longrightarrow> leaves_filled t'"
    and r: "\<And>st'. keeps st st' \<Longrightarrow> holds st' bs \<Longrightarrow> repr st' 32 h t' \<and> st' h = Some (False, CURRENT_ENTRY_VERSION, d)"
    using insert_writes_post [OF assms(1,2) t(2,3) node] by blast
  have "(\<exists>t'. tree_at (flush_batch bs st) (Suc n) h t' \<and> bt_entries t' = vec_upsert ce_name e (bt_entries t) \<and>
        (leaves_filled t \<longrightarrow> leaves_filled t')) \<and>
      flush_batch bs st h = Some (False, CURRENT_ENTRY_VERSION, d) \<and>
      btree_list (Suc (Suc n)) (flush_batch bs st) h 32 False = Some (Inr (vec_upsert ce_name e (bt_entries t))) \<and>
      (\<forall>name. btree_lookup (Suc (Suc n)) (flush_batch bs st) h name 32 False =
        (if name = ce_name e then Some (Inr (Some e)) else btree_lookup (Suc n) st root name 32 False))" if nc: "no_clash bs st"
  proof -
    note f = r [OF no_clash_flush [OF nc]]
    have "kmap ce_name (bt_entries t') = (kmap ce_name (bt_entries t))(ce_name e \<mapsto> e)"
      using vec_upsert_correct [OF entries_sorted [OF t(2)]] t'(3) by simp
    then show ?thesis
      using f t' btree_list_correct [of _ 32 h t' "Suc n"] btree_lookup_correct [of _ 32 h t' "Suc n"]
        btree_lookup_correct [OF t, where include_deleted = False]
      unfolding tree_at_def by (auto simp del: btree_list.simps btree_lookup.simps)
  qed
  then show ?thesis using call a by (auto simp: btree_insert_batched_def)
qed

definition sample_entry :: "u8 \<Rightarrow> child_entry" where
  "sample_entry c = \<lparr> ce_entry_type = 2, ce_hash = replicate 32 7, ce_total_size = 1, ce_created_at = 1,
    ce_updated_at = 2, ce_name = [c], ce_content_type = None, ce_virtual_time = 3, ce_node_id = 4 \<rparr>"

definition sample_root :: bytes where
  "sample_root = BTREE_LEAF_MARKER # to_le_bytes (1 :: u16) @ child_entry_bytes (sample_entry 98)"

definition sample_store :: dir_store where
  "sample_store = [replicate 32 0 \<mapsto> (False, CURRENT_ENTRY_VERSION, sample_root)]"

lemma sample_entry_ok: "dir_entry_ok 32 (sample_entry 97)" "dir_entry_ok 32 (sample_entry 98)"
  by (simp_all add: dir_entry_ok_def child_entry_ok_def opt_string_ok_def sample_entry_def opt_bytes_def in_range_def)

lemma sample_tree: "tree_at sample_store 0 (replicate 32 0) (TLeaf [sample_entry 98])"
proof -
  have ok: "node_ok 32 (Leaf [sample_entry 98])" using sample_entry_ok by simp
  have "btree_serialize (Leaf [sample_entry 98]) 32 = Inr sample_root"
    by (simp add: sample_root_def child_entry_serialize_def sample_entry_def opt_bytes_def)
  note d = btree_deserialize_serialize [OF ok this]
  have "repr sample_store 32 (replicate 32 0) (TLeaf [sample_entry 98])"
    by (rule stored_repr [OF d]) (simp_all add: sample_store_def)
  then show ?thesis using sample_entry_ok by (simp add: tree_at_def bt_ok_def)
qed

lemma sample_clash: "no_clash [(replicate 32 1, d)] sample_store"
  by (simp add: no_clash_def sample_store_def)

theorem btree_insert_correct_witness:
  "\<exists>h d bs. btree_insert_batched (\<lambda>_. replicate 32 1) 0 sample_root (sample_entry 97) 32 Blake3_256 sample_store =
      Some (Inr (h, d), flush_batch bs sample_store) \<and> no_clash bs sample_store \<and>
    btree_list 2 (flush_batch bs sample_store) h 32 False = Some (Inr [sample_entry 97, sample_entry 98])"
proof -
  have st: "sample_store (replicate 32 0) = Some (False, CURRENT_ENTRY_VERSION, sample_root)" by (simp add: sample_store_def)
  have b3: "\<forall>bs :: bytes. length ((\<lambda>_ :: bytes. replicate 32 (1 :: u8)) bs) = 32" by simp
  obtain h d bs where w: "btree_insert_writes (\<lambda>_. replicate 32 1) 0 sample_root (sample_entry 97) 32 Blake3_256 sample_store = Some (Inr (h, d, bs))"
    and i: "btree_insert_batched (\<lambda>_. replicate 32 1) 0 sample_root (sample_entry 97) 32 Blake3_256 sample_store = Some (Inr (h, d), flush_batch bs sample_store)"
    and l: "no_clash bs sample_store \<longrightarrow> btree_list 2 (flush_batch bs sample_store) h 32 False =
      Some (Inr (vec_upsert ce_name (sample_entry 97) (bt_entries (TLeaf [sample_entry 98]))))"
    using btree_insert_correct [OF b3 sample_entry_ok(1) sample_tree st] unfolding numeral_2_eq_2 by blast
  have "btree_deserialize sample_root 32 0 = Inr (Leaf [sample_entry 98])"
    using sample_tree st by (auto simp: tree_at_def repr.simps [of _ 32])
  moreover have u: "vec_upsert ce_name (sample_entry 97) [sample_entry 98] = [sample_entry 97, sample_entry 98]"
    by code_simp
  ultimately have "bs = [(replicate 32 1, d)]"
    using w by (auto simp: btree_insert_writes_def leaf_is_full_def leaf_upsert_eq BTREE_MAX_LEAF_ENTRIES_def Let_def
        batch_finish_insert_def batch_node_def btree_content_hash_def compute_hash_algo_def simp del: btree_serialize.simps)
  then have "no_clash bs sample_store" by (simp only: sample_clash)
  then show ?thesis using i l u by (metis bt_entries.simps(1))
qed

section \<open>The two implementations of insertion\<close>

text \<open>The node-by-node insertion \<open>m\<close> against the collected writes \<open>b\<close>: the same result, with the writes flushed; on
  an error the nodes written before it are in the store.\<close>

definition same_writes ::
  "(bytes \<Rightarrow> bytes) \<Rightarrow> dir_store \<Rightarrow> ('a engine_result \<times> dir_store) option \<Rightarrow> ('a \<times> write_batch) engine_result option \<Rightarrow> bool" where
  "same_writes blake3 st m b \<longleftrightarrow>
    (case b of
       None \<Rightarrow> m = None
     | Some (Inr (r, bs)) \<Rightarrow> addressed blake3 bs \<and> m = Some (Inr r, flush_batch bs st)
     | Some (Inl x) \<Rightarrow> (\<exists>bs. addressed blake3 bs \<and> m = Some (Inl x, flush_batch bs st)))"

lemma same_writes_simps [simp]:
  "same_writes blake3 st m None \<longleftrightarrow> m = None"
  "same_writes blake3 st m (Some (Inr (r, bs))) \<longleftrightarrow> addressed blake3 bs \<and> m = Some (Inr r, flush_batch bs st)"
  "same_writes blake3 st m (Some (Inl x)) \<longleftrightarrow> (\<exists>bs. addressed blake3 bs \<and> m = Some (Inl x, flush_batch bs st))"
  by (simp_all add: same_writes_def)

text \<open>One node: the collected write, and the stored node.\<close>

lemma node_write_cases:
  obtains (fails) x where "btree_serialize node hl = Inl x" "btree_content_hash blake3 node hl algo = Inl x"
  | (hash) d x where "btree_serialize node hl = Inr d" "btree_content_hash blake3 node hl algo = Inl x"
  | (ok) d h where "btree_serialize node hl = Inr d" "btree_content_hash blake3 node hl algo = Inr h" "h = blake3 (lit ''btree:'' @ d)"
proof (cases "btree_serialize node hl")
  case (Inl x)
  then show ?thesis using fails by (simp add: btree_content_hash_def)
next
  case (Inr d)
  then show ?thesis
    using hash ok by (cases "btree_content_hash blake3 node hl algo")
      (auto simp: btree_content_hash_def compute_hash_algo_def split: hash_algorithm.splits)
qed

lemma finish_insert_writes:
  assumes "addressed blake3 bs"
  shows "same_writes blake3 st (Some (finish_insert blake3 node hl algo (flush_batch bs st))) (Some (batch_finish_insert blake3 node hl algo bs))"
  using assms
  by (cases rule: node_write_cases [of node hl blake3 algo])
    (auto simp: finish_insert_def batch_finish_insert_def batch_node_def store_btree_node_def)

lemma finish_split_writes:
  assumes "addressed blake3 bs"
  shows "same_writes blake3 st (Some (finish_split blake3 l k r hl algo (flush_batch bs st))) (Some (batch_finish_split blake3 l k r hl algo bs))"
proof (cases rule: node_write_cases [of l hl blake3 algo])
  case (ok d h)
  have left: "\<exists>bs'. addressed blake3 bs' \<and> store_put h d (flush_batch bs st) = flush_batch bs' st"
    by (rule exI [of _ "bs @ [(h, d)]"]) (use assms ok(3) in simp)
  show ?thesis
    using assms ok left by (cases rule: node_write_cases [of r hl blake3 algo])
      (simp_all add: finish_split_def batch_finish_split_def store_btree_node_def)
qed (use assms in \<open>auto simp: finish_split_def batch_finish_split_def store_btree_node_def\<close>)

lemma insert_node_writes:
  "same_writes blake3 st (btree_insert_node blake3 n node e hl algo st) (btree_insert_node_batched blake3 n st node e hl algo [])"
proof (induction n arbitrary: node)
  case 0
  show ?case
    using finish_insert_writes [of blake3 "[]" st] finish_split_writes [of blake3 "[]" st]
    by (cases node) (simp_all add: Let_def case_prod_unfold)
next
  case (Suc n)
  show ?case
  proof (cases node)
    case (Leaf es)
    then show ?thesis
      using finish_insert_writes [of blake3 "[]" st] finish_split_writes [of blake3 "[]" st]
      by (simp add: Let_def case_prod_unfold)
  next
    case (Internal ks cs)
    let ?i = "find_child_index ks (ce_name e)"
    show ?thesis
    proof (cases "load_node False ''B-tree child not found'' st hl (cs ! ?i)")
      case (Inr c)
      note IH = Suc.IH [of c]
      show ?thesis
      proof (cases "btree_insert_node_batched blake3 n st c e hl algo []")
        case None
        then show ?thesis using IH Inr by (simp add: Internal Let_def)
      next
        case (Some x)
        show ?thesis
        proof (cases x)
          case x: (Inl y)
          then obtain bs where "addressed blake3 bs" "btree_insert_node blake3 n c e hl algo st = Some (Inl y, flush_batch bs st)"
            using IH Some by auto
          then show ?thesis using Inr Some x by (auto simp: Internal Let_def)
        next
          case x: (Inr y)
          obtain r bs where y: "y = (r, bs)" by (cases y)
          have a: "addressed blake3 bs" "btree_insert_node blake3 n c e hl algo st = Some (Inr r, flush_batch bs st)"
            using IH Some x y by simp_all
          show ?thesis
            using Inr Some x y a finish_insert_writes [OF a(1)] finish_split_writes [OF a(1)]
            by (cases r) (simp_all add: Internal Let_def case_prod_unfold)
        qed
      qed
    qed (auto simp: Internal Let_def intro: exI [of _ "[]"])
  qed
qed

text \<open>C27: The insertion that writes node by node and the one that collects its writes and flushes them once give the
  same answer, for every root, entry, hash length and algorithm: the same root hash and root bytes, the same error,
  or the same exhausted depth bound. When they succeed they leave the same store, so no read of the first sees one
  of its own writes. When they fail, the one that collects leaves the store as it was, and the other leaves what it
  wrote before the failure, which are only nodes under the hash of their content.\<close>
theorem btree_insert_batched_equivalent:
  "case btree_insert_batched blake3 n root_data e hl algo st of
     None \<Rightarrow> btree_insert_with_data blake3 n root_data e hl algo st = None
   | Some (Inr r, st1) \<Rightarrow> btree_insert_with_data blake3 n root_data e hl algo st = Some (Inr r, st1)
   | Some (Inl x, st1) \<Rightarrow> st1 = st \<and>
       (\<exists>bs. addressed blake3 bs \<and> btree_insert_with_data blake3 n root_data e hl algo st = Some (Inl x, flush_batch bs st))"
proof (cases "btree_deserialize root_data hl 0")
  case (Inr node)
  note w = insert_node_writes [of blake3 st n node e hl algo]
  note defs = btree_insert_with_data_def btree_insert_batched_def btree_insert_writes_def
  show ?thesis
  proof (cases "btree_insert_node_batched blake3 n st node e hl algo []")
    case (Some x)
    show ?thesis
    proof (cases x)
      case r: (Inr y)
      obtain r bs where y: "y = (r, bs)" by (cases y)
      have a: "addressed blake3 bs" "btree_insert_node blake3 n node e hl algo st = Some (Inr r, flush_batch bs st)"
        using w Some r y by simp_all
      show ?thesis
      proof (cases r)
        case (Split lh k rh)
        show ?thesis
          using a Inr Some r y Split
          by (cases rule: node_write_cases [of "Internal [k] [lh, rh]" hl blake3 algo])
            (auto simp: defs store_btree_node_def batch_node_def Let_def)
      qed (use a Inr Some r y in \<open>simp add: defs\<close>)
    next
      case r: (Inl y)
      then show ?thesis using w Inr Some by (auto simp: defs)
    qed
  qed (use w Inr in \<open>simp add: defs\<close>)
qed (auto simp: btree_insert_with_data_def btree_insert_batched_def btree_insert_writes_def intro: exI [of _ "[]"])

end
