(* ===== verification/BTree_Delete.thy ===== *)
theory BTree_Delete
  imports BTree_Update
begin

text \<open>
  Deletion from the directory B-tree: the rewritten nodes hold a subsequence of the old entries and separator
  keys, so the search order is kept, and exactly the named entry is gone.
\<close>

section \<open>What a deletion leaves\<close>

lemma subseq_vec_remove: "subseq (vec_remove i xs) xs"
proof (cases "i < length xs")
  case True
  have "subseq (take i xs @ drop (Suc i) xs) (take i xs @ xs ! i # drop (Suc i) xs)"
    by (intro list_emb_append_mono subseq_order.order_refl list_emb_Cons)
  then show ?thesis using True by (simp add: vec_remove_def id_take_nth_drop [symmetric])
qed (simp add: vec_remove_def)

lemma set_vec_remove: "set (vec_remove i xs) \<subseteq> set xs"
  by (auto simp: vec_remove_def dest: in_set_takeD in_set_dropD)

lemma leaf_remove_eq: "fst (leaf_remove name es) = vec_delete ce_name name es"
  by (simp add: leaf_remove_def vec_delete_def split: sum.splits)

lemma subseq_vec_delete: "subseq (vec_delete key k xs) xs"
  by (simp add: vec_delete_def subseq_vec_remove split: sum.splits)

lemma marks_update:
  assumes "length ts = Suc (length ks)" "i \<le> length ks" "subseq (marks t') (marks (ts ! i))"
  shows "subseq (marks (TNode ks (ts[i := t']))) (marks (TNode ks ts))"
proof -
  have "length (ts[i := t']) = Suc (length ks)" using assms(1) by simp
  note new = marks_split [OF this assms(2)]
  have "ts[i := t'] ! i = t'" using assms(1,2) by simp
  then show ?thesis
    unfolding marks_split [OF assms(1,2)] new
    using assms(3) by (simp add: list_emb_append_mono take_map drop_map)
qed

lemma remove_child_marks:
  assumes l: "length ts = Suc (length ks)" and i: "i \<le> length ks" and ks: "ks \<noteq> []"
    and r: "remove_child i ks ts = (ks', ts')"
  shows "subseq (marks (TNode ks' ts')) (marks (TNode ks ts))"
proof (cases "i < length ks")
  case True
  define A where "A = take i ks"
  define k where "k = ks ! i"
  define B where "B = drop (Suc i) ks"
  have kse: "ks = A @ k # B" using True by (simp add: A_def k_def B_def id_take_nth_drop [symmetric])
  obtain d D' where d: "drop (Suc i) ts = d # D'" using True l by (cases "drop (Suc i) ts") auto
  have lens: "length A = length (map marks (take i ts))" "length B = length (map marks D')" "length (k # B) = length (marks d # map marks D')"
    using True l arg_cong [OF d, of length] by (simp_all add: A_def B_def)
  have "ks' = A @ B" "ts' = take i ts @ d # D'" using r True d by (auto simp: remove_child_def vec_remove_def A_def B_def)
  then have new: "marks (TNode ks' ts') = left_part (map marks (take i ts)) A @ marks d @ right_part B (map marks D')"
    using interleave_split [OF lens(1,2)] by simp
  have "drop i ks = k # B" using True by (simp add: k_def B_def Cons_nth_drop_Suc)
  then have old: "marks (TNode ks ts) = left_part (map marks (take i ts)) A @ marks (ts ! i) @ ((k, 0) # marks d) @ right_part B (map marks D')"
    using marks_split [OF l i] d by (simp add: A_def right_part_def)
  show ?thesis unfolding new old
    by (intro list_emb_append_mono subseq_order.order_refl list_emb_append2 list_emb_Cons)
next
  case False
  then have il: "i = length ks" using i by simp
  obtain A k where kse: "ks = A @ [k]" using ks by (cases ks rule: rev_cases) auto
  obtain C c t where ts: "ts = C @ [c, t]" "length C = length A"
  proof -
    have "take (length A) ts @ [ts ! length A, ts ! Suc (length A)] = ts"
      using l kse by (intro nth_equalityI) (auto simp: nth_append less_Suc_eq)
    from that [OF this [symmetric]] show ?thesis using l kse by simp
  qed
  have "ks' = A" "ts' = C @ [c]" using r il ts by (simp_all add: remove_child_def vec_remove_def kse)
  then have new: "marks (TNode ks' ts') = left_part (map marks C) A @ marks c"
    using interleave_split [of A "map marks C" "[]" "[]" "marks c"] ts(2) by (simp add: right_part_def)
  have old: "marks (TNode ks ts) = left_part (map marks C) A @ marks c @ [(k, 0)] @ marks t"
    using interleave_split [of "A @ [k]" "map marks C @ [marks c]" "[]" "[]" "marks t"] ts
    by (simp add: kse right_part_def left_part_def)
  show ?thesis unfolding new old
    by (intro list_emb_append_mono subseq_order.order_refl prefix_imp_subseq) simp
qed

lemma list_all2_vec_remove: "list_all2 P xs ys \<Longrightarrow> list_all2 P (vec_remove i xs) (vec_remove i ys)"
  unfolding vec_remove_def by (intro list_all2_appendI list_all2_takeI list_all2_dropI)

lemma remove_child_simps:
  assumes "length cs = Suc (length ks)" "i \<le> length ks" "remove_child i ks cs = (ks', cs')"
  shows "cs' = vec_remove i cs" "set ks' \<subseteq> set ks" "length ks' = length ks - 1"
    "ks \<noteq> [] \<Longrightarrow> length cs' = Suc (length ks')" "ks = [] \<Longrightarrow> cs' = []"
  using assms by (auto simp: remove_child_def vec_remove_def split: if_splits dest: in_set_takeD in_set_dropD)

definition delete_post ::
  "(bytes \<Rightarrow> bytes) \<Rightarrow> dir_store \<Rightarrow> nat \<Rightarrow> str \<Rightarrow> btree \<Rightarrow> bytes option \<Rightarrow> write_batch \<Rightarrow> bool" where
  "delete_post blake3 st n name t r bs \<longleftrightarrow> addressed blake3 bs \<and> length bs \<le> Suc n \<and>
    (case r of
       None \<Rightarrow> {x \<in> set (bt_entries t). ce_name x \<noteq> name} = {}
     | Some h \<Rightarrow> (\<exists>t'. length h = 32 \<and> bt_shape 32 t' \<and> bt_within n t' \<and> subseq (marks t') (marks t) \<and>
         set (bt_entries t') = {x \<in> set (bt_entries t). ce_name x \<noteq> name} \<and> (leaves_filled t \<longrightarrow> bt_full t') \<and>
         (\<forall>st'. keeps st st' \<longrightarrow> holds st' bs \<longrightarrow> repr st' 32 h t')))"

text \<open>Storing the rewritten node.\<close>

lemma store_delete_post:
  assumes b3: "\<forall>bs. length (blake3 bs) = 32" and ok: "node_ok 32 node" and a: "addressed blake3 bs" "length bs \<le> n"
    and t': "bt_shape 32 t'" "bt_within n t'" "subseq (marks t') (marks t)"
      "set (bt_entries t') = {x \<in> set (bt_entries t). ce_name x \<noteq> name}" "leaves_filled t \<Longrightarrow> bt_full t'"
    and r: "\<And>st'. keeps st st' \<Longrightarrow> holds st' bs \<Longrightarrow> node_repr st' 32 node t'"
  shows "\<exists>r bs'. res_bind (store_btree_node blake3 node 32 Blake3_256 (flush_batch bs st)) (\<lambda>(h, st1). Inr (Some h, st1)) =
    Inr (r, flush_batch bs' st) \<and> delete_post blake3 st n name t r bs'"
proof -
  obtain data h where d: "btree_serialize node 32 = Inr data" "btree_content_hash blake3 node 32 Blake3_256 = Inr h"
    "length h = 32" "btree_deserialize data 32 0 = Inr node" "h = blake3 (lit ''btree:'' @ data)" using content_hash_ok [OF b3 ok] .
  have "repr st' 32 h t'" if "keeps st st'" "holds st' (bs @ [(h, data)])" for st'
    using that r [OF that(1)] stored_repr [OF d(4,3)] by simp
  then have "delete_post blake3 st n name t (Some h) (bs @ [(h, data)])"
    unfolding delete_post_def using a t' d(3,5) by auto
  then show ?thesis
    by (intro exI [of _ "Some h"] exI [of _ "bs @ [(h, data)]"]) (simp add: store_btree_node_def d(1,2))
qed

lemma leaf_delete_post:
  assumes b3: "\<forall>bs. length (blake3 bs) = 32" and ok: "bt_ok 32 (TLeaf es)"
    and load: "load_node False ''B-tree root not found'' st 32 h = Inr (Leaf es)"
  shows "\<exists>r bs. btree_delete blake3 (Suc n) h name 32 Blake3_256 st = Some (Inr (r, flush_batch bs st)) \<and>
    delete_post blake3 st n name (TLeaf es) r bs"
proof -
  define es1 where "es1 = vec_delete ce_name name es"
  have set: "set es1 = {x \<in> set es. ce_name x \<noteq> name}"
    unfolding es1_def using set_vec_delete entries_sorted [OF ok] by simp
  have sub: "subseq es1 es" unfolding es1_def by (rule subseq_vec_delete)
  have es: "length es \<le> 40" "\<forall>e\<in>set es. dir_entry_ok 32 e" using ok by (simp_all add: bt_ok_def)
  show ?thesis
  proof (cases "es1 = []")
    case True
    then have "delete_post blake3 st n name (TLeaf es) None []" using set by (simp add: delete_post_def)
    then show ?thesis using True load
      by (intro exI [of _ None] exI [of _ "[]"]) (simp add: leaf_remove_eq es1_def [symmetric] Let_def)
  next
    case False
    have "length es1 \<le> 40" using list_emb_length [OF sub] es(1) by simp
    moreover have "\<forall>e\<in>set es1. dir_entry_ok 32 e" using es(2) set by simp
    moreover have "subseq (marks (TLeaf es1)) (marks (TLeaf es))" using subseq_map [OF sub] by simp
    ultimately have "\<exists>r bs'. res_bind (store_btree_node blake3 (Leaf es1) 32 Blake3_256 (flush_batch [] st)) (\<lambda>(h, st1). Inr (Some h, st1)) =
        Inr (r, flush_batch bs' st) \<and> delete_post blake3 st n name (TLeaf es) r bs'"
      using False by (intro store_delete_post [OF b3, where t' = "TLeaf es1"]) (simp_all add: set)
    then show ?thesis using False load by (simp add: leaf_remove_eq es1_def [symmetric] Let_def del: res_bind_eq_Inr)
  qed
qed

text \<open>The child was rewritten.\<close>

lemma node_delete_some:
  assumes b3: "\<forall>bs. length (blake3 bs) = 32" and ok: "bt_ok 32 (TNode ks ts)" and w: "bt_within (Suc n) (TNode ks ts)"
    and cs: "list_all2 (repr st 32) cs ts" and i: "i = find_child_index ks name"
    and post: "delete_post blake3 st n name (ts ! i) (Some h') bs"
  shows "\<exists>r bs'. res_bind (store_btree_node blake3 (Internal ks (cs[i := h'])) 32 Blake3_256 (flush_batch bs st)) (\<lambda>(h, st1). Inr (Some h, st1)) =
    Inr (r, flush_batch bs' st) \<and> delete_post blake3 st (Suc n) name (TNode ks ts) r bs'"
proof -
  obtain t' where t': "length h' = 32" "bt_shape 32 t'" "bt_within n t'" "subseq (marks t') (marks (ts ! i))"
      "set (bt_entries t') = {x \<in> set (bt_entries (ts ! i)). ce_name x \<noteq> name}" "leaves_filled (ts ! i) \<longrightarrow> bt_full t'"
    and r: "\<And>st'. keeps st st' \<Longrightarrow> holds st' bs \<Longrightarrow> repr st' 32 h' t'" and a: "addressed blake3 bs" "length bs \<le> Suc n"
    using post by (auto simp: delete_post_def)
  have len: "length ks \<le> 77" "length ts = Suc (length ks)" "length cs = Suc (length ks)" "\<forall>k\<in>set ks. key_ok k" "\<forall>t\<in>set ts. bt_shape 32 t"
    using ok list_all2_lengthD [OF cs] by (simp_all add: bt_ok_def)
  note e = entries_around [OF ok, where name = name, folded i]
  have c32: "\<forall>c\<in>set cs. length c = 32" using cs by (auto simp: repr.simps [of _ 32] list_all2_conv_all_nth in_set_conv_nth)
  have sub: "set (ts[i := t']) \<subseteq> insert t' (set ts)" "set (cs[i := h']) \<subseteq> insert h' (set cs)" by (rule set_update_subset_insert)+
  show ?thesis
  proof (rule store_delete_post [OF b3 _ a, where t' = "TNode ks (ts[i := t'])"])
    show "node_ok 32 (Internal ks (cs[i := h']))" using len c32 t'(1) sub(2) by auto
    show "bt_shape 32 (TNode ks (ts[i := t']))" using len t'(2) sub(1) by auto
    show "bt_within (Suc n) (TNode ks (ts[i := t']))" using w t'(3) sub(1) by auto
    show "subseq (marks (TNode ks (ts[i := t']))) (marks (TNode ks ts))" by (rule marks_update [OF len(2) e(4) t'(4)])
    have "ts[i := t'] = take i ts @ t' # drop (Suc i) ts" using e(4) len(2) by (simp add: upd_conv_take_nth_drop)
    then have "set (bt_entries (TNode ks (ts[i := t']))) = set (concat (map bt_entries (take i ts))) \<union> set (bt_entries t') \<union>
        set (concat (map bt_entries (drop (Suc i) ts)))" by (simp add: Un_assoc)
    then show "set (bt_entries (TNode ks (ts[i := t']))) = {x \<in> set (bt_entries (TNode ks ts)). ce_name x \<noteq> name}"
      unfolding e(1) t'(5) by (auto simp del: set_concat dest: e(2) e(3))
    show "bt_full (TNode ks (ts[i := t']))" if "leaves_filled (TNode ks ts)"
    proof -
      have full: "\<forall>t\<in>set ts. bt_full t" using that by simp
      then have "bt_full t'" using t'(6) full_filled [of "ts ! i"] len(2) e(4) by simp
      then show ?thesis using full sub(1) by auto
    qed
    show "node_repr st' 32 (Internal ks (cs[i := h'])) (TNode ks (ts[i := t']))" if "keeps st st'" "holds st' bs" for st'
      using r [OF that] list_all2_mono [OF cs repr_mono [OF that(1)]] by (auto intro: list_all2_update_cong)
  qed
qed

text \<open>The child is empty and its hash and one key are removed.\<close>

lemma node_delete_none:
  assumes b3: "\<forall>bs. length (blake3 bs) = 32" and ok: "bt_ok 32 (TNode ks ts)" and w: "bt_within (Suc n) (TNode ks ts)"
    and cs: "list_all2 (repr st 32) cs ts" and i: "i = find_child_index ks name"
    and post: "delete_post blake3 st n name (ts ! i) None bs" and rc: "remove_child i ks cs = (ks1, cs1)"
  shows "\<exists>r bs'. (if cs1 = [] then Inr (None, flush_batch bs st)
      else if length cs1 = 1 then Inr (Some (cs1 ! 0), flush_batch bs st)
      else res_bind (store_btree_node blake3 (Internal ks1 cs1) 32 Blake3_256 (flush_batch bs st)) (\<lambda>(h, st2). Inr (Some h, st2))) =
    Inr (r, flush_batch bs' st) \<and> delete_post blake3 st (Suc n) name (TNode ks ts) r bs'"
proof -
  have gone: "{x \<in> set (bt_entries (ts ! i)). ce_name x \<noteq> name} = {}" and a: "addressed blake3 bs" "length bs \<le> Suc n"
    using post by (simp_all add: delete_post_def)
  have len: "length ks \<le> 77" "length ts = Suc (length ks)" "length cs = Suc (length ks)" "\<forall>k\<in>set ks. key_ok k" "\<forall>t\<in>set ts. bt_shape 32 t"
    using ok list_all2_lengthD [OF cs] by (simp_all add: bt_ok_def)
  note e = entries_around [OF ok, where name = name, folded i]
  have c32: "\<forall>c\<in>set cs. length c = 32" using cs by (auto simp: repr.simps [of _ 32] list_all2_conv_all_nth in_set_conv_nth)
  define ts1 where "ts1 = vec_remove i ts"
  have rt: "remove_child i ks ts = (ks1, ts1)" using rc by (auto simp: remove_child_def ts1_def)
  note rs = remove_child_simps [OF len(3) e(4) rc] and rts = remove_child_simps [OF len(2) e(4) rt]
  have c1: "list_all2 (repr st' 32) cs1 ts1" if "keeps st st'" for st'
    unfolding rs(1) ts1_def by (rule list_all2_vec_remove [OF list_all2_mono [OF cs repr_mono [OF that]]])
  have ents: "set (concat (map bt_entries ts1)) = {x \<in> set (bt_entries (TNode ks ts)). ce_name x \<noteq> name}"
    unfolding e(1) ts1_def vec_remove_def using gone by (auto simp del: set_concat dest: e(2) e(3))
  have sub: "set ts1 \<subseteq> set ts" "set cs1 \<subseteq> set cs" unfolding ts1_def rs(1) by (rule set_vec_remove)+
  have l1: "length cs1 = length ts1" using len(2,3) by (simp add: rs(1) ts1_def vec_remove_def)
  consider "cs1 = []" | "length cs1 = 1" | "cs1 \<noteq> []" "length cs1 \<noteq> 1" by blast
  then show ?thesis
  proof cases
    case 1
    then have "delete_post blake3 st (Suc n) name (TNode ks ts) None bs" using a ents l1 by (simp add: delete_post_def del: bt_entries.simps)
    then show ?thesis using 1 by auto
  next
    case 2
    then obtain c t where ct: "cs1 = [c]" "ts1 = [t]" using l1 by (metis One_nat_def length_0_conv length_Suc_conv)
    then have nk: "ks \<noteq> []" using rs(5) by auto
    then have "ks1 = []" using rs(4) ct(1) by simp
    then have "subseq (marks t) (marks (TNode ks ts))" using remove_child_marks [OF len(2) e(4) nk rt] ct(2) by simp
    moreover have "t \<in> set ts" "c \<in> set cs" using sub ct by auto
    ultimately have "delete_post blake3 st (Suc n) name (TNode ks ts) (Some c) bs"
      using a ents ct c1 c32 len(5) w bt_within_Suc [of n t] by (auto simp: delete_post_def simp del: bt_entries.simps)
    then show ?thesis using 2 ct(1) by auto
  next
    case 3
    then have nk: "ks \<noteq> []" using rs(5) by auto
    have "\<exists>r bs'. res_bind (store_btree_node blake3 (Internal ks1 cs1) 32 Blake3_256 (flush_batch bs st)) (\<lambda>(h, st1). Inr (Some h, st1)) =
        Inr (r, flush_batch bs' st) \<and> delete_post blake3 st (Suc n) name (TNode ks ts) r bs'"
    proof (rule store_delete_post [OF b3 _ a, where t' = "TNode ks1 ts1"])
      show "node_ok 32 (Internal ks1 cs1)" using rs(2,3) rs(4) [OF nk] len c32 sub(2) by auto
      show "bt_shape 32 (TNode ks1 ts1)" using rts(2,3) rts(4) [OF nk] len sub(1) by auto
      show "bt_within (Suc n) (TNode ks1 ts1)" using w sub(1) by auto
      show "subseq (marks (TNode ks1 ts1)) (marks (TNode ks ts))" by (rule remove_child_marks [OF len(2) e(4) nk rt])
      show "set (bt_entries (TNode ks1 ts1)) = {x \<in> set (bt_entries (TNode ks ts)). ce_name x \<noteq> name}" using ents by simp
      show "bt_full (TNode ks1 ts1)" if "leaves_filled (TNode ks ts)" using that sub(1) by auto
      show "node_repr st' 32 (Internal ks1 cs1) (TNode ks1 ts1)" if "keeps st st'" "holds st' bs" for st' using c1 [OF that(1)] by simp
    qed
    then show ?thesis using 3 by simp
  qed
qed

lemma delete_correct:
  assumes b3: "\<forall>bs. length (blake3 bs) = 32"
  shows "repr st 32 h t \<Longrightarrow> bt_ok 32 t \<Longrightarrow> bt_within n t \<Longrightarrow>
    \<exists>r bs. btree_delete blake3 (Suc n) h name 32 Blake3_256 st = Some (Inr (r, flush_batch bs st)) \<and>
      delete_post blake3 st n name t r bs"
proof (induction n arbitrary: h t)
  case 0
  then obtain es where t: "t = TLeaf es" by (cases t) auto
  obtain node where "load_node False ''B-tree root not found'' st 32 h = Inr node" "node_repr st 32 node t"
    using 0(1) by (rule load_node_repr)
  then show ?case using leaf_delete_post [OF b3] 0 t by simp
next
  case (Suc n)
  obtain node where node: "load_node False ''B-tree root not found'' st 32 h = Inr node" "node_repr st 32 node t"
    using Suc.prems(1) by (rule load_node_repr)
  show ?case
  proof (cases t)
    case (TLeaf es)
    then show ?thesis using leaf_delete_post [OF b3, of es st h "Suc n"] node Suc.prems by simp
  next
    case (TNode ks ts)
    define i where "i = find_child_index ks name"
    obtain cs where cs: "node = Internal ks cs" "list_all2 (repr st 32) cs ts" using node(2) TNode by auto
    have ok: "bt_ok 32 (TNode ks ts)" and w: "bt_within (Suc n) (TNode ks ts)" using Suc.prems TNode by simp_all
    have i: "i \<le> length ks" unfolding i_def by (rule entries_around(4) [OF ok])
    have len: "length ts = Suc (length ks)" using ok by (simp add: bt_ok_def)
    have "repr st 32 (cs ! i) (ts ! i)" "bt_within n (ts ! i)" using cs(2) i len w by (simp_all add: list_all2_conv_all_nth)
    from Suc.IH [OF this(1) bt_ok_child [OF ok i] this(2)]
    obtain r bs where call: "btree_delete blake3 (Suc n) (cs ! i) name 32 Blake3_256 st = Some (Inr (r, flush_batch bs st))"
      and post: "delete_post blake3 st n name (ts ! i) r bs" by blast
    note eq = btree_delete.simps(2) [of blake3 "Suc n" h name 32 Blake3_256 st, unfolded node(1) cs(1)]
    show ?thesis
    proof (cases r)
      case (Some h')
      from node_delete_some [OF b3 ok w cs(2) i_def post [unfolded Some]] show ?thesis
        using call by (simp add: eq TNode i_def [symmetric] Let_def Some del: btree_delete.simps res_bind_eq_Inr)
    next
      case None
      obtain ks1 cs1 where rc: "remove_child i ks cs = (ks1, cs1)" by (cases "remove_child i ks cs")
      from node_delete_none [OF b3 ok w cs(2) i_def post [unfolded None] rc] show ?thesis
        using call rc by (simp add: eq TNode i_def [symmetric] Let_def None del: btree_delete.simps res_bind_eq_Inr split: if_splits)
    qed
  qed
qed

section \<open>The property\<close>

text \<open>C7: Deleting a name from a B-tree directory. Let the root hash stand for a well-formed tree of depth at most \<open>n\<close>
  and let \<^verbatim>\<open>blake3\<close> return 32 bytes. Then the deletion succeeds, after writing at most one node per level, each under
  the hash of its content. It answers that the directory is empty only when no entry of another name exists, and, in
  a tree in which no leaf below the root is empty, whenever that is so; insertion and deletion keep such trees.
  Otherwise, when no written key clashes with another node, the new root is the root of a well-formed tree, not
  deeper than before, whose listing is the old one without the name, and whose lookups find nothing for the name and
  answer as before for every other name.\<close>
theorem btree_delete_correct:
  assumes "\<forall>bs. length (blake3 bs) = 32" and "tree_at st n root t"
  shows "\<exists>r bs. btree_delete blake3 (Suc n) root name 32 Blake3_256 st = Some (Inr (r, flush_batch bs st)) \<and>
    addressed blake3 bs \<and> length bs \<le> Suc n \<and>
    (leaves_filled t \<longrightarrow> (r = None \<longleftrightarrow> vec_delete ce_name name (bt_entries t) = [])) \<and>
    (case r of
       None \<Rightarrow> vec_delete ce_name name (bt_entries t) = []
     | Some h \<Rightarrow> no_clash bs st \<longrightarrow>
        (\<exists>t'. tree_at (flush_batch bs st) n h t' \<and> bt_entries t' = vec_delete ce_name name (bt_entries t) \<and>
          (leaves_filled t \<longrightarrow> leaves_filled t')) \<and>
        btree_list (Suc n) (flush_batch bs st) h 32 False = Some (Inr (vec_delete ce_name name (bt_entries t))) \<and>
        (\<forall>nm. btree_lookup (Suc n) (flush_batch bs st) h nm 32 False =
          (if nm = name then Some (Inr None) else btree_lookup (Suc n) st root nm 32 False)))"
proof -
  have t: "repr st 32 root t" "bt_ok 32 t" "bt_within n t" using assms(2) by (simp_all add: tree_at_def)
  obtain r bs where call: "btree_delete blake3 (Suc n) root name 32 Blake3_256 st = Some (Inr (r, flush_batch bs st))"
    and post: "delete_post blake3 st n name t r bs" using delete_correct [OF assms(1) t] by blast
  note s = entries_sorted [OF t(2)]
  note d = vec_delete_correct [OF s, of name] set_vec_delete [OF s, of name]
  show ?thesis
  proof (cases r)
    case None
    then have "set (vec_delete ce_name name (bt_entries t)) = {}" using post d(2) by (simp add: delete_post_def)
    then show ?thesis using call post None by (auto simp: delete_post_def simp del: btree_delete.simps)
  next
    case (Some h)
    then obtain t' where t': "bt_shape 32 t'" "bt_within n t'" "subseq (marks t') (marks t)"
      "set (bt_entries t') = {x \<in> set (bt_entries t). ce_name x \<noteq> name}" "leaves_filled t \<longrightarrow> bt_full t'"
      and r: "\<And>st'. keeps st st' \<Longrightarrow> holds st' bs \<Longrightarrow> repr st' 32 h t'" using post by (auto simp: delete_post_def)
    have ok: "bt_ok 32 t'" using t'(1) sorted_wrt_subseq [OF t'(3)] t(2) by (simp add: bt_ok_def)
    have e: "bt_entries t' = vec_delete ce_name name (bt_entries t)"
      by (rule sorted_by_set_eq [OF entries_sorted [OF ok]]) (use d t'(4) in simp_all)
    have ne: "vec_delete ce_name name (bt_entries t) \<noteq> []" if "leaves_filled t"
      using full_entries [of t'] t'(1,5) that by (simp add: e)
    have "(\<exists>t'. tree_at (flush_batch bs st) n h t' \<and> bt_entries t' = vec_delete ce_name name (bt_entries t) \<and>
          (leaves_filled t \<longrightarrow> leaves_filled t')) \<and>
        btree_list (Suc n) (flush_batch bs st) h 32 False = Some (Inr (vec_delete ce_name name (bt_entries t))) \<and>
        (\<forall>nm. btree_lookup (Suc n) (flush_batch bs st) h nm 32 False =
          (if nm = name then Some (Inr None) else btree_lookup (Suc n) st root nm 32 False))" if nc: "no_clash bs st"
    proof -
      note f = r [OF no_clash_flush [OF nc]]
      show ?thesis
        using f ok t'(2,5) e d full_filled [of t'] btree_list_correct [of _ 32 h t' n] btree_lookup_correct [of _ 32 h t' n]
          btree_lookup_correct [OF t, where include_deleted = False]
        unfolding tree_at_def by (auto simp del: btree_list.simps btree_lookup.simps)
    qed
    then show ?thesis using call post Some ne
      by (auto simp: delete_post_def simp del: btree_delete.simps btree_list.simps btree_lookup.simps)
  qed
qed

theorem btree_delete_correct_witness:
  "leaves_filled (TLeaf [sample_entry 98]) \<and> (\<exists>r bs. btree_delete (\<lambda>_. replicate 32 1) 1 (replicate 32 0) [97] 32 Blake3_256 sample_store = Some (Inr (r, flush_batch bs sample_store)) \<and>
    no_clash bs sample_store \<and> (case r of None \<Rightarrow> False | Some h \<Rightarrow>
      btree_list 1 (flush_batch bs sample_store) h 32 False = Some (Inr [sample_entry 98])))"
proof -
  have b3: "\<forall>bs :: bytes. length ((\<lambda>_ :: bytes. replicate 32 (1 :: u8)) bs) = 32" by simp
  have e: "vec_delete ce_name [97] (bt_entries (TLeaf [sample_entry 98])) = [sample_entry 98]" by code_simp
  obtain r bs where d: "btree_delete (\<lambda>_. replicate 32 1) 1 (replicate 32 0) [97] 32 Blake3_256 sample_store = Some (Inr (r, flush_batch bs sample_store))"
    and a: "addressed (\<lambda>_. replicate 32 1) bs" "length bs \<le> 1"
    and r: "case r of None \<Rightarrow> [sample_entry 98] = [] | Some h \<Rightarrow> no_clash bs sample_store \<longrightarrow>
      btree_list 1 (flush_batch bs sample_store) h 32 False = Some (Inr [sample_entry 98])"
    using btree_delete_correct [OF b3 sample_tree, where name = "[97]", unfolded e, folded One_nat_def]
    by (elim exE conjE) (auto split: option.splits simp del: btree_list.simps btree_delete.simps)
  have "no_clash bs sample_store"
  proof (cases bs)
    case (Cons b bs')
    then obtain d where "bs = [(replicate 32 1, d)]" using a by (cases b) auto
    then show ?thesis by (simp only: sample_clash)
  qed (simp add: no_clash_def)
  then show ?thesis using d r by (intro conjI exI [of _ r] exI [of _ bs]) (auto split: option.splits simp del: btree_list.simps btree_delete.simps)
qed

section \<open>Bulk construction beyond one internal node\<close>

text \<open>A node with as many keys as children is written and cannot be read back.\<close>

lemma read_children_short:
  assumes "\<forall>c\<in>set cs. length c = hl" "cursor_at data off (concat cs)" "0 < hl"
  shows "read_children (Suc (length cs)) data hl off =
    Inl (CorruptEntry (length data) ''Internal node data too short for child hash'')"
  using assms
proof (induction cs arbitrary: off)
  case Nil
  then show ?case by (auto simp: cursor_at_def)
next
  case (Cons c cs)
  have "cursor_at data off (c @ concat cs)" using Cons.prems(2) by simp
  note c1 = cursor_advance [OF this]
  have "read_children (Suc (length cs)) data hl (off + hl) =
      Inl (CorruptEntry (length data) ''Internal node data too short for child hash'')"
    using Cons.IH [OF _ _ Cons.prems(3)] Cons.prems(1) c1(1) by simp
  then show ?case using c1 Cons.prems(1) by (simp add: read_children.simps(2) [of "Suc (length cs)"] del: read_children.simps)
qed

lemma keys_as_many_as_children:
  assumes ks: "\<forall>k\<in>set ks. key_ok k" "length ks < 65536" and cs: "\<forall>c\<in>set cs. length c = 32" "length cs = length ks"
  shows "\<exists>data. btree_serialize (Internal ks cs) 32 = Inr data \<and>
    btree_deserialize data 32 0 = Inl (CorruptEntry (length data) ''Internal node data too short for child hash'')"
proof -
  define data where "data = BTREE_INTERNAL_MARKER # to_le_bytes (word_of_nat (length ks) :: u16) @ keys_bytes ks @ concat cs"
  have s: "btree_serialize (Internal ks cs) 32 = Inr data" using ks(1) by (simp add: serialize_keys_ok data_def)
  have n: "unat (word_of_nat (length ks) :: u16) = length ks" using ks(2) by (simp add: unat_word_of_nat_u16)
  have "cursor_at data 3 (keys_bytes ks @ concat cs)" by (simp add: cursor_at_def data_def numeral_3_eq_3)
  from read_keys_ok [OF ks(1) this] have k: "read_keys (length ks) data 3 = Inr (ks, 3 + length (keys_bytes ks))"
    and c: "cursor_at data (3 + length (keys_bytes ks)) (concat cs)" by simp_all
  note r = read_children_short [OF cs(1) c]
  have sl: "slice_at data (Suc 0) 2 = to_le_bytes (word_of_nat (length ks) :: u16)" by (simp add: data_def)
  have "\<not> length data < 3" "data \<noteq> []" "data ! 0 = BTREE_INTERNAL_MARKER" by (simp_all add: data_def)
  then have "btree_deserialize data 32 0 = Inl (CorruptEntry (length data) ''Internal node data too short for child hash'')"
    using n k r cs(2) by (simp add: btree_deserialize_def btree_deserialize_v0_def Let_def sl
        BTREE_LEAF_MARKER_def BTREE_INTERNAL_MARKER_def del: res_bind_eq_Inr read_children.simps)
  then show ?thesis using s by blast
qed

lemma group_level_second:
  assumes "m < length cs" "0 < m"
  shows "Internal (slice_at ks (m - 1) (min (m + m) (length cs) - m)) (slice_at cs m (min (m + m) (length cs) - m))
    \<in> set (fst (group_level m cs ks 0))"
proof -
  have ne: "cs \<noteq> []" using assms(1) by auto
  have "fst (group_level m cs ks 0) = Internal (take (m - 1) ks) (slice_at cs 0 m) # fst (group_level m cs ks m)"
    using assms ne by (subst group_level.simps) (simp add: Let_def case_prod_unfold min_def)
  moreover have "min (m + m) (length cs) - 1 - (m - 1) = min (m + m) (length cs) - m" using assms by simp
  then have "fst (group_level m cs ks m) = Internal (slice_at ks (m - 1) (min (m + m) (length cs) - m))
      (slice_at cs m (min (m + m) (length cs) - m)) # fst (group_level m cs ks (min (m + m) (length cs)))"
    using assms by (subst group_level.simps) (simp add: Let_def case_prod_unfold)
  ultimately show ?thesis by simp
qed

text \<open>C36: The bulk construction of a directory of more than 78 leaves (more than 3120 entries) writes a node nobody
  can read. The second group of children of a level takes the separator key in front of the group as well, so it has
  as many keys as children; its bytes are stored without an error, and reading them back fails because a node with
  that many keys must have one more child.\<close>
theorem bulk_level_unreadable:
  assumes "BTREE_MAX_INTERNAL_KEYS + 1 < length cs" and "length ks = length cs - 1"
    and "\<forall>c\<in>set cs. length c = 32" and "\<forall>k\<in>set ks. key_ok k"
  shows "\<exists>node data. node \<in> set (fst (group_level (BTREE_MAX_INTERNAL_KEYS + 1) cs ks 0)) \<and> btree_serialize node 32 = Inr data \<and>
    btree_deserialize data 32 0 = Inl (CorruptEntry (length data) ''Internal node data too short for child hash'')"
proof -
  have m: "78 < length cs" using assms(1) by (simp add: BTREE_MAX_INTERNAL_KEYS_def)
  define w where "w = min (78 + 78) (length cs) - 78"
  have w: "w \<le> 78" "78 + w \<le> length cs" using m by (simp_all add: w_def)
  have node: "Internal (slice_at ks 77 w) (slice_at cs 78 w) \<in> set (fst (group_level 78 cs ks 0))"
    using group_level_second [of 78 cs ks] m by (simp add: w_def)
  have len: "length (slice_at ks 77 w) = w" "length (slice_at cs 78 w) = w" using w assms(2) by (simp_all add: slice_at_def)
  have "\<forall>k\<in>set (slice_at ks 77 w). key_ok k" "\<forall>c\<in>set (slice_at cs 78 w). length c = 32"
    using assms(3,4) by (auto simp: slice_at_def dest!: in_set_takeD in_set_dropD)
  from keys_as_many_as_children [OF this(1) _ this(2)] len w(1) node show ?thesis
    by (auto simp: BTREE_MAX_INTERNAL_KEYS_def simp del: btree_serialize.simps)
qed

theorem bulk_level_unreadable_witness:
  "\<exists>node data. node \<in> set (fst (group_level (BTREE_MAX_INTERNAL_KEYS + 1) (replicate 79 (replicate 32 0)) (replicate 78 (lit ''k'')) 0)) \<and>
    btree_serialize node 32 = Inr data \<and>
    btree_deserialize data 32 0 = Inl (CorruptEntry (length data) ''Internal node data too short for child hash'')"
proof (rule bulk_level_unreadable)
  have "utf8_valid (lit ''k'')" by code_simp
  then have "key_ok (lit ''k'')" by (simp add: key_ok_def lit_def)
  then show "\<forall>k\<in>set (replicate 78 (lit ''k'')). key_ok k" by simp
qed (simp_all add: BTREE_MAX_INTERNAL_KEYS_def)

end
