(* ===== verification/Tree_Walker.thy ===== *)
theory Tree_Walker
  imports BTree
begin

text \<open>
  Version trees, \<^verbatim>\<open>tree_walker.rs\<close>: the walk from a root hash that collects the files, directories, symbolic
  links and chunks of a version, and the difference of two versions.  A \<^verbatim>\<open>HashMap\<close> is a vector sorted by key, a
  \<^verbatim>\<open>HashSet\<close> a sorted vector; the program does not depend on an iteration order.  The store is the one of the
  directory B-trees.
\<close>

section \<open>Key hashes\<close>

definition file_path_hash :: "(bytes \<Rightarrow> bytes) \<Rightarrow> str \<Rightarrow> hash_algorithm \<Rightarrow> bytes engine_result" where
  "file_path_hash blake3 path algo = compute_hash_algo blake3 algo (lit ''file:'' @ path)"

definition directory_path_hash :: "(bytes \<Rightarrow> bytes) \<Rightarrow> str \<Rightarrow> hash_algorithm \<Rightarrow> bytes engine_result" where
  "directory_path_hash blake3 path algo = compute_hash_algo blake3 algo (lit ''dir:'' @ path)"

definition directory_content_hash :: "(bytes \<Rightarrow> bytes) \<Rightarrow> bytes \<Rightarrow> hash_algorithm \<Rightarrow> bytes engine_result" where
  "directory_content_hash blake3 data algo = compute_hash_algo blake3 algo (lit ''dirc:'' @ data)"

definition file_content_hash :: "(bytes \<Rightarrow> bytes) \<Rightarrow> bytes \<Rightarrow> hash_algorithm \<Rightarrow> bytes engine_result" where
  "file_content_hash blake3 data algo = compute_hash_algo blake3 algo (lit ''filec:'' @ data)"

definition file_identity_hash ::
  "(bytes \<Rightarrow> bytes) \<Rightarrow> str \<Rightarrow> str option \<Rightarrow> bytes list \<Rightarrow> hash_algorithm \<Rightarrow> bytes engine_result" where
  "file_identity_hash blake3 path content_type chunk_hashes algo =
    compute_hash_algo blake3 algo
      (lit ''fileid:'' @ path @ [0] @ (case content_type of None \<Rightarrow> [] | Some c \<Rightarrow> c) @ [0] @ concat chunk_hashes)"

definition symlink_identity_hash ::
  "(bytes \<Rightarrow> bytes) \<Rightarrow> str \<Rightarrow> str \<Rightarrow> hash_algorithm \<Rightarrow> bytes engine_result" where
  "symlink_identity_hash blake3 path target algo = compute_hash_algo blake3 algo (lit ''symlinkid:'' @ path @ [0] @ target)"

definition chunk_content_hash :: "(bytes \<Rightarrow> bytes) \<Rightarrow> bytes \<Rightarrow> hash_algorithm \<Rightarrow> bytes engine_result" where
  "chunk_content_hash blake3 data algo = compute_hash_algo blake3 algo (lit ''chunk:'' @ data)"

definition system_chunk_hash :: "(bytes \<Rightarrow> bytes) \<Rightarrow> bytes \<Rightarrow> hash_algorithm \<Rightarrow> bytes engine_result" where
  "system_chunk_hash blake3 data algo = compute_hash_algo blake3 algo (lit ''system::'' @ data)"

section \<open>The walk\<close>

record version_tree =
  vt_files :: "(bytes \<times> file_record) hmap"
  vt_directories :: "(bytes \<times> bytes) hmap"
  vt_chunks :: "bytes list"
  vt_symlinks :: "(bytes \<times> symlink_record) hmap"

definition version_tree_new :: version_tree where
  "version_tree_new = \<lparr> vt_files = [], vt_directories = [], vt_chunks = [], vt_symlinks = [] \<rparr>"

text \<open>The tree and the visited set stay as they are when a step fails; \<open>None\<close> is an exhausted depth bound.\<close>

type_synonym walk_state = "version_tree \<times> bytes list"
type_synonym walk_result = "(unit engine_result \<times> walk_state) option"

definition ws_bind :: "walk_result \<Rightarrow> (walk_state \<Rightarrow> walk_result) \<Rightarrow> walk_result" where
  "ws_bind m f = (case m of None \<Rightarrow> None | Some (Inl e, s) \<Rightarrow> Some (Inl e, s) | Some (Inr _, s) \<Rightarrow> f s)"

lemma ws_bind_simps [simp]:
  "ws_bind None f = None" "ws_bind (Some (Inl e, s)) f = Some (Inl e, s)" "ws_bind (Some (Inr u, s)) f = f s"
  by (simp_all add: ws_bind_def)

definition join_path :: "str \<Rightarrow> str \<Rightarrow> str" where
  "join_path current_path name =
    (if current_path = lit ''/'' then lit ''/'' @ name else current_path @ lit ''/'' @ name)"

text \<open>One child: \<open>walk\<close> is the walk of a subdirectory.\<close>

definition walk_child ::
  "(bytes \<Rightarrow> str \<Rightarrow> walk_state \<Rightarrow> walk_result) \<Rightarrow> dir_store \<Rightarrow> str \<Rightarrow> nat \<Rightarrow> child_entry \<Rightarrow> walk_state \<Rightarrow> walk_result" where
  "walk_child walk st current_path hl child s =
    (let child_path = join_path current_path (ce_name child); (tree, visited) = s in
     case entry_type_from_u8 (ce_entry_type child) of
       Inl e \<Rightarrow> Some (Inl e, s)
     | Inr DirectoryIndex \<Rightarrow> walk (ce_hash child) child_path s
     | Inr FileRecord \<Rightarrow>
         (case store_get True st (ce_hash child) of
            None \<Rightarrow> Some (Inr (), s)
          | Some (version, data) \<Rightarrow>
              (case file_record_deserialize data hl version of
                 Inl e \<Rightarrow> Some (Inl e, s)
               | Inr r \<Rightarrow> Some (Inr (), (tree
                   \<lparr> vt_chunks := fold hs_insert (fr_chunk_hashes r) (vt_chunks tree),
                     vt_files := hm_insert child_path (ce_hash child, r) (vt_files tree) \<rparr>, visited))))
     | Inr Symlink \<Rightarrow>
         (case store_get True st (ce_hash child) of
            None \<Rightarrow> Some (Inr (), s)
          | Some (version, data) \<Rightarrow>
              (case symlink_record_deserialize data version of
                 Inl e \<Rightarrow> Some (Inl e, s)
               | Inr r \<Rightarrow> Some (Inr (), (tree
                   \<lparr> vt_symlinks := hm_insert child_path (ce_hash child, r) (vt_symlinks tree) \<rparr>, visited))))
     | Inr _ \<Rightarrow> Some (Inr (), s))"

fun walk_children ::
  "(bytes \<Rightarrow> str \<Rightarrow> walk_state \<Rightarrow> walk_result) \<Rightarrow> dir_store \<Rightarrow> str \<Rightarrow> nat \<Rightarrow> child_entry list \<Rightarrow> walk_state \<Rightarrow> walk_result" where
  "walk_children walk st current_path hl [] s = Some (Inr (), s)"
| "walk_children walk st current_path hl (c # cs) s =
    ws_bind (walk_child walk st current_path hl c s) (walk_children walk st current_path hl cs)"

definition directory_children :: "nat \<Rightarrow> dir_store \<Rightarrow> nat \<Rightarrow> bytes \<Rightarrow> child_entry list engine_result option" where
  "directory_children depth st hl dir_data =
    (if is_btree_format dir_data then btree_list_from_node depth dir_data st hl True
     else Some (deserialize_child_entries dir_data hl 0))"

text \<open>\<open>depth\<close> bounds the B-tree of one directory, \<open>n\<close> the nesting of directories.\<close>

fun walk_directory :: "nat \<Rightarrow> nat \<Rightarrow> dir_store \<Rightarrow> nat \<Rightarrow> bytes \<Rightarrow> str \<Rightarrow> walk_state \<Rightarrow> walk_result" where
  "walk_directory depth 0 st hl dir_hash current_path s = None"
| "walk_directory depth (Suc n) st hl dir_hash current_path s =
    (let (tree, visited) = s in
     if dir_hash \<in> set visited then Some (Inr (), s)
     else let visited1 = hs_insert dir_hash visited in
       case store_get True st dir_hash of
         None \<Rightarrow> Some (Inr (), (tree, visited1))
       | Some (_, dir_data) \<Rightarrow>
           (let s1 = (tree \<lparr> vt_directories := hm_insert current_path (dir_hash, dir_data) (vt_directories tree) \<rparr>, visited1) in
            if dir_data = [] then Some (Inr (), s1)
            else case directory_children depth st hl dir_data of
                None \<Rightarrow> None
              | Some (Inl e) \<Rightarrow> Some (Inl e, s1)
              | Some (Inr children) \<Rightarrow>
                  walk_children (\<lambda>h p s. walk_directory depth n st hl h p s) st current_path hl children s1))"

definition walk_version_tree :: "nat \<Rightarrow> nat \<Rightarrow> dir_store \<Rightarrow> nat \<Rightarrow> bytes \<Rightarrow> version_tree engine_result option" where
  "walk_version_tree depth n st hl root_hash =
    map_option (\<lambda>(r, tree, _). res_bind r (\<lambda>_. Inr tree))
      (walk_directory depth n st hl root_hash (lit ''/'') (version_tree_new, []))"

definition walk_subtree ::
  "nat \<Rightarrow> nat \<Rightarrow> dir_store \<Rightarrow> nat \<Rightarrow> str \<Rightarrow> bytes \<Rightarrow> version_tree \<Rightarrow> (unit engine_result \<times> version_tree) option" where
  "walk_subtree depth n st hl start_path start_dir_hash tree =
    map_option (\<lambda>(r, tree1, _). (r, tree1)) (walk_directory depth n st hl start_dir_hash start_path (tree, []))"

section \<open>System subtrees\<close>

definition system_dirs :: "str list" where
  "system_dirs = map lit [''/.aeordb-system/users'', ''/.aeordb-system/groups'', ''/.aeordb-system/snapshots'',
    ''/.aeordb-system/config'', ''/.aeordb-config'']"

definition system_single_files :: "str list" where
  "system_single_files = [lit ''/.aeordb-system/email-config.json'']"

definition augment_dir ::
  "(bytes \<Rightarrow> bytes) \<Rightarrow> nat \<Rightarrow> nat \<Rightarrow> dir_store \<Rightarrow> hash_algorithm \<Rightarrow> str \<Rightarrow> version_tree \<Rightarrow> version_tree option" where
  "augment_dir blake3 depth n st algo sys_path tree =
    (case directory_path_hash blake3 sys_path algo of
       Inl _ \<Rightarrow> Some tree
     | Inr key \<Rightarrow>
         (case store_get True st key of
            None \<Rightarrow> Some tree
          | Some (_, raw_value) \<Rightarrow>
              (case (if length raw_value = hash_length algo then Inr raw_value else compute_hash_algo blake3 algo raw_value) of
                 Inl _ \<Rightarrow> Some tree
               | Inr sys_dir_hash \<Rightarrow>
                   map_option snd (walk_subtree depth n st (hash_length algo) sys_path sys_dir_hash
                     (tree \<lparr> vt_directories := hm_insert sys_path (sys_dir_hash, []) (vt_directories tree) \<rparr>)))))"

definition augment_file ::
  "(bytes \<Rightarrow> bytes) \<Rightarrow> dir_store \<Rightarrow> hash_algorithm \<Rightarrow> str \<Rightarrow> version_tree \<Rightarrow> version_tree" where
  "augment_file blake3 st algo file_path tree =
    (case file_path_hash blake3 file_path algo of
       Inl _ \<Rightarrow> tree
     | Inr key \<Rightarrow>
         (case store_get True st key of
            None \<Rightarrow> tree
          | Some (version, raw) \<Rightarrow>
              (case file_record_deserialize raw (hash_length algo) version of
                 Inl _ \<Rightarrow> tree
               | Inr r \<Rightarrow>
                   (case file_content_hash blake3 raw algo of
                      Inl _ \<Rightarrow> tree
                    | Inr content_hash \<Rightarrow> tree \<lparr> vt_files := hm_insert file_path (content_hash, r) (vt_files tree) \<rparr>))))"

fun augment_dirs ::
  "(bytes \<Rightarrow> bytes) \<Rightarrow> nat \<Rightarrow> nat \<Rightarrow> dir_store \<Rightarrow> hash_algorithm \<Rightarrow> str list \<Rightarrow> version_tree \<Rightarrow> version_tree option" where
  "augment_dirs blake3 depth n st algo [] tree = Some tree"
| "augment_dirs blake3 depth n st algo (p # ps) tree =
    Option.bind (augment_dir blake3 depth n st algo p tree) (augment_dirs blake3 depth n st algo ps)"

definition augment_with_system_subtrees ::
  "(bytes \<Rightarrow> bytes) \<Rightarrow> nat \<Rightarrow> nat \<Rightarrow> dir_store \<Rightarrow> hash_algorithm \<Rightarrow> version_tree \<Rightarrow> version_tree option" where
  "augment_with_system_subtrees blake3 depth n st algo tree =
    map_option (fold (augment_file blake3 st algo) system_single_files)
      (augment_dirs blake3 depth n st algo system_dirs tree)"

section \<open>The difference of two trees\<close>

record tree_diff =
  td_added :: "(bytes \<times> file_record) hmap"
  td_modified :: "(bytes \<times> file_record) hmap"
  td_deleted :: "str list"
  td_new_chunks :: "bytes list"
  td_changed_directories :: "(bytes \<times> bytes) hmap"
  td_symlinks_added :: "(bytes \<times> symlink_record) hmap"
  td_symlinks_modified :: "(bytes \<times> symlink_record) hmap"
  td_symlinks_deleted :: "str list"

definition tree_diff_is_empty :: "tree_diff \<Rightarrow> bool" where
  "tree_diff_is_empty d \<longleftrightarrow> td_added d = [] \<and> td_modified d = [] \<and> td_deleted d = [] \<and>
    td_symlinks_added d = [] \<and> td_symlinks_modified d = [] \<and> td_symlinks_deleted d = []"

text \<open>One entry of the target: added, modified when its record differs from the base's, or unchanged.\<close>

definition diff_entry ::
  "('r \<Rightarrow> 'r \<Rightarrow> bool) \<Rightarrow> (bytes \<times> 'r) hmap \<Rightarrow> str \<times> bytes \<times> 'r \<Rightarrow> (bytes \<times> 'r) hmap \<times> (bytes \<times> 'r) hmap \<Rightarrow>
    (bytes \<times> 'r) hmap \<times> (bytes \<times> 'r) hmap" where
  "diff_entry differs base = (\<lambda>(path, target_hash, target_record) (added, modified).
    case hm_get base path of
      None \<Rightarrow> (hm_insert path (target_hash, target_record) added, modified)
    | Some (_, base_record) \<Rightarrow>
        if differs base_record target_record
        then (added, hm_insert path (target_hash, target_record) modified) else (added, modified))"

definition diff_entries ::
  "('r \<Rightarrow> 'r \<Rightarrow> bool) \<Rightarrow> (bytes \<times> 'r) hmap \<Rightarrow> (bytes \<times> 'r) hmap \<Rightarrow> (bytes \<times> 'r) hmap \<times> (bytes \<times> 'r) hmap" where
  "diff_entries differs base target = fold (diff_entry differs base) target ([], [])"

definition diff_deleted :: "'v hmap \<Rightarrow> 'v hmap \<Rightarrow> str list" where
  "diff_deleted base target = filter (\<lambda>path. hm_get target path = None) (map fst base)"

definition diff_directories :: "(bytes \<times> bytes) hmap \<Rightarrow> (bytes \<times> bytes) hmap \<Rightarrow> (bytes \<times> bytes) hmap" where
  "diff_directories base target = fold (\<lambda>(path, target_hash, target_data) changed.
    case hm_get base path of
      None \<Rightarrow> hm_insert path (target_hash, target_data) changed
    | Some (_, base_data) \<Rightarrow>
        if base_data \<noteq> target_data then hm_insert path (target_hash, target_data) changed else changed) target []"

definition diff_trees :: "version_tree \<Rightarrow> version_tree \<Rightarrow> tree_diff" where
  "diff_trees base target =
    (let (added, modified) = diff_entries (\<lambda>b t. fr_chunk_hashes b \<noteq> fr_chunk_hashes t) (vt_files base) (vt_files target);
         (symlinks_added, symlinks_modified) = diff_entries (\<lambda>b t. sl_target b \<noteq> sl_target t) (vt_symlinks base) (vt_symlinks target) in
     \<lparr> td_added = added, td_modified = modified, td_deleted = diff_deleted (vt_files base) (vt_files target),
       td_new_chunks = filter (\<lambda>c. c \<notin> set (vt_chunks base)) (vt_chunks target),
       td_changed_directories = diff_directories (vt_directories base) (vt_directories target),
       td_symlinks_added = symlinks_added, td_symlinks_modified = symlinks_modified,
       td_symlinks_deleted = diff_deleted (vt_symlinks base) (vt_symlinks target) \<rparr>)"

section \<open>Differences\<close>

text \<open>What the loop over the target's entries leaves.\<close>

lemma diff_entries_fold:
  assumes "sorted_by fst a" "sorted_by fst m" "distinct (map fst ts)"
  shows "sorted_by fst (fst (fold (diff_entry D base) ts (a, m))) \<and> sorted_by fst (snd (fold (diff_entry D base) ts (a, m))) \<and>
    hm_get (fst (fold (diff_entry D base) ts (a, m))) q = (if map_of ts q \<noteq> None \<and> hm_get base q = None then map_of ts q else hm_get a q) \<and>
    hm_get (snd (fold (diff_entry D base) ts (a, m))) q =
      (case (hm_get base q, map_of ts q) of (Some (_, b), Some (h, r)) \<Rightarrow> if D b r then Some (h, r) else hm_get m q | _ \<Rightarrow> hm_get m q)"
  using assms
proof (induction ts arbitrary: a m)
  case Nil
  then show ?case by (auto split: option.split)
next
  case (Cons t ts)
  obtain p h r where t: "t = (p, h, r)" by (cases t)
  obtain a' m' where am: "diff_entry D base t (a, m) = (a', m')" by (cases "diff_entry D base t (a, m)")
  have s: "sorted_by fst a'" "sorted_by fst m'"
    using am Cons.prems hm_insert_correct(1) by (auto simp: diff_entry_def t split: option.splits if_splits)
  have p: "map_of ts p = None" using Cons.prems(3) by (simp add: t map_of_eq_None_iff)
  have g: "hm_get a' q = (if hm_get base p = None \<and> q = p then Some (h, r) else hm_get a q)"
    "hm_get m' q = (case hm_get base p of Some (_, b) \<Rightarrow> if D b r \<and> q = p then Some (h, r) else hm_get m q | None \<Rightarrow> hm_get m q)"
    using am by (auto simp: diff_entry_def t hm_insert_correct(2) [OF Cons.prems(1)] hm_insert_correct(2) [OF Cons.prems(2)]
        split: option.splits if_splits)
  have IH: "sorted_by fst (fst (fold (diff_entry D base) (t # ts) (a, m)))" "sorted_by fst (snd (fold (diff_entry D base) (t # ts) (a, m)))"
    "hm_get (fst (fold (diff_entry D base) (t # ts) (a, m))) q = (if map_of ts q \<noteq> None \<and> hm_get base q = None then map_of ts q else hm_get a' q)"
    "hm_get (snd (fold (diff_entry D base) (t # ts) (a, m))) q =
      (case (hm_get base q, map_of ts q) of (Some (_, b), Some (h, r)) \<Rightarrow> if D b r then Some (h, r) else hm_get m' q | _ \<Rightarrow> hm_get m' q)"
    using Cons.IH [OF s] Cons.prems(3) by (simp_all add: am)
  have "hm_get (fst (fold (diff_entry D base) (t # ts) (a, m))) q =
      (if map_of (t # ts) q \<noteq> None \<and> hm_get base q = None then map_of (t # ts) q else hm_get a q)"
    unfolding IH(3) g(1) using p by (simp add: t)
  moreover have "hm_get (snd (fold (diff_entry D base) (t # ts) (a, m))) q =
      (case (hm_get base q, map_of (t # ts) q) of (Some (_, b), Some (h, r)) \<Rightarrow> if D b r then Some (h, r) else hm_get m q | _ \<Rightarrow> hm_get m q)"
    unfolding IH(4) g(2) using p by (cases "q = p"; cases "hm_get base p"; cases "map_of ts q") (simp_all add: t split: option.split prod.split)
  ultimately show ?case using IH(1,2) by blast
qed

lemma map_of_hm_get: "sorted_by fst m \<Longrightarrow> map_of m = hm_get m"
proof (rule ext)
  fix k
  assume s: "sorted_by fst m"
  show "map_of m k = hm_get m k"
    using hm_get_Some_iff [OF s, of k] map_of_eq_Some_iff [OF sorted_by_distinct [OF s], of k]
    by (cases "map_of m k"; cases "hm_get m k") auto
qed

lemma diff_entries_correct:
  assumes "sorted_by fst target"
  shows "sorted_by fst (fst (diff_entries D base target))" "sorted_by fst (snd (diff_entries D base target))"
    "hm_get (fst (diff_entries D base target)) p = (if hm_get base p = None then hm_get target p else None)"
    "hm_get (snd (diff_entries D base target)) p =
      (case (hm_get base p, hm_get target p) of (Some (_, b), Some (h, r)) \<Rightarrow> if D b r then Some (h, r) else None | _ \<Rightarrow> None)"
proof -
  note f = diff_entries_fold [of "[]" "[]" target D base p, folded diff_entries_def, unfolded map_of_hm_get [OF assms]]
  have d: "distinct (map fst target)" by (rule sorted_by_distinct [OF assms])
  show "sorted_by fst (fst (diff_entries D base target))" "sorted_by fst (snd (diff_entries D base target))"
    using f d by simp_all
  show "hm_get (fst (diff_entries D base target)) p = (if hm_get base p = None then hm_get target p else None)"
    using f d by (cases "hm_get target p") auto
  show "hm_get (snd (diff_entries D base target)) p =
      (case (hm_get base p, hm_get target p) of (Some (_, b), Some (h, r)) \<Rightarrow> if D b r then Some (h, r) else None | _ \<Rightarrow> None)"
    using f d by (simp split: option.splits prod.splits)
qed

lemma diff_deleted_correct:
  "sorted_by fst base \<Longrightarrow> p \<in> set (diff_deleted base target) \<longleftrightarrow> hm_get base p \<noteq> None \<and> hm_get target p = None"
  using hm_keys [of base p] by (simp add: diff_deleted_def conj_commute)

section \<open>The walk ends\<close>

text \<open>A step that, from every state that has visited \<open>V\<close>, ends and forgets no visited directory.\<close>

definition ends_after :: "bytes set \<Rightarrow> (walk_state \<Rightarrow> walk_result) \<Rightarrow> bool" where
  "ends_after V f \<longleftrightarrow> (\<forall>s. sorted_by id (snd s) \<longrightarrow> V \<subseteq> set (snd s) \<longrightarrow>
    (\<exists>r s'. f s = Some (r, s') \<and> sorted_by id (snd s') \<and> set (snd s) \<subseteq> set (snd s')))"

lemma walk_child_ends:
  assumes "\<And>h p. ends_after V (walk h p)"
  shows "ends_after V (walk_child walk st path hl c)"
  using assms unfolding ends_after_def
  by (auto simp: walk_child_def Let_def split: sum.splits entry_type.splits option.splits prod.splits)

lemma ws_bind_ends:
  assumes "ends_after V f" "ends_after V g"
  shows "ends_after V (\<lambda>s. ws_bind (f s) g)"
  unfolding ends_after_def
proof (intro allI impI)
  fix s :: walk_state
  assume s: "sorted_by id (snd s)" "V \<subseteq> set (snd s)"
  obtain r s1 where f: "f s = Some (r, s1)" "sorted_by id (snd s1)" "set (snd s) \<subseteq> set (snd s1)"
    using assms(1) s unfolding ends_after_def by blast
  moreover have "V \<subseteq> set (snd s1)" using s(2) f(3) by blast
  then obtain r' s2 where "g s1 = Some (r', s2)" "sorted_by id (snd s2)" "set (snd s1) \<subseteq> set (snd s2)"
    using assms(2) f(2) unfolding ends_after_def by blast
  ultimately show "\<exists>r s'. ws_bind (f s) g = Some (r, s') \<and> sorted_by id (snd s') \<and> set (snd s) \<subseteq> set (snd s')"
    by (cases r) auto
qed

lemma walk_children_ends:
  assumes "\<And>h p. ends_after V (walk h p)"
  shows "ends_after V (walk_children walk st path hl cs)"
proof (induction cs)
  case (Cons c cs)
  show ?case using ws_bind_ends [OF walk_child_ends [OF assms] Cons.IH] by (simp add: fun_eq_iff ends_after_def)
qed (simp add: ends_after_def)

lemma walk_directory_ends:
  assumes fin: "finite (dom st)"
    and bt: "\<And>h v d. store_get True st h = Some (v, d) \<Longrightarrow> directory_children depth st hl d \<noteq> None"
  shows "card (dom st - V) < n \<Longrightarrow> ends_after V (walk_directory depth n st hl h path)"
proof (induction n arbitrary: h path V)
  case (Suc n)
  have "\<exists>r s'. walk_directory depth (Suc n) st hl h path (tree, visited) = Some (r, s') \<and> sorted_by id (snd s') \<and> set visited \<subseteq> set (snd s')"
    if sv: "sorted_by id visited" and V: "V \<subseteq> set visited" for tree visited
  proof (cases "h \<in> set visited \<or> store_get True st h = None")
    case True
    then show ?thesis using hs_insert_correct [OF sv, of h] sv by (auto simp: Let_def)
  next
    case False
    then obtain v d where d: "store_get True st h = Some (v, d)" and new: "h \<notin> set visited" by auto
    let ?s = "(tree \<lparr> vt_directories := hm_insert path (h, d) (vt_directories tree) \<rparr>, hs_insert h visited)"
    have s1: "sorted_by id (snd ?s)" "set (snd ?s) = insert h (set visited)" using hs_insert_correct [OF sv, of h] by simp_all
    have "h \<in> dom st" using d by (auto simp: store_get_def split: option.splits)
    then have "dom st - insert h (set visited) \<subset> dom st - V" using new V by blast
    then have "card (dom st - insert h (set visited)) < card (dom st - V)" using fin by (intro psubset_card_mono) auto
    then have "ends_after (insert h (set visited)) (walk_directory depth n st hl h' p')" for h' p'
      using Suc.IH Suc.prems by simp
    then have "ends_after (insert h (set visited)) (walk_children (walk_directory depth n st hl) st path hl cs)" for cs
      by (rule walk_children_ends)
    then have w: "\<exists>r s'. walk_children (walk_directory depth n st hl) st path hl cs ?s = Some (r, s') \<and> sorted_by id (snd s') \<and>
        insert h (set visited) \<subseteq> set (snd s')" for cs
      using s1 unfolding ends_after_def by (metis order_refl)
    obtain x where x: "directory_children depth st hl d = Some x" using bt [OF d] by blast
    show ?thesis
      using d new x w s1 by (cases x) (auto simp: Let_def, blast)
  qed
  then show ?case unfolding ends_after_def by auto
qed simp

text \<open>The nodes of B-trees: a node and the node one of its children names.\<close>

definition node_child :: "dir_store \<Rightarrow> nat \<Rightarrow> (bytes \<times> bytes) set" where
  "node_child st hl = {(c, h). \<exists>v d ks cs. store_get True st h = Some (v, d) \<and> btree_deserialize d hl v = Inr (Internal ks cs) \<and> c \<in> set cs}"

lemma list_children_ends: "(\<And>c. c \<in> set cs \<Longrightarrow> f c \<noteq> None) \<Longrightarrow> list_children f cs \<noteq> None"
proof (induction cs)
  case (Cons c cs)
  obtain x where x: "f c = Some x" using Cons.prems [of c] by auto
  obtain y where y: "list_children f cs = Some y" using Cons.IH Cons.prems by auto
  show ?case using x y by (cases x; cases y) simp_all
qed simp

lemma btree_list_ends:
  assumes fin: "finite (dom st)" and acyc: "acyclic (node_child st hl)"
  shows "V \<subseteq> {a. (h, a) \<in> (node_child st hl)\<^sup>+} \<Longrightarrow> card (dom st - V) < n \<Longrightarrow> btree_list n st h hl True \<noteq> None"
proof (induction n arbitrary: h V)
  case (Suc n)
  show ?case
  proof (cases "load_node True ''B-tree root not found'' st hl h")
    case (Inr node)
    then obtain v d where d: "store_get True st h = Some (v, d)" "btree_deserialize d hl v = Inr node"
      by (auto simp: load_node_def ok_or_def split: option.splits)
    have dom: "h \<in> dom st" using d(1) by (auto simp: store_get_def split: option.splits)
    have new: "h \<notin> V" using Suc.prems(1) acyc by (auto simp: acyclic_def)
    have "dom st - insert h V \<subset> dom st - V" using dom new by blast
    then have less: "card (dom st - insert h V) < n"
      using fin Suc.prems(2) psubset_card_mono [of "dom st - V" "dom st - insert h V"] by simp
    show ?thesis
    proof (cases node)
      case (Internal ks cs)
      have "btree_list n st c hl True \<noteq> None" if "c \<in> set cs" for c
      proof (rule Suc.IH [OF _ less])
        have ch: "(c, h) \<in> node_child st hl" using d Internal that unfolding node_child_def by blast
        then show "insert h V \<subseteq> {a. (c, a) \<in> (node_child st hl)\<^sup>+}" using Suc.prems(1) by (auto intro: trancl_into_trancl2)
      qed
      then show ?thesis using Inr Internal list_children_ends by simp
    qed (use Inr in simp)
  qed simp
qed simp

lemma directory_children_ends:
  assumes "finite (dom st)" "acyclic (node_child st hl)"
  shows "directory_children (Suc (card (dom st))) st hl d \<noteq> None"
proof -
  have "list_children (\<lambda>c. btree_list (Suc (card (dom st))) st c hl True) cs \<noteq> None" for cs
    by (rule list_children_ends, rule btree_list_ends [OF assms, of "{}"]) simp_all
  then show ?thesis
    by (cases "btree_deserialize d hl 0") (auto simp: directory_children_def btree_list_from_node_def simp del: btree_list.simps split: btree_node.split)
qed

text \<open>C25: The walk of a version tree ends, also when damaged or hostile data makes a directory contain itself through
  any chain of directories, on every finite store in which no B-tree node contains itself through a chain of child
  nodes: one more than the number of stored entries is a bound of the nesting of directories and of the depth of
  each B-tree that is never exhausted.\<close>
theorem walk_version_tree_terminates:
  assumes "finite (dom st)" and "acyclic (node_child st hl)"
  shows "walk_version_tree (Suc (card (dom st))) (Suc (card (dom st))) st hl root_hash \<noteq> None"
proof -
  have "ends_after {} (walk_directory (Suc (card (dom st))) (Suc (card (dom st))) st hl root_hash (lit ''/''))"
    by (rule walk_directory_ends [OF assms(1) directory_children_ends [OF assms]]) simp_all
  then obtain r s' where
    "walk_directory (Suc (card (dom st))) (Suc (card (dom st))) st hl root_hash (lit ''/'') (version_tree_new, []) = Some (r, s')"
    unfolding ends_after_def by (metis empty_subsetI snd_conv list.simps(8) sorted_wrt.simps(1))
  then show ?thesis by (simp add: walk_version_tree_def)
qed

text \<open>A directory that contains itself under the name \<open>a\<close>.\<close>

definition sample_loop :: dir_store where
  "sample_loop = [replicate 32 7 \<mapsto> (False, 0, child_entry_bytes
    \<lparr> ce_entry_type = 3, ce_hash = replicate 32 7, ce_total_size = 0, ce_created_at = 1, ce_updated_at = 2, ce_name = [97],
      ce_content_type = None, ce_virtual_time = 3, ce_node_id = 4 \<rparr>)]"

theorem walk_version_tree_terminates_witness:
  "walk_version_tree 2 2 sample_loop 32 (replicate 32 7) \<noteq> None"
proof -
  have dom: "dom sample_loop = {replicate 32 7}" by (simp add: sample_loop_def)
  have "btree_deserialize d 32 v \<noteq> Inr (Internal ks cs)" if "store_get True sample_loop h = Some (v, d)" for h v d ks cs
    using that by (auto simp: store_get_def sample_loop_def child_entry_bytes_def btree_deserialize_def btree_deserialize_v0_def
        BTREE_LEAF_MARKER_def BTREE_INTERNAL_MARKER_def split: if_splits)
  then have "node_child sample_loop 32 = {}" unfolding node_child_def by fastforce
  then have "acyclic (node_child sample_loop 32)" by (simp add: acyclic_def)
  from walk_version_tree_terminates [OF _ this] dom show ?thesis by (simp add: numeral_2_eq_2)
qed

lemma btree_list_cycle:
  assumes "store_get True st h = Some (v, d)" "btree_deserialize d hl v = Inr (Internal ks (h # cs))"
  shows "btree_list n st h hl True = None"
proof (induction n)
  case (Suc n)
  then show ?case using assms by (simp add: load_node_def ok_or_def)
qed simp

text \<open>The walk does not end when the root is a B-tree node that is its own first child.  The set of visited
  directories, which is to prevent infinite recursion on corrupted data, does not see the nodes of a B-tree: no
  depth is enough, whatever the store holds otherwise.\<close>
theorem walk_diverges_on_node_cycle:
  assumes "store_get True st h = Some (0, d)" and "is_btree_format d"
    and "btree_deserialize d hl 0 = Inr (Internal ks (h # cs))"
  shows "walk_version_tree depth (Suc n) st hl h = None"
proof -
  have "directory_children depth st hl d = None"
    using assms(2,3) btree_list_cycle [OF assms(1,3)] by (simp add: directory_children_def btree_list_from_node_def)
  moreover have "d \<noteq> []" using assms(2) by (auto simp: is_btree_format_def)
  ultimately show ?thesis using assms(1) by (simp add: walk_version_tree_def Let_def)
qed

text \<open>An internal node without keys whose only child is the node itself.\<close>

definition sample_node_loop :: dir_store where
  "sample_node_loop = [[7] \<mapsto> (False, 0, [BTREE_INTERNAL_MARKER, 0, 0, 7])]"

theorem walk_diverges_on_node_cycle_witness:
  "\<forall>depth n. walk_version_tree depth (Suc n) sample_node_loop 1 [7] = None"
proof (intro allI, rule walk_diverges_on_node_cycle)
  show "store_get True sample_node_loop [7] = Some (0, [BTREE_INTERNAL_MARKER, 0, 0, 7])"
    by (simp add: store_get_def sample_node_loop_def)
  show "is_btree_format [BTREE_INTERNAL_MARKER, 0, 0, 7]" by code_simp
  show "btree_deserialize [BTREE_INTERNAL_MARKER, 0, 0, 7] 1 0 = Inr (Internal [] [[7]])" by code_simp
qed

text \<open>The visited set is keyed by content hash, so of two directories with equal content, here the empty directories
  \<open>/a\<close> and \<open>/b\<close>, only the first is in the tree.\<close>

definition sample_dir_entry :: "u8 \<Rightarrow> bytes \<Rightarrow> child_entry" where
  "sample_dir_entry c h = \<lparr> ce_entry_type = 3, ce_hash = h, ce_total_size = 0, ce_created_at = 1, ce_updated_at = 2,
    ce_name = [c], ce_content_type = None, ce_virtual_time = 3, ce_node_id = 4 \<rparr>"

definition sample_shared :: dir_store where
  "sample_shared = [[1] \<mapsto> (False, 0, child_entry_bytes (sample_dir_entry 97 [2]) @ child_entry_bytes (sample_dir_entry 98 [2])),
    [2] \<mapsto> (False, 0, [])]"

lemma walk_skips_equal_directory:
  "map_option (map_sum id (\<lambda>t. map fst (vt_directories t))) (walk_version_tree 0 3 sample_shared 1 [1]) =
    Some (Inr [lit ''/'', lit ''/a''])"
  by code_simp

end
