(* ===== verification/Tree_Merge.thy ===== *)
theory Tree_Merge
  imports Tree_Walker
begin

text \<open>
  The three-way merge of replication, \<^verbatim>\<open>merge.rs\<close>: the operations it emits and the conflicts it reports.  Two
  replicas that merge each other's changes since a common base decide for the same file and the same link at every
  path.  Carrying the operations out through the directories is not part of this theory.
\<close>

section \<open>Operations and conflicts\<close>

datatype conflict_type = ConcurrentModify | ModifyDelete | ConcurrentCreate

record conflict_version =
  cv_hash :: bytes
  cv_virtual_time :: u64
  cv_node_id :: u64
  cv_size :: u64
  cv_content_type :: "str option"

record conflict_entry =
  ce_path :: str
  ce_conflict_type :: conflict_type
  ce_winner :: conflict_version
  ce_loser :: conflict_version

datatype merge_op =
    AddFile str bytes file_record
  | DeleteFile str
  | AddSymlink str bytes symlink_record
  | DeleteSymlink str

record merge_result =
  mr_operations :: "merge_op list"
  mr_conflicts :: "conflict_entry list"

text \<open>\<^verbatim>\<open>updated_at.max(0) as u64\<close>.\<close>

definition clamp_time :: "i64 \<Rightarrow> u64" where
  "clamp_time t = (if sint t < 0 then 0 else t)"

definition local_wins :: "i64 \<Rightarrow> i64 \<Rightarrow> bytes \<Rightarrow> bytes \<Rightarrow> bool" where
  "local_wins local_time remote_time local_hash remote_hash =
    (case cmp (sint local_time) (sint remote_time) of
       Greater \<Rightarrow> True | Less \<Rightarrow> False | Equal \<Rightarrow> remote_hash \<le> local_hash)"

definition file_version :: "bytes \<Rightarrow> file_record \<Rightarrow> conflict_version" where
  "file_version h r = \<lparr> cv_hash = h, cv_virtual_time = clamp_time (fr_updated_at r), cv_node_id = 0,
    cv_size = fr_total_size r, cv_content_type = fr_content_type r \<rparr>"

definition symlink_version :: "bytes \<Rightarrow> symlink_record \<Rightarrow> conflict_version" where
  "symlink_version h r = \<lparr> cv_hash = h, cv_virtual_time = clamp_time (sl_updated_at r), cv_node_id = 0,
    cv_size = 0, cv_content_type = None \<rparr>"

definition empty_version :: conflict_version where
  "empty_version = \<lparr> cv_hash = [], cv_virtual_time = 0, cv_node_id = 0, cv_size = 0, cv_content_type = None \<rparr>"

section \<open>One path\<close>

definition resolve_file_conflict ::
  "str \<Rightarrow> bytes \<times> file_record \<Rightarrow> bool \<Rightarrow> bytes \<times> file_record \<Rightarrow> bool \<Rightarrow> merge_op list \<times> conflict_entry list" where
  "resolve_file_conflict path local local_is_add remote remote_is_add =
    (let (local_hash, local_record) = local; (remote_hash, remote_record) = remote;
         wins = local_wins (fr_updated_at local_record) (fr_updated_at remote_record) local_hash remote_hash;
         (winner_hash, winner_record, loser_hash, loser_record) =
           (if wins then (local_hash, local_record, remote_hash, remote_record)
            else (remote_hash, remote_record, local_hash, local_record)) in
     (if wins then [] else [AddFile path winner_hash winner_record],
      [\<lparr> ce_path = path,
         ce_conflict_type = (if local_is_add \<or> remote_is_add then ConcurrentCreate else ConcurrentModify),
         ce_winner = file_version winner_hash winner_record, ce_loser = file_version loser_hash loser_record \<rparr>]))"

definition make_modify_delete_conflict :: "str \<Rightarrow> bytes \<Rightarrow> file_record \<Rightarrow> conflict_entry" where
  "make_modify_delete_conflict path winner_hash winner_record =
    \<lparr> ce_path = path, ce_conflict_type = ModifyDelete, ce_winner = file_version winner_hash winner_record,
      ce_loser = empty_version \<rparr>"

definition opt_or :: "'a option \<Rightarrow> 'a option \<Rightarrow> 'a option" where
  "opt_or a b = (case a of None \<Rightarrow> b | Some _ \<Rightarrow> a)"

definition merge_file_path :: "tree_diff \<Rightarrow> tree_diff \<Rightarrow> str \<Rightarrow> merge_op list \<times> conflict_entry list" where
  "merge_file_path local_diff remote_diff path =
    (let local_added = hm_get (td_added local_diff) path;
         local_deleted = (path \<in> set (td_deleted local_diff));
         remote_added = hm_get (td_added remote_diff) path;
         remote_deleted = (path \<in> set (td_deleted remote_diff));
         local_change = opt_or local_added (hm_get (td_modified local_diff) path);
         remote_change = opt_or remote_added (hm_get (td_modified remote_diff) path) in
     case (local_change, local_deleted, remote_change, remote_deleted) of
       (None, False, Some (h, r), False) \<Rightarrow> ([AddFile path h r], [])
     | (Some _, False, None, False) \<Rightarrow> ([], [])
     | (Some (lh, lr), False, Some (rh, rr), False) \<Rightarrow>
         if lh = rh then ([], [])
         else resolve_file_conflict path (lh, lr) (local_added \<noteq> None) (rh, rr) (remote_added \<noteq> None)
     | (None, True, Some (h, r), False) \<Rightarrow> ([AddFile path h r], [make_modify_delete_conflict path h r])
     | (Some (h, r), False, None, True) \<Rightarrow> ([], [make_modify_delete_conflict path h r])
     | (None, False, None, True) \<Rightarrow> ([DeleteFile path], [])
     | _ \<Rightarrow> ([], []))"

definition symlink_modify_delete :: "str \<Rightarrow> bytes \<Rightarrow> symlink_record \<Rightarrow> conflict_entry" where
  "symlink_modify_delete path h r =
    \<lparr> ce_path = path, ce_conflict_type = ModifyDelete, ce_winner = symlink_version h r, ce_loser = empty_version \<rparr>"

definition resolve_symlink_conflict ::
  "str \<Rightarrow> bytes \<times> symlink_record \<Rightarrow> bool \<Rightarrow> bytes \<times> symlink_record \<Rightarrow> bool \<Rightarrow> merge_op list \<times> conflict_entry list" where
  "resolve_symlink_conflict path local local_is_add remote remote_is_add =
    (let (local_hash, local_record) = local; (remote_hash, remote_record) = remote;
         wins = local_wins (sl_updated_at local_record) (sl_updated_at remote_record) local_hash remote_hash;
         (winner_hash, winner_record, loser_hash, loser_record) =
           (if wins then (local_hash, local_record, remote_hash, remote_record)
            else (remote_hash, remote_record, local_hash, local_record)) in
     (if wins then [] else [AddSymlink path remote_hash remote_record],
      [\<lparr> ce_path = path,
         ce_conflict_type = (if local_is_add \<or> remote_is_add then ConcurrentCreate else ConcurrentModify),
         ce_winner = symlink_version winner_hash winner_record, ce_loser = symlink_version loser_hash loser_record \<rparr>]))"

definition merge_symlink_path :: "tree_diff \<Rightarrow> tree_diff \<Rightarrow> str \<Rightarrow> merge_op list \<times> conflict_entry list" where
  "merge_symlink_path local_diff remote_diff path =
    (let local_added = hm_get (td_symlinks_added local_diff) path;
         local_deleted = (path \<in> set (td_symlinks_deleted local_diff));
         remote_added = hm_get (td_symlinks_added remote_diff) path;
         remote_deleted = (path \<in> set (td_symlinks_deleted remote_diff));
         local_change = opt_or local_added (hm_get (td_symlinks_modified local_diff) path);
         remote_change = opt_or remote_added (hm_get (td_symlinks_modified remote_diff) path) in
     case (local_change, local_deleted, remote_change, remote_deleted) of
       (None, False, Some (h, r), False) \<Rightarrow> ([AddSymlink path h r], [])
     | (Some _, False, None, False) \<Rightarrow> ([], [])
     | (Some (lh, lr), False, Some (rh, rr), False) \<Rightarrow>
         if sl_target lr = sl_target rr then ([], [])
         else resolve_symlink_conflict path (lh, lr) (local_added \<noteq> None) (rh, rr) (remote_added \<noteq> None)
     | (None, True, Some (h, r), False) \<Rightarrow> ([AddSymlink path h r], [symlink_modify_delete path h r])
     | (Some (h, r), False, None, True) \<Rightarrow> ([], [symlink_modify_delete path h r])
     | (None, False, None, True) \<Rightarrow> ([DeleteSymlink path], [])
     | _ \<Rightarrow> ([], []))"

section \<open>All paths\<close>

definition insert_all :: "str list \<Rightarrow> str list \<Rightarrow> str list" where
  "insert_all paths s = fold hs_insert paths s"

definition all_file_paths :: "tree_diff \<Rightarrow> tree_diff \<Rightarrow> str list" where
  "all_file_paths local_diff remote_diff =
    (insert_all (td_deleted remote_diff) \<circ> insert_all (map fst (td_modified remote_diff)) \<circ>
     insert_all (map fst (td_added remote_diff)) \<circ> insert_all (td_deleted local_diff) \<circ>
     insert_all (map fst (td_modified local_diff)) \<circ> insert_all (map fst (td_added local_diff))) []"

definition all_symlink_paths :: "tree_diff \<Rightarrow> tree_diff \<Rightarrow> str list" where
  "all_symlink_paths local_diff remote_diff =
    (insert_all (td_symlinks_deleted remote_diff) \<circ> insert_all (map fst (td_symlinks_modified remote_diff)) \<circ>
     insert_all (map fst (td_symlinks_added remote_diff)) \<circ> insert_all (td_symlinks_deleted local_diff) \<circ>
     insert_all (map fst (td_symlinks_modified local_diff)) \<circ> insert_all (map fst (td_symlinks_added local_diff))) []"

text \<open>The loop appends to both vectors.\<close>

definition merge_paths ::
  "(str \<Rightarrow> merge_op list \<times> conflict_entry list) \<Rightarrow> str list \<Rightarrow> merge_op list \<times> conflict_entry list \<Rightarrow>
    merge_op list \<times> conflict_entry list" where
  "merge_paths step paths acc =
    fold (\<lambda>path (operations, conflicts). (operations @ fst (step path), conflicts @ snd (step path))) paths acc"

definition merge_files :: "tree_diff \<Rightarrow> tree_diff \<Rightarrow> merge_op list \<times> conflict_entry list \<Rightarrow> merge_op list \<times> conflict_entry list" where
  "merge_files local_diff remote_diff =
    merge_paths (merge_file_path local_diff remote_diff) (all_file_paths local_diff remote_diff)"

definition merge_symlinks :: "tree_diff \<Rightarrow> tree_diff \<Rightarrow> merge_op list \<times> conflict_entry list \<Rightarrow> merge_op list \<times> conflict_entry list" where
  "merge_symlinks local_diff remote_diff =
    merge_paths (merge_symlink_path local_diff remote_diff) (all_symlink_paths local_diff remote_diff)"

definition is_delete :: "merge_op \<Rightarrow> bool" where
  "is_delete op = (case op of DeleteFile _ \<Rightarrow> True | DeleteSymlink _ \<Rightarrow> True | _ \<Rightarrow> False)"

definition three_way_merge :: "tree_diff \<Rightarrow> tree_diff \<Rightarrow> merge_result" where
  "three_way_merge local_diff remote_diff =
    (let (operations, conflicts) = merge_symlinks local_diff remote_diff (merge_files local_diff remote_diff ([], [])) in
     \<lparr> mr_operations = sort_key is_delete operations, mr_conflicts = conflicts \<rparr>)"

section \<open>The operations of one path\<close>

fun op_path :: "merge_op \<Rightarrow> str" where
  "op_path (AddFile path h r) = path"
| "op_path (DeleteFile path) = path"
| "op_path (AddSymlink path h r) = path"
| "op_path (DeleteSymlink path) = path"

fun is_file_op :: "merge_op \<Rightarrow> bool" where
  "is_file_op (AddFile path h r) = True"
| "is_file_op (DeleteFile path) = True"
| "is_file_op (AddSymlink path h r) = False"
| "is_file_op (DeleteSymlink path) = False"

text \<open>The chunks of the file, and the target of the link, that a list of operations decides for a path where there was
  \<open>c\<close> before.\<close>

fun file_decision :: "merge_op list \<Rightarrow> str \<Rightarrow> bytes list option \<Rightarrow> bytes list option" where
  "file_decision [] p c = c"
| "file_decision (AddFile q h r # ops) p c = file_decision ops p (if q = p then Some (fr_chunk_hashes r) else c)"
| "file_decision (DeleteFile q # ops) p c = file_decision ops p (if q = p then None else c)"
| "file_decision (_ # ops) p c = file_decision ops p c"

fun link_decision :: "merge_op list \<Rightarrow> str \<Rightarrow> str option \<Rightarrow> str option" where
  "link_decision [] p c = c"
| "link_decision (AddSymlink q h r # ops) p c = link_decision ops p (if q = p then Some (sl_target r) else c)"
| "link_decision (DeleteSymlink q # ops) p c = link_decision ops p (if q = p then None else c)"
| "link_decision (_ # ops) p c = link_decision ops p c"

lemma file_decision_filter:
  "file_decision ops p c = file_decision (filter is_file_op (filter (\<lambda>op. op_path op = p) ops)) p c"
  by (induction ops p c rule: file_decision.induct) simp_all

lemma link_decision_filter:
  "link_decision ops p c = link_decision (filter (\<lambda>op. \<not> is_file_op op) (filter (\<lambda>op. op_path op = p) ops)) p c"
  by (induction ops p c rule: link_decision.induct) simp_all

lemma merge_paths_eq:
  "merge_paths step paths (ops, cs) = (ops @ concat (map (fst \<circ> step) paths), cs @ concat (map (snd \<circ> step) paths))"
  by (induction paths arbitrary: ops cs) (simp_all add: merge_paths_def)

lemma insert_all_correct:
  "sorted_by id s \<Longrightarrow> sorted_by id (insert_all ps s) \<and> set (insert_all ps s) = set ps \<union> set s"
proof (induction ps arbitrary: s)
  case (Cons p ps)
  note h = hs_insert_correct [OF Cons.prems, of p]
  show ?case using Cons.IH [OF h(1)] h(2) by (auto simp: insert_all_def)
qed (simp add: insert_all_def)

lemma insert_all_Nil: "sorted_by id (insert_all ps []) \<and> set (insert_all ps []) = set ps"
  using insert_all_correct [of "[]" ps] by simp

lemma insert_all_six:
  "sorted_by id ((insert_all f \<circ> insert_all e \<circ> insert_all d \<circ> insert_all c \<circ> insert_all b \<circ> insert_all a) [])"
  "set ((insert_all f \<circ> insert_all e \<circ> insert_all d \<circ> insert_all c \<circ> insert_all b \<circ> insert_all a) []) =
    set a \<union> set b \<union> set c \<union> set d \<union> set e \<union> set f"
proof -
  note s1 = insert_all_Nil [of a]
  note s2 = insert_all_correct [OF conjunct1 [OF s1], of b]
  note s3 = insert_all_correct [OF conjunct1 [OF s2], of c]
  note s4 = insert_all_correct [OF conjunct1 [OF s3], of d]
  note s5 = insert_all_correct [OF conjunct1 [OF s4], of e]
  note s6 = insert_all_correct [OF conjunct1 [OF s5], of f]
  show "sorted_by id ((insert_all f \<circ> insert_all e \<circ> insert_all d \<circ> insert_all c \<circ> insert_all b \<circ> insert_all a) [])"
    using s6 by simp
  show "set ((insert_all f \<circ> insert_all e \<circ> insert_all d \<circ> insert_all c \<circ> insert_all b \<circ> insert_all a) []) =
      set a \<union> set b \<union> set c \<union> set d \<union> set e \<union> set f"
    using s1 s2 s3 s4 s5 s6 by auto
qed

text \<open>The operations for one path are those of its step, and a path no side changed has none.\<close>

lemma filter_concat_paths:
  assumes "distinct paths" "\<And>q op. op \<in> set (f q) \<Longrightarrow> op_path op = q" "p \<notin> set paths \<Longrightarrow> f p = []"
  shows "filter (\<lambda>op. op_path op = p) (concat (map f paths)) = f p"
proof -
  have "filter (\<lambda>op. op_path op = p) (f q) = (if q = p then f p else [])" for q
    using assms(2) by (cases "q = p") (auto simp: filter_empty_conv intro!: filter_True)
  then have "filter (\<lambda>op. op_path op = p) (concat (map f paths)) = concat (map (\<lambda>q. if q = p then f p else []) paths)"
    by (simp add: filter_concat comp_def)
  also have "\<dots> = (if p \<in> set paths then f p else [])" using assms(1) by (induction paths) auto
  finally show ?thesis using assms(3) by simp
qed

lemma merge_file_path_ops:
  "op \<in> set (fst (merge_file_path l r q)) \<Longrightarrow> op_path op = q \<and> is_file_op op"
  "length (fst (merge_file_path l r q)) \<le> 1"
  by (auto simp: merge_file_path_def resolve_file_conflict_def Let_def split: option.splits bool.splits if_splits prod.splits)

lemma merge_symlink_path_ops:
  "op \<in> set (fst (merge_symlink_path l r q)) \<Longrightarrow> op_path op = q \<and> \<not> is_file_op op"
  "length (fst (merge_symlink_path l r q)) \<le> 1"
  by (auto simp: merge_symlink_path_def resolve_symlink_conflict_def Let_def split: option.splits bool.splits if_splits prod.splits)

text \<open>The vectors of a difference are in order.\<close>

definition diff_wf :: "tree_diff \<Rightarrow> bool" where
  "diff_wf d \<longleftrightarrow> sorted_by fst (td_added d) \<and> sorted_by fst (td_modified d) \<and>
    sorted_by fst (td_symlinks_added d) \<and> sorted_by fst (td_symlinks_modified d)"

lemma hm_get_absent: "sorted_by fst m \<Longrightarrow> k \<notin> fst ` set m \<Longrightarrow> hm_get m k = None"
  using hm_keys by blast

lemma merge_file_path_absent:
  assumes "diff_wf l" "diff_wf r" "p \<notin> set (all_file_paths l r)"
  shows "merge_file_path l r p = ([], [])"
proof -
  have n: "p \<notin> fst ` set (td_added l)" "p \<notin> fst ` set (td_modified l)" "p \<notin> set (td_deleted l)"
    "p \<notin> fst ` set (td_added r)" "p \<notin> fst ` set (td_modified r)" "p \<notin> set (td_deleted r)"
    using assms(3) unfolding all_file_paths_def insert_all_six by auto
  have "hm_get (td_added l) p = None" "hm_get (td_modified l) p = None" "hm_get (td_added r) p = None" "hm_get (td_modified r) p = None"
    using n assms(1,2) hm_get_absent unfolding diff_wf_def by blast+
  then show ?thesis using n by (simp add: merge_file_path_def opt_or_def)
qed

lemma merge_symlink_path_absent:
  assumes "diff_wf l" "diff_wf r" "p \<notin> set (all_symlink_paths l r)"
  shows "merge_symlink_path l r p = ([], [])"
proof -
  have n: "p \<notin> fst ` set (td_symlinks_added l)" "p \<notin> fst ` set (td_symlinks_modified l)" "p \<notin> set (td_symlinks_deleted l)"
    "p \<notin> fst ` set (td_symlinks_added r)" "p \<notin> fst ` set (td_symlinks_modified r)" "p \<notin> set (td_symlinks_deleted r)"
    using assms(3) unfolding all_symlink_paths_def insert_all_six by auto
  have "hm_get (td_symlinks_added l) p = None" "hm_get (td_symlinks_modified l) p = None"
    "hm_get (td_symlinks_added r) p = None" "hm_get (td_symlinks_modified r) p = None"
    using n assms(1,2) hm_get_absent unfolding diff_wf_def by blast+
  then show ?thesis using n by (simp add: merge_symlink_path_def opt_or_def)
qed

lemma three_way_merge_eq:
  "mr_operations (three_way_merge l r) = sort_key is_delete (concat (map (fst \<circ> merge_file_path l r) (all_file_paths l r)) @
      concat (map (fst \<circ> merge_symlink_path l r) (all_symlink_paths l r)))"
  "mr_conflicts (three_way_merge l r) = concat (map (snd \<circ> merge_file_path l r) (all_file_paths l r)) @
      concat (map (snd \<circ> merge_symlink_path l r) (all_symlink_paths l r))"
  by (simp_all add: three_way_merge_def merge_files_def merge_symlinks_def merge_paths_eq)

lemma merge_at_path:
  assumes "diff_wf l" "diff_wf r"
  shows "filter (\<lambda>op. op_path op = p) (mr_operations (three_way_merge l r)) =
    sort_key is_delete (fst (merge_file_path l r p) @ fst (merge_symlink_path l r p))"
proof -
  have f: "filter (\<lambda>op. op_path op = p) (concat (map (fst \<circ> merge_file_path l r) (all_file_paths l r))) = (fst \<circ> merge_file_path l r) p"
    by (rule filter_concat_paths)
      (use sorted_by_distinct [OF insert_all_six(1)] merge_file_path_ops merge_file_path_absent [OF assms] in
        \<open>auto simp: all_file_paths_def\<close>)
  have g: "filter (\<lambda>op. op_path op = p) (concat (map (fst \<circ> merge_symlink_path l r) (all_symlink_paths l r))) = (fst \<circ> merge_symlink_path l r) p"
    by (rule filter_concat_paths)
      (use sorted_by_distinct [OF insert_all_six(1)] merge_symlink_path_ops merge_symlink_path_absent [OF assms] in
        \<open>auto simp: all_symlink_paths_def\<close>)
  show ?thesis using f g by (simp add: three_way_merge_eq(1) filter_sort)
qed

text \<open>At most one operation per path and kind.\<close>

lemma ops_of_kind:
  assumes "diff_wf l" "diff_wf r"
  shows "filter is_file_op (filter (\<lambda>op. op_path op = p) (mr_operations (three_way_merge l r))) = fst (merge_file_path l r p)"
    "filter (\<lambda>op. \<not> is_file_op op) (filter (\<lambda>op. op_path op = p) (mr_operations (three_way_merge l r))) = fst (merge_symlink_path l r p)"
proof -
  let ?f = "fst (merge_file_path l r p)" and ?s = "fst (merge_symlink_path l r p)"
  have one: "sort_key is_delete xs = xs" if "length xs \<le> 1" for xs :: "merge_op list"
    using that by (cases xs) simp_all
  have k: "filter is_file_op ?f = ?f" "filter is_file_op ?s = []"
    "filter (\<lambda>op. \<not> is_file_op op) ?f = []" "filter (\<lambda>op. \<not> is_file_op op) ?s = ?s"
    using merge_file_path_ops(1) merge_symlink_path_ops(1) by (fastforce simp: filter_empty_conv filter_id_conv)+
  show "filter is_file_op (filter (\<lambda>op. op_path op = p) (mr_operations (three_way_merge l r))) = ?f"
    unfolding merge_at_path [OF assms] filter_sort by (simp add: k one [OF merge_file_path_ops(2)])
  show "filter (\<lambda>op. \<not> is_file_op op) (filter (\<lambda>op. op_path op = p) (mr_operations (three_way_merge l r))) = ?s"
    unfolding merge_at_path [OF assms] filter_sort by (simp add: k one [OF merge_symlink_path_ops(2)])
qed

lemma distinct_by_filter:
  assumes "\<And>k. length (filter (\<lambda>x. f x = k) xs) \<le> 1"
  shows "distinct (map f xs)"
  using assms
proof (induction xs)
  case (Cons x xs)
  have "filter (\<lambda>y. f y = f x) xs = []" using Cons.prems [of "f x"] by simp
  then have "f x \<notin> f ` set xs" by (fastforce simp: filter_empty_conv)
  moreover have "length (filter (\<lambda>x. f x = k) xs) \<le> 1" for k using Cons.prems [of k] by (auto split: if_splits)
  ultimately show ?case using Cons.IH by simp
qed simp

lemma merge_ops_distinct:
  assumes "diff_wf l" "diff_wf r"
  shows "distinct (map (\<lambda>op. (is_file_op op, op_path op)) (mr_operations (three_way_merge l r)))"
proof (rule distinct_by_filter)
  fix k :: "bool \<times> str"
  show "length (filter (\<lambda>op. (is_file_op op, op_path op) = k) (mr_operations (three_way_merge l r))) \<le> 1"
    using ops_of_kind [OF assms, of "snd k"] merge_file_path_ops(2) [of l r "snd k"] merge_symlink_path_ops(2) [of l r "snd k"]
    by (cases k; cases "fst k") (simp_all add: conj_commute)
qed

section \<open>The merged content\<close>

text \<open>The specification: a side that did not change the content gives way, a change wins over a deletion, and of two
  changes the later one wins, the larger hash at equal times.\<close>

definition newer :: "i64 \<Rightarrow> bytes \<Rightarrow> i64 \<Rightarrow> bytes \<Rightarrow> bool" where
  "newer t h t' h' \<longleftrightarrow> sint t > sint t' \<or> t = t' \<and> h \<ge> h'"

definition merged ::
  "('r \<Rightarrow> 'c) \<Rightarrow> ('r \<Rightarrow> i64) \<Rightarrow> (bytes \<times> 'r) option \<Rightarrow> (bytes \<times> 'r) option \<Rightarrow> (bytes \<times> 'r) option \<Rightarrow> 'c option" where
  "merged content time b l r =
    (let c = map_option (content \<circ> snd) in
     if c r = c b then c l
     else if c l = c b then c r
     else case (l, r) of
         (None, _) \<Rightarrow> c r
       | (_, None) \<Rightarrow> c l
       | (Some (lh, lr), Some (rh, rr)) \<Rightarrow>
           Some (content (if newer (time lr) lh (time rr) rh then lr else rr)))"

definition merged_file :: "version_tree \<Rightarrow> version_tree \<Rightarrow> version_tree \<Rightarrow> str \<Rightarrow> bytes list option" where
  "merged_file base local remote path =
    merged fr_chunk_hashes fr_updated_at (hm_get (vt_files base) path) (hm_get (vt_files local) path) (hm_get (vt_files remote) path)"

definition merged_link :: "version_tree \<Rightarrow> version_tree \<Rightarrow> version_tree \<Rightarrow> str \<Rightarrow> str option" where
  "merged_link base local remote path =
    merged sl_target sl_updated_at (hm_get (vt_symlinks base) path) (hm_get (vt_symlinks local) path) (hm_get (vt_symlinks remote) path)"

text \<open>What a tree holds at a path.\<close>

definition file_at :: "version_tree \<Rightarrow> str \<Rightarrow> bytes list option" where
  "file_at t path = map_option (fr_chunk_hashes \<circ> snd) (hm_get (vt_files t) path)"

definition link_at :: "version_tree \<Rightarrow> str \<Rightarrow> str option" where
  "link_at t path = map_option (sl_target \<circ> snd) (hm_get (vt_symlinks t) path)"

definition same_hash_same_content :: "('r \<Rightarrow> 'c) \<Rightarrow> (bytes \<times> 'r) option \<Rightarrow> (bytes \<times> 'r) option \<Rightarrow> bool" where
  "same_hash_same_content content l r \<longleftrightarrow> (case (l, r) of (Some (lh, lr), Some (rh, rr)) \<Rightarrow> lh = rh \<longrightarrow> content lr = content rr | _ \<Rightarrow> True)"

lemma sint_eq_iff: "sint (a :: i64) = sint b \<longleftrightarrow> a = b"
  by (metis signed_word_eqI)

lemma newer_total: "h \<noteq> h' \<Longrightarrow> newer t h t' h' \<longleftrightarrow> \<not> newer t' h' t h"
  unfolding newer_def using sint_eq_iff [of t t'] linear [of h h']
  by (cases "sint t" "sint t'" rule: linorder_cases) auto

lemma merged_commute:
  assumes "same_hash_same_content content l r"
  shows "merged content time b l r = merged content time b r l"
proof (cases l; cases r)
  fix x y
  assume "l = Some x" "r = Some y"
  then obtain lh lr rh rr where lr: "l = Some (lh, lr)" "r = Some (rh, rr)" by (cases x; cases y) auto
  show ?thesis
  proof (cases "lh = rh")
    case True
    then show ?thesis using assms by (simp add: lr merged_def same_hash_same_content_def Let_def)
  next
    case False
    then show ?thesis using newer_total [OF False, of "time lr" "time rr"] by (simp add: lr merged_def Let_def)
  qed
qed (simp_all add: merged_def Let_def)

definition tree_wf :: "version_tree \<Rightarrow> bool" where
  "tree_wf t \<longleftrightarrow> sorted_by fst (vt_files t) \<and> sorted_by fst (vt_symlinks t)"

lemma diff_trees_wf: "tree_wf target \<Longrightarrow> diff_wf (diff_trees base target)"
  by (simp add: diff_wf_def tree_wf_def diff_trees_def Let_def case_prod_unfold diff_entries_correct(1,2))

lemma diff_trees_at:
  assumes "tree_wf base" "tree_wf target"
  shows "hm_get (td_added (diff_trees base target)) p = (if hm_get (vt_files base) p = None then hm_get (vt_files target) p else None)"
    "hm_get (td_modified (diff_trees base target)) p = (case (hm_get (vt_files base) p, hm_get (vt_files target) p) of
      (Some (_, b), Some (h, r)) \<Rightarrow> if fr_chunk_hashes b \<noteq> fr_chunk_hashes r then Some (h, r) else None | _ \<Rightarrow> None)"
    "p \<in> set (td_deleted (diff_trees base target)) \<longleftrightarrow> hm_get (vt_files base) p \<noteq> None \<and> hm_get (vt_files target) p = None"
    "hm_get (td_symlinks_added (diff_trees base target)) p = (if hm_get (vt_symlinks base) p = None then hm_get (vt_symlinks target) p else None)"
    "hm_get (td_symlinks_modified (diff_trees base target)) p = (case (hm_get (vt_symlinks base) p, hm_get (vt_symlinks target) p) of
      (Some (_, b), Some (h, r)) \<Rightarrow> if sl_target b \<noteq> sl_target r then Some (h, r) else None | _ \<Rightarrow> None)"
    "p \<in> set (td_symlinks_deleted (diff_trees base target)) \<longleftrightarrow> hm_get (vt_symlinks base) p \<noteq> None \<and> hm_get (vt_symlinks target) p = None"
  using assms unfolding tree_wf_def
  by (simp_all add: diff_trees_def Let_def case_prod_unfold diff_entries_correct(3,4) diff_deleted_correct)

lemma local_wins_eq:
  "local_wins lt rt lh rh \<longleftrightarrow> newer lt lh rt rh"
  unfolding local_wins_def newer_def using sint_eq_iff [of lt rt]
  by (cases "sint lt" "sint rt" rule: linorder_cases) (auto simp: cmp_def)

text \<open>The file step and the link step decide as specified.\<close>

lemma merge_file_decides:
  assumes wf: "tree_wf base" "tree_wf local" "tree_wf remote"
    and h: "same_hash_same_content fr_chunk_hashes (hm_get (vt_files local) p) (hm_get (vt_files remote) p)"
  shows "file_decision (mr_operations (three_way_merge (diff_trees base local) (diff_trees base remote))) p (file_at local p) =
    merged_file base local remote p"
proof -
  note d = diff_trees_at(1-3) [OF wf(1,2), of p] diff_trees_at(1-3) [OF wf(1,3), of p]
  show ?thesis
    using h unfolding file_decision_filter [of "mr_operations _"] ops_of_kind [OF diff_trees_wf [OF wf(2)] diff_trees_wf [OF wf(3)]]
    by (cases "hm_get (vt_files base) p"; cases "hm_get (vt_files local) p"; cases "hm_get (vt_files remote) p")
      (auto simp: merge_file_path_def d opt_or_def merged_def Let_def resolve_file_conflict_def local_wins_eq
        same_hash_same_content_def file_at_def merged_file_def)
qed

lemma merge_link_decides:
  assumes wf: "tree_wf base" "tree_wf local" "tree_wf remote"
  shows "link_decision (mr_operations (three_way_merge (diff_trees base local) (diff_trees base remote))) p (link_at local p) =
    merged_link base local remote p"
proof -
  note d = diff_trees_at(4-6) [OF wf(1,2), of p] diff_trees_at(4-6) [OF wf(1,3), of p]
  show ?thesis
    unfolding link_decision_filter [of "mr_operations _"] ops_of_kind [OF diff_trees_wf [OF wf(2)] diff_trees_wf [OF wf(3)]]
    by (cases "hm_get (vt_symlinks base) p"; cases "hm_get (vt_symlinks local) p"; cases "hm_get (vt_symlinks remote) p")
      (auto simp: merge_symlink_path_def d opt_or_def merged_def Let_def resolve_symlink_conflict_def local_wins_eq
        link_at_def merged_link_def)
qed

section \<open>Both replicas\<close>

text \<open>At one path, equal hashes stand for equal content.\<close>

definition hashes_identify :: "version_tree \<Rightarrow> version_tree \<Rightarrow> bool" where
  "hashes_identify local remote \<longleftrightarrow> (\<forall>p.
    same_hash_same_content fr_chunk_hashes (hm_get (vt_files local) p) (hm_get (vt_files remote) p) \<and>
    same_hash_same_content sl_target (hm_get (vt_symlinks local) p) (hm_get (vt_symlinks remote) p))"

lemma same_hash_sym: "same_hash_same_content c l r = same_hash_same_content c r l"
  by (cases l; cases r) (auto simp: same_hash_same_content_def)

lemma hashes_identify_sym: "hashes_identify l r \<Longrightarrow> hashes_identify r l"
  unfolding hashes_identify_def by (metis same_hash_sym)

lemma merged_sides_commute:
  assumes "hashes_identify l r"
  shows "merged_file b l r p = merged_file b r l p" "merged_link b l r p = merged_link b r l p"
  using assms merged_commute unfolding merged_file_def merged_link_def hashes_identify_def by blast+

text \<open>The conflicts are the same seen from either side.\<close>

lemma all_paths_commute:
  "all_file_paths l r = all_file_paths r l" "all_symlink_paths l r = all_symlink_paths r l"
proof -
  have "all_file_paths l r = all_file_paths r l"
    unfolding all_file_paths_def by (rule sorted_by_set_eq [OF insert_all_six(1) insert_all_six(1)]) (auto simp only: insert_all_six(2))
  moreover have "all_symlink_paths l r = all_symlink_paths r l"
    unfolding all_symlink_paths_def by (rule sorted_by_set_eq [OF insert_all_six(1) insert_all_six(1)]) (auto simp only: insert_all_six(2))
  ultimately show "all_file_paths l r = all_file_paths r l" "all_symlink_paths l r = all_symlink_paths r l" by blast+
qed

lemma file_conflicts_commute: "snd (merge_file_path l r p) = snd (merge_file_path r l p)"
proof -
  have "snd (resolve_file_conflict p (lh, lr) a (rh, rr) b) = snd (resolve_file_conflict p (rh, rr) b (lh, lr) a)" if "lh \<noteq> rh" for lh lr rh rr a b
    using newer_total [OF that, of "fr_updated_at lr" "fr_updated_at rr"]
    by (simp add: resolve_file_conflict_def local_wins_eq Let_def disj_commute)
  then show ?thesis
    by (auto simp: merge_file_path_def Let_def split: option.splits bool.splits)
qed

lemma symlink_conflicts_commute:
  assumes "tree_wf base" "tree_wf local" "tree_wf remote" "hashes_identify local remote"
  defines "l \<equiv> diff_trees base local" and "r \<equiv> diff_trees base remote"
  shows "snd (merge_symlink_path l r p) = snd (merge_symlink_path r l p)"
proof -
  have c: "snd (resolve_symlink_conflict p (lh, lr) a (rh, rr) b) = snd (resolve_symlink_conflict p (rh, rr) b (lh, lr) a)" if "lh \<noteq> rh" for lh lr rh rr a b
    using newer_total [OF that, of "sl_updated_at lr" "sl_updated_at rr"]
    by (simp add: resolve_symlink_conflict_def local_wins_eq Let_def disj_commute)
  note d = diff_trees_at(4-6) [OF assms(1,2), of p] diff_trees_at(4-6) [OF assms(1,3), of p]
  have h: "same_hash_same_content sl_target (hm_get (vt_symlinks local) p) (hm_get (vt_symlinks remote) p)"
    using assms(4) by (simp add: hashes_identify_def)
  show ?thesis
    using h unfolding l_def r_def merge_symlink_path_def d
    by (cases "hm_get (vt_symlinks base) p"; cases "hm_get (vt_symlinks local) p"; cases "hm_get (vt_symlinks remote) p")
      (auto simp: opt_or_def Let_def same_hash_same_content_def intro!: c)
qed

text \<open>C3: Two replicas that merge each other's changes decide alike. Let \<open>base\<close>, \<open>local\<close> and \<open>remote\<close> be version
  trees in which equal hashes at a path stand for equal content. The operations merged from the local and the remote
  difference decide for every path the merged file and the merged link: the side that did not change gives way, a
  change wins over a deletion, and of two changes the one with the later timestamp wins, the larger hash at equal
  times. The remote replica, which merges with the sides exchanged, decides for the same and reports the same
  conflicts with the same winners. There is at most one operation per path and kind, and every addition comes before
  every deletion. The statement is about the operations; whether the directories can hold what they ask for, a file
  at a path and another below it, is not decided by the merge.\<close>
theorem three_way_merge_agrees:
  assumes "tree_wf base" and "tree_wf local" and "tree_wf remote" and "hashes_identify local remote"
    and a: "a = three_way_merge (diff_trees base local) (diff_trees base remote)"
    and b: "b = three_way_merge (diff_trees base remote) (diff_trees base local)"
  shows "file_decision (mr_operations a) p (file_at local p) = merged_file base local remote p \<and>
    file_decision (mr_operations b) p (file_at remote p) = merged_file base local remote p \<and>
    link_decision (mr_operations a) p (link_at local p) = merged_link base local remote p \<and>
    link_decision (mr_operations b) p (link_at remote p) = merged_link base local remote p \<and>
    mr_conflicts a = mr_conflicts b \<and>
    distinct (map (\<lambda>op. (is_file_op op, op_path op)) (mr_operations a)) \<and> sorted (map is_delete (mr_operations a))"
proof -
  have h: "same_hash_same_content fr_chunk_hashes (hm_get (vt_files local) p) (hm_get (vt_files remote) p)"
    "same_hash_same_content fr_chunk_hashes (hm_get (vt_files remote) p) (hm_get (vt_files local) p)"
    using assms(4) hashes_identify_sym [OF assms(4)] by (simp_all add: hashes_identify_def)
  have "mr_conflicts a = mr_conflicts b"
    unfolding a b three_way_merge_eq(2) all_paths_commute [of "diff_trees base remote"]
    by (simp add: comp_def file_conflicts_commute [of "diff_trees base remote"] symlink_conflicts_commute [OF assms(1-4)])
  then show ?thesis
    using merge_file_decides [OF assms(1-3) h(1)] merge_file_decides [OF assms(1,3,2) h(2)]
      merge_link_decides [OF assms(1-3), of p] merge_link_decides [OF assms(1,3,2), of p]
      merged_sides_commute [OF assms(4), of base p]
      merge_ops_distinct [OF diff_trees_wf [OF assms(2)] diff_trees_wf [OF assms(3)], of base base]
    by (simp add: a b three_way_merge_eq(1))
qed

text \<open>A base with the files \<open>/a\<close>, \<open>/b\<close>; the local side changed both, the remote side changed \<open>/a\<close> later and deleted
  \<open>/b\<close>.\<close>

definition sample_file :: "u8 \<Rightarrow> i64 \<Rightarrow> u8 \<Rightarrow> bytes \<times> file_record" where
  "sample_file name time c = ([name, c], \<lparr> fr_path = [47, name], fr_content_type = None, fr_total_size = 1, fr_created_at = 1,
    fr_updated_at = time, fr_metadata = [], fr_content_hash = [], fr_chunk_hashes = [[c]] \<rparr>)"

definition sample_version :: "(str \<times> bytes \<times> file_record) list \<Rightarrow> version_tree" where
  "sample_version files = \<lparr> vt_files = files, vt_directories = [], vt_chunks = [], vt_symlinks = [] \<rparr>"

theorem three_way_merge_agrees_witness:
  "\<exists>base local remote. merged_file base local remote (lit ''/a'') = Some [[3]] \<and>
    merged_file base local remote (lit ''/b'') = Some [[2]] \<and>
    file_decision (mr_operations (three_way_merge (diff_trees base local) (diff_trees base remote))) (lit ''/a'') (file_at local (lit ''/a'')) = Some [[3]] \<and>
    file_decision (mr_operations (three_way_merge (diff_trees base remote) (diff_trees base local))) (lit ''/b'') (file_at remote (lit ''/b'')) = Some [[2]]"
proof -
  define base where "base = sample_version [(lit ''/a'', sample_file 97 5 1), (lit ''/b'', sample_file 98 5 1)]"
  define local where "local = sample_version [(lit ''/a'', sample_file 97 6 2), (lit ''/b'', sample_file 98 6 2)]"
  define remote where "remote = sample_version [(lit ''/a'', sample_file 97 7 3)]"
  have wf: "tree_wf base" "tree_wf local" "tree_wf remote"
    by (simp_all add: tree_wf_def base_def local_def remote_def sample_version_def lit_def)
  have h: "hashes_identify local remote"
    using wf unfolding tree_wf_def
    by (auto simp: hashes_identify_def same_hash_same_content_def local_def remote_def sample_version_def sample_file_def hm_get_kmap
        split: option.splits if_splits)
  have "merged_file base local remote (lit ''/a'') = Some [[3]]" "merged_file base local remote (lit ''/b'') = Some [[2]]"
    unfolding base_def local_def remote_def by code_simp+
  then show ?thesis
    using three_way_merge_agrees [OF wf h refl refl, of "lit ''/a''"] three_way_merge_agrees [OF wf h refl refl, of "lit ''/b''"]
    by (intro exI [of _ base] exI [of _ local] exI [of _ remote]) simp
qed

lemma conflict_paths:
  "c \<in> set (snd (merge_file_path l r q)) \<Longrightarrow> ce_path c = q"
  "c \<in> set (snd (merge_symlink_path l r q)) \<Longrightarrow> ce_path c = q"
  by (auto simp: merge_file_path_def resolve_file_conflict_def make_modify_delete_conflict_def merge_symlink_path_def
      resolve_symlink_conflict_def symlink_modify_delete_def Let_def split: option.splits bool.splits if_splits prod.splits)

lemma kind_clash_steps:
  assumes wf: "tree_wf base" "tree_wf local" "tree_wf remote"
    and b: "hm_get (vt_files base) p = None" "hm_get (vt_symlinks base) p = None"
    and l: "hm_get (vt_files local) p = Some (fh, fr)" "hm_get (vt_symlinks local) p = None"
    and r: "hm_get (vt_symlinks remote) p = Some (sh, sr)" "hm_get (vt_files remote) p = None"
  shows "merge_file_path (diff_trees base local) (diff_trees base remote) p = ([], [])"
    "merge_symlink_path (diff_trees base local) (diff_trees base remote) p = ([AddSymlink p sh sr], [])"
    "merge_file_path (diff_trees base remote) (diff_trees base local) p = ([AddFile p fh fr], [])"
    "merge_symlink_path (diff_trees base remote) (diff_trees base local) p = ([], [])"
  using b l r diff_trees_at [OF wf(1,2), of p] diff_trees_at [OF wf(1,3), of p]
  by (simp_all add: merge_file_path_def merge_symlink_path_def opt_or_def)

text \<open>C37: A path that one side added as a file and the other as a symbolic link, and that neither kind had in the
  base, is merged silently and in opposite ways: the only operation the local side gets for the path is to add the
  link, the only one the remote side gets is to add the file, and neither side reports a conflict there.\<close>
theorem merge_kind_clash:
  assumes wf: "tree_wf base" "tree_wf local" "tree_wf remote"
    and base: "hm_get (vt_files base) p = None" "hm_get (vt_symlinks base) p = None"
    and local: "hm_get (vt_files local) p = Some (fh, fr)" "hm_get (vt_symlinks local) p = None"
    and remote: "hm_get (vt_symlinks remote) p = Some (sh, sr)" "hm_get (vt_files remote) p = None"
    and a: "a = three_way_merge (diff_trees base local) (diff_trees base remote)"
    and b: "b = three_way_merge (diff_trees base remote) (diff_trees base local)"
  shows "filter (\<lambda>op. op_path op = p) (mr_operations a) = [AddSymlink p sh sr] \<and>
    filter (\<lambda>op. op_path op = p) (mr_operations b) = [AddFile p fh fr] \<and>
    p \<notin> ce_path ` set (mr_conflicts a) \<and> p \<notin> ce_path ` set (mr_conflicts b)"
proof -
  note steps = kind_clash_steps [OF wf base local remote]
  note dl = diff_trees_wf [OF wf(2), of base] and dr = diff_trees_wf [OF wf(3), of base]
  have "p \<notin> ce_path ` set (mr_conflicts a)" "p \<notin> ce_path ` set (mr_conflicts b)"
    using conflict_paths steps unfolding a b three_way_merge_eq(2) by (fastforce simp: image_iff)+
  then show ?thesis unfolding a b merge_at_path [OF dl dr] merge_at_path [OF dr dl] steps by simp
qed

theorem merge_kind_clash_witness:
  "\<exists>base local remote h h' r r'. hm_get (vt_files base) (lit ''/b'') \<noteq> None \<and>
    filter (\<lambda>op. op_path op = lit ''/a'') (mr_operations (three_way_merge (diff_trees base local) (diff_trees base remote))) = [AddSymlink (lit ''/a'') h r] \<and>
    filter (\<lambda>op. op_path op = lit ''/a'') (mr_operations (three_way_merge (diff_trees base remote) (diff_trees base local))) = [AddFile (lit ''/a'') h' r']"
proof -
  define base where "base = sample_version [(lit ''/b'', sample_file 98 5 1)]"
  define local where "local = sample_version [(lit ''/a'', sample_file 97 5 1), (lit ''/b'', sample_file 98 5 1)]"
  define remote where "remote = base \<lparr> vt_symlinks := [(lit ''/a'', [9], symlink_record_new 5 (lit ''/a'') (lit ''/b''))] \<rparr>"
  have wf: "tree_wf base" "tree_wf local" "tree_wf remote"
    by (simp_all add: tree_wf_def base_def local_def remote_def sample_version_def lit_def)
  have "hm_get (vt_files base) (lit ''/a'') = None" "hm_get (vt_symlinks base) (lit ''/a'') = None"
    "hm_get (vt_files local) (lit ''/a'') = Some ([97, 1], snd (sample_file 97 5 1))" "hm_get (vt_symlinks local) (lit ''/a'') = None"
    "hm_get (vt_symlinks remote) (lit ''/a'') = Some ([9], symlink_record_new 5 (lit ''/a'') (lit ''/b''))"
    "hm_get (vt_files remote) (lit ''/a'') = None" "hm_get (vt_files base) (lit ''/b'') \<noteq> None"
    unfolding local_def remote_def base_def by code_simp+
  then show ?thesis using merge_kind_clash [OF wf _ _ _ _ _ _ refl refl] by blast
qed

end
