(* ===== verification/Operation_Tracker.thy ===== *)
theory Operation_Tracker
  imports Aeor_Prelude
begin

text \<open>
  The operation tracker of \<^verbatim>\<open>storage_engine.rs\<close>: every engine call opens a guard, calls made inside another
  call on the same thread are not counted again, and after \<^verbatim>\<open>begin_shutdown\<close> no new outermost call is let in,
  so that shutdown can wait until the calls in progress have ended.  Threads interleave: a system state has
  one stack of engine identifiers (the thread-local variable) and one list of open guards per thread, and a
  tracker per engine; guards are dropped in the reverse order of their creation, as values of nested scopes
  are.  Each thread also carries the list of its calls in progress, which the program does not keep, to say what is
  to be counted.  The lemmas show that the counter is exact in every reachable state and that shutdown drains.
\<close>

section \<open>The tracker\<close>

record op_state =
  os_shutting_down :: bool
  os_active :: nat
  os_operations :: "(str \<times> nat) list"

definition op_state_default :: op_state where
  "op_state_default = \<lparr> os_shutting_down = False, os_active = 0, os_operations = [] \<rparr>"

record op_guard =
  og_operation :: str
  og_engine_id :: nat
  og_counted :: bool

record op_snapshot =
  osn_shutting_down :: bool
  osn_active :: nat
  osn_operations :: "(str \<times> nat) list"

text \<open>\<^verbatim>\<open>begin\<close>: the result, the stack of the thread (last element on top) and the tracker afterwards.\<close>

definition tracker_begin ::
  "nat \<Rightarrow> str \<Rightarrow> nat list \<Rightarrow> op_state \<Rightarrow> op_guard engine_result \<times> nat list \<times> op_state" where
  "tracker_begin engine_id operation stack state =
    (let nested = engine_id \<in> set stack; stack1 = stack @ [engine_id] in
     if nested
     then (Inr \<lparr> og_operation = operation, og_engine_id = engine_id, og_counted = False \<rparr>, stack1, state)
     else if os_shutting_down state then (Inl ShuttingDown, butlast stack1, state)
     else (Inr \<lparr> og_operation = operation, og_engine_id = engine_id, og_counted = True \<rparr>, stack1,
       state\<lparr> os_active := os_active state + 1,
              os_operations := hm_insert operation
                ((case hm_get (os_operations state) operation of None \<Rightarrow> 0 | Some n \<Rightarrow> n) + 1) (os_operations state) \<rparr>))"

definition internal_operation_scope :: "nat \<Rightarrow> str \<Rightarrow> nat list \<Rightarrow> op_guard \<times> nat list" where
  "internal_operation_scope engine_id operation stack =
    (\<lparr> og_operation = operation, og_engine_id = engine_id, og_counted = False \<rparr>, stack @ [engine_id])"

definition tracker_begin_shutdown :: "op_state \<Rightarrow> op_state" where
  "tracker_begin_shutdown state = state\<lparr> os_shutting_down := True \<rparr>"

definition tracker_snapshot :: "op_state \<Rightarrow> op_snapshot" where
  "tracker_snapshot state =
    \<lparr> osn_shutting_down = os_shutting_down state, osn_active = os_active state,
      osn_operations = sort_key fst (os_operations state) \<rparr>"

text \<open>
  The wait: each element of the list is a return of \<^verbatim>\<open>wait_timeout\<close>, the state seen under the lock and
  whether the wait timed out; the list ends when the deadline has passed before the next wait.
\<close>

fun wait_until_idle :: "(op_state \<times> bool) list \<Rightarrow> op_state \<Rightarrow> op_snapshot" where
  "wait_until_idle [] state = tracker_snapshot state"
| "wait_until_idle ((next_state, timed_out) # wakeups) state =
    (if os_active state > 0 then
       (if timed_out then tracker_snapshot next_state else wait_until_idle wakeups next_state)
     else tracker_snapshot state)"

definition guard_drop :: "op_guard \<Rightarrow> nat list \<Rightarrow> op_state \<Rightarrow> nat list \<times> op_state" where
  "guard_drop g stack state =
    (let stack1 = butlast stack in
     if \<not> og_counted g then (stack1, state)
     else
       let state1 = state\<lparr> os_active := os_active state - 1 \<rparr> in
       (stack1,
        case hm_get (os_operations state1) (og_operation g) of
          None \<Rightarrow> state1
        | Some n \<Rightarrow>
            if n - 1 = 0
            then state1\<lparr> os_operations := vec_delete fst (og_operation g) (os_operations state1) \<rparr>
            else state1\<lparr> os_operations := hm_insert (og_operation g) (n - 1) (os_operations state1) \<rparr>))"

section \<open>Threads\<close>

text \<open>A call in progress: the engine, the operation, and whether it is an internal scope, which is not counted.\<close>

record op_call =
  oc_engine_id :: nat
  oc_operation :: str
  oc_internal :: bool

record op_thread =
  th_stack :: "nat list"
  th_guards :: "op_guard list"
  th_calls :: "op_call list"

record op_system =
  sys_threads :: "op_thread list"
  sys_tracker :: "nat \<Rightarrow> op_state"

definition op_system_init :: "nat \<Rightarrow> op_system" where
  "op_system_init n =
    \<lparr> sys_threads = replicate n \<lparr> th_stack = [], th_guards = [], th_calls = [] \<rparr>, sys_tracker = (\<lambda>_. op_state_default) \<rparr>"

text \<open>One step of one thread; the guards and the calls of a thread are listed newest first.\<close>

inductive op_step :: "op_system \<Rightarrow> op_system \<Rightarrow> bool" where
  op_begin: "t < length (sys_threads s) \<Longrightarrow> th = sys_threads s ! t \<Longrightarrow>
    tracker_begin i operation (th_stack th) (sys_tracker s i) = (Inr g, stack, state) \<Longrightarrow>
    op_step s (s\<lparr> sys_threads := (sys_threads s)[t := \<lparr> th_stack = stack, th_guards = g # th_guards th,
                   th_calls = \<lparr> oc_engine_id = i, oc_operation = operation, oc_internal = False \<rparr> # th_calls th \<rparr>],
                 sys_tracker := (sys_tracker s)(i := state) \<rparr>)"
| op_refused: "t < length (sys_threads s) \<Longrightarrow> th = sys_threads s ! t \<Longrightarrow>
    tracker_begin i operation (th_stack th) (sys_tracker s i) = (Inl e, stack, state) \<Longrightarrow>
    op_step s (s\<lparr> sys_threads := (sys_threads s)[t := th\<lparr> th_stack := stack \<rparr>],
                 sys_tracker := (sys_tracker s)(i := state) \<rparr>)"
| op_internal: "t < length (sys_threads s) \<Longrightarrow> th = sys_threads s ! t \<Longrightarrow>
    internal_operation_scope i operation (th_stack th) = (g, stack) \<Longrightarrow>
    op_step s (s\<lparr> sys_threads := (sys_threads s)[t := \<lparr> th_stack = stack, th_guards = g # th_guards th,
                   th_calls = \<lparr> oc_engine_id = i, oc_operation = operation, oc_internal = True \<rparr> # th_calls th \<rparr>] \<rparr>)"
| op_drop: "t < length (sys_threads s) \<Longrightarrow> th = sys_threads s ! t \<Longrightarrow> th_guards th = g # gs \<Longrightarrow>
    guard_drop g (th_stack th) (sys_tracker s (og_engine_id g)) = (stack, state) \<Longrightarrow>
    op_step s (s\<lparr> sys_threads := (sys_threads s)[t := \<lparr> th_stack = stack, th_guards = gs, th_calls = tl (th_calls th) \<rparr>],
                 sys_tracker := (sys_tracker s)(og_engine_id g := state) \<rparr>)"
| op_shutdown:
    "op_step s (s\<lparr> sys_tracker := (sys_tracker s)(i := tracker_begin_shutdown (sys_tracker s i)) \<rparr>)"

abbreviation op_steps :: "op_system \<Rightarrow> op_system \<Rightarrow> bool" where
  "op_steps \<equiv> op_step\<^sup>*\<^sup>*"

section \<open>The counter is exact\<close>

definition guards_such :: "(op_guard \<Rightarrow> bool) \<Rightarrow> op_thread list \<Rightarrow> nat" where
  "guards_such P ths = (\<Sum>th\<leftarrow>ths. length (filter P (th_guards th)))"

abbreviation counts_for :: "nat \<Rightarrow> op_guard \<Rightarrow> bool" where
  "counts_for i \<equiv> \<lambda>g. og_counted g \<and> og_engine_id g = i"

abbreviation counts_as :: "nat \<Rightarrow> str \<Rightarrow> op_guard \<Rightarrow> bool" where
  "counts_as i operation \<equiv> \<lambda>g. counts_for i g \<and> og_operation g = operation"

definition table_count :: "(str \<times> nat) list \<Rightarrow> str \<Rightarrow> nat" where
  "table_count m operation = (case hm_get m operation of None \<Rightarrow> 0 | Some n \<Rightarrow> n)"

text \<open>The tracker of engine \<open>i\<close> agrees with the guards the threads hold.\<close>

definition tracker_exact :: "op_thread list \<Rightarrow> nat \<Rightarrow> op_state \<Rightarrow> bool" where
  "tracker_exact ths i state \<longleftrightarrow>
    os_active state = guards_such (counts_for i) ths \<and> sorted_by fst (os_operations state) \<and>
    (\<forall>operation. table_count (os_operations state) operation = guards_such (counts_as i operation) ths \<and>
      hm_get (os_operations state) operation \<noteq> Some 0)"

definition op_invar :: "op_system \<Rightarrow> bool" where
  "op_invar s \<longleftrightarrow>
    (\<forall>th\<in>set (sys_threads s). th_stack th = rev (map og_engine_id (th_guards th))) \<and>
    (\<forall>i. tracker_exact (sys_threads s) i (sys_tracker s i))"

lemma guards_such_update:
  assumes "t < length ths"
  shows "guards_such P (ths[t := th]) + length (filter P (th_guards (ths ! t))) =
    guards_such P ths + length (filter P (th_guards th))"
  using assms
proof (induction ths arbitrary: t)
  case (Cons a ths)
  show ?case
  proof (cases t)
    case (Suc n)
    then show ?thesis using Cons.IH [of n] Cons.prems by (simp add: guards_such_def)
  qed (simp add: guards_such_def)
qed simp

lemma guards_such_push:
  assumes "t < length ths" "th_guards th = g # th_guards (ths ! t)"
  shows "guards_such P (ths[t := th]) = guards_such P ths + (if P g then 1 else 0)"
  using guards_such_update [OF assms(1), of P th] assms(2) by (simp split: if_splits)

lemma guards_such_pop:
  assumes "t < length ths" "th_guards (ths ! t) = g # th_guards th"
  shows "guards_such P ths = guards_such P (ths[t := th]) + (if P g then 1 else 0)"
  using guards_such_update [OF assms(1), of P th] assms(2) by (simp split: if_splits)

lemma guards_such_same:
  assumes "t < length ths" "th_guards th = th_guards (ths ! t)"
  shows "guards_such P (ths[t := th]) = guards_such P ths"
  using guards_such_update [OF assms(1), of P th] assms(2) by simp

text \<open>Counting a new guard, and dropping a counted one.\<close>

lemma table_count_insert:
  "sorted_by fst m \<Longrightarrow> table_count (hm_insert k n m) x = (if x = k then n else table_count m x)"
  by (simp add: table_count_def hm_insert_correct)

lemma tracker_exactD:
  assumes "tracker_exact ths i state"
  shows "os_active state = guards_such (counts_for i) ths" "sorted_by fst (os_operations state)"
    "table_count (os_operations state) operation = guards_such (counts_as i operation) ths"
    "hm_get (os_operations state) operation \<noteq> Some 0"
  using assms by (simp_all add: tracker_exact_def)

lemma tracker_exact_count:
  assumes "tracker_exact ths i state" "counts_for i g"
    and P: "\<And>P. guards_such P ths' = guards_such P ths + (if P g then 1 else 0)"
  shows "tracker_exact ths' i (state\<lparr> os_active := os_active state + 1, os_operations :=
      hm_insert (og_operation g) (table_count (os_operations state) (og_operation g) + 1) (os_operations state) \<rparr>)"
proof -
  note t = tracker_exactD [OF assms(1)]
  note h = hm_insert_correct [OF t(2), of "og_operation g"]
  show ?thesis
    unfolding tracker_exact_def P using assms(2) h t by (simp add: table_count_insert)
qed

lemma tracker_exact_uncount:
  assumes "tracker_exact ths i state" "counts_for i g"
    and P: "\<And>P. guards_such P ths = guards_such P ths' + (if P g then 1 else 0)"
  shows "tracker_exact ths' i (snd (guard_drop g stack state))"
proof -
  define k where "k = og_operation g"
  define n where "n = guards_such (counts_as i k) ths'"
  define m where "m = (if n = 0 then vec_delete fst k (os_operations state) else hm_insert k n (os_operations state))"
  note t = tracker_exactD [OF assms(1), unfolded P]
  have "table_count (os_operations state) k = Suc n" unfolding n_def t(3) using assms(2) by (simp add: k_def)
  then have g: "hm_get (os_operations state) k = Some (Suc n)"
    by (simp add: table_count_def split: option.splits)
  have run: "snd (guard_drop g stack state) = state\<lparr> os_active := os_active state - 1, os_operations := m \<rparr>"
    using assms(2) g by (simp add: guard_drop_def m_def k_def)
  have m: "sorted_by fst m \<and> (\<forall>x. hm_get m x = (if x = k then if n = 0 then None else Some n else hm_get (os_operations state) x))"
  proof (cases "n = 0")
    case True
    note d = vec_delete_correct [OF t(2), of k]
    then have "sorted_by fst m" by (simp add: m_def True)
    moreover from this have "hm_get m x = (if x = k then None else hm_get (os_operations state) x)" for x
      using d t(2) by (simp add: hm_get_kmap m_def True)
    ultimately show ?thesis using True by simp
  qed (use hm_insert_correct [OF t(2)] in \<open>simp add: m_def\<close>)
  have "table_count m x = guards_such (counts_as i x) ths' \<and> hm_get m x \<noteq> Some 0" for x
  proof (cases "x = k")
    case True
    then show ?thesis using m by (simp add: table_count_def n_def)
  next
    case False
    then have "table_count m x = table_count (os_operations state) x" "hm_get m x = hm_get (os_operations state) x"
      using m by (simp_all add: table_count_def)
    then show ?thesis using False t(3) [of x] t(4) [of x] by (simp add: k_def)
  qed
  then show ?thesis using t(1) assms(2) m unfolding run tracker_exact_def by simp
qed

text \<open>An engine whose counted guards are the same on both sides keeps its tracker.\<close>

lemma tracker_exact_keep:
  assumes "tracker_exact ths i state" "\<not> counts_for i g"
    and "\<forall>P. \<not> P g \<longrightarrow> guards_such P ths' = guards_such P ths"
  shows "tracker_exact ths' i state"
proof -
  have "guards_such (counts_for i) ths' = guards_such (counts_for i) ths"
    "guards_such (counts_as i x) ths' = guards_such (counts_as i x) ths" for x
    by (rule assms(3) [rule_format], use assms(2) in blast)+
  then show ?thesis using assms(1) by (simp add: tracker_exact_def)
qed

lemma op_invarD:
  assumes "op_invar s" "t < length (sys_threads s)"
  shows "th_stack (sys_threads s ! t) = rev (map og_engine_id (th_guards (sys_threads s ! t)))"
    "tracker_exact (sys_threads s) i (sys_tracker s i)"
  using assms by (simp_all add: op_invar_def)

lemma op_invarI:
  assumes "op_invar s" "t < length (sys_threads s)" "th_stack th = rev (map og_engine_id (th_guards th))"
    and "\<And>i. tracker_exact ((sys_threads s)[t := th]) i (trs i)"
  shows "op_invar (s\<lparr> sys_threads := (sys_threads s)[t := th], sys_tracker := trs \<rparr>)"
  using assms set_update_subset_insert [of "sys_threads s" t th] by (auto simp: op_invar_def)

lemma op_invar_push:
  assumes s: "op_invar s" "t < length (sys_threads s)" "\<not> og_counted g"
    and "trs = sys_tracker s" "stack = th_stack (sys_threads s ! t) @ [og_engine_id g]"
  shows "op_invar (s\<lparr> sys_threads := (sys_threads s)[t :=
      \<lparr> th_stack = stack, th_guards = g # th_guards (sys_threads s ! t), th_calls = cs \<rparr>], sys_tracker := trs \<rparr>)"
proof (rule op_invarI [OF s(1,2)])
  show "tracker_exact ((sys_threads s)[t := \<lparr> th_stack = stack, th_guards = g # th_guards (sys_threads s ! t), th_calls = cs \<rparr>]) i (trs i)" for i
    by (rule tracker_exact_keep [OF op_invarD(2) [OF s(1,2)], where g = g, folded assms(4)])
       (use assms in \<open>simp_all add: guards_such_push [OF s(2)]\<close>)
qed (use assms op_invarD(1) [OF s(1,2)] in simp)

lemma op_step_invar:
  assumes "op_step s s'" "op_invar s"
  shows "op_invar s'"
  using assms
proof (induction rule: op_step.induct)
  case (op_begin t s th i operation g stack state)
  note d = op_invarD [OF op_begin.prems op_begin.hyps(1)]
  show ?case
  proof (cases "og_counted g")
    case False
    then have "state = sys_tracker s i" "stack = th_stack th @ [og_engine_id g]"
      using op_begin.hyps(3) by (auto simp: tracker_begin_def Let_def split: if_splits)
    then show ?thesis using op_invar_push [OF op_begin.prems op_begin.hyps(1) False refl] op_begin.hyps(2) by simp
  next
    case True
    then have g: "counts_for i g" "stack = th_stack th @ [i]"
      "state = (sys_tracker s i)\<lparr> os_active := os_active (sys_tracker s i) + 1, os_operations :=
        hm_insert (og_operation g) (table_count (os_operations (sys_tracker s i)) (og_operation g) + 1)
          (os_operations (sys_tracker s i)) \<rparr>"
      using op_begin.hyps(3) by (auto simp: tracker_begin_def table_count_def Let_def split: if_splits)
    let ?th = "\<lparr> th_stack = stack, th_guards = g # th_guards th,
      th_calls = \<lparr> oc_engine_id = i, oc_operation = operation, oc_internal = False \<rparr> # th_calls th \<rparr>"
    note p = guards_such_push [OF op_begin.hyps(1), of ?th g]
    have "tracker_exact ((sys_threads s)[t := ?th]) j (((sys_tracker s)(i := state)) j)" for j
    proof (cases "j = i")
      case True
      then show ?thesis using tracker_exact_count [OF d(2) g(1)] p op_begin.hyps(2) by (simp add: g(3))
    next
      case False
      then show ?thesis
        using tracker_exact_keep [OF d(2), where g = g] g(1) p op_begin.hyps(2) by simp
    qed
    then show ?thesis
      using op_invarI [OF op_begin.prems op_begin.hyps(1)] d(1) op_begin.hyps(2) g by simp
  qed
next
  case (op_refused t s th i operation e stack state)
  note d = op_invarD [OF op_refused.prems op_refused.hyps(1)]
  have "stack = th_stack th" "state = sys_tracker s i"
    using op_refused.hyps(3) by (auto simp: tracker_begin_def Let_def split: if_splits)
  then show ?case using op_refused by simp
next
  case (op_internal t s th i operation g stack)
  then have "\<not> og_counted g" "stack = th_stack th @ [og_engine_id g]" by (auto simp: internal_operation_scope_def)
  then show ?case using op_invar_push [OF op_internal.prems op_internal.hyps(1) _ refl] op_internal.hyps(2) by simp
next
  case (op_drop t s th g gs stack state)
  note d = op_invarD [OF op_drop.prems op_drop.hyps(1)]
  let ?i = "og_engine_id g" and ?th = "\<lparr> th_stack = stack, th_guards = gs, th_calls = tl (th_calls th) \<rparr>"
  have stack: "stack = butlast (th_stack th)" "state = snd (guard_drop g (th_stack th) (sys_tracker s ?i))"
    using op_drop.hyps(4) by (auto simp: guard_drop_def Let_def split: if_splits)
  have p: "guards_such P (sys_threads s) = guards_such P ((sys_threads s)[t := ?th]) + (if P g then 1 else 0)" for P
    using guards_such_pop [OF op_drop.hyps(1), of g ?th P] op_drop.hyps(2,3) by simp
  have "tracker_exact ((sys_threads s)[t := ?th]) j (((sys_tracker s)(?i := state)) j)" for j
  proof (cases "j = ?i \<and> og_counted g")
    case True
    then show ?thesis using tracker_exact_uncount [OF d(2) _ p, of ?i] stack(2) by simp
  next
    case False
    moreover have "state = sys_tracker s ?i" if "\<not> og_counted g" using that stack(2) by (simp add: guard_drop_def)
    ultimately show ?thesis
      using tracker_exact_keep [OF d(2), where g = g and i = j] p by auto
  qed
  then show ?case
    using op_invarI [OF op_drop.prems op_drop.hyps(1)] d(1) op_drop.hyps(2,3) stack(1) by simp
next
  case (op_shutdown s i)
  then show ?case by (simp add: op_invar_def tracker_exact_def tracker_begin_shutdown_def)
qed

lemma op_init_invar: "op_invar (op_system_init n)"
  by (auto simp: op_invar_def op_system_init_def tracker_exact_def op_state_default_def guards_such_def
      table_count_def sum_list_replicate)

lemma op_steps_invar: "op_steps s s' \<Longrightarrow> op_invar s \<Longrightarrow> op_invar s'"
  by (induction rule: rtranclp_induct) (auto intro: op_step_invar)

lemma guards_such_zero: "guards_such P ths = 0 \<longleftrightarrow> (\<forall>th\<in>set ths. \<forall>g\<in>set (th_guards th). \<not> P g)"
  by (auto simp: guards_such_def filter_empty_conv)

text \<open>The guards a thread holds, from its calls in progress: a guard is counted exactly when its call is no internal
  scope and the thread was not inside another call of the engine.\<close>

fun guards_of :: "op_call list \<Rightarrow> op_guard list" where
  "guards_of [] = []"
| "guards_of (c # cs) = \<lparr> og_operation = oc_operation c, og_engine_id = oc_engine_id c,
    og_counted = (\<not> oc_internal c \<and> oc_engine_id c \<notin> oc_engine_id ` set cs) \<rparr> # guards_of cs"

definition thread_ok :: "op_thread \<Rightarrow> bool" where
  "thread_ok th \<longleftrightarrow> th_guards th = guards_of (th_calls th) \<and> th_stack th = rev (map oc_engine_id (th_calls th))"

lemma op_step_thread_ok:
  assumes "op_step s s'" "\<forall>th\<in>set (sys_threads s). thread_ok th"
  shows "\<forall>th\<in>set (sys_threads s'). thread_ok th"
  using assms
proof (induction rule: op_step.induct)
  case (op_begin t s th i operation g stack state)
  then have "thread_ok th" by simp
  then have "thread_ok \<lparr> th_stack = stack, th_guards = g # th_guards th,
      th_calls = \<lparr> oc_engine_id = i, oc_operation = operation, oc_internal = False \<rparr> # th_calls th \<rparr>"
    using op_begin.hyps(3) by (auto simp: thread_ok_def tracker_begin_def Let_def split: if_splits)
  then show ?case using op_begin.prems set_update_subset_insert by fastforce
next
  case (op_refused t s th i operation e stack state)
  then have "thread_ok th" by simp
  then have "thread_ok (th\<lparr> th_stack := stack \<rparr>)"
    using op_refused.hyps(3) by (auto simp: thread_ok_def tracker_begin_def Let_def split: if_splits)
  then show ?case using op_refused.prems set_update_subset_insert by fastforce
next
  case (op_internal t s th i operation g stack)
  then have "thread_ok th" by simp
  then have "thread_ok \<lparr> th_stack = stack, th_guards = g # th_guards th,
      th_calls = \<lparr> oc_engine_id = i, oc_operation = operation, oc_internal = True \<rparr> # th_calls th \<rparr>"
    using op_internal.hyps(3) by (auto simp: thread_ok_def internal_operation_scope_def)
  then show ?case using op_internal.prems set_update_subset_insert by fastforce
next
  case (op_drop t s th g gs stack state)
  then have "thread_ok th" by simp
  moreover have "stack = butlast (th_stack th)" using op_drop.hyps(4) by (auto simp: guard_drop_def Let_def split: if_splits)
  ultimately have "thread_ok \<lparr> th_stack = stack, th_guards = gs, th_calls = tl (th_calls th) \<rparr>"
    using op_drop.hyps(3) by (cases "th_calls th") (simp_all add: thread_ok_def)
  then show ?case using op_drop.prems set_update_subset_insert by fastforce
qed simp

lemma op_steps_thread_ok: "op_steps (op_system_init n) s \<Longrightarrow> \<forall>th\<in>set (sys_threads s). thread_ok th"
proof (induction rule: rtranclp_induct)
  case base
  show ?case by (simp add: op_system_init_def thread_ok_def)
qed (rule op_step_thread_ok)

text \<open>The outermost call of a thread on an engine, and the threads whose outermost call is to be counted.\<close>

definition outermost :: "nat \<Rightarrow> op_thread \<Rightarrow> op_call option" where
  "outermost i th = List.find (\<lambda>c. oc_engine_id c = i) (rev (th_calls th))"

definition inside :: "nat \<Rightarrow> op_thread \<Rightarrow> bool" where
  "inside i th = (case outermost i th of None \<Rightarrow> False | Some c \<Rightarrow> \<not> oc_internal c)"

definition inside_of :: "nat \<Rightarrow> str \<Rightarrow> op_thread \<Rightarrow> bool" where
  "inside_of i operation th = (case outermost i th of None \<Rightarrow> False | Some c \<Rightarrow> \<not> oc_internal c \<and> oc_operation c = operation)"

lemma find_append: "List.find P (xs @ ys) = (case List.find P xs of None \<Rightarrow> List.find P ys | Some x \<Rightarrow> Some x)"
  by (induction xs) simp_all

lemma counted_guards:
  "length (filter (\<lambda>g. counts_for i g \<and> Q (og_operation g)) (guards_of cs)) =
    (case List.find (\<lambda>c. oc_engine_id c = i) (rev cs) of None \<Rightarrow> 0 | Some c \<Rightarrow> if \<not> oc_internal c \<and> Q (oc_operation c) then 1 else 0)"
proof (induction cs)
  case (Cons c cs)
  show ?case
  proof (cases "List.find (\<lambda>c. oc_engine_id c = i) (rev cs)")
    case None
    then have "i \<notin> oc_engine_id ` set cs" by (auto simp: find_None_iff)
    then show ?thesis using Cons None by (auto simp: find_append)
  next
    case (Some d)
    then have "d \<in> set (rev cs)" "oc_engine_id d = i" by (auto simp: find_Some_iff simp del: set_rev)
    then have "i \<in> oc_engine_id ` set cs" by auto
    then show ?thesis using Cons Some by (auto simp: find_append)
  qed
qed simp

lemma guards_such_threads:
  assumes "\<forall>th\<in>set ths. thread_ok th"
  shows "guards_such (counts_for i) ths = length (filter (inside i) ths)"
    "guards_such (counts_as i operation) ths = length (filter (inside_of i operation) ths)"
proof -
  have "length (filter (counts_for i) (th_guards th)) = (if inside i th then 1 else 0)"
    "length (filter (counts_as i operation) (th_guards th)) = (if inside_of i operation th then 1 else 0)" if "thread_ok th" for th
    using that counted_guards [of i "\<lambda>_. True" "th_calls th"] counted_guards [of i "\<lambda>x. x = operation" "th_calls th"]
    by (auto simp: thread_ok_def inside_def inside_of_def outermost_def split: option.splits)
  then show "guards_such (counts_for i) ths = length (filter (inside i) ths)"
    "guards_such (counts_as i operation) ths = length (filter (inside_of i operation) ths)"
    using assms by (induction ths) (simp_all add: guards_such_def)
qed

text \<open>
  C26: However the calls of the threads interleave, the counter of an engine is the number of threads that are
  inside a call of it, where the outermost call decides: a thread counts once however deep its calls are nested, and
  not at all when its outermost scope is an internal one.  The table counts the same threads by the name of their
  outermost call and has no empty rows, so the counter is zero exactly when no thread is inside such a call.
\<close>

theorem operations_counted_exactly:
  assumes "op_steps (op_system_init n) s"
  shows "os_active (sys_tracker s i) = length (filter (inside i) (sys_threads s)) \<and>
    table_count (os_operations (sys_tracker s i)) operation = length (filter (inside_of i operation) (sys_threads s)) \<and>
    hm_get (os_operations (sys_tracker s i)) operation \<noteq> Some 0 \<and>
    (os_active (sys_tracker s i) = 0 \<longleftrightarrow> (\<nexists>th. th \<in> set (sys_threads s) \<and> inside i th))"
proof -
  have "op_invar s" by (rule op_steps_invar [OF assms op_init_invar])
  then have "tracker_exact (sys_threads s) i (sys_tracker s i)" by (simp add: op_invar_def)
  note t = tracker_exactD [OF this] and g = guards_such_threads [OF op_steps_thread_ok [OF assms]]
  show ?thesis using t(3,4) [of operation] unfolding t(1) g by (auto simp: filter_empty_conv)
qed

section \<open>Shutdown drains\<close>

abbreviation thread_count :: "nat \<Rightarrow> op_system \<Rightarrow> nat \<Rightarrow> nat" where
  "thread_count i s t \<equiv> length (filter (counts_for i) (th_guards (sys_threads s ! t)))"

text \<open>After shutdown has begun no step adds a counted guard to any thread.\<close>

lemma shutdown_step:
  assumes "op_step s s'" "os_shutting_down (sys_tracker s i)"
  shows "os_shutting_down (sys_tracker s' i) \<and> length (sys_threads s') = length (sys_threads s) \<and>
    thread_count i s' t \<le> thread_count i s t"
  using assms
proof (induction rule: op_step.induct)
  case (op_begin k s th j operation g stack state)
  then have "os_shutting_down (sys_tracker s i) \<Longrightarrow> \<not> counts_for i g"
    "os_shutting_down state = os_shutting_down (sys_tracker s j)"
    by (auto simp: tracker_begin_def Let_def split: if_splits)
  then show ?case using op_begin by (cases "t = k") (auto simp: nth_list_update)
next
  case (op_refused k s th j operation e stack state)
  then show ?case
    by (cases "t = k") (auto simp: tracker_begin_def Let_def nth_list_update split: if_splits)
next
  case (op_internal k s th j operation g stack)
  then show ?case by (cases "t = k") (auto simp: internal_operation_scope_def nth_list_update)
next
  case (op_drop k s th g gs stack state)
  have "os_shutting_down state = os_shutting_down (sys_tracker s (og_engine_id g))"
    using op_drop.hyps(4) by (auto simp: guard_drop_def Let_def split: if_splits option.splits)
  then show ?case using op_drop by (cases "t = k") (auto simp: nth_list_update)
next
  case (op_shutdown s j)
  then show ?case by (simp add: tracker_begin_shutdown_def)
qed

lemma shutdown_run:
  assumes "\<And>k. op_step (run k) (run (Suc k))" "os_shutting_down (sys_tracker (run 0) i)"
  shows "os_shutting_down (sys_tracker (run k) i) \<and> length (sys_threads (run k)) = length (sys_threads (run 0)) \<and>
    (\<forall>t. \<forall>j\<le>k. thread_count i (run k) t \<le> thread_count i (run j) t)"
proof (induction k)
  case (Suc k)
  note s = shutdown_step [OF assms(1) [of k]]
  have "thread_count i (run (Suc k)) t \<le> thread_count i (run j) t" if "j \<le> Suc k" for t j
  proof (cases "j = Suc k")
    case False
    then have "thread_count i (run k) t \<le> thread_count i (run j) t" using Suc.IH that by simp
    then show ?thesis using s [of i t] Suc.IH by (meson order.trans)
  qed simp
  then show ?case using s [of i] Suc.IH by simp
qed (use assms(2) in simp)

lemma eventually_all:
  fixes n :: nat
  assumes "\<And>t. t < n \<Longrightarrow> \<exists>k. \<forall>m\<ge>k. P t m"
  shows "\<exists>k. \<forall>m\<ge>k. \<forall>t<n. P t (m :: nat)"
  using assms
proof (induction n)
  case (Suc n)
  then obtain k where "\<forall>m\<ge>k. \<forall>t<n. P t m" by auto
  moreover obtain j where "\<forall>m\<ge>j. P n m" using Suc.prems by blast
  ultimately have "\<forall>m\<ge>max k j. \<forall>t<Suc n. P t m" by (auto simp: less_Suc_eq)
  then show ?case by blast
qed simp

text \<open>
  C15: Shutdown drains.  Once shutdown of an engine has begun, its counter never rises again, and on every
  infinite run in which each thread at some time has left all its calls, the counter reaches zero and stays
  zero, so that the wait for active operations reports an idle engine from then on.
\<close>

theorem shutdown_drains:
  assumes "op_steps (op_system_init n) (run 0)" "\<forall>k. op_step (run k) (run (Suc k))"
    and "os_shutting_down (sys_tracker (run 0) i)"
    and "\<forall>t < length (sys_threads (run 0)). \<exists>k. th_guards (sys_threads (run k) ! t) = []"
  shows "\<exists>k. \<forall>m\<ge>k. os_active (sys_tracker (run m) i) = 0 \<and>
    (\<forall>wakeups. osn_active (wait_until_idle wakeups (sys_tracker (run m) i)) = 0)"
proof -
  note r = shutdown_run [OF assms(2) [rule_format] assms(3)]
  have "\<exists>k. \<forall>m\<ge>k. thread_count i (run m) t = 0" if t: "t < length (sys_threads (run 0))" for t
  proof -
    obtain k where "th_guards (sys_threads (run k) ! t) = []" using assms(4) t by blast
    then have "thread_count i (run k) t = 0" by simp
    moreover have "thread_count i (run m) t \<le> thread_count i (run k) t" if "k \<le> m" for m
      using r [of m] that by blast
    ultimately have "\<forall>m\<ge>k. thread_count i (run m) t = 0" by (metis le_zero_eq)
    then show ?thesis by blast
  qed
  then have "\<exists>k. \<forall>m\<ge>k. \<forall>t<length (sys_threads (run 0)). thread_count i (run m) t = 0"
    by (intro eventually_all)
  then obtain k where
    k: "\<forall>m\<ge>k. \<forall>t<length (sys_threads (run 0)). thread_count i (run m) t = 0" by blast
  have "os_active (sys_tracker (run m) i) = 0" if "k \<le> m" for m
  proof -
    have "op_steps (run 0) (run m)" by (induction m) (use assms(2) in \<open>auto intro: rtranclp.rtrancl_into_rtrancl\<close>)
    then have "op_invar (run m)" using op_steps_invar [OF _ op_steps_invar [OF assms(1) op_init_invar]] by blast
    then have "os_active (sys_tracker (run m) i) = guards_such (counts_for i) (sys_threads (run m))"
      by (simp add: op_invar_def tracker_exact_def)
    moreover have "guards_such (counts_for i) (sys_threads (run m)) = 0"
      unfolding guards_such_def using k that r [of m] by (auto simp: in_set_conv_nth)
    ultimately show ?thesis by simp
  qed
  moreover have "osn_active (wait_until_idle ws state) = 0" if "os_active state = 0" for ws state
    using that by (cases ws) (auto simp: tracker_snapshot_def)
  ultimately show ?thesis by blast
qed

lemma hm_insert_Nil: "hm_insert k v [] = [(k, v)]"
proof (rule sorted_by_set_eq [where key = fst])
  show "sorted_by fst (hm_insert k v [])" by (rule hm_insert_correct) simp
  show "set (hm_insert k v []) = set [(k, v)]" by (simp add: hm_insert_def set_vec_upsert)
qed simp

lemma vec_delete_single: "vec_delete fst k [(k, v)] = []"
proof -
  have "set (vec_delete fst k [(k, v)]) = {}" by (auto simp: set_vec_delete)
  then show ?thesis by simp
qed

lemma hm_get_single: "hm_get [(k, v)] k = Some v"
  by (simp add: hm_get_kmap)

text \<open>One thread inside a call of engine 7 when shutdown begins.\<close>

definition sample_op_guard :: op_guard where
  "sample_op_guard = \<lparr> og_operation = lit ''get_entry'', og_engine_id = 7, og_counted = True \<rparr>"

definition sample_op_tracker :: "bool \<Rightarrow> op_state" where
  "sample_op_tracker b = \<lparr> os_shutting_down = b, os_active = 1, os_operations = [(og_operation sample_op_guard, 1)] \<rparr>"

definition sample_op_busy :: "bool \<Rightarrow> op_system" where
  "sample_op_busy b = \<lparr> sys_threads = [\<lparr> th_stack = [7], th_guards = [sample_op_guard],
        th_calls = [\<lparr> oc_engine_id = 7, oc_operation = og_operation sample_op_guard, oc_internal = False \<rparr>] \<rparr>],
      sys_tracker = (\<lambda>_. op_state_default)(7 := sample_op_tracker b) \<rparr>"

definition sample_op_idle :: op_system where
  "sample_op_idle = \<lparr> sys_threads = [\<lparr> th_stack = [], th_guards = [], th_calls = [] \<rparr>],
      sys_tracker = (\<lambda>_. op_state_default)(7 := op_state_default\<lparr> os_shutting_down := True \<rparr>) \<rparr>"

definition sample_op_run :: "nat \<Rightarrow> op_system" where
  "sample_op_run k = (if k = 0 then sample_op_busy True else sample_op_idle)"

lemma sample_op_guard_simps [simp]: "og_engine_id sample_op_guard = 7" "og_counted sample_op_guard"
  by (simp_all add: sample_op_guard_def)

lemma sample_op_steps:
  "op_steps (op_system_init 1) (sample_op_busy False)" "op_step (sample_op_busy False) (sample_op_busy True)"
  "op_step (sample_op_busy True) sample_op_idle" "op_step sample_op_idle sample_op_idle"
proof -
  have b: "tracker_begin 7 (og_operation sample_op_guard) [] op_state_default =
      (Inr sample_op_guard, [7], sample_op_tracker False)"
    by (simp add: tracker_begin_def op_state_default_def sample_op_tracker_def hm_insert_Nil sample_op_guard_def)
  have i: "op_system_init 1 = \<lparr> sys_threads = [\<lparr> th_stack = [], th_guards = [], th_calls = [] \<rparr>], sys_tracker = (\<lambda>_. op_state_default) \<rparr>"
    by (simp add: op_system_init_def)
  have "op_step (op_system_init 1) (sample_op_busy False)"
    using op_begin [of 0 "op_system_init 1" "\<lparr> th_stack = [], th_guards = [], th_calls = [] \<rparr>" 7 "og_operation sample_op_guard"
      sample_op_guard "[7]" "sample_op_tracker False"]
    unfolding i sample_op_busy_def by (simp add: b)
  then show "op_steps (op_system_init 1) (sample_op_busy False)" by (rule r_into_rtranclp)
  have "tracker_begin_shutdown (sample_op_tracker False) = sample_op_tracker True"
    by (simp add: sample_op_tracker_def tracker_begin_shutdown_def)
  then show "op_step (sample_op_busy False) (sample_op_busy True)"
    using op_shutdown [of "sample_op_busy False" 7] by (simp add: sample_op_busy_def)
  have d: "guard_drop sample_op_guard [7] (sample_op_tracker True) = ([], op_state_default\<lparr> os_shutting_down := True \<rparr>)"
    by (simp add: guard_drop_def sample_op_tracker_def hm_get_single vec_delete_single op_state_default_def)
  have busy: "sys_threads (sample_op_busy True) = [\<lparr> th_stack = [7], th_guards = [sample_op_guard],
      th_calls = [\<lparr> oc_engine_id = 7, oc_operation = og_operation sample_op_guard, oc_internal = False \<rparr>] \<rparr>]"
    "sys_tracker (sample_op_busy True) = (\<lambda>_. op_state_default)(7 := sample_op_tracker True)"
    by (simp_all add: sample_op_busy_def)
  have "op_step (sample_op_busy True) ((sample_op_busy True)\<lparr> sys_threads := (sys_threads (sample_op_busy True))
        [0 := \<lparr> th_stack = [], th_guards = [], th_calls = tl (th_calls (sys_threads (sample_op_busy True) ! 0)) \<rparr>],
        sys_tracker := (sys_tracker (sample_op_busy True))
        (og_engine_id sample_op_guard := op_state_default\<lparr> os_shutting_down := True \<rparr>) \<rparr>)"
    by (rule op_drop [OF _ refl, of 0]) (simp_all add: busy d)
  then show "op_step (sample_op_busy True) sample_op_idle" by (simp add: sample_op_busy_def sample_op_idle_def)
  show "op_step sample_op_idle sample_op_idle"
    using op_shutdown [of sample_op_idle 7] by (simp add: sample_op_idle_def tracker_begin_shutdown_def)
qed

text \<open>The thread of engine 7 enters a second call inside its first one.\<close>

definition sample_op_nested :: op_system where
  "sample_op_nested = (sample_op_busy False)\<lparr> sys_threads := [\<lparr> th_stack = [7, 7],
      th_guards = [sample_op_guard\<lparr> og_counted := False \<rparr>, sample_op_guard],
      th_calls = [\<lparr> oc_engine_id = 7, oc_operation = og_operation sample_op_guard, oc_internal = False \<rparr>,
        \<lparr> oc_engine_id = 7, oc_operation = og_operation sample_op_guard, oc_internal = False \<rparr>] \<rparr>] \<rparr>"

lemma sample_op_nested_step: "op_steps (op_system_init 1) sample_op_nested"
proof -
  have "tracker_begin 7 (og_operation sample_op_guard) [7] (sample_op_tracker False) =
      (Inr (sample_op_guard\<lparr> og_counted := False \<rparr>), [7, 7], sample_op_tracker False)"
    by (simp add: tracker_begin_def sample_op_guard_def)
  then have "op_step (sample_op_busy False) sample_op_nested"
    using op_begin [OF _ refl, of 0 "sample_op_busy False" 7 "og_operation sample_op_guard"
      "sample_op_guard\<lparr> og_counted := False \<rparr>" "[7, 7]" "sample_op_tracker False"]
    by (simp add: sample_op_busy_def sample_op_nested_def)
  with sample_op_steps(1) show ?thesis by (rule rtranclp.rtrancl_into_rtrancl)
qed

theorem operations_counted_exactly_witness:
  "op_steps (op_system_init 1) sample_op_nested \<and> length (th_guards (sys_threads sample_op_nested ! 0)) = 2 \<and>
    os_active (sys_tracker sample_op_nested 7) = 1 \<and> length (filter (inside 7) (sys_threads sample_op_nested)) = 1"
proof -
  have "length (th_guards (sys_threads sample_op_nested ! 0)) = 2" "os_active (sys_tracker sample_op_nested 7) = 1"
    by (simp_all add: sample_op_nested_def sample_op_busy_def sample_op_tracker_def)
  then show ?thesis using operations_counted_exactly [OF sample_op_nested_step, of 7] sample_op_nested_step by metis
qed

theorem shutdown_drains_witness:
  "op_steps (op_system_init 1) (sample_op_run 0) \<and> os_active (sys_tracker (sample_op_run 0) 7) = 1 \<and>
    (\<exists>k. \<forall>m\<ge>k. os_active (sys_tracker (sample_op_run m) 7) = 0)"
proof -
  have r: "op_steps (op_system_init 1) (sample_op_run 0)"
    using rtranclp.rtrancl_into_rtrancl [OF sample_op_steps(1,2)] by (simp add: sample_op_run_def)
  moreover have "\<forall>k. op_step (sample_op_run k) (sample_op_run (Suc k))"
    using sample_op_steps by (simp add: sample_op_run_def)
  moreover have s: "os_shutting_down (sys_tracker (sample_op_run 0) 7)" "os_active (sys_tracker (sample_op_run 0) 7) = 1"
    by (simp_all add: sample_op_run_def sample_op_busy_def sample_op_tracker_def)
  moreover have "th_guards (sys_threads (sample_op_run 1) ! 0) = []" "length (sys_threads (sample_op_run 0)) = 1"
    by (simp_all add: sample_op_run_def sample_op_busy_def sample_op_idle_def)
  then have "\<forall>t < length (sys_threads (sample_op_run 0)). \<exists>k. th_guards (sys_threads (sample_op_run k) ! t) = []"
    by auto
  ultimately show ?thesis using shutdown_drains [of 1 sample_op_run 7] by blast
qed

end
