(* ===== verification/Path_Utils.thy ===== *)
theory Path_Utils
  imports Aeor_Prelude
begin

text \<open>
  Paths of the namespace (\<^verbatim>\<open>path_utils.rs\<close>).  A path is the bytes of a UTF-8 string.  \<^verbatim>\<open>trim\<close> removes the
  characters with the Unicode property White\_Space, which in UTF-8 are one to three bytes long.  The lemmas
  show that a normalized path is absolute with proper segments only, and when normalizing it again changes
  nothing.
\<close>

section \<open>White space\<close>

definition white_space :: "bytes list" where
  "white_space = map (\<lambda>b. [b]) [0x09, 0x0A, 0x0B, 0x0C, 0x0D, 0x20] @
    [[0xC2, 0x85], [0xC2, 0xA0], [0xE1, 0x9A, 0x80]] @
    map (\<lambda>b. [0xE2, 0x80, b]) [0x80, 0x81, 0x82, 0x83, 0x84, 0x85, 0x86, 0x87, 0x88, 0x89, 0x8A, 0xA8, 0xA9, 0xAF] @
    [[0xE2, 0x81, 0x9F], [0xE3, 0x80, 0x80]]"

definition strip_one :: "bytes \<Rightarrow> bytes option" where
  "strip_one s = map_option (\<lambda>w. drop (length w) s) (List.find (\<lambda>w. take (length w) s = w) white_space)"

lemma white_space_nonempty: "w \<in> set white_space \<Longrightarrow> w \<noteq> []"
  by (auto simp: white_space_def)

lemma strip_one_shorter: "strip_one s = Some t \<Longrightarrow> length t < length s"
proof -
  assume "strip_one s = Some t"
  then obtain w where w: "w \<in> set white_space" "take (length w) s = w" "t = drop (length w) s"
    by (auto simp: strip_one_def dest: find_SomeD)
  have "0 < length w" using white_space_nonempty [OF w(1)] by simp
  moreover have "length w \<le> length s" using arg_cong [OF w(2), of length] by simp
  ultimately show "length t < length s" unfolding w(3) length_drop by linarith
qed

function trim_start :: "bytes \<Rightarrow> bytes" where
  "trim_start s = (case strip_one s of None \<Rightarrow> s | Some t \<Rightarrow> trim_start t)"
  by pat_completeness auto
termination
  by (relation "measure length") (simp_all add: strip_one_shorter)

definition strip_last :: "bytes \<Rightarrow> bytes option" where
  "strip_last s = map_option (\<lambda>w. take (length s - length w) s)
    (List.find (\<lambda>w. length w \<le> length s \<and> drop (length s - length w) s = w) white_space)"

lemma strip_last_shorter: "strip_last s = Some t \<Longrightarrow> length t < length s"
proof -
  assume "strip_last s = Some t"
  then obtain w where w: "w \<in> set white_space" "length w \<le> length s" "t = take (length s - length w) s"
    by (auto simp: strip_last_def dest: find_SomeD)
  have "0 < length w" using white_space_nonempty [OF w(1)] by simp
  then show "length t < length s" using w(2) unfolding w(3) length_take by linarith
qed

function trim_end :: "bytes \<Rightarrow> bytes" where
  "trim_end s = (case strip_last s of None \<Rightarrow> s | Some t \<Rightarrow> trim_end t)"
  by pat_completeness auto
termination
  by (relation "measure length") (simp_all add: strip_last_shorter)

declare trim_start.simps [simp del] trim_end.simps [simp del]

definition trim :: "bytes \<Rightarrow> bytes" where
  "trim s = trim_end (trim_start s)"

section \<open>Segments\<close>

abbreviation slash :: u8 where "slash \<equiv> 0x2F"

fun split_on :: "'a \<Rightarrow> 'a list \<Rightarrow> 'a list list" where
  "split_on c [] = [[]]"
| "split_on c (x # xs) = (if x = c then [] # split_on c xs else (x # hd (split_on c xs)) # tl (split_on c xs))"

fun join_with :: "'a list \<Rightarrow> 'a list list \<Rightarrow> 'a list" where
  "join_with sep [] = []"
| "join_with sep [x] = x"
| "join_with sep (x # y # ys) = x @ sep @ join_with sep (y # ys)"

text \<open>One round of the loop: \<^verbatim>\<open>segments.pop()\<close> on an empty vector does nothing.\<close>

definition push_segment :: "bytes list \<Rightarrow> bytes \<Rightarrow> bytes list" where
  "push_segment segments segment =
    (if segment = lit ''.'' then segments
     else if segment = lit ''..'' then butlast segments
     else segments @ [segment])"

definition normalize_path :: "str \<Rightarrow> str" where
  "normalize_path path =
    (let trimmed = trim (filter (\<lambda>b. b \<noteq> 0) path) in
     if trimmed = [] then [slash]
     else let segments = foldl push_segment [] (filter (\<lambda>s. s \<noteq> []) (split_on slash trimmed)) in
       if segments = [] then [slash] else slash # join_with [slash] segments)"

definition rfind :: "'a \<Rightarrow> 'a list \<Rightarrow> nat option" where
  "rfind c s = (let n = length (takeWhile (\<lambda>x. x \<noteq> c) (rev s)) in
    if n < length s then Some (length s - 1 - n) else None)"

definition parent_path :: "str \<Rightarrow> str option" where
  "parent_path path =
    (let normalized = normalize_path path in
     if normalized = [slash] then None
     else case rfind slash normalized of
       Some index \<Rightarrow> if index = 0 then Some [slash] else Some (take index normalized)
     | None \<Rightarrow> None)"

definition trim_end_slashes :: "str \<Rightarrow> str" where
  "trim_end_slashes s = rev (dropWhile (\<lambda>b. b = slash) (rev s))"

definition file_name :: "str \<Rightarrow> str option" where
  "file_name path =
    (let trimmed = trim_end_slashes (trim path) in
     if trimmed = [] \<or> trimmed = [slash] then None
     else case rfind slash trimmed of
       Some index \<Rightarrow> (let name = drop (index + 1) trimmed in if name = [] then None else Some name)
     | None \<Rightarrow> Some trimmed)"

definition path_segments :: "str \<Rightarrow> str list" where
  "path_segments path =
    foldl (\<lambda>segments segment.
        if segment = [] \<or> segment = lit ''.'' then segments
        else if segment = lit ''..'' then butlast segments
        else segments @ [segment]) [] (split_on slash (trim path))"

section \<open>Normalized paths\<close>

definition proper_segment :: "bytes \<Rightarrow> bool" where
  "proper_segment s \<longleftrightarrow> s \<noteq> [] \<and> s \<noteq> lit ''.'' \<and> s \<noteq> lit ''..'' \<and> slash \<notin> set s"

lemma split_on_nonempty [simp]: "split_on c xs \<noteq> []"
  by (induction xs) auto

lemma split_on_members: "s \<in> set (split_on c xs) \<Longrightarrow> c \<notin> set s \<and> set s \<subseteq> set xs"
proof (induction xs arbitrary: s)
  case (Cons x xs)
  show ?case
  proof (cases "x = c")
    case True
    then show ?thesis using Cons by auto
  next
    case False
    have "hd (split_on c xs) \<in> set (split_on c xs)" by simp
    then have h: "c \<notin> set (hd (split_on c xs)) \<and> set (hd (split_on c xs)) \<subseteq> set xs" by (rule Cons.IH)
    have "s = x # hd (split_on c xs) \<or> s \<in> set (tl (split_on c xs))" using Cons.prems False by auto
    then show ?thesis
    proof
      assume "s \<in> set (tl (split_on c xs))"
      then have "s \<in> set (split_on c xs)" by (rule list.set_sel(2) [OF split_on_nonempty])
      then show ?thesis using Cons.IH by auto
    qed (use h False in auto)
  qed
qed simp

lemma split_on_append: "c \<notin> set a \<Longrightarrow> split_on c (a @ c # b) = a # split_on c b"
  by (induction a) auto

lemma split_on_single: "c \<notin> set a \<Longrightarrow> split_on c a = [a]"
  by (induction a) auto

lemma split_on_join:
  "xs \<noteq> [] \<Longrightarrow> \<forall>x\<in>set xs. c \<notin> set x \<Longrightarrow> split_on c (join_with [c] xs) = xs"
  by (induction "[c]" xs rule: join_with.induct) (auto simp: split_on_append split_on_single)

lemma set_join_with: "set (join_with sep xs) \<subseteq> set sep \<union> (\<Union>x\<in>set xs. set x)"
  by (induction sep xs rule: join_with.induct) auto

lemma pushed_in:
  "t \<in> set (if s = a then acc else if s = b then butlast acc else acc @ [s]) \<Longrightarrow> t \<in> set acc \<or> t = s \<and> s \<noteq> a \<and> s \<noteq> b"
  by (auto split: if_splits dest: in_set_butlastD)

lemma push_segments_proper:
  assumes "\<forall>s\<in>set ss. s \<noteq> [] \<and> slash \<notin> set s \<and> set s \<subseteq> B" "\<forall>s\<in>set acc. proper_segment s \<and> set s \<subseteq> B"
  shows "\<forall>s\<in>set (foldl push_segment acc ss). proper_segment s \<and> set s \<subseteq> B"
  using assms
proof (induction ss arbitrary: acc)
  case (Cons s ss)
  have "proper_segment t \<and> set t \<subseteq> B" if "t \<in> set (push_segment acc s)" for t
  proof -
    have "t \<in> set acc \<or> t = s \<and> s \<noteq> lit ''.'' \<and> s \<noteq> lit ''..''"
      using that unfolding push_segment_def by (rule pushed_in)
    moreover have "s \<noteq> [] \<and> slash \<notin> set s \<and> set s \<subseteq> B" using bspec [OF Cons.prems(1) list.set_intros(1)] .
    ultimately show ?thesis using Cons.prems(2) unfolding proper_segment_def by blast
  qed
  then have "\<forall>t\<in>set (push_segment acc s). proper_segment t \<and> set t \<subseteq> B" by blast
  moreover have "\<forall>s\<in>set ss. s \<noteq> [] \<and> slash \<notin> set s \<and> set s \<subseteq> B"
    using Cons.prems(1) list.set_intros(2) by fast
  ultimately show ?case unfolding foldl.simps by (rule Cons.IH [rotated])
qed simp

lemma push_proper_segments: "\<forall>s\<in>set ss. proper_segment s \<Longrightarrow> foldl push_segment acc ss = acc @ ss"
proof (induction ss arbitrary: acc)
  case (Cons s ss)
  have "proper_segment s" using Cons.prems by (meson list.set_intros(1))
  then have "push_segment acc s = acc @ [s]"
    unfolding push_segment_def proper_segment_def by (simp only: if_False simp_thms)
  moreover have "foldl push_segment (acc @ [s]) ss = (acc @ [s]) @ ss"
    by (rule Cons.IH) (meson Cons.prems list.set_intros(2))
  ultimately show ?case by (simp only: foldl.simps append.assoc append.simps)
qed simp

lemma trim_start_subset: "set (trim_start s) \<subseteq> set s"
proof (induction s rule: trim_start.induct)
  case (1 s)
  show ?case
  proof (cases "strip_one s")
    case None
    then show ?thesis by (subst trim_start.simps) simp
  next
    case (Some t)
    have "set t \<subseteq> set s" using Some by (auto simp: strip_one_def dest: in_set_dropD)
    then show ?thesis using 1 [OF Some] Some by (subst trim_start.simps) auto
  qed
qed

lemma trim_end_subset: "set (trim_end s) \<subseteq> set s"
proof (induction s rule: trim_end.induct)
  case (1 s)
  show ?case
  proof (cases "strip_last s")
    case None
    then show ?thesis by (subst trim_end.simps) simp
  next
    case (Some t)
    have "set t \<subseteq> set s" using Some by (auto simp: strip_last_def dest: in_set_takeD)
    then show ?thesis using 1 [OF Some] Some by (subst trim_end.simps) auto
  qed
qed

lemma normalize_path_segments:
  obtains segs where "normalize_path p = slash # join_with [slash] segs"
    "\<forall>s\<in>set segs. proper_segment s \<and> 0 \<notin> set s"
proof -
  define t where "t = trim (filter (\<lambda>b. b \<noteq> 0) p)"
  define ss where "ss = filter (\<lambda>s. s \<noteq> []) (split_on slash t)"
  define segs where "segs = (if t = [] then [] else foldl push_segment [] ss)"
  have "set t \<subseteq> set (filter (\<lambda>b. b \<noteq> 0) p)"
    unfolding t_def trim_def by (rule order.trans [OF trim_end_subset trim_start_subset])
  then have t: "set t \<subseteq> {b. b \<noteq> 0}" by auto
  have ss: "\<forall>s\<in>set ss. s \<noteq> [] \<and> slash \<notin> set s \<and> set s \<subseteq> {b. b \<noteq> 0}"
  proof
    fix s
    assume "s \<in> set ss"
    then have "s \<noteq> []" "s \<in> set (split_on slash t)" by (simp_all add: ss_def)
    then show "s \<noteq> [] \<and> slash \<notin> set s \<and> set s \<subseteq> {b. b \<noteq> 0}" using split_on_members [of s slash t] t by blast
  qed
  have "\<forall>s\<in>set segs. proper_segment s \<and> set s \<subseteq> {b. b \<noteq> 0}"
  proof (cases "t = []")
    case False
    then have "segs = foldl push_segment [] ss" by (simp only: segs_def if_False)
    moreover have "\<forall>s\<in>set []. proper_segment s \<and> set s \<subseteq> {b. b \<noteq> 0}" by simp
    ultimately show ?thesis using push_segments_proper [OF ss] by blast
  qed (simp add: segs_def)
  then have "\<forall>s\<in>set segs. proper_segment s \<and> 0 \<notin> set s" by blast
  moreover have "normalize_path p = slash # join_with [slash] segs"
    unfolding normalize_path_def Let_def t_def [symmetric] ss_def [symmetric] segs_def
    by (cases "t = []"; cases "foldl push_segment [] ss = []") (simp_all only: if_True if_False join_with.simps simp_thms)
  ultimately show thesis by (rule that [rotated])
qed

lemma normalize_proper_path:
  assumes "segs \<noteq> []" "\<forall>s\<in>set segs. proper_segment s \<and> 0 \<notin> set s"
    and t: "trim (slash # join_with [slash] segs) = slash # join_with [slash] segs"
  shows "normalize_path (slash # join_with [slash] segs) = slash # join_with [slash] segs"
proof -
  have "set (join_with [slash] segs) \<subseteq> {slash} \<union> (\<Union>x\<in>set segs. set x)"
    using set_join_with [of "[slash]" segs] by simp
  then have "0 \<notin> set (join_with [slash] segs)" using assms(2) by auto
  then have f: "filter (\<lambda>b. b \<noteq> 0) (join_with [slash] segs) = join_with [slash] segs"
    by (intro filter_True) auto
  have s: "split_on slash (join_with [slash] segs) = segs"
    using split_on_join [OF assms(1)] assms(2) by (simp add: proper_segment_def)
  have "filter (\<lambda>s. s \<noteq> []) (split_on slash (slash # join_with [slash] segs)) = segs"
    using assms(2) by (simp add: s proper_segment_def filter_id_conv)
  moreover have "foldl push_segment [] segs = segs" using push_proper_segments [of segs "[]"] assms(2) by simp
  moreover have "filter (\<lambda>b. b \<noteq> 0) (slash # join_with [slash] segs) = slash # join_with [slash] segs" by (simp add: f)
  ultimately show ?thesis unfolding normalize_path_def Let_def using t assms(1) by (simp only: list.distinct if_False)
qed

lemma normalize_root: "normalize_path [slash] = [slash]"
proof -
  have "strip_one [slash] = None" "strip_last [slash] = None" by (simp_all add: strip_one_def strip_last_def white_space_def)
  then have "trim [slash] = [slash]" by (simp add: trim_def trim_start.simps trim_end.simps)
  then show ?thesis by (simp add: normalize_path_def)
qed

text \<open>
  C17: Every path is normalized to an absolute path of proper segments: none is empty, a dot, a double dot,
  or contains a slash or a zero byte, so no stored path climbs out of the namespace.  Normalizing again
  changes nothing provided the path does not end in white space.
\<close>

theorem normalize_path_canonical:
  "(\<exists>segs. normalize_path p = slash # join_with [slash] segs \<and> list_all (\<lambda>s. proper_segment s \<and> 0 \<notin> set s) segs) \<and>
    (trim (normalize_path p) = normalize_path p \<longrightarrow> normalize_path (normalize_path p) = normalize_path p)"
proof -
  obtain segs where segs: "normalize_path p = slash # join_with [slash] segs"
    "\<forall>s\<in>set segs. proper_segment s \<and> 0 \<notin> set s"
    by (rule normalize_path_segments)
  have "normalize_path (normalize_path p) = normalize_path p" if "trim (normalize_path p) = normalize_path p"
    unfolding segs(1) using normalize_proper_path [OF _ segs(2)] that normalize_root unfolding segs(1)
    by (cases "segs = []") simp_all
  then show ?thesis using segs unfolding list_all_iff by blast
qed

theorem normalize_path_canonical_witness:
  "normalize_path (lit ''/docs//../a.txt'') = lit ''/a.txt'' \<and> normalize_path (lit ''/a.txt'') = lit ''/a.txt''"
proof -
  have n: "normalize_path (lit ''/docs//../a.txt'') = lit ''/a.txt''" by code_simp
  have "trim (lit ''/a.txt'') = lit ''/a.txt''" by code_simp
  then show ?thesis using normalize_path_canonical [of "lit ''/docs//../a.txt''"] n by simp
qed

text \<open>
  A trailing blank survives one normalization and not the next: the path of the file created as
  \<^verbatim>\<open>"/a /"\<close> is stored with the blank, while every later call that normalizes the stored path again
  arrives at the path without it.
\<close>

lemma normalize_path_not_idempotent:
  "normalize_path (lit ''/a /'') = lit ''/a '' \<and> normalize_path (normalize_path (lit ''/a /'')) = lit ''/a''"
  by code_simp

end
