(* ===== verification/Rebuild_Records.thy ===== *)
theory Rebuild_Records
  imports Path_Utils Tree_Walker KV_Store
begin

text \<open>
  How \<^verbatim>\<open>storage_engine.rs\<close> resolves the entries of a log scan into index entries: of the records of one key
  the newest stands, a directory with children is preferred to an empty one, and deletion records are
  replayed on what stood before them.  The lemmas show which record stands, whatever the order of the scan.
\<close>

section \<open>Definitions\<close>

record rebuild_order =
  ro_timestamp :: i64
  ro_offset :: nat

definition is_after :: "rebuild_order \<Rightarrow> rebuild_order \<Rightarrow> bool" where
  "is_after a b \<longleftrightarrow> sint (ro_timestamp a) > sint (ro_timestamp b) \<or>
    sint (ro_timestamp a) = sint (ro_timestamp b) \<and> ro_offset a > ro_offset b"

record rebuild_kv_record =
  rr_type_flags :: u8
  rr_hash :: bytes
  rr_offset :: nat
  rr_value_length :: u32
  rr_total_length :: u32
  rr_order :: rebuild_order

definition to_kv_entry :: "rebuild_kv_record \<Rightarrow> kv_entry" where
  "to_kv_entry r = \<lparr> kv_type_flags = rr_type_flags r, kv_hash = rr_hash r,
    kv_offset = word_of_nat (rr_offset r), kv_total_length = rr_total_length r \<rparr>"

definition should_replace_rebuild_record :: "rebuild_kv_record \<Rightarrow> rebuild_kv_record \<Rightarrow> bool" where
  "should_replace_rebuild_record existing candidate =
    (let existing_type = rr_type_flags existing AND 0x0F; candidate_type = rr_type_flags candidate AND 0x0F in
     if existing_type = KV_TYPE_DIRECTORY \<and> candidate_type = KV_TYPE_DIRECTORY \<and>
        rr_value_length candidate = 0 \<and> rr_value_length existing > 0 then False
     else if existing_type = KV_TYPE_DIRECTORY \<and> candidate_type = KV_TYPE_DIRECTORY \<and>
        rr_value_length candidate > 0 \<and> rr_value_length existing = 0 then True
     else is_after (rr_order candidate) (rr_order existing))"

definition resolve_record :: "rebuild_kv_record \<Rightarrow> rebuild_kv_record hmap \<Rightarrow> rebuild_kv_record hmap" where
  "resolve_record r resolved =
    (let replace = (case hm_get resolved (rr_hash r) of
       Some existing \<Rightarrow> should_replace_rebuild_record existing r | None \<Rightarrow> True) in
     if replace then hm_insert (rr_hash r) r resolved else resolved)"

definition mark_rebuild_record_deleted_if_older ::
  "bytes \<Rightarrow> rebuild_order \<Rightarrow> rebuild_kv_record hmap \<Rightarrow> rebuild_kv_record hmap" where
  "mark_rebuild_record_deleted_if_older key deletion_order records =
    (case hm_get records key of
       None \<Rightarrow> records
     | Some entry \<Rightarrow>
         if is_after deletion_order (rr_order entry)
         then hm_insert key (entry\<lparr> rr_type_flags := (rr_type_flags entry AND 0x0F) OR KV_FLAG_DELETED \<rparr>) records
         else records)"

fun replay_deletion_records ::
  "(bytes \<Rightarrow> bytes) \<Rightarrow> hash_algorithm \<Rightarrow> (str \<times> rebuild_order) list \<Rightarrow> rebuild_kv_record hmap \<Rightarrow>
    rebuild_kv_record hmap engine_result" where
  "replay_deletion_records blake3 algo [] records = Inr records"
| "replay_deletion_records blake3 algo ((path, deletion_order) # ds) records =
    (let normalized = normalize_path path in
     res_bind (file_path_hash blake3 normalized algo) (\<lambda>file_key.
     let r1 = mark_rebuild_record_deleted_if_older file_key deletion_order records in
     res_bind (directory_path_hash blake3 normalized algo) (\<lambda>dir_key.
     let r2 = mark_rebuild_record_deleted_if_older dir_key deletion_order r1 in
     res_bind (symlink_path_hash blake3 normalized algo) (\<lambda>symlink_key.
     let r3 = mark_rebuild_record_deleted_if_older symlink_key deletion_order r2 in
     res_bind (compute_hash_algo blake3 algo path) (\<lambda>raw_key.
       replay_deletion_records blake3 algo ds (mark_rebuild_record_deleted_if_older raw_key deletion_order r3))))))"

definition resolve_rebuild_records ::
  "(bytes \<Rightarrow> bytes) \<Rightarrow> rebuild_kv_record list \<Rightarrow> hash_algorithm \<Rightarrow> (str \<times> rebuild_order) list \<Rightarrow>
    kv_entry list engine_result" where
  "resolve_rebuild_records blake3 records algo deletion_records =
    res_bind (replay_deletion_records blake3 algo deletion_records (fold resolve_record records []))
      (\<lambda>resolved. Inr (map (to_kv_entry \<circ> snd) resolved))"

section \<open>The record that stands\<close>

definition full_directory :: "rebuild_kv_record \<Rightarrow> bool" where
  "full_directory r \<longleftrightarrow> rr_type_flags r AND 0x0F = KV_TYPE_DIRECTORY \<and> rr_value_length r > 0"

definition outranks :: "rebuild_kv_record \<Rightarrow> rebuild_kv_record \<Rightarrow> bool" where
  "outranks a b \<longleftrightarrow> full_directory a \<and> \<not> full_directory b \<or>
    full_directory a = full_directory b \<and> is_after (rr_order a) (rr_order b)"

definition stands :: "rebuild_kv_record list \<Rightarrow> rebuild_kv_record \<Rightarrow> bool" where
  "stands rs r \<longleftrightarrow> r \<in> set rs \<and> (\<forall>s\<in>set rs. rr_hash s = rr_hash r \<longrightarrow> s = r \<or> outranks r s)"

text \<open>The records of one key have one type, and every record has its own place in the log.\<close>

definition scan_ok :: "rebuild_kv_record list \<Rightarrow> bool" where
  "scan_ok rs \<longleftrightarrow> inj_on (\<lambda>r. ro_offset (rr_order r)) (set rs) \<and>
    (\<forall>r\<in>set rs. \<forall>s\<in>set rs. rr_hash r = rr_hash s \<longrightarrow> rr_type_flags r AND 0x0F = rr_type_flags s AND 0x0F)"

lemma is_after_trans: "is_after a b \<Longrightarrow> is_after b c \<Longrightarrow> is_after a c"
  by (auto simp: is_after_def)

lemma is_after_asym: "is_after a b \<Longrightarrow> \<not> is_after b a"
  by (auto simp: is_after_def)

lemma is_after_total: "ro_offset a \<noteq> ro_offset b \<Longrightarrow> is_after a b \<or> is_after b a"
  by (auto simp: is_after_def)

lemma outranks_trans: "outranks a b \<Longrightarrow> outranks b c \<Longrightarrow> outranks a c"
  unfolding outranks_def using is_after_trans by blast

lemma outranks_asym: "outranks a b \<Longrightarrow> \<not> outranks b a"
  unfolding outranks_def using is_after_asym by blast

lemma outranks_total: "ro_offset (rr_order a) \<noteq> ro_offset (rr_order b) \<Longrightarrow> outranks a b \<or> outranks b a"
  unfolding outranks_def using is_after_total by blast

lemma should_replace_outranks:
  "rr_type_flags e AND 0x0F = rr_type_flags c AND 0x0F \<Longrightarrow> should_replace_rebuild_record e c \<longleftrightarrow> outranks c e"
  by (auto simp: should_replace_rebuild_record_def outranks_def full_directory_def word_gt_0 Let_def)

lemma stands_snoc_other: "rr_hash r \<noteq> rr_hash c \<Longrightarrow> stands rs r \<Longrightarrow> stands (rs @ [c]) r"
  by (auto simp: stands_def)

lemma stands_unique: "stands rs a \<Longrightarrow> stands rs b \<Longrightarrow> rr_hash a = rr_hash b \<Longrightarrow> a = b"
  unfolding stands_def using outranks_asym by metis

lemma resolve_record_stands:
  assumes ok: "scan_ok (rs @ [c])" and m: "sorted_by fst m" "\<forall>s\<in>set rs. hm_get m (rr_hash s) \<noteq> None"
    "\<forall>h e. hm_get m h = Some e \<longrightarrow> stands rs e \<and> rr_hash e = h"
  shows "sorted_by fst (resolve_record c m) \<and> (\<forall>s\<in>set (rs @ [c]). hm_get (resolve_record c m) (rr_hash s) \<noteq> None) \<and>
    (\<forall>h e. hm_get (resolve_record c m) h = Some e \<longrightarrow> stands (rs @ [c]) e \<and> rr_hash e = h)"
proof -
  note ins = hm_insert_correct [OF m(1), of "rr_hash c" c]
  have close: ?thesis if g: "\<And>h. hm_get (resolve_record c m) h = (if h = rr_hash c then Some x else hm_get m h)"
    and x: "stands (rs @ [c]) x" "rr_hash x = rr_hash c" and s: "sorted_by fst (resolve_record c m)" for x
  proof (intro conjI allI impI ballI s)
    show "hm_get (resolve_record c m) (rr_hash s) \<noteq> None" if "s \<in> set (rs @ [c])" for s
      using m(2) that by (auto simp: g)
    show "stands (rs @ [c]) e" if "hm_get (resolve_record c m) h = Some e" for h e
      using that x m(3) stands_snoc_other [of e c rs] by (auto simp: g split: if_splits)
    show "rr_hash e = h" if "hm_get (resolve_record c m) h = Some e" for h e
      using that x(2) m(3) by (auto simp: g split: if_splits)
  qed
  show ?thesis
  proof (cases "hm_get m (rr_hash c)")
    case None
    have "stands (rs @ [c]) c" using m(2) None by (auto simp: stands_def)
    moreover have "resolve_record c m = hm_insert (rr_hash c) c m" by (simp add: resolve_record_def None)
    ultimately show ?thesis by (intro close [of c]) (simp_all add: ins)
  next
    case (Some e)
    then have e: "stands rs e" "rr_hash e = rr_hash c" using m(3) by auto
    then have mem: "e \<in> set rs" by (simp add: stands_def)
    moreover have "c \<in> set (rs @ [c])" "e \<in> set (rs @ [c])" using mem by simp_all
    ultimately have type: "rr_type_flags e AND 0x0F = rr_type_flags c AND 0x0F"
      using ok e(2) unfolding scan_ok_def by blast
    have run: "resolve_record c m = (if outranks c e then hm_insert (rr_hash c) c m else m)"
      by (simp add: resolve_record_def Some should_replace_outranks [OF type])
    show ?thesis
    proof (cases "outranks c e")
      case True
      have "stands (rs @ [c]) c"
        using e True outranks_trans [OF True] unfolding stands_def by fastforce
      then show ?thesis by (intro close [of c]) (simp_all add: ins run True)
    next
      case False
      have "c = e \<or> outranks e c"
      proof (cases "c = e")
        case neq: False
        have "inj_on (\<lambda>r. ro_offset (rr_order r)) (set (rs @ [c]))" using ok by (simp only: scan_ok_def)
        then have "ro_offset (rr_order c) \<noteq> ro_offset (rr_order e)"
          using inj_onD [of _ "set (rs @ [c])" c e] mem neq by auto
        then show ?thesis using outranks_total False by blast
      qed simp
      then have "stands (rs @ [c]) e" using e(1) by (auto simp: stands_def)
      then show ?thesis by (intro close [of e]) (simp_all add: run False e(2) Some m(1))
    qed
  qed
qed

lemma scan_ok_butlast: "scan_ok (rs @ [c]) \<Longrightarrow> scan_ok rs"
proof -
  assume ok: "scan_ok (rs @ [c])"
  have sub: "set rs \<subseteq> set (rs @ [c])" by auto
  show "scan_ok rs"
    using ok inj_on_subset [OF _ sub] sub unfolding scan_ok_def by blast
qed

lemma resolve_inv:
  assumes "scan_ok rs"
  shows "sorted_by fst (fold resolve_record rs []) \<and>
    (\<forall>s\<in>set rs. hm_get (fold resolve_record rs []) (rr_hash s) \<noteq> None) \<and>
    (\<forall>h e. hm_get (fold resolve_record rs []) h = Some e \<longrightarrow> stands rs e \<and> rr_hash e = h)"
  using assms
proof (induction rs rule: rev_induct)
  case (snoc c rs)
  note ih = snoc.IH [OF scan_ok_butlast [OF snoc.prems]]
  show ?case
    unfolding fold_append comp_apply fold_simps
    by (rule resolve_record_stands [OF snoc.prems]) (use ih in blast)+
qed simp

lemma resolve_stands:
  assumes "scan_ok rs"
  shows "hm_get (fold resolve_record rs []) h = Some r \<longleftrightarrow> stands rs r \<and> rr_hash r = h"
proof
  assume "stands rs r \<and> rr_hash r = h"
  then have "r \<in> set rs" by (simp add: stands_def)
  then obtain e where "hm_get (fold resolve_record rs []) (rr_hash r) = Some e" using resolve_inv [OF assms] by blast
  moreover from this have "e = r" using resolve_inv [OF assms] stands_unique \<open>stands rs r \<and> rr_hash r = h\<close> by metis
  ultimately show "hm_get (fold resolve_record rs []) h = Some r" using \<open>stands rs r \<and> rr_hash r = h\<close> by simp
qed (use resolve_inv [OF assms] in blast)

section \<open>Replayed deletions\<close>

abbreviation marked_deleted :: "rebuild_kv_record \<Rightarrow> rebuild_kv_record" where
  "marked_deleted r \<equiv> r\<lparr> rr_type_flags := (rr_type_flags r AND 0x0F) OR KV_FLAG_DELETED \<rparr>"

definition deletion_keys :: "(bytes \<Rightarrow> bytes) \<Rightarrow> str \<Rightarrow> bytes set" where
  "deletion_keys blake3 path = {blake3 (lit ''file:'' @ normalize_path path), blake3 (lit ''dir:'' @ normalize_path path),
    blake3 (lit ''symlink:'' @ normalize_path path), blake3 path}"

definition deleted_by :: "(bytes \<Rightarrow> bytes) \<Rightarrow> (str \<times> rebuild_order) list \<Rightarrow> bytes \<Rightarrow> rebuild_kv_record \<Rightarrow> bool" where
  "deleted_by blake3 ds h r \<longleftrightarrow> (\<exists>(path, deletion)\<in>set ds. is_after deletion (rr_order r) \<and> h \<in> deletion_keys blake3 path)"

lemma marked_deleted_twice: "marked_deleted (marked_deleted r) = marked_deleted r"
proof -
  have "((rr_type_flags r AND 0x0F) OR KV_FLAG_DELETED) AND 0x0F = rr_type_flags r AND 0x0F"
    by (simp add: KV_FLAG_DELETED_def bit.conj_disj_distrib2 and.assoc)
  then show ?thesis by simp
qed

lemma mark_correct:
  assumes "sorted_by fst m"
  shows "sorted_by fst (mark_rebuild_record_deleted_if_older k d m)"
    "hm_get (mark_rebuild_record_deleted_if_older k d m) h =
      map_option (\<lambda>r. if h = k \<and> is_after d (rr_order r) then marked_deleted r else r) (hm_get m h)"
proof -
  note i = hm_insert_correct [OF assms, of k]
  show "sorted_by fst (mark_rebuild_record_deleted_if_older k d m)"
    using assms i(1) by (simp add: mark_rebuild_record_deleted_if_older_def split: option.split)
  show "hm_get (mark_rebuild_record_deleted_if_older k d m) h =
      map_option (\<lambda>r. if h = k \<and> is_after d (rr_order r) then marked_deleted r else r) (hm_get m h)"
    using i(2) by (cases "hm_get m h") (auto simp: mark_rebuild_record_deleted_if_older_def split: option.splits)
qed

definition mark_keys :: "rebuild_order \<Rightarrow> bytes list \<Rightarrow> rebuild_kv_record hmap \<Rightarrow> rebuild_kv_record hmap" where
  "mark_keys d ks m = fold (\<lambda>k. mark_rebuild_record_deleted_if_older k d) ks m"

lemma mark_keys_correct:
  assumes "sorted_by fst m"
  shows "sorted_by fst (mark_keys d ks m) \<and> (\<forall>h. hm_get (mark_keys d ks m) h =
      map_option (\<lambda>r. if h \<in> set ks \<and> is_after d (rr_order r) then marked_deleted r else r) (hm_get m h))"
  using assms
proof (induction ks arbitrary: m)
  case Nil
  then show ?case by (simp add: mark_keys_def option.map_ident)
next
  case (Cons k ks)
  note c = mark_correct [OF Cons.prems, of k d]
  have "mark_keys d (k # ks) m = mark_keys d ks (mark_rebuild_record_deleted_if_older k d m)" by (simp add: mark_keys_def)
  moreover have "(\<lambda>r. if h \<in> set ks \<and> is_after d (rr_order r) then marked_deleted r else r) \<circ>
      (\<lambda>r. if h = k \<and> is_after d (rr_order r) then marked_deleted r else r) =
      (\<lambda>r. if h \<in> set (k # ks) \<and> is_after d (rr_order r) then marked_deleted r else r)" for h
    using marked_deleted_twice by (auto simp: fun_eq_iff)
  ultimately show ?case using Cons.IH [OF c(1)] c(2) by (simp add: option.map_comp)
qed

lemma replay_step:
  "replay_deletion_records blake3 Blake3_256 ((path, d) # ds) m =
    replay_deletion_records blake3 Blake3_256 ds (mark_keys d [blake3 (lit ''file:'' @ normalize_path path),
      blake3 (lit ''dir:'' @ normalize_path path), blake3 (lit ''symlink:'' @ normalize_path path), blake3 path] m)"
  by (simp add: mark_keys_def file_path_hash_def directory_path_hash_def symlink_path_hash_def compute_hash_algo_def Let_def)

lemma replay_correct:
  assumes "sorted_by fst m"
  shows "\<exists>m'. replay_deletion_records blake3 Blake3_256 ds m = Inr m' \<and> sorted_by fst m' \<and> (\<forall>h. hm_get m' h =
      map_option (\<lambda>r. if deleted_by blake3 ds h r then marked_deleted r else r) (hm_get m h))"
  using assms
proof (induction ds arbitrary: m)
  case Nil
  then show ?case by (simp add: deleted_by_def option.map_ident)
next
  case (Cons x ds)
  obtain path d where x: "x = (path, d)" by fastforce
  define ks where "ks = [blake3 (lit ''file:'' @ normalize_path path), blake3 (lit ''dir:'' @ normalize_path path),
    blake3 (lit ''symlink:'' @ normalize_path path), blake3 path]"
  have ks: "set ks = deletion_keys blake3 path" by (auto simp: ks_def deletion_keys_def)
  note c = mark_keys_correct [OF Cons.prems, of d ks]
  have comp: "(\<lambda>r. if deleted_by blake3 ds h r then marked_deleted r else r) \<circ>
      (\<lambda>r. if h \<in> set ks \<and> is_after d (rr_order r) then marked_deleted r else r) =
      (\<lambda>r. if deleted_by blake3 (x # ds) h r then marked_deleted r else r)" for h
  proof
    fix r
    have "deleted_by blake3 (x # ds) h r \<longleftrightarrow> is_after d (rr_order r) \<and> h \<in> set ks \<or> deleted_by blake3 ds h r"
      by (simp add: deleted_by_def x ks)
    moreover have "deleted_by blake3 ds h (marked_deleted r) = deleted_by blake3 ds h r" by (simp add: deleted_by_def)
    ultimately show "((\<lambda>r. if deleted_by blake3 ds h r then marked_deleted r else r) \<circ>
        (\<lambda>r. if h \<in> set ks \<and> is_after d (rr_order r) then marked_deleted r else r)) r =
        (if deleted_by blake3 (x # ds) h r then marked_deleted r else r)"
      using marked_deleted_twice [of r] by auto
  qed
  obtain m' where m': "replay_deletion_records blake3 Blake3_256 ds (mark_keys d ks m) = Inr m'" "sorted_by fst m'"
    "\<forall>h. hm_get m' h = map_option (\<lambda>r. if deleted_by blake3 ds h r then marked_deleted r else r) (hm_get (mark_keys d ks m) h)"
    using Cons.IH c by blast
  have "hm_get m' h = map_option (\<lambda>r. if deleted_by blake3 (x # ds) h r then marked_deleted r else r) (hm_get m h)" for h
    using m'(3) c comp [of h] by (simp add: option.map_comp)
  then show ?case using m'(1,2) unfolding x replay_step ks_def [symmetric] by blast
qed

lemma resolve_correct:
  assumes "scan_ok rs"
  shows "\<exists>es. resolve_rebuild_records blake3 rs Blake3_256 ds = Inr es \<and> distinct (map kv_hash es) \<and>
    set es = {to_kv_entry (if deleted_by blake3 ds (rr_hash r) r then marked_deleted r else r) | r. stands rs r}"
proof -
  define m where "m = fold resolve_record rs []"
  note m = resolve_inv [OF assms, folded m_def] and st = resolve_stands [OF assms, folded m_def]
  obtain m' where m': "replay_deletion_records blake3 Blake3_256 ds m = Inr m'" "sorted_by fst m'"
    "\<And>h. hm_get m' h = map_option (\<lambda>r. if deleted_by blake3 ds h r then marked_deleted r else r) (hm_get m h)"
    using replay_correct [of m blake3 ds] m by blast
  define f where "f = (\<lambda>h r. if deleted_by blake3 ds h r then marked_deleted r else r)"
  have get: "hm_get m' h = map_option (f h) (hm_get m h)" for h unfolding m'(3) f_def ..
  have mem: "(h, x) \<in> set m' \<longleftrightarrow> (\<exists>r. stands rs r \<and> rr_hash r = h \<and> f h r = x)" for h x
    using hm_get_Some_iff [OF m'(2), of h x] unfolding get map_option_eq_Some st by blast
  have f_hash: "rr_hash (f h r) = rr_hash r" for h r by (simp add: f_def)
  have hash: "rr_hash x = h" if "(h, x) \<in> set m'" for h x using that f_hash unfolding mem by blast
  have "map kv_hash (map (to_kv_entry \<circ> snd) m') = map fst m'"
    unfolding map_map by (rule map_cong [OF refl]) (use hash in \<open>simp add: to_kv_entry_def split: prod.split\<close>)
  then have "distinct (map kv_hash (map (to_kv_entry \<circ> snd) m'))" using sorted_by_distinct [OF m'(2)] by (simp only:)
  moreover have "set (map (to_kv_entry \<circ> snd) m') = {to_kv_entry (f (rr_hash r) r) | r. stands rs r}"
  proof (rule set_eqI)
    fix e
    have "e \<in> set (map (to_kv_entry \<circ> snd) m') \<longleftrightarrow> (\<exists>h x. (h, x) \<in> set m' \<and> e = to_kv_entry x)"
      by (auto simp: image_iff) (metis snd_conv)+
    then show "e \<in> set (map (to_kv_entry \<circ> snd) m') \<longleftrightarrow> e \<in> {to_kv_entry (f (rr_hash r) r) | r. stands rs r}"
      unfolding mem by blast
  qed
  moreover have "resolve_rebuild_records blake3 rs Blake3_256 ds = Inr (map (to_kv_entry \<circ> snd) m')"
    using m'(1) by (simp add: resolve_rebuild_records_def m_def)
  ultimately show ?thesis unfolding f_def by blast
qed

text \<open>
  C14: The index rebuilt from a scan.  If the records of one key have one type and every record its own place in
  the log, the rebuilt index has one entry per key, for the newest record of that key, a directory with children
  before an empty one, whatever the order of the scan; the entry is flagged deleted exactly if a deletion record
  newer than it names its file, directory or symbolic-link key, or the key itself.
\<close>

theorem rebuild_newest_wins:
  assumes "scan_ok rs"
  shows "\<exists>es. resolve_rebuild_records blake3 rs Blake3_256 ds = Inr es \<and> distinct (map kv_hash es) \<and>
    set es = {to_kv_entry (if deleted_by blake3 ds (rr_hash r) r then marked_deleted r else r) | r. stands rs r}"
  using assms by (rule resolve_correct)

text \<open>Two versions of one file, the newer one at the lower offset, and the deletion that came last.\<close>

definition sample_rebuild_record :: "bytes \<Rightarrow> i64 \<Rightarrow> nat \<Rightarrow> rebuild_kv_record" where
  "sample_rebuild_record h ts off = \<lparr> rr_type_flags = KV_TYPE_FILE_RECORD, rr_hash = h, rr_offset = off,
    rr_value_length = 10, rr_total_length = 105, rr_order = \<lparr> ro_timestamp = ts, ro_offset = off \<rparr> \<rparr>"

theorem rebuild_newest_wins_witness:
  "scan_ok [sample_rebuild_record [1] 5 900, sample_rebuild_record [1] 8 200] \<and>
    (\<exists>e. resolve_rebuild_records (\<lambda>bs. bs) [sample_rebuild_record [1] 5 900, sample_rebuild_record [1] 8 200]
      Blake3_256 [] = Inr [e] \<and> kv_offset e = 200)"
proof -
  let ?a = "sample_rebuild_record [1] 5 900" and ?b = "sample_rebuild_record [1] 8 200"
  have ok: "scan_ok [?a, ?b]" by (simp add: scan_ok_def sample_rebuild_record_def)
  have st: "stands [?a, ?b] r \<longleftrightarrow> r = ?b" for r
    by (auto simp: stands_def outranks_def full_directory_def is_after_def sample_rebuild_record_def KV_TYPE_FILE_RECORD_def
        KV_TYPE_DIRECTORY_def)
  obtain es where es: "resolve_rebuild_records (\<lambda>bs. bs) [?a, ?b] Blake3_256 [] = Inr es" "distinct (map kv_hash es)"
    "set es = {to_kv_entry ?b}"
    using rebuild_newest_wins [OF ok, of "\<lambda>bs. bs" "[]"] by (auto simp: st deleted_by_def)
  have "distinct es" using es(2) by (simp add: distinct_map)
  then have "es = [to_kv_entry ?b]" using es(3) by (cases es; cases "tl es") auto
  then show ?thesis using ok es(1) by (simp add: to_kv_entry_def sample_rebuild_record_def)
qed

text \<open>
  C38: A replayed deletion hits the wrong file.  The file created as \<^verbatim>\<open>"/a /"\<close> is stored, and deleted, under the
  path with the trailing blank; the replay normalizes the recorded path once more, so after a rebuild the older
  file \<^verbatim>\<open>"/a"\<close>, which was never deleted, is flagged deleted, and the deleted file is live again.
\<close>

theorem replayed_deletion_hits_other_file:
  assumes "rr_hash kept = blake3 (lit ''file:'' @ lit ''/a'')"
    and "rr_hash gone = blake3 (lit ''file:'' @ normalize_path (lit ''/a /''))"
    and "rr_type_flags kept = KV_TYPE_FILE_RECORD" "rr_type_flags gone = KV_TYPE_FILE_RECORD"
    and "is_after deletion (rr_order kept)" "is_after deletion (rr_order gone)"
    and "ro_offset (rr_order kept) \<noteq> ro_offset (rr_order gone)"
    and "rr_hash gone \<notin> deletion_keys blake3 (lit ''/a'')" "rr_hash gone \<noteq> blake3 (normalize_path (lit ''/a /''))"
  shows "\<exists>es. resolve_rebuild_records blake3 [kept, gone] Blake3_256 [(normalize_path (lit ''/a /''), deletion)] = Inr es \<and>
    set es = {(to_kv_entry kept)\<lparr> kv_type_flags := KV_TYPE_FILE_RECORD OR KV_FLAG_DELETED \<rparr>, to_kv_entry gone}"
proof -
  have n: "normalize_path (lit ''/a /'') = lit ''/a ''" "normalize_path (lit ''/a '') = lit ''/a''"
    by code_simp+
  have norm: "normalize_path (lit ''/a'') = lit ''/a''" by code_simp
  have neq: "rr_hash kept \<noteq> rr_hash gone"
    using assms(1,8) by (auto simp: deletion_keys_def norm)
  have st: "stands [kept, gone] r \<longleftrightarrow> r = kept \<or> r = gone" for r using neq by (auto simp: stands_def)
  have ok: "scan_ok [kept, gone]" using assms(3,4,7) by (auto simp: scan_ok_def inj_on_def)
  let ?ds = "[(normalize_path (lit ''/a /''), deletion)]"
  have "deleted_by blake3 ?ds (rr_hash kept) kept"
    unfolding n using assms(1,5) by (simp add: deleted_by_def deletion_keys_def n)
  moreover have "\<not> deleted_by blake3 ?ds (rr_hash gone) gone"
    unfolding n using assms(8,9) n by (auto simp: deleted_by_def deletion_keys_def norm)
  ultimately have "{to_kv_entry (if deleted_by blake3 ?ds (rr_hash r) r then marked_deleted r else r) | r. stands [kept, gone] r} =
      {to_kv_entry (marked_deleted kept), to_kv_entry gone}"
    unfolding st by force
  moreover have "to_kv_entry (marked_deleted kept) = (to_kv_entry kept)\<lparr> kv_type_flags := KV_TYPE_FILE_RECORD OR KV_FLAG_DELETED \<rparr>"
    by (simp add: to_kv_entry_def assms(3) KV_TYPE_FILE_RECORD_def)
  ultimately show ?thesis using resolve_correct [OF ok, of blake3 ?ds] by auto
qed

theorem replayed_deletion_hits_other_file_witness:
  "\<exists>es e. resolve_rebuild_records (\<lambda>bs. bs)
      [sample_rebuild_record (lit ''file:'' @ lit ''/a'') 3 1000, sample_rebuild_record (lit ''file:'' @ lit ''/a '') 4 2000]
      Blake3_256 [(normalize_path (lit ''/a /''), \<lparr> ro_timestamp = 9, ro_offset = 3000 \<rparr>)] = Inr es \<and>
    e \<in> set es \<and> kv_hash e = lit ''file:'' @ lit ''/a'' \<and> is_deleted e"
proof -
  let ?kept = "sample_rebuild_record (lit ''file:'' @ lit ''/a'') 3 1000"
  let ?gone = "sample_rebuild_record (lit ''file:'' @ lit ''/a '') 4 2000"
  have n: "normalize_path (lit ''/a /'') = lit ''/a ''" "normalize_path (lit ''/a'') = lit ''/a''" by code_simp+
  have "rr_hash ?gone \<notin> deletion_keys (\<lambda>bs. bs) (lit ''/a'')" "rr_hash ?gone \<noteq> lit ''/a ''"
    unfolding deletion_keys_def n by (simp_all add: sample_rebuild_record_def lit_def)
  then obtain es where "resolve_rebuild_records (\<lambda>bs. bs) [?kept, ?gone] Blake3_256
      [(normalize_path (lit ''/a /''), \<lparr> ro_timestamp = 9, ro_offset = 3000 \<rparr>)] = Inr es"
    "set es = {(to_kv_entry ?kept)\<lparr> kv_type_flags := KV_TYPE_FILE_RECORD OR KV_FLAG_DELETED \<rparr>, to_kv_entry ?gone}"
    using replayed_deletion_hits_other_file [of ?kept "\<lambda>bs. bs" ?gone "\<lparr> ro_timestamp = 9, ro_offset = 3000 \<rparr>"]
    by (auto simp: sample_rebuild_record_def is_after_def n)
  then show ?thesis
    by (intro exI [of _ es] exI [of _ "(to_kv_entry ?kept)\<lparr> kv_type_flags := KV_TYPE_FILE_RECORD OR KV_FLAG_DELETED \<rparr>"])
       (simp add: to_kv_entry_def sample_rebuild_record_def is_deleted_def KV_TYPE_FILE_RECORD_def KV_FLAG_DELETED_def)
qed

end
