(* ===== verification/Storage_Engine.thy ===== *)
theory Storage_Engine
  imports Disk_KV_Ops Void_Manager Entry_Scanner KV_Expand Rebuild_Records
begin

text \<open>
  The storage engine of \<^verbatim>\<open>storage_engine.rs\<close>: it composes the append writer, the disk index and the void
  manager.  The writer and the index hold handles of one file, so after each operation of one of them the
  bytes are copied to the other.  A definition models a call up to its return with all its locks taken; after
  an error the state is not modelled, except where the program goes on.  The lookups read the published
  snapshot of the index.  \<open>now\<close> stands for readings of the clock.  In a \<open>fallible\<close> result \<open>None\<close> is a panic (or
  a scan that does not end).  Counters, log messages and \<^verbatim>\<open>fsync\<close> have no effect on the modelled state.
\<close>

section \<open>The engine\<close>

record storage_engine =
  sg_writer :: append_writer
  sg_kv :: disk_kv_store
  sg_void_manager :: void_manager
  sg_hash_algo :: hash_algorithm
  sg_shutting_down :: bool
  sg_durability_failure :: "string option"
  sg_last_published_hot_tail_offset :: nat
  sg_gc_recheck :: "bytes list option"
  sg_dir_content_cache :: "(bytes \<times> bytes) list"

text \<open>An operation of the writer, or of the index, has changed the common file.\<close>

definition with_writer :: "append_writer \<Rightarrow> storage_engine \<Rightarrow> storage_engine" where
  "with_writer w e = e\<lparr> sg_writer := w, sg_kv := (sg_kv e)\<lparr> dk_db_file := aw_file w \<rparr> \<rparr>"

definition with_kv :: "disk_kv_store \<Rightarrow> storage_engine \<Rightarrow> storage_engine" where
  "with_kv s e = e\<lparr> sg_kv := s, sg_writer := (sg_writer e)\<lparr> aw_file := dk_db_file s \<rparr> \<rparr>"

type_synonym 'a engine_call = "('a \<times> storage_engine) fallible"

text \<open>The operation guard of an outermost call.\<close>

definition operation_guard :: "storage_engine \<Rightarrow> 'a fallible \<Rightarrow> 'a fallible" where
  "operation_guard e r = (if sg_shutting_down e then Some (Inl ShuttingDown) else r)"

definition ensure_writable :: "storage_engine \<Rightarrow> 'a fallible \<Rightarrow> 'a fallible" where
  "ensure_writable e r = (case sg_durability_failure e of
     Some failure \<Rightarrow>
       Some (Inl (DurabilityFailure (''database is read-only after serious durability failure: '' @ failure)))
   | None \<Rightarrow> r)"

abbreviation lift_result :: "'a engine_result \<Rightarrow> 'a fallible" where
  "lift_result r \<equiv> Some r"

text \<open>A panic of the header codec.\<close>

definition no_panic :: "'a option \<Rightarrow> 'a fallible" where
  "no_panic r = map_option Inr r"

section \<open>Ranges of the log\<close>

definition valid_reusable_range :: "u64 \<Rightarrow> u32 \<Rightarrow> nat \<Rightarrow> nat \<Rightarrow> bool" where
  "valid_reusable_range offset sz wal_start wal_end =
    (if sz = 0 \<or> wal_end < wal_start \<or> unat offset < wal_start then False
     else if unat offset + unat sz \<ge> 2 ^ 64 then False
     else unat offset + unat sz \<le> wal_end)"

definition writer_wal_bounds :: "append_writer \<Rightarrow> nat \<times> nat" where
  "writer_wal_bounds w =
    (min (unat (fh_kv_block_offset (aw_header w)) + unat (fh_kv_block_length (aw_header w))) (2 ^ 64 - 1), aw_offset w)"

definition is_current_reusable_range :: "storage_engine \<Rightarrow> u64 \<Rightarrow> u32 \<Rightarrow> bool" where
  "is_current_reusable_range e offset sz =
    (let (wal_start, wal_end) = writer_wal_bounds (sg_writer e) in valid_reusable_range offset sz wal_start wal_end)"

definition validate_kv_entry_offset :: "append_writer \<Rightarrow> kv_entry \<Rightarrow> unit engine_result" where
  "validate_kv_entry_offset w kv_entry =
    (let (wal_start, wal_end) = writer_wal_bounds w in
     if valid_reusable_range (kv_offset kv_entry) (kv_total_length kv_entry) wal_start wal_end then Inr ()
     else Inl (CorruptEntry (unat (kv_offset kv_entry)) ''KV entry points outside current WAL region''))"

definition filter_voids_for_bounds :: "void_record list \<Rightarrow> nat \<Rightarrow> nat \<Rightarrow> void_record list" where
  "filter_voids_for_bounds vs wal_start wal_end =
    filter (\<lambda>v. valid_reusable_range (vr_offset v) (vr_size v) wal_start wal_end) vs"

text \<open>One void after the log below \<open>relocated_end\<close> has moved by \<open>offset_delta\<close>.\<close>

definition adjust_void ::
  "nat \<Rightarrow> nat \<Rightarrow> int \<Rightarrow> nat \<Rightarrow> nat \<Rightarrow> void_record \<Rightarrow> void_record option" where
  "adjust_void old_kv_end relocated_end offset_delta new_wal_start new_wal_end v =
    (let off = unat (vr_offset v); end' = off + unat (vr_size v);
         keep = (\<lambda>v. if valid_reusable_range (vr_offset v) (vr_size v) new_wal_start new_wal_end then Some v else None) in
     if end' \<ge> 2 ^ 64 then None
     else if off \<ge> old_kv_end \<and> end' \<le> relocated_end then
       (let shifted = int off + offset_delta in
        if shifted < 0 \<or> shifted > 2 ^ 64 - 1 then None else keep (v\<lparr> vr_offset := word_of_int shifted \<rparr>))
     else if off < new_wal_start then None
     else keep v)"

definition adjust_voids_for_expansion ::
  "void_record list \<Rightarrow> nat \<Rightarrow> nat \<Rightarrow> int \<Rightarrow> nat \<Rightarrow> nat \<Rightarrow> void_record list" where
  "adjust_voids_for_expansion vs old_kv_end relocated_end offset_delta new_wal_start new_wal_end =
    List.map_filter (adjust_void old_kv_end relocated_end offset_delta new_wal_start new_wal_end) vs"

section \<open>Reading\<close>

definition snapshot_get :: "(bytes \<Rightarrow> u32) \<Rightarrow> storage_engine \<Rightarrow> bytes \<Rightarrow> kv_entry option" where
  "snapshot_get crc32 e hash =
    (case rs_get crc32 (dk_snapshot (sg_kv e)) hash of
       Some entry \<Rightarrow> if is_deleted entry then None else Some entry | None \<Rightarrow> None)"

text \<open>The common part of the readers: the check of the range, then the read.\<close>

definition read_at_entry ::
  "storage_engine \<Rightarrow> kv_entry option \<Rightarrow> (nat \<Rightarrow> 'a fallible) \<Rightarrow> 'a option fallible" where
  "read_at_entry e found reader =
    (case found of
       None \<Rightarrow> Some (Inr None)
     | Some kv_entry \<Rightarrow>
         fal_bind (lift_result (validate_kv_entry_offset (sg_writer e) kv_entry)) (\<lambda>_.
         fal_bind (reader (unat (kv_offset kv_entry))) (\<lambda>r. Some (Inr (Some r)))))"

type_synonym entry_data = "entry_header \<times> bytes \<times> bytes"

definition get_entry ::
  "(bytes \<Rightarrow> u32) \<Rightarrow> (bytes \<Rightarrow> bytes) \<Rightarrow> storage_engine \<Rightarrow> bytes \<Rightarrow> entry_data option fallible" where
  "get_entry crc32 blake3 e hash = operation_guard e
    (read_at_entry e (snapshot_get crc32 e hash) (read_entry_at_shared blake3 (sg_writer e)))"

definition get_entry_header ::
  "(bytes \<Rightarrow> u32) \<Rightarrow> storage_engine \<Rightarrow> bytes \<Rightarrow> entry_header option fallible" where
  "get_entry_header crc32 e hash = operation_guard e
    (read_at_entry e (snapshot_get crc32 e hash) (\<lambda>off. lift_result (read_entry_header_at_shared (sg_writer e) off)))"

definition get_entry_including_deleted ::
  "(bytes \<Rightarrow> u32) \<Rightarrow> (bytes \<Rightarrow> bytes) \<Rightarrow> storage_engine \<Rightarrow> bytes \<Rightarrow> entry_data option fallible" where
  "get_entry_including_deleted crc32 blake3 e hash = operation_guard e
    (read_at_entry e (rs_get_raw crc32 (dk_snapshot (sg_kv e)) hash) (read_entry_at_shared blake3 (sg_writer e)))"

definition get_entry_verified ::
  "(bytes \<Rightarrow> u32) \<Rightarrow> (bytes \<Rightarrow> bytes) \<Rightarrow> storage_engine \<Rightarrow> bytes \<Rightarrow> entry_data option fallible" where
  "get_entry_verified crc32 blake3 e hash = operation_guard e
    (read_at_entry e (snapshot_get crc32 e hash) (read_entry_at_shared_verified blake3 (sg_writer e)))"

definition get_entry_verified_including_deleted ::
  "(bytes \<Rightarrow> u32) \<Rightarrow> (bytes \<Rightarrow> bytes) \<Rightarrow> storage_engine \<Rightarrow> bytes \<Rightarrow> entry_data option fallible" where
  "get_entry_verified_including_deleted crc32 blake3 e hash = operation_guard e
    (read_at_entry e (rs_get_raw crc32 (dk_snapshot (sg_kv e)) hash) (read_entry_at_shared_verified blake3 (sg_writer e)))"

definition has_entry :: "(bytes \<Rightarrow> u32) \<Rightarrow> storage_engine \<Rightarrow> bytes \<Rightarrow> bool fallible" where
  "has_entry crc32 e hash = operation_guard e
    (Some (Inr (case rs_get crc32 (dk_snapshot (sg_kv e)) hash of Some entry \<Rightarrow> \<not> is_deleted entry | None \<Rightarrow> False)))"

definition is_entry_deleted :: "(bytes \<Rightarrow> u32) \<Rightarrow> storage_engine \<Rightarrow> bytes \<Rightarrow> bool fallible" where
  "is_entry_deleted crc32 e hash = operation_guard e
    (Some (Inr (case rs_get_raw crc32 (dk_snapshot (sg_kv e)) hash of Some entry \<Rightarrow> is_deleted entry | None \<Rightarrow> False)))"

definition read_entry_header_at :: "storage_engine \<Rightarrow> nat \<Rightarrow> entry_header fallible" where
  "read_entry_header_at e offset = operation_guard e
    (let (wal_start, wal_end) = writer_wal_bounds (sg_writer e) in
     if offset < wal_start \<or> offset \<ge> wal_end
     then Some (Inl (CorruptEntry offset ''entry header offset is outside current WAL region''))
     else fal_bind (lift_result (read_entry_header_at_shared (sg_writer e) offset)) (\<lambda>header.
       if \<not> valid_reusable_range (word_of_nat offset) (eh_total_length header) wal_start wal_end
       then Some (Inl (CorruptEntry offset ''entry range is outside current WAL region''))
       else Some (Inr header)))"

definition entries_by_type ::
  "(bytes \<Rightarrow> u32) \<Rightarrow> (bytes \<Rightarrow> bytes) \<Rightarrow> storage_engine \<Rightarrow> u8 \<Rightarrow> (bytes \<times> bytes) list fallible" where
  "entries_by_type crc32 blake3 e target_type = operation_guard e
    (let read = (\<lambda>entry. case validate_kv_entry_offset (sg_writer e) entry of
           Inl _ \<Rightarrow> Some (Inr [])
         | Inr () \<Rightarrow>
             (case read_entry_at_shared blake3 (sg_writer e) (unat (kv_offset entry)) of
                None \<Rightarrow> None
              | Some (Inl _) \<Rightarrow> Some (Inr [])
              | Some (Inr (_, _, value)) \<Rightarrow> Some (Inr [(kv_hash entry, value)]))) in
     fold (\<lambda>entry acc. fal_bind acc (\<lambda>results. fal_bind (read entry) (\<lambda>r. Some (Inr (results @ r)))))
       (rs_iter_by_type crc32 (dk_snapshot (sg_kv e)) target_type) (Some (Inr [])))"

section \<open>Chunks\<close>

text \<open>\<open>zstd\<close> is the decoder of the compression library.\<close>

definition decode_chunk_entry ::
  "(bytes \<Rightarrow> string + bytes) \<Rightarrow> entry_header \<Rightarrow> bytes \<Rightarrow> bytes engine_result" where
  "decode_chunk_entry zstd header value =
    (if eh_entry_type header \<noteq> Chunk then Inl (InvalidInput ''Hash is not a chunk entry'')
     else if eh_compression_algo header \<noteq> NoCompression then decompress zstd value (eh_compression_algo header)
     else Inr value)"

definition decode_verified_chunk_entry_from_buffer ::
  "(bytes \<Rightarrow> bytes) \<Rightarrow> (bytes \<Rightarrow> string + bytes) \<Rightarrow> bytes \<Rightarrow> nat \<Rightarrow> bytes \<Rightarrow> bytes engine_result" where
  "decode_verified_chunk_entry_from_buffer blake3 zstd requested_hash entry_offset buf =
    (if length buf < FIXED_HEADER_SIZE then Inl (CorruptEntry entry_offset ''Entry buffer too short'')
     else res_bind (fixed_hash_algo buf) (\<lambda>hash_algo.
       let full_header_size = FIXED_HEADER_SIZE + hash_length hash_algo in
       if length buf < full_header_size then Inl (CorruptEntry entry_offset ''Entry buffer too short for full header'')
       else res_bind (entry_header_deserialize (take full_header_size buf)) (\<lambda>(header, _).
         if unat (eh_total_length header) \<noteq> length buf
         then Inl (CorruptEntry entry_offset ''Entry total_length does not match buffered length'')
         else if \<not> payload_fits header
         then Inl (CorruptEntry entry_offset ''key_length + value_length exceeds total_length minus header'')
         else let key_end = full_header_size + unat (eh_key_length header);
                  value_end = key_end + unat (eh_value_length header) in
           if value_end > length buf then Inl (CorruptEntry entry_offset ''Entry payload extends past buffered length'')
           else let key = slice_at buf full_header_size (unat (eh_key_length header));
                    value = slice_at buf key_end (unat (eh_value_length header)) in
             if key \<noteq> requested_hash then Inl (CorruptEntry entry_offset ''Chunk key mismatch'')
             else if \<not> entry_verify blake3 header key value
             then Inl (CorruptEntry entry_offset ''Hash verification failed'')
             else decode_chunk_entry zstd header value)))"

definition decode_found ::
  "(bytes \<Rightarrow> string + bytes) \<Rightarrow> entry_data option fallible \<Rightarrow> bytes option fallible" where
  "decode_found zstd r = fal_bind r (\<lambda>found. case found of
     Some (header, _, value) \<Rightarrow> fal_bind (lift_result (decode_chunk_entry zstd header value)) (\<lambda>v. Some (Inr (Some v)))
   | None \<Rightarrow> Some (Inr None))"

definition read_chunk where
  "read_chunk crc32 blake3 zstd e hash = decode_found zstd (get_entry crc32 blake3 e hash)"

definition read_chunk_including_deleted where
  "read_chunk_including_deleted crc32 blake3 zstd e hash =
    decode_found zstd (get_entry_including_deleted crc32 blake3 e hash)"

definition read_chunk_verified where
  "read_chunk_verified crc32 blake3 zstd e hash = decode_found zstd (get_entry_verified crc32 blake3 e hash)"

definition read_chunk_verified_including_deleted where
  "read_chunk_verified_including_deleted crc32 blake3 zstd e hash =
    decode_found zstd (get_entry_verified_including_deleted crc32 blake3 e hash)"

record chunk_entry_metadata =
  cm_offset :: u64
  cm_total_length :: u32
  cm_stored_value_length :: nat
  cm_raw_value_length :: "nat option"
  cm_compression_algo :: compression_algorithm

record chunk_read_location =
  cl_hash :: bytes
  cl_offset :: u64
  cl_total_length :: u32

definition get_chunk_metadata ::
  "(bytes \<Rightarrow> u32) \<Rightarrow> storage_engine \<Rightarrow> bytes \<Rightarrow> chunk_entry_metadata option fallible" where
  "get_chunk_metadata crc32 e hash = operation_guard e
    (case snapshot_get crc32 e hash of
       None \<Rightarrow> Some (Inr None)
     | Some kv_entry \<Rightarrow>
         if kv_entry_type kv_entry \<noteq> KV_TYPE_CHUNK then Some (Inl (InvalidInput ''Hash is not a chunk entry''))
         else let hl = hash_length (sg_hash_algo e); overhead = FIXED_HEADER_SIZE + hl + hl in
           if unat (kv_total_length kv_entry) < overhead
           then Some (Inl (CorruptEntry (unat (kv_offset kv_entry)) ''chunk KV entry total_length is smaller than overhead''))
           else let stored = unat (kv_total_length kv_entry) - overhead in
             Some (Inr (Some \<lparr> cm_offset = kv_offset kv_entry, cm_total_length = kv_total_length kv_entry,
               cm_stored_value_length = stored, cm_raw_value_length = Some stored,
               cm_compression_algo = NoCompression \<rparr>)))"

text \<open>The first loop of the span read: every location is still the live entry at its place.\<close>

definition check_location ::
  "(bytes \<Rightarrow> u32) \<Rightarrow> storage_engine \<Rightarrow> chunk_read_location \<Rightarrow> unit engine_result" where
  "check_location crc32 e l =
    (case snapshot_get crc32 e (cl_hash l) of
       None \<Rightarrow> Inl (NotFound ''Chunk not found'')
     | Some kv_entry \<Rightarrow>
         if kv_entry_type kv_entry \<noteq> KV_TYPE_CHUNK then Inl (InvalidInput ''Hash is not a chunk entry'')
         else if kv_offset kv_entry \<noteq> cl_offset l \<or> kv_total_length kv_entry \<noteq> cl_total_length l
         then Inl (CorruptEntry (unat (cl_offset l)) ''Chunk KV entry moved while planning span'')
         else res_bind (validate_kv_entry_offset (sg_writer e) kv_entry) (\<lambda>_.
           if unat (cl_offset l) + unat (cl_total_length l) \<ge> 2 ^ 64
           then Inl (InvalidInput ''Chunk span offset overflowed'') else Inr ()))"

fun check_locations ::
  "(bytes \<Rightarrow> u32) \<Rightarrow> storage_engine \<Rightarrow> chunk_read_location list \<Rightarrow> nat \<Rightarrow> nat \<Rightarrow> (nat \<times> nat) engine_result" where
  "check_locations crc32 e [] span_start span_end = Inr (span_start, span_end)"
| "check_locations crc32 e (l # ls) span_start span_end =
    res_bind (check_location crc32 e l) (\<lambda>_.
      check_locations crc32 e ls (min span_start (unat (cl_offset l)))
        (max span_end (unat (cl_offset l) + unat (cl_total_length l))))"

fun decode_locations ::
  "(bytes \<Rightarrow> bytes) \<Rightarrow> (bytes \<Rightarrow> string + bytes) \<Rightarrow> nat \<Rightarrow> bytes \<Rightarrow> chunk_read_location list \<Rightarrow>
    bytes list engine_result" where
  "decode_locations blake3 zstd span_start span [] = Inr []"
| "decode_locations blake3 zstd span_start span (l # ls) =
    (if unat (cl_offset l) < span_start then Inl (InvalidInput ''Chunk span relative offset underflowed'')
     else let relative_start = unat (cl_offset l) - span_start;
              relative_end = relative_start + unat (cl_total_length l) in
       if relative_end > length span
       then Inl (CorruptEntry (unat (cl_offset l)) ''Chunk entry extends past buffered span'')
       else res_bind (decode_verified_chunk_entry_from_buffer blake3 zstd (cl_hash l) (unat (cl_offset l))
             (slice_at span relative_start (unat (cl_total_length l)))) (\<lambda>chunk.
         res_bind (decode_locations blake3 zstd span_start span ls) (\<lambda>chunks. Inr (chunk # chunks))))"

definition read_chunk_span_verified ::
  "(bytes \<Rightarrow> u32) \<Rightarrow> (bytes \<Rightarrow> bytes) \<Rightarrow> (bytes \<Rightarrow> string + bytes) \<Rightarrow> storage_engine \<Rightarrow> chunk_read_location list \<Rightarrow>
    bytes list fallible" where
  "read_chunk_span_verified crc32 blake3 zstd e locations = operation_guard e
    (if locations = [] then Some (Inr [])
     else lift_result
       (res_bind (check_locations crc32 e locations (2 ^ 64 - 1) 0) (\<lambda>(span_start, span_end).
        if span_end < span_start then Inl (InvalidInput ''Chunk span length underflowed'')
        else res_bind (read_span_at (aw_file (sg_writer e)) span_start (span_end - span_start)) (\<lambda>span.
          decode_locations blake3 zstd span_start span locations))))"

end
