(* ===== verification/Storage_Ops.thy ===== *)
theory Storage_Ops
  imports Storage_Engine
begin

text \<open>
  The operations of \<^verbatim>\<open>storage_engine.rs\<close> that change the engine: storing (with reuse of freed space), batches,
  the head and the transactions, the online growth of the index block, the garbage collector's in-place
  writes, the rebuild of the index, and creating and opening a database.  A call is modelled without another
  thread between its critical sections.
\<close>

section \<open>Freed space\<close>

definition void_records :: "void_manager \<Rightarrow> void_record list" where
  "void_records vm = map (\<lambda>(offset, sz). \<lparr> vr_offset = offset, vr_size = sz \<rparr>) (void_iter vm)"

text \<open>The search loop of a store: voids outside the log are discarded.  The flag says whether any void was taken.\<close>

partial_function (option) consume_void ::
  "u32 \<Rightarrow> nat \<Rightarrow> nat \<Rightarrow> void_manager \<Rightarrow> bool \<Rightarrow> ((u64 \<times> u32) option \<times> bool \<times> void_manager) option" where
  "consume_void needed wal_start wal_end vm changed =
    (case find_void needed vm of
       None \<Rightarrow> None
     | Some (None, vm1) \<Rightarrow> Some (None, changed, vm1)
     | Some (Some (void_offset, void_size), vm1) \<Rightarrow>
         if valid_reusable_range void_offset void_size wal_start wal_end
         then Some (Some (void_offset, void_size), True, vm1)
         else consume_void needed wal_start wal_end vm1 True)"

definition can_reuse_void_for_entry :: "entry_type \<Rightarrow> bool" where
  "can_reuse_void_for_entry et \<longleftrightarrow> et = Chunk"

definition sync_voids_to_kv_writer :: "storage_engine \<Rightarrow> storage_engine" where
  "sync_voids_to_kv_writer e = with_kv (set_pending_voids (sg_kv e) (void_records (sg_void_manager e))) e"

section \<open>The sweep's recheck set\<close>

definition record_gc_recheck :: "bytes \<Rightarrow> storage_engine \<Rightarrow> storage_engine" where
  "record_gc_recheck hash e =
    (case sg_gc_recheck e of
       Some hs \<Rightarrow> e\<lparr> sg_gc_recheck := Some (hs_insert hash hs) \<rparr> | None \<Rightarrow> e)"

definition begin_gc_recheck :: "storage_engine \<Rightarrow> storage_engine" where
  "begin_gc_recheck e = e\<lparr> sg_gc_recheck := Some [] \<rparr>"

definition take_gc_recheck :: "storage_engine \<Rightarrow> bytes list \<times> storage_engine" where
  "take_gc_recheck e =
    (case sg_gc_recheck e of Some hs \<Rightarrow> (hs, e\<lparr> sg_gc_recheck := Some [] \<rparr>) | None \<Rightarrow> ([], e))"

definition gc_recheck_contains :: "storage_engine \<Rightarrow> bytes \<Rightarrow> bool" where
  "gc_recheck_contains e hash = (case sg_gc_recheck e of Some hs \<Rightarrow> hash \<in> set hs | None \<Rightarrow> False)"

definition end_gc_recheck :: "storage_engine \<Rightarrow> storage_engine" where
  "end_gc_recheck e = e\<lparr> sg_gc_recheck := None \<rparr>"

section \<open>Online growth of the index block\<close>

text \<open>
  The first place at or behind the new end of the block with the bytes of the entry magic; the end itself when
  there is none within a mebibyte, none before the end of the log, or a read fails first.
\<close>

definition growth_copy_end :: "bytes \<Rightarrow> nat \<Rightarrow> nat \<Rightarrow> nat" where
  "growth_copy_end f new_kv_end hot_tail_offset =
    (case List.find (\<lambda>p. case read_exact f p 4 of None \<Rightarrow> True | Some buf \<Rightarrow> buf = to_le_bytes ENTRY_MAGIC)
        [new_kv_end..<min (new_kv_end + 1024 * 1024) hot_tail_offset] of
       None \<Rightarrow> new_kv_end
     | Some p \<Rightarrow> if read_exact f p 4 = None then new_kv_end else p)"

text \<open>The file after a copy that may stop at a failed read.\<close>

function copy_loop_file :: "nat \<Rightarrow> nat \<Rightarrow> nat \<Rightarrow> bytes \<Rightarrow> bytes" where
  "copy_loop_file read_pos write_pos remaining f =
    (if remaining = 0 then f
     else let chunk_len = min COPY_CHUNK remaining in
       (case read_exact f read_pos chunk_len of
          None \<Rightarrow> f
        | Some buf \<Rightarrow> copy_loop_file (read_pos + chunk_len) (write_pos + chunk_len) (remaining - chunk_len)
            (write_at f write_pos buf)))"
  by pat_completeness auto
termination
  by (relation "measure (\<lambda>(_, _, remaining, _). remaining)") (auto simp: COPY_CHUNK_def)

declare copy_loop_file.simps [simp del]

text \<open>
  The callers log an error and go on, so the state is returned with the result.  What \<^verbatim>\<open>finalize_expansion\<close>
  changed before an error is not tracked: only two unreadable header slots can raise one, and the growth has
  just written a header.
\<close>

definition expand_kv_block_online ::
  "(bytes \<Rightarrow> u32) \<Rightarrow> (bytes \<Rightarrow> bytes) \<Rightarrow> i64 \<Rightarrow> nat \<Rightarrow> storage_engine \<Rightarrow> (unit engine_result \<times> storage_engine) option" where
  "expand_kv_block_online crc32 blake3 now target_stage e =
    (if sg_durability_failure e \<noteq> None then map_option (\<lambda>r. (r, e)) (ensure_writable e (Some (Inr ())))
     else
     let hl = hash_length (sg_hash_algo e);
         new_block_size = fst (stage_params target_stage (page_size hl));
         w = sg_writer e;
         header = aw_header w;
         old_kv_end = unat (fh_kv_block_offset header) + unat (fh_kv_block_length header);
         new_kv_end = unat (fh_kv_block_offset header) + new_block_size;
         hot_tail_offset = aw_offset w;
         actual_copy_end = growth_copy_end (aw_file w) new_kv_end hot_tail_offset;
         growth_zone_size = actual_copy_end - old_kv_end in
     case update_file_header crc32
         (header\<lparr> fh_resize_in_progress := True, fh_resize_target_stage := word_of_nat target_stage \<rparr>) w of
       None \<Rightarrow> None
     | Some w1 \<Rightarrow>
         let hot_payload = read_hot_tail_payload crc32 w1 hot_tail_offset hl;
             new_hot_tail = hot_tail_offset + growth_zone_size;
             offset_delta = word_of_int (int hot_tail_offset - int old_kv_end) :: i64;
             adjusted = adjust_voids_for_expansion (void_records (sg_void_manager e)) old_kv_end actual_copy_end
               (sint offset_delta) new_kv_end new_hot_tail;
             e1 = (with_writer w1 e)\<lparr> sg_void_manager :=
               replace_all (map (\<lambda>v. (vr_offset v, vr_size v)) adjusted) (sg_void_manager e) \<rparr> in
         (case copy_region old_kv_end hot_tail_offset growth_zone_size w1 of
            Inl err \<Rightarrow> Some (Inl err,
              with_writer (w1\<lparr> aw_file := copy_loop_file old_kv_end hot_tail_offset growth_zone_size (aw_file w1) \<rparr>) e1)
          | Inr w2 \<Rightarrow>
              let w3 = snd (write_hot_tail_at crc32 new_hot_tail (hot_payload\<lparr> htp_voids := adjusted \<rparr>) hl w2);
                  tail_size = word_of_nat (actual_copy_end - new_kv_end) :: u32 in
              (case (if actual_copy_end > new_kv_end \<and> unat tail_size \<ge> FIXED_HEADER_SIZE + hl
                     then write_void_at blake3 now new_kv_end tail_size w3 else Inr w3) of
                 Inl err \<Rightarrow> Some (Inl err, with_writer w3 e1)
               | Inr w4 \<Rightarrow>
                   let e2 = with_writer (set_offset new_hot_tail w4) e1 in
                   (case finalize_expansion crc32 (sg_kv e2) target_stage old_kv_end actual_copy_end offset_delta
                       new_hot_tail adjusted of
                      None \<Rightarrow> None
                    | Some (Inl err) \<Rightarrow> Some (Inl err, e2)
                    | Some (Inr s) \<Rightarrow>
                        let e3 = with_kv s e2;
                            w5 = sg_writer e3;
                            final_header = (aw_header w5)\<lparr> fh_kv_block_length := word_of_nat new_block_size,
                              fh_kv_block_stage := word_of_nat target_stage, fh_resize_in_progress := False,
                              fh_resize_target_stage := 0, fh_hot_tail_offset := word_of_nat new_hot_tail \<rparr> in
                        (case update_file_header crc32 final_header w5 of
                           None \<Rightarrow> None
                         | Some w6 \<Rightarrow> Some (Inr (),
                             (with_writer w6 e3)\<lparr> sg_last_published_hot_tail_offset := new_hot_tail \<rparr>))))))"

section \<open>Storing\<close>

text \<open>Where the bytes of a new entry go: into a reusable void, or behind the log.  The flag says whether the voids changed.\<close>

definition write_slot ::
  "(bytes \<Rightarrow> bytes) \<Rightarrow> i64 \<Rightarrow> entry_type \<Rightarrow> bytes \<Rightarrow> bytes \<Rightarrow> u8 \<Rightarrow> compression_algorithm \<Rightarrow> u8 \<Rightarrow> storage_engine \<Rightarrow>
    (nat \<times> u32 \<times> bool) engine_call" where
  "write_slot blake3 now et key value flags compression_algo entry_version e =
    fal_bind (lift_result (compute_total_length (sg_hash_algo e) (length key) (length value))) (\<lambda>needed.
    let (wal_start, wal_end) = writer_wal_bounds (sg_writer e) in
    case (if can_reuse_void_for_entry et then consume_void needed wal_start wal_end (sg_void_manager e) False
          else Some (None, False, sg_void_manager e)) of
      None \<Rightarrow> None
    | Some (void_slot, changed, vm) \<Rightarrow>
        let e1 = e\<lparr> sg_void_manager := vm \<rparr> in
        (case void_slot of
           Some (void_offset, _) \<Rightarrow>
             fal_bind (lift_result (write_entry_at_nosync_full_with_version blake3 now (unat void_offset) et key value
                 flags compression_algo entry_version (sg_writer e1))) (\<lambda>(written, w).
               Some (Inr ((unat void_offset, written, changed), with_writer w e1)))
         | None \<Rightarrow>
             fal_bind (lift_result (append_entry_with_compression_and_version blake3 now et key value flags
                 compression_algo entry_version (sg_writer e1))) (\<lambda>(offset, total_length, w).
               Some (Inr ((offset, total_length, changed), with_writer w e1)))))"

definition advance_hot_tail :: "storage_engine \<Rightarrow> storage_engine" where
  "advance_hot_tail e = with_kv (set_hot_tail_offset (sg_kv e) (aw_offset (sg_writer e))) e"

definition index_insert ::
  "(bytes \<Rightarrow> u32) \<Rightarrow> u8 \<Rightarrow> bytes \<Rightarrow> nat \<Rightarrow> u32 \<Rightarrow> storage_engine \<Rightarrow> storage_engine engine_result" where
  "index_insert crc32 type_flags key offset total_length e =
    res_bind (disk_kv_insert crc32 (sg_kv e) \<lparr> kv_type_flags = type_flags, kv_hash = key,
        kv_offset = word_of_nat offset, kv_total_length = total_length \<rparr>)
      (\<lambda>s. Inr (with_kv s e))"

text \<open>\<^verbatim>\<open>kv.needs_expansion.take()\<close> and the growth it asks for.\<close>

definition run_pending_expansion ::
  "(bytes \<Rightarrow> u32) \<Rightarrow> (bytes \<Rightarrow> bytes) \<Rightarrow> i64 \<Rightarrow> storage_engine \<Rightarrow> storage_engine option" where
  "run_pending_expansion crc32 blake3 now e =
    (let e1 = e\<lparr> sg_kv := (sg_kv e)\<lparr> dk_needs_expansion := None \<rparr> \<rparr> in
     case dk_needs_expansion (sg_kv e) of
       None \<Rightarrow> Some e1
     | Some target_stage \<Rightarrow> map_option snd (expand_kv_block_online crc32 blake3 now target_stage e1))"

text \<open>The critical section of a store: the bytes, the index entry, and the voids for the next hot tail.\<close>

definition store_entry_locked ::
  "(bytes \<Rightarrow> u32) \<Rightarrow> (bytes \<Rightarrow> bytes) \<Rightarrow> i64 \<Rightarrow> entry_type \<Rightarrow> bytes \<Rightarrow> bytes \<Rightarrow> u8 \<Rightarrow> compression_algorithm \<Rightarrow> u8 \<Rightarrow>
    storage_engine \<Rightarrow> nat engine_call" where
  "store_entry_locked crc32 blake3 now et key value flags compression_algo entry_version e =
    fal_bind (write_slot blake3 now et key value flags compression_algo entry_version e)
      (\<lambda>((offset, total_length, changed), e1).
       fal_bind (lift_result (index_insert crc32 (entry_type_to_kv_type et) key offset total_length (advance_hot_tail e1)))
      (\<lambda>e2. Some (Inr (offset, if changed then sync_voids_to_kv_writer e2 else e2))))"

text \<open>The first reading of the clock is of the entry, the second of the void a growth may write.\<close>

definition store_entry_internal ::
  "(bytes \<Rightarrow> u32) \<Rightarrow> (bytes \<Rightarrow> bytes) \<Rightarrow> i64 \<Rightarrow> i64 \<Rightarrow> entry_type \<Rightarrow> bytes \<Rightarrow> bytes \<Rightarrow> u8 \<Rightarrow> compression_algorithm \<Rightarrow> u8 \<Rightarrow>
    storage_engine \<Rightarrow> nat engine_call" where
  "store_entry_internal crc32 blake3 now now' et key value flags compression_algo entry_version e =
    operation_guard e (ensure_writable e
      (fal_bind (store_entry_locked crc32 blake3 now et key value flags compression_algo entry_version e)
        (\<lambda>(offset, e1).
         fal_bind (no_panic (run_pending_expansion crc32 blake3 now' e1)) (\<lambda>e2.
           Some (Inr (offset, record_gc_recheck key e2))))))"

definition store_entry where
  "store_entry crc32 blake3 now now' et key value e =
    store_entry_internal crc32 blake3 now now' et key value 0 NoCompression CURRENT_ENTRY_VERSION e"

definition store_entry_with_flags where
  "store_entry_with_flags crc32 blake3 now now' et key value flags e =
    store_entry_internal crc32 blake3 now now' et key value flags NoCompression CURRENT_ENTRY_VERSION e"

definition store_entry_with_version where
  "store_entry_with_version crc32 blake3 now now' et key value entry_version e =
    store_entry_internal crc32 blake3 now now' et key value 0 NoCompression entry_version e"

definition store_entry_with_flags_and_version where
  "store_entry_with_flags_and_version crc32 blake3 now now' et key value flags entry_version e =
    store_entry_internal crc32 blake3 now now' et key value flags NoCompression entry_version e"

definition store_entry_compressed where
  "store_entry_compressed crc32 blake3 now now' et key value compression_algo e =
    store_entry_internal crc32 blake3 now now' et key value 0 compression_algo CURRENT_ENTRY_VERSION e"

definition store_entry_compressed_with_flags where
  "store_entry_compressed_with_flags crc32 blake3 now now' et key value flags compression_algo e =
    store_entry_internal crc32 blake3 now now' et key value flags compression_algo CURRENT_ENTRY_VERSION e"

definition store_entry_typed ::
  "(bytes \<Rightarrow> u32) \<Rightarrow> (bytes \<Rightarrow> bytes) \<Rightarrow> i64 \<Rightarrow> entry_type \<Rightarrow> bytes \<Rightarrow> bytes \<Rightarrow> u8 \<Rightarrow> storage_engine \<Rightarrow> nat engine_call" where
  "store_entry_typed crc32 blake3 now et key value kv_type e =
    operation_guard e (ensure_writable e
      (fal_bind (lift_result (append_entry blake3 now et key value 0 (sg_writer e))) (\<lambda>(offset, total_length, w).
       fal_bind (lift_result (index_insert crc32 kv_type key offset total_length (advance_hot_tail (with_writer w e))))
         (\<lambda>e2. Some (Inr (offset, e2))))))"

section \<open>Batches\<close>

record batch_entry =
  be_entry_type :: entry_type
  be_key :: bytes
  be_value :: bytes
  be_kv_type :: u8

type_synonym write_batch = "batch_entry list"

definition batch_add :: "entry_type \<Rightarrow> bytes \<Rightarrow> bytes \<Rightarrow> write_batch \<Rightarrow> write_batch" where
  "batch_add et key value batch =
    batch @ [\<lparr> be_entry_type = et, be_key = key, be_value = value, be_kv_type = entry_type_to_kv_type et \<rparr>]"

text \<open>The first loop; \<open>now\<close> gives the clock reading of each entry in turn.\<close>

fun append_batch ::
  "(bytes \<Rightarrow> bytes) \<Rightarrow> (nat \<Rightarrow> i64) \<Rightarrow> nat \<Rightarrow> write_batch \<Rightarrow> storage_engine \<Rightarrow> ((nat \<times> u32) list \<times> storage_engine) engine_result" where
  "append_batch blake3 now i [] e = Inr ([], e)"
| "append_batch blake3 now i (b # bs) e =
    res_bind (append_entry blake3 (now i) (be_entry_type b) (be_key b) (be_value b) 0 (sg_writer e))
      (\<lambda>(offset, total_length, w).
      res_bind (append_batch blake3 now (Suc i) bs (advance_hot_tail (with_writer w e))) (\<lambda>(ps, e2).
        Inr ((offset, total_length) # ps, e2)))"

fun index_batch ::
  "(bytes \<Rightarrow> u32) \<Rightarrow> (batch_entry \<times> nat \<times> u32) list \<Rightarrow> storage_engine \<Rightarrow> storage_engine engine_result" where
  "index_batch crc32 [] e = Inr e"
| "index_batch crc32 ((b, offset, total_length) # bs) e =
    res_bind (index_insert crc32 (be_kv_type b) (be_key b) offset total_length e) (index_batch crc32 bs)"

definition write_batch_locked ::
  "(bytes \<Rightarrow> u32) \<Rightarrow> (bytes \<Rightarrow> bytes) \<Rightarrow> (nat \<Rightarrow> i64) \<Rightarrow> write_batch \<Rightarrow> storage_engine \<Rightarrow> (nat list \<times> storage_engine) engine_result" where
  "write_batch_locked crc32 blake3 now batch e =
    res_bind (append_batch blake3 now 0 batch e) (\<lambda>(ps, e1).
    res_bind (index_batch crc32 (zip batch ps) e1) (\<lambda>e2. Inr (map fst ps, e2)))"

definition flush_batch ::
  "(bytes \<Rightarrow> u32) \<Rightarrow> (bytes \<Rightarrow> bytes) \<Rightarrow> (nat \<Rightarrow> i64) \<Rightarrow> i64 \<Rightarrow> write_batch \<Rightarrow> storage_engine \<Rightarrow> nat list engine_call" where
  "flush_batch crc32 blake3 now now' batch e =
    operation_guard e (ensure_writable e
      (if batch = [] then Some (Inr ([], e))
       else fal_bind (lift_result (write_batch_locked crc32 blake3 now batch e)) (\<lambda>(offsets, e1).
         fal_bind (no_panic (run_pending_expansion crc32 blake3 now' e1)) (\<lambda>e2. Some (Inr (offsets, e2))))))"

section \<open>The head, the backup fields and the directory cache\<close>

text \<open>In a transaction the new header stays in memory.\<close>

definition put_head :: "(bytes \<Rightarrow> u32) \<Rightarrow> i64 \<Rightarrow> bytes \<Rightarrow> storage_engine \<Rightarrow> storage_engine option" where
  "put_head crc32 now head_hash e =
    (let w = sg_writer e;
         header = (aw_header w)\<lparr> fh_head_hash := head_hash, fh_hot_tail_offset := word_of_nat (aw_offset w),
           fh_updated_at := now \<rparr> in
     if dk_transaction_depth (sg_kv e) > 0 then Some (with_writer (set_header_in_memory header w) e)
     else map_option (\<lambda>w1. (with_writer w1 e)\<lparr> sg_last_published_hot_tail_offset := aw_offset w \<rparr>)
       (update_file_header crc32 header w))"

definition update_head :: "(bytes \<Rightarrow> u32) \<Rightarrow> i64 \<Rightarrow> bytes \<Rightarrow> storage_engine \<Rightarrow> unit engine_call" where
  "update_head crc32 now head_hash e =
    operation_guard e (ensure_writable e
      (fal_bind (no_panic (put_head crc32 now head_hash e)) (\<lambda>e1. Some (Inr ((), e1)))))"

definition head_hash_of :: "storage_engine \<Rightarrow> bytes fallible" where
  "head_hash_of e = operation_guard e (Some (Inr (fh_head_hash (aw_header (sg_writer e)))))"

definition flush_batch_and_update_head ::
  "(bytes \<Rightarrow> u32) \<Rightarrow> (bytes \<Rightarrow> bytes) \<Rightarrow> (nat \<Rightarrow> i64) \<Rightarrow> i64 \<Rightarrow> i64 \<Rightarrow> write_batch \<Rightarrow> bytes \<Rightarrow> storage_engine \<Rightarrow>
    nat list engine_call" where
  "flush_batch_and_update_head crc32 blake3 now now_head now' batch head_hash e =
    operation_guard e (ensure_writable e
      (if batch = [] then fal_bind (update_head crc32 now_head head_hash e) (\<lambda>(_, e1). Some (Inr ([], e1)))
       else fal_bind (lift_result (write_batch_locked crc32 blake3 now batch e)) (\<lambda>(offsets, e1).
         fal_bind (no_panic (put_head crc32 now_head head_hash e1)) (\<lambda>e2.
         fal_bind (no_panic (run_pending_expansion crc32 blake3 now' e2)) (\<lambda>e3. Some (Inr (offsets, e3)))))))"

definition backup_info :: "storage_engine \<Rightarrow> (u8 \<times> bytes \<times> bytes) fallible" where
  "backup_info e = operation_guard e (let fh = aw_header (sg_writer e) in
    Some (Inr (fh_backup_type fh, fh_base_hash fh, fh_target_hash fh)))"

definition set_backup_info ::
  "(bytes \<Rightarrow> u32) \<Rightarrow> u8 \<Rightarrow> bytes \<Rightarrow> bytes \<Rightarrow> storage_engine \<Rightarrow> unit engine_call" where
  "set_backup_info crc32 backup_type base_hash target_hash e =
    operation_guard e (ensure_writable e
      (fal_bind (no_panic (update_file_header crc32 ((aw_header (sg_writer e))\<lparr> fh_backup_type := backup_type,
          fh_base_hash := base_hash, fh_target_hash := target_hash \<rparr>) (sg_writer e)))
        (\<lambda>w. Some (Inr ((), with_writer w e)))))"

definition get_cached_dir_content :: "storage_engine \<Rightarrow> bytes \<Rightarrow> bytes option" where
  "get_cached_dir_content e content_key = hm_get (sg_dir_content_cache e) content_key"

definition cache_dir_content :: "bytes \<Rightarrow> bytes \<Rightarrow> storage_engine \<Rightarrow> storage_engine" where
  "cache_dir_content content_key value e =
    e\<lparr> sg_dir_content_cache := hm_insert content_key value (sg_dir_content_cache e) \<rparr>"

definition clear_dir_content_cache :: "storage_engine \<Rightarrow> storage_engine" where
  "clear_dir_content_cache e = e\<lparr> sg_dir_content_cache := [] \<rparr>"

section \<open>Deleting\<close>

definition mark_entry_deleted :: "(bytes \<Rightarrow> u32) \<Rightarrow> bytes \<Rightarrow> storage_engine \<Rightarrow> unit engine_call" where
  "mark_entry_deleted crc32 hash e =
    operation_guard e (ensure_writable e
      (let (updated, s) = disk_kv_update_flags crc32 (sg_kv e) hash KV_FLAG_DELETED in
       if \<not> updated then Some (Inl (NotFound ''Entry not found for hash'')) else Some (Inr ((), with_kv s e))))"

definition remove_kv_entry :: "(bytes \<Rightarrow> u32) \<Rightarrow> bytes \<Rightarrow> storage_engine \<Rightarrow> unit engine_call" where
  "remove_kv_entry crc32 hash e =
    operation_guard e (ensure_writable e (Some (Inr ((), with_kv (mark_deleted crc32 (sg_kv e) hash) e))))"

definition remove_kv_entries_batch :: "(bytes \<Rightarrow> u32) \<Rightarrow> bytes list \<Rightarrow> storage_engine \<Rightarrow> unit engine_call" where
  "remove_kv_entries_batch crc32 hashes e =
    operation_guard e (ensure_writable e (Some (Inr ((), with_kv (mark_deleted_batch crc32 (sg_kv e) hashes) e))))"

definition get_kv_entry :: "(bytes \<Rightarrow> u32) \<Rightarrow> storage_engine \<Rightarrow> bytes \<Rightarrow> kv_entry option" where
  "get_kv_entry crc32 e hash = rs_get crc32 (dk_snapshot (sg_kv e)) hash"

definition iter_kv_entries :: "(bytes \<Rightarrow> u32) \<Rightarrow> storage_engine \<Rightarrow> kv_entry list fallible" where
  "iter_kv_entries crc32 e = operation_guard e (Some (Inr (rs_iter_all crc32 (dk_snapshot (sg_kv e)))))"

text \<open>The in-place writes of the sweep.  Without the \<^verbatim>\<open>fsync\<close> the two variants of each coincide.\<close>

definition decimal_i64 :: "i64 \<Rightarrow> bytes" where
  "decimal_i64 n = (if sint n < 0 then lit ''-'' @ decimal (nat (- sint n)) else decimal (nat (sint n)))"

definition sweep_deletion ::
  "(bytes \<Rightarrow> bytes) \<Rightarrow> i64 \<Rightarrow>
    (nat \<Rightarrow> entry_type \<Rightarrow> bytes \<Rightarrow> bytes \<Rightarrow> append_writer \<Rightarrow> (u32 \<times> append_writer) engine_result) \<Rightarrow>
    u64 \<Rightarrow> str \<Rightarrow> storage_engine \<Rightarrow> u32 engine_call" where
  "sweep_deletion blake3 now write offset path e =
    operation_guard e (ensure_writable e
      (let deletion = deletion_record_new now path (Some (lit ''gc''));
           value = deletion_record_serialize deletion in
       fal_bind (lift_result (compute_hash_algo blake3 (sg_hash_algo e)
           (lit ''del:gc:'' @ path @ lit '':'' @ decimal_i64 (dr_deleted_at deletion)))) (\<lambda>key.
       fal_bind (lift_result (compute_total_length (sg_hash_algo e) (length key) (length value))) (\<lambda>needed.
         let (wal_start, wal_end) = writer_wal_bounds (sg_writer e) in
         if \<not> valid_reusable_range offset needed wal_start wal_end
         then Some (Inl (InvalidInput ''deletion range is outside current WAL region''))
         else fal_bind (lift_result (write (unat offset) DeletionRecord key value (sg_writer e))) (\<lambda>(written, w).
           Some (Inr (written, with_writer w e)))))))"

definition write_deletion_at where
  "write_deletion_at blake3 now now' offset path e =
    sweep_deletion blake3 now (write_entry_at blake3 now') offset path e"

definition write_deletion_at_nosync where
  "write_deletion_at_nosync blake3 now now' offset path e =
    sweep_deletion blake3 now (write_entry_at_nosync blake3 now') offset path e"

definition sweep_void ::
  "(nat \<Rightarrow> u32 \<Rightarrow> append_writer \<Rightarrow> append_writer engine_result) \<Rightarrow> u64 \<Rightarrow> u32 \<Rightarrow> storage_engine \<Rightarrow> unit engine_call" where
  "sweep_void write offset sz e =
    operation_guard e (ensure_writable e
      (let (wal_start, wal_end) = writer_wal_bounds (sg_writer e) in
       if \<not> valid_reusable_range offset sz wal_start wal_end
       then Some (Inl (InvalidInput ''void range is outside current WAL region''))
       else fal_bind (lift_result (write (unat offset) sz (sg_writer e))) (\<lambda>w.
         Some (Inr ((), (with_writer w e)\<lparr> sg_void_manager := register_void offset sz (sg_void_manager e) \<rparr>)))))"

definition engine_write_void_at where
  "engine_write_void_at blake3 now offset sz e = sweep_void (write_void_at blake3 now) offset sz e"

definition engine_write_void_at_nosync where
  "engine_write_void_at_nosync blake3 now offset sz e = sweep_void (write_void_at_nosync blake3 now) offset sz e"

end
