(* ===== verification/Storage_Recovery.thy ===== *)
theory Storage_Recovery
  imports Storage_Ops
begin

text \<open>
  The durability and recovery half of \<^verbatim>\<open>storage_engine.rs\<close>: publishing the hot tail (forced, at the end of a
  transaction, by the timer, at shutdown), the rebuild of the index from the log, the recovery of voids from
  its gaps, and creating and opening a database.
\<close>

section \<open>Publishing\<close>

text \<open>Record where the hot tail is, and the entry count, in the header.\<close>

definition publish_header :: "(bytes \<Rightarrow> u32) \<Rightarrow> storage_engine \<Rightarrow> storage_engine option" where
  "publish_header crc32 e =
    (let w = sg_writer e; hot_tail_offset = dk_hot_tail_offset (sg_kv e) in
     map_option (\<lambda>w1. (with_writer w1 e)\<lparr> sg_last_published_hot_tail_offset := hot_tail_offset \<rparr>)
       (update_header crc32 ((aw_header w)\<lparr> fh_hot_tail_offset := word_of_nat hot_tail_offset,
          fh_entry_count := word_of_nat (dk_entry_count (sg_kv e)) \<rparr>) w))"

definition force_hot_tail_flush :: "(bytes \<Rightarrow> u32) \<Rightarrow> storage_engine \<Rightarrow> unit engine_call" where
  "force_hot_tail_flush crc32 e =
    ensure_writable e
      (let e1 = with_kv (force_flush_hot_buffer crc32 (sg_kv e)) e in
       if dk_transaction_depth (sg_kv e1) > 0 then Some (Inr ((), e1))
       else fal_bind (no_panic (publish_header crc32 e1)) (\<lambda>e2. Some (Inr ((), e2))))"

definition begin_transaction :: "storage_engine \<Rightarrow> storage_engine" where
  "begin_transaction e =
    e\<lparr> sg_kv := (sg_kv e)\<lparr> dk_transaction_depth := dk_transaction_depth (sg_kv e) + 1 \<rparr> \<rparr>"

definition end_transaction :: "(bytes \<Rightarrow> u32) \<Rightarrow> storage_engine \<Rightarrow> unit engine_call" where
  "end_transaction crc32 e =
    (let e1 = e\<lparr> sg_kv := (sg_kv e)\<lparr> dk_transaction_depth := dk_transaction_depth (sg_kv e) - 1 \<rparr> \<rparr> in
     if dk_transaction_depth (sg_kv e1) \<noteq> 0 then Some (Inr ((), e1))
     else fal_bind (no_panic (publish_header crc32 (with_kv (force_flush_hot_buffer crc32 (sg_kv e1)) e1))) (\<lambda>e2.
       Some (Inr ((), e2))))"

text \<open>The timer, when it gets its locks.\<close>

definition try_flush_hot_buffer :: "(bytes \<Rightarrow> u32) \<Rightarrow> storage_engine \<Rightarrow> storage_engine option" where
  "try_flush_hot_buffer crc32 e =
    (if sg_durability_failure e \<noteq> None \<or> dk_hot_buffer (sg_kv e) = [] then Some e
     else let e1 = with_kv (flush_hot_buffer crc32 (sg_kv e)) e in
       if dk_transaction_depth (sg_kv e1) = 0 then publish_header crc32 e1 else Some e1)"

text \<open>
  The three steps of a shutdown whose operations have drained, after the flush of the index buffer.  When the
  flush of the pages fails the later steps still run, but the shutdown returns that first failure; the state it
  leaves is not modelled.
\<close>

definition shutdown_flush :: "(bytes \<Rightarrow> u32) \<Rightarrow> storage_engine \<Rightarrow> storage_engine fallible" where
  "shutdown_flush crc32 e =
    (case flush crc32 (sg_kv e) of
       Inl _ \<Rightarrow> Some (Inl (DurabilityFailure ''KV flush failed during shutdown''))
     | Inr s \<Rightarrow> no_panic (publish_header crc32 (with_kv (flush_hot_buffer crc32 s) e)))"

section \<open>Voids from the gaps of the log\<close>

text \<open>The loop over the live ranges in the order of their offsets; \<open>2 ^ 32 - 1\<close> is \<^verbatim>\<open>u32::MAX\<close>.\<close>

fun gap_scan :: "(u64 \<times> u32) list \<Rightarrow> nat \<Rightarrow> void_record list" where
  "gap_scan [] cursor = []"
| "gap_scan ((offset, total_length) # ranges) cursor =
    (let cursor' = max (min (unat offset + unat total_length) (2 ^ 64 - 1)) cursor in
     if unat offset > cursor
     then \<lparr> vr_offset = word_of_nat cursor, vr_size = word_of_nat (min (unat offset - cursor) (2 ^ 32 - 1)) \<rparr> #
       gap_scan ranges cursor'
     else gap_scan ranges cursor')"

definition recover_voids_via_gap_scan :: "(bytes \<Rightarrow> u32) \<Rightarrow> storage_engine \<Rightarrow> storage_engine" where
  "recover_voids_via_gap_scan crc32 e =
    (let (wal_start, wal_end) = writer_wal_bounds (sg_writer e);
         ranges = map (\<lambda>k. (kv_offset k, kv_total_length k))
           (filter (\<lambda>k. valid_reusable_range (kv_offset k) (kv_total_length k) wal_start wal_end)
             (filter (\<lambda>k. \<not> is_deleted k) (rs_iter_all crc32 (dk_snapshot (sg_kv e)))));
         recovered = gap_scan (sort_key fst ranges) wal_start in
     e\<lparr> sg_void_manager := replace_all (map (\<lambda>v. (vr_offset v, vr_size v)) recovered) (sg_void_manager e) \<rparr>)"

section \<open>Rebuilding the index\<close>

definition rebuild_record_of :: "nat \<Rightarrow> entry_header \<Rightarrow> bytes \<Rightarrow> rebuild_kv_record" where
  "rebuild_record_of offset header key =
    \<lparr> rr_type_flags = entry_type_to_kv_type (eh_entry_type header), rr_hash = key, rr_offset = offset,
      rr_value_length = eh_value_length header, rr_total_length = eh_total_length header,
      rr_order = \<lparr> ro_timestamp = eh_timestamp header, ro_offset = offset \<rparr> \<rparr>"

definition deletion_of :: "nat \<Rightarrow> entry_header \<Rightarrow> bytes option \<Rightarrow> (str \<times> rebuild_order) option" where
  "deletion_of offset header value =
    (if eh_entry_type header \<noteq> DeletionRecord then None
     else case value of
       None \<Rightarrow> None
     | Some v \<Rightarrow>
         (case deletion_record_deserialize v (eh_entry_version header) of
            Inl _ \<Rightarrow> None
          | Inr r \<Rightarrow> Some (dr_path r, \<lparr> ro_timestamp = eh_timestamp header, ro_offset = offset \<rparr>)))"

text \<open>The entries a scan delivered, without the errors, which are logged.\<close>

definition scanned_ok :: "'a engine_result list \<Rightarrow> 'a list" where
  "scanned_ok rs = List.map_filter (\<lambda>r. case r of Inr x \<Rightarrow> Some x | Inl _ \<Rightarrow> None) rs"

definition scan_rebuild_records ::
  "(bytes \<Rightarrow> u32) \<Rightarrow> (bytes \<Rightarrow> bytes) \<Rightarrow> append_writer \<Rightarrow>
    (rebuild_kv_record list \<times> (str \<times> rebuild_order) list) fallible" where
  "scan_rebuild_records crc32 blake3 w =
    fal_bind (scanner_new_dirty_recovery crc32 (aw_file w)) (\<lambda>scanner.
    case rebuild_scan blake3 (Suc (es_file_length scanner - es_current_offset scanner)) scanner of
      None \<Rightarrow> None
    | Some (results, _) \<Rightarrow>
        let scanned = scanned_ok results in
        Some (Inr (map (\<lambda>r. rebuild_record_of (sr_offset r) (sr_header r) (sr_key r)) scanned,
          List.map_filter (\<lambda>r. deletion_of (sr_offset r) (sr_header r) (sr_value r)) scanned)))"

definition dirty_max_end :: "rebuild_kv_record list \<Rightarrow> nat" where
  "dirty_max_end rs = foldr max (map (\<lambda>r. rr_offset r + unat (rr_total_length r)) rs) 0"

text \<open>Where the rebuilt index goes: its offset, its hot tail and its stage.\<close>

definition rebuild_layout :: "append_writer \<Rightarrow> nat \<Rightarrow> nat \<Rightarrow> nat \<Rightarrow> nat \<times> nat \<times> nat" where
  "rebuild_layout w hl scanned_count wal_end =
    (let kv_block_offset = unat (fh_kv_block_offset (aw_header w)) in
     if kv_block_offset > 0 then (kv_block_offset, wal_end, unat (fh_kv_block_stage (aw_header w)))
     else let target_stage = stage_for_count scanned_count hl in
       (aw_offset w, aw_offset w + fst (stage_params target_stage (page_size hl)), target_stage))"

definition rebuild_kv :: "(bytes \<Rightarrow> u32) \<Rightarrow> (bytes \<Rightarrow> bytes) \<Rightarrow> storage_engine \<Rightarrow> unit engine_call" where
  "rebuild_kv crc32 blake3 e =
    ensure_writable e
      (fal_bind (scan_rebuild_records crc32 blake3 (sg_writer e)) (\<lambda>(records, deletion_records).
       let w = sg_writer e;
           hl = hash_length (sg_hash_algo e);
           wal_end = max (aw_offset w) (dirty_max_end records);
           (kv_offset, hot_offset, rebuild_stage) = rebuild_layout w hl (length records) wal_end;
           new_kv = disk_kv_create crc32 (aw_file w) (sg_hash_algo e) kv_offset hot_offset rebuild_stage in
       fal_bind (lift_result (resolve_rebuild_records blake3 records (sg_hash_algo e) deletion_records)) (\<lambda>resolved.
       fal_bind (lift_result (flush crc32 (fold (\<lambda>k s. buffer_only s k) resolved new_kv))) (\<lambda>flushed.
       let e1 = with_kv (adopt_snapshot_handle crc32 flushed (dk_snapshot (sg_kv e))) e;
           w1 = set_offset wal_end (sg_writer e1);
           final_stage = dk_stage (sg_kv e1);
           header = (aw_header w1)\<lparr> fh_kv_block_offset := word_of_nat kv_offset,
             fh_kv_block_length := word_of_nat (fst (stage_params final_stage (page_size hl))),
             fh_hot_tail_offset := word_of_nat wal_end, fh_entry_count := word_of_nat (length records),
             fh_kv_block_stage := word_of_nat final_stage \<rparr> in
       fal_bind (no_panic (update_header crc32 header w1)) (\<lambda>w2.
         Some (Inr ((), (with_writer w2 e1)\<lparr> sg_last_published_hot_tail_offset := wal_end \<rparr>)))))))"

definition recover_after_emergency_spill_replay ::
  "(bytes \<Rightarrow> u32) \<Rightarrow> (bytes \<Rightarrow> bytes) \<Rightarrow> storage_engine \<Rightarrow> unit engine_call" where
  "recover_after_emergency_spill_replay crc32 blake3 e =
    fal_bind (rebuild_kv crc32 blake3 e) (\<lambda>(_, e1).
      force_hot_tail_flush crc32 (sync_voids_to_kv_writer (recover_voids_via_gap_scan crc32 e1)))"

section \<open>Creating and opening\<close>

definition engine_of :: "append_writer \<Rightarrow> disk_kv_store \<Rightarrow> void_manager \<Rightarrow> nat \<Rightarrow> storage_engine" where
  "engine_of w s vm published =
    \<lparr> sg_writer = w\<lparr> aw_file := dk_db_file s \<rparr>, sg_kv = s, sg_void_manager = vm,
      sg_hash_algo = fh_hash_algo (aw_header w), sg_shutting_down = False, sg_durability_failure = None,
      sg_last_published_hot_tail_offset = published, sg_gc_recheck = None, sg_dir_content_cache = [] \<rparr>"

definition engine_create :: "(bytes \<Rightarrow> u32) \<Rightarrow> i64 \<Rightarrow> storage_engine option" where
  "engine_create crc32 now =
    (case append_writer_create crc32 now of
       None \<Rightarrow> None
     | Some w \<Rightarrow>
         let a = fh_hash_algo (aw_header w);
             hot_tail_offset = HEADER_REGION_SIZE + initial_block_size;
             s = disk_kv_create crc32 (aw_file w) a HEADER_REGION_SIZE hot_tail_offset 0;
             (file1, end') = write_hot_tail crc32 (dk_db_file s) hot_tail_offset
               \<lparr> htp_writes = [], htp_voids = [] \<rparr> (hash_length a);
             w1 = (set_offset hot_tail_offset w)\<lparr> aw_file := set_len file1 end' \<rparr> in
         (case update_header crc32 ((aw_header w1)\<lparr> fh_kv_block_offset := word_of_nat HEADER_REGION_SIZE,
             fh_kv_block_length := word_of_nat initial_block_size, fh_kv_block_stage := 0,
             fh_hot_tail_offset := word_of_nat hot_tail_offset \<rparr>) w1 of
            None \<Rightarrow> None
          | Some w2 \<Rightarrow> Some (engine_of w2 (s\<lparr> dk_db_file := aw_file w2 \<rparr>) (void_manager_new a) hot_tail_offset)))"

definition position_writer :: "append_writer \<Rightarrow> append_writer" where
  "position_writer w =
    (if fh_hot_tail_offset (aw_header w) > 0 then set_offset (unat (fh_hot_tail_offset (aw_header w))) w else w)"

text \<open>
  The pending growth, then the writer on the file it leaves; the flag asks for a rebuild.  A failed growth
  leaves the file as it was: the copy runs from the end of the log down, so only its first read, before any
  write, can miss the end of the file.
\<close>

definition open_writer ::
  "(bytes \<Rightarrow> u32) \<Rightarrow> bytes \<Rightarrow> (append_writer \<times> bool) fallible" where
  "open_writer crc32 f =
    fal_bind (append_writer_open crc32 f) (\<lambda>w.
      let resize_target = unat (fh_resize_target_stage (aw_header w)) in
      if resize_target > unat (fh_kv_block_stage (aw_header w)) then
        (case expand_kv_block crc32 resize_target (hash_length (fh_hash_algo (aw_header w))) f of
           None \<Rightarrow> None
         | Some (Inl _) \<Rightarrow> fal_bind (append_writer_open crc32 f) (\<lambda>w1. Some (Inr (position_writer w1, False)))
         | Some (Inr (_, f1)) \<Rightarrow> fal_bind (append_writer_open crc32 f1) (\<lambda>w1. Some (Inr (position_writer w1, True))))
      else Some (Inr (position_writer w, False)))"

text \<open>The index of a file without a valid block: an empty one over the start of the log, filled from a scan.\<close>

definition create_from_scan ::
  "(bytes \<Rightarrow> u32) \<Rightarrow> (bytes \<Rightarrow> bytes) \<Rightarrow> append_writer \<Rightarrow> disk_kv_store fallible" where
  "create_from_scan crc32 blake3 w =
    (let a = fh_hash_algo (aw_header w);
         s = disk_kv_create crc32 (aw_file w) a HEADER_REGION_SIZE (HEADER_REGION_SIZE + initial_block_size) 0 in
     fal_bind (scanner_new crc32 (dk_db_file s)) (\<lambda>scanner.
     case iter_scan blake3 (Suc (es_file_length scanner - es_current_offset scanner)) scanner of
       None \<Rightarrow> None
     | Some (results, _) \<Rightarrow>
         let scanned = scanned_ok results;
             records = map (\<lambda>r. rebuild_record_of (se_offset r) (se_header r) (se_key r)) scanned;
             deletions = List.map_filter (\<lambda>r. deletion_of (se_offset r) (se_header r) (Some (se_value r))) scanned in
         fal_bind (lift_result (resolve_rebuild_records blake3 records a deletions)) (\<lambda>resolved.
           lift_result (flush crc32 (bulk_insert crc32 resolved s)))))"

definition open_internal :: "(bytes \<Rightarrow> u32) \<Rightarrow> (bytes \<Rightarrow> bytes) \<Rightarrow> bytes \<Rightarrow> storage_engine fallible" where
  "open_internal crc32 blake3 f =
    fal_bind (open_writer crc32 f) (\<lambda>(w, needs_kv_rebuild).
    let header = aw_header w;
        a = fh_hash_algo header;
        hl = hash_length a;
        kv_block_offset = unat (fh_kv_block_offset header);
        hot_tail_offset = unat (fh_hot_tail_offset header);
        kv_block_valid = (kv_block_offset > 0 \<and> hot_tail_offset > kv_block_offset);
        (hot_payload, needs_dirty_startup) =
          (if hot_tail_offset > 0 then
             (case read_hot_tail crc32 (aw_file w) hot_tail_offset hl of
                Some payload \<Rightarrow> (payload, False)
              | None \<Rightarrow> (\<lparr> htp_writes = [], htp_voids = [] \<rparr>, True))
           else (\<lparr> htp_writes = [], htp_voids = [] \<rparr>, False));
        wal_start = min (kv_block_offset + unat (fh_kv_block_length header)) (2 ^ 64 - 1);
        hot_voids = filter_voids_for_bounds (htp_voids hot_payload) wal_start hot_tail_offset;
        vm = fold (\<lambda>v. register_void (vr_offset v) (vr_size v)) hot_voids (void_manager_new a) in
    fal_bind (if kv_block_valid
              then lift_result (disk_kv_open crc32 (aw_file w) a kv_block_offset hot_tail_offset
                (unat (fh_kv_block_stage header)) (htp_writes hot_payload) hot_voids (fh_kv_block_version header))
              else create_from_scan crc32 blake3 w) (\<lambda>s.
    let e = engine_of w s vm hot_tail_offset;
        detected_kv_corruption = (kv_block_valid \<and> dk_needs_rebuild s) in
    fal_bind (if needs_kv_rebuild \<or> needs_dirty_startup \<or> detected_kv_corruption
              then fal_bind (rebuild_kv crc32 blake3 e) (\<lambda>(_, e1). Some (Inr (recover_voids_via_gap_scan crc32 e1)))
              else Some (Inr e)) (\<lambda>e2.
      Some (Inr (sync_voids_to_kv_writer e2)))))"

text \<open>A patch database opens for an import only.\<close>

definition engine_open :: "(bytes \<Rightarrow> u32) \<Rightarrow> (bytes \<Rightarrow> bytes) \<Rightarrow> bytes \<Rightarrow> storage_engine fallible" where
  "engine_open crc32 blake3 f =
    fal_bind (open_internal crc32 blake3 f) (\<lambda>e.
      if fh_backup_type (aw_header (sg_writer e)) > 1
      then Some (Inl (PatchDatabase ''This is a patch export and cannot be used as a standalone database.''))
      else Some (Inr e))"

definition open_for_import :: "(bytes \<Rightarrow> u32) \<Rightarrow> (bytes \<Rightarrow> bytes) \<Rightarrow> bytes \<Rightarrow> storage_engine fallible" where
  "open_for_import crc32 blake3 f = open_internal crc32 blake3 f"

end
