(* ===== verification/GC_Sweep.thy ===== *)
theory GC_Sweep
  imports Storage_Recovery
begin

text \<open>
  The sweep of the garbage collector (\<^verbatim>\<open>gc.rs\<close>): the live entries of the index that the mark phase did not
  reach, and that no write has recorded since, leave the index and their bytes become reusable.
\<close>

text \<open>The first pass: the garbage with its place and the length its header records.\<close>

fun sweep_candidates ::
  "bytes set \<Rightarrow> bool \<Rightarrow> storage_engine \<Rightarrow> kv_entry list \<Rightarrow> (bytes \<times> u64 \<times> u32) list fallible" where
  "sweep_candidates reachable dry_run e [] = Some (Inr [])"
| "sweep_candidates reachable dry_run e (entry # es) =
    (if kv_hash entry \<in> reachable then sweep_candidates reachable dry_run e es
     else if \<not> dry_run \<and> gc_recheck_contains e (kv_hash entry) then sweep_candidates reachable dry_run e es
     else fal_bind (read_entry_header_at e (unat (kv_offset entry))) (\<lambda>header.
       fal_bind (sweep_candidates reachable dry_run e es) (\<lambda>cs.
         Some (Inr ((kv_hash entry, kv_offset entry, eh_total_length header) # cs)))))"

definition sweep_verified :: "(bytes \<Rightarrow> u32) \<Rightarrow> storage_engine \<Rightarrow> bytes \<times> u64 \<times> u32 \<Rightarrow> bool" where
  "sweep_verified crc32 e c = (case c of (hash, offset, sz) \<Rightarrow>
    (case get_kv_entry crc32 e hash of
       Some fresh \<Rightarrow> kv_offset fresh = offset \<and> is_current_reusable_range e offset sz
     | None \<Rightarrow> False))"

definition reclaimed_bytes :: "(bytes \<times> u64 \<times> u32) list \<Rightarrow> nat" where
  "reclaimed_bytes cs = sum_list (map (\<lambda>(_, _, sz). unat sz) cs)"

definition gc_sweep ::
  "(bytes \<Rightarrow> u32) \<Rightarrow> bytes set \<Rightarrow> bool \<Rightarrow> storage_engine \<Rightarrow> (nat \<times> nat) engine_call" where
  "gc_sweep crc32 reachable dry_run e =
    fal_bind (iter_kv_entries crc32 e) (\<lambda>all_entries.
    fal_bind (sweep_candidates reachable dry_run e all_entries) (\<lambda>candidates.
    if dry_run \<or> candidates = [] then Some (Inr ((length candidates, reclaimed_bytes candidates), e))
    else let verified = filter (sweep_verified crc32 e) candidates in
      fal_bind (if verified \<noteq> [] then remove_kv_entries_batch crc32 (map fst verified) e else Some (Inr ((), e)))
        (\<lambda>(_, e1).
         let e2 = e1\<lparr> sg_void_manager :=
               fold (\<lambda>(_, offset, sz). register_void offset sz) verified (sg_void_manager e1) \<rparr> in
         fal_bind (force_hot_tail_flush crc32 (sync_voids_to_kv_writer e2)) (\<lambda>(_, e3).
           Some (Inr ((length verified, reclaimed_bytes verified), e3))))))"

end
