(* ===== verification/Storage_Correct.thy ===== *)
theory Storage_Correct
  imports GC_Sweep
begin

text \<open>
  The engine as a map from keys to stored entries.  The invariant ties the index, the bytes of the log and the
  free space together; every operation keeps it, so that a read returns what was last stored under its key, over
  any sequence of stores, batches, deletions, sweeps, transactions and flushes.
\<close>

section \<open>Index entries and the bytes they point to\<close>

text \<open>What a caller stored: entry type, flags, compression, version and value.\<close>

datatype content = Content entry_type u8 compression_algorithm u8 bytes

definition content_of :: "entry_header \<Rightarrow> bytes \<Rightarrow> content" where
  "content_of h value = Content (eh_entry_type h) (eh_flags h) (eh_compression_algo h) (eh_entry_version h) value"

definition holds :: "(bytes \<Rightarrow> bytes) \<Rightarrow> bytes \<Rightarrow> kv_entry \<Rightarrow> content \<Rightarrow> bool" where
  "holds blake3 f k c \<longleftrightarrow> (\<exists>h value. at_file f (unat (kv_offset k)) (entry_bytes h (kv_hash k) value) \<and>
    entry_ok blake3 h (kv_hash k) value \<and> kv_total_length k = eh_total_length h \<and> c = content_of h value)"

definition kv_span :: "kv_entry \<Rightarrow> nat set" where
  "kv_span k = {unat (kv_offset k) ..< unat (kv_offset k) + unat (kv_total_length k)}"

text \<open>
  The live entries \<open>R\<close> of the index against the contents \<open>m\<close>: every entry lies in the log \<open>[lo, hi)\<close>, its bytes
  are there, and no two overlap.
\<close>

definition index_ok ::
  "(bytes \<Rightarrow> bytes) \<Rightarrow> (bytes \<Rightarrow> content option) \<Rightarrow> (bytes \<Rightarrow> kv_entry option) \<Rightarrow> bytes \<Rightarrow> nat \<Rightarrow> nat \<Rightarrow> bool" where
  "index_ok blake3 m R f lo hi \<longleftrightarrow>
    (\<forall>h. R h = None \<longrightarrow> m h = None) \<and>
    (\<forall>h k. R h = Some k \<longrightarrow> kv_hash k = h \<and> kv_span k \<subseteq> {lo..<hi} \<and> (\<exists>c. m h = Some c \<and> holds blake3 f k c)) \<and>
    (\<forall>h k h' k'. R h = Some k \<longrightarrow> R h' = Some k' \<longrightarrow> h \<noteq> h' \<longrightarrow> kv_span k \<inter> kv_span k' = {})"

definition voids_ok :: "(bytes \<Rightarrow> kv_entry option) \<Rightarrow> void_manager \<Rightarrow> nat \<Rightarrow> bool" where
  "voids_ok R vm hi \<longleftrightarrow> vm_ok vm \<and> vm_hash_algo vm = Blake3_256 \<and> voids_disjoint (voids vm) \<and>
    free_bytes vm \<subseteq> {..<hi} \<and> (\<forall>h k. R h = Some k \<longrightarrow> kv_span k \<inter> free_bytes vm = {})"

lemma entry_span_pos: "0 < header_size a"
  by (simp add: header_size_def FIXED_HEADER_SIZE_def)

lemma ivl_apart:
  fixes a b c d :: nat
  assumes "{a..<b} \<inter> {c..<d} = {}" "a < b" "c < d"
  shows "b \<le> c \<or> d \<le> a"
proof (rule ccontr)
  assume "\<not> (b \<le> c \<or> d \<le> a)"
  then have "max a c \<in> {a..<b} \<inter> {c..<d}" using assms(2,3) by auto
  then show False using assms(1) by blast
qed

lemma holdsE:
  assumes "holds blake3 f k c"
  obtains h v where "at_file f (unat (kv_offset k)) (entry_bytes h (kv_hash k) v)"
    "entry_ok blake3 h (kv_hash k) v" "kv_total_length k = eh_total_length h" "c = content_of h v"
    "length (entry_bytes h (kv_hash k) v) = unat (kv_total_length k)" "0 < unat (kv_total_length k)"
proof -
  obtain h v where h: "at_file f (unat (kv_offset k)) (entry_bytes h (kv_hash k) v)"
    "entry_ok blake3 h (kv_hash k) v" "kv_total_length k = eh_total_length h" "c = content_of h v"
    using assms by (auto simp: holds_def)
  have "length (entry_bytes h (kv_hash k) v) = unat (kv_total_length k)" "0 < unat (kv_total_length k)"
    using h(2,3) entry_span_pos [of "eh_hash_algo h"] by (simp_all add: entry_ok_def length_entry_bytes)
  with h show thesis by (rule that)
qed

lemma holds_file:
  assumes h: "holds blake3 f k c"
    and same: "unat (kv_offset k) + unat (kv_total_length k) \<le> length f \<Longrightarrow>
      read_exact g (unat (kv_offset k)) (unat (kv_total_length k)) =
      read_exact f (unat (kv_offset k)) (unat (kv_total_length k))"
  shows "holds blake3 g k c"
proof -
  from h obtain x v where p: "at_file f (unat (kv_offset k)) (entry_bytes x (kv_hash k) v)"
    "entry_ok blake3 x (kv_hash k) v" "kv_total_length k = eh_total_length x" "c = content_of x v"
    "length (entry_bytes x (kv_hash k) v) = unat (kv_total_length k)"
    by (rule holdsE)
  have "unat (kv_offset k) + unat (kv_total_length k) \<le> length f"
    using p(1,5) by (simp add: at_file_def read_exact_def split: if_splits)
  then have "at_file g (unat (kv_offset k)) (entry_bytes x (kv_hash k) v)"
    using same p(1,5) by (simp add: at_file_def)
  then show ?thesis using p by (auto simp: holds_def)
qed

lemma span_bounds:
  assumes "holds blake3 f k c" "kv_span k \<subseteq> {lo..<hi}"
  shows "lo \<le> unat (kv_offset k)" "unat (kv_offset k) + unat (kv_total_length k) \<le> hi"
proof -
  have "0 < unat (kv_total_length k)" using assms(1) by (rule holdsE)
  then have "unat (kv_offset k) \<in> kv_span k" "unat (kv_offset k) + unat (kv_total_length k) - 1 \<in> kv_span k"
    by (auto simp: kv_span_def)
  then have "unat (kv_offset k) \<in> {lo..<hi}" "unat (kv_offset k) + unat (kv_total_length k) - 1 \<in> {lo..<hi}"
    using assms(2) by blast+
  then show "lo \<le> unat (kv_offset k)" "unat (kv_offset k) + unat (kv_total_length k) \<le> hi"
    using \<open>0 < unat (kv_total_length k)\<close> by auto
qed

lemma index_okD:
  assumes "index_ok blake3 m R f lo hi" "R h = Some k"
  shows "kv_hash k = h" "kv_span k \<subseteq> {lo..<hi}" "\<exists>c. m h = Some c \<and> holds blake3 f k c"
  using assms by (auto simp: index_ok_def)

lemma index_okI:
  assumes "\<And>h. R h = None \<Longrightarrow> m h = None"
    and "\<And>h k. R h = Some k \<Longrightarrow> kv_hash k = h"
    and "\<And>h k. R h = Some k \<Longrightarrow> kv_span k \<subseteq> {lo..<hi}"
    and "\<And>h k. R h = Some k \<Longrightarrow> \<exists>c. m h = Some c \<and> holds blake3 f k c"
    and "\<And>h k h' k'. R h = Some k \<Longrightarrow> R h' = Some k' \<Longrightarrow> h \<noteq> h' \<Longrightarrow> kv_span k \<inter> kv_span k' = {}"
  shows "index_ok blake3 m R f lo hi"
  unfolding index_ok_def using assms by (intro conjI allI impI) assumption+

lemma index_ok_apart:
  assumes "index_ok blake3 m R f lo hi" "R h = Some k" "R h' = Some k'" "h \<noteq> h'"
  shows "kv_span k \<inter> kv_span k' = {}"
proof -
  have "\<forall>h k h' k'. R h = Some k \<longrightarrow> R h' = Some k' \<longrightarrow> h \<noteq> h' \<longrightarrow> kv_span k \<inter> kv_span k' = {}"
    using assms(1) unfolding index_ok_def by (elim conjE)
  then show ?thesis using assms(2-4) by simp
qed

lemma index_ok_None: "index_ok blake3 m R f lo hi \<Longrightarrow> R h = None \<Longrightarrow> m h = None"
  unfolding index_ok_def by (elim conjE) (erule allE, erule mp)

text \<open>The file changes so that every entry still holds.\<close>

lemma index_ok_holds:
  assumes ok: "index_ok blake3 m R f lo hi"
    and g: "\<And>h k c. R h = Some k \<Longrightarrow> holds blake3 f k c \<Longrightarrow> holds blake3 g k c"
  shows "index_ok blake3 m R g lo hi"
proof (rule index_okI)
  fix h k
  assume R: "R h = Some k"
  then obtain c where "m h = Some c" "holds blake3 f k c" using index_okD(3) [OF ok R] by (elim exE conjE)
  then show "\<exists>c. m h = Some c \<and> holds blake3 g k c" using g [OF R] by (intro exI conjI)
qed (rule index_ok_None [OF ok] index_okD(1,2) [OF ok] index_ok_apart [OF ok]; assumption)+

lemma index_ok_file:
  assumes ok: "index_ok blake3 m R f lo hi"
    and same: "\<And>o1 n. lo \<le> o1 \<Longrightarrow> o1 + n \<le> hi \<Longrightarrow> o1 + n \<le> length f \<Longrightarrow> read_exact g o1 n = read_exact f o1 n"
  shows "index_ok blake3 m R g lo hi"
proof (rule index_ok_holds [OF ok])
  fix h k c
  assume R: "R h = Some k" and c: "holds blake3 f k c"
  show "holds blake3 g k c"
    by (rule holds_file [OF c]) (rule same [OF span_bounds [OF c index_okD(2) [OF ok R]]])
qed

lemma index_ok_write:
  assumes ok: "index_ok blake3 m R f lo hi" and bs: "bs \<noteq> []"
    and away: "\<And>h k. R h = Some k \<Longrightarrow> kv_span k \<inter> {off ..< off + length bs} = {}"
  shows "index_ok blake3 m R (write_at f off bs) lo hi"
proof (rule index_ok_holds [OF ok])
  fix h k c
  assume R: "R h = Some k" and c: "holds blake3 f k c"
  have "0 < unat (kv_total_length k)" using c by (rule holdsE)
  then have "unat (kv_offset k) + unat (kv_total_length k) \<le> off \<or> off + length bs \<le> unat (kv_offset k)"
    using ivl_apart [OF away [OF R, unfolded kv_span_def]] bs by simp
  then show "holds blake3 (write_at f off bs) k c" by (intro holds_file [OF c] read_write_other)
qed

lemma index_ok_mono:
  assumes ok: "index_ok blake3 m R f lo hi" and "hi \<le> hi'"
  shows "index_ok blake3 m R f lo hi'"
proof (rule index_okI)
  fix h k
  assume "R h = Some k"
  then have "kv_span k \<subseteq> {lo..<hi}" by (rule index_okD(2) [OF ok])
  then show "kv_span k \<subseteq> {lo..<hi'}" using assms(2) by auto
qed (rule index_ok_None [OF ok] index_okD(1,3) [OF ok] index_ok_apart [OF ok]; assumption)+

lemma voids_ok_mono: "voids_ok R vm hi \<Longrightarrow> hi \<le> hi' \<Longrightarrow> voids_ok R vm hi'"
  unfolding voids_ok_def by (meson lessThan_iff order_less_le_trans subset_iff)

lemma index_ok_insert:
  assumes ok: "index_ok blake3 m R f lo hi"
    and k: "kv_span k \<subseteq> {lo..<hi}" "holds blake3 f k c"
    and away: "\<And>h k'. R h = Some k' \<Longrightarrow> kv_span k' \<inter> kv_span k = {}"
  shows "index_ok blake3 (m(kv_hash k \<mapsto> c)) (R(kv_hash k \<mapsto> k)) f lo hi"
proof (rule index_okI)
  show "(m(kv_hash k \<mapsto> c)) h = None" if "(R(kv_hash k \<mapsto> k)) h = None" for h
    using that index_ok_None [OF ok, of h] by (simp split: if_splits)
  fix h a
  assume a: "(R(kv_hash k \<mapsto> k)) h = Some a"
  show "kv_hash a = h" "kv_span a \<subseteq> {lo..<hi}"
    using a k(1) index_okD(1,2) [OF ok, of h a] by (simp_all split: if_splits)
  show "\<exists>x. (m(kv_hash k \<mapsto> c)) h = Some x \<and> holds blake3 f a x"
    using a k(2) index_okD(3) [OF ok, of h a] by (cases "h = kv_hash k") simp_all
  fix h' b
  assume "(R(kv_hash k \<mapsto> k)) h' = Some b" "h \<noteq> h'"
  then show "kv_span a \<inter> kv_span b = {}"
    using a away [of h a] away [of h' b] index_ok_apart [OF ok, of h a h' b]
    by (cases "h = kv_hash k"; cases "h' = kv_hash k") (simp_all add: Int_commute)
qed

lemma index_ok_restrict:
  assumes ok: "index_ok blake3 m R f lo hi"
  shows "index_ok blake3 (m |` S) (R |` S) f lo hi"
proof (rule index_okI)
  show "(m |` S) h = None" if "(R |` S) h = None" for h
    using that index_ok_None [OF ok, of h] by (cases "h \<in> S") simp_all
  fix h a
  assume "(R |` S) h = Some a"
  then have h: "h \<in> S" and a: "R h = Some a" by (simp_all add: restrict_map_def split: if_splits)
  show "kv_hash a = h" "kv_span a \<subseteq> {lo..<hi}" "\<exists>c. (m |` S) h = Some c \<and> holds blake3 f a c"
    using index_okD [OF ok a] h by simp_all
  fix h' b
  assume "(R |` S) h' = Some b" "h \<noteq> h'"
  then show "kv_span a \<inter> kv_span b = {}"
    using index_ok_apart [OF ok a, of h' b] by (simp add: restrict_map_def split: if_splits)
qed

lemma voids_ok_restrict: "voids_ok R vm hi \<Longrightarrow> voids_ok (R |` S) vm hi"
  unfolding voids_ok_def restrict_map_def by (auto split: if_splits)

section \<open>Reusing a void\<close>

text \<open>\<open>V'\<close> is what is left of the free space \<open>V\<close> after a search.\<close>

lemma voids_ok_shrink:
  assumes "voids_ok R vm hi" "vm_ok vm'" "vm_hash_algo vm' = vm_hash_algo vm" "voids_disjoint (voids vm')"
    "free_bytes vm' \<subseteq> free_bytes vm"
  shows "voids_ok R vm' hi"
proof -
  have "kv_span k \<inter> free_bytes vm' = {}" if "R h = Some k" for h k
  proof -
    have "kv_span k \<inter> free_bytes vm = {}" using assms(1) that by (simp add: voids_ok_def)
    then show ?thesis using assms(5) by blast
  qed
  then show ?thesis using assms by (auto simp: voids_ok_def)
qed

lemma find_void_algo:
  assumes "vm_ok m" "find_void n m = Some (r, m')"
  shows "vm_hash_algo m' = vm_hash_algo m"
  using assms(1)
proof (cases rule: find_void_cases [where n = n])
  case Missing
  then show ?thesis using assms(2) by simp
next
  case (Found v m1)
  then show ?thesis
    using assms(2) register_void_correct [OF Found(3)] by (simp add: find_remainder_def split: if_splits)
qed

lemma find_void_shrinks:
  assumes ok: "voids_ok R vm hi" and f: "find_void n vm = Some (Some (off, sz), vm')" and n: "0 < n"
  shows "voids_ok R vm' hi" "card (free_bytes vm') < card (free_bytes vm)" "free_bytes vm' \<subseteq> free_bytes vm"
    "{unat off ..< unat off + unat n} \<subseteq> free_bytes vm" "{unat off ..< unat off + unat n} \<inter> free_bytes vm' = {}" "n \<le> sz"
proof -
  have v: "vm_ok vm" "voids_disjoint (voids vm)" "free_bytes vm \<subseteq> {..<hi}" using ok by (simp_all add: voids_ok_def)
  obtain lost where p: "vm_ok vm'" "voids_disjoint (voids vm')" "n \<le> sz"
    "{unat off ..< unat off + unat n + lost} \<inter> free_bytes vm' = {}"
    "free_bytes vm = free_bytes vm' \<union> {unat off ..< unat off + unat n + lost}"
    using find_void_correct [OF v(1,2) f] by blast
  have sub: "{unat off ..< unat off + unat n} \<subseteq> {unat off ..< unat off + unat n + lost}" by simp
  show shrink: "free_bytes vm' \<subseteq> free_bytes vm" using p(5) by simp
  show "voids_ok R vm' hi" by (rule voids_ok_shrink [OF ok p(1) find_void_algo [OF v(1) f] p(2) shrink])
  show "n \<le> sz" by (rule p(3))
  show "{unat off ..< unat off + unat n} \<subseteq> free_bytes vm" using sub p(5) by blast
  show "{unat off ..< unat off + unat n} \<inter> free_bytes vm' = {}" using sub p(4) by blast
  have "0 < unat n" using n by (simp add: word_less_nat_alt)
  then have "unat off \<in> {unat off ..< unat off + unat n + lost}" by simp
  then have "unat off \<in> free_bytes vm - free_bytes vm'" using p(4,5) by blast
  moreover have "finite (free_bytes vm)" using v(3) finite_subset by blast
  ultimately show "card (free_bytes vm') < card (free_bytes vm)"
    using shrink by (intro psubset_card_mono) auto
qed

lemma valid_reusable_rangeD:
  assumes "valid_reusable_range off sz lo hi"
  shows "lo \<le> unat off" "unat off + unat sz \<le> hi" "sz \<noteq> 0"
  using assms by (auto simp: valid_reusable_range_def split: if_splits)

lemma valid_reusable_rangeI:
  assumes "lo \<le> unat off" "unat off + unat sz \<le> hi" "0 < unat sz" "hi < 2 ^ 64"
  shows "valid_reusable_range off sz lo hi"
  using assms by (auto simp: valid_reusable_range_def)

text \<open>The search ends, and hands out free bytes of the log only.\<close>

definition slot_ok :: "u32 \<Rightarrow> nat \<Rightarrow> nat \<Rightarrow> void_manager \<Rightarrow> void_manager \<Rightarrow> (u64 \<times> u32) option \<Rightarrow> bool" where
  "slot_ok n lo hi vm vm' slot \<longleftrightarrow> free_bytes vm' \<subseteq> free_bytes vm \<and> (case slot of None \<Rightarrow> True | Some (off, sz) \<Rightarrow>
    lo \<le> unat off \<and> unat off + unat n \<le> hi \<and> {unat off ..< unat off + unat n} \<subseteq> free_bytes vm \<and>
    {unat off ..< unat off + unat n} \<inter> free_bytes vm' = {})"

lemma consume_void_correct:
  assumes "voids_ok R vm hi" and n: "0 < n"
  shows "\<exists>slot changed' vm'. consume_void n lo hi vm changed = Some (slot, changed', vm') \<and> voids_ok R vm' hi \<and>
    slot_ok n lo hi vm vm' slot"
  using assms(1)
proof (induction "card (free_bytes vm)" arbitrary: vm changed rule: less_induct)
  case less
  have v: "vm_ok vm" using less.prems by (simp add: voids_ok_def)
  show ?case
    using v
  proof (cases rule: find_void_cases [where n = n])
    case Missing
    then show ?thesis using less.prems by (simp add: consume_void.simps slot_ok_def)
  next
    case (Found w m1)
    obtain off sz where w: "w = (off, sz)" by fastforce
    define vm1 where "vm1 = find_remainder n w m1"
    have f: "find_void n vm = Some (Some (off, sz), vm1)" using Found(1) by (simp add: w vm1_def)
    note s = find_void_shrinks [OF less.prems f n]
    show ?thesis
    proof (cases "valid_reusable_range off sz lo hi")
      case True
      have "unat n \<le> unat sz" using s(6) by (simp add: word_le_nat_alt)
      then have "slot_ok n lo hi vm vm1 (Some (off, sz))"
        using s valid_reusable_rangeD [OF True] by (simp add: slot_ok_def)
      moreover have "consume_void n lo hi vm changed = Some (Some (off, sz), True, vm1)"
        using True by (simp add: consume_void.simps [of n lo hi vm] f)
      ultimately show ?thesis using s(1) by blast
    next
      case False
      obtain slot c vm' where r: "consume_void n lo hi vm1 True = Some (slot, c, vm')" "voids_ok R vm' hi"
        "slot_ok n lo hi vm1 vm' slot"
        using less.hyps [OF s(2) s(1)] by blast
      have "slot_ok n lo hi vm vm' slot" using r(3) s(3) unfolding slot_ok_def by (auto split: option.splits)
      then show ?thesis using r False by (simp add: consume_void.simps [of n lo hi vm] f)
    qed
  qed
qed

section \<open>The invariant\<close>

definition dk_live :: "(bytes \<Rightarrow> u32) \<Rightarrow> disk_kv_store \<Rightarrow> bytes \<Rightarrow> kv_entry option" where
  "dk_live crc32 s h = live (dk_raw crc32 s h)"

abbreviation wal_lo :: "storage_engine \<Rightarrow> nat" where
  "wal_lo e \<equiv> dk_kv_block_offset (sg_kv e) + dk_kv_block_length (sg_kv e)"

abbreviation wal_hi :: "storage_engine \<Rightarrow> nat" where
  "wal_hi e \<equiv> aw_offset (sg_writer e)"

text \<open>The writer and the index agree on the file and on its layout, and the engine is open for writing.\<close>

definition layout_ok :: "storage_engine \<Rightarrow> bool" where
  "layout_ok e \<longleftrightarrow> aw_file (sg_writer e) = dk_db_file (sg_kv e) \<and>
    unat (fh_kv_block_offset (aw_header (sg_writer e))) = dk_kv_block_offset (sg_kv e) \<and>
    unat (fh_kv_block_length (aw_header (sg_writer e))) = dk_kv_block_length (sg_kv e) \<and>
    fh_hash_algo (aw_header (sg_writer e)) = Blake3_256 \<and> dk_hash_algo (sg_kv e) = Blake3_256 \<and>
    sg_hash_algo e = Blake3_256 \<and> HEADER_REGION_SIZE \<le> dk_kv_block_offset (sg_kv e) \<and>
    dk_hot_tail_enabled (sg_kv e) \<and> dk_hot_tail_offset (sg_kv e) = wal_hi e \<and>
    \<not> sg_shutting_down e \<and> sg_durability_failure e = None"

definition engine_ok ::
  "(bytes \<Rightarrow> u32) \<Rightarrow> (bytes \<Rightarrow> bytes) \<Rightarrow> (bytes \<Rightarrow> content option) \<Rightarrow> storage_engine \<Rightarrow> bool" where
  "engine_ok crc32 blake3 m e \<longleftrightarrow> layout_ok e \<and> wal_hi e < 2 ^ 64 \<and> dk_ok crc32 (sg_kv e) \<and>
    index_ok blake3 m (dk_live crc32 (sg_kv e)) (aw_file (sg_writer e)) (wal_lo e) (wal_hi e) \<and>
    voids_ok (dk_live crc32 (sg_kv e)) (sg_void_manager e) (wal_hi e)"

lemma engine_okD:
  assumes "engine_ok crc32 blake3 m e"
  shows "layout_ok e" "wal_hi e < 2 ^ 64" "dk_ok crc32 (sg_kv e)" "wal_lo e \<le> wal_hi e"
    "index_ok blake3 m (dk_live crc32 (sg_kv e)) (aw_file (sg_writer e)) (wal_lo e) (wal_hi e)"
    "voids_ok (dk_live crc32 (sg_kv e)) (sg_void_manager e) (wal_hi e)"
    "writer_wal_bounds (sg_writer e) = (wal_lo e, wal_hi e)"
proof -
  show l: "layout_ok e" and hi: "wal_hi e < 2 ^ 64" and dk: "dk_ok crc32 (sg_kv e)"
    and "index_ok blake3 m (dk_live crc32 (sg_kv e)) (aw_file (sg_writer e)) (wal_lo e) (wal_hi e)"
    "voids_ok (dk_live crc32 (sg_kv e)) (sg_void_manager e) (wal_hi e)"
    using assms by (simp_all only: engine_ok_def)
  show lo: "wal_lo e \<le> wal_hi e" using l dk by (simp add: layout_ok_def dk_ok_def dk_store_ok_def)
  show "writer_wal_bounds (sg_writer e) = (wal_lo e, wal_hi e)"
    using l lo hi by (simp add: layout_ok_def writer_wal_bounds_def)
qed

lemma guards_open [simp]:
  assumes "layout_ok e"
  shows "operation_guard e r = r" "ensure_writable e r' = r'"
  using assms by (simp_all add: layout_ok_def operation_guard_def ensure_writable_def)

section \<open>Reading\<close>

lemma snapshot_get_live:
  assumes "dk_ok crc32 (sg_kv e)"
  shows "snapshot_get crc32 e h = dk_live crc32 (sg_kv e) h" "get_kv_entry crc32 e h = dk_live crc32 (sg_kv e) h"
proof -
  have "rs_get crc32 (dk_snapshot (sg_kv e)) h = live (dk_raw crc32 (sg_kv e) h)"
    using rs_get_overlay(2) [OF dk_published_rs_ok(1) [OF assms]] dk_published_rs_ok(2) [OF assms] by simp
  then show "snapshot_get crc32 e h = dk_live crc32 (sg_kv e) h" "get_kv_entry crc32 e h = dk_live crc32 (sg_kv e) h"
    by (auto simp: snapshot_get_def get_kv_entry_def dk_live_def dest: live_SomeD split: option.split)
qed

text \<open>A read that returns the entry last stored under the key, or nothing when there is none.\<close>

definition reads_as :: "entry_data option fallible \<Rightarrow> bytes \<Rightarrow> content option \<Rightarrow> bool" where
  "reads_as r key c \<longleftrightarrow> (case c of
     None \<Rightarrow> r = Some (Inr None)
   | Some x \<Rightarrow> \<exists>h v. r = Some (Inr (Some (h, key, v))) \<and> content_of h v = x)"

lemma live_entry_valid:
  assumes ok: "engine_ok crc32 blake3 m e" and k: "dk_live crc32 (sg_kv e) key = Some k"
  shows "validate_kv_entry_offset (sg_writer e) k = Inr ()"
proof -
  note d = engine_okD [OF ok]
  obtain c where c: "holds blake3 (aw_file (sg_writer e)) k c" using index_okD(3) [OF d(5) k] by blast
  have "0 < unat (kv_total_length k)" using c by (rule holdsE)
  then have "valid_reusable_range (kv_offset k) (kv_total_length k) (wal_lo e) (wal_hi e)"
    using span_bounds [OF c index_okD(2) [OF d(5) k]] d(2) by (intro valid_reusable_rangeI)
  then show ?thesis by (simp add: validate_kv_entry_offset_def d(7))
qed

lemma reads_correct:
  assumes ok: "engine_ok crc32 blake3 m e"
  shows "reads_as (get_entry crc32 blake3 e key) key (m key)" "reads_as (get_entry_verified crc32 blake3 e key) key (m key)"
proof -
  note d = engine_okD [OF ok]
  let ?r = "\<lambda>verify. read_at_entry e (snapshot_get crc32 e key) (\<lambda>off. read_entry_at_shared_opt blake3 (sg_writer e) off verify)"
  have "reads_as (?r verify) key (m key)" for verify
  proof (cases "dk_live crc32 (sg_kv e) key")
    case None
    then show ?thesis
      using index_ok_None [OF d(5) None] by (simp add: snapshot_get_live [OF d(3)] read_at_entry_def reads_as_def)
  next
    case (Some k)
    obtain c where c: "m key = Some c" "holds blake3 (aw_file (sg_writer e)) k c"
      using index_okD(3) [OF d(5) Some] by blast
    have key: "kv_hash k = key" by (rule index_okD(1) [OF d(5) Some])
    obtain h v where h: "at_file (aw_file (sg_writer e)) (unat (kv_offset k)) (entry_bytes h (kv_hash k) v)"
      "entry_ok blake3 h (kv_hash k) v" "c = content_of h v"
      using c(2) by (rule holdsE)
    show ?thesis
      using shared_read_ok(1) [OF h(1,2), of verify] live_entry_valid [OF ok Some] c(1) h(3) key
      by (simp add: snapshot_get_live [OF d(3)] Some read_at_entry_def reads_as_def)
  qed
  from this [of False] this [of True]
  show "reads_as (get_entry crc32 blake3 e key) key (m key)" "reads_as (get_entry_verified crc32 blake3 e key) key (m key)"
    by (simp_all add: get_entry_def get_entry_verified_def d(1) read_entry_at_shared_def [abs_def]
        read_entry_at_shared_verified_def [abs_def])
qed

end
