(* ===== verification/Storage_Steps.thy ===== *)
theory Storage_Steps
  imports Storage_Correct
begin

text \<open>
  Every operation of the engine keeps its invariant: the phases the operations share (a write of the log, a write
  of the header, a change of the index), then the operations and their sequences.
\<close>

section \<open>Writes of the file\<close>

lemma dk_ok_db_file:
  assumes "dk_ok crc32 s" "dk_pages_end s \<le> length f"
    and "file_pages f (dk_kv_block_offset s) (dk_hl s) (dk_bucket_count s) = dk_pages s"
  shows "dk_ok crc32 (s\<lparr> dk_db_file := f \<rparr>)" "dk_raw crc32 (s\<lparr> dk_db_file := f \<rparr>) = dk_raw crc32 s"
  using assms
  by (simp_all add: dk_ok_def dk_store_ok_def region_ok_def dk_published_def dk_pages_published_def dk_raw_def)

lemma dk_ok_write:
  assumes ok: "dk_ok crc32 s" and away: "off + length bs \<le> dk_kv_block_offset s \<or> dk_pages_end s \<le> off"
  shows "dk_ok crc32 (s\<lparr> dk_db_file := write_at (dk_db_file s) off bs \<rparr>)"
    "dk_raw crc32 (s\<lparr> dk_db_file := write_at (dk_db_file s) off bs \<rparr>) = dk_raw crc32 s"
proof -
  have len: "dk_pages_end s \<le> length (dk_db_file s)" using ok dk_store_okD(2) [of crc32 s] by (simp add: dk_ok_def)
  have "file_pages (write_at (dk_db_file s) off bs) (dk_kv_block_offset s) (dk_hl s) (dk_bucket_count s) = dk_pages s"
  proof (rule file_pages_cong [OF _ len])
    show "dk_pages_end s \<le> length (write_at (dk_db_file s) off bs)" using len by simp
    fix b
    assume "b < dk_bucket_count s"
    then have e: "dk_kv_block_offset s + b * page_size (dk_hl s) + page_size (dk_hl s) \<le> dk_pages_end s"
      by (rule page_end_le)
    show "read_exact (write_at (dk_db_file s) off bs) (dk_kv_block_offset s + b * page_size (dk_hl s)) (page_size (dk_hl s)) =
        read_exact (dk_db_file s) (dk_kv_block_offset s + b * page_size (dk_hl s)) (page_size (dk_hl s))"
      using away e len by (intro read_write_other) linarith+
  qed
  then show "dk_ok crc32 (s\<lparr> dk_db_file := write_at (dk_db_file s) off bs \<rparr>)"
    "dk_raw crc32 (s\<lparr> dk_db_file := write_at (dk_db_file s) off bs \<rparr>) = dk_raw crc32 s"
    using dk_ok_db_file [OF ok, of "write_at (dk_db_file s) off bs"] len by simp_all
qed

lemma set_hot_tail_offset_ok:
  assumes "dk_ok crc32 s"
  shows "dk_ok crc32 (set_hot_tail_offset s off)" "dk_raw crc32 (set_hot_tail_offset s off) = dk_raw crc32 s"
    "dk_db_file (set_hot_tail_offset s off) = dk_db_file s"
  using assms
  by (auto simp: set_hot_tail_offset_def dk_ok_def dk_store_ok_def dk_published_def dk_pages_published_def dk_raw_def)

text \<open>What of the writer's header the layout depends on.\<close>

definition same_layout_header :: "append_writer \<Rightarrow> append_writer \<Rightarrow> bool" where
  "same_layout_header w w' \<longleftrightarrow> fh_kv_block_offset (aw_header w') = fh_kv_block_offset (aw_header w) \<and>
    fh_kv_block_length (aw_header w') = fh_kv_block_length (aw_header w) \<and>
    fh_hash_algo (aw_header w') = fh_hash_algo (aw_header w)"

text \<open>A write of the header region, or of log bytes outside every live entry.\<close>

lemma writer_phase:
  assumes ok: "engine_ok crc32 blake3 m e"
    and w': "aw_file w' = write_at (aw_file (sg_writer e)) off bs" "bs \<noteq> []" "same_layout_header (sg_writer e) w'"
      "wal_hi e \<le> aw_offset w'" "aw_offset w' < 2 ^ 64"
    and place: "off + length bs \<le> HEADER_REGION_SIZE \<or> wal_lo e \<le> off \<and>
      (\<forall>h k. dk_live crc32 (sg_kv e) h = Some k \<longrightarrow> kv_span k \<inter> {off ..< off + length bs} = {})"
  shows "engine_ok crc32 blake3 m (advance_hot_tail (with_writer w' e))"
    "dk_live crc32 (sg_kv (advance_hot_tail (with_writer w' e))) = dk_live crc32 (sg_kv e)"
    "sg_writer (advance_hot_tail (with_writer w' e)) = w'"
    "wal_lo (advance_hot_tail (with_writer w' e)) = wal_lo e"
    "sg_void_manager (advance_hot_tail (with_writer w' e)) = sg_void_manager e"
proof -
  note d = engine_okD [OF ok]
  define s where "s = (sg_kv e)\<lparr> dk_db_file := aw_file w' \<rparr>"
  define e' where "e' = advance_hot_tail (with_writer w' e)"
  have fl: "aw_file (sg_writer e) = dk_db_file (sg_kv e)" using d(1) by (simp add: layout_ok_def)
  have pages: "dk_pages_end (sg_kv e) \<le> wal_lo e" using d(3) dk_store_okD(4) [of crc32 "sg_kv e"] by (simp add: dk_ok_def)
  have "off + length bs \<le> dk_kv_block_offset (sg_kv e) \<or> dk_pages_end (sg_kv e) \<le> off"
    using place pages d(1) by (auto simp: layout_ok_def)
  from dk_ok_write [OF d(3) this] have s: "dk_ok crc32 s" "dk_raw crc32 s = dk_raw crc32 (sg_kv e)"
    by (simp_all add: s_def w'(1) fl)
  have kv: "sg_kv e' = set_hot_tail_offset s (aw_offset w')" and wr: "sg_writer e' = w'"
    and vm: "sg_void_manager e' = sg_void_manager e"
    by (simp_all add: e'_def advance_hot_tail_def with_kv_def with_writer_def s_def set_hot_tail_offset_def)
  note h = set_hot_tail_offset_ok [OF s(1), of "aw_offset w'"]
  have live: "dk_live crc32 (sg_kv e') = dk_live crc32 (sg_kv e)" by (simp add: dk_live_def [abs_def] kv h(2) s(2))
  have lo: "wal_lo e' = wal_lo e" by (simp add: kv s_def set_hot_tail_offset_def)
  have away: "kv_span k \<inter> {off ..< off + length bs} = {}" if "dk_live crc32 (sg_kv e) x = Some k" for x k
  proof (cases "off + length bs \<le> HEADER_REGION_SIZE")
    case True
    have "kv_span k \<subseteq> {wal_lo e ..< wal_hi e}" by (rule index_okD(2) [OF d(5) that])
    then show ?thesis using True d(1) by (force simp: layout_ok_def)
  qed (use place that in blast)
  have "index_ok blake3 m (dk_live crc32 (sg_kv e)) (aw_file w') (wal_lo e) (aw_offset w')"
    unfolding w'(1) by (rule index_ok_write [OF index_ok_mono [OF d(5) w'(4)] w'(2) away])
  moreover have "voids_ok (dk_live crc32 (sg_kv e)) (sg_void_manager e) (aw_offset w')"
    by (rule voids_ok_mono [OF d(6) w'(4)])
  moreover have "dk_hot_tail_offset (sg_kv e') = aw_offset w'"
    using d(1) w'(4) by (simp add: kv s_def set_hot_tail_offset_def layout_ok_def)
  then have "layout_ok e'"
    using d(1) w'(3)
    by (simp add: layout_ok_def wr kv s_def set_hot_tail_offset_def same_layout_header_def)
      (simp add: e'_def advance_hot_tail_def with_kv_def with_writer_def)
  ultimately show "engine_ok crc32 blake3 m (advance_hot_tail (with_writer w' e))"
    using h(1) w'(5) unfolding e'_def [symmetric] engine_ok_def wr vm live lo by (simp add: kv)
  show "dk_live crc32 (sg_kv (advance_hot_tail (with_writer w' e))) = dk_live crc32 (sg_kv e)"
    "sg_writer (advance_hot_tail (with_writer w' e)) = w'"
    "wal_lo (advance_hot_tail (with_writer w' e)) = wal_lo e"
    "sg_void_manager (advance_hot_tail (with_writer w' e)) = sg_void_manager e"
    using live wr lo vm by (simp_all only: e'_def)
qed

lemma advance_nothing:
  assumes "layout_ok e" "aw_offset w' = wal_hi e"
  shows "advance_hot_tail (with_writer w' e) = with_writer w' e"
  using assms by (simp add: advance_hot_tail_def with_writer_def with_kv_def set_hot_tail_offset_def layout_ok_def)

lemma update_header_form:
  assumes "update_header crc32 hdr w = Some w'"
  shows "\<exists>off bs. aw_file w' = write_at (aw_file w) off bs \<and> bs \<noteq> [] \<and> off + length bs \<le> HEADER_REGION_SIZE \<and>
    aw_offset w' = aw_offset w \<and> fh_kv_block_offset (aw_header w') = fh_kv_block_offset hdr \<and>
    fh_kv_block_length (aw_header w') = fh_kv_block_length hdr \<and> fh_hash_algo (aw_header w') = fh_hash_algo hdr"
proof -
  obtain bs where bs: "aw_file w' = write_at (aw_file w) ((1 - aw_slot w) * 256) bs" "length bs = 256"
    and "aw_offset w' = aw_offset w" "fh_kv_block_offset (aw_header w') = fh_kv_block_offset hdr"
    "fh_kv_block_length (aw_header w') = fh_kv_block_length hdr" "fh_hash_algo (aw_header w') = fh_hash_algo hdr"
    using assms length_file_header_serialize
    by (fastforce simp: update_header_def write_header_to_inactive_slot_def FILE_HEADER_SIZE_def Let_def split: option.splits)
  moreover have "(1 - aw_slot w) * 256 + length bs \<le> HEADER_REGION_SIZE" "bs \<noteq> []"
    using bs(2) by (auto simp: file_header_sizes)
  ultimately show ?thesis by blast
qed

lemma update_file_header_eq: "update_file_header crc32 hdr w = update_header crc32 hdr w"
  by (simp add: update_file_header_def update_header_def)

lemma header_phase:
  assumes ok: "engine_ok crc32 blake3 m e" and u: "update_header crc32 hdr (sg_writer e) = Some w'"
    and hdr: "fh_kv_block_offset hdr = fh_kv_block_offset (aw_header (sg_writer e))"
      "fh_kv_block_length hdr = fh_kv_block_length (aw_header (sg_writer e))"
      "fh_hash_algo hdr = fh_hash_algo (aw_header (sg_writer e))"
  shows "engine_ok crc32 blake3 m (with_writer w' e)" "wal_hi (with_writer w' e) = wal_hi e"
proof -
  note d = engine_okD [OF ok]
  obtain off bs where f: "aw_file w' = write_at (aw_file (sg_writer e)) off bs" "bs \<noteq> []"
    "off + length bs \<le> HEADER_REGION_SIZE" "aw_offset w' = wal_hi e" "same_layout_header (sg_writer e) w'"
    using update_header_form [OF u] hdr unfolding same_layout_header_def by auto
  show "engine_ok crc32 blake3 m (with_writer w' e)"
    using writer_phase(1) [OF ok f(1,2,5)] f(3,4) d(2) advance_nothing [OF d(1) f(4)] by simp
  show "wal_hi (with_writer w' e) = wal_hi e" using f(4) by (simp add: with_writer_def)
qed

section \<open>Changes of the index\<close>

lemma log_same_read:
  assumes ok: "engine_ok crc32 blake3 m e" and s: "log_same (sg_kv e) s"
    and r: "wal_lo e \<le> o1" "o1 + n \<le> wal_hi e" "o1 + n \<le> length (aw_file (sg_writer e))"
  shows "read_exact (dk_db_file s) o1 n = read_exact (aw_file (sg_writer e)) o1 n"
proof -
  note d = engine_okD [OF ok]
  have fl: "aw_file (sg_writer e) = dk_db_file (sg_kv e)" and hot: "dk_hot_tail_offset (sg_kv e) = wal_hi e"
    using d(1) by (simp_all add: layout_ok_def)
  have pages: "dk_pages_end (sg_kv e) \<le> wal_lo e" using d(3) dk_store_okD(4) [of crc32 "sg_kv e"] by (simp add: dk_ok_def)
  show ?thesis using s r pages hot unfolding fl log_same_def by simp
qed

lemma kv_phase:
  assumes ok: "engine_ok crc32 blake3 m e" and s: "dk_ok crc32 s" "same_layout (sg_kv e) s" "log_same (sg_kv e) s"
    and idx: "index_ok blake3 m' (dk_live crc32 s) (aw_file (sg_writer e)) (wal_lo e) (wal_hi e)"
    and vds: "voids_ok (dk_live crc32 s) (sg_void_manager e) (wal_hi e)"
  shows "engine_ok crc32 blake3 m' (with_kv s e)" "wal_hi (with_kv s e) = wal_hi e" "wal_lo (with_kv s e) = wal_lo e"
    "sg_void_manager (with_kv s e) = sg_void_manager e" "sg_kv (with_kv s e) = s"
proof -
  note d = engine_okD [OF ok]
  show hi: "wal_hi (with_kv s e) = wal_hi e" and lo: "wal_lo (with_kv s e) = wal_lo e"
    and vm: "sg_void_manager (with_kv s e) = sg_void_manager e" and kv: "sg_kv (with_kv s e) = s"
    using s(2) by (simp_all add: with_kv_def same_layout_def)
  have "index_ok blake3 m' (dk_live crc32 s) (dk_db_file s) (wal_lo e) (wal_hi e)"
    by (rule index_ok_file [OF idx log_same_read [OF ok s(3)]])
  moreover have "layout_ok (with_kv s e)"
    using d(1) s(2) by (simp add: layout_ok_def with_kv_def same_layout_def)
  ultimately show "engine_ok crc32 blake3 m' (with_kv s e)"
    using d(2) s(1,2) vds unfolding engine_ok_def hi vm kv by (simp add: with_kv_def same_layout_def)
qed

lemma kv_phase_same:
  assumes ok: "engine_ok crc32 blake3 m e" and s: "dk_ok crc32 s" "same_layout (sg_kv e) s" "log_same (sg_kv e) s"
    and raw: "dk_raw crc32 s = dk_raw crc32 (sg_kv e)"
  shows "engine_ok crc32 blake3 m (with_kv s e)" "wal_hi (with_kv s e) = wal_hi e"
  using kv_phase [OF ok s, of m] engine_okD(5,6) [OF ok] by (simp_all add: dk_live_def [abs_def] raw)

text \<open>Deleting keys from the index.\<close>

lemma kv_phase_restrict:
  assumes ok: "engine_ok crc32 blake3 m e" and s: "dk_ok crc32 s" "same_layout (sg_kv e) s" "log_same (sg_kv e) s"
    and live: "dk_live crc32 s = dk_live crc32 (sg_kv e) |` S"
  shows "engine_ok crc32 blake3 (m |` S) (with_kv s e)" "wal_hi (with_kv s e) = wal_hi e"
    "sg_void_manager (with_kv s e) = sg_void_manager e" "sg_kv (with_kv s e) = s"
  using kv_phase [OF ok s, of "m |` S"] index_ok_restrict [OF engine_okD(5) [OF ok]]
    voids_ok_restrict [OF engine_okD(6) [OF ok]]
  by (simp_all add: live)

text \<open>Indexing an entry whose bytes are in place.\<close>

definition fresh_entry :: "(bytes \<Rightarrow> u32) \<Rightarrow> (bytes \<Rightarrow> bytes) \<Rightarrow> storage_engine \<Rightarrow> kv_entry \<Rightarrow> content \<Rightarrow> bool" where
  "fresh_entry crc32 blake3 e k c \<longleftrightarrow> kv_span k \<subseteq> {wal_lo e ..< wal_hi e} \<and> holds blake3 (aw_file (sg_writer e)) k c \<and>
    (\<forall>h k'. dk_live crc32 (sg_kv e) h = Some k' \<longrightarrow> kv_span k' \<inter> kv_span k = {}) \<and>
    kv_span k \<inter> free_bytes (sg_void_manager e) = {} \<and> length (kv_hash k) = 32 \<and> \<not> is_deleted k"

lemma dk_live_upd: "\<not> is_deleted k \<Longrightarrow> dk_raw crc32 s' = (dk_raw crc32 s)(h \<mapsto> k) \<Longrightarrow>
    dk_live crc32 s' = (dk_live crc32 s)(h \<mapsto> k)"
  by (rule ext) (simp add: dk_live_def live_def)

definition new_kv_entry :: "u8 \<Rightarrow> bytes \<Rightarrow> nat \<Rightarrow> u32 \<Rightarrow> kv_entry" where
  "new_kv_entry ty key off tot = \<lparr> kv_type_flags = ty, kv_hash = key, kv_offset = word_of_nat off, kv_total_length = tot \<rparr>"

lemma index_insert_ok:
  assumes ok: "engine_ok crc32 blake3 m e"
    and fresh: "fresh_entry crc32 blake3 e (new_kv_entry ty key off tot) c"
  shows "case index_insert crc32 ty key off tot e of
      Inr e' \<Rightarrow> engine_ok crc32 blake3 (m(key \<mapsto> c)) e' \<and> wal_hi e' = wal_hi e \<and>
        (\<forall>q x. fresh_entry crc32 blake3 e q x \<and> kv_span (new_kv_entry ty key off tot) \<inter> kv_span q = {} \<longrightarrow>
          fresh_entry crc32 blake3 e' q x)
    | Inl err \<Rightarrow> dk_stage (sg_kv e) + 1 = length KV_STAGE_SIZES"
proof -
  define k where "k = new_kv_entry ty key off tot"
  note d = engine_okD [OF ok]
  have f: "kv_span k \<subseteq> {wal_lo e ..< wal_hi e}" "holds blake3 (aw_file (sg_writer e)) k c"
    "\<And>h k'. dk_live crc32 (sg_kv e) h = Some k' \<Longrightarrow> kv_span k' \<inter> kv_span k = {}"
    "kv_span k \<inter> free_bytes (sg_void_manager e) = {}" "length (kv_hash k) = 32" "\<not> is_deleted k"
    using fresh unfolding fresh_entry_def k_def by blast+
  have key: "kv_hash k = key" by (simp add: k_def new_kv_entry_def)
  have "length (kv_hash k) = dk_hl (sg_kv e)" using f(5) d(1) by (simp add: layout_ok_def hash_length_def)
  note ins = insert_correct [OF d(3) this]
  show ?thesis
  proof (cases "disk_kv_insert crc32 (sg_kv e) k")
    case (Inl err)
    then show ?thesis using ins by (simp add: index_insert_def k_def new_kv_entry_def)
  next
    case (Inr s)
    then have s: "dk_ok crc32 s" "same_layout (sg_kv e) s" "log_same (sg_kv e) s"
      and raw: "dk_raw crc32 s = (dk_raw crc32 (sg_kv e))(kv_hash k \<mapsto> k)"
      using ins by simp_all
    have live: "dk_live crc32 s = (dk_live crc32 (sg_kv e))(kv_hash k \<mapsto> k)" by (rule dk_live_upd [OF f(6) raw])
    have idx: "index_ok blake3 (m(kv_hash k \<mapsto> c)) (dk_live crc32 s) (aw_file (sg_writer e)) (wal_lo e) (wal_hi e)"
      unfolding live by (rule index_ok_insert [OF d(5) f(1-3)])
    have vds: "voids_ok (dk_live crc32 s) (sg_void_manager e) (wal_hi e)"
      using d(6) f(4) unfolding live voids_ok_def by simp
    have run: "index_insert crc32 ty key off tot e = Inr (with_kv s e)"
      using Inr by (simp add: index_insert_def k_def new_kv_entry_def)
    have "fresh_entry crc32 blake3 (with_kv s e) q x" if q: "fresh_entry crc32 blake3 e q x" "kv_span k \<inter> kv_span q = {}" for q x
    proof -
      have h: "holds blake3 (aw_file (sg_writer e)) q x" "kv_span q \<subseteq> {wal_lo e ..< wal_hi e}"
        using q(1) by (simp_all add: fresh_entry_def)
      have "holds blake3 (dk_db_file s) q x"
        by (rule holds_file [OF h(1)]) (rule log_same_read [OF ok s(3) span_bounds [OF h]])
      moreover have "kv_span k' \<inter> kv_span q = {}" if "dk_live crc32 s y = Some k'" for y k'
        using that q by (simp add: live fresh_entry_def split: if_splits)
      ultimately show ?thesis
        using q(1) kv_phase(2-5) [OF ok s idx vds] s(2)
        by (simp add: fresh_entry_def with_kv_def same_layout_def)
    qed
    then show ?thesis using kv_phase(1,2) [OF ok s idx vds] unfolding run key k_def [symmetric] by simp
  qed
qed

section \<open>Writing an entry\<close>

lemma layout_ok_updates [simp]:
  "layout_ok (e\<lparr> sg_void_manager := vm \<rparr>) = layout_ok e" "layout_ok (e\<lparr> sg_gc_recheck := g \<rparr>) = layout_ok e"
  "layout_ok (e\<lparr> sg_last_published_hot_tail_offset := n \<rparr>) = layout_ok e"
  by (simp_all add: layout_ok_def)

lemma engine_ok_voids:
  assumes "engine_ok crc32 blake3 m e" "voids_ok (dk_live crc32 (sg_kv e)) vm (wal_hi e)"
  shows "engine_ok crc32 blake3 m (e\<lparr> sg_void_manager := vm \<rparr>)"
  using assms by (simp add: engine_ok_def)

lemma new_kv_entry_span: "off < 2 ^ 64 \<Longrightarrow> kv_span (new_kv_entry ty key off tot) = {off ..< off + unat tot}"
  by (simp add: kv_span_def new_kv_entry_def unat_word_of_nat_u64)

lemma entry_phase:
  assumes hl: "\<forall>bs. length (blake3 bs) = 32" and ok: "engine_ok crc32 blake3 m e"
    and b: "build_entry_header blake3 now et key v fl co ver (sg_writer e) = Inr (h, w1)"
    and w': "aw_file w' = write_entry_bytes (aw_file w1) off h key v" "same_layout_header (sg_writer e) w'"
      "wal_hi e \<le> aw_offset w'" "aw_offset w' < 2 ^ 64"
    and place: "wal_lo e \<le> off" "off + unat (eh_total_length h) \<le> aw_offset w'"
      "\<And>x k. dk_live crc32 (sg_kv e) x = Some k \<Longrightarrow> kv_span k \<inter> {off ..< off + unat (eh_total_length h)} = {}"
      "{off ..< off + unat (eh_total_length h)} \<inter> free_bytes (sg_void_manager e) = {}"
    and ty: "length key = 32" "\<not> is_deleted (new_kv_entry ty key off (eh_total_length h))"
  shows "engine_ok crc32 blake3 m (advance_hot_tail (with_writer w' e))"
    "fresh_entry crc32 blake3 (advance_hot_tail (with_writer w' e)) (new_kv_entry ty key off (eh_total_length h)) (Content et fl co ver v)"
    "dk_live crc32 (sg_kv (advance_hot_tail (with_writer w' e))) = dk_live crc32 (sg_kv e)"
    "wal_lo (advance_hot_tail (with_writer w' e)) = wal_lo e"
    "\<exists>bs. aw_file w' = write_at (aw_file (sg_writer e)) off bs"
proof -
  let ?bs = "entry_bytes h key v"
  note bh = build_entry_header_Inr [OF hl b]
  have len: "length ?bs = unat (eh_total_length h)" "0 < unat (eh_total_length h)"
    using bh(1) entry_span_pos [of "eh_hash_algo h"] by (simp_all add: entry_ok_def length_entry_bytes)
  have fl: "aw_file w' = write_at (aw_file (sg_writer e)) off ?bs" by (simp add: w'(1) write_entry_bytes_eq bh(3))
  have ne: "?bs \<noteq> []" using len by auto
  have pl: "off + length ?bs \<le> HEADER_REGION_SIZE \<or> wal_lo e \<le> off \<and>
      (\<forall>x k. dk_live crc32 (sg_kv e) x = Some k \<longrightarrow> kv_span k \<inter> {off ..< off + length ?bs} = {})"
    using place(1,3) len(1) by simp
  note p = writer_phase [OF ok fl ne w'(2-4) pl]
  show "engine_ok crc32 blake3 m (advance_hot_tail (with_writer w' e))" by (rule p(1))
  show "dk_live crc32 (sg_kv (advance_hot_tail (with_writer w' e))) = dk_live crc32 (sg_kv e)" by (rule p(2))
  show "wal_lo (advance_hot_tail (with_writer w' e)) = wal_lo e" by (rule p(4))
  show "\<exists>bs. aw_file w' = write_at (aw_file (sg_writer e)) off bs" using fl by blast
  have off: "off < 2 ^ 64" using place(2) w'(4) len(2) by simp
  have "holds blake3 (aw_file w') (new_kv_entry ty key off (eh_total_length h)) (Content et fl co ver v)"
    using at_file_write [of "aw_file (sg_writer e)" off ?bs] bh(1,2) off
    unfolding holds_def fl by (intro exI [of _ h] exI [of _ v]) (simp add: new_kv_entry_def content_of_def unat_word_of_nat_u64)
  then show "fresh_entry crc32 blake3 (advance_hot_tail (with_writer w' e)) (new_kv_entry ty key off (eh_total_length h))
      (Content et fl co ver v)"
    using place ty len unfolding fresh_entry_def p(2-5) new_kv_entry_span [OF off] by (simp add: new_kv_entry_def)
qed

text \<open>Behind the log.\<close>

lemma append_phase:
  assumes hl: "\<forall>bs. length (blake3 bs) = 32" and ok: "engine_ok crc32 blake3 m e"
    and a: "append_entry_with_compression_and_version blake3 now et key v fl co ver (sg_writer e) = Inr (off, tot, w')"
    and hi: "aw_offset w' < 2 ^ 64" and ty: "length key = 32" "\<not> is_deleted (new_kv_entry ty key off tot)"
  shows "engine_ok crc32 blake3 m (advance_hot_tail (with_writer w' e))"
    "fresh_entry crc32 blake3 (advance_hot_tail (with_writer w' e)) (new_kv_entry ty key off tot) (Content et fl co ver v)"
    "off = wal_hi e" "aw_offset w' = off + unat tot"
    "dk_live crc32 (sg_kv (advance_hot_tail (with_writer w' e))) = dk_live crc32 (sg_kv e)"
    "wal_lo (advance_hot_tail (with_writer w' e)) = wal_lo e"
    "\<exists>bs. aw_file w' = write_at (aw_file (sg_writer e)) off bs"
proof -
  note d = engine_okD [OF ok]
  obtain h w1 where b: "build_entry_header blake3 now et key v fl co ver (sg_writer e) = Inr (h, w1)"
    and r: "off = aw_offset w1" "tot = eh_total_length h"
    and w': "w' = w1\<lparr> aw_file := write_entry_bytes (aw_file w1) off h key v, aw_offset := off + unat tot,
            aw_header := (aw_header w1)\<lparr> fh_entry_count := fh_entry_count (aw_header w1) + 1 \<rparr> \<rparr>"
    using a by (auto simp: append_entry_with_compression_and_version_def Let_def)
  have w1: "w1 = (sg_writer e)\<lparr> aw_header := (aw_header (sg_writer e))\<lparr> fh_updated_at := eh_timestamp h \<rparr> \<rparr>"
    by (rule build_entry_header_Inr(3) [OF hl b])
  show off: "off = wal_hi e" "aw_offset w' = off + unat tot" by (simp_all add: r(1) w1 w')
  have "kv_span k \<inter> {off ..< off + unat (eh_total_length h)} = {}" if "dk_live crc32 (sg_kv e) x = Some k" for x k
    using index_okD(2) [OF d(5) that] by (auto simp: off(1))
  moreover have "{off ..< off + unat (eh_total_length h)} \<inter> free_bytes (sg_void_manager e) = {}"
    using d(6) by (auto simp: off(1) voids_ok_def)
  ultimately show "engine_ok crc32 blake3 m (advance_hot_tail (with_writer w' e))"
    "fresh_entry crc32 blake3 (advance_hot_tail (with_writer w' e)) (new_kv_entry ty key off tot) (Content et fl co ver v)"
    "dk_live crc32 (sg_kv (advance_hot_tail (with_writer w' e))) = dk_live crc32 (sg_kv e)"
    "wal_lo (advance_hot_tail (with_writer w' e)) = wal_lo e"
    "\<exists>bs. aw_file w' = write_at (aw_file (sg_writer e)) off bs"
    using entry_phase [OF hl ok b, of w' off ty] hi d(4) ty off
    by (simp_all add: w' w1 r(2) same_layout_header_def)
qed

text \<open>In a void or behind the log.\<close>

lemma write_slot_ok:
  assumes hl: "\<forall>bs. length (blake3 bs) = 32" and ok: "engine_ok crc32 blake3 m e"
    and a: "write_slot blake3 now et key v fl co ver e = Some (Inr ((off, tot, changed), e1))"
    and hi: "wal_hi e1 < 2 ^ 64" and ty: "length key = 32" "\<And>x. \<not> is_deleted (new_kv_entry ty key off x)"
  shows "engine_ok crc32 blake3 m (advance_hot_tail e1)"
    "fresh_entry crc32 blake3 (advance_hot_tail e1) (new_kv_entry ty key off tot) (Content et fl co ver v)"
proof -
  note d = engine_okD [OF ok]
  have algo: "sg_hash_algo e = Blake3_256" "fh_hash_algo (aw_header (sg_writer e)) = Blake3_256"
    using d(1) by (simp_all add: layout_ok_def)
  obtain n where n: "compute_total_length Blake3_256 (length key) (length v) = Inr n"
    using a by (auto simp: write_slot_def algo)
  have n': "unat n = header_size Blake3_256 + length key + length v" by (rule compute_total_length_exact [OF n])
  then have "0 < n" using entry_span_pos [of Blake3_256] by (simp add: word_less_nat_alt)
  from consume_void_correct [OF d(6) this, of "wal_lo e" False]
  obtain slot c vm where s: "(if can_reuse_void_for_entry et then consume_void n (wal_lo e) (wal_hi e) (sg_void_manager e) False
          else Some (None, False, sg_void_manager e)) = Some (slot, c, vm)"
    and vm: "voids_ok (dk_live crc32 (sg_kv e)) vm (wal_hi e)" "slot_ok n (wal_lo e) (wal_hi e) (sg_void_manager e) vm slot"
    using d(6) by (cases "can_reuse_void_for_entry et") (auto simp: slot_ok_def)
  define e0 where "e0 = e\<lparr> sg_void_manager := vm \<rparr>"
  have ok0: "engine_ok crc32 blake3 m e0" unfolding e0_def by (rule engine_ok_voids [OF ok vm(1)])
  have e0: "sg_writer e0 = sg_writer e" "sg_kv e0 = sg_kv e" "sg_void_manager e0 = vm" by (simp_all add: e0_def)
  have run: "write_slot blake3 now et key v fl co ver e =
    (case slot of
       Some (void_offset, _) \<Rightarrow>
         fal_bind (lift_result (write_entry_at_nosync_full_with_version blake3 now (unat void_offset) et key v fl co ver (sg_writer e)))
           (\<lambda>(written, w). Some (Inr ((unat void_offset, written, c), with_writer w e0)))
     | None \<Rightarrow>
         fal_bind (lift_result (append_entry_with_compression_and_version blake3 now et key v fl co ver (sg_writer e)))
           (\<lambda>(offset, total_length, w). Some (Inr ((offset, total_length, c), with_writer w e0))))"
    unfolding write_slot_def algo(1) n fal_bind_simps d(7) prod.case s option.case Let_def
    by (cases slot) (simp_all add: e0_def)
  have "engine_ok crc32 blake3 m (advance_hot_tail e1) \<and>
    fresh_entry crc32 blake3 (advance_hot_tail e1) (new_kv_entry ty key off tot) (Content et fl co ver v)"
  proof (cases slot)
    case None
    then obtain w' where w': "append_entry_with_compression_and_version blake3 now et key v fl co ver (sg_writer e0) = Inr (off, tot, w')"
      "e1 = with_writer w' e0"
      using a unfolding run by (auto simp: e0(1))
    then show ?thesis using append_phase(1,2) [OF hl ok0 w'(1) _ ty(1), of ty] hi ty(2) by (simp add: with_writer_def)
  next
    case (Some p)
    obtain vo vs where p: "p = (vo, vs)" by fastforce
    obtain w' h w1 where b: "build_entry_header blake3 now et key v fl co ver (sg_writer e0) = Inr (h, w1)"
      and r: "off = unat vo" "tot = eh_total_length h" "e1 = with_writer w' e0"
      "w' = w1\<lparr> aw_file := write_entry_bytes (aw_file w1) (unat vo) h key v \<rparr>"
      using a unfolding run by (auto simp: Some p e0(1) write_entry_at_nosync_full_with_version_def)
    note bh = build_entry_header_Inr [OF hl b]
    have "eh_hash_algo h = Blake3_256"
      using bh(1) by (cases "eh_hash_algo h") (simp_all add: entry_ok_def entry_verify_def entry_compute_hash_def compute_hash_algo_def)
    then have tot: "unat (eh_total_length h) = unat n" using bh(1) n' by (simp add: entry_ok_def)
    have sl: "wal_lo e \<le> unat vo" "unat vo + unat n \<le> wal_hi e" "{unat vo ..< unat vo + unat n} \<subseteq> free_bytes (sg_void_manager e)"
      "{unat vo ..< unat vo + unat n} \<inter> free_bytes vm = {}"
      using vm(2) by (simp_all add: Some p slot_ok_def)
    have away: "kv_span k \<inter> {off ..< off + unat (eh_total_length h)} = {}" if "dk_live crc32 (sg_kv e0) x = Some k" for x k
    proof -
      have "kv_span k \<inter> free_bytes (sg_void_manager e) = {}" using d(6) that by (simp add: voids_ok_def e0)
      then show ?thesis using sl(3) unfolding r(1) tot by blast
    qed
    have hi': "aw_offset w' = wal_hi e0" by (simp add: r(4) bh(3))
    show ?thesis
      unfolding r(2,3)
      by (intro conjI entry_phase [OF hl ok0 b])
        (use sl hi' d(2) ty away in \<open>simp_all add: r e0 bh(3) tot same_layout_header_def\<close>)
  qed
  then show "engine_ok crc32 blake3 m (advance_hot_tail e1)"
    "fresh_entry crc32 blake3 (advance_hot_tail e1) (new_kv_entry ty key off tot) (Content et fl co ver v)" by simp_all
qed

end
