(* ===== verification/Storage_Refinement.thy ===== *)
theory Storage_Refinement
  imports Storage_Steps
begin

text \<open>
  The operations of the engine against the map of stored entries, one by one and in sequence.  Growth of the
  index block is left out: the statements ask that no operation triggers it.
\<close>

unbundle bit_operations_syntax

section \<open>Operations that do not touch the entries\<close>

lemma engine_ok_updates [simp]:
  "engine_ok crc32 blake3 m (e\<lparr> sg_gc_recheck := g \<rparr>) = engine_ok crc32 blake3 m e"
  "engine_ok crc32 blake3 m (e\<lparr> sg_last_published_hot_tail_offset := n \<rparr>) = engine_ok crc32 blake3 m e"
  by (simp_all add: engine_ok_def)

lemma dk_ok_counters:
  "dk_ok crc32 (s\<lparr> dk_needs_expansion := x \<rparr>) = dk_ok crc32 s" "dk_raw crc32 (s\<lparr> dk_needs_expansion := x \<rparr>) = dk_raw crc32 s"
  "dk_ok crc32 (s\<lparr> dk_transaction_depth := d \<rparr>) = dk_ok crc32 s" "dk_raw crc32 (s\<lparr> dk_transaction_depth := d \<rparr>) = dk_raw crc32 s"
  by (simp_all add: dk_ok_def dk_store_ok_def dk_published_def dk_pages_published_def dk_raw_def)

lemma engine_ok_counters [simp]:
  "engine_ok crc32 blake3 m (e\<lparr> sg_kv := (sg_kv e)\<lparr> dk_needs_expansion := x \<rparr> \<rparr>) = engine_ok crc32 blake3 m e"
  "engine_ok crc32 blake3 m (e\<lparr> sg_kv := (sg_kv e)\<lparr> dk_transaction_depth := d \<rparr> \<rparr>) = engine_ok crc32 blake3 m e"
  by (simp_all add: engine_ok_def layout_ok_def dk_ok_counters dk_live_def [abs_def])

lemma sync_voids_ok:
  assumes "engine_ok crc32 blake3 m e"
  shows "engine_ok crc32 blake3 m (sync_voids_to_kv_writer e)" "wal_hi (sync_voids_to_kv_writer e) = wal_hi e"
proof -
  obtain v where v: "set_pending_voids (sg_kv e) (void_records (sg_void_manager e)) = (sg_kv e)\<lparr> dk_pending_voids := v \<rparr>"
    by (simp add: set_pending_voids_def sanitize_pending_voids_def)
  have "dk_ok crc32 ((sg_kv e)\<lparr> dk_pending_voids := v \<rparr>)" "same_layout (sg_kv e) ((sg_kv e)\<lparr> dk_pending_voids := v \<rparr>)"
    "log_same (sg_kv e) ((sg_kv e)\<lparr> dk_pending_voids := v \<rparr>)"
    "dk_raw crc32 ((sg_kv e)\<lparr> dk_pending_voids := v \<rparr>) = dk_raw crc32 (sg_kv e)"
    using engine_okD(3) [OF assms]
    by (simp_all add: dk_ok_def dk_store_ok_def dk_published_def dk_pages_published_def dk_raw_def same_layout_def log_same_def)
  from kv_phase_same [OF assms this]
  show "engine_ok crc32 blake3 m (sync_voids_to_kv_writer e)" "wal_hi (sync_voids_to_kv_writer e) = wal_hi e"
    by (simp_all only: sync_voids_to_kv_writer_def v)
qed

lemma hot_flush_ok:
  assumes ok: "engine_ok crc32 blake3 m e" and s: "s = flush_hot_buffer crc32 (sg_kv e) \<or> s = force_flush_hot_buffer crc32 (sg_kv e)"
  shows "engine_ok crc32 blake3 m (with_kv s e)" "wal_hi (with_kv s e) = wal_hi e"
proof -
  have st: "dk_store_ok crc32 (sg_kv e)" "dk_published crc32 (sg_kv e)" using engine_okD(3) [OF ok] by (simp_all add: dk_ok_def)
  have i: "same_index (sg_kv e) s" using s same_index_hot [OF st(1)] by auto
  have "dk_ok crc32 s" "same_layout (sg_kv e) s" "log_same (sg_kv e) s" "dk_raw crc32 s = dk_raw crc32 (sg_kv e)"
    using same_index_ok [OF i st(1)] same_index_layout [OF i] st(2) by (simp_all add: dk_ok_def)
  from kv_phase_same [OF ok this]
  show "engine_ok crc32 blake3 m (with_kv s e)" "wal_hi (with_kv s e) = wal_hi e" by simp_all
qed

lemma publish_header_ok:
  assumes "engine_ok crc32 blake3 m e" "publish_header crc32 e = Some e'"
  shows "engine_ok crc32 blake3 m e'" "wal_hi e' = wal_hi e"
  using assms(2) header_phase [OF assms(1)] by (auto simp: publish_header_def Let_def)

lemma put_head_ok:
  assumes ok: "engine_ok crc32 blake3 m e" and p: "put_head crc32 now hh e = Some e'"
  shows "engine_ok crc32 blake3 m e'" "wal_hi e' = wal_hi e"
proof -
  have "engine_ok crc32 blake3 m e' \<and> wal_hi e' = wal_hi e"
  proof (cases "dk_transaction_depth (sg_kv e) > 0")
    case True
    then show ?thesis
      using ok p by (auto simp: put_head_def Let_def engine_ok_def layout_ok_def with_writer_def set_header_in_memory_def)
  next
    case False
    then show ?thesis
      using p header_phase [OF ok] by (auto simp: put_head_def Let_def update_file_header_eq)
  qed
  then show "engine_ok crc32 blake3 m e'" "wal_hi e' = wal_hi e" by simp_all
qed

section \<open>Stores\<close>

lemma entry_type_not_deleted: "\<not> is_deleted (new_kv_entry (entry_type_to_kv_type et) key off tot)"
  by (cases et) (simp_all add: is_deleted_def new_kv_entry_def entry_type_to_kv_type_def kv_type_defs KV_FLAG_DELETED_def)

lemma advance_wal_hi [simp]: "wal_hi (advance_hot_tail e) = wal_hi e"
  by (simp add: advance_hot_tail_def with_kv_def)

lemma index_insert_hi: "index_insert crc32 ty key off tot e = Inr e' \<Longrightarrow> wal_hi e' = wal_hi e"
  by (auto simp: index_insert_def with_kv_def)

lemma sync_voids_hi: "wal_hi (sync_voids_to_kv_writer e) = wal_hi e"
  by (simp add: sync_voids_to_kv_writer_def with_kv_def)

lemma store_locked_ok:
  assumes hl: "\<forall>bs. length (blake3 bs) = 32" and ok: "engine_ok crc32 blake3 m e"
    and r: "store_entry_locked crc32 blake3 now et key v fl co ver e = Some (Inr (off, e'))"
    and hi: "wal_hi e' < 2 ^ 64" and key: "length key = 32"
  shows "engine_ok crc32 blake3 (m(key \<mapsto> (Content et fl co ver v))) e'"
proof -
  obtain tot changed e1 e2 where w: "write_slot blake3 now et key v fl co ver e = Some (Inr ((off, tot, changed), e1))"
    and i: "index_insert crc32 (entry_type_to_kv_type et) key off tot (advance_hot_tail e1) = Inr e2"
    and e': "e' = (if changed then sync_voids_to_kv_writer e2 else e2)"
    using r by (auto simp: store_entry_locked_def)
  have "wal_hi e2 = wal_hi e1" using index_insert_hi [OF i] by simp
  then have "wal_hi e1 < 2 ^ 64" using hi by (simp add: e' sync_voids_hi split: if_splits)
  note p = write_slot_ok [OF hl ok w this key entry_type_not_deleted [of et]]
  have "engine_ok crc32 blake3 (m(key \<mapsto> (Content et fl co ver v))) e2" using index_insert_ok [OF p] i by simp
  then show ?thesis using sync_voids_ok(1) by (simp add: e')
qed

lemma store_typed_ok:
  assumes hl: "\<forall>bs. length (blake3 bs) = 32" and ok: "engine_ok crc32 blake3 m e"
    and r: "store_entry_typed crc32 blake3 now et key v ty e = Some (Inr (off, e'))"
    and hi: "wal_hi e' < 2 ^ 64" and key: "length key = 32" and ty: "ty AND KV_FLAG_DELETED = 0"
  shows "engine_ok crc32 blake3 (m(key \<mapsto> (Content et 0 NoCompression CURRENT_ENTRY_VERSION v))) e'"
proof -
  obtain tot w where a: "append_entry_with_compression_and_version blake3 now et key v 0 NoCompression CURRENT_ENTRY_VERSION (sg_writer e)
      = Inr (off, tot, w)"
    and i: "index_insert crc32 ty key off tot (advance_hot_tail (with_writer w e)) = Inr e'"
    using r engine_okD(1) [OF ok]
    by (auto simp: store_entry_typed_def append_entry_def append_entry_with_compression_def)
  have hi': "aw_offset w < 2 ^ 64" using hi index_insert_hi [OF i] by (simp add: with_writer_def)
  have "\<not> is_deleted (new_kv_entry ty key off tot)" using ty by (simp add: is_deleted_def new_kv_entry_def)
  note p = append_phase(1,2) [OF hl ok a hi' key this]
  show ?thesis using index_insert_ok [OF p] i by simp
qed

section \<open>Batches\<close>

definition batch_content :: "batch_entry \<Rightarrow> content" where
  "batch_content b = Content (be_entry_type b) 0 NoCompression CURRENT_ENTRY_VERSION (be_value b)"

definition batch_kv :: "batch_entry \<times> nat \<times> u32 \<Rightarrow> kv_entry" where
  "batch_kv p = (case p of (b, off, tot) \<Rightarrow> new_kv_entry (be_kv_type b) (be_key b) off tot)"

definition batch_entry_ok :: "batch_entry \<Rightarrow> bool" where
  "batch_entry_ok b \<longleftrightarrow> length (be_key b) = 32 \<and> be_kv_type b AND KV_FLAG_DELETED = 0"

text \<open>The appended entries: in place, behind everything there was, and in their order.\<close>

definition batch_placed ::
  "(bytes \<Rightarrow> u32) \<Rightarrow> (bytes \<Rightarrow> bytes) \<Rightarrow> storage_engine \<Rightarrow> nat \<Rightarrow> (batch_entry \<times> nat \<times> u32) list \<Rightarrow> bool" where
  "batch_placed crc32 blake3 e lo ps \<longleftrightarrow>
    (\<forall>p\<in>set ps. fresh_entry crc32 blake3 e (batch_kv p) (batch_content (fst p)) \<and> kv_span (batch_kv p) \<subseteq> {lo..}) \<and>
    sorted_wrt (\<lambda>p q. kv_span (batch_kv p) \<inter> kv_span (batch_kv q) = {}) ps"

lemma batch_placed_Cons:
  "batch_placed crc32 blake3 e lo (p # ps) \<longleftrightarrow> fresh_entry crc32 blake3 e (batch_kv p) (batch_content (fst p)) \<and>
    kv_span (batch_kv p) \<subseteq> {lo..} \<and> (\<forall>q\<in>set ps. kv_span (batch_kv p) \<inter> kv_span (batch_kv q) = {}) \<and>
    batch_placed crc32 blake3 e lo ps"
  unfolding batch_placed_def by auto

lemma batch_placed_mono:
  assumes "batch_placed crc32 blake3 e lo ps" "lo' \<le> lo"
  shows "batch_placed crc32 blake3 e lo' ps"
  using assms(1)
proof (induction ps)
  case (Cons p ps)
  have "{lo..} \<subseteq> {lo'..}" using assms(2) by simp
  then show ?case using Cons subset_trans [of "kv_span (batch_kv p)" "{lo..}" "{lo'..}"] by (simp add: batch_placed_Cons)
qed (simp add: batch_placed_def)

lemma append_batch_hi:
  "append_batch blake3 now i bs e = Inr (ps, e') \<Longrightarrow> (\<forall>bs. length (blake3 bs) = 32) \<Longrightarrow> wal_hi e \<le> wal_hi e'"
proof (induction bs arbitrary: e ps i)
  case (Cons b bs)
  then obtain off tot w qs where a: "append_entry blake3 (now i) (be_entry_type b) (be_key b) (be_value b) 0 (sg_writer e) = Inr (off, tot, w)"
    and r: "append_batch blake3 now (Suc i) bs (advance_hot_tail (with_writer w e)) = Inr (qs, e')"
    by auto
  have "aw_offset w = wal_hi e + unat tot"
    using a build_entry_header_Inr(3) [OF Cons.prems(2)]
    by (fastforce simp: append_entry_def append_entry_with_compression_def append_entry_with_compression_and_version_def Let_def)
  then show ?case using Cons.IH [OF r Cons.prems(2)] by (simp add: with_writer_def)
qed simp

lemma fresh_entry_keep:
  assumes f: "fresh_entry crc32 blake3 e k c" and k: "kv_span k \<subseteq> {..<hi}"
    and e': "dk_live crc32 (sg_kv e') = dk_live crc32 (sg_kv e)" "sg_void_manager e' = sg_void_manager e"
      "wal_lo e' = wal_lo e" "hi \<le> wal_hi e'"
    and same: "\<And>o1 n. o1 + n \<le> hi \<Longrightarrow> o1 + n \<le> length (aw_file (sg_writer e)) \<Longrightarrow>
      read_exact (aw_file (sg_writer e')) o1 n = read_exact (aw_file (sg_writer e)) o1 n"
  shows "fresh_entry crc32 blake3 e' k c"
proof -
  have h: "holds blake3 (aw_file (sg_writer e)) k c" and s: "kv_span k \<subseteq> {wal_lo e ..< wal_hi e}"
    using f by (simp_all add: fresh_entry_def)
  have "kv_span k \<subseteq> {0 ..< hi}" using k by (simp add: lessThan_atLeast0)
  then have "holds blake3 (aw_file (sg_writer e')) k c"
    by (intro holds_file [OF h] same) (rule span_bounds(2) [OF h])
  moreover have "kv_span k \<subseteq> {wal_lo e' ..< wal_hi e'}" using s k e'(3,4) by fastforce
  ultimately show ?thesis using f e'(1,2) by (simp add: fresh_entry_def)
qed

lemma append_entry_full:
  "append_entry blake3 now et key v fl w =
    append_entry_with_compression_and_version blake3 now et key v fl NoCompression CURRENT_ENTRY_VERSION w"
  by (simp add: append_entry_def append_entry_with_compression_def)

lemma append_batch_ok:
  assumes hl: "\<forall>bs. length (blake3 bs) = 32"
  shows "engine_ok crc32 blake3 m e \<Longrightarrow> append_batch blake3 now i bs e = Inr (ps, e') \<Longrightarrow> wal_hi e' < 2 ^ 64 \<Longrightarrow>
    \<forall>b\<in>set bs. batch_entry_ok b \<Longrightarrow>
    engine_ok crc32 blake3 m e' \<and> length ps = length bs \<and> dk_live crc32 (sg_kv e') = dk_live crc32 (sg_kv e) \<and>
    sg_void_manager e' = sg_void_manager e \<and> wal_lo e' = wal_lo e \<and>
    (\<forall>o1 n. o1 + n \<le> wal_hi e \<and> o1 + n \<le> length (aw_file (sg_writer e)) \<longrightarrow>
      read_exact (aw_file (sg_writer e')) o1 n = read_exact (aw_file (sg_writer e)) o1 n) \<and>
    batch_placed crc32 blake3 e' (wal_hi e) (zip bs ps)"
proof (induction bs arbitrary: e ps i)
  case Nil
  then show ?case by (simp add: batch_placed_def)
next
  case (Cons b bs)
  define et key v ty where b_defs: "et = be_entry_type b" "key = be_key b" "v = be_value b" "ty = be_kv_type b"
  obtain off tot w qs where a: "append_entry_with_compression_and_version blake3 (now i) et key v 0 NoCompression
      CURRENT_ENTRY_VERSION (sg_writer e) = Inr (off, tot, w)"
    and r: "append_batch blake3 now (Suc i) bs (advance_hot_tail (with_writer w e)) = Inr (qs, e')"
    and ps: "ps = (off, tot) # qs"
    using Cons.prems(2) by (auto simp: append_entry_full b_defs)
  define e1 where "e1 = advance_hot_tail (with_writer w e)"
  have w: "sg_writer e1 = w" "sg_void_manager e1 = sg_void_manager e"
    by (simp_all add: e1_def advance_hot_tail_def with_kv_def with_writer_def set_hot_tail_offset_def)
  have le: "wal_hi e1 \<le> wal_hi e'" using append_batch_hi [OF r hl] by (simp add: e1_def)
  have hi: "aw_offset w < 2 ^ 64" using le Cons.prems(3) by (simp add: w)
  have bo: "length key = 32" "\<not> is_deleted (new_kv_entry ty key off tot)"
    using Cons.prems(4) by (simp_all add: batch_entry_ok_def b_defs is_deleted_def new_kv_entry_def)
  note p = append_phase [OF hl Cons.prems(1) a hi bo, folded e1_def]
  obtain bs' where fl: "aw_file w = write_at (aw_file (sg_writer e)) off bs'" using p(7) by blast
  have IH: "engine_ok crc32 blake3 m e'" "length qs = length bs" "dk_live crc32 (sg_kv e') = dk_live crc32 (sg_kv e1)"
    "sg_void_manager e' = sg_void_manager e1" "wal_lo e' = wal_lo e1"
    "\<And>o1 n. o1 + n \<le> wal_hi e1 \<Longrightarrow> o1 + n \<le> length (aw_file (sg_writer e1)) \<Longrightarrow>
      read_exact (aw_file (sg_writer e')) o1 n = read_exact (aw_file (sg_writer e1)) o1 n"
    "batch_placed crc32 blake3 e' (wal_hi e1) (zip bs qs)"
    using Cons.IH [OF p(1) r [folded e1_def] Cons.prems(3)] Cons.prems(4) by simp_all
  have kv: "batch_kv (b, off, tot) = new_kv_entry ty key off tot"
    "batch_content b = Content et 0 NoCompression CURRENT_ENTRY_VERSION v"
    by (simp_all add: batch_kv_def batch_content_def b_defs)
  have off: "off < 2 ^ 64" using p(4) hi by simp
  have span: "kv_span (batch_kv (b, off, tot)) = {wal_hi e ..< wal_hi e1}"
    unfolding kv(1) new_kv_entry_span [OF off] using p(3,4) by (simp add: w)
  have "fresh_entry crc32 blake3 e' (batch_kv (b, off, tot)) (batch_content b)"
    by (rule fresh_entry_keep [OF p(2) [folded kv] _ IH(3-5) le IH(6)]) (auto simp: span)
  moreover have "kv_span (batch_kv (b, off, tot)) \<inter> kv_span (batch_kv q) = {}" if "q \<in> set (zip bs qs)" for q
  proof -
    have "kv_span (batch_kv q) \<subseteq> {wal_hi e1..}" using IH(7) that by (simp add: batch_placed_def)
    then show ?thesis unfolding span by fastforce
  qed
  moreover have le1: "wal_hi e \<le> wal_hi e1" using p(3,4) by (simp add: w)
  ultimately have placed: "batch_placed crc32 blake3 e' (wal_hi e) (zip (b # bs) ps)"
    using batch_placed_mono [OF IH(7) le1] unfolding ps zip_Cons_Cons batch_placed_Cons by (auto simp: span)
  have "read_exact (aw_file (sg_writer e')) o1 n = read_exact (aw_file (sg_writer e)) o1 n"
    if "o1 + n \<le> wal_hi e" "o1 + n \<le> length (aw_file (sg_writer e))" for o1 n
    using that IH(6) [of o1 n] read_write_before [of o1 n off "aw_file (sg_writer e)" bs'] p(3) le1
    by (simp add: w fl)
  then show ?case using IH placed p(5,6) w(2) by (simp add: ps)
qed

definition put_batch :: "batch_entry list \<Rightarrow> (bytes \<Rightarrow> content option) \<Rightarrow> bytes \<Rightarrow> content option" where
  "put_batch bs m = fold (\<lambda>b m. m(be_key b \<mapsto> batch_content b)) bs m"

lemma put_batch_simps [simp]:
  "put_batch [] m = m" "put_batch (b # bs) m = put_batch bs (m(be_key b \<mapsto> batch_content b))"
  by (simp_all add: put_batch_def)

lemma index_batch_ok:
  "engine_ok crc32 blake3 m e \<Longrightarrow> batch_placed crc32 blake3 e lo ps \<Longrightarrow> index_batch crc32 ps e = Inr e' \<Longrightarrow>
    engine_ok crc32 blake3 (put_batch (map fst ps) m) e' \<and> wal_hi e' = wal_hi e"
proof (induction ps arbitrary: e m)
  case Nil
  then show ?case by simp
next
  case (Cons p ps)
  obtain b off tot where p: "p = (b, off, tot)" by (cases p) auto
  obtain e1 where i: "index_insert crc32 (be_kv_type b) (be_key b) off tot e = Inr e1"
    and r: "index_batch crc32 ps e1 = Inr e'"
    using Cons.prems(3) by (auto simp: p)
  have f: "fresh_entry crc32 blake3 e (new_kv_entry (be_kv_type b) (be_key b) off tot) (batch_content b)"
    using Cons.prems(2) by (simp add: batch_placed_def p batch_kv_def)
  have e1: "engine_ok crc32 blake3 (m(be_key b \<mapsto> batch_content b)) e1" "wal_hi e1 = wal_hi e"
    and keep: "\<And>q x. fresh_entry crc32 blake3 e q x \<Longrightarrow> kv_span (batch_kv p) \<inter> kv_span q = {} \<Longrightarrow> fresh_entry crc32 blake3 e1 q x"
    using index_insert_ok [OF Cons.prems(1) f] i by (simp_all add: p batch_kv_def)
  have "batch_placed crc32 blake3 e1 lo ps" using Cons.prems(2) keep by (simp add: batch_placed_def)
  from Cons.IH [OF e1(1) this r] show ?case using e1(2) by (simp add: p del: fun_upd_apply)
qed

lemma index_batch_hi: "index_batch crc32 ps e = Inr e' \<Longrightarrow> wal_hi e' = wal_hi e"
proof (induction ps arbitrary: e)
  case (Cons p ps)
  then show ?case by (cases p) (auto dest: index_insert_hi)
qed simp

lemma write_batch_ok:
  assumes hl: "\<forall>bs. length (blake3 bs) = 32" and ok: "engine_ok crc32 blake3 m e"
    and r: "write_batch_locked crc32 blake3 now bs e = Inr (offs, e')"
    and hi: "wal_hi e' < 2 ^ 64" and bs: "\<forall>b\<in>set bs. batch_entry_ok b"
  shows "engine_ok crc32 blake3 (put_batch bs m) e'"
proof -
  obtain ps e1 where a: "append_batch blake3 now 0 bs e = Inr (ps, e1)" and i: "index_batch crc32 (zip bs ps) e1 = Inr e'"
    using r by (auto simp: write_batch_locked_def)
  have "wal_hi e1 < 2 ^ 64" using index_batch_hi [OF i] hi by simp
  then have p: "engine_ok crc32 blake3 m e1" "length ps = length bs" "batch_placed crc32 blake3 e1 (wal_hi e) (zip bs ps)"
    using append_batch_ok [OF hl ok a _ bs] by simp_all
  then show ?thesis using index_batch_ok [OF p(1,3) i] by simp
qed

section \<open>Deletions\<close>

lemma dk_live_update_live:
  assumes "dk_raw crc32 s' = update_live g h (dk_raw crc32 s)" "\<And>e. is_deleted (g e)"
  shows "dk_live crc32 s' = dk_live crc32 s |` (- {h})"
proof (rule ext)
  fix x
  show "dk_live crc32 s' x = (dk_live crc32 s |` (- {h})) x"
    using assms by (cases "x = h") (auto simp: dk_live_def update_live_def live_def restrict_map_def split: option.splits if_splits)
qed

lemma dk_live_batch:
  "(\<lambda>x. live (fold (update_live with_deleted) hs r x)) = (\<lambda>x. live (r x)) |` (- set hs)"
proof (induction hs arbitrary: r)
  case Nil
  then show ?case by (simp add: restrict_map_def)
next
  case (Cons h hs)
  have "(\<lambda>x. live (update_live with_deleted h r x)) = (\<lambda>x. live (r x)) |` (- {h})"
    by (rule ext) (auto simp: update_live_def live_def restrict_map_def split: option.splits if_splits)
  moreover have "- {h} \<inter> - set hs = - set (h # hs)" by auto
  ultimately show ?case by (simp add: Cons.IH restrict_restrict)
qed

lemma log_same_file: "dk_db_file s' = dk_db_file s \<Longrightarrow> log_same s s'"
  by (simp add: log_same_def)

lemma mark_deleted_file:
  "dk_db_file (mark_deleted crc32 s h) = dk_db_file s" "dk_db_file (snd (disk_kv_update_flags crc32 s h fl)) = dk_db_file s"
  "dk_db_file (mark_deleted_batch crc32 s hs) = dk_db_file s"
proof -
  have "dk_db_file (mark_deleted_loop crc32 r hs s) = dk_db_file s" for r
    by (induction hs arbitrary: s) (simp_all add: Let_def split: option.split)
  then show "dk_db_file (mark_deleted_batch crc32 s hs) = dk_db_file s"
    by (simp add: mark_deleted_batch_def publish_buffer_only_def)
qed (simp_all add: mark_deleted_def disk_kv_update_flags_def publish_buffer_only_def Let_def split: option.split)

lemma update_flags_deleted: "is_deleted (k\<lparr> kv_type_flags := (kv_type_flags k AND 0x0F) OR (KV_FLAG_DELETED AND 0xF0) \<rparr>)"
proof -
  have "((kv_type_flags k AND 0x0F) OR (KV_FLAG_DELETED AND 0xF0)) AND KV_FLAG_DELETED = KV_FLAG_DELETED"
    by (simp add: KV_FLAG_DELETED_def bit.conj_disj_distrib2 and.assoc)
  then show ?thesis by (simp add: is_deleted_def KV_FLAG_DELETED_def)
qed

lemma mark_entry_deleted_ok:
  assumes ok: "engine_ok crc32 blake3 m e" and r: "mark_entry_deleted crc32 h e = Some (Inr (u, e'))"
  shows "engine_ok crc32 blake3 (m |` (- {h})) e'" "wal_hi e' = wal_hi e"
proof -
  note d = engine_okD [OF ok]
  define s where "s = snd (disk_kv_update_flags crc32 (sg_kv e) h KV_FLAG_DELETED)"
  have e': "e' = with_kv s e" using r d(1) by (auto simp: mark_entry_deleted_def s_def case_prod_unfold Let_def split: if_splits)
  note u = update_flags_correct [OF d(3), of h KV_FLAG_DELETED, folded s_def]
  have "dk_live crc32 s = dk_live crc32 (sg_kv e) |` (- {h})"
    using u by (intro dk_live_update_live [OF _ update_flags_deleted]) simp
  from kv_phase_restrict [OF ok _ _ log_same_file this] u
  show "engine_ok crc32 blake3 (m |` (- {h})) e'" "wal_hi e' = wal_hi e"
    by (simp_all add: e' s_def mark_deleted_file)
qed

lemma remove_kv_entry_ok:
  assumes ok: "engine_ok crc32 blake3 m e" and r: "remove_kv_entry crc32 h e = Some (Inr (u, e'))"
  shows "engine_ok crc32 blake3 (m |` (- {h})) e'" "wal_hi e' = wal_hi e"
proof -
  note d = engine_okD [OF ok]
  have e': "e' = with_kv (mark_deleted crc32 (sg_kv e) h) e" using r d(1) by (simp add: remove_kv_entry_def)
  note u = mark_deleted_correct [OF d(3), of h]
  have "dk_live crc32 (mark_deleted crc32 (sg_kv e) h) = dk_live crc32 (sg_kv e) |` (- {h})"
    using u by (intro dk_live_update_live [where g = with_deleted]) simp_all
  from kv_phase_restrict [OF ok _ _ log_same_file this] u
  show "engine_ok crc32 blake3 (m |` (- {h})) e'" "wal_hi e' = wal_hi e"
    by (simp_all add: e' mark_deleted_file)
qed

lemma remove_batch_ok:
  assumes ok: "engine_ok crc32 blake3 m e" and r: "remove_kv_entries_batch crc32 hs e = Some (Inr (u, e'))"
  shows "engine_ok crc32 blake3 (m |` (- set hs)) e'" "wal_hi e' = wal_hi e" "sg_void_manager e' = sg_void_manager e"
    "dk_live crc32 (sg_kv e') = dk_live crc32 (sg_kv e) |` (- set hs)"
proof -
  note d = engine_okD [OF ok]
  define s where "s = mark_deleted_batch crc32 (sg_kv e) hs"
  have e': "e' = with_kv s e" using r d(1) by (simp add: remove_kv_entries_batch_def s_def)
  have u: "dk_ok crc32 s" "same_layout (sg_kv e) s" "dk_raw crc32 s = fold (update_live with_deleted) hs (dk_raw crc32 (sg_kv e))"
    using mark_deleted_batch_correct [OF d(3), of hs] by (simp_all add: s_def)
  have live: "dk_live crc32 s = dk_live crc32 (sg_kv e) |` (- set hs)"
    unfolding dk_live_def [abs_def] u(3) by (rule dk_live_batch)
  have "log_same (sg_kv e) s" by (rule log_same_file) (simp add: s_def mark_deleted_file)
  from kv_phase_restrict [OF ok u(1,2) this live]
  show "engine_ok crc32 blake3 (m |` (- set hs)) e'" "wal_hi e' = wal_hi e" "sg_void_manager e' = sg_void_manager e"
    "dk_live crc32 (sg_kv e') = dk_live crc32 (sg_kv e) |` (- set hs)"
    by (simp_all add: e' live)
qed

end
