(* ===== verification/Storage_Sequences.thy ===== *)
theory Storage_Sequences
  imports Storage_Refinement
begin

text \<open>
  The sweep, and the engine over sequences of operations: a read returns what was last stored, a sweep keeps what
  is reachable or was recorded since the mark, and the space it frees is reused without touching anything alive.
\<close>

section \<open>The sweep\<close>

lemma iter_all_live:
  assumes ok: "dk_ok crc32 s"
  shows "k \<in> set (rs_iter_all crc32 (dk_snapshot s)) \<longleftrightarrow> dk_live crc32 s (kv_hash k) = Some k"
    "distinct (map kv_hash (rs_iter_all crc32 (dk_snapshot s)))"
proof -
  define P where "P = pages_entries crc32 (dk_hl s) (dk_pages s)"
  define B where "B = dk_write_buffer s"
  have st: "dk_store_ok crc32 s" using ok by (simp add: dk_ok_def)
  have b: "distinct (map fst B)" "\<And>h x. (h, x) \<in> set B \<Longrightarrow> kv_hash x = h"
    using st by (auto simp: dk_store_ok_def buffer_ok_def B_def)
  have p: "distinct (map kv_hash P)" unfolding P_def by (rule distinct_pages_entries [OF dk_store_okD(3) [OF st]])
  have it: "rs_iter_all crc32 (dk_snapshot s) =
      filter (\<lambda>e. \<not> is_deleted e \<and> map_of B (kv_hash e) = None) P @ filter (\<lambda>e. \<not> is_deleted e) (buffer_values B)"
    using ok by (simp add: rs_iter_all_def dk_ok_def dk_published_def dk_pages_published_def P_def B_def)
  have raw: "dk_raw crc32 s = kmap kv_hash P ++ map_of B" by (simp add: dk_raw_def pages_map_def P_def B_def)
  have buf: "k \<in> set (buffer_values B) \<longleftrightarrow> map_of B (kv_hash k) = Some k" for k
    using b by (force simp: map_of_eq_Some_iff)
  have pg: "k \<in> set P \<longleftrightarrow> kmap kv_hash P (kv_hash k) = Some k" for k by (simp add: kmap_Some_iff [OF p])
  have lv: "live r = Some k \<longleftrightarrow> r = Some k \<and> \<not> is_deleted k" for r by (auto simp: live_def split: option.splits)
  show "k \<in> set (rs_iter_all crc32 (dk_snapshot s)) \<longleftrightarrow> dk_live crc32 s (kv_hash k) = Some k"
    unfolding it set_append set_filter Un_iff mem_Collect_eq pg buf dk_live_def lv raw map_add_Some_iff by blast
  have mb: "map kv_hash (buffer_values B) = map fst B" using b(2) by auto
  have "distinct (map kv_hash (buffer_values B))" unfolding mb by (rule b(1))
  then have db: "distinct (map kv_hash (filter Q (buffer_values B)))" for Q by (rule distinct_map_filter)
  show "distinct (map kv_hash (rs_iter_all crc32 (dk_snapshot s)))"
    using p db buf by (auto simp: it distinct_map_filter)
qed

lemma read_header_live:
  assumes ok: "engine_ok crc32 blake3 m e" and k: "dk_live crc32 (sg_kv e) h = Some k"
  shows "\<exists>x. read_entry_header_at e (unat (kv_offset k)) = Some (Inr x) \<and> eh_total_length x = kv_total_length k"
    "valid_reusable_range (kv_offset k) (kv_total_length k) (wal_lo e) (wal_hi e)"
proof -
  note d = engine_okD [OF ok]
  obtain c where c: "holds blake3 (aw_file (sg_writer e)) k c" using index_okD(3) [OF d(5) k] by blast
  obtain x v where x: "at_file (aw_file (sg_writer e)) (unat (kv_offset k)) (entry_bytes x (kv_hash k) v)"
    "entry_ok blake3 x (kv_hash k) v" "kv_total_length k = eh_total_length x" "0 < unat (kv_total_length k)"
    using c by (rule holdsE)
  note b = span_bounds [OF c index_okD(2) [OF d(5) k]]
  show v: "valid_reusable_range (kv_offset k) (kv_total_length k) (wal_lo e) (wal_hi e)"
    using b x(4) d(2) by (intro valid_reusable_rangeI)
  have "read_entry_header_at e (unat (kv_offset k)) = Some (Inr x)"
    using shared_read_ok(2) [OF x(1,2)] b x(3,4) v d(1) by (simp add: read_entry_header_at_def d(7))
  then show "\<exists>x. read_entry_header_at e (unat (kv_offset k)) = Some (Inr x) \<and> eh_total_length x = kv_total_length k"
    using x(3) by simp
qed

definition sweepable :: "bytes set \<Rightarrow> bool \<Rightarrow> storage_engine \<Rightarrow> kv_entry \<Rightarrow> bool" where
  "sweepable reachable dry_run e k \<longleftrightarrow> kv_hash k \<notin> reachable \<and> (dry_run \<or> \<not> gc_recheck_contains e (kv_hash k))"

definition candidate_of :: "kv_entry \<Rightarrow> bytes \<times> u64 \<times> u32" where
  "candidate_of k = (kv_hash k, kv_offset k, kv_total_length k)"

lemma sweep_candidates_ok:
  assumes ok: "engine_ok crc32 blake3 m e"
  shows "\<forall>k\<in>set ks. dk_live crc32 (sg_kv e) (kv_hash k) = Some k \<Longrightarrow>
    sweep_candidates reachable dry_run e ks = Some (Inr (map candidate_of (filter (sweepable reachable dry_run e) ks)))"
proof (induction ks)
  case (Cons k ks)
  obtain x where "read_entry_header_at e (unat (kv_offset k)) = Some (Inr x)" "eh_total_length x = kv_total_length k"
    using read_header_live(1) [OF ok, of "kv_hash k" k] Cons.prems by auto
  then show ?case using Cons by (auto simp: sweepable_def candidate_of_def)
qed simp

lemma sweep_verified_live:
  assumes ok: "engine_ok crc32 blake3 m e" and k: "dk_live crc32 (sg_kv e) (kv_hash k) = Some k"
  shows "sweep_verified crc32 e (candidate_of k)"
  using read_header_live(2) [OF ok k] k engine_okD(3,7) [OF ok]
  by (simp add: sweep_verified_def candidate_of_def snapshot_get_live is_current_reusable_range_def)

text \<open>Registering the spans of removed entries.\<close>

lemma register_span_ok:
  assumes ok: "voids_ok R vm hi" and sz: "sz \<noteq> 0" "unat off + unat sz < 2 ^ 64"
    and span: "void_span (off, sz) \<subseteq> {..<hi}" "void_span (off, sz) \<inter> free_bytes vm = {}"
      "\<And>h k. R h = Some k \<Longrightarrow> kv_span k \<inter> void_span (off, sz) = {}"
  shows "voids_ok R (register_void off sz vm) hi" "free_bytes (register_void off sz vm) = free_bytes vm \<union> void_span (off, sz)"
proof -
  have v: "vm_ok vm" "voids_disjoint (voids vm)" using ok by (simp_all add: voids_ok_def)
  have pos: "0 < unat sz" using sz(1) by (simp add: unat_gt_0)
  have "off \<notin> fst ` voids vm"
  proof
    assume "off \<in> fst ` voids vm"
    then obtain z where z: "(off, z) \<in> voids vm" by auto
    then have "z \<noteq> 0" using v(1) by (auto simp: vm_ok_def)
    then have "unat off \<in> free_bytes vm"
      using z by (force simp: free_bytes_def void_span_def unat_gt_0)
    moreover have "unat off \<in> void_span (off, sz)" using pos by (simp add: void_span_def)
    ultimately show False using span(2) by blast
  qed
  then have vs: "voids (register_void off sz vm) = insert (off, sz) (voids vm)"
    using register_void_correct [OF v(1), of off sz] sz(1) by (simp add: drop_void_absent)
  show free: "free_bytes (register_void off sz vm) = free_bytes vm \<union> void_span (off, sz)"
    unfolding free_bytes_def vs by auto
  have apart: "void_span (off, sz) \<inter> void_span w = {}" if "w \<in> voids vm" for w
    using span(2) that unfolding free_bytes_def by blast
  then have "voids_disjoint (voids (register_void off sz vm))"
    using v(2) sz(2) unfolding vs voids_disjoint_def by (auto simp: Int_commute)
  moreover have "kv_span k \<inter> free_bytes (register_void off sz vm) = {}" if "R h = Some k" for h k
  proof -
    have "kv_span k \<inter> free_bytes vm = {}" using ok that by (simp add: voids_ok_def)
    then show ?thesis using span(3) [OF that] unfolding free by blast
  qed
  ultimately show "voids_ok R (register_void off sz vm) hi"
    using ok register_void_correct [OF v(1), of off sz] span(1) unfolding voids_ok_def free by auto
qed

lemma register_spans_ok:
  assumes "voids_ok R vm hi" "hi < 2 ^ 64"
    and "\<forall>k\<in>set ks. kv_span k \<subseteq> {..<hi} \<and> kv_total_length k \<noteq> 0 \<and> kv_span k \<inter> free_bytes vm = {} \<and>
      (\<forall>h k'. R h = Some k' \<longrightarrow> kv_span k' \<inter> kv_span k = {})"
    and "sorted_wrt (\<lambda>k k'. kv_span k \<inter> kv_span k' = {}) ks"
  shows "voids_ok R (fold (\<lambda>(_, offset, sz). register_void offset sz) (map candidate_of ks) vm) hi"
  using assms
proof (induction ks arbitrary: vm)
  case (Cons k ks)
  define vm1 where "vm1 = register_void (kv_offset k) (kv_total_length k) vm"
  have span: "void_span (kv_offset k, kv_total_length k) = kv_span k" by (simp add: void_span_def kv_span_def)
  have pos: "0 < unat (kv_total_length k)" using Cons.prems(3) by (simp add: unat_gt_0)
  then have "unat (kv_offset k) + unat (kv_total_length k) - 1 \<in> kv_span k" by (auto simp: kv_span_def)
  then have "unat (kv_offset k) + unat (kv_total_length k) - 1 < hi" using Cons.prems(3) by auto
  then have "unat (kv_offset k) + unat (kv_total_length k) < 2 ^ 64" using Cons.prems(2) by linarith
  note r = register_span_ok [OF Cons.prems(1) _ this, folded vm1_def, unfolded span]
  have k: "voids_ok R vm1 hi" "free_bytes vm1 = free_bytes vm \<union> kv_span k"
    using r Cons.prems(3) by simp_all
  have "\<forall>k\<in>set ks. kv_span k \<subseteq> {..<hi} \<and> kv_total_length k \<noteq> 0 \<and> kv_span k \<inter> free_bytes vm1 = {} \<and>
      (\<forall>h k'. R h = Some k' \<longrightarrow> kv_span k' \<inter> kv_span k = {})"
    using Cons.prems(3,4) unfolding k(2) by (auto simp: Int_Un_distrib Int_commute)
  from Cons.IH [OF k(1) Cons.prems(2) this] show ?case
    using Cons.prems(4) by (simp add: candidate_of_def vm1_def)
qed simp

lemma live_spans_sorted:
  assumes "engine_ok crc32 blake3 m e"
  shows "distinct (map kv_hash ks) \<Longrightarrow> \<forall>k\<in>set ks. dk_live crc32 (sg_kv e) (kv_hash k) = Some k \<Longrightarrow>
    sorted_wrt (\<lambda>k k'. kv_span k \<inter> kv_span k' = {}) ks"
proof (induction ks)
  case (Cons k ks)
  have "kv_span k \<inter> kv_span k' = {}" if "k' \<in> set ks" for k'
  proof (rule index_ok_apart [OF engine_okD(5) [OF assms]])
    show "dk_live crc32 (sg_kv e) (kv_hash k) = Some k" "dk_live crc32 (sg_kv e) (kv_hash k') = Some k'"
      using Cons.prems(2) that by simp_all
    show "kv_hash k \<noteq> kv_hash k'" using Cons.prems(1) that by auto
  qed
  then show ?case using Cons by simp
qed simp

lemma force_hot_tail_flush_ok:
  assumes ok: "engine_ok crc32 blake3 m e" and r: "force_hot_tail_flush crc32 e = Some (Inr (u, e'))"
  shows "engine_ok crc32 blake3 m e'" "wal_hi e' = wal_hi e" "sg_gc_recheck e' = sg_gc_recheck e"
proof -
  define e1 where "e1 = with_kv (force_flush_hot_buffer crc32 (sg_kv e)) e"
  have e1: "engine_ok crc32 blake3 m e1" "wal_hi e1 = wal_hi e" "sg_gc_recheck e1 = sg_gc_recheck e"
    using hot_flush_ok [OF ok, of "force_flush_hot_buffer crc32 (sg_kv e)"] by (simp_all add: e1_def) (simp add: with_kv_def)
  have "e' = e1 \<or> publish_header crc32 e1 = Some e'"
    using r engine_okD(1) [OF ok]
    by (auto simp: force_hot_tail_flush_def e1_def [symmetric] Let_def no_panic_def split: if_splits)
  then show "engine_ok crc32 blake3 m e'" "wal_hi e' = wal_hi e" "sg_gc_recheck e' = sg_gc_recheck e"
    using e1 publish_header_ok [OF e1(1)] by (auto simp: publish_header_def with_writer_def Let_def)
qed

definition spared :: "bytes set \<Rightarrow> storage_engine \<Rightarrow> bytes set" where
  "spared reachable e = reachable \<union> {h. gc_recheck_contains e h}"

text \<open>What the removal of the sweepable hashes leaves.\<close>

lemma sweep_restrict:
  assumes ok: "engine_ok crc32 blake3 m e"
    and ks: "\<And>k. k \<in> set ks \<longleftrightarrow> dk_live crc32 (sg_kv e) (kv_hash k) = Some k"
  shows "m |` (- kv_hash ` set (filter (sweepable reachable False e) ks)) = m |` spared reachable e"
proof (rule ext)
  fix h
  note d = engine_okD [OF ok]
  show "(m |` (- kv_hash ` set (filter (sweepable reachable False e) ks))) h = (m |` spared reachable e) h"
  proof (cases "dk_live crc32 (sg_kv e) h")
    case None
    then have "m h = None" by (rule index_ok_None [OF d(5)])
    then show ?thesis by (simp add: restrict_map_def)
  next
    case (Some k)
    have "kv_hash k = h" by (rule index_okD(1) [OF d(5) Some])
    then have "h \<in> kv_hash ` set (filter (sweepable reachable False e) ks) \<longleftrightarrow> h \<notin> spared reachable e"
      using Some ks [of k] by (auto simp: sweepable_def spared_def image_iff)
    then show ?thesis by (simp add: restrict_map_def)
  qed
qed

lemma gc_sweep_ok:
  assumes ok: "engine_ok crc32 blake3 m e" and r: "gc_sweep crc32 reachable dry_run e = Some (Inr (c, e'))"
  shows "engine_ok crc32 blake3 (if dry_run then m else m |` spared reachable e) e'"
    "wal_hi e' = wal_hi e" "sg_gc_recheck e' = sg_gc_recheck e"
proof -
  note d = engine_okD [OF ok]
  define ks where "ks = rs_iter_all crc32 (dk_snapshot (sg_kv e))"
  define gs where "gs = filter (sweepable reachable dry_run e) ks"
  note it = iter_all_live [OF d(3), folded ks_def]
  have live: "\<forall>k\<in>set ks. dk_live crc32 (sg_kv e) (kv_hash k) = Some k" using it(1) by simp
  have gs: "\<forall>k\<in>set gs. dk_live crc32 (sg_kv e) (kv_hash k) = Some k" "distinct (map kv_hash gs)"
    using live it(2) by (simp_all add: gs_def distinct_map_filter)
  have ver: "filter (sweep_verified crc32 e) (map candidate_of gs) = map candidate_of gs"
    using sweep_verified_live [OF ok] gs(1) by (simp add: filter_id_conv)
  have run: "(if dry_run \<or> gs = [] then Some (Inr ((length gs, reclaimed_bytes (map candidate_of gs)), e))
    else fal_bind (remove_kv_entries_batch crc32 (map kv_hash gs) e) (\<lambda>(_, e1).
         fal_bind (force_hot_tail_flush crc32 (sync_voids_to_kv_writer (e1\<lparr> sg_void_manager :=
               fold (\<lambda>(_, offset, sz). register_void offset sz) (map candidate_of gs) (sg_void_manager e1) \<rparr>))) (\<lambda>(_, e3).
           Some (Inr ((length gs, reclaimed_bytes (map candidate_of gs)), e3))))) = Some (Inr (c, e'))"
    using r d(1) sweep_candidates_ok [OF ok live, of reachable dry_run]
    by (cases "gs = []") (simp_all add: gc_sweep_def iter_kv_entries_def ks_def [symmetric] gs_def [symmetric] ver Let_def
        comp_def candidate_of_def split: if_splits)
  have "engine_ok crc32 blake3 (if dry_run then m else m |` spared reachable e) e' \<and> wal_hi e' = wal_hi e \<and>
    sg_gc_recheck e' = sg_gc_recheck e"
  proof (cases "dry_run \<or> gs = []")
    case True
    then have "e' = e" using run by simp
    moreover have "m |` spared reachable e = m" if "\<not> dry_run"
    proof -
      have "filter (sweepable reachable False e) ks = []" using True that by (simp add: gs_def)
      then have "m |` UNIV = m |` spared reachable e" using sweep_restrict [OF ok it(1), of reachable] by simp
      moreover have "m |` UNIV = m" by (simp add: restrict_map_def)
      ultimately show ?thesis by (simp only:)
    qed
    ultimately show ?thesis using ok by simp
  next
    case False
    then obtain u e1 where b: "remove_kv_entries_batch crc32 (map kv_hash gs) e = Some (Inr (u, e1))" using run by auto
    define vm where "vm = fold (\<lambda>(_, offset, sz). register_void offset sz) (map candidate_of gs) (sg_void_manager e1)"
    define e2 where "e2 = e1\<lparr> sg_void_manager := vm \<rparr>"
    obtain u' where f: "force_hot_tail_flush crc32 (sync_voids_to_kv_writer e2) = Some (Inr (u', e'))"
      using run False b by (auto simp: vm_def e2_def)
    note rb = remove_batch_ok [OF ok b]
    note d1 = engine_okD [OF rb(1)]
    have "kv_span k' \<inter> kv_span k = {}" if k: "k \<in> set gs" and k': "dk_live crc32 (sg_kv e1) h = Some k'" for k k' h
    proof (rule index_ok_apart [OF d(5)])
      show "dk_live crc32 (sg_kv e) h = Some k'" using k' unfolding rb(4) by (simp add: restrict_map_def split: if_splits)
      show "dk_live crc32 (sg_kv e) (kv_hash k) = Some k" using gs(1) k by simp
      show "h \<noteq> kv_hash k" using k k' unfolding rb(4) by (auto simp: restrict_map_def split: if_splits)
    qed
    moreover have "kv_span k \<subseteq> {..<wal_hi e} \<and> kv_total_length k \<noteq> 0 \<and> kv_span k \<inter> free_bytes (sg_void_manager e) = {}"
      if "k \<in> set gs" for k
    proof -
      have l: "dk_live crc32 (sg_kv e) (kv_hash k) = Some k" using gs(1) that by simp
      have "kv_span k \<subseteq> {wal_lo e ..< wal_hi e}" by (rule index_okD(2) [OF d(5) l])
      then show ?thesis
        using d(6) l valid_reusable_rangeD(3) [OF read_header_live(2) [OF ok l]] by (auto simp: voids_ok_def)
    qed
    ultimately have "voids_ok (dk_live crc32 (sg_kv e1)) vm (wal_hi e1)"
      unfolding vm_def using d1(6) d(2) live_spans_sorted [OF ok gs(2,1)]
      by (intro register_spans_ok) (simp_all add: rb(2,3))
    then have e2: "engine_ok crc32 blake3 (m |` (- set (map kv_hash gs))) e2" unfolding e2_def by (rule engine_ok_voids [OF rb(1)])
    have "m |` (- set (map kv_hash gs)) = m |` spared reachable e"
      using sweep_restrict [OF ok it(1), of reachable] False by (simp add: gs_def)
    moreover have "sg_gc_recheck e1 = sg_gc_recheck e"
      using b d(1) by (auto simp: remove_kv_entries_batch_def with_kv_def)
    ultimately show ?thesis
      using force_hot_tail_flush_ok [OF sync_voids_ok(1) [OF e2] f] sync_voids_ok(2) [OF e2] rb(2) False
      by (simp add: e2_def) (simp add: sync_voids_to_kv_writer_def with_kv_def)
  qed
  then show "engine_ok crc32 blake3 (if dry_run then m else m |` spared reachable e) e'"
    "wal_hi e' = wal_hi e" "sg_gc_recheck e' = sg_gc_recheck e" by simp_all
qed

section \<open>A new database\<close>

lemma engine_of_fields [simp]:
  "sg_writer (engine_of w s vm n) = w\<lparr> aw_file := dk_db_file s \<rparr>" "sg_kv (engine_of w s vm n) = s"
  "sg_void_manager (engine_of w s vm n) = vm" "sg_hash_algo (engine_of w s vm n) = fh_hash_algo (aw_header w)"
  "sg_shutting_down (engine_of w s vm n) = False" "sg_durability_failure (engine_of w s vm n) = None"
  "sg_gc_recheck (engine_of w s vm n) = None"
  by (simp_all add: engine_of_def)

lemma new_voids_ok: "voids_ok R (void_manager_new Blake3_256) hi"
  by (simp add: voids_ok_def vm_ok_def by_size_ok_def by_size_voids_def voids_def voids_disjoint_def free_bytes_def
      void_manager_new_def)

lemma hot_tail_file_ok:
  assumes ok: "dk_ok crc32 s" and hot: "dk_pages_end s \<le> off"
    and w: "write_hot_tail crc32 (dk_db_file s) off p hl = (f, n)"
  shows "dk_ok crc32 (s\<lparr> dk_db_file := set_len f n \<rparr>)" "dk_raw crc32 (s\<lparr> dk_db_file := set_len f n \<rparr>) = dk_raw crc32 s"
proof -
  define bs where "bs = serialize_hot_tail crc32 p hl"
  have f: "f = write_at (dk_db_file s) off bs" "n = off + length bs"
    using w by (simp_all add: write_hot_tail_def bs_def Let_def)
  have len: "dk_pages_end s \<le> length (dk_db_file s)" using ok dk_store_okD(2) [of crc32 s] by (simp add: dk_ok_def)
  have len': "dk_pages_end s \<le> length (set_len f n)" using hot by (simp add: f(2))
  have "file_pages (set_len f n) (dk_kv_block_offset s) (dk_hl s) (dk_bucket_count s) = dk_pages s"
  proof (rule file_pages_cong [OF len' len])
    fix b
    assume "b < dk_bucket_count s"
    then have e: "dk_kv_block_offset s + b * page_size (dk_hl s) + page_size (dk_hl s) \<le> dk_pages_end s" by (rule page_end_le)
    then show "read_exact (set_len f n) (dk_kv_block_offset s + b * page_size (dk_hl s)) (page_size (dk_hl s)) =
        read_exact (dk_db_file s) (dk_kv_block_offset s + b * page_size (dk_hl s)) (page_size (dk_hl s))"
      using hot len by (simp add: f read_set_len read_write_before)
  qed
  from dk_ok_db_file [OF ok len' this]
  show "dk_ok crc32 (s\<lparr> dk_db_file := set_len f n \<rparr>)" "dk_raw crc32 (s\<lparr> dk_db_file := set_len f n \<rparr>) = dk_raw crc32 s"
    by simp_all
qed

lemma first_stage: "fst (stage_params 0 (page_size hl)) = initial_block_size"
  by (simp add: stage_params_def initial_block_size_def KV_STAGE_SIZES_def Let_def)

lemma engine_create_ok:
  assumes "engine_create crc32 now = Some e"
  shows "engine_ok crc32 blake3 Map.empty e" "sg_gc_recheck e = None" "wal_hi e = HEADER_REGION_SIZE + initial_block_size"
proof -
  let ?hot = "HEADER_REGION_SIZE + initial_block_size"
  obtain w where w: "append_writer_create crc32 now = Some w"
    using assms by (auto simp: engine_create_def split: option.splits)
  define a where "a = fh_hash_algo (aw_header w)"
  have a: "a = Blake3_256"
    using w by (auto simp: a_def append_writer_create_def write_initial_header_def file_header_new_def Let_def split: option.splits)
  define s where "s = disk_kv_create crc32 (aw_file w) a HEADER_REGION_SIZE ?hot 0"
  obtain f n where h: "write_hot_tail crc32 (dk_db_file s) ?hot \<lparr> htp_writes = [], htp_voids = [] \<rparr> (hash_length a) = (f, n)"
    by fastforce
  define w1 where "w1 = (set_offset ?hot w)\<lparr> aw_file := set_len f n \<rparr>"
  obtain w2 where u: "update_header crc32 ((aw_header w1)\<lparr> fh_kv_block_offset := word_of_nat HEADER_REGION_SIZE,
      fh_kv_block_length := word_of_nat initial_block_size, fh_kv_block_stage := 0, fh_hot_tail_offset := word_of_nat ?hot \<rparr>) w1 = Some w2"
    and e: "e = engine_of w2 (s\<lparr> dk_db_file := aw_file w2 \<rparr>) (void_manager_new a) ?hot"
    using assms h by (auto simp: engine_create_def w a_def [symmetric] s_def [symmetric] w1_def Let_def split: option.splits)
  have st: "0 < length KV_STAGE_SIZES" by (simp add: KV_STAGE_SIZES_def)
  have "HEADER_REGION_SIZE + fst (stage_params 0 (page_size (hash_length a))) \<le> ?hot" by (simp add: first_stage)
  note c = disk_kv_create_ok [OF st this, of crc32 "aw_file w", folded s_def]
  have lay: "dk_kv_block_offset s = HEADER_REGION_SIZE" "dk_hot_tail_offset s = ?hot" "dk_hot_tail_enabled s"
    "dk_kv_block_length s = initial_block_size"
    using first_stage [of "hash_length a"] by (auto simp: s_def disk_kv_create_def Let_def split: prod.splits)
  have "dk_pages_end s \<le> ?hot" using c(1) dk_store_okD(5) [of crc32 s] lay by (simp add: dk_ok_def)
  note t = hot_tail_file_ok [OF c(1) this h]
  obtain off bs where uf: "aw_file w2 = write_at (set_len f n) off bs" "off + length bs \<le> HEADER_REGION_SIZE"
    "aw_offset w2 = ?hot" "fh_kv_block_offset (aw_header w2) = word_of_nat HEADER_REGION_SIZE"
    "fh_kv_block_length (aw_header w2) = word_of_nat initial_block_size" "fh_hash_algo (aw_header w2) = a"
    using update_header_form [OF u] by (auto simp: w1_def set_offset_def a_def)
  have "off + length bs \<le> dk_kv_block_offset (s\<lparr> dk_db_file := set_len f n \<rparr>) \<or>
      dk_pages_end (s\<lparr> dk_db_file := set_len f n \<rparr>) \<le> off"
    using uf(2) lay(1) by simp
  from dk_ok_write [OF t(1) this]
  have k: "dk_ok crc32 (s\<lparr> dk_db_file := aw_file w2 \<rparr>)" "dk_raw crc32 (s\<lparr> dk_db_file := aw_file w2 \<rparr>) = Map.empty"
    using t(2) c(2) by (simp_all add: uf(1))
  have live: "dk_live crc32 (s\<lparr> dk_db_file := aw_file w2 \<rparr>) = Map.empty"
    by (simp add: dk_live_def [abs_def] k(2) live_def)
  have "layout_ok e"
    using lay c(3) uf a by (simp add: layout_ok_def e unat_word_of_nat_u64 file_header_sizes initial_block_size_def KV_STAGE_SIZES_def)
  moreover have "index_ok blake3 Map.empty Map.empty x lo hi" for x lo hi by (simp add: index_ok_def)
  ultimately show "engine_ok crc32 blake3 Map.empty e"
    using k(1) new_voids_ok uf(3) unfolding engine_ok_def
    by (simp add: e live a file_header_sizes initial_block_size_def KV_STAGE_SIZES_def)
  show "sg_gc_recheck e = None" "wal_hi e = HEADER_REGION_SIZE + initial_block_size" using uf(3) by (simp_all add: e)
qed

end
