(* ===== verification/Void_Recovery.thy ===== *)
theory Void_Recovery
  imports Storage_Sequences
begin

text \<open>
  The voids \<^verbatim>\<open>recover_voids_via_gap_scan\<close> of \<^verbatim>\<open>storage_engine.rs\<close> finds after a dirty start: the lemmas show
  that they lie in the log, overlap neither each other nor a live entry, and miss no free byte in front of the
  last entry unless a gap has \<open>2 ^ 32\<close> bytes or more.
\<close>

section \<open>The gaps\<close>

definition rec_span :: "void_record \<Rightarrow> nat set" where
  "rec_span v = void_span (vr_offset v, vr_size v)"

text \<open>Where the last range ends.\<close>

fun ranges_end :: "(u64 \<times> u32) list \<Rightarrow> nat \<Rightarrow> nat" where
  "ranges_end [] cursor = cursor"
| "ranges_end (r # rs) cursor = ranges_end rs (max (unat (fst r) + unat (snd r)) cursor)"

lemma ranges_end_ge: "cursor \<le> ranges_end rs cursor"
  by (induction rs arbitrary: cursor) (auto intro: order_trans [OF _ max.cobounded2] order_trans)

definition ranges_ok :: "nat \<Rightarrow> (u64 \<times> u32) list \<Rightarrow> bool" where
  "ranges_ok hi rs \<longleftrightarrow> sorted_wrt (\<lambda>r s. fst r \<le> fst s) rs \<and> (\<forall>r\<in>set rs. unat (fst r) + unat (snd r) \<le> hi)"

lemma ranges_ok_Cons:
  "ranges_ok hi (r # rs) \<longleftrightarrow> (\<forall>s\<in>set rs. fst r \<le> fst s) \<and> unat (fst r) + unat (snd r) \<le> hi \<and> ranges_ok hi rs"
  by (auto simp: ranges_ok_def)

text \<open>The gap in front of one range.\<close>

lemma first_gap:
  assumes "cursor < unat offset" "cursor < 2 ^ 64"
    and v: "v = \<lparr> vr_offset = word_of_nat cursor, vr_size = word_of_nat (min (unat offset - cursor) (2 ^ 32 - 1)) \<rparr>"
  shows "vr_size v \<noteq> 0" "rec_span v \<subseteq> {cursor ..< unat offset}" "unat offset < 2 ^ 32 \<Longrightarrow> rec_span v = {cursor ..< unat offset}"
proof -
  have o1: "unat (vr_offset v) = cursor" using assms(2) by (simp add: v unat_word_of_nat_u64)
  have s: "unat (vr_size v) = min (unat offset - cursor) (2 ^ 32 - 1)"
    by (simp add: v unat_of_nat take_bit_eq_mod min_def)
  then have "unat (vr_size v) \<noteq> 0" using assms(1) by simp
  then show "vr_size v \<noteq> 0" by auto
  show "rec_span v \<subseteq> {cursor ..< unat offset}" "unat offset < 2 ^ 32 \<Longrightarrow> rec_span v = {cursor ..< unat offset}"
    using assms(1) by (auto simp: rec_span_def void_span_def o1 s)
qed

lemma gap_scan_Cons:
  assumes "ranges_ok hi ((offset, len) # rs)" "hi < 2 ^ 64"
  shows "gap_scan ((offset, len) # rs) cursor =
    (if cursor < unat offset
     then [\<lparr> vr_offset = word_of_nat cursor, vr_size = word_of_nat (min (unat offset - cursor) (2 ^ 32 - 1)) \<rparr>] else []) @
    gap_scan rs (max (unat offset + unat len) cursor)"
  using assms by (simp add: ranges_ok_Cons min_def Let_def)

lemma gap_scan_safe:
  assumes "ranges_ok hi rs" "hi < 2 ^ 64" "cursor \<le> hi"
  shows "(\<forall>v\<in>set (gap_scan rs cursor). vr_size v \<noteq> 0 \<and> rec_span v \<subseteq> {cursor ..< hi} \<and> (\<forall>r\<in>set rs. rec_span v \<inter> void_span r = {})) \<and>
    sorted_wrt (\<lambda>v w. rec_span v \<inter> rec_span w = {}) (gap_scan rs cursor)"
  using assms
proof (induction rs arbitrary: cursor)
  case (Cons r rs)
  obtain off len where r: "r = (off, len)" by fastforce
  note g = gap_scan_Cons [OF Cons.prems(1) [unfolded r] Cons.prems(2), of cursor]
  have ok: "\<forall>s\<in>set rs. unat off \<le> unat (fst s)" "unat off + unat len \<le> hi" "ranges_ok hi rs"
    using Cons.prems(1) by (simp_all add: ranges_ok_Cons r word_le_nat_alt)
  let ?c = "max (unat off + unat len) cursor"
  have IH: "\<forall>v\<in>set (gap_scan rs ?c). vr_size v \<noteq> 0 \<and> rec_span v \<subseteq> {?c ..< hi} \<and> (\<forall>s\<in>set rs. rec_span v \<inter> void_span s = {})"
    "sorted_wrt (\<lambda>v w. rec_span v \<inter> rec_span w = {}) (gap_scan rs ?c)"
    using Cons.IH [OF ok(3) Cons.prems(2), of ?c] ok(2) Cons.prems(3) by auto
  have here: "void_span r = {unat off ..< unat off + unat len}" by (simp add: r void_span_def)
  have rest: "vr_size v \<noteq> 0 \<and> rec_span v \<subseteq> {cursor ..< hi} \<and> (\<forall>s\<in>set (r # rs). rec_span v \<inter> void_span s = {})"
    if "v \<in> set (gap_scan rs ?c)" for v
  proof -
    have "rec_span v \<subseteq> {?c ..< hi}" using IH(1) that by blast
    then have "rec_span v \<inter> void_span r = {}" "rec_span v \<subseteq> {cursor ..< hi}" unfolding here by fastforce+
    then show ?thesis using IH(1) that by auto
  qed
  show ?case
  proof (cases "cursor < unat off")
    case True
    define v where "v = \<lparr> vr_offset = word_of_nat cursor, vr_size = word_of_nat (min (unat off - cursor) (2 ^ 32 - 1)) :: u32 \<rparr>"
    have "cursor < 2 ^ 64" using Cons.prems by simp
    note f = first_gap [OF True this v_def]
    have "rec_span v \<inter> void_span s = {}" if "s \<in> set (r # rs)" for s
      using that f(2) ok(1) unfolding void_span_def by (fastforce simp: r)
    moreover have "rec_span v \<subseteq> {cursor ..< hi}" using f(2) ok(2) by fastforce
    moreover have "rec_span v \<inter> rec_span w = {}" if "w \<in> set (gap_scan rs ?c)" for w
      using that f(2) IH(1) by fastforce
    moreover have "gap_scan (r # rs) cursor = v # gap_scan rs ?c" using g True by (simp add: r v_def)
    ultimately show ?thesis using rest f(1) IH(2) by simp
  next
    case False
    then have "gap_scan (r # rs) cursor = gap_scan rs ?c" using g by (simp add: r)
    then show ?thesis using rest IH(2) by simp
  qed
qed simp

lemma gap_scan_exact:
  assumes "ranges_ok hi rs" "hi < 2 ^ 32" "cursor \<le> hi"
  shows "\<Union> (rec_span ` set (gap_scan rs cursor)) = {cursor ..< ranges_end rs cursor} - \<Union> (void_span ` set rs)"
  using assms
proof (induction rs arbitrary: cursor)
  case (Cons r rs)
  obtain off len where r: "r = (off, len)" by fastforce
  have hi: "hi < 2 ^ 64" using Cons.prems(2) by simp
  note g = gap_scan_Cons [OF Cons.prems(1) [unfolded r] hi, of cursor]
  have ok: "\<forall>s\<in>set rs. unat off \<le> unat (fst s)" "unat off + unat len \<le> hi" "ranges_ok hi rs"
    using Cons.prems(1) by (simp_all add: ranges_ok_Cons r word_le_nat_alt)
  let ?c = "max (unat off + unat len) cursor"
  let ?S = "\<Union> (void_span ` set rs)"
  have IH: "\<Union> (rec_span ` set (gap_scan rs ?c)) = {?c ..< ranges_end rs ?c} - ?S"
    using Cons.IH [OF ok(3) Cons.prems(2), of ?c] ok(2) Cons.prems(3) by simp
  have S: "x \<notin> ?S" if "x < unat off" for x using that ok(1) by (fastforce simp: void_span_def)
  have E: "?c \<le> ranges_end rs ?c" by (rule ranges_end_ge)
  have here: "void_span r = {unat off ..< unat off + unat len}" by (simp add: r void_span_def)
  have end': "ranges_end (r # rs) cursor = ranges_end rs ?c" by (simp add: r)
  show ?case
  proof (cases "cursor < unat off")
    case True
    define v where "v = \<lparr> vr_offset = word_of_nat cursor, vr_size = word_of_nat (min (unat off - cursor) (2 ^ 32 - 1)) :: u32 \<rparr>"
    have "cursor < 2 ^ 64" "unat off < 2 ^ 32" using Cons.prems ok(2) by simp_all
    then have f: "rec_span v = {cursor ..< unat off}" using first_gap(3) [OF True _ v_def] by simp
    have "gap_scan (r # rs) cursor = v # gap_scan rs ?c" using g True by (simp add: r v_def)
    then have "\<Union> (rec_span ` set (gap_scan (r # rs) cursor)) = {cursor ..< unat off} \<union> ({?c ..< ranges_end rs ?c} - ?S)"
      using IH f by simp
    also have "\<dots> = {cursor ..< ranges_end rs ?c} - ({unat off ..< unat off + unat len} \<union> ?S)"
      using True E S by (auto simp: max_def)
    finally show ?thesis by (simp only: end' list.set image_insert Union_insert here)
  next
    case False
    then have "gap_scan (r # rs) cursor = gap_scan rs ?c" using g by (simp add: r)
    then have "\<Union> (rec_span ` set (gap_scan (r # rs) cursor)) = {?c ..< ranges_end rs ?c} - ?S" using IH by simp
    also have "\<dots> = {cursor ..< ranges_end rs ?c} - ({unat off ..< unat off + unat len} \<union> ?S)"
      using False by auto
    finally show ?thesis by (simp only: end' list.set image_insert Union_insert here)
  qed
qed simp

section \<open>The recovered voids\<close>

lemma register_records_ok:
  assumes "voids_ok R vm hi" "hi < 2 ^ 64"
    and "\<forall>v\<in>set vs. vr_size v \<noteq> 0 \<and> rec_span v \<subseteq> {..<hi} \<and> rec_span v \<inter> free_bytes vm = {} \<and>
      (\<forall>h k. R h = Some k \<longrightarrow> kv_span k \<inter> rec_span v = {})"
    and "sorted_wrt (\<lambda>v w. rec_span v \<inter> rec_span w = {}) vs"
  shows "voids_ok R (fold (\<lambda>(offset, sz). register_void offset sz) (map (\<lambda>v. (vr_offset v, vr_size v)) vs) vm) hi \<and>
    free_bytes (fold (\<lambda>(offset, sz). register_void offset sz) (map (\<lambda>v. (vr_offset v, vr_size v)) vs) vm) =
      free_bytes vm \<union> \<Union> (rec_span ` set vs)"
  using assms
proof (induction vs arbitrary: vm)
  case (Cons v vs)
  define vm1 where "vm1 = register_void (vr_offset v) (vr_size v) vm"
  have v: "vr_size v \<noteq> 0" "rec_span v \<subseteq> {..<hi}" "rec_span v \<inter> free_bytes vm = {}"
    "\<And>h k. R h = Some k \<Longrightarrow> kv_span k \<inter> rec_span v = {}"
    using Cons.prems(3) by simp_all
  have "0 < unat (vr_size v)" using v(1) by (simp add: unat_gt_0)
  then have "unat (vr_offset v) + unat (vr_size v) - 1 \<in> rec_span v" by (auto simp: rec_span_def void_span_def)
  then have b: "unat (vr_offset v) + unat (vr_size v) < 2 ^ 64" using v(2) Cons.prems(2) by auto
  have r: "voids_ok R vm1 hi" "free_bytes vm1 = free_bytes vm \<union> rec_span v"
    unfolding vm1_def rec_span_def by (rule register_span_ok [OF Cons.prems(1) v(1) b v(2-4) [unfolded rec_span_def]]; assumption)+
  have "\<forall>w\<in>set vs. rec_span w \<inter> free_bytes vm1 = {}" using Cons.prems(3,4) unfolding r(2) by (auto simp: Int_commute)
  then have "\<forall>w\<in>set vs. vr_size w \<noteq> 0 \<and> rec_span w \<subseteq> {..<hi} \<and> rec_span w \<inter> free_bytes vm1 = {} \<and>
      (\<forall>h k. R h = Some k \<longrightarrow> kv_span k \<inter> rec_span w = {})"
    using Cons.prems(3) by simp
  from Cons.IH [OF r(1) Cons.prems(2) this] show ?case using Cons.prems(4) by (auto simp: vm1_def [symmetric] r(2))
qed simp

definition live_ranges :: "(bytes \<Rightarrow> u32) \<Rightarrow> storage_engine \<Rightarrow> (u64 \<times> u32) list" where
  "live_ranges crc32 e = sort_key fst (map (\<lambda>k. (kv_offset k, kv_total_length k)) (rs_iter_all crc32 (dk_snapshot (sg_kv e))))"

lemma live_ranges_ok:
  assumes ok: "engine_ok crc32 blake3 m e"
  shows "ranges_ok (wal_hi e) (live_ranges crc32 e)"
    "void_span ` set (live_ranges crc32 e) = kv_span ` set (rs_iter_all crc32 (dk_snapshot (sg_kv e)))"
    "recover_voids_via_gap_scan crc32 e = e\<lparr> sg_void_manager := replace_all
      (map (\<lambda>v. (vr_offset v, vr_size v)) (gap_scan (live_ranges crc32 e) (wal_lo e))) (sg_void_manager e) \<rparr>"
proof -
  note d = engine_okD [OF ok]
  let ?ks = "rs_iter_all crc32 (dk_snapshot (sg_kv e))"
  have live: "valid_reusable_range (kv_offset k) (kv_total_length k) (wal_lo e) (wal_hi e) \<and> \<not> is_deleted k" if "k \<in> set ?ks" for k
  proof -
    have "dk_live crc32 (sg_kv e) (kv_hash k) = Some k" using that iter_all_live(1) [OF d(3)] by blast
    then show ?thesis using read_header_live(2) [OF ok] by (auto simp: dk_live_def dest: live_SomeD)
  qed
  have "sorted_wrt (\<lambda>r s. fst r \<le> fst s) (live_ranges crc32 e)"
    using sorted_sort_key [of fst] by (simp add: live_ranges_def sorted_map)
  then show "ranges_ok (wal_hi e) (live_ranges crc32 e)"
    using live valid_reusable_rangeD by (fastforce simp: ranges_ok_def live_ranges_def)
  show "void_span ` set (live_ranges crc32 e) = kv_span ` set ?ks"
    by (simp add: live_ranges_def image_image void_span_def kv_span_def)
  have "filter (\<lambda>k. valid_reusable_range (kv_offset k) (kv_total_length k) (wal_lo e) (wal_hi e)) (filter (\<lambda>k. \<not> is_deleted k) ?ks) = ?ks"
    using live by (simp add: filter_id_conv)
  then show "recover_voids_via_gap_scan crc32 e = e\<lparr> sg_void_manager := replace_all
      (map (\<lambda>v. (vr_offset v, vr_size v)) (gap_scan (live_ranges crc32 e) (wal_lo e))) (sg_void_manager e) \<rparr>"
    unfolding recover_voids_via_gap_scan_def d(7) prod.case Let_def live_ranges_def by simp
qed

lemma recover_voids_ok:
  assumes ok: "engine_ok crc32 blake3 m e"
  shows "engine_ok crc32 blake3 m (recover_voids_via_gap_scan crc32 e)"
    "free_bytes (sg_void_manager (recover_voids_via_gap_scan crc32 e)) =
      \<Union> (rec_span ` set (gap_scan (live_ranges crc32 e) (wal_lo e)))"
proof -
  note d = engine_okD [OF ok] and l = live_ranges_ok [OF ok]
  let ?vs = "gap_scan (live_ranges crc32 e) (wal_lo e)"
  define vm0 where "vm0 = (sg_void_manager e)\<lparr> vm_by_offset := [], vm_by_size := [] \<rparr>"
  have vm0: "voids_ok (dk_live crc32 (sg_kv e)) vm0 (wal_hi e)" "free_bytes vm0 = {}"
    using d(6) vm_ok_empty by (simp_all add: voids_ok_def vm0_def voids_def voids_disjoint_def free_bytes_def)
  have hi: "wal_hi e < 2 ^ 64" "wal_lo e \<le> wal_hi e" using d(2,4) by simp_all
  note g = gap_scan_safe [OF l(1) hi]
  have "kv_span k \<inter> rec_span v = {}" if "dk_live crc32 (sg_kv e) h = Some k" "v \<in> set ?vs" for h k v
  proof -
    have "kv_hash k = h" using index_okD(1) [OF d(5) that(1)] .
    then have "k \<in> set (rs_iter_all crc32 (dk_snapshot (sg_kv e)))" using that(1) iter_all_live(1) [OF d(3)] by simp
    then have "kv_span k \<in> void_span ` set (live_ranges crc32 e)" using l(2) by blast
    then show ?thesis using g that(2) by blast
  qed
  then have "\<forall>v\<in>set ?vs. vr_size v \<noteq> 0 \<and> rec_span v \<subseteq> {..<wal_hi e} \<and> rec_span v \<inter> free_bytes vm0 = {} \<and>
      (\<forall>h k. dk_live crc32 (sg_kv e) h = Some k \<longrightarrow> kv_span k \<inter> rec_span v = {})"
    using g vm0(2) by fastforce
  note r = register_records_ok [OF vm0(1) hi(1) this, folded vm0_def]
  have eq: "sg_void_manager (recover_voids_via_gap_scan crc32 e) =
      fold (\<lambda>(offset, sz). register_void offset sz) (map (\<lambda>v. (vr_offset v, vr_size v)) ?vs) vm0"
    by (simp add: l(3) replace_all_def vm0_def)
  show "free_bytes (sg_void_manager (recover_voids_via_gap_scan crc32 e)) = \<Union> (rec_span ` set ?vs)"
    using r g vm0(2) by (simp add: eq)
  have "voids_ok (dk_live crc32 (sg_kv e)) (sg_void_manager (recover_voids_via_gap_scan crc32 e)) (wal_hi e)"
    using r g by (simp add: eq)
  from engine_ok_voids [OF ok this] show "engine_ok crc32 blake3 m (recover_voids_via_gap_scan crc32 e)"
    by (simp add: l(3))
qed

end
