(* ===== verification/Engine_Runs.thy ===== *)
theory Engine_Runs
  imports Void_Recovery
begin

text \<open>
  The storage engine as a whole: its operations in any order, as steps on its state, against the contents they
  promise.  Starting from a new database, whatever was stored is read back, whatever was deleted or swept is
  gone, and reused space never damages an entry.  The growth of the index block is outside these runs.
\<close>

section \<open>Operations\<close>

datatype engine_op =
    EStore i64 i64 entry_type bytes bytes u8 compression_algorithm u8
  | EStoreTyped i64 entry_type bytes bytes u8
  | EBatch "nat \<Rightarrow> i64" i64 "batch_entry list"
  | EBatchHead "nat \<Rightarrow> i64" i64 i64 "batch_entry list" bytes
  | EHead i64 bytes
  | EDelete bytes
  | ERemove bytes
  | ERemoveBatch "bytes list"
  | EBeginMark
  | ETakeMark
  | EEndMark
  | ESweep "bytes set" bool
  | EBegin
  | EEnd
  | EFlush
  | ETimer
  | EGapScan

definition done_with :: "('a \<times> storage_engine) fallible \<Rightarrow> storage_engine fallible" where
  "done_with r = fal_bind r (\<lambda>(_, e). Some (Inr e))"

fun engine_step :: "(bytes \<Rightarrow> u32) \<Rightarrow> (bytes \<Rightarrow> bytes) \<Rightarrow> engine_op \<Rightarrow> storage_engine \<Rightarrow> storage_engine fallible" where
  "engine_step crc32 blake3 (EStore now now' et key v fl co ver) e =
    done_with (store_entry_internal crc32 blake3 now now' et key v fl co ver e)"
| "engine_step crc32 blake3 (EStoreTyped now et key v ty) e = done_with (store_entry_typed crc32 blake3 now et key v ty e)"
| "engine_step crc32 blake3 (EBatch now now' bs) e = done_with (flush_batch crc32 blake3 now now' bs e)"
| "engine_step crc32 blake3 (EBatchHead now nowh now' bs hh) e =
    done_with (flush_batch_and_update_head crc32 blake3 now nowh now' bs hh e)"
| "engine_step crc32 blake3 (EHead now hh) e = done_with (update_head crc32 now hh e)"
| "engine_step crc32 blake3 (EDelete h) e = done_with (mark_entry_deleted crc32 h e)"
| "engine_step crc32 blake3 (ERemove h) e = done_with (remove_kv_entry crc32 h e)"
| "engine_step crc32 blake3 (ERemoveBatch hs) e = done_with (remove_kv_entries_batch crc32 hs e)"
| "engine_step crc32 blake3 EBeginMark e = Some (Inr (begin_gc_recheck e))"
| "engine_step crc32 blake3 ETakeMark e = Some (Inr (snd (take_gc_recheck e)))"
| "engine_step crc32 blake3 EEndMark e = Some (Inr (end_gc_recheck e))"
| "engine_step crc32 blake3 (ESweep reachable dry_run) e = done_with (gc_sweep crc32 reachable dry_run e)"
| "engine_step crc32 blake3 EBegin e = Some (Inr (begin_transaction e))"
| "engine_step crc32 blake3 EEnd e = done_with (end_transaction crc32 e)"
| "engine_step crc32 blake3 EFlush e = done_with (force_hot_tail_flush crc32 e)"
| "engine_step crc32 blake3 ETimer e = no_panic (try_flush_hot_buffer crc32 e)"
| "engine_step crc32 blake3 EGapScan e = Some (Inr (recover_voids_via_gap_scan crc32 e))"

fun run_engine :: "(bytes \<Rightarrow> u32) \<Rightarrow> (bytes \<Rightarrow> bytes) \<Rightarrow> engine_op list \<Rightarrow> storage_engine \<Rightarrow> storage_engine fallible" where
  "run_engine crc32 blake3 [] e = Some (Inr e)"
| "run_engine crc32 blake3 (x # xs) e = fal_bind (engine_step crc32 blake3 x e) (run_engine crc32 blake3 xs)"

text \<open>Keys are hashes, and an entry is not stored as deleted.\<close>

fun op_ok :: "engine_op \<Rightarrow> bool" where
  "op_ok (EStore _ _ _ key _ _ _ _) = (length key = 32)"
| "op_ok (EStoreTyped _ _ key _ ty) = (length key = 32 \<and> ty AND KV_FLAG_DELETED = 0)"
| "op_ok (EBatch _ _ bs) = list_all batch_entry_ok bs"
| "op_ok (EBatchHead _ _ _ bs _) = list_all batch_entry_ok bs"
| "op_ok _ = True"

text \<open>The critical section of the operation asks for no growth of the index block.\<close>

fun keeps_block :: "(bytes \<Rightarrow> u32) \<Rightarrow> (bytes \<Rightarrow> bytes) \<Rightarrow> engine_op \<Rightarrow> storage_engine \<Rightarrow> bool" where
  "keeps_block crc32 blake3 (EStore now now' et key v fl co ver) e =
    (case store_entry_locked crc32 blake3 now et key v fl co ver e of
       Some (Inr (_, e1)) \<Rightarrow> dk_needs_expansion (sg_kv e1) = None | _ \<Rightarrow> True)"
| "keeps_block crc32 blake3 (EBatch now now' bs) e =
    (case write_batch_locked crc32 blake3 now bs e of Inr (_, e1) \<Rightarrow> dk_needs_expansion (sg_kv e1) = None | _ \<Rightarrow> True)"
| "keeps_block crc32 blake3 (EBatchHead now nowh now' bs hh) e =
    (case write_batch_locked crc32 blake3 now bs e of Inr (_, e1) \<Rightarrow> dk_needs_expansion (sg_kv e1) = None | _ \<Rightarrow> True)"
| "keeps_block crc32 blake3 _ e = True"

fun no_growth :: "(bytes \<Rightarrow> u32) \<Rightarrow> (bytes \<Rightarrow> bytes) \<Rightarrow> engine_op list \<Rightarrow> storage_engine \<Rightarrow> bool" where
  "no_growth crc32 blake3 [] e = True"
| "no_growth crc32 blake3 (x # xs) e =
    (keeps_block crc32 blake3 x e \<and>
     (case engine_step crc32 blake3 x e of Some (Inr e1) \<Rightarrow> no_growth crc32 blake3 xs e1 | _ \<Rightarrow> True))"

section \<open>The contract\<close>

text \<open>What the operations promise of the contents, and of the keys a sweep spares.\<close>

type_synonym engine_contents = "(bytes \<Rightarrow> content option) \<times> bytes set option"

fun engine_spec :: "engine_op \<Rightarrow> engine_contents \<Rightarrow> engine_contents" where
  "engine_spec (EStore now now' et key v fl co ver) (m, g) = (m(key \<mapsto> Content et fl co ver v), map_option (insert key) g)"
| "engine_spec (EStoreTyped now et key v ty) (m, g) = (m(key \<mapsto> Content et 0 NoCompression CURRENT_ENTRY_VERSION v), g)"
| "engine_spec (EBatch now now' bs) (m, g) = (put_batch bs m, g)"
| "engine_spec (EBatchHead now nowh now' bs hh) (m, g) = (put_batch bs m, g)"
| "engine_spec (EDelete h) (m, g) = (m |` (- {h}), g)"
| "engine_spec (ERemove h) (m, g) = (m |` (- {h}), g)"
| "engine_spec (ERemoveBatch hs) (m, g) = (m |` (- set hs), g)"
| "engine_spec EBeginMark (m, g) = (m, Some {})"
| "engine_spec ETakeMark (m, g) = (m, map_option (\<lambda>_. {}) g)"
| "engine_spec EEndMark (m, g) = (m, None)"
| "engine_spec (ESweep reachable dry_run) (m, g) =
    (if dry_run then m else m |` (reachable \<union> (case g of None \<Rightarrow> {} | Some s \<Rightarrow> s)), g)"
| "engine_spec _ (m, g) = (m, g)"

text \<open>The engine holds these contents.\<close>

definition engine_refines ::
  "(bytes \<Rightarrow> u32) \<Rightarrow> (bytes \<Rightarrow> bytes) \<Rightarrow> engine_contents \<Rightarrow> storage_engine \<Rightarrow> bool" where
  "engine_refines crc32 blake3 a e \<longleftrightarrow> engine_ok crc32 blake3 (fst a) e \<and> map_option set (sg_gc_recheck e) = snd a \<and>
    pred_option (sorted_by id) (sg_gc_recheck e)"

section \<open>What an operation keeps\<close>

lemma recheck_updates [simp]:
  "sg_gc_recheck (with_kv s e) = sg_gc_recheck e" "sg_gc_recheck (with_writer w e) = sg_gc_recheck e"
  "sg_gc_recheck (advance_hot_tail e) = sg_gc_recheck e" "sg_gc_recheck (sync_voids_to_kv_writer e) = sg_gc_recheck e"
  by (simp_all add: with_kv_def with_writer_def advance_hot_tail_def sync_voids_to_kv_writer_def Let_def split: prod.split)

lemma index_insert_recheck: "index_insert crc32 ty key off tot e = Inr e' \<Longrightarrow> sg_gc_recheck e' = sg_gc_recheck e"
  by (auto simp: index_insert_def)

lemma index_batch_recheck: "index_batch crc32 ps e = Inr e' \<Longrightarrow> sg_gc_recheck e' = sg_gc_recheck e"
  by (induction ps arbitrary: e) (auto dest!: index_insert_recheck)

lemma append_batch_recheck: "append_batch blake3 now i bs e = Inr (ps, e') \<Longrightarrow> sg_gc_recheck e' = sg_gc_recheck e"
  by (induction bs arbitrary: e ps i) fastforce+

lemma write_batch_keeps:
  assumes hl: "\<forall>bs. length (blake3 bs) = 32" and r: "write_batch_locked crc32 blake3 now bs e = Inr (offs, e')"
  shows "sg_gc_recheck e' = sg_gc_recheck e" "wal_hi e \<le> wal_hi e'"
proof -
  obtain ps e1 where a: "append_batch blake3 now 0 bs e = Inr (ps, e1)" and i: "index_batch crc32 (zip bs ps) e1 = Inr e'"
    using r by (auto simp: write_batch_locked_def)
  show "sg_gc_recheck e' = sg_gc_recheck e" using append_batch_recheck [OF a] index_batch_recheck [OF i] by simp
  show "wal_hi e \<le> wal_hi e'" using append_batch_hi [OF a hl] index_batch_hi [OF i] by simp
qed

lemma append_end:
  assumes "append_entry_with_compression_and_version blake3 now et key v fl co ver w = Inr (off, tot, w')"
    and "\<forall>bs. length (blake3 bs) = 32"
  shows "aw_offset w' = aw_offset w + unat tot"
  using assms(1) build_entry_header_Inr(3) [OF assms(2)]
  by (fastforce simp: append_entry_with_compression_and_version_def Let_def)

lemma write_slot_keeps:
  assumes hl: "\<forall>bs. length (blake3 bs) = 32"
    and a: "write_slot blake3 now et key v fl co ver e = Some (Inr ((off, tot, changed), e1))"
  shows "sg_gc_recheck e1 = sg_gc_recheck e \<and> wal_hi e \<le> wal_hi e1"
proof -
  obtain n where n: "compute_total_length (sg_hash_algo e) (length key) (length v) = Inr n" using a by (auto simp: write_slot_def)
  obtain lo hi where b: "writer_wal_bounds (sg_writer e) = (lo, hi)" by fastforce
  obtain slot c vm where s: "(if can_reuse_void_for_entry et then consume_void n lo hi (sg_void_manager e) False
          else Some (None, False, sg_void_manager e)) = Some (slot, c, vm)"
    using a unfolding write_slot_def n fal_bind_simps b prod.case by (auto split: option.splits)
  show ?thesis
  proof (cases slot)
    case None
    obtain w where w: "append_entry_with_compression_and_version blake3 now et key v fl co ver (sg_writer e) = Inr (off, tot, w)"
      "e1 = with_writer w (e\<lparr> sg_void_manager := vm \<rparr>)"
      using a unfolding write_slot_def n fal_bind_simps b prod.case s None option.case Let_def by auto
    then show ?thesis using append_end [OF w(1) hl] by (simp add: with_writer_def)
  next
    case (Some p)
    obtain x y where "p = (x, y)" by fastforce
    note p = Some [unfolded this]
    obtain w where w: "write_entry_at_nosync_full_with_version blake3 now (unat x) et key v fl co ver (sg_writer e) = Inr (tot, w)"
      "e1 = with_writer w (e\<lparr> sg_void_manager := vm \<rparr>)"
      using a unfolding write_slot_def n fal_bind_simps b prod.case s p option.case Let_def by auto
    then show ?thesis
      using build_entry_header_Inr(3) [OF hl]
      by (fastforce simp: with_writer_def write_entry_at_nosync_full_with_version_def Let_def)
  qed
qed

lemma store_locked_keeps:
  assumes hl: "\<forall>bs. length (blake3 bs) = 32"
    and r: "store_entry_locked crc32 blake3 now et key v fl co ver e = Some (Inr (off, e'))"
  shows "sg_gc_recheck e' = sg_gc_recheck e" "wal_hi e \<le> wal_hi e'"
proof -
  obtain tot changed e1 e2 where w: "write_slot blake3 now et key v fl co ver e = Some (Inr ((off, tot, changed), e1))"
    and i: "index_insert crc32 (entry_type_to_kv_type et) key off tot (advance_hot_tail e1) = Inr e2"
    and e': "e' = (if changed then sync_voids_to_kv_writer e2 else e2)"
    using r by (auto simp: store_entry_locked_def)
  note k = write_slot_keeps [OF hl w] index_insert_recheck [OF i] index_insert_hi [OF i]
  then show "sg_gc_recheck e' = sg_gc_recheck e" "wal_hi e \<le> wal_hi e'" by (simp_all add: e' sync_voids_hi)
qed

lemma publish_header_recheck: "publish_header crc32 e = Some e' \<Longrightarrow> sg_gc_recheck e' = sg_gc_recheck e"
  by (auto simp: publish_header_def Let_def)

lemma put_head_keeps:
  "put_head crc32 now hh e = Some e' \<Longrightarrow> sg_gc_recheck e' = sg_gc_recheck e"
  "put_head crc32 now hh e = Some e' \<Longrightarrow> dk_needs_expansion (sg_kv e') = dk_needs_expansion (sg_kv e)"
  by (auto simp: put_head_def with_writer_def Let_def split: if_splits)

section \<open>The log only grows\<close>

lemma wal_hi_updates [simp]:
  "wal_hi (with_kv s e) = wal_hi e" "wal_hi (with_writer w e) = aw_offset w" "wal_hi (record_gc_recheck h e) = wal_hi e"
  by (simp_all add: with_kv_def with_writer_def record_gc_recheck_def split: option.split)

lemma guards_Inr [dest!]:
  "operation_guard e r = Some (Inr x) \<Longrightarrow> r = Some (Inr x)" "ensure_writable e r = Some (Inr x) \<Longrightarrow> r = Some (Inr x)"
  by (auto simp: operation_guard_def ensure_writable_def split: if_splits option.splits)

lemma no_panic_Inr [simp]: "no_panic r = Some (Inr x) \<longleftrightarrow> r = Some x"
  by (auto simp: no_panic_def)

lemma done_with_Inr [simp]: "done_with r = Some (Inr e) \<longleftrightarrow> (\<exists>x. r = Some (Inr (x, e)))"
  by (auto simp: done_with_def)

lemma no_pending_growth:
  "dk_needs_expansion (sg_kv e) = None \<Longrightarrow>
    run_pending_expansion crc32 blake3 now e = Some (e\<lparr> sg_kv := (sg_kv e)\<lparr> dk_needs_expansion := None \<rparr> \<rparr>)"
  by (simp add: run_pending_expansion_def Let_def)

lemma update_header_offset: "update_header crc32 hdr w = Some w' \<Longrightarrow> aw_offset w' = aw_offset w"
  using update_header_form by blast

lemma publish_header_hi: "publish_header crc32 e = Some e' \<Longrightarrow> wal_hi e' = wal_hi e"
  by (auto simp: publish_header_def Let_def dest: update_header_offset)

lemma put_head_hi: "put_head crc32 now hh e = Some e' \<Longrightarrow> wal_hi e' = wal_hi e"
  by (auto simp: put_head_def update_file_header_eq set_header_in_memory_def Let_def dest: update_header_offset split: if_splits)

lemma force_hot_tail_flush_hi: "force_hot_tail_flush crc32 e = Some (Inr (u, e')) \<Longrightarrow> wal_hi e' = wal_hi e"
  by (auto simp: force_hot_tail_flush_def Let_def dest!: publish_header_hi split: if_splits)

lemma gc_sweep_hi: "gc_sweep crc32 reachable dry_run e = Some (Inr (c, e')) \<Longrightarrow> wal_hi e' = wal_hi e"
  by (auto simp: gc_sweep_def remove_kv_entries_batch_def sync_voids_hi Let_def dest!: force_hot_tail_flush_hi split: if_splits)

lemma batch_hi:
  assumes "\<forall>bs. length (blake3 bs) = 32" "write_batch_locked crc32 blake3 now bs e = Inr (offs, e1)"
    and "wal_hi e2 = wal_hi e1" "dk_needs_expansion (sg_kv e2) = None" "run_pending_expansion crc32 blake3 now' e2 = Some e'"
  shows "wal_hi e \<le> wal_hi e'"
  using write_batch_keeps(2) [OF assms(1,2)] assms(3-5) by (auto simp: no_pending_growth)

lemma engine_step_hi:
  assumes hl: "\<forall>bs. length (blake3 bs) = 32" and grow: "keeps_block crc32 blake3 x e"
    and r: "engine_step crc32 blake3 x e = Some (Inr e')"
  shows "wal_hi e \<le> wal_hi e'"
proof (cases x)
  case (EStore now now' et key v fl co ver)
  then obtain off e1 e2 where l: "store_entry_locked crc32 blake3 now et key v fl co ver e = Some (Inr (off, e1))"
    and p: "run_pending_expansion crc32 blake3 now' e1 = Some e2" "e' = record_gc_recheck key e2"
    using r by (auto simp: store_entry_internal_def)
  have "dk_needs_expansion (sg_kv e1) = None" using grow l by (simp add: EStore)
  then show ?thesis using store_locked_keeps(2) [OF hl l] p by (auto simp: no_pending_growth)
next
  case (EStoreTyped now et key v ty)
  then obtain off tot w where a: "append_entry_with_compression_and_version blake3 now et key v 0 NoCompression CURRENT_ENTRY_VERSION
      (sg_writer e) = Inr (off, tot, w)"
    and i: "index_insert crc32 ty key off tot (advance_hot_tail (with_writer w e)) = Inr e'"
    using r by (auto simp: store_entry_typed_def append_entry_def append_entry_with_compression_def)
  show ?thesis using append_end [OF a hl] index_insert_hi [OF i] by simp
next
  case (EBatch now now' bs)
  then show ?thesis using r grow batch_hi [OF hl _ refl] by (auto simp: flush_batch_def split: if_splits)
next
  case (EBatchHead now nowh now' bs hh)
  then show ?thesis using r grow batch_hi [OF hl _ put_head_hi] put_head_keeps(2)
    by (fastforce simp: flush_batch_and_update_head_def update_head_def dest: put_head_hi split: if_splits)
next
  case (ESweep reachable dry_run)
  then show ?thesis using r gc_sweep_hi by auto
next
  case EFlush
  then show ?thesis using r force_hot_tail_flush_hi by auto
next
  case EEnd
  then show ?thesis using r by (auto simp: end_transaction_def Let_def dest!: publish_header_hi split: if_splits)
next
  case ETimer
  then show ?thesis using r by (auto simp: try_flush_hot_buffer_def Let_def dest!: publish_header_hi split: if_splits)
next
  case (EHead now hh)
  then show ?thesis using r by (auto simp: update_head_def dest!: put_head_hi)
next
  case (EDelete h)
  then show ?thesis using r by (auto simp: mark_entry_deleted_def Let_def split: prod.splits if_splits)
next
  case EGapScan
  then show ?thesis using r by (auto simp: recover_voids_via_gap_scan_def Let_def split: prod.splits)
qed (use r in \<open>auto simp: remove_kv_entry_def remove_kv_entries_batch_def begin_gc_recheck_def take_gc_recheck_def
    end_gc_recheck_def begin_transaction_def split: option.splits\<close>)

lemma run_engine_hi:
  assumes hl: "\<forall>bs. length (blake3 bs) = 32"
  shows "run_engine crc32 blake3 xs e = Some (Inr e') \<Longrightarrow> no_growth crc32 blake3 xs e \<Longrightarrow> wal_hi e \<le> wal_hi e'"
proof (induction xs arbitrary: e)
  case (Cons x xs)
  then obtain e1 where "engine_step crc32 blake3 x e = Some (Inr e1)" "run_engine crc32 blake3 xs e1 = Some (Inr e')" by auto
  then show ?case using Cons engine_step_hi [OF hl] by fastforce
qed simp

section \<open>Every operation keeps its promise\<close>

lemma refinesI:
  assumes "engine_refines crc32 blake3 (m, g) e" "engine_ok crc32 blake3 m' e'" "sg_gc_recheck e' = sg_gc_recheck e"
  shows "engine_refines crc32 blake3 (m', g) e'"
  using assms by (simp add: engine_refines_def)

lemma record_recheck_ok:
  assumes "engine_refines crc32 blake3 (m, g) e"
  shows "engine_refines crc32 blake3 (m, map_option (insert h) g) (record_gc_recheck h e)"
  using assms hs_insert_correct [of _ h]
  by (auto simp: engine_refines_def record_gc_recheck_def split: option.splits)

lemma refines_layout: "engine_refines crc32 blake3 a e \<Longrightarrow> layout_ok e"
  using engine_okD(1) by (auto simp: engine_refines_def)

lemma store_step_ok:
  assumes hl: "\<forall>bs. length (blake3 bs) = 32" and ok: "engine_refines crc32 blake3 (m, g) e" and key: "length key = 32"
    and grow: "keeps_block crc32 blake3 (EStore now now' et key v fl co ver) e"
    and r: "engine_step crc32 blake3 (EStore now now' et key v fl co ver) e = Some (Inr e')"
    and bound: "wal_hi e' < 2 ^ 64"
  shows "engine_refines crc32 blake3 (m(key \<mapsto> Content et fl co ver v), map_option (insert key) g) e'"
proof -
  obtain off e1 where l: "store_entry_locked crc32 blake3 now et key v fl co ver e = Some (Inr (off, e1))"
    and p: "no_panic (run_pending_expansion crc32 blake3 now' e1) = Some (Inr e2) \<Longrightarrow> e' = record_gc_recheck key e2" for e2
    using r refines_layout [OF ok] by (auto simp: store_entry_internal_def)
  have "dk_needs_expansion (sg_kv e1) = None" using grow l by simp
  then have e': "e' = record_gc_recheck key (e1\<lparr> sg_kv := (sg_kv e1)\<lparr> dk_needs_expansion := None \<rparr> \<rparr>)"
    using p by (simp add: no_pending_growth)
  note k = store_locked_keeps [OF hl l]
  have hi: "wal_hi e' = wal_hi e1" unfolding e' by (simp add: record_gc_recheck_def split: option.split)
  then have "engine_ok crc32 blake3 (m(key \<mapsto> Content et fl co ver v)) e1"
    using bound store_locked_ok [OF hl _ l _ key] ok hi by (simp add: engine_refines_def)
  then have "engine_refines crc32 blake3 (m(key \<mapsto> Content et fl co ver v), g)
      (e1\<lparr> sg_kv := (sg_kv e1)\<lparr> dk_needs_expansion := None \<rparr> \<rparr>)"
    using k(1) by (intro refinesI [OF ok]) simp_all
  then show "engine_refines crc32 blake3 (m(key \<mapsto> Content et fl co ver v), map_option (insert key) g) e'"
    unfolding e' by (rule record_recheck_ok)
qed

lemma typed_step_ok:
  assumes hl: "\<forall>bs. length (blake3 bs) = 32" and ok: "engine_refines crc32 blake3 (m, g) e" and key: "length key = 32"
    and ty: "ty AND KV_FLAG_DELETED = 0"
    and r: "store_entry_typed crc32 blake3 now et key v ty e = Some (Inr (off, e'))"
    and bound: "wal_hi e' < 2 ^ 64"
  shows "engine_refines crc32 blake3 (m(key \<mapsto> Content et 0 NoCompression CURRENT_ENTRY_VERSION v), g) e'"
proof -
  obtain tot w where a: "append_entry_with_compression_and_version blake3 now et key v 0 NoCompression CURRENT_ENTRY_VERSION (sg_writer e)
      = Inr (off, tot, w)"
    and i: "index_insert crc32 ty key off tot (advance_hot_tail (with_writer w e)) = Inr e'"
    using r refines_layout [OF ok] by (auto simp: store_entry_typed_def append_entry_def append_entry_with_compression_def)
  have "engine_ok crc32 blake3 (m(key \<mapsto> Content et 0 NoCompression CURRENT_ENTRY_VERSION v)) e'"
    using store_typed_ok [OF hl _ r bound key ty] ok by (simp add: engine_refines_def)
  then show "engine_refines crc32 blake3 (m(key \<mapsto> Content et 0 NoCompression CURRENT_ENTRY_VERSION v), g) e'"
    using index_insert_recheck [OF i] by (intro refinesI [OF ok]) simp_all
qed

lemma batch_step_ok:
  assumes hl: "\<forall>bs. length (blake3 bs) = 32" and ok: "engine_refines crc32 blake3 (m, g) e"
    and bs: "list_all batch_entry_ok bs"
    and w: "write_batch_locked crc32 blake3 now bs e = Inr (offs, e1)" and grow: "dk_needs_expansion (sg_kv e1) = None"
    and e2: "e2 = e1 \<or> put_head crc32 nowh hh e1 = Some e2"
    and r: "run_pending_expansion crc32 blake3 now' e2 = Some e'"
    and bound: "wal_hi e' < 2 ^ 64"
  shows "engine_refines crc32 blake3 (put_batch bs m, g) e'"
proof -
  have hd: "sg_gc_recheck e2 = sg_gc_recheck e1" "dk_needs_expansion (sg_kv e2) = None" using e2 grow put_head_keeps by auto
  have e': "e' = e2\<lparr> sg_kv := (sg_kv e2)\<lparr> dk_needs_expansion := None \<rparr> \<rparr>" using r hd(2) by (simp add: no_pending_growth)
  have "wal_hi e2 = wal_hi e1" using e2 put_head_hi by auto
  then have hi: "wal_hi e1 < 2 ^ 64" using bound by (simp add: e')
  then have "engine_ok crc32 blake3 (put_batch bs m) e1"
    using write_batch_ok [OF hl _ w hi] ok bs by (simp add: engine_refines_def list_all_iff)
  then have "engine_ok crc32 blake3 (put_batch bs m) e2" using e2 put_head_ok(1) by blast
  then show "engine_refines crc32 blake3 (put_batch bs m, g) e'"
    using write_batch_keeps(1) [OF hl w] hd(1) by (intro refinesI [OF ok]) (simp_all add: e')
qed

lemma mark_step_ok:
  assumes "engine_refines crc32 blake3 (m, g) e"
  shows "engine_refines crc32 blake3 (m, Some {}) (begin_gc_recheck e)"
    "engine_refines crc32 blake3 (m, map_option (\<lambda>_. {}) g) (snd (take_gc_recheck e))"
    "engine_refines crc32 blake3 (m, None) (end_gc_recheck e)"
  using assms
  by (auto simp: engine_refines_def begin_gc_recheck_def take_gc_recheck_def end_gc_recheck_def split: option.split)

lemma sweep_step_ok:
  assumes ok: "engine_refines crc32 blake3 (m, g) e" and r: "gc_sweep crc32 reachable dry_run e = Some (Inr (c, e'))"
  shows "engine_refines crc32 blake3 (if dry_run then m else m |` (reachable \<union> (case g of None \<Rightarrow> {} | Some s \<Rightarrow> s)), g) e'"
proof -
  have e: "engine_ok crc32 blake3 m e" and g: "map_option set (sg_gc_recheck e) = g" using ok by (simp_all add: engine_refines_def)
  have "spared reachable e = reachable \<union> (case g of None \<Rightarrow> {} | Some s \<Rightarrow> s)"
    unfolding g [symmetric] spared_def gc_recheck_contains_def by (cases "sg_gc_recheck e") auto
  with refinesI [OF ok gc_sweep_ok(1,3) [OF e r]] show ?thesis by (simp only:)
qed

lemma transaction_depth_ok:
  assumes "engine_refines crc32 blake3 a e"
  shows "engine_refines crc32 blake3 a (e\<lparr> sg_kv := (sg_kv e)\<lparr> dk_transaction_depth := d \<rparr> \<rparr>)"
  using assms by (simp add: engine_refines_def)

lemma hot_publish_ok:
  assumes ok: "engine_refines crc32 blake3 (m, g) e" and s: "s = flush_hot_buffer crc32 (sg_kv e) \<or> s = force_flush_hot_buffer crc32 (sg_kv e)"
    and r: "e' = with_kv s e \<or> publish_header crc32 (with_kv s e) = Some e'"
  shows "engine_refines crc32 blake3 (m, g) e'"
proof -
  have "engine_ok crc32 blake3 m e" using ok by (simp add: engine_refines_def)
  note h = hot_flush_ok [OF this s]
  have "engine_ok crc32 blake3 m e'" "sg_gc_recheck e' = sg_gc_recheck e"
    using r h publish_header_ok [OF h(1)] publish_header_recheck by auto
  then show ?thesis by (rule refinesI [OF ok])
qed

lemma end_transaction_ok:
  assumes ok: "engine_refines crc32 blake3 (m, g) e" and r: "end_transaction crc32 e = Some (Inr (u, e'))"
  shows "engine_refines crc32 blake3 (m, g) e'"
proof -
  define e1 where "e1 = e\<lparr> sg_kv := (sg_kv e)\<lparr> dk_transaction_depth := dk_transaction_depth (sg_kv e) - 1 \<rparr> \<rparr>"
  have ok1: "engine_refines crc32 blake3 (m, g) e1" unfolding e1_def by (rule transaction_depth_ok [OF ok])
  have "e' = e1 \<or> publish_header crc32 (with_kv (force_flush_hot_buffer crc32 (sg_kv e1)) e1) = Some e'"
    using r unfolding end_transaction_def Let_def e1_def [symmetric] by (auto split: if_splits)
  then show ?thesis
    using ok1 hot_publish_ok [OF ok1, of "force_flush_hot_buffer crc32 (sg_kv e1)" e'] by auto
qed

lemma timer_ok:
  assumes ok: "engine_refines crc32 blake3 (m, g) e" and r: "try_flush_hot_buffer crc32 e = Some e'"
  shows "engine_refines crc32 blake3 (m, g) e'"
  using ok r hot_publish_ok [OF ok, of "flush_hot_buffer crc32 (sg_kv e)" e']
  by (auto simp: try_flush_hot_buffer_def Let_def split: if_splits)

lemma head_step_ok:
  assumes ok: "engine_refines crc32 blake3 (m, g) e" and r: "update_head crc32 now hh e = Some (Inr (u, e'))"
  shows "engine_refines crc32 blake3 (m, g) e'"
proof -
  have e: "engine_ok crc32 blake3 m e" using ok by (simp add: engine_refines_def)
  have p: "put_head crc32 now hh e = Some e'" using r refines_layout [OF ok] by (auto simp: update_head_def)
  show "engine_refines crc32 blake3 (m, g) e'" using put_head_ok(1) [OF e p] put_head_keeps(1) [OF p] by (rule refinesI [OF ok])
qed

lemma delete_step_ok:
  assumes ok: "engine_refines crc32 blake3 (m, g) e"
  shows "mark_entry_deleted crc32 h e = Some (Inr (u, e')) \<Longrightarrow> engine_refines crc32 blake3 (m |` (- {h}), g) e'"
    "remove_kv_entry crc32 h e = Some (Inr (u, e')) \<Longrightarrow> engine_refines crc32 blake3 (m |` (- {h}), g) e'"
    "remove_kv_entries_batch crc32 hs e = Some (Inr (u, e')) \<Longrightarrow>
      engine_refines crc32 blake3 (m |` (- set hs), g) e'"
proof -
  have e: "engine_ok crc32 blake3 m e" using ok by (simp add: engine_refines_def)
  note g = guards_open [OF refines_layout [OF ok]]
  show "engine_refines crc32 blake3 (m |` (- {h}), g) e'"
    if r: "mark_entry_deleted crc32 h e = Some (Inr (u, e'))"
    using refinesI [OF ok mark_entry_deleted_ok(1) [OF e r]] r
    by (auto simp: mark_entry_deleted_def g split: prod.splits if_splits)
  show "engine_refines crc32 blake3 (m |` (- {h}), g) e'"
    if r: "remove_kv_entry crc32 h e = Some (Inr (u, e'))"
    using refinesI [OF ok remove_kv_entry_ok(1) [OF e r]] r
    by (auto simp: remove_kv_entry_def g)
  show "engine_refines crc32 blake3 (m |` (- set hs), g) e'"
    if r: "remove_kv_entries_batch crc32 hs e = Some (Inr (u, e'))"
    using refinesI [OF ok remove_batch_ok(1) [OF e r]] r
    by (auto simp: remove_kv_entries_batch_def g)
qed

lemma flush_batch_cases:
  assumes "layout_ok e" and "flush_batch crc32 blake3 now now' bs e = Some (Inr (offs, e'))"
  shows "bs = [] \<and> e' = e \<or>
    (\<exists>e1. write_batch_locked crc32 blake3 now bs e = Inr (offs, e1) \<and> run_pending_expansion crc32 blake3 now' e1 = Some e')"
  using assms by (auto simp: flush_batch_def split: if_splits)

lemma flush_batch_head_cases:
  assumes "layout_ok e" and "flush_batch_and_update_head crc32 blake3 now nowh now' bs hh e = Some (Inr (offs, e'))"
  shows "bs = [] \<and> update_head crc32 nowh hh e = Some (Inr ((), e')) \<or>
    (\<exists>e1 e2. write_batch_locked crc32 blake3 now bs e = Inr (offs, e1) \<and> put_head crc32 nowh hh e1 = Some e2 \<and>
      run_pending_expansion crc32 blake3 now' e2 = Some e')"
  using assms by (fastforce simp: flush_batch_and_update_head_def split: if_splits)

lemma engine_step_ok:
  assumes hl: "\<forall>bs. length (blake3 bs) = 32" and ok: "engine_refines crc32 blake3 a e" and x: "op_ok x"
    and grow: "keeps_block crc32 blake3 x e" and r: "engine_step crc32 blake3 x e = Some (Inr e')"
    and bound: "wal_hi e' < 2 ^ 64"
  shows "engine_refines crc32 blake3 (engine_spec x a) e'"
proof -
  obtain m g where a: "a = (m, g)" by fastforce
  note ok = ok [unfolded a] and lay = refines_layout [OF ok [unfolded a]]
  show ?thesis
  proof (cases x)
    case (EStore now now' et key v fl co ver)
    then show ?thesis using store_step_ok [OF hl ok _ grow [unfolded EStore] r [unfolded EStore] bound] x by (simp add: a del: fun_upd_apply)
  next
    case (EStoreTyped now et key v ty)
    then obtain off where "store_entry_typed crc32 blake3 now et key v ty e = Some (Inr (off, e'))" using r by auto
    from typed_step_ok [OF hl ok _ _ this bound] show ?thesis using x by (simp add: a EStoreTyped del: fun_upd_apply)
  next
    case (EBatch now now' bs)
    then obtain offs where "flush_batch crc32 blake3 now now' bs e = Some (Inr (offs, e'))" using r by auto
    then consider "bs = []" "e' = e" | e1 where "write_batch_locked crc32 blake3 now bs e = Inr (offs, e1)"
      "run_pending_expansion crc32 blake3 now' e1 = Some e'"
      using flush_batch_cases [OF lay] by blast
    then show ?thesis
    proof cases
      case 1
      then show ?thesis using ok by (simp add: a EBatch)
    next
      case 2
      have "dk_needs_expansion (sg_kv e1) = None" using grow 2 by (simp add: EBatch)
      from batch_step_ok [OF hl ok _ 2(1) this _ 2(2) bound, of undefined undefined] show ?thesis using x by (simp add: a EBatch)
    qed
  next
    case (EBatchHead now nowh now' bs hh)
    then obtain offs where "flush_batch_and_update_head crc32 blake3 now nowh now' bs hh e = Some (Inr (offs, e'))" using r by auto
    then consider "bs = []" "update_head crc32 nowh hh e = Some (Inr ((), e'))"
      | e1 e2 where "write_batch_locked crc32 blake3 now bs e = Inr (offs, e1)" "put_head crc32 nowh hh e1 = Some e2"
        "run_pending_expansion crc32 blake3 now' e2 = Some e'"
      using flush_batch_head_cases [OF lay] by blast
    then show ?thesis
    proof cases
      case 1
      then show ?thesis using head_step_ok [OF ok 1(2)] by (simp add: a EBatchHead)
    next
      case 2
      have "dk_needs_expansion (sg_kv e1) = None" using grow 2 by (simp add: EBatchHead)
      from batch_step_ok [OF hl ok _ 2(1) this _ 2(3) bound, of nowh hh] show ?thesis using x 2(2) by (simp add: a EBatchHead)
    qed
  next
    case (EHead now hh)
    then show ?thesis using r head_step_ok [OF ok] by (auto simp: a)
  next
    case (ESweep reachable dry_run)
    then obtain c where "gc_sweep crc32 reachable dry_run e = Some (Inr (c, e'))" using r by auto
    note s = sweep_step_ok [OF ok this]
    show ?thesis using s by (simp add: a ESweep)
  next
    case EFlush
    then have f: "force_hot_tail_flush crc32 e = Some (Inr ((), e'))" using r by simp
    have "engine_ok crc32 blake3 m e" using ok by (simp add: engine_refines_def)
    from refinesI [OF ok force_hot_tail_flush_ok(1,3) [OF this f]] show ?thesis by (simp add: a EFlush)
  next
    case EBegin
    then have "e' = e\<lparr> sg_kv := (sg_kv e)\<lparr> dk_transaction_depth := dk_transaction_depth (sg_kv e) + 1 \<rparr> \<rparr>"
      using r by (simp add: begin_transaction_def)
    then show ?thesis using transaction_depth_ok [OF ok] by (simp add: a EBegin)
  next
    case EEnd
    then show ?thesis using r end_transaction_ok [OF ok] by (auto simp: a)
  next
    case ETimer
    then show ?thesis using r timer_ok [OF ok] by (auto simp: a)
  next
    case EGapScan
    have "engine_ok crc32 blake3 m e" using ok by (simp add: engine_refines_def)
    from refinesI [OF ok recover_voids_ok(1) [OF this]] live_ranges_ok(3) [OF this] show ?thesis using r by (simp add: a EGapScan)
  qed (use r a mark_step_ok [OF ok] delete_step_ok [OF ok] in auto)
qed

lemma run_engine_ok:
  assumes hl: "\<forall>bs. length (blake3 bs) = 32"
  shows "engine_refines crc32 blake3 a e \<Longrightarrow> list_all op_ok xs \<Longrightarrow> no_growth crc32 blake3 xs e \<Longrightarrow>
    run_engine crc32 blake3 xs e = Some (Inr e') \<Longrightarrow> wal_hi e' < 2 ^ 64 \<Longrightarrow>
    engine_refines crc32 blake3 (fold engine_spec xs a) e'"
proof (induction xs arbitrary: e a)
  case (Cons x xs)
  then obtain e1 where s: "engine_step crc32 blake3 x e = Some (Inr e1)" and r: "run_engine crc32 blake3 xs e1 = Some (Inr e')" by auto
  have g: "keeps_block crc32 blake3 x e" "no_growth crc32 blake3 xs e1" using Cons.prems s by simp_all
  have "wal_hi e1 < 2 ^ 64" using run_engine_hi [OF hl r g(2)] Cons.prems(5) by simp
  from engine_step_ok [OF hl Cons.prems(1) _ g(1) s this]
  show ?case using Cons.IH [OF _ _ g(2) r Cons.prems(5)] Cons.prems(2) by simp
qed simp

section \<open>A store succeeds\<close>

lemma write_slot_defined:
  assumes hl: "\<forall>bs. length (blake3 bs) = 32" and ok: "engine_ok crc32 blake3 m e" and len: "length key = 32" "length v \<le> 2 ^ 30"
  shows "\<exists>off tot changed e1. write_slot blake3 now et key v fl co ver e = Some (Inr ((off, tot, changed), e1)) \<and>
    wal_hi e1 \<le> wal_hi e + 2 ^ 31 \<and> sg_kv e1 = (sg_kv e)\<lparr> dk_db_file := dk_db_file (sg_kv e1) \<rparr>"
proof -
  note d = engine_okD [OF ok]
  have algo: "sg_hash_algo e = Blake3_256" "fh_hash_algo (aw_header (sg_writer e)) = Blake3_256"
    using d(1) by (simp_all add: layout_ok_def)
  obtain n where n: "compute_total_length Blake3_256 (length key) (length v) = Inr n"
    using len by (simp add: compute_total_length_def MAX_KEY_OR_VALUE_BYTES_def)
  have n': "unat n = header_size Blake3_256 + length key + length v" by (rule compute_total_length_exact [OF n])
  then have "0 < n" using entry_span_pos [of Blake3_256] by (simp add: word_less_nat_alt)
  from consume_void_correct [OF d(6) this, of "wal_lo e" False]
  obtain slot c vm where s: "(if can_reuse_void_for_entry et then consume_void n (wal_lo e) (wal_hi e) (sg_void_manager e) False
          else Some (None, False, sg_void_manager e)) = Some (slot, c, vm)"
    by (cases "can_reuse_void_for_entry et") auto
  obtain h w1 where b: "build_entry_header blake3 now et key v fl co ver (sg_writer e) = Inr (h, w1)"
    using build_entry_header_defined [of blake3 now et key v fl co ver "sg_writer e"] len algo(2) by auto
  note bh = build_entry_header_Inr [OF hl b]
  have "unat (eh_total_length h) \<le> 2 ^ 31"
    using b n n' len algo(2) by (auto simp: build_entry_header_def header_size_def FIXED_HEADER_SIZE_def hash_length_def Let_def
        case_prod_unfold)
  then show ?thesis
    unfolding write_slot_def algo(1) n fal_bind_simps d(7) prod.case s option.case Let_def
    by (cases slot) (auto simp: with_writer_def bh(3) b append_entry_with_compression_and_version_def
        write_entry_at_nosync_full_with_version_def Let_def)
qed

lemma store_locked_defined:
  assumes hl: "\<forall>bs. length (blake3 bs) = 32" and ok: "engine_ok crc32 blake3 m e" and len: "length key = 32" "length v \<le> 2 ^ 30"
    and stage: "dk_stage (sg_kv e) + 1 < length KV_STAGE_SIZES" and room: "wal_hi e + 2 ^ 31 < 2 ^ 64"
  shows "\<exists>off e1. store_entry_locked crc32 blake3 now et key v fl co ver e = Some (Inr (off, e1)) \<and> wal_hi e1 \<le> wal_hi e + 2 ^ 31"
proof -
  obtain off tot changed e1 where w: "write_slot blake3 now et key v fl co ver e = Some (Inr ((off, tot, changed), e1))"
    and hi: "wal_hi e1 \<le> wal_hi e + 2 ^ 31" and kv: "sg_kv e1 = (sg_kv e)\<lparr> dk_db_file := dk_db_file (sg_kv e1) \<rparr>"
    using write_slot_defined [OF hl ok len] by blast
  have st: "dk_stage (sg_kv e1) = dk_stage (sg_kv e)" by (subst kv) simp
  have "wal_hi e1 < 2 ^ 64" using hi room by simp
  note p = write_slot_ok [OF hl ok w this len(1) entry_type_not_deleted [of et]]
  have "dk_stage (sg_kv (advance_hot_tail e1)) = dk_stage (sg_kv e)"
    using st by (simp add: advance_hot_tail_def with_kv_def set_hot_tail_offset_def)
  then obtain e2 where i: "index_insert crc32 (entry_type_to_kv_type et) key off tot (advance_hot_tail e1) = Inr e2"
    using index_insert_ok [OF p] stage
    by (cases "index_insert crc32 (entry_type_to_kv_type et) key off tot (advance_hot_tail e1)") simp_all
  show ?thesis using hi index_insert_hi [OF i] by (auto simp: store_entry_locked_def w i sync_voids_hi)
qed

lemma store_defined:
  assumes "layout_ok e" "store_entry_locked crc32 blake3 now et key v fl co ver e = Some (Inr (off, e1))"
    and "dk_needs_expansion (sg_kv e1) = None"
  shows "store_entry_internal crc32 blake3 now now' et key v fl co ver e =
    Some (Inr (off, record_gc_recheck key (e1\<lparr> sg_kv := (sg_kv e1)\<lparr> dk_needs_expansion := None \<rparr> \<rparr>)))"
  using assms by (simp add: store_entry_internal_def no_pending_growth no_panic_def)

section \<open>The first operations of a new database\<close>

lemma header_fits: "hash_length (fh_hash_algo h) = 32 \<Longrightarrow> \<exists>bs. file_header_serialize crc32 h = Some bs"
  by (simp add: file_header_serialize_def FILE_HEADER_SIZE_def Let_def)

lemma engine_create_defined: "\<exists>e. engine_create crc32 now = Some e"
proof -
  obtain w where w: "append_writer_create crc32 now = Some w" "fh_hash_algo (aw_header w) = Blake3_256"
    using header_fits [of "(file_header_new now Blake3_256)\<lparr> fh_sequence := 1 \<rparr>" crc32]
    by (auto simp: append_writer_create_def write_initial_header_def file_header_new_def hash_length_def Let_def)
  have u: "update_header crc32 h w' \<noteq> None" if "fh_hash_algo h = Blake3_256" for h w'
    using that header_fits [of "h\<lparr> fh_updated_at := i64_max (fh_updated_at h) (fh_updated_at (aw_header w')),
        fh_sequence := fh_sequence (aw_header w') + 1 \<rparr>" crc32]
    by (auto simp: update_header_def write_header_to_inactive_slot_def hash_length_def Let_def)
  show ?thesis
    unfolding engine_create_def w(1) option.case Let_def
    by (auto simp: set_offset_def w(2) u split: prod.split option.split)
qed

lemma engine_create_buffers:
  assumes "engine_create crc32 now = Some e"
  shows "dk_write_buffer (sg_kv e) = []" "dk_hot_buffer (sg_kv e) = []" "dk_needs_expansion (sg_kv e) = None" "dk_stage (sg_kv e) = 0"
  using assms by (auto simp: engine_create_def disk_kv_create_def Let_def split: option.splits prod.splits)

lemma insert_small:
  assumes "length (dk_write_buffer s) < WRITE_BUFFER_THRESHOLD - 1" "length (dk_hot_buffer s) < HOT_BUFFER_THRESHOLD - 1"
    and "disk_kv_insert crc32 s k = Inr s'"
  shows "dk_needs_expansion s' = dk_needs_expansion s"
proof -
  have "length (AList.update (kv_hash k) k xs) \<le> Suc (length xs)" for xs :: "(bytes \<times> kv_entry) list"
    by (induction xs) auto
  from this [of "dk_write_buffer s"] show ?thesis
    using assms by (auto simp: disk_kv_insert_def publish_buffer_only_def Let_def split: if_splits)
qed

lemma store_locked_small:
  assumes "length (dk_write_buffer (sg_kv e)) < WRITE_BUFFER_THRESHOLD - 1" "length (dk_hot_buffer (sg_kv e)) < HOT_BUFFER_THRESHOLD - 1"
    and "store_entry_locked crc32 blake3 now et key v fl co ver e = Some (Inr (off, e1))"
    and hl: "\<forall>bs. length (blake3 bs) = 32" and ok: "engine_ok crc32 blake3 m e" and len: "length key = 32" "length v \<le> 2 ^ 30"
  shows "dk_needs_expansion (sg_kv e1) = dk_needs_expansion (sg_kv e)"
proof -
  obtain off' tot changed e0 where w: "write_slot blake3 now et key v fl co ver e = Some (Inr ((off', tot, changed), e0))"
    and kv: "sg_kv e0 = (sg_kv e)\<lparr> dk_db_file := dk_db_file (sg_kv e0) \<rparr>"
    using write_slot_defined [OF hl ok len] by blast
  obtain e2 where i: "index_insert crc32 (entry_type_to_kv_type et) key off' tot (advance_hot_tail e0) = Inr e2"
    and e1: "e1 = (if changed then sync_voids_to_kv_writer e2 else e2)"
    using assms(3) by (auto simp: store_entry_locked_def w)
  have f: "dk_write_buffer (sg_kv (advance_hot_tail e0)) = dk_write_buffer (sg_kv e)"
    "dk_hot_buffer (sg_kv (advance_hot_tail e0)) = dk_hot_buffer (sg_kv e)"
    "dk_needs_expansion (sg_kv (advance_hot_tail e0)) = dk_needs_expansion (sg_kv e)"
    by (simp_all add: advance_hot_tail_def with_kv_def set_hot_tail_offset_def, (subst kv, simp)+)
  have "dk_needs_expansion (sg_kv e2) = dk_needs_expansion (sg_kv e)"
    using i insert_small [of "sg_kv (advance_hot_tail e0)"] assms(1,2)
    by (auto simp: index_insert_def with_kv_def f)
  moreover have "dk_needs_expansion (sg_kv (sync_voids_to_kv_writer e2)) = dk_needs_expansion (sg_kv e2)"
    by (simp add: sync_voids_to_kv_writer_def set_pending_voids_def sanitize_pending_voids_def with_kv_def Let_def split: prod.split)
  ultimately show ?thesis by (simp add: e1)
qed

lemma first_store_runs:
  assumes hl: "\<forall>bs. length (blake3 bs) = 32" and c: "engine_create crc32 now = Some e" and len: "length key = 32" "length v \<le> 2 ^ 30"
  shows "\<exists>e'. run_engine crc32 blake3 [EStore now now' et key v fl co ver] e = Some (Inr e') \<and>
    no_growth crc32 blake3 [EStore now now' et key v fl co ver] e \<and> aw_offset (sg_writer e') + 2 ^ 31 < 2 ^ 64"
proof -
  note ok = engine_create_ok(1) [OF c, of blake3] engine_create_ok(2,3) [OF c] and b = engine_create_buffers [OF c]
  have st: "dk_stage (sg_kv e) + 1 < length KV_STAGE_SIZES" and room: "wal_hi e + 2 ^ 31 < 2 ^ 64"
    using ok(3) b(4) by (simp_all add: KV_STAGE_SIZES_def file_header_sizes initial_block_size_def)
  obtain off e1 where l: "store_entry_locked crc32 blake3 now et key v fl co ver e = Some (Inr (off, e1))" "wal_hi e1 \<le> wal_hi e + 2 ^ 31"
    using store_locked_defined [OF hl ok(1) len st room] by blast
  have g: "dk_needs_expansion (sg_kv e1) = None"
    using store_locked_small [OF _ _ l(1) hl ok(1) len] b by (simp add: WRITE_BUFFER_THRESHOLD_def HOT_BUFFER_THRESHOLD_def)
  note r = store_defined [OF engine_okD(1) [OF ok(1)] l(1) g, of now']
  show ?thesis
    using l(2) ok(3) by (simp add: r done_with_def l(1) g file_header_sizes initial_block_size_def KV_STAGE_SIZES_def)
qed

abbreviation sample_store :: engine_op where
  "sample_store \<equiv> EStore 0 0 Chunk (replicate 32 7) [1, 2, 3] 0 NoCompression 1"

lemma sample_run:
  obtains e e' where "engine_create (\<lambda>_. 0) 0 = Some e" "run_engine (\<lambda>_. 0) (\<lambda>_. replicate 32 0) [sample_store] e = Some (Inr e')"
    "no_growth (\<lambda>_. 0) (\<lambda>_. replicate 32 0) [sample_store] e" "aw_offset (sg_writer e') < 2 ^ 64"
proof -
  obtain e where c: "engine_create (\<lambda>_. 0) 0 = Some e" using engine_create_defined by blast
  have hl: "\<forall>bs. length ((\<lambda>_. replicate 32 0 :: bytes) (bs :: bytes)) = 32" by simp
  have "\<exists>e'. run_engine (\<lambda>_. 0) (\<lambda>_. replicate 32 0) [sample_store] e = Some (Inr e') \<and>
      no_growth (\<lambda>_. 0) (\<lambda>_. replicate 32 0) [sample_store] e \<and> aw_offset (sg_writer e') + 2 ^ 31 < 2 ^ 64"
    by (rule first_store_runs [OF hl c]) simp_all
  then obtain e' where r: "run_engine (\<lambda>_. 0) (\<lambda>_. replicate 32 0) [sample_store] e = Some (Inr e')"
    "no_growth (\<lambda>_. 0) (\<lambda>_. replicate 32 0) [sample_store] e" and b: "aw_offset (sg_writer e') + 2 ^ 31 < 2 ^ 64"
    by blast
  have "aw_offset (sg_writer e') < 2 ^ 64" using b by simp
  then show thesis by (rule that [OF c r])
qed

section \<open>The engine against its contract\<close>

text \<open>
  C1: Whatever sequence of operations runs on a new database, a read returns what the last operation on its key
  left.  The operations are stores of every kind, batches, moves of the head, deletions, the bookkeeping and the
  sweep of the garbage collector, transactions, flushes and recoveries of voids, in any order and number;
  \<open>engine_spec\<close> says what each leaves.  So an entry stored into reused space never damages another, a stored entry survives every later
  operation that does not name it, the sweep takes exactly what it was not told to spare, and both reads (plain
  and with the hash verified) return type, flags, compression, version and bytes as they were stored.  Sequences
  in which the index block grows are not covered, and the log stays below the 64-bit range of offsets.
\<close>

theorem engine_reads_what_was_left:
  assumes hl: "\<forall>bs. length (blake3 bs) = 32" and c: "engine_create crc32 now = Some e"
    and xs: "list_all op_ok xs" "no_growth crc32 blake3 xs e"
    and r: "run_engine crc32 blake3 xs e = Some (Inr e')" and bound: "aw_offset (sg_writer e') < 2 ^ 64"
  shows "reads_as (get_entry crc32 blake3 e' key) key (fst (fold engine_spec xs (Map.empty, None)) key) \<and>
    reads_as (get_entry_verified crc32 blake3 e' key) key (fst (fold engine_spec xs (Map.empty, None)) key)"
proof -
  have "engine_refines crc32 blake3 (Map.empty, None) e" using engine_create_ok [OF c] by (simp add: engine_refines_def)
  then have "engine_refines crc32 blake3 (fold engine_spec xs (Map.empty, None)) e'" using run_engine_ok [OF hl _ xs r] bound by simp
  then show ?thesis using reads_correct by (simp add: engine_refines_def)
qed

theorem engine_reads_what_was_left_witness:
  "\<exists>e e'. engine_create (\<lambda>_. 0) 0 = Some e \<and> run_engine (\<lambda>_. 0) (\<lambda>_. replicate 32 0) [sample_store] e = Some (Inr e') \<and>
    reads_as (get_entry (\<lambda>_. 0) (\<lambda>_. replicate 32 0) e' (replicate 32 7)) (replicate 32 7)
      (Some (Content Chunk 0 NoCompression 1 [1, 2, 3]))"
proof -
  obtain e e' where c: "engine_create (\<lambda>_. 0) 0 = Some e"
    and r: "run_engine (\<lambda>_. 0) (\<lambda>_. replicate 32 0) [sample_store] e = Some (Inr e')"
    and g: "no_growth (\<lambda>_. 0) (\<lambda>_. replicate 32 0) [sample_store] e" and b: "aw_offset (sg_writer e') < 2 ^ 64"
    by (rule sample_run)
  have hl: "\<forall>bs. length ((\<lambda>_. replicate 32 0 :: bytes) (bs :: bytes)) = 32" by simp
  have "reads_as (get_entry (\<lambda>_. 0) (\<lambda>_. replicate 32 0) e' (replicate 32 7)) (replicate 32 7)
      (Some (Content Chunk 0 NoCompression 1 [1, 2, 3]))"
    using engine_reads_what_was_left [OF hl c _ g r b, of "replicate 32 7"] by simp
  then show ?thesis using c r by (intro exI conjI)
qed

text \<open>
  C6: A store does not fail.  In whatever state a sequence of operations on a new database leaves the engine, the
  critical section of a store of at most one GiB under a 32-byte key returns an offset, as long as the index is
  below its last stage and the log has room below the 64-bit limit: the loop that looks for reusable space ends,
  and neither the writer nor the index refuses.  When that does not ask for a larger index block the whole store
  succeeds with this offset, the entry is read back as it was stored, and every other key reads as before.
\<close>

theorem store_succeeds:
  assumes hl: "\<forall>bs. length (blake3 bs) = 32" and c: "engine_create crc32 now = Some e"
    and xs: "list_all op_ok xs" "no_growth crc32 blake3 xs e" and r: "run_engine crc32 blake3 xs e = Some (Inr e')"
    and room: "aw_offset (sg_writer e') + 2 ^ 31 < 2 ^ 64" "dk_stage (sg_kv e') + 1 < length KV_STAGE_SIZES"
    and len: "length key = 32" "length v \<le> 2 ^ 30"
  shows "\<exists>off e1. store_entry_locked crc32 blake3 now1 et key v fl co ver e' = Some (Inr (off, e1)) \<and>
    (dk_needs_expansion (sg_kv e1) = None \<longrightarrow>
      (\<exists>e2. store_entry_internal crc32 blake3 now1 now2 et key v fl co ver e' = Some (Inr (off, e2)) \<and>
        (\<forall>k. reads_as (get_entry crc32 blake3 e2 k) k
          (((fst (fold engine_spec xs (Map.empty, None)))(key \<mapsto> Content et fl co ver v)) k))))"
proof -
  let ?a = "fold engine_spec xs (Map.empty, None)"
  have "engine_refines crc32 blake3 (Map.empty, None) e" using engine_create_ok [OF c] by (simp add: engine_refines_def)
  then have ok: "engine_refines crc32 blake3 (fst ?a, snd ?a) e'" using run_engine_ok [OF hl _ xs r] room by simp
  then have e': "engine_ok crc32 blake3 (fst ?a) e'" by (simp add: engine_refines_def)
  obtain off e1 where l: "store_entry_locked crc32 blake3 now1 et key v fl co ver e' = Some (Inr (off, e1))" "wal_hi e1 \<le> wal_hi e' + 2 ^ 31"
    using store_locked_defined [OF hl e' len room(2,1)] by blast
  have "engine_ok crc32 blake3 ((fst ?a)(key \<mapsto> Content et fl co ver v)) e1"
    using store_locked_ok [OF hl e' l(1) _ len(1)] l(2) room(1) by simp
  then have "engine_ok crc32 blake3 ((fst ?a)(key \<mapsto> Content et fl co ver v))
      (record_gc_recheck key (e1\<lparr> sg_kv := (sg_kv e1)\<lparr> dk_needs_expansion := None \<rparr> \<rparr>))"
    by (simp add: record_gc_recheck_def split: option.split)
  then show ?thesis using l(1) store_defined [OF refines_layout [OF ok] l(1)] reads_correct(1) by fastforce
qed

theorem store_succeeds_witness:
  "\<exists>e off e1. engine_create (\<lambda>_. 0) 0 = Some e \<and>
    store_entry_locked (\<lambda>_. 0) (\<lambda>_. replicate 32 0) 1 FileRecord (replicate 32 5) [9] 0 NoCompression 1 e = Some (Inr (off, e1))"
proof -
  obtain e where c: "engine_create (\<lambda>_. 0) 0 = Some e" using engine_create_defined by blast
  have hl: "\<forall>bs. length ((\<lambda>_. replicate 32 0 :: bytes) (bs :: bytes)) = 32" by simp
  have room: "aw_offset (sg_writer e) + 2 ^ 31 < 2 ^ 64" "dk_stage (sg_kv e) + 1 < length KV_STAGE_SIZES"
    using engine_create_ok(3) [OF c] engine_create_buffers(4) [OF c]
    by (simp_all add: file_header_sizes initial_block_size_def KV_STAGE_SIZES_def)
  have "\<exists>off e1. store_entry_locked (\<lambda>_. 0) (\<lambda>_. replicate 32 0) 1 FileRecord (replicate 32 5) [9] 0 NoCompression 1 e = Some (Inr (off, e1))"
    using store_succeeds [OF hl c, of "[]" e "replicate 32 5" "[9]" 1 FileRecord 0 NoCompression 1 2] room by auto
  then show ?thesis using c by blast
qed

text \<open>
  C13: The voids recovered from the gaps of the log are free.  In whatever state a sequence of operations on a new
  database leaves the engine, the scan registers voids that do not overlap, that lie between the index block and
  the end of the log, and that share no byte with a live entry.  In a log below 4 GiB they are every such byte in
  front of the end of the last live entry; only the cap of a gap at 32 bits can lose one there.  Free bytes between
  the last live entry and the end of the log are not registered, although the documentation says that every range
  up to the end of the log is.
\<close>

theorem gap_scan_recovers_free_bytes:
  assumes hl: "\<forall>bs. length (blake3 bs) = 32" and c: "engine_create crc32 now = Some e"
    and xs: "list_all op_ok xs" "no_growth crc32 blake3 xs e"
    and r: "run_engine crc32 blake3 xs e = Some (Inr e')" and bound: "aw_offset (sg_writer e') < 2 ^ 64"
    and vm: "vm = sg_void_manager (recover_voids_via_gap_scan crc32 e')"
    and ks: "ks = set (rs_iter_all crc32 (dk_snapshot (sg_kv e')))"
  shows "voids_disjoint (voids vm) \<and> free_bytes vm \<subseteq> {wal_lo e' ..< aw_offset (sg_writer e')} \<and> (\<forall>k\<in>ks. kv_span k \<inter> free_bytes vm = {}) \<and>
    (aw_offset (sg_writer e') < 2 ^ 32 \<longrightarrow>
      free_bytes vm = {wal_lo e' ..< ranges_end (live_ranges crc32 e') (wal_lo e')} - \<Union> (kv_span ` ks))"
proof -
  have "engine_refines crc32 blake3 (Map.empty, None) e" using engine_create_ok [OF c] by (simp add: engine_refines_def)
  then have "engine_refines crc32 blake3 (fold engine_spec xs (Map.empty, None)) e'" using run_engine_ok [OF hl _ xs r] bound by simp
  then obtain m where ok: "engine_ok crc32 blake3 m e'" by (auto simp: engine_refines_def)
  note d = engine_okD [OF ok] and rec = recover_voids_ok [OF ok] and l = live_ranges_ok [OF ok]
  note g = gap_scan_safe [OF l(1) d(2,4)]
  have "voids_disjoint (voids vm)" using engine_okD(6) [OF rec(1)] by (simp add: vm voids_ok_def)
  moreover have "free_bytes vm \<subseteq> {wal_lo e' ..< aw_offset (sg_writer e')}" using g unfolding vm rec(2) by blast
  moreover have "\<forall>k\<in>ks. kv_span k \<inter> free_bytes vm = {}"
  proof
    fix k
    assume "k \<in> ks"
    then have "kv_span k \<in> void_span ` set (live_ranges crc32 e')" unfolding l(2) ks by (rule imageI)
    then show "kv_span k \<inter> free_bytes vm = {}" using g unfolding vm rec(2) by blast
  qed
  moreover have "free_bytes vm = {wal_lo e' ..< ranges_end (live_ranges crc32 e') (wal_lo e')} - \<Union> (kv_span ` ks)"
    if "aw_offset (sg_writer e') < 2 ^ 32"
    unfolding vm rec(2) ks l(2) [symmetric] by (rule gap_scan_exact [OF l(1) that d(4)])
  ultimately show ?thesis by blast
qed

theorem gap_scan_recovers_free_bytes_witness:
  "\<exists>e e'. engine_create (\<lambda>_. 0) 0 = Some e \<and> run_engine (\<lambda>_. 0) (\<lambda>_. replicate 32 0) [sample_store] e = Some (Inr e') \<and>
    voids_disjoint (voids (sg_void_manager (recover_voids_via_gap_scan (\<lambda>_. 0) e')))"
proof -
  obtain e e' where c: "engine_create (\<lambda>_. 0) 0 = Some e"
    and r: "run_engine (\<lambda>_. 0) (\<lambda>_. replicate 32 0) [sample_store] e = Some (Inr e')"
    and g: "no_growth (\<lambda>_. 0) (\<lambda>_. replicate 32 0) [sample_store] e" and b: "aw_offset (sg_writer e') < 2 ^ 64"
    by (rule sample_run)
  have hl: "\<forall>bs. length ((\<lambda>_. replicate 32 0 :: bytes) (bs :: bytes)) = 32" by simp
  have "list_all op_ok [sample_store]" by simp
  from gap_scan_recovers_free_bytes [OF hl c this g r b refl refl, THEN conjunct1] show ?thesis using c r by (intro exI conjI)
qed

end
