(* ===== verification/Access_Control.thy ===== *)
theory Access_Control
  imports Path_Utils
begin

text \<open>
  Who may do what at a path: the flags of permission links (\<^verbatim>\<open>permissions.rs\<close>), their resolution along a path
  (\<^verbatim>\<open>permission_resolver.rs\<close>), the index of grants that lets users walk down to what is shared with them
  (\<^verbatim>\<open>grants_index.rs\<close>), and the rules of API keys (\<^verbatim>\<open>api_key_rules.rs\<close>).  The caches are functions: the groups
  of a user and the permissions stored at a directory are arguments.  The lemmas say which link decides, which
  letters an API key grants, and what the index of grants does with links that only deny.
\<close>

unbundle bit_operations_syntax

section \<open>Flags\<close>

definition CRUDLIFY_LETTERS :: str where
  "CRUDLIFY_LETTERS = lit ''crudlify''"

text \<open>The characters of a UTF-8 string, each as its bytes.\<close>

definition continuation :: "u8 \<Rightarrow> bool" where
  "continuation b \<longleftrightarrow> b AND 0xC0 = 0x80"

function utf8_chars :: "str \<Rightarrow> bytes list" where
  "utf8_chars [] = []"
| "utf8_chars (b # bs) = (b # takeWhile continuation bs) # utf8_chars (dropWhile continuation bs)"
  by pat_completeness auto
termination
  by (relation "measure length") (auto simp: le_imp_less_Suc length_dropWhile_le)

record permission_link =
  pl_group :: str
  pl_allow :: str
  pl_deny :: str
  pl_others_allow :: "str option"
  pl_others_deny :: "str option"
  pl_path_pattern :: "str option"

type_synonym path_permissions = "permission_link list"

definition parse_crudlify_flags :: "str \<Rightarrow> bool option list" where
  "parse_crudlify_flags flags =
    (let chars = utf8_chars flags in
     map (\<lambda>index. if index < length chars \<and> chars ! index = [CRUDLIFY_LETTERS ! index] then Some True else None) [0..<8])"

definition merge_flags :: "bool option list \<Rightarrow> bool option list \<Rightarrow> bool option list" where
  "merge_flags target source =
    map (\<lambda>index. if source ! index = Some True then Some True else target ! index) [0..<8]"

section \<open>Levels of a path\<close>

definition starts_with :: "'a list \<Rightarrow> 'a list \<Rightarrow> bool" where
  "starts_with s p \<longleftrightarrow> take (length p) s = p"

definition ends_with_slash :: "str \<Rightarrow> bool" where
  "ends_with_slash s \<longleftrightarrow> s \<noteq> [] \<and> last s = slash"

definition path_levels :: "str \<Rightarrow> str list" where
  "path_levels path =
    (let trimmed = trim_end_slashes (dropWhile (\<lambda>b. b = slash) path) in
     if trimmed = [] then [[slash]]
     else let segments = split_on slash trimmed;
              directory_segment_count = (if ends_with_slash path then length segments else length segments - 1) in
       [slash] # map (\<lambda>i. concat (map (\<lambda>s. slash # s) (take i segments))) [1..<Suc directory_segment_count])"

section \<open>Resolving permissions\<close>

datatype crudlify_op = Create | Read | Update | Delete | OpList | Invoke | Configure | Deploy

fun op_index :: "crudlify_op \<Rightarrow> nat" where
  "op_index Create = 0"
| "op_index Read = 1"
| "op_index Update = 2"
| "op_index Delete = 3"
| "op_index OpList = 4"
| "op_index Invoke = 5"
| "op_index Configure = 6"
| "op_index Deploy = 7"

type_synonym uuid = "128 word"

definition is_root :: "uuid \<Rightarrow> bool" where
  "is_root user_id \<longleftrightarrow> user_id = 0"

definition with_leading_slash :: "str \<Rightarrow> str" where
  "with_leading_slash path = (if starts_with path [slash] then path else slash # path)"

text \<open>A link with a pattern applies at the parent of the target only, to the file of that name.\<close>

definition link_applies :: "str \<Rightarrow> str \<Rightarrow> permission_link \<Rightarrow> bool" where
  "link_applies path level link =
    (case pl_path_pattern link of
       None \<Rightarrow> True
     | Some pattern \<Rightarrow>
         let trimmed = trim_end_slashes path;
             target_parent = (case rfind slash trimmed of
               Some idx \<Rightarrow> if idx = 0 then [slash] else take idx trimmed
             | None \<Rightarrow> [slash]) in
         trim_end_slashes level = trim_end_slashes target_parent \<and> last (split_on slash trimmed) = pattern)"

definition merge_optional :: "bool option list \<Rightarrow> str option \<Rightarrow> bool option list" where
  "merge_optional target flags = (case flags of Some f \<Rightarrow> merge_flags target (parse_crudlify_flags f) | None \<Rightarrow> target)"

definition apply_link ::
  "str list \<Rightarrow> str \<Rightarrow> str \<Rightarrow> permission_link \<Rightarrow> bool option list \<times> bool option list \<Rightarrow> bool option list \<times> bool option list" where
  "apply_link user_groups path level link acc =
    (case acc of (level_allow, level_deny) \<Rightarrow>
       if \<not> link_applies path level link then acc
       else if pl_group link \<in> set user_groups
       then (merge_flags level_allow (parse_crudlify_flags (pl_allow link)),
             merge_flags level_deny (parse_crudlify_flags (pl_deny link)))
       else (merge_optional level_allow (pl_others_allow link), merge_optional level_deny (pl_others_deny link)))"

definition apply_level :: "str list \<Rightarrow> str \<Rightarrow> str \<Rightarrow> path_permissions \<Rightarrow> bool list \<Rightarrow> bool list" where
  "apply_level user_groups path level links state =
    (let (level_allow, level_deny) =
           fold (apply_link user_groups path level) links (replicate 8 None, replicate 8 None) in
     map (\<lambda>index. let s = (if level_allow ! index = Some True then True else state ! index) in
       if level_deny ! index = Some True then False else s) [0..<8])"

fun walk_levels ::
  "(str \<Rightarrow> path_permissions option engine_result) \<Rightarrow> str list \<Rightarrow> str \<Rightarrow> str list \<Rightarrow> bool list \<Rightarrow> bool list engine_result" where
  "walk_levels perms_of user_groups path [] state = Inr state"
| "walk_levels perms_of user_groups path (level # levels) state =
    res_bind (perms_of level) (\<lambda>permissions.
      case permissions of
        None \<Rightarrow> walk_levels perms_of user_groups path levels state
      | Some links \<Rightarrow> walk_levels perms_of user_groups path levels (apply_level user_groups path level links state))"

definition check_direct_permission ::
  "(uuid \<Rightarrow> str list engine_result) \<Rightarrow> (str \<Rightarrow> path_permissions option engine_result) \<Rightarrow> uuid \<Rightarrow> str \<Rightarrow> crudlify_op \<Rightarrow>
    bool engine_result" where
  "check_direct_permission groups_of perms_of user_id path operation =
    (if is_root user_id then Inr True
     else let path = with_leading_slash path in
       res_bind (groups_of user_id) (\<lambda>user_groups.
       res_bind (walk_levels perms_of user_groups path (path_levels path) (replicate 8 False)) (\<lambda>state.
         Inr (state ! op_index operation))))"

definition check_path_permission ::
  "(uuid \<Rightarrow> str list engine_result) \<Rightarrow> (str \<Rightarrow> path_permissions option engine_result) \<Rightarrow> uuid \<Rightarrow> str \<Rightarrow> crudlify_op \<Rightarrow>
    bool engine_result" where
  "check_path_permission groups_of perms_of user_id path operation =
    res_bind (check_direct_permission groups_of perms_of user_id path operation) (\<lambda>direct.
      if direct then Inr True
      else if ends_with_slash path then Inr False
      else check_direct_permission groups_of perms_of user_id (path @ [slash]) operation)"

section \<open>The index of grants\<close>

record grant_record =
  gr_dir_path :: str
  gr_allow :: str
  gr_deny :: str
  gr_others_allow :: "str option"
  gr_others_deny :: "str option"
  gr_path_pattern :: "str option"

definition target_path :: "grant_record \<Rightarrow> str" where
  "target_path r =
    (case gr_path_pattern r of
       Some name \<Rightarrow> if gr_dir_path r = [slash] then slash # name else gr_dir_path r @ slash # name
     | None \<Rightarrow> gr_dir_path r)"

type_synonym grants_index = "grant_record list hmap"

definition normalize_for_compare :: "str \<Rightarrow> str" where
  "normalize_for_compare path = (if length path > 1 then trim_end_slashes path else path)"

definition path_is_ancestor_or_equal :: "str \<Rightarrow> str \<Rightarrow> bool" where
  "path_is_ancestor_or_equal ancestor target =
    (let a = normalize_for_compare ancestor; t = normalize_for_compare target in
     if a = t then True
     else if a = [slash] then starts_with t [slash]
     else if \<not> starts_with t a then False
     else starts_with (drop (length a) t) [slash])"

definition path_is_strict_ancestor :: "str \<Rightarrow> str \<Rightarrow> bool" where
  "path_is_strict_ancestor ancestor target =
    (let a = normalize_for_compare ancestor; t = normalize_for_compare target in
     if a = t then False else path_is_ancestor_or_equal a t)"

definition strip_prefix :: "'a list \<Rightarrow> 'a list \<Rightarrow> 'a list option" where
  "strip_prefix s p = (if starts_with s p then Some (drop (length p) s) else None)"

definition next_segment_below :: "str \<Rightarrow> str \<Rightarrow> str option" where
  "next_segment_below parent target =
    (let p = normalize_for_compare parent in
     case (if p = [slash] then strip_prefix target [slash]
           else Option.bind (strip_prefix target p) (\<lambda>after. strip_prefix after [slash])) of
       None \<Rightarrow> None
     | Some stripped \<Rightarrow> if stripped = [] then None else Some (hd (split_on slash stripped)))"

definition records_of :: "grants_index \<Rightarrow> str list \<Rightarrow> grant_record list" where
  "records_of index user_groups =
    concat (map (\<lambda>group. case hm_get index group of Some rs \<Rightarrow> rs | None \<Rightarrow> []) user_groups)"

definition user_has_descendant_grants :: "grants_index \<Rightarrow> str list \<Rightarrow> str \<Rightarrow> bool" where
  "user_has_descendant_grants index user_groups path =
    (\<exists>r\<in>set (records_of index user_groups). path_is_strict_ancestor path (target_path r))"

definition index_accessible_child_names :: "grants_index \<Rightarrow> str list \<Rightarrow> str \<Rightarrow> str list" where
  "index_accessible_child_names index user_groups parent =
    fold hs_insert (List.map_filter (\<lambda>r. next_segment_below parent (target_path r)) (records_of index user_groups)) []"

text \<open>
  Building the index: the permission files a scan of the tree found, in its order, with what each holds, or
  nothing when it cannot be read.
\<close>

definition add_grant :: "str \<Rightarrow> permission_link \<Rightarrow> grants_index \<Rightarrow> grants_index" where
  "add_grant dir_path link index =
    hm_insert (pl_group link)
      ((case hm_get index (pl_group link) of Some rs \<Rightarrow> rs | None \<Rightarrow> []) @
        [\<lparr> gr_dir_path = dir_path, gr_allow = pl_allow link, gr_deny = pl_deny link,
           gr_others_allow = pl_others_allow link, gr_others_deny = pl_others_deny link,
           gr_path_pattern = pl_path_pattern link \<rparr>]) index"

definition permission_dir :: "str \<Rightarrow> str option" where
  "permission_dir path =
    (let suffix = lit ''/.aeordb-permissions'' in
     if length suffix \<le> length path \<and> drop (length path - length suffix) path = suffix
     then (let stripped = take (length path - length suffix) path in Some (if stripped = [] then [slash] else stripped))
     else None)"

definition add_permission_file :: "(str \<Rightarrow> path_permissions option) \<Rightarrow> str \<Rightarrow> grants_index \<Rightarrow> grants_index" where
  "add_permission_file permission_file path index =
    (case permission_file path of
       None \<Rightarrow> index
     | Some links \<Rightarrow>
         (case permission_dir path of
            None \<Rightarrow> index
          | Some dir_path \<Rightarrow> fold (add_grant dir_path) links index))"

definition load_grants_index :: "str list option \<Rightarrow> (str \<Rightarrow> path_permissions option) \<Rightarrow> grants_index" where
  "load_grants_index perm_files permission_file =
    (case perm_files of None \<Rightarrow> [] | Some files \<Rightarrow> fold (add_permission_file permission_file) files [])"

definition has_descendant_grants ::
  "(uuid \<Rightarrow> str list engine_result) \<Rightarrow> grants_index engine_result \<Rightarrow> uuid \<Rightarrow> str \<Rightarrow> bool engine_result" where
  "has_descendant_grants groups_of grants user_id path =
    (if is_root user_id then Inr True
     else res_bind (groups_of user_id) (\<lambda>user_groups.
       if user_groups = [] then Inr False
       else res_bind grants (\<lambda>index. Inr (user_has_descendant_grants index user_groups (with_leading_slash path)))))"

definition accessible_child_names ::
  "(uuid \<Rightarrow> str list engine_result) \<Rightarrow> grants_index engine_result \<Rightarrow> uuid \<Rightarrow> str \<Rightarrow> str list engine_result" where
  "accessible_child_names groups_of grants user_id parent =
    (if is_root user_id then Inr []
     else res_bind (groups_of user_id) (\<lambda>user_groups.
       if user_groups = [] then Inr []
       else res_bind grants (\<lambda>index. Inr (index_accessible_child_names index user_groups (with_leading_slash parent)))))"

definition check_permission ::
  "(uuid \<Rightarrow> str list engine_result) \<Rightarrow> (str \<Rightarrow> path_permissions option engine_result) \<Rightarrow> grants_index engine_result \<Rightarrow>
    uuid \<Rightarrow> str \<Rightarrow> crudlify_op \<Rightarrow> bool engine_result" where
  "check_permission groups_of perms_of grants user_id path operation =
    (if is_root user_id then Inr True
     else res_bind (check_direct_permission groups_of perms_of user_id path operation) (\<lambda>direct.
       if direct then Inr True
       else if operation = Read \<or> operation = OpList then has_descendant_grants groups_of grants user_id path
       else Inr False))"

section \<open>Rules of API keys\<close>

record key_rule =
  kr_glob :: str
  kr_permitted :: str

definition FLAG_CHARS :: str where
  "FLAG_CHARS = lit ''crudlify''"

abbreviation dash :: u8 where "dash \<equiv> 0x2D"

definition validate_flags :: "str \<Rightarrow> (string, unit) sum" where
  "validate_flags flags =
    (if length flags \<noteq> 8 then Inl ''Flags string must be exactly 8 characters''
     else if list_all (\<lambda>(position, character). character = [FLAG_CHARS ! position] \<or> character = [dash])
       (List.enumerate 0 (utf8_chars flags))
     then Inr () else Inl ''Invalid character'')"

fun validate_rules :: "key_rule list \<Rightarrow> (string, unit) sum" where
  "validate_rules [] = Inr ()"
| "validate_rules (rule # rules) =
    (if kr_glob rule = [] then Inl ''Rule glob pattern cannot be empty''
     else if length (kr_glob rule) > 1024 then Inl ''Glob pattern too long''
     else case validate_flags (kr_permitted rule) of Inl e \<Rightarrow> Inl e | Inr _ \<Rightarrow> validate_rules rules)"

definition match_rules :: "(str \<Rightarrow> str \<Rightarrow> bool) \<Rightarrow> key_rule list \<Rightarrow> str \<Rightarrow> key_rule option" where
  "match_rules glob_match rules path = List.find (\<lambda>rule. glob_match (kr_glob rule) path) rules"

function trim_end_stars :: "str \<Rightarrow> str" where
  "trim_end_stars s = (if 2 \<le> length s \<and> drop (length s - 2) s = lit ''**'' then trim_end_stars (take (length s - 2) s) else s)"
  by pat_completeness auto
termination
  by (relation "measure length") auto

declare trim_end_stars.simps [simp del]

definition rule_target :: "key_rule \<Rightarrow> str" where
  "rule_target rule = trim_end_slashes (trim_end_stars (trim_end_slashes (kr_glob rule)))"

definition leads_to :: "str \<Rightarrow> str \<Rightarrow> bool" where
  "leads_to normalized target \<longleftrightarrow> starts_with target normalized \<and>
    (length target = length normalized \<or> length normalized < length target \<and> target ! length normalized = slash)"

definition is_ancestor_of_any_rule :: "key_rule list \<Rightarrow> str \<Rightarrow> bool" where
  "is_ancestor_of_any_rule rules path =
    list_ex (\<lambda>rule. kr_glob rule \<noteq> lit ''**'' \<and> leads_to (trim_end_slashes path) (rule_target rule)) rules"

definition is_item_on_shared_path :: "(str \<Rightarrow> str \<Rightarrow> bool) \<Rightarrow> key_rule list \<Rightarrow> str \<Rightarrow> bool" where
  "is_item_on_shared_path glob_match rules item_path =
    list_ex (\<lambda>rule. kr_glob rule \<noteq> lit ''**'' \<and>
      (glob_match (kr_glob rule) item_path \<or> leads_to (trim_end_slashes item_path) (rule_target rule))) rules"

fun index_of :: "'a \<Rightarrow> 'a list \<Rightarrow> nat option" where
  "index_of x [] = None"
| "index_of x (y # ys) = (if x = y then Some 0 else map_option Suc (index_of x ys))"

definition check_operation_permitted :: "str \<Rightarrow> u8 \<Rightarrow> bool" where
  "check_operation_permitted permitted operation =
    (case index_of operation FLAG_CHARS of
       None \<Rightarrow> False
     | Some index \<Rightarrow>
         let chars = utf8_chars permitted in
         if index < length chars then chars ! index \<noteq> [dash] else False)"

fun operation_to_flag_char :: "crudlify_op \<Rightarrow> char" where
  "operation_to_flag_char Create = CHR ''c''"
| "operation_to_flag_char Read = CHR ''r''"
| "operation_to_flag_char Update = CHR ''u''"
| "operation_to_flag_char Delete = CHR ''d''"
| "operation_to_flag_char OpList = CHR ''l''"
| "operation_to_flag_char Invoke = CHR ''i''"
| "operation_to_flag_char Configure = CHR ''y''"
| "operation_to_flag_char Deploy = CHR ''f''"

section \<open>Which link decides\<close>

definition has_letter :: "str \<Rightarrow> nat \<Rightarrow> bool" where
  "has_letter flags i \<longleftrightarrow> i < length (utf8_chars flags) \<and> utf8_chars flags ! i = [CRUDLIFY_LETTERS ! i]"

lemma parse_flags_nth: "i < 8 \<Longrightarrow> parse_crudlify_flags flags ! i = Some True \<longleftrightarrow> has_letter flags i"
  by (simp add: parse_crudlify_flags_def has_letter_def Let_def)

lemma merge_flags_nth: "i < 8 \<Longrightarrow> merge_flags t s ! i = Some True \<longleftrightarrow> s ! i = Some True \<or> t ! i = Some True"
  by (simp add: merge_flags_def)

lemma merge_optional_nth:
  "i < 8 \<Longrightarrow> merge_optional t f ! i = Some True \<longleftrightarrow> (\<exists>x. f = Some x \<and> has_letter x i) \<or> t ! i = Some True"
  by (auto simp: merge_optional_def merge_flags_nth parse_flags_nth split: option.split)

text \<open>What one link says about an operation to a user with these groups.\<close>

definition link_allows :: "str list \<Rightarrow> str \<Rightarrow> str \<Rightarrow> nat \<Rightarrow> permission_link \<Rightarrow> bool" where
  "link_allows gs path level i link \<longleftrightarrow> link_applies path level link \<and>
    (if pl_group link \<in> set gs then has_letter (pl_allow link) i else \<exists>f. pl_others_allow link = Some f \<and> has_letter f i)"

definition link_denies :: "str list \<Rightarrow> str \<Rightarrow> str \<Rightarrow> nat \<Rightarrow> permission_link \<Rightarrow> bool" where
  "link_denies gs path level i link \<longleftrightarrow> link_applies path level link \<and>
    (if pl_group link \<in> set gs then has_letter (pl_deny link) i else \<exists>f. pl_others_deny link = Some f \<and> has_letter f i)"

lemma apply_link_nth:
  assumes "i < 8"
  shows "fst (apply_link gs path level link acc) ! i = Some True \<longleftrightarrow> link_allows gs path level i link \<or> fst acc ! i = Some True"
    "snd (apply_link gs path level link acc) ! i = Some True \<longleftrightarrow> link_denies gs path level i link \<or> snd acc ! i = Some True"
  using assms
  by (auto simp: apply_link_def link_allows_def link_denies_def merge_flags_nth merge_optional_nth parse_flags_nth split: prod.split)

lemma apply_links_nth:
  assumes "i < 8"
  shows "fst (fold (apply_link gs path level) links acc) ! i = Some True \<longleftrightarrow>
      (\<exists>l\<in>set links. link_allows gs path level i l) \<or> fst acc ! i = Some True"
    "snd (fold (apply_link gs path level) links acc) ! i = Some True \<longleftrightarrow>
      (\<exists>l\<in>set links. link_denies gs path level i l) \<or> snd acc ! i = Some True"
  by (induction links arbitrary: acc) (auto simp: apply_link_nth [OF assms])

lemma apply_level_nth:
  assumes "i < 8"
  shows "apply_level gs path level links state ! i \<longleftrightarrow>
    \<not> (\<exists>l\<in>set links. link_denies gs path level i l) \<and> ((\<exists>l\<in>set links. link_allows gs path level i l) \<or> state ! i)"
  using assms apply_links_nth [OF assms, of gs path level links "(replicate 8 None, replicate 8 None)"]
  by (simp add: apply_level_def Let_def case_prod_unfold)

definition level_allows :: "(str \<Rightarrow> path_permissions option) \<Rightarrow> str list \<Rightarrow> str \<Rightarrow> nat \<Rightarrow> str \<Rightarrow> bool" where
  "level_allows perms gs path i level \<longleftrightarrow> (\<exists>links. perms level = Some links \<and> (\<exists>l\<in>set links. link_allows gs path level i l))"

definition level_denies :: "(str \<Rightarrow> path_permissions option) \<Rightarrow> str list \<Rightarrow> str \<Rightarrow> nat \<Rightarrow> str \<Rightarrow> bool" where
  "level_denies perms gs path i level \<longleftrightarrow> (\<exists>links. perms level = Some links \<and> (\<exists>l\<in>set links. link_denies gs path level i l))"

text \<open>Some level allows, and neither it nor a deeper one denies.\<close>

fun allowed_from :: "(str \<Rightarrow> path_permissions option) \<Rightarrow> str list \<Rightarrow> str \<Rightarrow> nat \<Rightarrow> bool \<Rightarrow> str list \<Rightarrow> bool" where
  "allowed_from perms gs path i b [] = b"
| "allowed_from perms gs path i b (level # levels) =
    allowed_from perms gs path i (\<not> level_denies perms gs path i level \<and> (level_allows perms gs path i level \<or> b)) levels"

lemma walk_levels_nth:
  assumes perms: "\<And>l. perms_of l = Inr (perms l)" and i: "i < 8"
  shows "\<exists>s'. walk_levels perms_of gs path levels s = Inr s' \<and> s' ! i = allowed_from perms gs path i (s ! i) levels"
proof (induction levels arbitrary: s)
  case (Cons level levels)
  show ?case
  proof (cases "perms level")
    case None
    then have "\<not> level_denies perms gs path i level" "\<not> level_allows perms gs path i level"
      by (simp_all add: level_denies_def level_allows_def)
    then show ?thesis using Cons [of s] None by (simp add: perms)
  next
    case (Some links)
    then have "level_denies perms gs path i level = (\<exists>l\<in>set links. link_denies gs path level i l)"
      "level_allows perms gs path i level = (\<exists>l\<in>set links. link_allows gs path level i l)"
      by (simp_all add: level_denies_def level_allows_def)
    then show ?thesis using Cons [of "apply_level gs path level links s"] Some by (simp add: perms apply_level_nth [OF i])
  qed
qed simp

lemma allowed_from_iff:
  "allowed_from perms gs path i b levels \<longleftrightarrow>
    (\<exists>pre level post. levels = pre @ level # post \<and> level_allows perms gs path i level \<and>
      (\<forall>l\<in>set (level # post). \<not> level_denies perms gs path i l)) \<or>
    b \<and> (\<forall>l\<in>set levels. \<not> level_denies perms gs path i l)"
proof (induction levels arbitrary: b)
  case (Cons x levels)
  have split: "(\<exists>pre level post. x # levels = pre @ level # post \<and> P level post) \<longleftrightarrow>
      P x levels \<or> (\<exists>pre level post. levels = pre @ level # post \<and> P level post)" for P
    by (auto simp: Cons_eq_append_conv)
  show ?case unfolding allowed_from.simps Cons.IH split by auto
qed simp

lemma op_index_less [simp]: "op_index operation < 8"
  by (cases operation) simp_all

text \<open>
  C16: Which link decides.  For a user other than root, an operation is permitted directly at a path exactly when
  some directory level of the path has a link that allows it to the user and neither that level nor a deeper one
  has a link that denies it: deny wins within a level, the deeper level wins between levels, and nothing is
  permitted by default.  A link speaks to a user through its group flags if the user is a member of its group
  and through its flags for others if not, and a link with a pattern speaks only about the file of that name in
  its directory.
\<close>

theorem direct_permission_decided:
  assumes "\<not> is_root user_id" "groups_of user_id = Inr gs" "\<And>l. perms_of l = Inr (perms l)"
    and p: "p = with_leading_slash path" and i: "i = op_index operation"
  shows "check_direct_permission groups_of perms_of user_id path operation =
    Inr (\<exists>pre level post. path_levels p = pre @ level # post \<and> level_allows perms gs p i level \<and>
      (\<forall>l\<in>set (level # post). \<not> level_denies perms gs p i l))"
proof -
  have "i < 8" by (simp add: i)
  from walk_levels_nth [where perms_of = perms_of, OF assms(3) this, of gs p "path_levels p" "replicate 8 False"]
  obtain s where "walk_levels perms_of gs p (path_levels p) (replicate 8 False) = Inr s"
    "s ! i = allowed_from perms gs p i False (path_levels p)"
    using \<open>i < 8\<close> by auto
  then show ?thesis
    using assms(1,2) by (simp add: check_direct_permission_def p [symmetric] i [symmetric] allowed_from_iff del: allowed_from.simps)
qed

text \<open>A member of \<open>g\<close> may read and list below \<open>/a\<close>, but not list \<open>/a/b\<close>.\<close>

definition sample_perms :: "str \<Rightarrow> path_permissions option" where
  "sample_perms level =
    (let link = \<lparr> pl_group = lit ''g'', pl_allow = lit ''.r..l...'', pl_deny = lit ''........'', pl_others_allow = None,
           pl_others_deny = None, pl_path_pattern = None \<rparr> in
     if level = lit ''/a'' then Some [link]
     else if level = lit ''/a/b'' then Some [link\<lparr> pl_deny := lit ''....l...'' \<rparr>]
     else None)"

lemma lit_simps [simp]: "lit [] = []" "lit (c # cs) = of_char c # lit cs"
  by (simp_all add: lit_def)

theorem direct_permission_decided_witness:
  "\<exists>pre level post. path_levels (lit ''/a/b/c'') = pre @ level # post \<and> level_allows sample_perms [lit ''g''] (lit ''/a/b/c'') 1 level \<and>
    (\<forall>l\<in>set (level # post). \<not> level_denies sample_perms [lit ''g''] (lit ''/a/b/c'') 1 l)"
proof -
  have "check_direct_permission (\<lambda>_. Inr [lit ''g'']) (\<lambda>l. Inr (sample_perms l)) 1 (lit ''/a/b/c'') Read = Inr True"
    by code_simp
  then show ?thesis
    using direct_permission_decided [where groups_of = "\<lambda>_. Inr [lit ''g'']" and perms_of = "\<lambda>l. Inr (sample_perms l)" and
        perms = sample_perms and user_id = 1 and path = "lit ''/a/b/c''" and operation = Read, OF _ refl refl refl refl]
    by (simp add: is_root_def with_leading_slash_def starts_with_def)
qed

section \<open>Links that only deny\<close>

definition has_record :: "grants_index \<Rightarrow> str \<Rightarrow> grant_record \<Rightarrow> bool" where
  "has_record index g r \<longleftrightarrow> (\<exists>rs. hm_get index g = Some rs \<and> r \<in> set rs)"

definition grant_of :: "str \<Rightarrow> permission_link \<Rightarrow> grant_record" where
  "grant_of dir_path link = \<lparr> gr_dir_path = dir_path, gr_allow = pl_allow link, gr_deny = pl_deny link,
     gr_others_allow = pl_others_allow link, gr_others_deny = pl_others_deny link, gr_path_pattern = pl_path_pattern link \<rparr>"

lemma add_grant_ok:
  assumes "sorted_by fst index"
  shows "sorted_by fst (add_grant d link index)" "has_record (add_grant d link index) (pl_group link) (grant_of d link)"
    "has_record index g r \<Longrightarrow> has_record (add_grant d link index) g r"
  using hm_insert_correct [OF assms] by (auto simp: add_grant_def has_record_def grant_of_def)

lemma add_grants_ok:
  assumes "sorted_by fst index"
  shows "sorted_by fst (fold (add_grant d) links index)"
    "link \<in> set links \<Longrightarrow> has_record (fold (add_grant d) links index) (pl_group link) (grant_of d link)"
    "has_record index g r \<Longrightarrow> has_record (fold (add_grant d) links index) g r"
proof -
  show "sorted_by fst (fold (add_grant d) links index)"
    using assms by (induction links arbitrary: index) (simp_all add: add_grant_ok)
  have keep: "sorted_by fst index \<Longrightarrow> has_record index g r \<Longrightarrow> has_record (fold (add_grant d) links index) g r" for index links g r
    by (induction links arbitrary: index) (simp_all add: add_grant_ok)
  then show "has_record index g r \<Longrightarrow> has_record (fold (add_grant d) links index) g r" using assms .
  show "link \<in> set links \<Longrightarrow> has_record (fold (add_grant d) links index) (pl_group link) (grant_of d link)"
    using assms by (induction links arbitrary: index) (auto simp: add_grant_ok intro: keep)
qed

lemma add_permission_file_ok:
  assumes "sorted_by fst index"
  shows "sorted_by fst (add_permission_file pf f index)"
    "pf f = Some links \<Longrightarrow> permission_dir f = Some d \<Longrightarrow> link \<in> set links \<Longrightarrow>
      has_record (add_permission_file pf f index) (pl_group link) (grant_of d link)"
    "has_record index g r \<Longrightarrow> has_record (add_permission_file pf f index) g r"
  using add_grants_ok [OF assms] assms by (auto simp: add_permission_file_def split: option.split)

lemma load_grants_index_records:
  assumes "f \<in> set files" "pf f = Some links" "permission_dir f = Some d" "link \<in> set links"
  shows "has_record (load_grants_index (Some files) pf) (pl_group link) (grant_of d link)"
proof -
  have keep: "sorted_by fst index \<Longrightarrow> has_record index g r \<Longrightarrow> has_record (fold (add_permission_file pf) fs index) g r" for index fs g r
    by (induction fs arbitrary: index) (simp_all add: add_permission_file_ok)
  have "sorted_by fst index \<Longrightarrow> f \<in> set fs \<Longrightarrow> has_record (fold (add_permission_file pf) fs index) (pl_group link) (grant_of d link)" for index fs
    using assms(2-4) by (induction fs arbitrary: index) (auto simp: add_permission_file_ok intro: keep)
  from this [of "[]" files] show ?thesis using assms(1) by (simp add: load_grants_index_def)
qed

text \<open>
  C39: Any link opens the way down to it.  Once a permission file below a path has a link for one of the groups of
  a user, \<^verbatim>\<open>check_permission\<close> lets the user read and list the path, although the direct check denies it.  The
  flags of the link do not matter: the index of grants records every link, so a link that allows nothing and only
  denies gives its group read and list access to every directory above it.
\<close>

theorem any_link_opens_ancestors:
  assumes "\<not> is_root user_id" "groups_of user_id = Inr gs" "pl_group link \<in> set gs"
    and "f \<in> set files" "permission_file f = Some links" "permission_dir f = Some d" "link \<in> set links"
    and "path_is_strict_ancestor (with_leading_slash path) (target_path (grant_of d link))"
    and "check_direct_permission groups_of perms_of user_id path operation = Inr False" "operation = Read \<or> operation = OpList"
  shows "check_permission groups_of perms_of (Inr (load_grants_index (Some files) permission_file)) user_id path operation = Inr True"
proof -
  let ?index = "load_grants_index (Some files) permission_file"
  obtain rs where "hm_get ?index (pl_group link) = Some rs" "grant_of d link \<in> set rs"
    using load_grants_index_records [where pf = permission_file, OF assms(4-7)] by (auto simp: has_record_def)
  then have "grant_of d link \<in> set (records_of ?index gs)" using assms(3) by (force simp: records_of_def)
  then have "user_has_descendant_grants ?index gs (with_leading_slash path)"
    using assms(8) by (auto simp: user_has_descendant_grants_def)
  moreover have "gs \<noteq> []" using assms(3) by auto
  ultimately show ?thesis using assms(1,2,9,10) by (simp add: check_permission_def has_descendant_grants_def)
qed

definition deny_all_link :: permission_link where
  "deny_all_link = \<lparr> pl_group = lit ''g'', pl_allow = lit ''........'', pl_deny = lit ''crudlify'', pl_others_allow = None,
     pl_others_deny = None, pl_path_pattern = None \<rparr>"

theorem any_link_opens_ancestors_witness:
  "check_direct_permission (\<lambda>_. Inr [lit ''g'']) (\<lambda>_. Inr None) 1 (lit ''/a'') OpList = Inr False \<and>
   check_permission (\<lambda>_. Inr [lit ''g'']) (\<lambda>_. Inr None)
     (Inr (load_grants_index (Some [lit ''/a/b/.aeordb-permissions'']) (\<lambda>_. Some [deny_all_link]))) 1 (lit ''/a'') OpList = Inr True"
proof -
  have d: "check_direct_permission (\<lambda>_. Inr [lit ''g'']) (\<lambda>_. Inr None) 1 (lit ''/a'') OpList = Inr False" by code_simp
  have p: "permission_dir (lit ''/a/b/.aeordb-permissions'') = Some (lit ''/a/b'')" by code_simp
  have a: "path_is_strict_ancestor (with_leading_slash (lit ''/a'')) (target_path (grant_of (lit ''/a/b'') deny_all_link))" by code_simp
  show ?thesis
    using d any_link_opens_ancestors [where link = deny_all_link and gs = "[lit ''g'']" and groups_of = "\<lambda>_. Inr [lit ''g'']",
        OF _ refl _ list.set_intros(1) refl p list.set_intros(1) a d]
    by (simp add: is_root_def deny_all_link_def)
qed

section \<open>The letters of an API key\<close>

lemma concat_utf8_chars: "concat (utf8_chars s) = s"
  by (induction s rule: utf8_chars.induct) simp_all

lemma single_chars: "\<forall>c\<in>set (utf8_chars s). \<exists>b. c = [b] \<Longrightarrow> utf8_chars s = map (\<lambda>b. [b]) s"
proof -
  have "\<forall>c\<in>set cs. \<exists>b. c = [b] \<Longrightarrow> cs = map (\<lambda>b. [b]) (concat cs)" for cs :: "bytes list"
    by (induction cs) auto
  from this [of "utf8_chars s"] show "\<forall>c\<in>set (utf8_chars s). \<exists>b. c = [b] \<Longrightarrow> utf8_chars s = map (\<lambda>b. [b]) s"
    by (simp add: concat_utf8_chars)
qed

lemma valid_flags_nth:
  assumes "validate_flags flags = Inr ()"
  shows "utf8_chars flags = map (\<lambda>b. [b]) flags" "length flags = 8"
    "i < 8 \<Longrightarrow> flags ! i = CRUDLIFY_LETTERS ! i \<or> flags ! i = dash"
proof -
  have len: "length flags = 8" and v: "list_all (\<lambda>(position, character). character = [FLAG_CHARS ! position] \<or> character = [dash])
      (List.enumerate 0 (utf8_chars flags))"
    using assms by (auto simp: validate_flags_def split: if_splits)
  have nth: "utf8_chars flags ! j = [FLAG_CHARS ! j] \<or> utf8_chars flags ! j = [dash]" if "j < length (utf8_chars flags)" for j
    using v that by (auto simp: list_all_length nth_enumerate_eq)
  then have "\<forall>c\<in>set (utf8_chars flags). \<exists>b. c = [b]" by (metis in_set_conv_nth)
  then show u: "utf8_chars flags = map (\<lambda>b. [b]) flags" by (rule single_chars)
  show "length flags = 8" by (rule len)
  show "flags ! i = CRUDLIFY_LETTERS ! i \<or> flags ! i = dash" if "i < 8"
    using nth [of i] that len by (simp add: u CRUDLIFY_LETTERS_def FLAG_CHARS_def)
qed

text \<open>The position a letter of an operation has in the flags of a key.\<close>

definition key_position :: "crudlify_op \<Rightarrow> nat" where
  "key_position operation = (if operation = Configure then 7 else if operation = Deploy then 6 else op_index operation)"

lemma index_of_flag: "index_of (of_char (operation_to_flag_char operation)) FLAG_CHARS = Some (key_position operation)"
  by (cases operation) (simp_all add: FLAG_CHARS_def key_position_def)

lemma letter_not_dash: "i < 8 \<Longrightarrow> CRUDLIFY_LETTERS ! i \<noteq> dash"
proof -
  assume "i < 8"
  then have "CRUDLIFY_LETTERS ! i \<in> set CRUDLIFY_LETTERS" by (intro nth_mem) (simp add: CRUDLIFY_LETTERS_def)
  moreover have "dash \<notin> set CRUDLIFY_LETTERS" by (simp add: CRUDLIFY_LETTERS_def)
  ultimately show "CRUDLIFY_LETTERS ! i \<noteq> dash" by metis
qed

text \<open>
  C40: The flags of API keys and of permission links disagree.  For flags that pass the validation of key rules,
  an API key grants an operation exactly when a link with the same flags would, except that configure and deploy
  are exchanged: the letter in the seventh place is configure for a link and deploy for a key, and the letter in
  the last place is deploy for a link and configure for a key.
\<close>

theorem key_flags_exchange_configure_and_deploy:
  assumes "validate_flags flags = Inr ()"
  shows "check_operation_permitted flags (of_char (operation_to_flag_char operation)) \<longleftrightarrow>
    parse_crudlify_flags flags ! (case operation of Configure \<Rightarrow> op_index Deploy | Deploy \<Rightarrow> op_index Configure | x \<Rightarrow> op_index x) = Some True"
proof -
  note v = valid_flags_nth [OF assms]
  have k: "key_position operation < 8" by (cases operation) (simp_all add: key_position_def)
  have "(case operation of Configure \<Rightarrow> op_index Deploy | Deploy \<Rightarrow> op_index Configure | x \<Rightarrow> op_index x) = key_position operation"
    by (cases operation) (simp_all add: key_position_def)
  moreover have "check_operation_permitted flags (of_char (operation_to_flag_char operation)) \<longleftrightarrow> flags ! key_position operation \<noteq> dash"
    using k v(1,2) by (simp add: check_operation_permitted_def index_of_flag)
  moreover have "has_letter flags (key_position operation) \<longleftrightarrow> flags ! key_position operation = CRUDLIFY_LETTERS ! key_position operation"
    using k v(1,2) by (simp add: has_letter_def)
  ultimately show ?thesis using parse_flags_nth [OF k] v(3) [OF k] letter_not_dash [OF k] by auto
qed

theorem key_flags_exchange_configure_and_deploy_witness:
  "check_operation_permitted (lit ''crudlif-'') (of_char (operation_to_flag_char Deploy)) \<and>
   parse_crudlify_flags (lit ''crudlif-'') ! op_index Deploy \<noteq> Some True"
proof -
  have "validate_flags (lit ''crudlif-'') = Inr ()" by code_simp
  from key_flags_exchange_configure_and_deploy [OF this, of Deploy]
  have "check_operation_permitted (lit ''crudlif-'') (of_char (operation_to_flag_char Deploy)) \<longleftrightarrow>
    parse_crudlify_flags (lit ''crudlif-'') ! op_index Configure = Some True" by simp
  moreover have "parse_crudlify_flags (lit ''crudlif-'') ! op_index Configure = Some True"
    "parse_crudlify_flags (lit ''crudlif-'') ! op_index Deploy \<noteq> Some True" by code_simp+
  ultimately show ?thesis by simp
qed

end
