(* ===== verification/NVT_Masks.thy ===== *)
theory NVT_Masks
  imports NVT
begin

text \<open>
  Bit masks over the buckets of a normalized vector table (\<^verbatim>\<open>nvt_ops.rs\<close>), with which queries combine several
  indexes.  A mask is a vector of 64-bit words; indexing beyond it panics in the code and cannot happen for the
  masks the constructors make.  The lemmas show that the operations on words are the operations on sets of
  buckets, and how much the sampled variants of the conjunction keep of it.
\<close>

unbundle bit_operations_syntax

section \<open>Masks\<close>

record nvt_mask =
  nm_bucket_count :: nat
  nm_bits :: "u64 list"

definition words_needed :: "nat \<Rightarrow> nat" where
  "words_needed bucket_count = (bucket_count + 63) div 64"

definition mask_new :: "nat \<Rightarrow> nvt_mask" where
  "mask_new bucket_count = \<lparr> nm_bucket_count = bucket_count, nm_bits = replicate (words_needed bucket_count) 0 \<rparr>"

definition low_bits :: "nat \<Rightarrow> u64" where
  "low_bits n = push_bit n 1 - 1"

definition all_on :: "nat \<Rightarrow> nvt_mask" where
  "all_on bucket_count =
    (let bits = replicate (words_needed bucket_count) (- 1);
         remainder = bucket_count mod 64 in
     \<lparr> nm_bucket_count = bucket_count,
       nm_bits = (if remainder > 0 \<and> bits \<noteq> [] then bits[length bits - 1 := low_bits remainder] else bits) \<rparr>)"

definition set_mask_bit :: "nat \<Rightarrow> nvt_mask \<Rightarrow> nvt_mask" where
  "set_mask_bit index m =
    (if index \<ge> nm_bucket_count m then m
     else m\<lparr> nm_bits := (nm_bits m)[index div 64 := nm_bits m ! (index div 64) OR push_bit (index mod 64) 1] \<rparr>)"

definition get_mask_bit :: "nvt_mask \<Rightarrow> nat \<Rightarrow> bool" where
  "get_mask_bit m index =
    (if index \<ge> nm_bucket_count m then False
     else nm_bits m ! (index div 64) AND push_bit (index mod 64) 1 \<noteq> 0)"

definition clear_mask_bit :: "nat \<Rightarrow> nvt_mask \<Rightarrow> nvt_mask" where
  "clear_mask_bit index m =
    (if index \<ge> nm_bucket_count m then m
     else m\<lparr> nm_bits := (nm_bits m)[index div 64 := nm_bits m ! (index div 64) AND NOT (push_bit (index mod 64) 1)] \<rparr>)"

definition mask_from_nvt :: "'c normalized_vector_table \<Rightarrow> nvt_mask" where
  "mask_from_nvt t =
    fold (\<lambda>index m. if nb_entry_count (nvt_buckets t ! index) > 0 then set_mask_bit index m else m)
      [0..<length (nvt_buckets t)] (mask_new (length (nvt_buckets t)))"

definition mask_from_range :: "nat \<Rightarrow> nat \<Rightarrow> nat \<Rightarrow> nvt_mask" where
  "mask_from_range bucket_count start_bucket end_bucket =
    fold set_mask_bit [min start_bucket bucket_count..<min end_bucket bucket_count] (mask_new bucket_count)"

section \<open>Operations\<close>

definition require_same_bucket_count :: "nvt_mask \<Rightarrow> nvt_mask \<Rightarrow> unit engine_result" where
  "require_same_bucket_count a b =
    (if nm_bucket_count a \<noteq> nm_bucket_count b then Inl (CorruptEntry 0 ''NVTMask bucket count mismatch'') else Inr ())"

definition mask_zip :: "(u64 \<Rightarrow> u64 \<Rightarrow> u64) \<Rightarrow> nvt_mask \<Rightarrow> nvt_mask \<Rightarrow> nvt_mask engine_result" where
  "mask_zip f a b = res_bind (require_same_bucket_count a b) (\<lambda>_.
    Inr \<lparr> nm_bucket_count = nm_bucket_count a, nm_bits = map2 f (nm_bits a) (nm_bits b) \<rparr>)"

definition mask_and :: "nvt_mask \<Rightarrow> nvt_mask \<Rightarrow> nvt_mask engine_result" where
  "mask_and a b = mask_zip (\<lambda>x y. x AND y) a b"

definition mask_or :: "nvt_mask \<Rightarrow> nvt_mask \<Rightarrow> nvt_mask engine_result" where
  "mask_or a b = mask_zip (\<lambda>x y. x OR y) a b"

definition mask_xor :: "nvt_mask \<Rightarrow> nvt_mask \<Rightarrow> nvt_mask engine_result" where
  "mask_xor a b = mask_zip (\<lambda>x y. x XOR y) a b"

text \<open>Clearing the bits of the last word that stand for no bucket.\<close>

definition clear_trailing :: "nvt_mask \<Rightarrow> nvt_mask" where
  "clear_trailing m =
    (let remainder = nm_bucket_count m mod 64; bits = nm_bits m in
     if remainder > 0 \<and> bits \<noteq> []
     then m\<lparr> nm_bits := bits[length bits - 1 := bits ! (length bits - 1) AND low_bits remainder] \<rparr> else m)"

definition mask_not :: "nvt_mask \<Rightarrow> nvt_mask" where
  "mask_not m = clear_trailing (m\<lparr> nm_bits := map (\<lambda>w. NOT w) (nm_bits m) \<rparr>)"

definition mask_difference :: "nvt_mask \<Rightarrow> nvt_mask \<Rightarrow> nvt_mask engine_result" where
  "mask_difference a b = res_bind (mask_zip (\<lambda>x y. x AND NOT y) a b) (\<lambda>m. Inr (clear_trailing m))"

definition count_ones :: "u64 \<Rightarrow> nat" where
  "count_ones w = length (filter (bit w) [0..<64])"

definition popcount :: "nvt_mask \<Rightarrow> nat" where
  "popcount m = sum_list (map count_ones (nm_bits m))"

definition mask_is_empty :: "nvt_mask \<Rightarrow> bool" where
  "mask_is_empty m = list_all (\<lambda>w. w = 0) (nm_bits m)"

definition trailing_zeros :: "u64 \<Rightarrow> nat" where
  "trailing_zeros w = length (takeWhile (\<lambda>i. \<not> bit w i) [0..<64])"

lemma trailing_zeros:
  assumes "w \<noteq> 0"
  shows "trailing_zeros w < 64" "bit w (trailing_zeros w)" "\<And>i. i < trailing_zeros w \<Longrightarrow> \<not> bit w i"
proof -
  let ?P = "\<lambda>i. \<not> bit w i"
  have n: "trailing_zeros w = length (takeWhile ?P [0..<64])" by (simp add: trailing_zeros_def)
  have "\<exists>i<64. bit w i"
  proof (rule ccontr)
    assume "\<not> (\<exists>i<64. bit w i)"
    then have "w = 0" by (intro bit_word_eqI) auto
    then show False using assms by simp
  qed
  then obtain i where i: "bit w i" "i < 64" by blast
  show lt: "trailing_zeros w < 64"
  proof (rule ccontr)
    assume "\<not> trailing_zeros w < 64"
    then have "length (takeWhile ?P [0..<64]) = length [0..<64]"
      using length_takeWhile_le [of ?P "[0..<64]"] by (simp add: n)
    then have "takeWhile ?P [0..<64] = [0..<64]" by (metis takeWhile_eq_take take_all_iff order_refl)
    then show False using i by (auto simp: takeWhile_eq_all_conv)
  qed
  show "bit w (trailing_zeros w)"
    using lt nth_length_takeWhile [of ?P "[0..<64]"] by (simp add: n)
  show "\<not> bit w i" if "i < trailing_zeros w" for i
  proof -
    have "takeWhile ?P [0..<64] ! i = i" using that lt takeWhile_nth [of i ?P "[0..<64]"] by (simp add: n)
    then have "i \<in> set (takeWhile ?P [0..<64])" using that nth_mem [of i "takeWhile ?P [0..<64]"] by (simp add: n)
    then show ?thesis using set_takeWhileD by fastforce
  qed
qed

text \<open>\<^verbatim>\<open>remaining & (remaining - 1)\<close> clears the lowest bit.\<close>

lemma clear_lowest_bit:
  assumes "w \<noteq> 0"
  shows "bit (w AND (w - 1)) i \<longleftrightarrow> bit w i \<and> i \<noteq> trailing_zeros w"
proof -
  let ?k = "trailing_zeros w"
  note z = trailing_zeros [OF assms]
  define q where "q = unat w div 2 ^ Suc ?k"
  have bits: "bit w j \<longleftrightarrow> bit (unat w) j" for j by (simp add: bit_unsigned_iff)
  have low: "unat w mod 2 ^ ?k = 0"
  proof (rule bit_eqI)
    fix j
    show "bit (unat w mod 2 ^ ?k) j = bit (0 :: nat) j"
      using z(3) [of j] bits [of j] by (auto simp: bit_take_bit_iff take_bit_eq_mod [symmetric])
  qed
  have "odd (unat w div 2 ^ ?k)" using z(2) bits [of ?k] by (simp add: bit_iff_odd)
  moreover have "q = unat w div 2 ^ ?k div 2" unfolding q_def power_Suc2 by (rule div_mult2_eq)
  ultimately have "unat w div 2 ^ ?k = 2 * q + 1" using odd_two_times_div_two_succ by metis
  then have w: "unat w = 2 ^ ?k * (2 * q + 1)" using low by (metis add.right_neutral mult_div_mod_eq)
  have "unat (w - 1) = unat w - 1" by (rule unat_minus_one [OF assms])
  also have "\<dots> = (2 ^ ?k - 1) + 2 ^ Suc ?k * q" unfolding w by (simp add: algebra_simps)
  finally have p: "unat (w - 1) = (2 ^ ?k - 1) + 2 ^ Suc ?k * q" .
  have small: "(2 ^ ?k - 1 :: nat) < 2 ^ Suc ?k" by (simp add: less_imp_diff_less)
  have quot: "(a + c * d) div c = d" if "a < c" for a c d :: nat using that by simp
  have high: "bit (unat (w - 1)) i \<longleftrightarrow> bit (unat w) i" if "?k < i"
  proof -
    from less_imp_Suc_add [OF that] obtain d where "i = Suc (?k + d)" by blast
    then have d: "i = Suc ?k + d" by simp
    have shift: "bit x (Suc ?k + d) \<longleftrightarrow> bit (x div 2 ^ Suc ?k) d" for x :: nat
      by (simp only: drop_bit_eq_div [symmetric] bit_drop_bit_eq comp_def)
    have "unat (w - 1) div 2 ^ Suc ?k = unat w div 2 ^ Suc ?k" unfolding p q_def [symmetric] by (rule quot [OF small])
    then show ?thesis unfolding d shift by (simp only:)
  qed
  have "unat (w - 1) = (2 ^ ?k - 1) + 2 ^ ?k * (2 * q)" unfolding p by simp
  moreover have "((2 ^ ?k - 1) + 2 ^ ?k * (2 * q)) div 2 ^ ?k = 2 * q" by (rule quot) simp
  ultimately have at: "\<not> bit (unat (w - 1)) ?k" by (simp add: bit_iff_odd)
  have word: "bit (w AND (w - 1)) i \<longleftrightarrow> bit w i \<and> bit (unat (w - 1)) i" by (simp add: bit_and_iff bit_unsigned_iff)
  consider "i < ?k" | "i = ?k" | "?k < i" by linarith
  then show ?thesis
  proof cases
    case 1
    then show ?thesis using z(3) word by simp
  next
    case 2
    then show ?thesis using at word by simp
  next
    case 3
    then show ?thesis using high bits [of i] word by simp
  qed
qed

lemma clear_lowest_smaller:
  assumes "w \<noteq> 0"
  shows "count_ones (w AND (w - 1)) < count_ones w"
proof -
  have "count_ones v = card {i. i < 64 \<and> bit v i}" for v
    unfolding count_ones_def by (subst distinct_card [symmetric]) (auto intro: arg_cong [where f = card])
  moreover have "{i. i < 64 \<and> bit (w AND (w - 1)) i} \<subset> {i. i < 64 \<and> bit w i}"
    using clear_lowest_bit [OF assms] trailing_zeros [OF assms] by blast
  ultimately show ?thesis by (simp add: psubset_card_mono)
qed

function surviving_in :: "nat \<Rightarrow> nat \<Rightarrow> u64 \<Rightarrow> nat list" where
  "surviving_in bucket_count base remaining =
    (if remaining = 0 then []
     else let bucket_index = base + trailing_zeros remaining;
              rest = surviving_in bucket_count base (remaining AND (remaining - 1)) in
       if bucket_index < bucket_count then bucket_index # rest else rest)"
  by pat_completeness auto
termination
  by (relation "measure (\<lambda>(_, _, remaining). count_ones remaining)") (simp_all add: clear_lowest_smaller)

declare surviving_in.simps [simp del]

definition surviving_buckets :: "nvt_mask \<Rightarrow> nat list" where
  "surviving_buckets m =
    concat (map (\<lambda>(word_index, word). surviving_in (nm_bucket_count m) (word_index * 64) word) (List.enumerate 0 (nm_bits m)))"

text \<open>The indexes the sampled variants look at.\<close>

function samples :: "nat \<Rightarrow> nat \<Rightarrow> nat \<Rightarrow> nat list" where
  "samples stride sampled_index bucket_count =
    (if stride = 0 \<or> sampled_index \<ge> bucket_count then []
     else sampled_index # samples stride (sampled_index + stride) bucket_count)"
  by pat_completeness auto
termination
  by (relation "measure (\<lambda>(_, i, n). n - i)") auto

declare samples.simps [simp del]

definition and_strided :: "nvt_mask \<Rightarrow> nvt_mask \<Rightarrow> nat \<Rightarrow> nvt_mask engine_result" where
  "and_strided a b stride0 =
    res_bind (require_same_bucket_count a b) (\<lambda>_.
      let stride = max stride0 1; n = nm_bucket_count a in
      Inr (fold (\<lambda>i r. if get_mask_bit a i \<and> get_mask_bit b i then fold set_mask_bit [i..<min (i + stride) n] r else r)
        (samples stride 0 n) (mask_new n)))"

definition and_progressive :: "nvt_mask \<Rightarrow> nvt_mask \<Rightarrow> nat \<Rightarrow> nvt_mask engine_result" where
  "and_progressive a b initial_stride0 =
    res_bind (require_same_bucket_count a b) (\<lambda>_.
      let initial_stride = max initial_stride0 1; n = nm_bucket_count a;
          surviving_regions = filter (\<lambda>i. get_mask_bit a i \<and> get_mask_bit b i) (samples initial_stride 0 n) in
      Inr (fold (\<lambda>region_start r.
          fold (\<lambda>i r. if get_mask_bit a i \<and> get_mask_bit b i then set_mask_bit i r else r)
            [region_start..<min (region_start + initial_stride) n] r)
        surviving_regions (mask_new n)))"

section \<open>Words and sets of buckets\<close>

definition mbit :: "u64 list \<Rightarrow> nat \<Rightarrow> bool" where
  "mbit ws i \<longleftrightarrow> bit (ws ! (i div 64)) (i mod 64)"

definition mask_ok :: "nat \<Rightarrow> nvt_mask \<Rightarrow> bool" where
  "mask_ok n m \<longleftrightarrow> nm_bucket_count m = n \<and> length (nm_bits m) = words_needed n \<and>
    (\<forall>i < 64 * length (nm_bits m). mbit (nm_bits m) i \<longrightarrow> i < n)"

definition buckets :: "nvt_mask \<Rightarrow> nat set" where
  "buckets m = {i. get_mask_bit m i}"

lemma words_cover: "n \<le> 64 * words_needed n"
  unfolding words_needed_def using mult_div_mod_eq [of 64 "n + 63"] mod_less_divisor [of 64 "n + 63"] by linarith

lemma word_index: "i < 64 * k \<Longrightarrow> i div 64 < k" for i k :: nat
  by (simp add: less_mult_imp_div_less mult.commute)

lemma test_bit: "(w AND push_bit k 1 \<noteq> 0) \<longleftrightarrow> bit w k" for w :: u64
  by (simp add: push_bit_of_1 and_exp_eq_0_iff_not_bit)

lemma one_bit: "bit (push_bit k 1 :: u64) i \<longleftrightarrow> i = k \<and> k < 64"
  unfolding push_bit_of_1 by (auto simp: bit_exp_iff)

lemma get_mask_bit_iff: "get_mask_bit m i \<longleftrightarrow> i < nm_bucket_count m \<and> mbit (nm_bits m) i"
  using test_bit [of "nm_bits m ! (i div 64)" "i mod 64"] by (auto simp: get_mask_bit_def mbit_def)

lemma mask_okI:
  assumes "nm_bucket_count m = n" "length (nm_bits m) = words_needed n"
    and "\<And>i. i < 64 * words_needed n \<Longrightarrow> mbit (nm_bits m) i \<longleftrightarrow> i \<in> S" "S \<subseteq> {..<n}"
  shows "mask_ok n m \<and> buckets m = S"
proof -
  have "mask_ok n m" using assms by (auto simp: mask_ok_def)
  moreover have "get_mask_bit m i \<longleftrightarrow> i \<in> S" for i
    using assms words_cover [of n] by (cases "i < n") (auto simp: get_mask_bit_iff)
  ultimately show ?thesis by (simp add: buckets_def)
qed

lemma mask_ok_bit:
  assumes "mask_ok n m" "i < 64 * words_needed n"
  shows "mbit (nm_bits m) i \<longleftrightarrow> i \<in> buckets m"
  using assms by (auto simp: mask_ok_def buckets_def get_mask_bit_iff)

lemma mask_ok_fields:
  assumes "mask_ok n m"
  shows "nm_bucket_count m = n" "length (nm_bits m) = words_needed n" "buckets m \<subseteq> {..<n}"
  using assms by (auto simp: mask_ok_def buckets_def get_mask_bit_iff)

lemma mbit_update:
  assumes "i < 64 * length ws"
  shows "mbit (ws[j div 64 := x]) i \<longleftrightarrow> (if i div 64 = j div 64 then bit x (i mod 64) else mbit ws i)"
  using word_index [OF assms] by (auto simp: mbit_def nth_list_update)

lemma same_index: "i div 64 = j div 64 \<Longrightarrow> i mod 64 = j mod 64 \<longleftrightarrow> i = j" for i j :: nat
  by (metis div_mult_mod_eq)

lemma mask_new_ok: "mask_ok n (mask_new n) \<and> buckets (mask_new n) = {}"
  by (rule mask_okI) (simp_all add: mask_new_def mbit_def word_index)

lemma set_mask_bit_ok:
  assumes ok: "mask_ok n m"
  shows "mask_ok n (set_mask_bit i m) \<and> buckets (set_mask_bit i m) = buckets m \<union> ({i} \<inter> {..<n})"
proof (cases "i < n")
  case True
  note f = mask_ok_fields [OF ok]
  show ?thesis
  proof (rule mask_okI)
    fix j
    assume j: "j < 64 * words_needed n"
    have "bit (nm_bits m ! (i div 64) OR push_bit (i mod 64) 1) (j mod 64) \<longleftrightarrow> mbit (nm_bits m) j \<or> j = i" if "j div 64 = i div 64"
      using that same_index [OF that] by (auto simp: mbit_def bit_or_iff one_bit simp del: push_bit_of_1)
    then show "mbit (nm_bits (set_mask_bit i m)) j \<longleftrightarrow> j \<in> buckets m \<union> ({i} \<inter> {..<n})"
      using True f j mask_ok_bit [OF ok j] mbit_update [of j "nm_bits m" i] by (auto simp: set_mask_bit_def)
  qed (use True f in \<open>auto simp: set_mask_bit_def\<close>)
next
  case False
  then show ?thesis using ok mask_ok_fields [OF ok] by (simp add: set_mask_bit_def)
qed

lemma clear_mask_bit_ok:
  assumes ok: "mask_ok n m"
  shows "mask_ok n (clear_mask_bit i m) \<and> buckets (clear_mask_bit i m) = buckets m - {i}"
proof (cases "i < n")
  case True
  note f = mask_ok_fields [OF ok]
  show ?thesis
  proof (rule mask_okI)
    fix j
    assume j: "j < 64 * words_needed n"
    have "bit (nm_bits m ! (i div 64) AND NOT (push_bit (i mod 64) 1)) (j mod 64) \<longleftrightarrow> mbit (nm_bits m) j \<and> j \<noteq> i" if "j div 64 = i div 64"
      using that same_index [OF that] by (auto simp: mbit_def bit_and_iff bit_not_iff one_bit simp del: push_bit_of_1)
    then show "mbit (nm_bits (clear_mask_bit i m)) j \<longleftrightarrow> j \<in> buckets m - {i}"
      using True f j mask_ok_bit [OF ok j] mbit_update [of j "nm_bits m" i] by (auto simp: clear_mask_bit_def)
  qed (use True f in \<open>auto simp: clear_mask_bit_def\<close>)
next
  case False
  then show ?thesis using ok mask_ok_fields [OF ok] by (auto simp: clear_mask_bit_def)
qed

lemma set_bits_ok:
  "mask_ok n m \<Longrightarrow> mask_ok n (fold (\<lambda>i r. if P i then set_mask_bit i r else r) is m) \<and>
    buckets (fold (\<lambda>i r. if P i then set_mask_bit i r else r) is m) = buckets m \<union> {i \<in> set is. P i \<and> i < n}"
proof (induction "is" arbitrary: m)
  case (Cons i "is")
  have "mask_ok n (if P i then set_mask_bit i m else m) \<and>
      buckets (if P i then set_mask_bit i m else m) = buckets m \<union> {j. j = i \<and> P i \<and> i < n}"
    using set_mask_bit_ok [OF Cons.prems] Cons.prems by auto
  then show ?case using Cons.IH [of "if P i then set_mask_bit i m else m"] by (auto simp del: if_splits)
qed simp

lemma mask_from_range_ok:
  "mask_ok n (mask_from_range n a b) \<and> buckets (mask_from_range n a b) = {i. i < n \<and> a \<le> i \<and> i < b}"
  using set_bits_ok [of n "mask_new n" "\<lambda>_. True" "[min a n..<min b n]"] mask_new_ok [of n]
  by (auto simp: mask_from_range_def)

lemma mask_from_nvt_ok:
  "mask_ok (length (nvt_buckets t)) (mask_from_nvt t) \<and>
   buckets (mask_from_nvt t) = {i. i < length (nvt_buckets t) \<and> nb_entry_count (nvt_buckets t ! i) > 0}"
  using set_bits_ok [of "length (nvt_buckets t)" "mask_new (length (nvt_buckets t))"
      "\<lambda>i. nb_entry_count (nvt_buckets t ! i) > 0" "[0..<length (nvt_buckets t)]"] mask_new_ok [of "length (nvt_buckets t)"]
  by (auto simp: mask_from_nvt_def)

text \<open>Only the last word has bits that stand for no bucket, and \<^verbatim>\<open>(1 << remainder) - 1\<close> keeps the others.\<close>

lemma low_bits_bit: "r < 64 \<Longrightarrow> bit (low_bits r) i \<longleftrightarrow> i < r"
  by (simp add: low_bits_def push_bit_of_1 mask_eq_exp_minus_1 [symmetric] bit_mask_iff) linarith

lemma last_word:
  assumes "i < 64 * words_needed n"
  shows "i < n \<longleftrightarrow> n mod 64 = 0 \<or> i div 64 \<noteq> words_needed n - 1 \<or> i mod 64 < n mod 64"
proof -
  define q r a b where "q = n div 64" "r = n mod 64" "a = i div 64" "b = i mod 64"
  then have d: "n = 64 * q + r" "r < 64" "i = 64 * a + b" "b < 64" by simp_all
  have w: "words_needed n = (if r = 0 then q else Suc q)" unfolding words_needed_def d(1) using d(2) by (cases "r = 0") (simp_all add: div_add1_eq [of "64 * q" "r + 63"] add.assoc div_nat_eqI)
  have "a < words_needed n" using word_index [OF assms] \<open>a = i div 64\<close> by simp
  then have "i < n \<longleftrightarrow> r = 0 \<or> a \<noteq> words_needed n - 1 \<or> b < r"
    unfolding w using d by (cases "r = 0"; cases "a = q") auto
  then show ?thesis using \<open>r = n mod 64\<close> \<open>a = i div 64\<close> \<open>b = i mod 64\<close> by simp
qed

lemma last_update:
  assumes "i < 64 * words_needed n" "length ws = words_needed n"
  shows "mbit (ws[length ws - 1 := x]) i \<longleftrightarrow> (if i div 64 = words_needed n - 1 then bit x (i mod 64) else mbit ws i)"
  using mbit_update [of i ws "64 * (length ws - 1)" x] assms by simp

lemma all_on_ok: "mask_ok n (all_on n) \<and> buckets (all_on n) = {..<n}"
proof (rule mask_okI)
  fix i
  assume i: "i < 64 * words_needed n"
  have "mbit (replicate (words_needed n) (- 1)) i" using word_index [OF i] by (simp add: mbit_def)
  then show "mbit (nm_bits (all_on n)) i \<longleftrightarrow> i \<in> {..<n}"
    using last_word [OF i] last_update [OF i, of "replicate (words_needed n) (- 1)" "low_bits (n mod 64)"] i
      low_bits_bit [of "n mod 64" "i mod 64"]
    by (auto simp: all_on_def Let_def)
qed (simp_all add: all_on_def Let_def)

lemma clear_trailing_ok:
  assumes "nm_bucket_count m = n" "length (nm_bits m) = words_needed n"
    and "\<And>i. i < 64 * words_needed n \<Longrightarrow> mbit (nm_bits m) i \<longleftrightarrow> P i"
  shows "mask_ok n (clear_trailing m) \<and> buckets (clear_trailing m) = {i. i < n \<and> P i}"
proof (rule mask_okI)
  fix i
  assume i: "i < 64 * words_needed n"
  have ne: "nm_bits m \<noteq> []" using word_index [OF i] assms(2) by auto
  let ?x = "nm_bits m ! (words_needed n - 1) AND low_bits (n mod 64)"
  have x: "bit ?x (i mod 64) \<longleftrightarrow> P i \<and> i mod 64 < n mod 64" if "i div 64 = words_needed n - 1"
    using that assms(3) [OF i] low_bits_bit [of "n mod 64" "i mod 64"] by (simp add: bit_and_iff mbit_def)
  show "mbit (nm_bits (clear_trailing m)) i \<longleftrightarrow> i \<in> {i. i < n \<and> P i}"
  proof (cases "n mod 64 = 0")
    case True
    then show ?thesis using assms(1) assms(3) [OF i] last_word [OF i] by (simp add: clear_trailing_def)
  next
    case False
    then have "nm_bits (clear_trailing m) = (nm_bits m)[length (nm_bits m) - 1 := ?x]"
      using assms(1,2) ne by (simp add: clear_trailing_def Let_def)
    then show ?thesis using False x last_update [OF i assms(2), of ?x] assms(3) [OF i] last_word [OF i] by auto
  qed
qed (use assms in \<open>auto simp: clear_trailing_def Let_def\<close>)

lemma mask_not_ok:
  assumes "mask_ok n m"
  shows "mask_ok n (mask_not m) \<and> buckets (mask_not m) = {..<n} - buckets m"
proof -
  note f = mask_ok_fields [OF assms]
  have "mbit (map (\<lambda>w. NOT w) (nm_bits m)) i \<longleftrightarrow> i \<notin> buckets m" if "i < 64 * words_needed n" for i
    using that word_index [OF that] f mask_ok_bit [OF assms that] by (simp add: mbit_def bit_not_iff)
  then show ?thesis
    using clear_trailing_ok [of "m\<lparr> nm_bits := map (\<lambda>w. NOT w) (nm_bits m) \<rparr>" n "\<lambda>i. i \<notin> buckets m"] f
    by (auto simp: mask_not_def)
qed

text \<open>The four operations on two masks, from what they do to a pair of bits.\<close>

lemma zip_bits:
  assumes "mask_ok n a" "mask_ok n b" "i < 64 * words_needed n"
    and "\<And>x y k. k < 64 \<Longrightarrow> bit (f x y) k \<longleftrightarrow> g (bit x k) (bit y k)"
  shows "mbit (map2 f (nm_bits a) (nm_bits b)) i \<longleftrightarrow> g (i \<in> buckets a) (i \<in> buckets b)"
  using assms(4) [of "i mod 64"] word_index [OF assms(3)] mask_ok_fields [OF assms(1)] mask_ok_fields [OF assms(2)]
    mask_ok_bit [OF assms(1,3)] mask_ok_bit [OF assms(2,3)]
  by (simp add: mbit_def)

lemma mask_zip_ok:
  assumes "mask_ok n a" "mask_ok n b" "\<not> g False False"
    and "\<And>x y k. k < 64 \<Longrightarrow> bit (f x y) k \<longleftrightarrow> g (bit x k) (bit y k)"
  shows "\<exists>m. mask_zip f a b = Inr m \<and> mask_ok n m \<and> buckets m = {i. g (i \<in> buckets a) (i \<in> buckets b)}"
proof -
  note f = mask_ok_fields [OF assms(1)] mask_ok_fields [OF assms(2)]
  let ?m = "\<lparr> nm_bucket_count = nm_bucket_count a, nm_bits = map2 f (nm_bits a) (nm_bits b) \<rparr>"
  have "i < n" if "g (i \<in> buckets a) (i \<in> buckets b)" for i
  proof (rule ccontr)
    assume "\<not> i < n"
    then have "i \<notin> buckets a" "i \<notin> buckets b" using f by auto
    then show False using that assms(3) by simp
  qed
  then have "mask_ok n ?m \<and> buckets ?m = {i. g (i \<in> buckets a) (i \<in> buckets b)}"
    using f zip_bits [where f = f and g = g, OF assms(1,2) _ assms(4)] by (intro mask_okI) auto
  then show ?thesis using f by (simp add: mask_zip_def require_same_bucket_count_def)
qed

lemma mask_and_ok:
  assumes "mask_ok n a" "mask_ok n b"
  shows "\<exists>m. mask_and a b = Inr m \<and> mask_ok n m \<and> buckets m = buckets a \<inter> buckets b"
  using mask_zip_ok [OF assms, of "\<lambda>p q. p \<and> q" "\<lambda>x y. x AND y"] by (simp add: mask_and_def bit_and_iff Int_def)

lemma mask_or_ok:
  assumes "mask_ok n a" "mask_ok n b"
  shows "\<exists>m. mask_or a b = Inr m \<and> mask_ok n m \<and> buckets m = buckets a \<union> buckets b"
  using mask_zip_ok [OF assms, of "\<lambda>p q. p \<or> q" "\<lambda>x y. x OR y"] by (simp add: mask_or_def bit_or_iff Un_def)

lemma mask_xor_ok:
  assumes "mask_ok n a" "mask_ok n b"
  shows "\<exists>m. mask_xor a b = Inr m \<and> mask_ok n m \<and> buckets m = (buckets a - buckets b) \<union> (buckets b - buckets a)"
proof -
  have "(buckets a - buckets b) \<union> (buckets b - buckets a) = {i. (i \<in> buckets a) \<noteq> (i \<in> buckets b)}" by auto
  then show ?thesis
    using mask_zip_ok [OF assms, of "\<lambda>p q. p \<noteq> q" "\<lambda>x y. x XOR y"] by (simp add: mask_xor_def bit_xor_iff)
qed

lemma mask_difference_ok:
  assumes "mask_ok n a" "mask_ok n b"
  shows "\<exists>m. mask_difference a b = Inr m \<and> mask_ok n m \<and> buckets m = buckets a - buckets b"
proof -
  obtain m where m: "mask_zip (\<lambda>x y. x AND NOT y) a b = Inr m" "mask_ok n m" "buckets m = buckets a - buckets b"
    using mask_zip_ok [OF assms, of "\<lambda>p q. p \<and> \<not> q" "\<lambda>x y. x AND NOT y"]
    by (auto simp: bit_and_iff bit_not_iff set_diff_eq)
  have "mask_ok n (clear_trailing m) \<and> buckets (clear_trailing m) = {i. i < n \<and> i \<in> buckets m}"
    by (rule clear_trailing_ok) (use m mask_ok_fields [OF m(2)] mask_ok_bit [OF m(2)] in auto)
  then show ?thesis using m mask_ok_fields [OF m(2)] by (auto simp: mask_difference_def)
qed

section \<open>Counting and listing\<close>

lemma upt_words: "[0..<64 * length (ws @ [w])] = [0..<64 * length ws] @ map (\<lambda>j. 64 * length ws + j) [0..<64]"
  using upt_add_eq_append [of 0 "64 * length ws" 64] map_add_upt [of "64 * length ws" 64]
  by (simp add: add.commute)

lemma mbit_append:
  shows "i < 64 * length ws \<Longrightarrow> mbit (ws @ [w]) i \<longleftrightarrow> mbit ws i"
    and "j < 64 \<Longrightarrow> mbit (ws @ [w]) (64 * length ws + j) \<longleftrightarrow> bit w j"
  using word_index [of i "length ws"] by (auto simp: mbit_def nth_append)

lemma filter_words:
  "filter (mbit (ws @ [w])) [0..<64 * length (ws @ [w])] =
    filter (mbit ws) [0..<64 * length ws] @ map (\<lambda>j. 64 * length ws + j) (filter (bit w) [0..<64])"
proof -
  have "filter (mbit (ws @ [w])) [0..<64 * length ws] = filter (mbit ws) [0..<64 * length ws]"
    by (rule filter_cong) (simp_all add: mbit_append)
  moreover have "filter (mbit (ws @ [w]) \<circ> (\<lambda>j. 64 * length ws + j)) [0..<64] = filter (bit w) [0..<64]"
    by (rule filter_cong) (simp_all add: mbit_append)
  ultimately show ?thesis unfolding upt_words filter_append filter_map by simp
qed

lemma count_words: "sum_list (map count_ones ws) = length (filter (mbit ws) [0..<64 * length ws])"
proof (induction ws rule: rev_induct)
  case (snoc w ws)
  then show ?case unfolding filter_words by (simp add: count_ones_def)
qed simp

lemma lowest_first:
  assumes "w \<noteq> 0"
  shows "filter (bit w) [0..<64] = trailing_zeros w # filter (bit (w AND (w - 1))) [0..<64]"
proof (rule sorted_distinct_set_unique)
  note z = trailing_zeros [OF assms]
  note c = clear_lowest_bit [OF assms]
  have "trailing_zeros w \<le> i" if "bit w i" for i using that z(3) [of i] by (rule_tac ccontr) simp
  then show "sorted (trailing_zeros w # filter (bit (w AND (w - 1))) [0..<64])"
    by (simp add: sorted_wrt_filter c del: bit_and_iff)
  show "distinct (trailing_zeros w # filter (bit (w AND (w - 1))) [0..<64])" by (simp add: c del: bit_and_iff)
  show "set (filter (bit w) [0..<64]) = set (trailing_zeros w # filter (bit (w AND (w - 1))) [0..<64])"
    using z c by (auto simp del: bit_and_iff)
qed (simp_all add: sorted_wrt_filter)

lemma surviving_in_eq:
  "surviving_in n base w = filter (\<lambda>i. i < n) (map (\<lambda>j. base + j) (filter (bit w) [0..<64]))"
proof (induction n base w rule: surviving_in.induct)
  case (1 n base w)
  show ?case
  proof (cases "w = 0")
    case False
    then show ?thesis
      using 1 [OF False refl] by (subst surviving_in.simps) (simp add: Let_def lowest_first [OF False] del: bit_and_iff)
  qed (simp add: surviving_in.simps)
qed

lemma surviving_words:
  "concat (map (\<lambda>(k, w). surviving_in n (k * 64) w) (List.enumerate 0 ws)) =
    filter (\<lambda>i. i < n) (filter (mbit ws) [0..<64 * length ws])"
proof (induction ws rule: rev_induct)
  case (snoc w ws)
  then show ?case
    unfolding filter_words by (simp add: enumerate_append_eq surviving_in_eq mult.commute del: filter_filter)
qed simp

lemma mask_list:
  assumes ok: "mask_ok n m"
  shows "filter (mbit (nm_bits m)) [0..<64 * length (nm_bits m)] = sorted_list_of_set (buckets m)" "finite (buckets m)"
proof -
  note f = mask_ok_fields [OF ok]
  show fin: "finite (buckets m)" using f(3) finite_subset by blast
  have "set (filter (mbit (nm_bits m)) [0..<64 * length (nm_bits m)]) = buckets m"
    using f words_cover [of n] mask_ok_bit [OF ok] by fastforce
  then show "filter (mbit (nm_bits m)) [0..<64 * length (nm_bits m)] = sorted_list_of_set (buckets m)"
    using fin by (intro sorted_distinct_set_unique) (simp_all add: sorted_wrt_filter)
qed

lemma popcount_ok: "mask_ok n m \<Longrightarrow> popcount m = card (buckets m)"
  unfolding popcount_def count_words by (simp add: mask_list)

lemma surviving_ok:
  assumes "mask_ok n m"
  shows "surviving_buckets m = sorted_list_of_set (buckets m)"
proof -
  have "\<forall>i \<in> set (sorted_list_of_set (buckets m)). i < n"
    using mask_ok_fields [OF assms] mask_list(2) [OF assms] by auto
  then show ?thesis
    unfolding surviving_buckets_def surviving_words mask_list(1) [OF assms] mask_ok_fields(1) [OF assms]
    by (simp add: filter_id_conv)
qed

lemma is_empty_ok:
  assumes "mask_ok n m"
  shows "mask_is_empty m \<longleftrightarrow> buckets m = {}"
proof
  assume e: "mask_is_empty m"
  have "\<not> mbit (nm_bits m) i" if "i < 64 * words_needed n" for i
    using e word_index [OF that] mask_ok_fields(2) [OF assms] by (auto simp: mask_is_empty_def mbit_def list_all_length)
  then show "buckets m = {}"
    using mask_ok_bit [OF assms] mask_ok_fields(3) [OF assms] words_cover [of n] by fastforce
next
  assume "buckets m = {}"
  then have "\<forall>i \<in> set [0..<64 * length (nm_bits m)]. \<not> mbit (nm_bits m) i"
    using mask_list(1) [OF assms] by (simp add: filter_empty_conv)
  then have none: "\<not> mbit (nm_bits m) (64 * k + j)" if "k < length (nm_bits m)" "j < 64" for k j using that by simp
  have "nm_bits m ! k = 0" if "k < length (nm_bits m)" for k
    using none [OF that] by (intro bit_word_eqI) (simp add: mbit_def)
  then show "mask_is_empty m" by (simp add: mask_is_empty_def list_all_length)
qed

section \<open>Sampling\<close>

lemma samples_set:
  assumes "0 < stride"
  shows "set (samples stride i n) = {j. i \<le> j \<and> j < n \<and> stride dvd j - i}"
  using assms
proof (induction stride i n rule: samples.induct)
  case (1 stride i n)
  have step: "stride dvd j - i \<longleftrightarrow> j = i \<or> i + stride \<le> j \<and> stride dvd j - (i + stride)" if "i \<le> j" for j
  proof (cases "i + stride \<le> j")
    case True
    then have "j - i = (j - (i + stride)) + stride" by simp
    then have "stride dvd j - i \<longleftrightarrow> stride dvd j - (i + stride)" by (simp only: dvd_add_triv_right_iff)
    then show ?thesis using True 1(2) by auto
  next
    case False
    then have "j - i < stride" using that by simp
    then show ?thesis using that False dvd_imp_le [of stride "j - i"] by (cases "j = i") auto
  qed
  show ?case
  proof (cases "i < n")
    case True
    have "{j. i \<le> j \<and> j < n \<and> stride dvd j - i} = insert i {j. i + stride \<le> j \<and> j < n \<and> stride dvd j - (i + stride)}"
      using step True by (intro set_eqI) (auto dest: add_leD1)
    then show ?thesis using 1 True by (subst samples.simps) simp
  qed (simp add: samples.simps)
qed

lemma region_of:
  fixes i s :: nat
  assumes "0 < s"
  shows "(\<exists>k. s dvd k \<and> k \<le> i \<and> i < k + s \<and> P k) \<longleftrightarrow> P (i - i mod s)"
proof
  assume "\<exists>k. s dvd k \<and> k \<le> i \<and> i < k + s \<and> P k"
  then obtain k where k: "s dvd k" "k \<le> i" "i < k + s" "P k" by blast
  then have "i = k + (i - k)" "i - k < s" by auto
  then have "i mod s = i - k" using k(1) by (metis add.left_neutral dvd_imp_mod_0 mod_add_left_eq mod_less)
  then show "P (i - i mod s)" using k by simp
next
  assume P: "P (i - i mod s)"
  have "s dvd i - i mod s" by (rule dvd_minus_mod)
  moreover have "i - i mod s \<le> i" "i < i - i mod s + s"
    using mod_less_divisor [OF assms, of i] mod_less_eq_dividend [of i s] by linarith+
  ultimately show "\<exists>k. s dvd k \<and> k \<le> i \<and> i < k + s \<and> P k" using P by blast
qed

lemma fold_regions:
  assumes "\<And>k m. mask_ok n m \<Longrightarrow> mask_ok n (f k m) \<and> buckets (f k m) = buckets m \<union> R k" "mask_ok n m"
  shows "mask_ok n (fold f ks m) \<and> buckets (fold f ks m) = buckets m \<union> (\<Union>k \<in> set ks. R k)"
  using assms(2)
proof (induction ks arbitrary: m)
  case (Cons k ks)
  then show ?case using assms(1) [OF Cons.prems, of k] Cons.IH [of "f k m"] by auto
qed simp

lemma and_strided_ok:
  assumes "mask_ok n a" "mask_ok n b"
    and s_def: "s = max stride 1"
  shows "\<exists>m. and_strided a b stride = Inr m \<and> mask_ok n m \<and>
    buckets m = {i. i < n \<and> i - i mod s \<in> buckets a \<inter> buckets b}"
proof -
  let ?both = "\<lambda>i. get_mask_bit a i \<and> get_mask_bit b i"
  let ?f = "\<lambda>i r. if ?both i then fold set_mask_bit [i..<min (i + s) n] r else r"
  let ?R = "\<lambda>k. {i. ?both k \<and> k \<le> i \<and> i < k + s \<and> i < n}"
  have s: "0 < s" by (simp add: s_def)
  have "mask_ok n (?f k m) \<and> buckets (?f k m) = buckets m \<union> ?R k" if "mask_ok n m" for k m
    using set_bits_ok [OF that, of "\<lambda>_. True" "[k..<min (k + s) n]"] that by auto
  from fold_regions [where f = ?f and R = ?R, OF this, of "mask_new n" "samples s 0 n"]
  have f: "mask_ok n (fold ?f (samples s 0 n) (mask_new n))"
    and b: "buckets (fold ?f (samples s 0 n) (mask_new n)) = (\<Union>k \<in> set (samples s 0 n). ?R k)"
    using mask_new_ok [of n] by auto
  have "i \<in> (\<Union>k \<in> set (samples s 0 n). ?R k) \<longleftrightarrow> i < n \<and> (\<exists>k. s dvd k \<and> k \<le> i \<and> i < k + s \<and> k < n \<and> ?both k)" for i
    unfolding samples_set [OF s] by auto
  then have "(\<Union>k \<in> set (samples s 0 n). ?R k) = {i. i < n \<and> i - i mod s \<in> buckets a \<inter> buckets b}"
    unfolding region_of [OF s] by (auto simp: buckets_def get_mask_bit_iff mask_ok_fields(1) [OF assms(1)])
  then show ?thesis
    unfolding and_strided_def Let_def s_def [symmetric] mask_ok_fields(1) [OF assms(1)] using f b
    by (simp add: require_same_bucket_count_def mask_ok_fields(1) [OF assms(1)] mask_ok_fields(1) [OF assms(2)])
qed

lemma and_progressive_ok:
  assumes "mask_ok n a" "mask_ok n b"
    and s_def: "s = max stride 1"
  shows "\<exists>m. and_progressive a b stride = Inr m \<and> mask_ok n m \<and>
    buckets m = {i \<in> buckets a \<inter> buckets b. i - i mod s \<in> buckets a \<inter> buckets b}"
proof -
  let ?both = "\<lambda>i. get_mask_bit a i \<and> get_mask_bit b i"
  let ?f = "\<lambda>k r. fold (\<lambda>i r. if ?both i then set_mask_bit i r else r) [k..<min (k + s) n] r"
  let ?R = "\<lambda>k. {i. ?both i \<and> k \<le> i \<and> i < k + s \<and> i < n}"
  let ?ks = "filter ?both (samples s 0 n)"
  have s: "0 < s" by (simp add: s_def)
  have "mask_ok n (?f k m) \<and> buckets (?f k m) = buckets m \<union> ?R k" if "mask_ok n m" for k m
    using set_bits_ok [OF that, of ?both "[k..<min (k + s) n]"] by auto
  from fold_regions [where f = ?f and R = ?R, OF this, of "mask_new n" ?ks]
  have f: "mask_ok n (fold ?f ?ks (mask_new n))" and b: "buckets (fold ?f ?ks (mask_new n)) = (\<Union>k \<in> set ?ks. ?R k)"
    using mask_new_ok [of n] by auto
  have n: "get_mask_bit a i \<Longrightarrow> i < n" for i by (simp add: get_mask_bit_iff mask_ok_fields(1) [OF assms(1)])
  have ks: "k \<in> set ?ks \<longleftrightarrow> s dvd k \<and> ?both k" for k
    unfolding set_filter samples_set [OF s] using n by auto
  have "i \<in> (\<Union>k \<in> set ?ks. ?R k) \<longleftrightarrow> ?both i \<and> (\<exists>k. s dvd k \<and> k \<le> i \<and> i < k + s \<and> ?both k)" for i
    unfolding UN_iff Bex_def ks mem_Collect_eq using n by blast
  then have "i \<in> (\<Union>k \<in> set ?ks. ?R k) \<longleftrightarrow> ?both i \<and> ?both (i - i mod s)" for i
    unfolding region_of [OF s] .
  then have "(\<Union>k \<in> set ?ks. ?R k) = {i \<in> buckets a \<inter> buckets b. i - i mod s \<in> buckets a \<inter> buckets b}"
    unfolding buckets_def by blast
  then show ?thesis
    unfolding and_progressive_def Let_def s_def [symmetric] mask_ok_fields(1) [OF assms(1)] using f b
    by (simp add: require_same_bucket_count_def mask_ok_fields(1) [OF assms(1)] mask_ok_fields(1) [OF assms(2)])
qed

section \<open>Mask expressions\<close>

text \<open>How a query builds a mask out of others, and the set of buckets it stands for.\<close>

datatype mask_expr =
  MNew | MAllOn | MRange nat nat | MSet nat mask_expr | MClear nat mask_expr | MNot mask_expr
  | MAnd mask_expr mask_expr | MOr mask_expr mask_expr | MXor mask_expr mask_expr | MDiff mask_expr mask_expr
  | MStrided nat mask_expr mask_expr | MProgressive nat mask_expr mask_expr

fun eval_mask :: "nat \<Rightarrow> mask_expr \<Rightarrow> nvt_mask engine_result" where
  "eval_mask n MNew = Inr (mask_new n)"
| "eval_mask n MAllOn = Inr (all_on n)"
| "eval_mask n (MRange a b) = Inr (mask_from_range n a b)"
| "eval_mask n (MSet i e) = res_bind (eval_mask n e) (\<lambda>m. Inr (set_mask_bit i m))"
| "eval_mask n (MClear i e) = res_bind (eval_mask n e) (\<lambda>m. Inr (clear_mask_bit i m))"
| "eval_mask n (MNot e) = res_bind (eval_mask n e) (\<lambda>m. Inr (mask_not m))"
| "eval_mask n (MAnd d e) = res_bind (eval_mask n d) (\<lambda>a. res_bind (eval_mask n e) (mask_and a))"
| "eval_mask n (MOr d e) = res_bind (eval_mask n d) (\<lambda>a. res_bind (eval_mask n e) (mask_or a))"
| "eval_mask n (MXor d e) = res_bind (eval_mask n d) (\<lambda>a. res_bind (eval_mask n e) (mask_xor a))"
| "eval_mask n (MDiff d e) = res_bind (eval_mask n d) (\<lambda>a. res_bind (eval_mask n e) (mask_difference a))"
| "eval_mask n (MStrided s d e) = res_bind (eval_mask n d) (\<lambda>a. res_bind (eval_mask n e) (\<lambda>b. and_strided a b s))"
| "eval_mask n (MProgressive s d e) = res_bind (eval_mask n d) (\<lambda>a. res_bind (eval_mask n e) (\<lambda>b. and_progressive a b s))"

fun mask_set :: "nat \<Rightarrow> mask_expr \<Rightarrow> nat set" where
  "mask_set n MNew = {}"
| "mask_set n MAllOn = {..<n}"
| "mask_set n (MRange a b) = {a..<b} \<inter> {..<n}"
| "mask_set n (MSet i e) = mask_set n e \<union> ({i} \<inter> {..<n})"
| "mask_set n (MClear i e) = mask_set n e - {i}"
| "mask_set n (MNot e) = {..<n} - mask_set n e"
| "mask_set n (MAnd d e) = mask_set n d \<inter> mask_set n e"
| "mask_set n (MOr d e) = mask_set n d \<union> mask_set n e"
| "mask_set n (MXor d e) = (mask_set n d - mask_set n e) \<union> (mask_set n e - mask_set n d)"
| "mask_set n (MDiff d e) = mask_set n d - mask_set n e"
| "mask_set n (MStrided s d e) = {i. i < n \<and> i - i mod max s 1 \<in> mask_set n d \<inter> mask_set n e}"
| "mask_set n (MProgressive s d e) =
    {i \<in> mask_set n d \<inter> mask_set n e. i - i mod max s 1 \<in> mask_set n d \<inter> mask_set n e}"

definition denotes :: "nat \<Rightarrow> nvt_mask engine_result \<Rightarrow> nat set \<Rightarrow> bool" where
  "denotes n r S = (case r of Inl _ \<Rightarrow> False | Inr m \<Rightarrow> mask_ok n m \<and> buckets m = S)"

lemma denotes_iff: "denotes n r S \<longleftrightarrow> (\<exists>m. r = Inr m \<and> mask_ok n m \<and> buckets m = S)"
  by (cases r) (simp_all add: denotes_def)

lemma denotes_bind:
  assumes "denotes n r S" "\<And>m. mask_ok n m \<Longrightarrow> buckets m = S \<Longrightarrow> denotes n (f m) T"
  shows "denotes n (res_bind r f) T"
  using assms by (auto simp: denotes_iff)

lemma denotes_bind2:
  assumes "denotes n r S" "denotes n r' S'"
    and "\<And>a b. mask_ok n a \<Longrightarrow> mask_ok n b \<Longrightarrow> \<exists>m. f a b = Inr m \<and> mask_ok n m \<and> buckets m = T (buckets a) (buckets b)"
  shows "denotes n (res_bind r (\<lambda>a. res_bind r' (f a))) (T S S')"
proof -
  obtain a b where "r = Inr a" "r' = Inr b" "mask_ok n a" "mask_ok n b" "buckets a = S" "buckets b = S'"
    using assms(1,2) by (auto simp: denotes_iff)
  then show ?thesis using assms(3) [of a b] by (simp add: denotes_iff)
qed

lemma eval_mask_ok: "denotes n (eval_mask n e) (mask_set n e)"
proof (induction e)
  case (MRange a b)
  have "{a..<b} \<inter> {..<n} = {i. i < n \<and> a \<le> i \<and> i < b}" by auto
  then show ?case using mask_from_range_ok [of n a b] by (simp add: denotes_def)
next
  case (MSet i e)
  then show ?case unfolding eval_mask.simps
    by (rule denotes_bind) (simp add: denotes_def set_mask_bit_ok)
next
  case (MClear i e)
  then show ?case unfolding eval_mask.simps
    by (rule denotes_bind) (simp add: denotes_def clear_mask_bit_ok)
next
  case (MNot e)
  then show ?case unfolding eval_mask.simps
    by (rule denotes_bind) (simp add: denotes_def mask_not_ok)
next
  case (MAnd d e)
  show ?case unfolding eval_mask.simps mask_set.simps
    by (rule denotes_bind2 [where T = "\<lambda>A B. A \<inter> B", OF MAnd mask_and_ok])
next
  case (MOr d e)
  show ?case unfolding eval_mask.simps mask_set.simps
    by (rule denotes_bind2 [where T = "\<lambda>A B. A \<union> B", OF MOr mask_or_ok])
next
  case (MXor d e)
  show ?case unfolding eval_mask.simps mask_set.simps
    by (rule denotes_bind2 [where T = "\<lambda>A B. (A - B) \<union> (B - A)", OF MXor mask_xor_ok])
next
  case (MDiff d e)
  show ?case unfolding eval_mask.simps mask_set.simps
    by (rule denotes_bind2 [where T = "\<lambda>A B. A - B", OF MDiff mask_difference_ok])
next
  case (MStrided s d e)
  show ?case unfolding eval_mask.simps mask_set.simps
    by (rule denotes_bind2 [where T = "\<lambda>A B. {i. i < n \<and> i - i mod max s 1 \<in> A \<inter> B}" and f = "\<lambda>a b. and_strided a b s", OF MStrided]) (rule and_strided_ok [OF _ _ refl])
next
  case (MProgressive s d e)
  show ?case unfolding eval_mask.simps mask_set.simps
    by (rule denotes_bind2 [where T = "\<lambda>A B. {i \<in> A \<inter> B. i - i mod max s 1 \<in> A \<inter> B}" and f = "\<lambda>a b. and_progressive a b s", OF MProgressive]) (rule and_progressive_ok [OF _ _ refl])
qed (simp_all add: denotes_def mask_new_ok all_on_ok)

text \<open>
  C22: A mask built over \<^verbatim>\<open>n\<close> buckets by any expression of the operations of \<^verbatim>\<open>NVTMask\<close> exists and
  denotes the corresponding set of buckets: \<^verbatim>\<open>get_bit\<close> decides membership, \<^verbatim>\<open>popcount\<close> is the
  cardinality, \<^verbatim>\<open>surviving_buckets\<close> is the sorted list of the members and \<^verbatim>\<open>is_empty\<close> decides
  emptiness.  The bits of the last word that stand for no bucket never show.  The strided conjunction keeps a window
  when its first bucket is in both masks, and the progressive one keeps exactly the common buckets of such windows.
\<close>

theorem masks_denote_sets:
  "\<exists>m. eval_mask n e = Inr m \<and> (\<forall>i. get_mask_bit m i = (i \<in> mask_set n e)) \<and>
    popcount m = card (mask_set n e) \<and> surviving_buckets m = sorted_list_of_set (mask_set n e) \<and>
    mask_is_empty m = (mask_set n e = {})"
proof -
  obtain m where m: "eval_mask n e = Inr m" "mask_ok n m" "buckets m = mask_set n e" using eval_mask_ok [of n e] by (auto simp: denotes_iff)
  have "get_mask_bit m i = (i \<in> mask_set n e)" for i using m(3) by (auto simp: buckets_def)
  then show ?thesis using m popcount_ok [OF m(2)] surviving_ok [OF m(2)] is_empty_ok [OF m(2)] by auto
qed

end
