(* ===== verification/KV_Resize.thy ===== *)
theory KV_Resize
  imports KV_Store
begin

text \<open>
  Writes during a resize of the index (\<^verbatim>\<open>kv_resize.rs\<close>): a manager sends insertions to a temporary store while
  the primary is being grown, and merges them when the resize ends.  The lemmas show that lookups do not notice
  the resize, unless a resize begins while another one is under way.
\<close>

record kv_resize_manager =
  rm_primary :: kv_store
  rm_buffer :: "kv_store option"
  rm_is_resizing :: bool

definition resize_manager_new :: "kv_store \<Rightarrow> kv_resize_manager" where
  "resize_manager_new primary = \<lparr> rm_primary = primary, rm_buffer = None, rm_is_resizing = False \<rparr>"

definition begin_resize :: "kv_resize_manager \<Rightarrow> kv_resize_manager" where
  "begin_resize m =
    m\<lparr> rm_buffer := Some (kv_store_new (ks_hash_algo (rm_primary m)) 64), rm_is_resizing := True \<rparr>"

definition end_resize :: "kv_resize_manager \<Rightarrow> kv_resize_manager" where
  "end_resize m =
    (case rm_buffer m of
       Some buffer \<Rightarrow>
         m\<lparr> rm_primary := fold (\<lambda>entry primary. kv_store_insert primary entry) (ks_entries buffer) (rm_primary m),
            rm_buffer := None, rm_is_resizing := False \<rparr>
     | None \<Rightarrow> m\<lparr> rm_is_resizing := False \<rparr>)"

definition rm_insert :: "kv_entry \<Rightarrow> kv_resize_manager \<Rightarrow> kv_resize_manager" where
  "rm_insert entry m =
    (case (rm_is_resizing m, rm_buffer m) of
       (True, Some buffer) \<Rightarrow> m\<lparr> rm_buffer := Some (kv_store_insert buffer entry) \<rparr>
     | _ \<Rightarrow> m\<lparr> rm_primary := kv_store_insert (rm_primary m) entry \<rparr>)"

definition rm_get :: "kv_resize_manager \<Rightarrow> bytes \<Rightarrow> kv_entry option option" where
  "rm_get m hash =
    (case (rm_is_resizing m, rm_buffer m) of
       (True, Some buffer) \<Rightarrow>
         Option.bind (kv_store_get buffer hash) (\<lambda>found.
           case found of Some entry \<Rightarrow> Some (Some entry) | None \<Rightarrow> kv_store_get (rm_primary m) hash)
     | _ \<Rightarrow> kv_store_get (rm_primary m) hash)"

definition rm_contains :: "kv_resize_manager \<Rightarrow> bytes \<Rightarrow> bool option" where
  "rm_contains m hash =
    (case (rm_is_resizing m, rm_buffer m) of
       (True, Some buffer) \<Rightarrow>
         Option.bind (kv_store_contains buffer hash) (\<lambda>found.
           if found then Some True else kv_store_contains (rm_primary m) hash)
     | _ \<Rightarrow> kv_store_contains (rm_primary m) hash)"

section \<open>Sequences of calls\<close>

datatype resize_op = RInsert kv_entry | RBegin | REnd

fun resize_step :: "resize_op \<Rightarrow> kv_resize_manager \<Rightarrow> kv_resize_manager" where
  "resize_step (RInsert e) m = rm_insert e m"
| "resize_step RBegin m = begin_resize m"
| "resize_step REnd m = end_resize m"

text \<open>What the calls are to leave: the entries of the primary, and those written since a resize began.\<close>

type_synonym kv_view = "bytes \<Rightarrow> kv_entry option"

fun resize_spec :: "resize_op \<Rightarrow> kv_view \<times> kv_view option \<Rightarrow> kv_view \<times> kv_view option" where
  "resize_spec (RInsert e) (p, None) = (p(kv_hash e \<mapsto> e), None)"
| "resize_spec (RInsert e) (p, Some b) = (p, Some (b(kv_hash e \<mapsto> e)))"
| "resize_spec RBegin (p, b) = (p, Some Map.empty)"
| "resize_spec REnd (p, None) = (p, None)"
| "resize_spec REnd (p, Some b) = (p ++ b, None)"

definition visible :: "kv_view \<times> kv_view option \<Rightarrow> kv_view" where
  "visible v = (case v of (p, None) \<Rightarrow> p | (p, Some b) \<Rightarrow> p ++ b)"

text \<open>No resize begins before the last one has ended.\<close>

fun resizes_apart :: "bool \<Rightarrow> resize_op list \<Rightarrow> bool" where
  "resizes_apart busy [] = True"
| "resizes_apart busy (RInsert e # ops) = resizes_apart busy ops"
| "resizes_apart busy (RBegin # ops) = (\<not> busy \<and> resizes_apart True ops)"
| "resizes_apart busy (REnd # ops) = resizes_apart False ops"

fun inserted :: "resize_op list \<Rightarrow> kv_entry list" where
  "inserted [] = []"
| "inserted (RInsert e # ops) = e # inserted ops"
| "inserted (_ # ops) = inserted ops"

definition store_view :: "kv_store \<Rightarrow> kv_view" where
  "store_view s = kmap kv_hash (ks_entries s)"

definition resize_ok :: "hash_algorithm \<Rightarrow> kv_resize_manager \<Rightarrow> bool" where
  "resize_ok a m \<longleftrightarrow> kv_ok (rm_primary m) \<and> ks_hash_algo (rm_primary m) = a \<and>
    (rm_is_resizing m \<longleftrightarrow> rm_buffer m \<noteq> None) \<and>
    (\<forall>b. rm_buffer m = Some b \<longrightarrow> kv_ok b \<and> ks_hash_algo b = a)"

definition resize_view :: "kv_resize_manager \<Rightarrow> kv_view \<times> kv_view option" where
  "resize_view m = (store_view (rm_primary m), map_option store_view (rm_buffer m))"

text \<open>The number of entries of both stores, which bounds the counts of their tables.\<close>

definition resize_size :: "kv_resize_manager \<Rightarrow> nat" where
  "resize_size m = length (ks_entries (rm_primary m)) + (case rm_buffer m of None \<Rightarrow> 0 | Some b \<Rightarrow> length (ks_entries b))"

lemma insert_view:
  assumes "kv_ok s" "ks_hash_algo s = a" "length (kv_hash e) = hash_length a" "length (ks_entries s) + 1 < 2 ^ 32"
  shows "kv_ok (kv_store_insert s e)" "ks_hash_algo (kv_store_insert s e) = a"
    "store_view (kv_store_insert s e) = (store_view s)(kv_hash e \<mapsto> e)"
    "length (ks_entries (kv_store_insert s e)) \<le> length (ks_entries s) + 1"
  using kv_store_insert_correct [OF kv_okD(1) [OF assms(1)]] assms by (simp_all add: store_view_def)

lemma new_view: "kv_ok (kv_store_new a 64)" "ks_hash_algo (kv_store_new a 64) = a" "store_view (kv_store_new a 64) = Map.empty"
  "ks_entries (kv_store_new a 64) = []"
  by (simp_all add: kv_store_new_ok) (simp_all add: kv_store_new_def store_view_def)

lemma merge_view:
  assumes s: "kv_ok s" "ks_hash_algo s = a" and b: "kv_ok b" "ks_hash_algo b = a"
    and small: "length (ks_entries s) + length (ks_entries b) < 2 ^ 32"
  defines "s' \<equiv> fold (\<lambda>entry primary. kv_store_insert primary entry) (ks_entries b) s"
  shows "kv_ok s'" "ks_hash_algo s' = a" "store_view s' = store_view s ++ store_view b"
    "length (ks_entries s') \<le> length (ks_entries s) + length (ks_entries b)"
proof -
  note es = kv_sortedD [OF kv_okD(1) [OF b(1)], unfolded b(2)]
  have f: "kv_sorted s' \<and> ks_hash_algo s' = a"
    "kmap kv_hash (ks_entries s') = kmap kv_hash (ks_entries s) ++ kmap kv_hash (rev (ks_entries b))"
    using kv_index.puts_correct [OF conjI [OF kv_okD(1) [OF s(1)] s(2)] es(2)] by (simp_all add: s'_def)
  have "kmap kv_hash (rev (ks_entries b)) = kmap kv_hash (ks_entries b)"
    using sorted_by_distinct [OF es(1)] by (intro kmap_eqI) (simp_all flip: rev_map)
  then show "store_view s' = store_view s ++ store_view b" using f(2) by (simp add: store_view_def)
  show "ks_hash_algo s' = a" using f(1) by simp
  show "kv_ok s'" "length (ks_entries s') \<le> length (ks_entries s) + length (ks_entries b)"
    using insertions_ok [OF s(1) es(2) [folded s(2)] small] by (simp_all add: s'_def)
qed

lemma resize_step_ok:
  assumes "resize_ok a m" "\<And>e. x = RInsert e \<Longrightarrow> length (kv_hash e) = hash_length a"
    and "resize_size m + length (inserted [x]) < 2 ^ 32"
  shows "resize_ok a (resize_step x m) \<and> resize_view (resize_step x m) = resize_spec x (resize_view m) \<and>
    resize_size (resize_step x m) \<le> resize_size m + length (inserted [x])"
proof (cases x)
  case (RInsert e)
  then have hl: "length (kv_hash e) = hash_length a" using assms(2) by simp
  show ?thesis
  proof (cases "rm_buffer m")
    case None
    then show ?thesis using RInsert assms(1,3) insert_view [OF _ _ hl, of "rm_primary m"]
      by (simp add: rm_insert_def resize_ok_def resize_view_def resize_size_def)
  next
    case (Some b)
    then show ?thesis using RInsert assms(1,3) insert_view [OF _ _ hl, of b]
      by (simp add: rm_insert_def resize_ok_def resize_view_def resize_size_def)
  qed
next
  case RBegin
  then show ?thesis
    using assms(1) by (simp add: begin_resize_def resize_ok_def resize_view_def resize_size_def new_view)
next
  case REnd
  show ?thesis
  proof (cases "rm_buffer m")
    case None
    then show ?thesis using REnd assms(1) by (simp add: end_resize_def resize_ok_def resize_view_def resize_size_def)
  next
    case (Some b)
    then show ?thesis using REnd assms(1,3) merge_view [of "rm_primary m" a b]
      by (simp add: end_resize_def resize_ok_def resize_view_def resize_size_def)
  qed
qed

lemma resize_run_ok:
  assumes "resize_ok a m" "\<forall>e\<in>set (inserted ops). length (kv_hash e) = hash_length a"
    and "resize_size m + length (inserted ops) < 2 ^ 32"
  shows "resize_ok a (fold resize_step ops m) \<and> resize_view (fold resize_step ops m) = fold resize_spec ops (resize_view m)"
  using assms
proof (induction ops arbitrary: m)
  case (Cons x ops)
  have split: "inserted (x # ops) = inserted [x] @ inserted ops" by (cases x) simp_all
  have "resize_ok a (resize_step x m) \<and> resize_view (resize_step x m) = resize_spec x (resize_view m) \<and>
      resize_size (resize_step x m) \<le> resize_size m + length (inserted [x])"
    using Cons.prems unfolding split by (intro resize_step_ok) auto
  then show ?case using Cons.IH [of "resize_step x m"] Cons.prems(2,3) unfolding split by simp
qed simp

lemma answers_visible:
  assumes "resize_ok a m"
  shows "rm_get m h = Some (visible (resize_view m) h)" "rm_contains m h = Some (visible (resize_view m) h \<noteq> None)"
  using assms
  by (cases "rm_buffer m"; auto simp: rm_get_def rm_contains_def resize_ok_def resize_view_def visible_def store_view_def
      kv_store_get_kmap kv_store_contains_def map_add_def split: option.splits)+

lemma spec_inserted:
  "resizes_apart (snd v \<noteq> None) ops \<Longrightarrow> visible (fold resize_spec ops v) = visible v ++ kmap kv_hash (rev (inserted ops))"
proof (induction ops arbitrary: v)
  case (Cons x ops)
  obtain p b where v: "v = (p, b)" by (cases v)
  have "resizes_apart (snd (resize_spec x v) \<noteq> None) ops"
    using Cons.prems v by (cases x; cases b) simp_all
  moreover have "visible (resize_spec x v) = visible v ++ kmap kv_hash (case x of RInsert e \<Rightarrow> [e] | _ \<Rightarrow> [])"
    using Cons.prems v by (cases x; cases b) (simp_all add: visible_def)
  moreover have "inserted (x # ops) = (case x of RInsert e \<Rightarrow> [e] | _ \<Rightarrow> []) @ inserted ops" by (cases x) simp_all
  ultimately show ?case using Cons.IH [of "resize_spec x v"] by (cases x) (simp_all add: kmap_append fun_upd_def)
qed simp

section \<open>Properties\<close>

text \<open>
  C28: Lookups do not notice a resize.  From an empty store, after any sequence of insertions, beginnings and ends of
  resizes with fewer than \<open>2 ^ 32\<close> insertions, so that no 32-bit bucket count overflows, no lookup panics; a lookup returns the newest entry among those of the primary and those written since
  the resize began, and membership agrees with it.  When no resize begins before the last one has ended, this is the
  last entry inserted under the hash, as if there had been no resize.  A resize that begins during another one
  discards what was written since the first began.
\<close>

theorem resize_preserves_lookups:
  assumes "0 < n" "\<forall>e\<in>set (inserted ops). length (kv_hash e) = hash_length a" "length (inserted ops) < 2 ^ 32"
    and m: "m = fold resize_step ops (resize_manager_new (kv_store_new a n))"
    and v: "v = visible (fold resize_spec ops (Map.empty, None))"
  shows "rm_get m h = Some (v h) \<and> rm_contains m h = Some (v h \<noteq> None) \<and>
    (resizes_apart False ops \<longrightarrow> v h = kmap kv_hash (rev (inserted ops)) h)"
proof -
  let ?m = "resize_manager_new (kv_store_new a n)"
  have ok: "resize_ok a ?m" using kv_store_new_ok [OF assms(1), of a]
    by (simp add: resize_ok_def resize_manager_new_def) (simp add: kv_store_new_def)
  have "resize_view ?m = (Map.empty, None)" "resize_size ?m = 0"
    by (simp_all add: resize_view_def resize_size_def resize_manager_new_def store_view_def kv_store_new_def)
  then have r: "resize_ok a m" "v = visible (resize_view m)"
    using resize_run_ok [OF ok assms(2)] assms(3) by (simp_all add: m v)
  have "resizes_apart False ops \<Longrightarrow> v = kmap kv_hash (rev (inserted ops))"
    using spec_inserted [of "(Map.empty, None)" ops] by (simp add: v visible_def)
  then show ?thesis using answers_visible [OF r(1), of h] r(2) by simp
qed

theorem resize_preserves_lookups_witness:
  "let e = \<lparr> kv_type_flags = 1, kv_hash = replicate 32 3, kv_offset = 5, kv_total_length = 6 \<rparr>;
       f = \<lparr> kv_type_flags = 2, kv_hash = replicate 32 3, kv_offset = 9, kv_total_length = 7 \<rparr>;
       new = resize_manager_new (kv_store_new Blake3_256 16) in
   rm_get (fold resize_step [RInsert e, RBegin, RInsert f, REnd] new) (replicate 32 3) = Some (Some f) \<and>
   rm_get (fold resize_step [RInsert e, RBegin, RInsert f, RBegin, REnd] new) (replicate 32 3) = Some (Some e)"
proof -
  let ?e = "\<lparr> kv_type_flags = 1, kv_hash = replicate 32 3, kv_offset = 5, kv_total_length = 6 \<rparr>"
  let ?f = "\<lparr> kv_type_flags = 2, kv_hash = replicate 32 3, kv_offset = 9, kv_total_length = 7 \<rparr>"
  have "\<forall>x\<in>set (inserted [RInsert ?e, RBegin, RInsert ?f, REnd]). length (kv_hash x) = hash_length Blake3_256"
    "\<forall>x\<in>set (inserted [RInsert ?e, RBegin, RInsert ?f, RBegin, REnd]). length (kv_hash x) = hash_length Blake3_256"
    by (simp_all add: hash_length_def)
  from resize_preserves_lookups [OF _ this(1) _ refl refl, of 16 "replicate 32 3"]
    resize_preserves_lookups [OF _ this(2) _ refl refl, of 16 "replicate 32 3"]
  show ?thesis by (simp add: Let_def visible_def)
qed

end
