(* ===== verification/Spec2Isabelle.thy ===== *)
theory Spec2Isabelle
  imports Records KV_Store Disk_KV_Ops Void_Manager Entry_Scanner KV_Expand BTree_Delete Tree_Merge Operation_Tracker Engine_Runs Access_Control NVT_Masks KV_Resize
begin

text \<open>
  A verification development of aeordb, a content-addressed database kept in a single file.  File names below are
  relative to \<^verbatim>\<open>src/aeordb-lib/src/engine/\<close>.

  \<^bold>\<open>The program.\<close>  The database file holds a header in two slots, an index block of hash-bucketed pages, a log of
  entries, and behind the log a \<^emph>\<open>hot tail\<close> with the index writes that are not yet in pages.  \<^verbatim>\<open>StorageEngine\<close>
  composes a log writer, the disk index and a manager of free ranges (\<^emph>\<open>voids\<close>): a store takes a void or appends,
  indexes the entry, and grows the index block when a page overflows; opening reads the header and the hot tail,
  or rebuilds the index from the log.  Directories are stored in the engine as B-trees of hashed nodes, a version
  is the hash of a root directory, replication merges two versions with their common base, and garbage
  collection frees the entries no version reaches.  Permission links in directories and rules of API keys decide
  who may do what at a path.

  \<^bold>\<open>Conventions.\<close>  An operation that can fail returns \<open>engine_error + 'a\<close>, with the constructors of
  \<^verbatim>\<open>errors.rs\<close> and shortened messages; where the code can panic or not return, the result is wrapped in an
  option and \<open>None\<close> stands for that.  Integers that can wrap are words of their width.  Strings are their UTF-8
  bytes, a file is the list of its bytes, and writing beyond its end fills with zeros.  Hash maps and sets are
  vectors sorted by key.  The clock, the hash functions, the CRC-32 function, compression and the glob matcher are
  arguments; the statements ask of them no more than the length of a hash, or that the entries at hand do not
  collide.  A lock is an atomic section.  The file system does not fail and \<^verbatim>\<open>fsync\<close> has no effect of its own;
  crashes appear where the code defends against them, as torn header writes, truncated hot tails and damaged
  log entries.  The state a failed operation leaves is tracked where a caller goes on after the failure and for the
  insertion into a directory; elsewhere a failure is only its error.

  \<^bold>\<open>Foundations.\<close>
  \<^item> \<open>Aeor_Prelude\<close>: words, byte strings, files, errors and their propagation, UTF-8, and vectors sorted by key, with
    the locale \<open>keyed_store\<close> for stores that behave as maps.
  \<^item> \<open>Op_Refinement\<close>: the locale \<open>op_refinement\<close>, which carries a simulation of one operation over to sequences; the
    disk index and the void manager interpret it.
  \<^item> \<open>Binary_Utils\<close> (\<^verbatim>\<open>binary_utils.rs\<close>): bounds-checked readers, and the locales \<open>record_codec\<close> and
    \<open>fixed_records\<close> for lists of records, which the pages, the bucket table and the hot tail interpret.

  \<^bold>\<open>Formats.\<close>
  \<^item> \<open>Entry_Codec\<close> (\<^verbatim>\<open>entry_header.rs\<close>, \<^verbatim>\<open>entry_type.rs\<close>, \<^verbatim>\<open>hash_algorithm.rs\<close>, \<^verbatim>\<open>compression.rs\<close>):
    the header of a log entry parses back, also from a longer buffer.
  \<^item> \<open>Records\<close> (\<^verbatim>\<open>file_record.rs\<close>, \<^verbatim>\<open>symlink_record.rs\<close>, \<^verbatim>\<open>deletion_record.rs\<close>,
    \<^verbatim>\<open>directory_entry.rs\<close>): the stored values parse back.
  \<^item> \<open>File_Header\<close> (\<^verbatim>\<open>file_header.rs\<close>): after any history of complete and torn updates the last complete one is
    read, and for which algorithms serializing a header panics.

  \<^bold>\<open>The index.\<close>
  \<^item> \<open>KV_Pages\<close> (\<^verbatim>\<open>kv_pages.rs\<close>, \<^verbatim>\<open>kv_stages.rs\<close>), \<open>Hot_Tail\<close> (\<^verbatim>\<open>hot_tail.rs\<close>) and \<open>NVT\<close>
    (\<^verbatim>\<open>nvt.rs\<close> and the hash converter of \<^verbatim>\<open>scalar_converter.rs\<close>, with the rounding of its floating-point
    arithmetic): pages, the hot tail and the map from hashes to buckets.
  \<^item> \<open>NVT_Masks\<close> (\<^verbatim>\<open>nvt_ops.rs\<close>): bit masks over buckets denote the sets they are built to be.
  \<^item> \<open>KV_Store\<close> (\<^verbatim>\<open>kv_store.rs\<close>) and \<open>KV_Resize\<close> (\<^verbatim>\<open>kv_resize.rs\<close>): the index in memory is a map, and stays
    one while it is resized, as long as the 32-bit counts of its buckets do not overflow.
  \<^item> \<open>KV_Snapshot\<close> (\<^verbatim>\<open>kv_snapshot.rs\<close>), \<open>Disk_KV\<close>, \<open>Disk_KV_Correct\<close> and \<open>Disk_KV_Ops\<close>
    (\<^verbatim>\<open>disk_kv_store.rs\<close>): the index on disk and its published snapshot refine a map over every sequence of
    operations; a flush loses nothing; opening recovers what the hot tail holds.
  \<^item> \<open>KV_Expand\<close> (\<^verbatim>\<open>kv_expand.rs\<close>): moving the log to make room for a larger index block.

  \<^bold>\<open>The log and its space.\<close>
  \<^item> \<open>Append_Writer\<close> (\<^verbatim>\<open>append_writer.rs\<close>) and \<open>Entry_Scanner\<close> (\<^verbatim>\<open>entry_scanner.rs\<close>): what is appended is
    read back and scanned back; the rebuild scan ends on every file, and on which headers the plain iterator does
    not.
  \<^item> \<open>Void_Manager\<close> (\<^verbatim>\<open>void_manager.rs\<close>): both indexes of the manager refine one list of voids, and an
    allocation never hands out a byte twice.

  \<^bold>\<open>The engine\<close> (\<^verbatim>\<open>storage_engine.rs\<close>, \<^verbatim>\<open>gc.rs\<close>).
  \<^item> \<open>Storage_Engine\<close> (state and reads), \<open>Storage_Ops\<close> (writes), \<open>Storage_Recovery\<close> (durability, rebuild, opening),
    \<open>GC_Sweep\<close> (the sweep) and \<open>Rebuild_Records\<close> (how scanned records become index entries) are the model.
  \<^item> \<open>Storage_Correct\<close> has the invariant \<open>engine_ok\<close>, which ties index, log bytes and voids together;
    \<open>Storage_Steps\<close>, \<open>Storage_Refinement\<close>, \<open>Storage_Sequences\<close> and \<open>Void_Recovery\<close> show that every operation keeps
    it and what it does to the contents.
  \<^item> \<open>Engine_Runs\<close>: over any sequence of operations on a new database reads return what was left, stores succeed,
    and recovered voids are free bytes.
  \<^item> \<open>Operation_Tracker\<close>: the guards of engine calls in concurrent threads, as a step relation; a thread is counted
    once while its outermost call is in progress, and shutdown drains the calls.

  \<^bold>\<open>Trees.\<close>
  \<^item> \<open>BTree\<close> (\<^verbatim>\<open>btree.rs\<close>) with \<open>BTree_Correct\<close>, \<open>BTree_Insert\<close>, \<open>BTree_Update\<close> and \<open>BTree_Delete\<close>: directories
    as sorted lists of entries; both implementations of insertion agree, up to what they leave in the store after a
    failure; which bulk-built levels cannot be read.
  \<^item> \<open>Tree_Walker\<close> (\<^verbatim>\<open>tree_walker.rs\<close>) and \<open>Tree_Merge\<close> (\<^verbatim>\<open>merge.rs\<close>): the walk of a version ends on every store in
    which no B-tree node contains itself, and not where a root does; two replicas that merge decide for the same
    file and the same link at every path, but not between a file and a link.

  \<^bold>\<open>Paths and access.\<close>
  \<^item> \<open>Path_Utils\<close> (\<^verbatim>\<open>path_utils.rs\<close>): normalization of paths.
  \<^item> \<open>Access_Control\<close> (\<^verbatim>\<open>permissions.rs\<close>, \<^verbatim>\<open>permission_resolver.rs\<close>, \<^verbatim>\<open>grants_index.rs\<close>,
    \<^verbatim>\<open>api_key_rules.rs\<close>): which link decides, what the index of grants opens, and how the flags of keys and links
    differ.

  \<^bold>\<open>Bounds and fuel.\<close>  A recursion along child hashes (\<open>BTree\<close>, \<open>Tree_Walker\<close>) takes a depth; the theorems give a
    depth that suffices, the height of the represented tree or the number of entries of the store.  Insertions into
    the index in memory are bounded by \<open>2 ^ 32\<close>, the range of a bucket count; beyond it the model wraps around as a
    release build does.  The scan loops of \<open>Entry_Scanner\<close> count down the bytes of the file, which every step of the
    rebuild scan consumes.  The plain iterator and the search for a void are partial functions: the first is shown
    not to return on some files, the second always to return.  The runs of \<open>Engine_Runs\<close> keep the log below
    \<open>2 ^ 64\<close> bytes and do not grow the index block: growth while the engine runs is modelled, and its search for
    the end of an entry across the block boundary can miss that end, so that the contract does not hold across it.

  \<^bold>\<open>Not modelled.\<close>
  \<^item> Directory operations, batches, versions, backup, the mark phase of garbage collection and the stored system
    configuration: they combine the modelled parts with chunking, JSON documents and notifications.
  \<^item> Queries, secondary indexes, similarity scores and the numeric converters: their results rest on
    floating-point arithmetic and JSON values; of these only the bucket masks are modelled.
  \<^item> Carrying out the operations of a merge (\<^verbatim>\<open>sync_apply.rs\<close>): it writes through directory operations, which may
    replace a file by a directory of the same name or fail.
  \<^item> Replication transport, clocks, tasks, webhooks, e-mail, metrics and logging: input and output, wall-clock time
    or statistics no modelled operation reads.
  \<^item> Spill files for a failing device, header repair and the verification tools: they inspect a file system that
    the model takes not to fail.
  \<^item> The HTTP server, authentication, plugins, media parsers and the command line: glue around third-party
    frameworks, cryptography, WebAssembly and file formats.
\<close>

end
